(* ===== verification/Core_Prelude.thy ===== *)
theory Core_Prelude
  imports Main "HOL-Library.Word"
begin

text \<open>
  Shared vocabulary of the development: the machine integers of ServerCore/Types.h, the two
  builds the crash macros of ServerCore/CoreMacros.h distinguish, the ways a call can fail,
  sequencing of calls that may fail, and the word and list facts the component theories share.
\<close>

unbundle bit_operations_syntax

type_synonym u8 = "8 word"
type_synonym u16 = "16 word"
type_synonym u32 = "32 word"
type_synonym u64 = "64 word"

section \<open>Failures\<close>

text \<open>
  A call either returns a value or stops the process. \<open>AssertCrash\<close> is
  \<open>ASSERT_CRASH\<close> firing, \<open>ForcedCrash\<close> is \<open>FORCED_CRASH\<close>, \<open>StdException\<close> an exception of
  the standard library nobody catches, and \<open>Undefined\<close> a C++ operation without defined
  behaviour (null dereference, index out of range, overlapping \<open>memcpy\<close>).
\<close>

datatype failure =
    AssertCrash string
  | ForcedCrash string
  | StdException string
  | Undefined string

type_synonym 'a outcome = "failure + 'a"

datatype build = DebugBuild | ReleaseBuild

text \<open>The two crash macros. \<open>ASSERT_CRASH\<close> fires when its expression is \<^emph>\<open>true\<close>, and only
  under \<open>_DEBUG\<close>; in a release build the expression is not even evaluated.\<close>

definition assert_crash :: "build \<Rightarrow> bool \<Rightarrow> string \<Rightarrow> unit outcome" where
  "assert_crash b expression message =
     (if b = DebugBuild \<and> expression then Inl (AssertCrash message) else Inr ())"

definition forced_crash :: "string \<Rightarrow> 'a outcome" where
  "forced_crash message = Inl (ForcedCrash message)"

fun and_then :: "'a outcome \<Rightarrow> ('a \<Rightarrow> 'b outcome) \<Rightarrow> 'b outcome" where
  "and_then (Inl e) f = Inl e"
| "and_then (Inr x) f = f x"

lemma assert_crash_release [simp]: "assert_crash ReleaseBuild e m = Inr ()"
  by (simp add: assert_crash_def)

lemma assert_crash_False [simp]: "assert_crash b False m = Inr ()"
  by (simp add: assert_crash_def)

lemma assert_crash_debug [simp]: "assert_crash DebugBuild True m = Inl (AssertCrash m)"
  by (simp add: assert_crash_def)

lemma assert_crash_Inr_iff: "assert_crash b e m = Inr u \<longleftrightarrow> (b = DebugBuild \<longrightarrow> \<not> e)"
  by (cases b) (auto simp: assert_crash_def)

lemma and_then_Inr_iff: "and_then m f = Inr y \<longleftrightarrow> (\<exists>x. m = Inr x \<and> f x = Inr y)"
  by (cases m) auto

lemma and_then_Inl_iff: "and_then m f = Inl e \<longleftrightarrow> m = Inl e \<or> (\<exists>x. m = Inr x \<and> f x = Inl e)"
  by (cases m) auto

section \<open>Integer conversions\<close>

text \<open>The value an \<open>int32\<close> holds after a conversion from a wider or unsigned integer.\<close>

definition to_int32 :: "int \<Rightarrow> int" where
  "to_int32 x = signed_take_bit 31 x"

lemma to_int32_id: "- 2147483648 \<le> x \<Longrightarrow> x < 2147483648 \<Longrightarrow> to_int32 x = x"
  by (simp add: to_int32_def signed_take_bit_int_eq_self)

definition to_uint32 :: "int \<Rightarrow> int" where
  "to_uint32 x = x mod 4294967296"

lemma unat_u32_less: "unat (x :: u32) < 4294967296"
  by (rule order_less_le_trans [OF unsigned_less]) simp

section \<open>Copying bytes inside one buffer\<close>

text \<open>
  \<open>memcpy (&buf[dst], &buf[src], n)\<close> within one buffer. A negative count becomes a huge
  \<open>size_t\<close>; positions outside the buffer and overlapping regions have no defined behaviour.
\<close>

definition memcpy_within :: "'a list \<Rightarrow> int \<Rightarrow> int \<Rightarrow> int \<Rightarrow> 'a list outcome" where
  "memcpy_within xs dst src n =
     (if n < 0 \<or> dst < 0 \<or> src < 0 \<or> int (length xs) < dst + n \<or> int (length xs) < src + n
      then Inl (Undefined ''memcpy out of range'')
      else if 0 < n \<and> dst < src + n \<and> src < dst + n
      then Inl (Undefined ''memcpy overlap'')
      else Inr (take (nat dst) xs @ take (nat n) (drop (nat src) xs) @ drop (nat (dst + n)) xs))"

lemma length_memcpy_within: "memcpy_within xs d s n = Inr ys \<Longrightarrow> length ys = length xs"
  by (auto simp: memcpy_within_def split: if_splits)

text \<open>Bytes written at a position of a buffer, as the kernel or a \<open>memcpy\<close> from elsewhere does.\<close>

definition overwrite :: "'a list \<Rightarrow> nat \<Rightarrow> 'a list \<Rightarrow> 'a list" where
  "overwrite xs pos bs = take pos xs @ bs @ drop (pos + length bs) xs"

lemma length_overwrite [simp]: "pos + length bs \<le> length xs \<Longrightarrow> length (overwrite xs pos bs) = length xs"
  by (simp add: overwrite_def)

lemma take_overwrite [simp]: "n \<le> pos \<Longrightarrow> pos \<le> length xs \<Longrightarrow> take n (overwrite xs pos bs) = take n xs"
  by (simp add: overwrite_def)

lemma overwrite_slice:
  assumes "a \<le> pos" and "pos + length bs \<le> length xs"
  shows "take (pos + length bs - a) (drop a (overwrite xs pos bs)) = take (pos - a) (drop a xs) @ bs"
proof -
  have "drop a (overwrite xs pos bs) = take (pos - a) (drop a xs) @ bs @ drop (pos + length bs) xs"
    using assms by (simp add: overwrite_def drop_take)
  moreover have "length (take (pos - a) (drop a xs) @ bs) = pos + length bs - a"
    using assms by simp
  ultimately show ?thesis
    by simp
qed

end
