(* ===== verification/Recv_Buffer.thy ===== *)
theory Recv_Buffer
  imports Core_Prelude
begin

text \<open>
  The receive buffer of ServerCore/RecvBuffer.h and RecvBuffer.cpp: one linear byte buffer of
  ten times the nominal size with a read and a write cursor. \<open>Clean\<close> moves the unread bytes
  to the front once less than one nominal size is free at the end.
  Cursors are \<open>int32\<close> in the code; they are kept as \<open>int\<close> here, and the invariant bounds them
  by the capacity, so no operation on a well-formed buffer overflows.
\<close>

section \<open>State and operations\<close>

record recv_buffer =
  capacity :: int
  bufferSize :: int
  readCursor :: int
  writeCursor :: int
  buffer :: "u8 list"

definition BUFFER_COUNT :: int where
  "BUFFER_COUNT = 10"

text \<open>\<open>_bufferSize * BUFFER_COUNT\<close> is computed in \<open>unsigned int\<close> and converted back to \<open>int32\<close>;
  \<open>resize\<close> with a negative capacity asks for an impossible length and throws.\<close>

definition RecvBuffer :: "int \<Rightarrow> recv_buffer outcome" where
  "RecvBuffer n =
     (let cap = to_int32 (to_uint32 (to_uint32 n * BUFFER_COUNT)) in
      if cap < 0 then Inl (StdException ''length_error'')
      else Inr \<lparr>capacity = cap, bufferSize = n, readCursor = 0, writeCursor = 0,
                buffer = replicate (nat cap) 0\<rparr>)"

definition DataSize :: "recv_buffer \<Rightarrow> int" where
  "DataSize rb = writeCursor rb - readCursor rb"

definition FreeSize :: "recv_buffer \<Rightarrow> int" where
  "FreeSize rb = capacity rb - writeCursor rb"

text \<open>\<open>&buffer[i]\<close> on a \<open>std::vector\<close> is defined only for an index inside the vector. The model
  returns the index the pointer points to.\<close>

definition ReadCursor :: "recv_buffer \<Rightarrow> int outcome" where
  "ReadCursor rb =
     (if 0 \<le> readCursor rb \<and> readCursor rb < int (length (buffer rb)) then Inr (readCursor rb)
      else Inl (Undefined ''vector index out of range''))"

definition WriteCursor :: "recv_buffer \<Rightarrow> int outcome" where
  "WriteCursor rb =
     (if 0 \<le> writeCursor rb \<and> writeCursor rb < int (length (buffer rb)) then Inr (writeCursor rb)
      else Inl (Undefined ''vector index out of range''))"

definition Clean :: "recv_buffer \<Rightarrow> recv_buffer outcome" where
  "Clean rb =
     (let dataSize = DataSize rb in
      if dataSize = 0 then Inr (rb\<lparr>readCursor := 0, writeCursor := 0\<rparr>)
      else if FreeSize rb < bufferSize rb then
        and_then (memcpy_within (buffer rb) 0 (readCursor rb) dataSize)
          (\<lambda>bytes. Inr (rb\<lparr>buffer := bytes, readCursor := 0, writeCursor := dataSize\<rparr>))
      else Inr rb)"

definition OnRead :: "int \<Rightarrow> recv_buffer \<Rightarrow> bool \<times> recv_buffer" where
  "OnRead bytesRead rb =
     (if bytesRead > DataSize rb then (False, rb)
      else (True, rb\<lparr>readCursor := readCursor rb + bytesRead\<rparr>))"

definition OnWrite :: "int \<Rightarrow> recv_buffer \<Rightarrow> bool \<times> recv_buffer" where
  "OnWrite bytesWritten rb =
     (if bytesWritten > FreeSize rb then (False, rb)
      else (True, rb\<lparr>writeCursor := writeCursor rb + bytesWritten\<rparr>))"

text \<open>What \<open>WSARecv\<close> does to the memory it was given: the received bytes appear at the write
  cursor. The cursor itself moves later, in \<open>OnWrite\<close>.\<close>

definition kernel_fills :: "u8 list \<Rightarrow> recv_buffer \<Rightarrow> recv_buffer" where
  "kernel_fills bs rb = rb\<lparr>buffer := overwrite (buffer rb) (nat (writeCursor rb)) bs\<rparr>"

section \<open>Invariant and abstraction\<close>

definition rb_wf :: "recv_buffer \<Rightarrow> bool" where
  "rb_wf rb \<longleftrightarrow> 0 < bufferSize rb \<and> capacity rb = bufferSize rb * BUFFER_COUNT \<and>
     capacity rb < 2147483648 \<and> int (length (buffer rb)) = capacity rb \<and>
     0 \<le> readCursor rb \<and> readCursor rb \<le> writeCursor rb \<and> writeCursor rb \<le> capacity rb"

text \<open>The bytes received and not yet consumed, in order.\<close>

definition pending :: "recv_buffer \<Rightarrow> u8 list" where
  "pending rb = take (nat (DataSize rb)) (drop (nat (readCursor rb)) (buffer rb))"

lemmas rb_defs = rb_wf_def DataSize_def FreeSize_def BUFFER_COUNT_def

lemma RecvBuffer_value:
  assumes "0 < n" and "n \<le> 214748364"
  shows "RecvBuffer n = Inr \<lparr>capacity = n * 10, bufferSize = n, readCursor = 0,
           writeCursor = 0, buffer = replicate (nat (n * 10)) 0\<rparr>"
  using assms
  by (simp add: RecvBuffer_def BUFFER_COUNT_def to_uint32_def to_int32_id Let_def)

lemma rb_wf_RecvBuffer:
  "0 < n \<Longrightarrow> n \<le> 214748364 \<Longrightarrow> RecvBuffer n = Inr rb \<Longrightarrow> rb_wf rb \<and> pending rb = []"
  by (auto simp: RecvBuffer_value rb_defs pending_def)

lemma length_pending: "rb_wf rb \<Longrightarrow> int (length (pending rb)) = DataSize rb"
  by (auto simp: rb_defs pending_def)

lemma rb_wf_OnWrite: "rb_wf rb \<Longrightarrow> 0 \<le> n \<Longrightarrow> rb_wf (snd (OnWrite n rb))"
  by (auto simp: OnWrite_def rb_defs)

lemma rb_wf_OnRead: "rb_wf rb \<Longrightarrow> 0 \<le> n \<Longrightarrow> rb_wf (snd (OnRead n rb))"
  by (auto simp: OnRead_def rb_defs)

lemma rb_wf_kernel_fills:
  "rb_wf rb \<Longrightarrow> int (length bs) \<le> FreeSize rb \<Longrightarrow> rb_wf (kernel_fills bs rb)"
  by (auto simp: kernel_fills_def rb_defs)

lemma pending_kernel_fills [simp]: "rb_wf rb \<Longrightarrow> pending (kernel_fills bs rb) = pending rb"
  by (auto simp: kernel_fills_def rb_defs pending_def overwrite_def drop_take min_def nat_diff_distrib)

lemma OnWrite_pending:
  assumes "rb_wf rb" and "int (length bs) \<le> FreeSize rb"
  shows "OnWrite (int (length bs)) (kernel_fills bs rb) =
           (True, kernel_fills bs rb\<lparr>writeCursor := writeCursor rb + int (length bs)\<rparr>)"
    and "pending (snd (OnWrite (int (length bs)) (kernel_fills bs rb))) = pending rb @ bs"
proof -
  have le: "nat (readCursor rb) \<le> nat (writeCursor rb)"
    and fit: "nat (writeCursor rb) + length bs \<le> length (buffer rb)"
    using assms by (auto simp: rb_defs)
  show *: "OnWrite (int (length bs)) (kernel_fills bs rb) =
           (True, kernel_fills bs rb\<lparr>writeCursor := writeCursor rb + int (length bs)\<rparr>)"
    using assms by (simp add: OnWrite_def FreeSize_def kernel_fills_def)
  have sz: "nat (writeCursor rb + int (length bs) - readCursor rb)
      = nat (writeCursor rb) + length bs - nat (readCursor rb)"
    "nat (writeCursor rb - readCursor rb) = nat (writeCursor rb) - nat (readCursor rb)"
    using assms by (auto simp: rb_defs)
  show "pending (snd (OnWrite (int (length bs)) (kernel_fills bs rb))) = pending rb @ bs"
    using overwrite_slice [OF le fit]
    unfolding * snd_conv
    by (simp add: pending_def kernel_fills_def DataSize_def sz)
qed

lemma OnRead_pending:
  "rb_wf rb \<Longrightarrow> 0 \<le> n \<Longrightarrow> n \<le> DataSize rb \<Longrightarrow>
   OnRead n rb = (True, rb\<lparr>readCursor := readCursor rb + n\<rparr>) \<and>
   pending (snd (OnRead n rb)) = drop (nat n) (pending rb)"
  by (auto simp: OnRead_def rb_defs pending_def drop_take nat_add_distrib nat_diff_distrib algebra_simps)

text \<open>\<open>Clean\<close> keeps the unread bytes whenever it is defined.\<close>

lemma Clean_pending:
  assumes wf: "rb_wf rb" and ok: "Clean rb = Inr rb'"
  shows "rb_wf rb'" and "pending rb' = pending rb"
    and "bufferSize rb' \<le> FreeSize rb' \<or> readCursor rb' = 0"
  using assms
  by (auto simp: Clean_def rb_defs pending_def memcpy_within_def and_then_Inr_iff Let_def
      split: if_splits)

lemma Clean_Inl_iff:
  assumes "rb_wf rb"
  shows "Clean rb = Inl e \<longleftrightarrow> e = Undefined ''memcpy overlap'' \<and>
     FreeSize rb < bufferSize rb \<and> readCursor rb < DataSize rb"
  using assms
  by (auto simp: Clean_def rb_defs memcpy_within_def and_then_Inl_iff Let_def split: if_splits)

section \<open>The byte stream the buffer implements\<close>

text \<open>
  The states a receive loop can bring the buffer into, with the abstract queue of bytes it
  stands for: the kernel stores at most \<open>FreeSize\<close> bytes and reports them to \<open>OnWrite\<close>, the
  application consumes a prefix through \<open>OnRead\<close>, and \<open>Clean\<close> runs in between.
\<close>

inductive rb_reach :: "int \<Rightarrow> recv_buffer \<Rightarrow> u8 list \<Rightarrow> bool" for n where
  create: "RecvBuffer n = Inr rb \<Longrightarrow> rb_reach n rb []"
| receive: "rb_reach n rb q \<Longrightarrow> int (length bs) \<le> FreeSize rb \<Longrightarrow>
    rb_reach n (snd (OnWrite (int (length bs)) (kernel_fills bs rb))) (q @ bs)"
| consume: "rb_reach n rb q \<Longrightarrow> 0 \<le> k \<Longrightarrow> OnRead k rb = (True, rb') \<Longrightarrow>
    rb_reach n rb' (drop (nat k) q)"
| clean: "rb_reach n rb q \<Longrightarrow> Clean rb = Inr rb' \<Longrightarrow> rb_reach n rb' q"

lemma OnRead_True: "OnRead k rb = (True, rb') \<Longrightarrow> k \<le> DataSize rb"
  by (auto simp: OnRead_def split: if_splits)

lemma rb_reach_wf:
  "rb_reach n rb q \<Longrightarrow> 0 < n \<Longrightarrow> n \<le> 214748364 \<Longrightarrow> rb_wf rb \<and> pending rb = q \<and> bufferSize rb = n"
proof (induction rule: rb_reach.induct)
  case (create rb)
  then show ?case
    by (auto simp: RecvBuffer_value rb_defs pending_def)
next
  case (receive rb q bs)
  then show ?case
    using rb_wf_OnWrite [OF rb_wf_kernel_fills, of rb bs "int (length bs)"] OnWrite_pending [of rb bs]
    by (simp add: kernel_fills_def)
next
  case (consume rb q k rb')
  then show ?case
    using rb_wf_OnRead [of rb k] OnRead_pending [of rb k] OnRead_True [of k rb rb'] by auto
next
  case (clean rb q rb')
  then have "bufferSize rb' = bufferSize rb"
    by (auto simp: Clean_def and_then_Inr_iff Let_def split: if_splits)
  then show ?case
    using clean Clean_pending [of rb rb'] by simp
qed


lemma rb_reach_example:
  "\<exists>rb. rb_reach 1 rb [3] \<and> rb = \<lparr>capacity = 10, bufferSize = 1, readCursor = 2, writeCursor = 3,
     buffer = [1, 2, 3, 0, 0, 0, 0, 0, 0, 0]\<rparr>"
proof -
  have "\<exists>rb. RecvBuffer 1 = Inr rb \<and> rb = \<lparr>capacity = 10, bufferSize = 1, readCursor = 0,
      writeCursor = 0, buffer = [0, 0, 0, 0, 0, 0, 0, 0, 0, 0]\<rparr>"
    by (simp add: RecvBuffer_value eval_nat_numeral)
  then obtain rb where "rb_reach 1 rb []" and rb: "rb = \<lparr>capacity = 10, bufferSize = 1,
      readCursor = 0, writeCursor = 0, buffer = [0, 0, 0, 0, 0, 0, 0, 0, 0, 0]\<rparr>"
    using rb_reach.create [of 1] by auto
  from rb_reach.receive [OF this(1), of "[1, 2, 3]"]
  have "rb_reach 1 (rb\<lparr>writeCursor := 3, buffer := [1, 2, 3, 0, 0, 0, 0, 0, 0, 0]\<rparr>) [1, 2, 3]"
    by (simp add: rb FreeSize_def OnWrite_def kernel_fills_def overwrite_def)
  from rb_reach.consume [OF this, of 2]
  show ?thesis
    by (simp add: rb OnRead_def DataSize_def)
qed


text \<open>When \<open>Clean\<close> fails: on a buffer the receive loop produced, \<open>Clean\<close> has no
  defined behaviour exactly when less than one nominal size is free and more bytes are unread
  than were consumed, because it then copies between overlapping regions.\<close>

theorem Clean_undefined_iff:
  assumes "0 < n" and "n \<le> 214748364" and "rb_reach n rb q"
  shows "(\<exists>e. Clean rb = Inl e) \<longleftrightarrow> FreeSize rb < n \<and> readCursor rb < int (length q)"
  using Clean_Inl_iff [of rb] rb_reach_wf [OF assms(3,1,2)] length_pending [of rb] by auto

lemma Clean_undefined_iff_witness:
  "\<exists>rb q. rb_reach 1 rb q \<and> (\<exists>e. Clean rb = Inl e)"
proof -
  obtain rb where rb: "RecvBuffer 1 = Inr rb" "rb = \<lparr>capacity = 10, bufferSize = 1, readCursor = 0,
      writeCursor = 0, buffer = replicate 10 0\<rparr>"
    by (simp add: RecvBuffer_value)
  from rb_reach.receive [OF rb_reach.create [OF rb(1)], of "replicate 10 7"]
  have "rb_reach 1 (rb\<lparr>writeCursor := 10, buffer := replicate 10 7\<rparr>) (replicate 10 7)"
    by (simp add: rb(2) FreeSize_def OnWrite_def kernel_fills_def overwrite_def)
  from rb_reach.consume [OF this, of 1]
  have r: "rb_reach 1 (rb\<lparr>readCursor := 1, writeCursor := 10, buffer := replicate 10 7\<rparr>) (replicate 9 7)"
    by (simp add: rb(2) OnRead_def DataSize_def)
  have "\<exists>e. Clean (rb\<lparr>readCursor := 1, writeCursor := 10, buffer := replicate 10 7\<rparr>) = Inl e"
    using Clean_undefined_iff [OF _ _ r] by (simp add: rb(2) FreeSize_def)
  with r show ?thesis
    by blast
qed

text \<open>A defined \<open>Clean\<close> makes room: afterwards at least one nominal size is free, unless
  more than nine nominal sizes are still unread.\<close>

theorem Clean_makes_room:
  assumes "0 < n" and "n \<le> 214748364" and "rb_reach n rb q" and "Clean rb = Inr rb'"
  shows "n \<le> FreeSize rb' \<or> 9 * n < int (length q)"
proof -
  have wf: "rb_wf rb" "pending rb = q" "bufferSize rb = n"
    using rb_reach_wf [OF assms(3,1,2)] by auto
  have wf': "rb_wf rb'" "pending rb' = q" "bufferSize rb' = n"
    using rb_reach_wf [OF rb_reach.clean [OF assms(3,4)] assms(1,2)] by auto
  have "int (length q) = DataSize rb'"
    using length_pending [OF wf'(1)] wf'(2) by simp
  then show ?thesis
    using Clean_pending(3) [OF wf(1) assms(4)] wf' by (auto simp: rb_defs)
qed

lemma Clean_makes_room_witness:
  "\<exists>rb rb'. rb_reach 1 rb [3] \<and> Clean rb = Inr rb' \<and> (1 \<le> FreeSize rb' \<or> 9 * 1 < int (length [3 :: u8]))"
proof -
  obtain rb where rb: "rb_reach 1 rb [3]" "rb = \<lparr>capacity = 10, bufferSize = 1, readCursor = 2,
      writeCursor = 3, buffer = [1, 2, 3, 0, 0, 0, 0, 0, 0, 0]\<rparr>"
    using rb_reach_example by blast
  have c: "Clean rb = Inr rb"
    by (simp add: rb(2) Clean_def DataSize_def FreeSize_def)
  show ?thesis
    using Clean_makes_room [OF _ _ rb(1) c] rb(1) c by (intro exI [of _ rb]) simp
qed

end
