(* ===== verification/Rw_Lock.thy ===== *)
theory Rw_Lock
  imports Core_Prelude
begin

text \<open>
  The reader/writer spin lock of ServerCore/Lock.h and Lock.cpp and its variant in
  ServerCore_Module/Lock.ixx. One 32-bit word holds the writer's thread id in its upper and the
  number of shared holders in its lower half; \<open>writeCount\<close> counts the writer's recursion.
  Every call is cut into its atomic accesses to the lock, so a run is any interleaving of the
  steps of any number of threads.
\<close>

section \<open>The lock word\<close>

definition ACQUIRE_TIMEOUT_TICK :: u64 where "ACQUIRE_TIMEOUT_TICK = 10000"
definition MAX_SPIN_COUNT :: nat where "MAX_SPIN_COUNT = 5000"
definition WRITE_THREAD_MASK :: u32 where "WRITE_THREAD_MASK = 0xFFFF0000"
definition READ_COUNT_MASK :: u32 where "READ_COUNT_MASK = 0x0000FFFF"
definition EMPTY_FLAG :: u32 where "EMPTY_FLAG = 0"

record rw_lock =
  lockFlag :: u32
  writeCount :: u16

definition new_lock :: rw_lock where
  "new_lock = \<lparr>lockFlag = EMPTY_FLAG, writeCount = 0\<rparr>"

text \<open>\<open>(lockFlag.load() & WRITE_THREAD_MASK) >> 16\<close>, \<open>lockFlag.load() & READ_COUNT_MASK\<close> and
  \<open>(tls_ThreadId << 16) & WRITE_THREAD_MASK\<close>.\<close>

definition writer_of :: "u32 \<Rightarrow> u32" where
  "writer_of flag = drop_bit 16 (flag AND WRITE_THREAD_MASK)"

definition readers_of :: "u32 \<Rightarrow> u32" where
  "readers_of flag = flag AND READ_COUNT_MASK"

definition desired_flag :: "u32 \<Rightarrow> u32" where
  "desired_flag tid = push_bit 16 tid AND WRITE_THREAD_MASK"

lemma unat_readers_of: "unat (readers_of f) = unat f mod 65536"
proof -
  have "readers_of f = take_bit 16 f"
    by (simp add: readers_of_def READ_COUNT_MASK_def take_bit_eq_mask mask_eq_exp_minus_1)
  then show ?thesis
    by (simp only: unsigned_take_bit_eq) (simp add: take_bit_eq_mod)
qed

lemma writer_of_eq: "writer_of f = drop_bit 16 f"
proof -
  have "drop_bit 16 WRITE_THREAD_MASK = (mask 16 :: u32)"
    by (simp add: WRITE_THREAD_MASK_def mask_eq_exp_minus_1)
  then have "writer_of f = take_bit 16 (drop_bit 16 f)"
    by (simp only: writer_of_def drop_bit_and take_bit_eq_mask)
  also have "\<dots> = drop_bit 16 (take_bit 32 f)"
    by (simp only: take_bit_drop_bit) simp
  finally show ?thesis
    by (simp only: take_bit_length_eq [where 'a = 32, simplified])
qed

lemma unat_writer_of: "unat (writer_of f) = unat f div 65536"
  by (simp only: writer_of_eq unat_drop_bit_eq) (simp add: drop_bit_eq_div)

lemma flag_split: "unat f = unat (writer_of f) * 65536 + unat (readers_of f)"
  by (simp add: unat_writer_of unat_readers_of)

lemma unat_readers_less: "unat (readers_of f) < 65536"
  by (simp add: unat_readers_of)

lemma flag_zero_iff: "f = 0 \<longleftrightarrow> writer_of f = 0 \<and> readers_of f = 0"
proof -
  have "f = 0 \<longleftrightarrow> unat f = 0"
    by (simp add: unat_eq_0)
  also have "\<dots> \<longleftrightarrow> unat (writer_of f) = 0 \<and> unat (readers_of f) = 0"
    using flag_split [of f] by linarith
  finally show ?thesis
    by (simp add: unat_eq_0)
qed

lemma desired_flag_eq: "desired_flag tid = push_bit 16 (take_bit 16 tid)"
proof -
  have "WRITE_THREAD_MASK = push_bit 16 (mask 16 :: u32)"
    by (simp add: WRITE_THREAD_MASK_def mask_eq_exp_minus_1 push_bit_eq_mult)
  then show ?thesis
    unfolding desired_flag_def take_bit_eq_mask push_bit_and by (rule arg_cong)
qed

lemma unat_desired_flag: "unat (desired_flag tid) = (unat tid mod 65536) * 65536"
proof -
  have "unat (take_bit 16 tid) = unat tid mod 65536"
    by (simp only: unsigned_take_bit_eq) (simp add: take_bit_eq_mod)
  then show ?thesis
    by (simp add: desired_flag_eq push_bit_eq_mult unat_word_ariths)
qed

lemma writer_of_desired: "unat tid < 65536 \<Longrightarrow> writer_of (desired_flag tid) = tid"
  by (rule word_unat_eq_iff [THEN iffD2]) (simp add: unat_writer_of unat_desired_flag)

lemma readers_of_desired: "unat tid < 65536 \<Longrightarrow> readers_of (desired_flag tid) = 0"
  by (simp add: unat_eq_0 [symmetric] unat_readers_of unat_desired_flag)

lemma flag_of_readers: "writer_of f = 0 \<Longrightarrow> readers_of f = f"
  using flag_split [of f] by (simp add: word_unat_eq_iff)

text \<open>Adding or removing one shared holder leaves the writer half alone as long as the count
  stays inside its 16 bits.\<close>

lemma flag_plus_one:
  assumes "unat (readers_of f) < 65535"
  shows "unat (readers_of (f + 1)) = Suc (unat (readers_of f))" "writer_of (f + 1) = writer_of f"
proof -
  have r: "unat f mod 65536 < 65535"
    using assms by (simp add: unat_readers_of)
  have "unat f \<noteq> 4294967295"
  proof
    assume "unat f = 4294967295"
    with r show False by simp
  qed
  moreover have "unat f < 4294967296"
    by (rule order_less_le_trans [OF unsigned_less]) simp
  ultimately have u: "unat (f + 1) = Suc (unat f)"
    by (simp add: unat_word_ariths)
  show "unat (readers_of (f + 1)) = Suc (unat (readers_of f))"
    using r by (simp add: unat_readers_of u mod_Suc)
  show "writer_of (f + 1) = writer_of f"
    using r by (simp add: word_unat_eq_iff unat_writer_of u div_Suc mod_Suc)
qed

lemma flag_minus_one:
  assumes "0 < unat (readers_of f)"
  shows "Suc (unat (readers_of (f - 1))) = unat (readers_of f)" "writer_of (f - 1) = writer_of f"
proof -
  have r: "0 < unat f mod 65536"
    using assms by (simp add: unat_readers_of)
  have pos: "unat f \<noteq> 0"
  proof
    assume "unat f = 0"
    with r show False by simp
  qed
  then have "1 \<le> f"
    by (simp add: word_le_nat_alt)
  then have u: "unat f = Suc (unat (f - 1))"
    using pos by (simp add: unat_sub)
  show "Suc (unat (readers_of (f - 1))) = unat (readers_of f)"
    using r by (simp add: unat_readers_of u mod_Suc split: if_splits)
  show "writer_of (f - 1) = writer_of f"
    using r by (simp add: word_unat_eq_iff unat_writer_of u div_Suc)
qed

section \<open>The four calls, cut into atomic accesses\<close>

text \<open>
  Program points inside the calls. \<open>W_spin started n\<close> and \<open>R_spin started n\<close> are the \<open>for\<close>
  loop after \<open>n\<close> failed attempts, with the tick count read before the loop; \<open>R_cas\<close> sits
  between loading \<open>expected\<close> and the compare-and-exchange.
\<close>

datatype write_lock_pc = W_enter | W_recursive | W_spin u64 nat | W_count
datatype write_unlock_pc = U_check | U_count | U_store
datatype read_lock_pc = R_enter | R_recursive | R_spin u64 nat | R_cas u64 nat u32

text \<open>Each step takes the calling thread's \<open>tls_ThreadId\<close> and what \<open>GetTickCount64\<close> returns, and
  yields the lock and the next program point, \<open>None\<close> when the call has returned.\<close>

fun WriteLock_step ::
  "u32 \<Rightarrow> u64 \<Rightarrow> rw_lock \<Rightarrow> write_lock_pc \<Rightarrow> (rw_lock \<times> write_lock_pc option) outcome" where
  "WriteLock_step tid now l W_enter =
     Inr (l, Some (if writer_of (lockFlag l) = tid then W_recursive else W_spin now 0))"
| "WriteLock_step tid now l W_recursive = Inr (l\<lparr>writeCount := writeCount l + 1\<rparr>, None)"
| "WriteLock_step tid now l (W_spin started n) =
     (if n < MAX_SPIN_COUNT then
        (if lockFlag l = EMPTY_FLAG
         then Inr (l\<lparr>lockFlag := desired_flag tid\<rparr>, Some W_count)
         else Inr (l, Some (W_spin started (Suc n))))
      else if ACQUIRE_TIMEOUT_TICK \<le> now - started then forced_crash ''Timeout - WriteLock''
      else Inr (l, Some (W_spin started 0)))"
| "WriteLock_step tid now l W_count = Inr (l\<lparr>writeCount := writeCount l + 1\<rparr>, None)"

fun WriteUnlock_step ::
  "rw_lock \<Rightarrow> write_unlock_pc \<Rightarrow> (rw_lock \<times> write_unlock_pc option) outcome" where
  "WriteUnlock_step l U_check =
     (if readers_of (lockFlag l) \<noteq> 0 then forced_crash ''Invaild unlock order - WriteUnlock''
      else Inr (l, Some U_count))"
| "WriteUnlock_step l U_count =
     (let count = writeCount l - 1 in
      Inr (l\<lparr>writeCount := count\<rparr>, if count = 0 then Some U_store else None))"
| "WriteUnlock_step l U_store = Inr (l\<lparr>lockFlag := EMPTY_FLAG\<rparr>, None)"

fun ReadLock_step ::
  "u32 \<Rightarrow> u64 \<Rightarrow> rw_lock \<Rightarrow> read_lock_pc \<Rightarrow> (rw_lock \<times> read_lock_pc option) outcome" where
  "ReadLock_step tid now l R_enter =
     Inr (l, Some (if tid = writer_of (lockFlag l) then R_recursive else R_spin now 0))"
| "ReadLock_step tid now l R_recursive = Inr (l\<lparr>lockFlag := lockFlag l + 1\<rparr>, None)"
| "ReadLock_step tid now l (R_spin started n) =
     (if n < MAX_SPIN_COUNT then Inr (l, Some (R_cas started n (readers_of (lockFlag l))))
      else if ACQUIRE_TIMEOUT_TICK \<le> now - started then forced_crash ''Timeout - ReadLock''
      else Inr (l, Some (R_spin started 0)))"
| "ReadLock_step tid now l (R_cas started n expected) =
     (if lockFlag l = expected then Inr (l\<lparr>lockFlag := expected + 1\<rparr>, None)
      else Inr (l, Some (R_spin started (Suc n))))"

definition ReadUnlock_step :: "rw_lock \<Rightarrow> rw_lock outcome" where
  "ReadUnlock_step l =
     (if readers_of (lockFlag l) = 0 then forced_crash ''Multiple unlock - ReadUnlock''
      else Inr (l\<lparr>lockFlag := lockFlag l - 1\<rparr>))"

section \<open>Threads sharing one lock\<close>

datatype lock_call = WriteLock | WriteUnlock | ReadLock | ReadUnlock

datatype lock_pc =
    Idle
  | InWriteLock write_lock_pc
  | InWriteUnlock write_unlock_pc
  | InReadLock read_lock_pc
  | InReadUnlock

fun entry_pc :: "lock_call \<Rightarrow> lock_pc" where
  "entry_pc WriteLock = InWriteLock W_enter"
| "entry_pc WriteUnlock = InWriteUnlock U_check"
| "entry_pc ReadLock = InReadLock R_enter"
| "entry_pc ReadUnlock = InReadUnlock"

fun resume :: "('p \<Rightarrow> lock_pc) \<Rightarrow> 'p option \<Rightarrow> lock_pc" where
  "resume at None = Idle"
| "resume at (Some p) = at p"

fun lock_step :: "u32 \<Rightarrow> u64 \<Rightarrow> rw_lock \<Rightarrow> lock_pc \<Rightarrow> (rw_lock \<times> lock_pc) outcome" where
  "lock_step tid now l Idle = Inr (l, Idle)"
| "lock_step tid now l (InWriteLock p) =
     map_sum id (map_prod id (resume InWriteLock)) (WriteLock_step tid now l p)"
| "lock_step tid now l (InWriteUnlock p) =
     map_sum id (map_prod id (resume InWriteUnlock)) (WriteUnlock_step l p)"
| "lock_step tid now l (InReadLock p) =
     map_sum id (map_prod id (resume InReadLock)) (ReadLock_step tid now l p)"
| "lock_step tid now l InReadUnlock = map_sum id (\<lambda>l'. (l', Idle)) (ReadUnlock_step l)"

text \<open>
  A thread is named by its \<open>tls_ThreadId\<close>. \<open>writeDepth\<close> and \<open>readDepth\<close> are history variables:
  how many \<open>WriteLock\<close> (\<open>ReadLock\<close>) calls of the thread have returned and are not yet undone.
\<close>

record lock_sys =
  sharedLock :: rw_lock
  pcs :: "u32 \<Rightarrow> lock_pc"
  writeDepth :: "u32 \<Rightarrow> nat"
  readDepth :: "u32 \<Rightarrow> nat"

definition lock_init :: lock_sys where
  "lock_init = \<lparr>sharedLock = new_lock, pcs = \<lambda>_. Idle, writeDepth = \<lambda>_. 0, readDepth = \<lambda>_. 0\<rparr>"

fun write_depth_after :: "lock_pc \<Rightarrow> lock_pc \<Rightarrow> nat \<Rightarrow> nat" where
  "write_depth_after (InWriteLock p) Idle d = Suc d"
| "write_depth_after (InWriteUnlock U_count) p' d = d - 1"
| "write_depth_after p p' d = d"

fun read_depth_after :: "lock_pc \<Rightarrow> lock_pc \<Rightarrow> nat \<Rightarrow> nat" where
  "read_depth_after (InReadLock p) Idle d = Suc d"
| "read_depth_after InReadUnlock Idle d = d - 1"
| "read_depth_after p p' d = d"

definition advance :: "lock_sys \<Rightarrow> u32 \<Rightarrow> rw_lock \<Rightarrow> lock_pc \<Rightarrow> lock_sys" where
  "advance s i l' p' = s\<lparr>sharedLock := l', pcs := (pcs s)(i := p'),
     writeDepth := (writeDepth s)(i := write_depth_after (pcs s i) p' (writeDepth s i)),
     readDepth := (readDepth s)(i := read_depth_after (pcs s i) p' (readDepth s i))\<rparr>"

text \<open>What the callers must respect: at most \<open>B\<close> nested acquisitions per thread, and no unlock
  without a matching lock.\<close>

fun permitted :: "nat \<Rightarrow> lock_call \<Rightarrow> nat \<Rightarrow> nat \<Rightarrow> bool" where
  "permitted B WriteLock w r = (w + r < B)"
| "permitted B ReadLock w r = (w + r < B)"
| "permitted B WriteUnlock w r = (0 < w)"
| "permitted B ReadUnlock w r = (0 < r)"

text \<open>All interleavings of the threads \<open>T\<close>; a step that crashes has no successor.\<close>

inductive lock_run :: "u32 set \<Rightarrow> nat \<Rightarrow> lock_sys \<Rightarrow> bool" for T B where
  start: "lock_run T B lock_init"
| call: "lock_run T B s \<Longrightarrow> i \<in> T \<Longrightarrow> pcs s i = Idle \<Longrightarrow>
    permitted B c (writeDepth s i) (readDepth s i) \<Longrightarrow>
    lock_run T B (s\<lparr>pcs := (pcs s)(i := entry_pc c)\<rparr>)"
| step: "lock_run T B s \<Longrightarrow> i \<in> T \<Longrightarrow> pcs s i \<noteq> Idle \<Longrightarrow>
    lock_step i now (sharedLock s) (pcs s i) = Inr (l', p') \<Longrightarrow>
    lock_run T B (advance s i l' p')"

section \<open>The invariant of every interleaving\<close>

text \<open>Ids that fit the upper half of the word, and so few nested holders that the lower half
  never overflows.\<close>

definition lock_params :: "u32 set \<Rightarrow> nat \<Rightarrow> bool" where
  "lock_params T B \<longleftrightarrow> (\<forall>i\<in>T. 0 < unat i \<and> unat i < 65536) \<and> card T * B < 65536 \<and> B < 65536"

fun pc_ok :: "nat \<Rightarrow> lock_pc \<Rightarrow> nat \<Rightarrow> nat \<Rightarrow> bool" where
  "pc_ok B Idle w r = (w + r \<le> B)"
| "pc_ok B (InWriteLock p) w r =
     (w + r < B \<and> (p = W_recursive \<longrightarrow> 0 < w) \<and> (p = W_count \<longrightarrow> w = 0 \<and> r = 0))"
| "pc_ok B (InWriteUnlock p) w r =
     (w + r \<le> B \<and> (p = U_check \<longrightarrow> 0 < w) \<and> (p = U_count \<longrightarrow> 0 < w \<and> r = 0) \<and>
      (p = U_store \<longrightarrow> w = 0 \<and> r = 0))"
| "pc_ok B (InReadLock p) w r =
     (w + r < B \<and> (p = R_recursive \<longrightarrow> 0 < w) \<and> (\<forall>st n e. p = R_cas st n e \<longrightarrow> unat e < 65536))"
| "pc_ok B InReadUnlock w r = (w + r \<le> B \<and> 0 < r)"

text \<open>The points at which a thread owns the upper half of the word although its recursion depth
  is zero.\<close>

fun handover :: "lock_pc \<Rightarrow> bool" where
  "handover (InWriteLock W_count) = True"
| "handover (InWriteUnlock U_store) = True"
| "handover p = False"

definition owns :: "lock_sys \<Rightarrow> u32 \<Rightarrow> bool" where
  "owns s i \<longleftrightarrow> 0 < writeDepth s i \<or> handover (pcs s i)"

definition lock_inv :: "u32 set \<Rightarrow> nat \<Rightarrow> lock_sys \<Rightarrow> bool" where
  "lock_inv T B s \<longleftrightarrow>
     (\<forall>i. i \<notin> T \<longrightarrow> pcs s i = Idle \<and> writeDepth s i = 0 \<and> readDepth s i = 0) \<and>
     (\<forall>i. pc_ok B (pcs s i) (writeDepth s i) (readDepth s i)) \<and>
     unat (readers_of (lockFlag (sharedLock s))) = (\<Sum>i\<in>T. readDepth s i) \<and>
     (\<forall>i. owns s i \<longrightarrow> writer_of (lockFlag (sharedLock s)) = i) \<and>
     (writer_of (lockFlag (sharedLock s)) \<noteq> 0 \<longrightarrow>
        owns s (writer_of (lockFlag (sharedLock s))) \<and>
        (\<forall>j. j \<noteq> writer_of (lockFlag (sharedLock s)) \<longrightarrow> readDepth s j = 0)) \<and>
     unat (writeCount (sharedLock s)) = writeDepth s (writer_of (lockFlag (sharedLock s)))"

lemma finite_tids [simp]: "finite (T :: u32 set)"
  by (rule finite_subset [OF subset_UNIV]) simp

lemma sum_upd:
  "i \<in> T \<Longrightarrow> (\<Sum>j\<in>T. (f(i := x)) j) + f i = (\<Sum>j\<in>(T :: u32 set). f j) + (x :: nat)"
proof -
  assume i: "i \<in> T"
  have "(\<Sum>j\<in>T. (f(i := x)) j) = x + (\<Sum>j\<in>T - {i}. (f(i := x)) j)"
    using i by (simp add: sum.remove)
  also have "(\<Sum>j\<in>T - {i}. (f(i := x)) j) = (\<Sum>j\<in>T - {i}. f j)"
    by (rule sum.cong) auto
  finally show ?thesis
    using i by (simp add: sum.remove)
qed

lemma advance_sel [simp]:
  "sharedLock (advance s i l' p') = l'" "pcs (advance s i l' p') = (pcs s)(i := p')"
  "writeDepth (advance s i l' p') =
     (writeDepth s)(i := write_depth_after (pcs s i) p' (writeDepth s i))"
  "readDepth (advance s i l' p') =
     (readDepth s)(i := read_depth_after (pcs s i) p' (readDepth s i))"
  by (simp_all add: advance_def)

lemma lock_inv_init: "lock_inv T B lock_init"
  by (simp add: lock_inv_def lock_init_def new_lock_def EMPTY_FLAG_def owns_def
      writer_of_def readers_of_def)

text \<open>A step that only moves a program counter, between points with the same ownership.\<close>

lemma lock_inv_move:
  assumes "lock_inv T B s" "i \<in> T" "pc_ok B p' (writeDepth s i) (readDepth s i)"
    "handover p' = handover (pcs s i)"
  shows "lock_inv T B (s\<lparr>pcs := (pcs s)(i := p')\<rparr>)"
proof -
  have "owns (s\<lparr>pcs := (pcs s)(i := p')\<rparr>) j = owns s j" for j
    using assms(4) by (simp add: owns_def)
  then show ?thesis
    using assms(1-3) by (auto simp: lock_inv_def)
qed

lemma lock_inv_advance_move:
  assumes "lock_inv T B s" "i \<in> T" "pc_ok B p' (writeDepth s i) (readDepth s i)"
    "handover p' = handover (pcs s i)" "l' = sharedLock s"
    "write_depth_after (pcs s i) p' (writeDepth s i) = writeDepth s i"
    "read_depth_after (pcs s i) p' (readDepth s i) = readDepth s i"
  shows "lock_inv T B (advance s i l' p')"
proof -
  have "advance s i l' p' = s\<lparr>pcs := (pcs s)(i := p')\<rparr>"
    using assms(5-7) by (simp add: advance_def)
  then show ?thesis
    using lock_inv_move [OF assms(1-4)] by simp
qed

lemma lock_inv_pc: "lock_inv T B s \<Longrightarrow> pc_ok B (pcs s i) (writeDepth s i) (readDepth s i)"
  by (simp add: lock_inv_def)

lemma lock_inv_tid:
  "lock_inv T B s \<Longrightarrow> lock_params T B \<Longrightarrow> i \<in> T \<Longrightarrow> i \<noteq> 0 \<and> unat i < 65536"
  by (auto simp: lock_params_def)

lemma lock_inv_owner_unique:
  "lock_inv T B s \<Longrightarrow> owns s i \<Longrightarrow> writer_of (lockFlag (sharedLock s)) = i"
  by (simp add: lock_inv_def)

lemma lock_inv_depth_le: "lock_inv T B s \<Longrightarrow> writeDepth s i + readDepth s i \<le> B"
  using lock_inv_pc [of T B s i] by (cases "pcs s i") auto

text \<open>A thread about to take the lock shared leaves room for its count.\<close>

lemma readers_room:
  assumes inv: "lock_inv T B s" and par: "lock_params T B" and i: "i \<in> T"
    and room: "readDepth s i < B"
  shows "unat (readers_of (lockFlag (sharedLock s))) < 65535"
proof -
  have "(\<Sum>j\<in>T. readDepth s j) = readDepth s i + (\<Sum>j\<in>T - {i}. readDepth s j)"
    using i by (simp add: sum.remove)
  also have "(\<Sum>j\<in>T - {i}. readDepth s j) \<le> (\<Sum>j\<in>T - {i}. B)"
    by (rule sum_mono) (use lock_inv_depth_le [OF inv] add_leD2 in blast)
  also have "(\<Sum>j\<in>T - {i}. B) = (card T - 1) * B"
    using i by simp
  finally have "(\<Sum>j\<in>T. readDepth s j) \<le> readDepth s i + (card T - 1) * B"
    by simp
  also have "\<dots> < B + (card T - 1) * B"
    using room by simp
  also have "\<dots> = card T * B"
  proof -
    have "0 < card T"
      using i by (auto simp: card_gt_0_iff)
    then show ?thesis
      by (cases "card T") auto
  qed
  finally show ?thesis
    using inv par by (simp add: lock_inv_def lock_params_def)
qed

text \<open>What a step of thread \<open>i\<close> must establish for the invariant to survive it.\<close>

lemma lock_inv_advanceI:
  assumes inv: "lock_inv T B s" and i: "i \<in> T"
    and w': "write_depth_after (pcs s i) p' (writeDepth s i) = w'"
    and r': "read_depth_after (pcs s i) p' (readDepth s i) = r'"
    and pc: "pc_ok B p' w' r'"
    and reads: "unat (readers_of (lockFlag l')) + readDepth s i =
                unat (readers_of (lockFlag (sharedLock s))) + r'"
    and own: "0 < w' \<or> handover p' \<Longrightarrow> writer_of (lockFlag l') = i"
    and others: "\<And>j. j \<noteq> i \<Longrightarrow> owns s j \<Longrightarrow> writer_of (lockFlag l') = j"
    and mine: "writer_of (lockFlag l') = i \<Longrightarrow> i \<noteq> 0 \<Longrightarrow>
                (0 < w' \<or> handover p') \<and> (\<forall>j. j \<noteq> i \<longrightarrow> readDepth s j = 0)"
    and theirs: "writer_of (lockFlag l') \<noteq> i \<Longrightarrow> writer_of (lockFlag l') \<noteq> 0 \<Longrightarrow>
                r' = 0 \<and> writer_of (lockFlag l') = writer_of (lockFlag (sharedLock s))"
    and count: "unat (writeCount l') =
                (if writer_of (lockFlag l') = i then w' else writeDepth s (writer_of (lockFlag l')))"
  shows "lock_inv T B (advance s i l' p')"
proof -
  let ?s = "advance s i l' p'"
  have owns': "owns ?s j \<longleftrightarrow> (if j = i then 0 < w' \<or> handover p' else owns s j)" for j
    by (simp add: owns_def w')
  have wd: "writeDepth ?s = (writeDepth s)(i := w')" and rd: "readDepth ?s = (readDepth s)(i := r')"
    by (simp_all add: w' r')
  have "pcs ?s j = Idle \<and> writeDepth ?s j = 0 \<and> readDepth ?s j = 0" if "j \<notin> T" for j
    using that i inv by (auto simp: lock_inv_def)
  moreover have "pc_ok B (pcs ?s j) (writeDepth ?s j) (readDepth ?s j)" for j
    using pc lock_inv_pc [OF inv, of j] unfolding wd rd by simp
  moreover have "unat (readers_of (lockFlag (sharedLock ?s))) = (\<Sum>j\<in>T. readDepth ?s j)"
    using sum_upd [OF i, of "readDepth s" r'] inv reads unfolding rd by (simp add: lock_inv_def)
  moreover have "writer_of (lockFlag (sharedLock ?s)) = j" if "owns ?s j" for j
    using that own others by (cases "j = i") (auto simp: owns')
  moreover have "owns ?s (writer_of (lockFlag (sharedLock ?s))) \<and>
      (\<forall>j. j \<noteq> writer_of (lockFlag (sharedLock ?s)) \<longrightarrow> readDepth ?s j = 0)"
    if nz: "writer_of (lockFlag (sharedLock ?s)) \<noteq> 0"
  proof (cases "writer_of (lockFlag l') = i")
    case True
    then show ?thesis
      using mine nz unfolding rd by (auto simp: owns')
  next
    case False
    then have old: "r' = 0" "writer_of (lockFlag l') = writer_of (lockFlag (sharedLock s))"
      using theirs nz by auto
    then have "owns s (writer_of (lockFlag l'))"
      "\<forall>j. j \<noteq> writer_of (lockFlag l') \<longrightarrow> readDepth s j = 0"
      using inv nz by (auto simp: lock_inv_def)
    then show ?thesis
      using False old unfolding rd by (auto simp: owns')
  qed
  moreover have "unat (writeCount (sharedLock ?s)) =
      writeDepth ?s (writer_of (lockFlag (sharedLock ?s)))"
    using count unfolding wd by simp
  ultimately show ?thesis
    unfolding lock_inv_def by blast
qed

lemma lock_inv_writer:
  "lock_inv T B s \<Longrightarrow> writer_of (lockFlag (sharedLock s)) = i \<Longrightarrow> i \<noteq> 0 \<Longrightarrow> j \<noteq> i \<Longrightarrow> readDepth s j = 0"
  by (auto simp: lock_inv_def)

lemma lock_inv_count:
  "lock_inv T B s \<Longrightarrow> unat (writeCount (sharedLock s)) = writeDepth s (writer_of (lockFlag (sharedLock s)))"
  by (simp add: lock_inv_def)

lemma lock_inv_owns_writer:
  "lock_inv T B s \<Longrightarrow> writer_of (lockFlag (sharedLock s)) \<noteq> 0 \<Longrightarrow>
   owns s (writer_of (lockFlag (sharedLock s)))"
  by (auto simp: lock_inv_def)

lemma lock_inv_outside:
  "lock_inv T B s \<Longrightarrow> i \<notin> T \<Longrightarrow> writeDepth s i = 0 \<and> readDepth s i = 0 \<and> \<not> owns s i"
  by (simp add: lock_inv_def owns_def)

lemma lock_inv_readers_zero:
  assumes "lock_inv T B s" and "readers_of (lockFlag (sharedLock s)) = 0"
  shows "readDepth s j = 0"
proof (cases "j \<in> T")
  case True
  have "(\<Sum>j\<in>T. readDepth s j) = 0"
    using assms by (simp add: lock_inv_def)
  then show ?thesis
    using True by simp
next
  case False
  then show ?thesis
    using lock_inv_outside [OF assms(1)] by simp
qed

lemma lock_params_zero: "lock_params T B \<Longrightarrow> 0 \<notin> T"
  by (auto simp: lock_params_def)

lemma lock_inv_count_step:
  assumes inv: "lock_inv T B s" and par: "lock_params T B" and i: "i \<in> T"
    and pc: "pcs s i = InWriteLock p" "p = W_recursive \<or> p = W_count"
  shows "lock_inv T B (advance s i (sharedLock s\<lparr>writeCount := writeCount (sharedLock s) + 1\<rparr>) Idle)"
proof -
  have le: "writeDepth s i + readDepth s i < B"
    using lock_inv_pc [OF inv, of i] pc by auto
  have mine: "owns s i"
    using lock_inv_pc [OF inv, of i] pc by (auto simp: owns_def)
  note own = lock_inv_owner_unique [OF inv mine]
  have "unat (writeCount (sharedLock s)) = writeDepth s i"
    using lock_inv_count [OF inv] own by simp
  moreover have "writeDepth s i < 65535"
    using le par by (simp add: lock_params_def)
  ultimately have c: "unat (writeCount (sharedLock s) + 1) = Suc (writeDepth s i)"
    by (simp add: unat_word_ariths)
  show ?thesis
  proof (rule lock_inv_advanceI [OF inv i, where w' = "Suc (writeDepth s i)" and r' = "readDepth s i"])
    show "writer_of (lockFlag (sharedLock s\<lparr>writeCount := writeCount (sharedLock s) + 1\<rparr>)) = j"
      if "owns s j" for j
      using lock_inv_owner_unique [OF inv that] by simp
  qed (use pc le own c lock_inv_writer [OF inv own] in auto)
qed

lemma lock_inv_W_acquire:
  assumes inv: "lock_inv T B s" and par: "lock_params T B" and i: "i \<in> T"
    and pc: "pcs s i = InWriteLock (W_spin st n)" and free: "lockFlag (sharedLock s) = EMPTY_FLAG"
  shows "lock_inv T B (advance s i (sharedLock s\<lparr>lockFlag := desired_flag i\<rparr>) (InWriteLock W_count))"
proof -
  have tid: "i \<noteq> 0" "unat i < 65536"
    using lock_inv_tid [OF inv par i] by auto
  have none: "writer_of (lockFlag (sharedLock s)) = 0" "readers_of (lockFlag (sharedLock s)) = 0"
    using free by (auto simp: EMPTY_FLAG_def writer_of_def readers_of_def)
  have no_owner: "\<not> owns s j" for j
    using lock_inv_owner_unique [OF inv, of j] none lock_inv_outside [OF inv, of 0]
      lock_params_zero [OF par] by auto
  have reads: "readDepth s j = 0" for j
    by (rule lock_inv_readers_zero [OF inv none(2)])
  have w0: "writeDepth s i = 0" and B: "0 < B"
    using no_owner [of i] lock_inv_pc [OF inv, of i] by (auto simp: owns_def pc)
  have "unat (writeCount (sharedLock s)) = 0"
    using lock_inv_count [OF inv] none lock_inv_outside [OF inv lock_params_zero [OF par]] by simp
  then show ?thesis
    by (intro lock_inv_advanceI [OF inv i, where w' = 0 and r' = 0])
      (use pc w0 B reads tid none no_owner in
        \<open>auto simp: writer_of_desired readers_of_desired\<close>)
qed

lemma lock_inv_U_count:
  assumes inv: "lock_inv T B s" and i: "i \<in> T"
    and pc: "pcs s i = InWriteUnlock U_count"
    and c: "c = writeCount (sharedLock s) - 1"
  shows "lock_inv T B (advance s i (sharedLock s\<lparr>writeCount := c\<rparr>)
           (if c = 0 then InWriteUnlock U_store else Idle))"
proof -
  have w: "0 < writeDepth s i" and r: "readDepth s i = 0" and le: "writeDepth s i \<le> B"
    using lock_inv_pc [OF inv, of i] by (auto simp: pc)
  have mine: "owns s i"
    using w by (simp add: owns_def)
  note own = lock_inv_owner_unique [OF inv mine]
  have wc: "unat (writeCount (sharedLock s)) = writeDepth s i"
    using lock_inv_count [OF inv] own by simp
  then have "1 \<le> writeCount (sharedLock s)"
    using w by (simp add: word_le_nat_alt)
  then have u: "unat c = writeDepth s i - 1"
    using wc by (simp add: c unat_sub)
  have c0: "c = 0 \<longleftrightarrow> writeDepth s i = 1"
    using w u by (simp add: unat_eq_0 [symmetric]) arith
  show ?thesis
  proof (rule lock_inv_advanceI [OF inv i, where w' = "writeDepth s i - 1" and r' = 0])
    show "writer_of (lockFlag (sharedLock s\<lparr>writeCount := c\<rparr>)) = j" if "owns s j" for j
      using lock_inv_owner_unique [OF inv that] by simp
  qed (use pc w r le own u c0 lock_inv_writer [OF inv own] in auto)
qed

lemma lock_inv_U_store:
  assumes inv: "lock_inv T B s" and par: "lock_params T B" and i: "i \<in> T"
    and pc: "pcs s i = InWriteUnlock U_store"
  shows "lock_inv T B (advance s i (sharedLock s\<lparr>lockFlag := EMPTY_FLAG\<rparr>) Idle)"
proof -
  have w: "writeDepth s i = 0" and r: "readDepth s i = 0"
    using lock_inv_pc [OF inv, of i] by (auto simp: pc)
  have mine: "owns s i"
    by (simp add: owns_def pc)
  note own = lock_inv_owner_unique [OF inv mine]
  have i0: "i \<noteq> 0"
    using lock_inv_tid [OF inv par i] by simp
  have reads: "readDepth s j = 0" for j
    using lock_inv_writer [OF inv own i0, of j] r by (cases "j = i") auto
  have "(\<Sum>j\<in>T. readDepth s j) = 0"
    by (simp add: reads)
  then have none: "readers_of (lockFlag (sharedLock s)) = 0"
    using inv by (simp add: lock_inv_def unat_eq_0)
  have "unat (writeCount (sharedLock s)) = 0"
    using lock_inv_count [OF inv] own w by simp
  then show ?thesis
  proof (intro lock_inv_advanceI [OF inv i, where w' = 0 and r' = 0])
    show "writer_of (lockFlag (sharedLock s\<lparr>lockFlag := EMPTY_FLAG\<rparr>)) = j"
      if "j \<noteq> i" "owns s j" for j
      using lock_inv_owner_unique [OF inv that(2)] own that(1) by simp
  qed (use pc w r i0 none lock_inv_outside [OF inv lock_params_zero [OF par]] in
       \<open>auto simp: EMPTY_FLAG_def writer_of_def readers_of_def\<close>)
qed

lemma lock_inv_read:
  assumes inv: "lock_inv T B s" and par: "lock_params T B" and i: "i \<in> T"
    and pc: "pcs s i = InReadLock p"
    and ok: "writer_of (lockFlag (sharedLock s)) = 0 \<or> writer_of (lockFlag (sharedLock s)) = i"
  shows "lock_inv T B (advance s i (sharedLock s\<lparr>lockFlag := lockFlag (sharedLock s) + 1\<rparr>) Idle)"
proof -
  have le: "writeDepth s i + readDepth s i < B"
    using lock_inv_pc [OF inv, of i] by (simp add: pc)
  then have "readDepth s i < B"
    by simp
  note plus = flag_plus_one [OF readers_room [OF inv par i this]]
  have idle: "owns s i \<longleftrightarrow> 0 < writeDepth s i"
    by (simp add: owns_def pc)
  show ?thesis
  proof (rule lock_inv_advanceI [OF inv i, where w' = "writeDepth s i" and r' = "Suc (readDepth s i)"])
    show "writer_of (lockFlag (sharedLock s\<lparr>lockFlag := lockFlag (sharedLock s) + 1\<rparr>)) = j"
      if "owns s j" for j
      using lock_inv_owner_unique [OF inv that] plus by simp
    show "(0 < writeDepth s i \<or> handover Idle) \<and> (\<forall>j. j \<noteq> i \<longrightarrow> readDepth s j = 0)"
      if "writer_of (lockFlag (sharedLock s\<lparr>lockFlag := lockFlag (sharedLock s) + 1\<rparr>)) = i" "i \<noteq> 0"
      using that lock_inv_owns_writer [OF inv] lock_inv_writer [OF inv _ that(2)] idle plus by auto
    show "writer_of (lockFlag (sharedLock s\<lparr>lockFlag := lockFlag (sharedLock s) + 1\<rparr>)) = i"
      if "0 < writeDepth s i \<or> handover Idle"
      using that lock_inv_owner_unique [OF inv, of i] idle plus by simp
  qed (use pc le ok plus lock_inv_count [OF inv] in auto)
qed

lemma lock_inv_read_unlock:
  assumes inv: "lock_inv T B s" and i: "i \<in> T" and pc: "pcs s i = InReadUnlock"
  shows "0 < unat (readers_of (lockFlag (sharedLock s)))"
    and "lock_inv T B (advance s i (sharedLock s\<lparr>lockFlag := lockFlag (sharedLock s) - 1\<rparr>) Idle)"
proof -
  have le: "writeDepth s i + readDepth s i \<le> B" and r: "0 < readDepth s i"
    using lock_inv_pc [OF inv, of i] by (auto simp: pc)
  have "(\<Sum>j\<in>T. readDepth s j) = readDepth s i + (\<Sum>j\<in>T - {i}. readDepth s j)"
    using i by (simp add: sum.remove)
  then show pos: "0 < unat (readers_of (lockFlag (sharedLock s)))"
    using inv r by (simp add: lock_inv_def)
  note minus = flag_minus_one [OF pos]
  have idle: "owns s i \<longleftrightarrow> 0 < writeDepth s i"
    by (simp add: owns_def pc)
  have ok: "writer_of (lockFlag (sharedLock s)) = 0 \<or> writer_of (lockFlag (sharedLock s)) = i"
    using lock_inv_writer [OF inv refl, of i] r by auto
  show "lock_inv T B (advance s i (sharedLock s\<lparr>lockFlag := lockFlag (sharedLock s) - 1\<rparr>) Idle)"
  proof (rule lock_inv_advanceI [OF inv i, where w' = "writeDepth s i" and r' = "readDepth s i - 1"])
    show "writer_of (lockFlag (sharedLock s\<lparr>lockFlag := lockFlag (sharedLock s) - 1\<rparr>)) = j"
      if "owns s j" for j
      using lock_inv_owner_unique [OF inv that] minus by simp
    show "(0 < writeDepth s i \<or> handover Idle) \<and> (\<forall>j. j \<noteq> i \<longrightarrow> readDepth s j = 0)"
      if "writer_of (lockFlag (sharedLock s\<lparr>lockFlag := lockFlag (sharedLock s) - 1\<rparr>)) = i" "i \<noteq> 0"
      using that lock_inv_owns_writer [OF inv] lock_inv_writer [OF inv _ that(2)] idle minus by auto
    show "writer_of (lockFlag (sharedLock s\<lparr>lockFlag := lockFlag (sharedLock s) - 1\<rparr>)) = i"
      if "0 < writeDepth s i \<or> handover Idle"
      using that lock_inv_owner_unique [OF inv, of i] idle minus by simp
  qed (use pc le r ok minus lock_inv_count [OF inv] in auto)
qed

lemma EMPTY_FLAG_halves [simp]: "writer_of EMPTY_FLAG = 0" "readers_of EMPTY_FLAG = 0"
  by (simp_all add: EMPTY_FLAG_def writer_of_def readers_of_def)

lemma handover_resume [simp]:
  "handover (resume InReadLock q) = False"
  by (cases q) auto

lemma lock_inv_step_write:
  assumes inv: "lock_inv T B s" and par: "lock_params T B" and i: "i \<in> T"
    and pc: "pcs s i = InWriteLock p"
    and ok: "WriteLock_step i now (sharedLock s) p = Inr (l', q)"
  shows "lock_inv T B (advance s i l' (resume InWriteLock q))"
proof (cases p)
  case W_enter
  have "owns s i \<longleftrightarrow> 0 < writeDepth s i"
    by (simp add: owns_def pc W_enter)
  then have "0 < writeDepth s i" if "writer_of (lockFlag (sharedLock s)) = i"
    using lock_inv_owns_writer [OF inv] lock_inv_tid [OF inv par i] that by auto
  moreover have "l' = sharedLock s"
    and "resume InWriteLock q = InWriteLock (if writer_of (lockFlag (sharedLock s)) = i
           then W_recursive else W_spin now 0)"
    using ok W_enter by auto
  moreover have "lock_inv T B (advance s i (sharedLock s) (InWriteLock
      (if writer_of (lockFlag (sharedLock s)) = i then W_recursive else W_spin now 0)))"
    by (rule lock_inv_advance_move [OF inv i])
      (use pc W_enter lock_inv_pc [OF inv, of i] calculation(1) in auto)
  ultimately show ?thesis
    by simp
next
  case (W_spin st n)
  then show ?thesis
    using ok pc lock_inv_pc [OF inv, of i] lock_inv_W_acquire [OF inv par i, of st n]
    by (auto simp: forced_crash_def intro: lock_inv_advance_move [OF inv i] split: if_splits)
next
  case W_recursive
  then show ?thesis
    using ok lock_inv_count_step [OF inv par i pc] by auto
next
  case W_count
  then show ?thesis
    using ok lock_inv_count_step [OF inv par i pc] by auto
qed

lemma lock_inv_step_write_unlock:
  assumes inv: "lock_inv T B s" and par: "lock_params T B" and i: "i \<in> T"
    and pc: "pcs s i = InWriteUnlock p"
    and ok: "WriteUnlock_step (sharedLock s) p = Inr (l', q)"
  shows "lock_inv T B (advance s i l' (resume InWriteUnlock q))"
proof (cases p)
  case U_check
  then show ?thesis
    using ok pc lock_inv_pc [OF inv, of i] lock_inv_readers_zero [OF inv, of i]
    by (auto simp: forced_crash_def intro: lock_inv_advance_move [OF inv i] split: if_splits)
next
  case U_count
  then show ?thesis
    using ok pc lock_inv_U_count [OF inv i _ refl] by (auto simp: Let_def split: if_splits)
next
  case U_store
  then show ?thesis
    using ok pc lock_inv_U_store [OF inv par i] by auto
qed

lemma lock_inv_step_read:
  assumes inv: "lock_inv T B s" and par: "lock_params T B" and i: "i \<in> T"
    and pc: "pcs s i = InReadLock p"
    and ok: "ReadLock_step i now (sharedLock s) p = Inr (l', q)"
  shows "lock_inv T B (advance s i l' (resume InReadLock q))"
proof (cases p)
  case R_enter
  have "owns s i \<longleftrightarrow> 0 < writeDepth s i"
    by (simp add: owns_def pc)
  then have "0 < writeDepth s i" if "writer_of (lockFlag (sharedLock s)) = i"
    using lock_inv_owns_writer [OF inv] lock_inv_tid [OF inv par i] that by auto
  then show ?thesis
    using ok pc R_enter lock_inv_pc [OF inv, of i]
    by (auto intro!: lock_inv_advance_move [OF inv i])
next
  case R_recursive
  have "owns s i"
    using lock_inv_pc [OF inv, of i] by (simp add: pc R_recursive owns_def)
  then show ?thesis
    using ok R_recursive lock_inv_read [OF inv par i pc] lock_inv_owner_unique [OF inv] by auto
next
  case (R_spin st n)
  then show ?thesis
    using ok pc lock_inv_pc [OF inv, of i] unat_readers_less
    by (auto simp: forced_crash_def intro: lock_inv_advance_move [OF inv i] split: if_splits)
next
  case (R_cas st n e)
  have "unat e < 65536"
    using lock_inv_pc [OF inv, of i] by (simp add: pc R_cas)
  then have "writer_of e = 0"
    by (simp add: unat_eq_0 [symmetric] unat_writer_of)
  then show ?thesis
    using ok pc R_cas lock_inv_pc [OF inv, of i] lock_inv_read [OF inv par i pc]
    by (auto intro: lock_inv_advance_move [OF inv i] split: if_splits)
qed

lemma lock_inv_step:
  assumes inv: "lock_inv T B s" and par: "lock_params T B" and i: "i \<in> T"
    and busy: "pcs s i \<noteq> Idle"
    and ok: "lock_step i now (sharedLock s) (pcs s i) = Inr (l', p')"
  shows "lock_inv T B (advance s i l' p')"
proof (cases "pcs s i")
  case Idle
  with busy show ?thesis by simp
next
  case (InWriteLock p)
  then obtain q where "WriteLock_step i now (sharedLock s) p = Inr (l', q)" "p' = resume InWriteLock q"
    using ok by (cases "WriteLock_step i now (sharedLock s) p") auto
  then show ?thesis
    using lock_inv_step_write [OF inv par i InWriteLock] by simp
next
  case (InWriteUnlock p)
  then obtain q where "WriteUnlock_step (sharedLock s) p = Inr (l', q)" "p' = resume InWriteUnlock q"
    using ok by (cases "WriteUnlock_step (sharedLock s) p") auto
  then show ?thesis
    using lock_inv_step_write_unlock [OF inv par i InWriteUnlock] by simp
next
  case (InReadLock p)
  then obtain q where "ReadLock_step i now (sharedLock s) p = Inr (l', q)" "p' = resume InReadLock q"
    using ok by (cases "ReadLock_step i now (sharedLock s) p") auto
  then show ?thesis
    using lock_inv_step_read [OF inv par i InReadLock] by simp
next
  case InReadUnlock
  then show ?thesis
    using ok lock_inv_read_unlock [OF inv i InReadUnlock]
    by (auto simp: ReadUnlock_step_def forced_crash_def split: if_splits)
qed

lemma lock_inv_call:
  assumes inv: "lock_inv T B s" and i: "i \<in> T" and idle: "pcs s i = Idle"
    and ok: "permitted B c (writeDepth s i) (readDepth s i)"
  shows "lock_inv T B (s\<lparr>pcs := (pcs s)(i := entry_pc c)\<rparr>)"
  using ok idle lock_inv_pc [OF inv, of i] by (cases c) (auto intro!: lock_inv_move [OF inv i])

lemma lock_run_inv: "lock_run T B s \<Longrightarrow> lock_params T B \<Longrightarrow> lock_inv T B s"
proof (induction rule: lock_run.induct)
  case start
  show ?case by (rule lock_inv_init)
next
  case (call s i c)
  then show ?case by (blast intro: lock_inv_call)
next
  case (step s i now l' p')
  then show ?case by (blast intro: lock_inv_step)
qed

lemma lock_run_exclusive:
  assumes "lock_run T B s" and "lock_params T B" and "0 < writeDepth s i" and "j \<noteq> i"
  shows "writeDepth s j = 0 \<and> readDepth s j = 0"
proof -
  note inv = lock_run_inv [OF assms(1,2)]
  have own: "owns s i"
    using assms(3) by (simp add: owns_def)
  have "i \<noteq> 0"
    using own lock_inv_outside [OF inv, of 0] lock_params_zero [OF assms(2)] by auto
  then have "readDepth s j = 0"
    using lock_inv_writer [OF inv lock_inv_owner_unique [OF inv own]] assms(4) by blast
  moreover have "\<not> owns s j"
    using lock_inv_owner_unique [OF inv, of j] lock_inv_owner_unique [OF inv own] assms(4) by auto
  ultimately show ?thesis
    by (simp add: owns_def)
qed

text \<open>Which crashes disciplined callers can meet.\<close>

lemma lock_run_crash:
  assumes run: "lock_run T B s" and par: "lock_params T B" and i: "i \<in> T"
    and crash: "lock_step i now (sharedLock s) (pcs s i) = Inl e"
  shows "e = ForcedCrash ''Timeout - WriteLock'' \<or> e = ForcedCrash ''Timeout - ReadLock'' \<or>
         e = ForcedCrash ''Invaild unlock order - WriteUnlock'' \<and> 0 < readDepth s i"
proof (cases "pcs s i")
  case Idle
  with crash show ?thesis by simp
next
  case (InWriteLock p)
  then show ?thesis
    using crash by (cases p) (auto simp: forced_crash_def split: if_splits)
next
  case (InWriteUnlock p)
  note inv = lock_run_inv [OF run par]
  show ?thesis
  proof (cases p)
    case U_check
    then have owner: "owns s i"
      using lock_inv_pc [OF inv, of i] InWriteUnlock by (simp add: owns_def)
    have "readDepth s j = 0" if "j \<noteq> i" for j
      using lock_inv_writer [OF inv lock_inv_owner_unique [OF inv owner] _ that]
        lock_inv_tid [OF inv par i] by simp
    then have "(\<Sum>j\<in>T. readDepth s j) = readDepth s i"
      using i by (simp add: sum.remove [of T i])
    then have "unat (readers_of (lockFlag (sharedLock s))) = readDepth s i"
      using inv by (simp only: lock_inv_def)
    moreover have "readers_of (lockFlag (sharedLock s)) \<noteq> 0"
      "e = ForcedCrash ''Invaild unlock order - WriteUnlock''"
      using crash InWriteUnlock U_check by (auto simp: forced_crash_def split: if_splits)
    ultimately show ?thesis
      by (simp add: unat_eq_0 [symmetric] del: unat_eq_0)
  qed (use crash InWriteUnlock in \<open>auto simp: Let_def\<close>)
next
  case (InReadLock p)
  then show ?thesis
    using crash by (cases p) (auto simp: forced_crash_def split: if_splits)
next
  case InReadUnlock
  then show ?thesis
    using crash lock_inv_read_unlock(1) [OF lock_run_inv [OF run par] i]
    by (auto simp: ReadUnlock_step_def forced_crash_def split: if_splits)
qed

section \<open>The lock of ServerCore\_Module\<close>

text \<open>
  Lock.ixx has the same calls; only its failure checks differ. They are \<open>ASSERT\<close>s, so they
  vanish with their side effects in a release build, and the timeout check has its condition
  the wrong way round: it fires while the deadline has \<^emph>\<open>not\<close> passed.
\<close>

fun mod_WriteLock_step ::
  "build \<Rightarrow> u32 \<Rightarrow> u64 \<Rightarrow> rw_lock \<Rightarrow> write_lock_pc \<Rightarrow> (rw_lock \<times> write_lock_pc option) outcome" where
  "mod_WriteLock_step b tid now l W_enter =
     Inr (l, Some (if tid = writer_of (lockFlag l) then W_recursive else W_spin now 0))"
| "mod_WriteLock_step b tid now l W_recursive = Inr (l\<lparr>writeCount := writeCount l + 1\<rparr>, None)"
| "mod_WriteLock_step b tid now l (W_spin started n) =
     (if n < MAX_SPIN_COUNT then
        (if lockFlag l = EMPTY_FLAG
         then Inr (l\<lparr>lockFlag := desired_flag tid\<rparr>, Some W_count)
         else Inr (l, Some (W_spin started (Suc n))))
      else and_then (assert_crash b (now - started < ACQUIRE_TIMEOUT_TICK) ''ACQUIRE_TIMEOUT_TICK'')
             (\<lambda>_. Inr (l, Some (W_spin started 0))))"
| "mod_WriteLock_step b tid now l W_count = Inr (l\<lparr>writeCount := writeCount l + 1\<rparr>, None)"

fun mod_WriteUnlock_step ::
  "build \<Rightarrow> rw_lock \<Rightarrow> write_unlock_pc \<Rightarrow> (rw_lock \<times> write_unlock_pc option) outcome" where
  "mod_WriteUnlock_step b l U_check =
     and_then (assert_crash b (readers_of (lockFlag l) \<noteq> 0) ''Abnormal lock procedure detected'')
       (\<lambda>_. Inr (l, Some U_count))"
| "mod_WriteUnlock_step b l U_count =
     (let count = writeCount l - 1 in
      Inr (l\<lparr>writeCount := count\<rparr>, if count = 0 then Some U_store else None))"
| "mod_WriteUnlock_step b l U_store = Inr (l\<lparr>lockFlag := EMPTY_FLAG\<rparr>, None)"

fun mod_ReadLock_step ::
  "build \<Rightarrow> u32 \<Rightarrow> u64 \<Rightarrow> rw_lock \<Rightarrow> read_lock_pc \<Rightarrow> (rw_lock \<times> read_lock_pc option) outcome" where
  "mod_ReadLock_step b tid now l R_enter =
     Inr (l, Some (if tid = writer_of (lockFlag l) then R_recursive else R_spin now 0))"
| "mod_ReadLock_step b tid now l R_recursive = Inr (l\<lparr>lockFlag := lockFlag l + 1\<rparr>, None)"
| "mod_ReadLock_step b tid now l (R_spin started n) =
     (if n < MAX_SPIN_COUNT then Inr (l, Some (R_cas started n (readers_of (lockFlag l))))
      else and_then (assert_crash b (now - started < ACQUIRE_TIMEOUT_TICK) ''Time out - ReadLock'')
             (\<lambda>_. Inr (l, Some (R_spin started 0))))"
| "mod_ReadLock_step b tid now l (R_cas started n expected) =
     (if lockFlag l = expected then Inr (l\<lparr>lockFlag := expected + 1\<rparr>, None)
      else Inr (l, Some (R_spin started (Suc n))))"

text \<open>The decrement is inside the asserted expression, so a release build does not perform it.\<close>

definition mod_ReadUnlock_step :: "build \<Rightarrow> rw_lock \<Rightarrow> rw_lock outcome" where
  "mod_ReadUnlock_step b l =
     (case b of
        DebugBuild \<Rightarrow>
          and_then (assert_crash b (readers_of (lockFlag l) = 0) ''READ_COUNT_MASK is less than 0'')
            (\<lambda>_. Inr (l\<lparr>lockFlag := lockFlag l - 1\<rparr>))
      | ReleaseBuild \<Rightarrow> Inr l)"

fun mod_lock_step :: "build \<Rightarrow> u32 \<Rightarrow> u64 \<Rightarrow> rw_lock \<Rightarrow> lock_pc \<Rightarrow> (rw_lock \<times> lock_pc) outcome" where
  "mod_lock_step b tid now l Idle = Inr (l, Idle)"
| "mod_lock_step b tid now l (InWriteLock p) =
     map_sum id (map_prod id (resume InWriteLock)) (mod_WriteLock_step b tid now l p)"
| "mod_lock_step b tid now l (InWriteUnlock p) =
     map_sum id (map_prod id (resume InWriteUnlock)) (mod_WriteUnlock_step b l p)"
| "mod_lock_step b tid now l (InReadLock p) =
     map_sum id (map_prod id (resume InReadLock)) (mod_ReadLock_step b tid now l p)"
| "mod_lock_step b tid now l InReadUnlock = map_sum id (\<lambda>l'. (l', Idle)) (mod_ReadUnlock_step b l)"

text \<open>In a debug build every step of this lock is one of ServerCore's, at some clock reading.\<close>

lemma spin_not_late: "\<not> ACQUIRE_TIMEOUT_TICK \<le> (st :: u64) - st"
  by (simp add: ACQUIRE_TIMEOUT_TICK_def)

lemma mod_step_is_step:
  assumes "mod_lock_step DebugBuild i now l p = Inr (l', p')"
  shows "\<exists>now'. lock_step i now' l p = Inr (l', p')"
proof (cases p)
  case (InWriteLock q)
  then show ?thesis
  proof (cases q)
    case (W_spin st n)
    then show ?thesis
      using assms InWriteLock spin_not_late [of st]
      by (intro exI [of _ st]) (auto simp: assert_crash_def split: if_splits)
  qed (use assms InWriteLock in \<open>auto split: if_splits\<close>)
next
  case (InWriteUnlock q)
  then show ?thesis
    using assms by (cases q) (auto simp: assert_crash_def Let_def split: if_splits)
next
  case (InReadLock q)
  then show ?thesis
  proof (cases q)
    case (R_spin st n)
    then show ?thesis
      using assms InReadLock spin_not_late [of st]
      by (intro exI [of _ st]) (auto simp: assert_crash_def split: if_splits)
  qed (use assms InReadLock in \<open>auto split: if_splits\<close>)
next
  case InReadUnlock
  then show ?thesis
    using assms by (auto simp: mod_ReadUnlock_step_def ReadUnlock_step_def assert_crash_def split: if_splits)
qed (use assms in auto)

section \<open>Scoped guards\<close>

datatype guard = ReadLockGuard | WriteLockGuard

text \<open>ServerCore/Lock.h: both constructors call \<open>ReadLock\<close>, both destructors \<open>ReadUnlock\<close>.\<close>

fun guard_ctor :: "guard \<Rightarrow> lock_call" where
  "guard_ctor ReadLockGuard = ReadLock"
| "guard_ctor WriteLockGuard = ReadLock"

fun guard_dtor :: "guard \<Rightarrow> lock_call" where
  "guard_dtor ReadLockGuard = ReadUnlock"
| "guard_dtor WriteLockGuard = ReadUnlock"

text \<open>ServerCore\_Module/Lock.ixx: the write guard takes the lock exclusively.\<close>

fun mod_guard_ctor :: "guard \<Rightarrow> lock_call" where
  "mod_guard_ctor ReadLockGuard = ReadLock"
| "mod_guard_ctor WriteLockGuard = WriteLock"

fun mod_guard_dtor :: "guard \<Rightarrow> lock_call" where
  "mod_guard_dtor ReadLockGuard = ReadUnlock"
| "mod_guard_dtor WriteLockGuard = WriteUnlock"

text \<open>
  Threads that use the lock through scoped guards only: \<open>g i\<close> is the stack of guard objects of
  thread \<open>i\<close>, innermost first. A guard whose constructor has not returned is on it already; a
  guard whose destructor has begun is not.
\<close>

type_synonym lock_stepper = "u32 \<Rightarrow> u64 \<Rightarrow> rw_lock \<Rightarrow> lock_pc \<Rightarrow> (rw_lock \<times> lock_pc) outcome"

inductive guard_run ::
  "(guard \<Rightarrow> lock_call) \<Rightarrow> (guard \<Rightarrow> lock_call) \<Rightarrow> lock_stepper \<Rightarrow> u32 set \<Rightarrow> nat \<Rightarrow>
   lock_sys \<Rightarrow> (u32 \<Rightarrow> guard list) \<Rightarrow> bool" for ctor dtor stepper T B where
  start: "guard_run ctor dtor stepper T B lock_init (\<lambda>_. [])"
| construct: "guard_run ctor dtor stepper T B s g \<Longrightarrow> i \<in> T \<Longrightarrow> pcs s i = Idle \<Longrightarrow> length (g i) < B \<Longrightarrow>
    guard_run ctor dtor stepper T B (s\<lparr>pcs := (pcs s)(i := entry_pc (ctor a))\<rparr>) (g(i := a # g i))"
| destruct: "guard_run ctor dtor stepper T B s g \<Longrightarrow> i \<in> T \<Longrightarrow> pcs s i = Idle \<Longrightarrow> g i = a # as \<Longrightarrow>
    guard_run ctor dtor stepper T B (s\<lparr>pcs := (pcs s)(i := entry_pc (dtor a))\<rparr>) (g(i := as))"
| step: "guard_run ctor dtor stepper T B s g \<Longrightarrow> i \<in> T \<Longrightarrow> pcs s i \<noteq> Idle \<Longrightarrow>
    stepper i now (sharedLock s) (pcs s i) = Inr (l', p') \<Longrightarrow>
    guard_run ctor dtor stepper T B (advance s i l' p') g"

text \<open>How the depths of a thread follow from its guards: \<open>w\<close> exclusive and \<open>r\<close> shared ones.\<close>

fun pc_link :: "lock_pc \<Rightarrow> nat \<Rightarrow> nat \<Rightarrow> nat \<Rightarrow> nat \<Rightarrow> bool" where
  "pc_link Idle wd rd w r = (wd = w \<and> rd = r)"
| "pc_link (InWriteLock p) wd rd w r = (Suc wd = w \<and> rd = r)"
| "pc_link (InWriteUnlock p) wd rd w r = (wd = (if p = U_store then w else Suc w) \<and> rd = r)"
| "pc_link (InReadLock p) wd rd w r = (wd = w \<and> Suc rd = r)"
| "pc_link InReadUnlock wd rd w r = (wd = w \<and> rd = Suc r)"

lemma pc_link_step:
  assumes "lock_step i now l p = Inr (l', p')" "pc_link p wd rd w r" "p \<noteq> Idle"
  shows "pc_link p' (write_depth_after p p' wd) (read_depth_after p p' rd) w r"
proof (cases p)
  case (InWriteLock q)
  with assms show ?thesis
    by (cases q) (auto simp: forced_crash_def split: if_splits)
next
  case (InWriteUnlock q)
  with assms show ?thesis
    by (cases q) (auto simp: forced_crash_def Let_def split: if_splits)
next
  case (InReadLock q)
  with assms show ?thesis
    by (cases q) (auto simp: forced_crash_def split: if_splits)
next
  case InReadUnlock
  with assms show ?thesis
    by (auto simp: ReadUnlock_step_def forced_crash_def split: if_splits)
qed (use assms in simp)

text \<open>
  The contract between a guard class and the lock: destructors undo what constructors did, and
  the lock's steps are steps of the verified lock.
\<close>

locale guard_class =
  fixes ctor dtor :: "guard \<Rightarrow> lock_call" and stepper :: lock_stepper
  assumes matched: "ctor a = ReadLock \<and> dtor a = ReadUnlock \<or> ctor a = WriteLock \<and> dtor a = WriteUnlock"
    and refines: "stepper i now l p = Inr (l', p') \<Longrightarrow> \<exists>now'. lock_step i now' l p = Inr (l', p')"
begin

lemma guards_disciplined:
  "guard_run ctor dtor stepper T B s g \<Longrightarrow> lock_run T B s \<and>
   (\<forall>i. pc_link (pcs s i) (writeDepth s i) (readDepth s i)
      (length (filter (\<lambda>a. ctor a = WriteLock) (g i)))
      (length (filter (\<lambda>a. ctor a \<noteq> WriteLock) (g i))))"
proof (induction rule: guard_run.induct)
  case start
  show ?case by (auto simp: lock_init_def intro: lock_run.start [unfolded lock_init_def])
next
  case (construct s g i a)
  have "writeDepth s i + readDepth s i < B"
    using construct.IH construct.hyps
      sum_length_filter_compl [of "\<lambda>a. ctor a = WriteLock" "g i"] by (auto dest: spec [of _ i])
  then have "permitted B (ctor a) (writeDepth s i) (readDepth s i)"
    using matched [of a] by auto
  with construct have "lock_run T B (s\<lparr>pcs := (pcs s)(i := entry_pc (ctor a))\<rparr>)"
    by (auto intro: lock_run.call)
  then show ?case
    using construct.IH construct.hyps matched [of a] by (auto dest: spec [of _ i])
next
  case (destruct s g i a as)
  have "permitted B (dtor a) (writeDepth s i) (readDepth s i)"
    using destruct.IH destruct.hyps matched [of a] by (auto dest: spec [of _ i])
  with destruct have "lock_run T B (s\<lparr>pcs := (pcs s)(i := entry_pc (dtor a))\<rparr>)"
    by (auto intro: lock_run.call)
  then show ?case
    using destruct.IH destruct.hyps matched [of a] by (auto dest: spec [of _ i])
next
  case (step s g i now l' p')
  then obtain now' where st: "lock_step i now' (sharedLock s) (pcs s i) = Inr (l', p')"
    using refines by blast
  with step have "lock_run T B (advance s i l' p')"
    by (auto intro: lock_run.step)
  then show ?case
    using step.IH step.hyps pc_link_step [OF st] by auto
qed

lemma guards_run: "guard_run ctor dtor stepper T B s g \<Longrightarrow> lock_run T B s"
  by (simp add: guards_disciplined)

lemma guard_exclusive:
  assumes run: "guard_run ctor dtor stepper T B s g" and par: "lock_params T B"
    and i: "pcs s i = Idle" "a \<in> set (g i)" "ctor a = WriteLock"
    and j: "j \<noteq> i" "pcs s j = Idle"
  shows "g j = []"
proof -
  note link = guards_disciplined [OF run]
  have "0 < writeDepth s i"
    using link i by (auto simp: filter_empty_conv dest!: spec [of _ i])
  then have "writeDepth s j = 0 \<and> readDepth s j = 0"
    using lock_run_exclusive [OF guards_run [OF run] par _ j(1)] by blast
  then show ?thesis
    using link j(2) sum_length_filter_compl [of "\<lambda>a. ctor a = WriteLock" "g j"]
    by (auto dest!: spec [of _ j])
qed

end

interpretation sc_guard: guard_class guard_ctor guard_dtor lock_step
proof
  fix a
  show "guard_ctor a = ReadLock \<and> guard_dtor a = ReadUnlock \<or>
        guard_ctor a = WriteLock \<and> guard_dtor a = WriteUnlock"
    by (cases a) auto
qed auto

interpretation mod_guard: guard_class mod_guard_ctor mod_guard_dtor "mod_lock_step DebugBuild"
proof
  fix a
  show "mod_guard_ctor a = ReadLock \<and> mod_guard_dtor a = ReadUnlock \<or>
        mod_guard_ctor a = WriteLock \<and> mod_guard_dtor a = WriteUnlock"
    by (cases a) auto
qed (rule mod_step_is_step)

section \<open>Schedules\<close>

text \<open>Executable runs, for concrete interleavings.\<close>

datatype lock_move = Begin u32 lock_call | Tick u32 u64

fun play :: "u32 list \<Rightarrow> nat \<Rightarrow> lock_sys \<Rightarrow> lock_move list \<Rightarrow> lock_sys option" where
  "play T B s [] = Some s"
| "play T B s (Begin i c # ms) =
     (if List.member T i \<and> pcs s i = Idle \<and> permitted B c (writeDepth s i) (readDepth s i)
      then play T B (s\<lparr>pcs := (pcs s)(i := entry_pc c)\<rparr>) ms else None)"
| "play T B s (Tick i now # ms) =
     (if List.member T i \<and> pcs s i \<noteq> Idle
      then (case lock_step i now (sharedLock s) (pcs s i) of
              Inl e \<Rightarrow> None | Inr (l', p') \<Rightarrow> play T B (advance s i l' p') ms)
      else None)"

lemma play_run:
  "lock_run (set T) B s \<Longrightarrow> play T B s ms = Some s' \<Longrightarrow> lock_run (set T) B s'"
proof (induction ms arbitrary: s)
  case (Cons m ms)
  show ?case
  proof (cases m)
    case (Begin i c)
    with Cons.prems show ?thesis
      by (auto split: if_splits intro: Cons.IH [OF lock_run.call])
  next
    case (Tick i now)
    with Cons.prems show ?thesis
      by (auto split: if_splits sum.splits intro: Cons.IH [OF lock_run.step])
  qed
qed simp

datatype guard_move = Construct u32 guard | Destruct u32 | Move u32 u64

fun play_guards ::
  "(guard \<Rightarrow> lock_call) \<Rightarrow> (guard \<Rightarrow> lock_call) \<Rightarrow> lock_stepper \<Rightarrow> u32 list \<Rightarrow> nat \<Rightarrow>
   lock_sys \<Rightarrow> (u32 \<Rightarrow> guard list) \<Rightarrow> guard_move list \<Rightarrow> (lock_sys \<times> (u32 \<Rightarrow> guard list)) option" where
  "play_guards ct dt st T B s g [] = Some (s, g)"
| "play_guards ct dt st T B s g (Construct i a # ms) =
     (if List.member T i \<and> pcs s i = Idle \<and> length (g i) < B
      then play_guards ct dt st T B (s\<lparr>pcs := (pcs s)(i := entry_pc (ct a))\<rparr>) (g(i := a # g i)) ms
      else None)"
| "play_guards ct dt st T B s g (Destruct i # ms) =
     (case g i of [] \<Rightarrow> None
      | a # as \<Rightarrow> (if List.member T i \<and> pcs s i = Idle
          then play_guards ct dt st T B (s\<lparr>pcs := (pcs s)(i := entry_pc (dt a))\<rparr>) (g(i := as)) ms
          else None))"
| "play_guards ct dt st T B s g (Move i now # ms) =
     (if List.member T i \<and> pcs s i \<noteq> Idle
      then (case st i now (sharedLock s) (pcs s i) of
              Inl e \<Rightarrow> None | Inr (l', p') \<Rightarrow> play_guards ct dt st T B (advance s i l' p') g ms)
      else None)"

lemma play_guards_run:
  "guard_run ct dt st (set T) B s g \<Longrightarrow> play_guards ct dt st T B s g ms = Some (s', g') \<Longrightarrow>
   guard_run ct dt st (set T) B s' g'"
proof (induction ms arbitrary: s g)
  case (Cons m ms)
  show ?case
  proof (cases m)
    case (Construct i a)
    with Cons.prems show ?thesis
      by (auto simp del: fun_upd_apply split: if_splits intro: Cons.IH [OF guard_run.construct])
  next
    case (Destruct i)
    with Cons.prems show ?thesis
      by (auto simp del: fun_upd_apply split: if_splits list.splits intro: Cons.IH [OF guard_run.destruct])
  next
    case (Move i now)
    with Cons.prems show ?thesis
      by (auto split: if_splits sum.splits intro: Cons.IH [OF guard_run.step])
  qed
qed simp

lemma play_init: "play T B lock_init ms = Some s \<Longrightarrow> lock_run (set T) B s"
  by (rule play_run [OF lock_run.start])

lemma play_guards_init:
  "play_guards ct dt st T B lock_init (\<lambda>_. []) ms = Some (s, g) \<Longrightarrow> guard_run ct dt st (set T) B s g"
  by (rule play_guards_run [OF guard_run.start])

lemma lock_params_12: "B < 32768 \<Longrightarrow> lock_params {1, 2} B"
  by (simp add: lock_params_def)

text \<open>Running a schedule to a state that satisfies \<open>P\<close>.\<close>

definition plays_to :: "u32 list \<Rightarrow> nat \<Rightarrow> lock_move list \<Rightarrow> (lock_sys \<Rightarrow> bool) \<Rightarrow> bool" where
  "plays_to T B ms P = (case play T B lock_init ms of None \<Rightarrow> False | Some s \<Rightarrow> P s)"

lemma plays_to_run: "plays_to T B ms P \<Longrightarrow> \<exists>s. lock_run (set T) B s \<and> P s"
  by (auto simp: plays_to_def split: option.splits dest: play_init)

definition guards_play_to ::
  "(guard \<Rightarrow> lock_call) \<Rightarrow> (guard \<Rightarrow> lock_call) \<Rightarrow> lock_stepper \<Rightarrow> u32 list \<Rightarrow> nat \<Rightarrow> guard_move list \<Rightarrow>
   (lock_sys \<Rightarrow> (u32 \<Rightarrow> guard list) \<Rightarrow> bool) \<Rightarrow> bool" where
  "guards_play_to ct dt st T B ms P =
     (case play_guards ct dt st T B lock_init (\<lambda>_. []) ms of None \<Rightarrow> False | Some (s, g) \<Rightarrow> P s g)"

lemma guards_play_to_run:
  "guards_play_to ct dt st T B ms P \<Longrightarrow> \<exists>s g. guard_run ct dt st (set T) B s g \<and> P s g"
  by (auto simp: guards_play_to_def split: option.splits dest: play_guards_init)

section \<open>Properties\<close>

text \<open>C12. Mutual exclusion: in every interleaving of disciplined threads, while one thread
  has returned from \<open>WriteLock\<close> and not finished unlocking, no other thread holds the lock,
  neither exclusively nor shared.\<close>

theorem write_lock_exclusive:
  assumes "lock_params T B" and "lock_run T B s" and "0 < writeDepth s i" and "j \<noteq> i"
  shows "writeDepth s j = 0 \<and> readDepth s j = 0"
  by (rule lock_run_exclusive [OF assms(2,1,3,4)])

lemma write_lock_exclusive_witness:
  "\<exists>s. lock_run {1, 2} 2 s \<and> writeDepth s 1 = 1 \<and> pcs s 2 = InReadLock (R_cas 0 0 0) \<and>
       writeDepth s 2 = 0 \<and> readDepth s 2 = 0"
proof -
  have "plays_to [1, 2] 2
      [Begin 1 WriteLock, Tick 1 0, Begin 2 ReadLock, Tick 2 0, Tick 1 0, Tick 2 0, Tick 1 0]
      (\<lambda>s. writeDepth s 1 = 1 \<and> pcs s 2 = InReadLock (R_cas 0 0 0))"
    by code_simp
  then obtain s where s: "lock_run {1, 2} 2 s" "writeDepth s 1 = 1" "pcs s 2 = InReadLock (R_cas 0 0 0)"
    using plays_to_run by fastforce
  then show ?thesis
    using write_lock_exclusive [OF lock_params_12 s(1), of 1 2] by auto
qed



text \<open>Crashes: a disciplined thread never runs into the multiple-unlock crash; the only
  crashes left are the two timeouts and releasing the write lock while holding it shared.\<close>

theorem disciplined_crashes:
  assumes "lock_params T B" and "lock_run T B s" and "i \<in> T"
    and "lock_step i now (sharedLock s) (pcs s i) = Inl e"
  shows "e = ForcedCrash ''Timeout - WriteLock'' \<or> e = ForcedCrash ''Timeout - ReadLock'' \<or>
         e = ForcedCrash ''Invaild unlock order - WriteUnlock'' \<and> 0 < readDepth s i"
  by (rule lock_run_crash [OF assms(2,1,3,4)])

text \<open>Properly nested \<open>WriteLock\<close>, \<open>ReadLock\<close>, \<open>WriteLock\<close> by one thread does crash at the
  first \<open>WriteUnlock\<close>.\<close>

lemma disciplined_crashes_witness:
  "\<exists>s e. lock_run {1, 2} 3 s \<and> writeDepth s 1 = 2 \<and>
       lock_step 1 0 (sharedLock s) (pcs s 1) = Inl e \<and> 0 < readDepth s 1 \<and>
       (e = ForcedCrash ''Timeout - WriteLock'' \<or> e = ForcedCrash ''Timeout - ReadLock'' \<or>
        e = ForcedCrash ''Invaild unlock order - WriteUnlock'' \<and> 0 < readDepth s 1)"
proof -
  have "plays_to [1, 2] 3
      ([Begin 1 WriteLock, Tick 1 0, Tick 1 0, Tick 1 0] @ [Begin 1 ReadLock, Tick 1 0, Tick 1 0] @
       [Begin 1 WriteLock, Tick 1 0, Tick 1 0, Begin 1 WriteUnlock])
      (\<lambda>s. writeDepth s 1 = 2 \<and> 0 < readDepth s 1 \<and>
         lock_step 1 0 (sharedLock s) (pcs s 1) = Inl (ForcedCrash ''Invaild unlock order - WriteUnlock''))"
    by code_simp
  then obtain s where s: "lock_run {1, 2} 3 s" "writeDepth s 1 = 2" "0 < readDepth s 1"
      "lock_step 1 0 (sharedLock s) (pcs s 1) = Inl (ForcedCrash ''Invaild unlock order - WriteUnlock'')"
    using plays_to_run by fastforce
  then show ?thesis
    using disciplined_crashes [OF lock_params_12 s(1) _ s(4)] by auto
qed

text \<open>The scoped write guard of ServerCore\_Module excludes: while one thread owns a
  constructed \<open>WriteLockGuard\<close> in a debug build, no other thread owns a constructed guard of
  either kind.\<close>

theorem mod_write_guard_exclusive:
  assumes "lock_params T B"
    and "guard_run mod_guard_ctor mod_guard_dtor (mod_lock_step DebugBuild) T B s g"
    and "pcs s i = Idle" and "WriteLockGuard \<in> set (g i)" and "j \<noteq> i" and "pcs s j = Idle"
  shows "g j = []"
  by (rule mod_guard.guard_exclusive [OF assms(2,1,3,4) _ assms(5,6)]) simp

lemma mod_write_guard_exclusive_witness:
  "\<exists>s g. guard_run mod_guard_ctor mod_guard_dtor (mod_lock_step DebugBuild) {1, 2} 2 s g \<and>
     g 1 = [WriteLockGuard] \<and> g 2 = []"
proof -
  have "guards_play_to mod_guard_ctor mod_guard_dtor (mod_lock_step DebugBuild) [1, 2] 2
      [Construct 2 ReadLockGuard, Move 2 0, Move 2 0, Move 2 0, Destruct 2, Move 2 0,
       Construct 1 WriteLockGuard, Move 1 0, Move 1 0, Move 1 0]
      (\<lambda>s g. pcs s 1 = Idle \<and> pcs s 2 = Idle \<and> g 1 = [WriteLockGuard])"
    by code_simp
  then obtain s g where s: "guard_run mod_guard_ctor mod_guard_dtor (mod_lock_step DebugBuild) {1, 2} 2 s g"
     "pcs s 1 = Idle" "pcs s 2 = Idle" "g 1 = [WriteLockGuard]"
    using guards_play_to_run by fastforce
  then show ?thesis
    using mod_write_guard_exclusive [OF lock_params_12 s(1,2) _ _ s(3)] by auto
qed

text \<open>C14. The scoped write guard of ServerCore does not exclude: two threads can both own
  a constructed \<open>WriteLockGuard\<close> of the same lock, because its constructor calls \<open>ReadLock\<close>.\<close>

theorem write_guards_not_exclusive:
  "\<exists>s g. guard_run guard_ctor guard_dtor lock_step {1, 2} 1 s g \<and>
     pcs s 1 = Idle \<and> g 1 = [WriteLockGuard] \<and> pcs s 2 = Idle \<and> g 2 = [WriteLockGuard]"
proof -
  have "guards_play_to guard_ctor guard_dtor lock_step [1, 2] 1
      [Construct 1 WriteLockGuard, Move 1 0, Move 1 0, Move 1 0,
       Construct 2 WriteLockGuard, Move 2 0, Move 2 0, Move 2 0]
      (\<lambda>s g. pcs s 1 = Idle \<and> g 1 = [WriteLockGuard] \<and> pcs s 2 = Idle \<and> g 2 = [WriteLockGuard])"
    by code_simp
  then show ?thesis
    using guards_play_to_run by fastforce
qed

text \<open>A thread whose \<open>tls_ThreadId\<close> is still 0 is taken for the owner of a free lock:
  it returns from \<open>WriteLock\<close> without writing the lock word, so a registered thread can acquire
  the same lock at the same time.\<close>

theorem unregistered_thread_not_excluded:
  "\<exists>s. lock_run {0, 1} 1 s \<and> pcs s 0 = Idle \<and> writeDepth s 0 = 1 \<and>
       pcs s 1 = Idle \<and> writeDepth s 1 = 1"
proof -
  have "plays_to [0, 1] 1
      [Begin 0 WriteLock, Tick 0 0, Tick 0 0, Begin 1 WriteLock, Tick 1 0, Tick 1 0, Tick 1 0]
      (\<lambda>s. pcs s 0 = Idle \<and> writeDepth s 0 = 1 \<and> pcs s 1 = Idle \<and> writeDepth s 1 = 1)"
    by code_simp
  then show ?thesis
    using plays_to_run by fastforce
qed

text \<open>In a release build of ServerCore\_Module a shared acquisition is never given back:
  after a thread has constructed and destroyed one \<open>ReadLockGuard\<close> and every thread is idle with
  no guard, the lock word still counts a reader, and no compare-and-exchange of \<open>WriteLock\<close>
  changes the lock.\<close>

theorem mod_release_reader_leaks:
  "\<exists>s g. guard_run mod_guard_ctor mod_guard_dtor (mod_lock_step ReleaseBuild) {1, 2} 1 s g \<and>
     pcs s 1 = Idle \<and> g 1 = [] \<and> pcs s 2 = Idle \<and> g 2 = [] \<and>
     readers_of (lockFlag (sharedLock s)) = 1 \<and>
     (\<forall>tid now st n. mod_WriteLock_step ReleaseBuild tid now (sharedLock s) (W_spin st n) =
        Inr (sharedLock s, Some (W_spin st (if n < MAX_SPIN_COUNT then Suc n else 0))))"
proof -
  have "guards_play_to mod_guard_ctor mod_guard_dtor (mod_lock_step ReleaseBuild) [1, 2] 1
      [Construct 1 ReadLockGuard, Move 1 0, Move 1 0, Move 1 0, Destruct 1, Move 1 0]
      (\<lambda>s g. pcs s 1 = Idle \<and> g 1 = [] \<and> pcs s 2 = Idle \<and> g 2 = [] \<and> lockFlag (sharedLock s) = 1)"
    by code_simp
  then obtain s g where s: "lockFlag (sharedLock s) = 1" "pcs s 1 = Idle" "g 1 = []" "pcs s 2 = Idle"
      "g 2 = []" "guard_run mod_guard_ctor mod_guard_dtor (mod_lock_step ReleaseBuild) {1, 2} 1 s g"
    using guards_play_to_run by fastforce
  moreover have "readers_of 1 = 1" "(1 :: u32) \<noteq> EMPTY_FLAG"
    by (simp_all add: readers_of_def READ_COUNT_MASK_def EMPTY_FLAG_def)
  ultimately show ?thesis
    by (intro exI [of _ s] exI [of _ g]) simp
qed

end
