(* ===== verification/Deadlock_Profiler.thy ===== *)
theory Deadlock_Profiler
  imports Core_Prelude
begin

text \<open>
  The lock-order profiler of ServerCore/DeadLockProfiler.h and DeadLockProfiler.cpp. Every
  thread keeps a stack of the locks it has asked for; whenever a lock is asked for under another
  one for the first time, the profiler records the pair and searches the graph of all recorded
  pairs for a cycle, depth first. Lock names are \<open>const char*\<close> keys, so two names are the same
  lock exactly when the pointers are equal; a name is therefore modelled by its address.
\<close>

section \<open>State\<close>

type_synonym lock_name = nat
type_synonym lock_id = nat

text \<open>\<open>std::map<int32, set<int32>>\<close>: absent keys are \<open>None\<close>, a set is its elements in the
  ascending order in which the loop visits them.\<close>

type_synonym history = "lock_id \<rightharpoonup> lock_id list"

record dfs_state =
  visitedOrder :: "int list"
  totalNodeCount :: nat
  isFinished :: "bool list"
  parentOf :: "int list"

record profiler =
  nameToId :: "(lock_name \<times> lock_id) list"
  idToName :: "lock_id \<rightharpoonup> lock_name"
  lockHistory :: history
  search :: dfs_state

text \<open>How a search can stop the process: a vector index out of range, the cycle report failing
  to return, the deadlock crash with the edges it printed, or another crash.\<close>

datatype dfs_stop =
    OutOfRange
  | ReportDiverges
  | Deadlock "(lock_id \<times> lock_id) list"
  | ProfilerCrash failure

section \<open>Operations\<close>

text \<open>The loop that prints a cycle backwards along \<open>parent\<close> until it is back at \<open>next\<close>. It has
  no bound of its own, so it may fail to return.\<close>

partial_function (option) report_cycle ::
  "int list \<Rightarrow> lock_id \<Rightarrow> lock_id \<Rightarrow> (lock_id \<times> lock_id) list \<Rightarrow>
   (dfs_stop + (lock_id \<times> lock_id) list) option" where
  "report_cycle par nxt now printed =
     (if length par \<le> now \<or> par ! now < 0 then Some (Inl OutOfRange)
      else let p = nat (par ! now); printed' = printed @ [(p, now)] in
        if p = nxt then Some (Inr printed') else report_cycle par nxt p printed')"

declare report_cycle.simps [code]

definition deadlock_report :: "dfs_state \<Rightarrow> lock_id \<Rightarrow> lock_id \<Rightarrow> dfs_stop" where
  "deadlock_report st cur nxt =
     (case report_cycle (parentOf st) nxt cur [(cur, nxt)] of
        None \<Rightarrow> ReportDiverges
      | Some (Inl e) \<Rightarrow> e
      | Some (Inr printed) \<Rightarrow> Deadlock printed)"

definition visit :: "lock_id \<Rightarrow> dfs_state \<Rightarrow> dfs_state" where
  "visit cur st = st\<lparr>visitedOrder := (visitedOrder st)[cur := int (totalNodeCount st)],
     totalNodeCount := totalNodeCount st + 1\<rparr>"

definition finish :: "lock_id \<Rightarrow> dfs_state \<Rightarrow> dfs_state" where
  "finish cur st = st\<lparr>isFinished := (isFinished st)[cur := True]\<rparr>"

text \<open>\<open>DFS\<close> and the body of its loop over \<open>nextSet\<close>.\<close>

function dfs :: "history \<Rightarrow> lock_id \<Rightarrow> dfs_state \<Rightarrow> dfs_stop + dfs_state"
  and dfs_next :: "history \<Rightarrow> lock_id \<Rightarrow> lock_id list \<Rightarrow> dfs_state \<Rightarrow> dfs_stop + dfs_state" where
  "dfs h cur st =
     (if length (visitedOrder st) \<le> cur then Inl OutOfRange
      else if visitedOrder st ! cur \<noteq> -1 then Inr st
      else case h cur of
          None \<Rightarrow> Inr (finish cur (visit cur st))
        | Some nextSet \<Rightarrow> map_sum id (finish cur) (dfs_next h cur nextSet (visit cur st)))"
| "dfs_next h cur [] st = Inr st"
| "dfs_next h cur (nxt # rest) st =
     (if length (visitedOrder st) \<le> nxt \<or> length (visitedOrder st) \<le> cur then Inl OutOfRange
      else if visitedOrder st ! nxt = -1 then
        (case dfs h nxt (st\<lparr>parentOf := (parentOf st)[nxt := int cur]\<rparr>) of
           Inl e \<Rightarrow> Inl e
         | Inr st' \<Rightarrow> dfs_next h cur rest st')
      else if visitedOrder st ! cur < visitedOrder st ! nxt then dfs_next h cur rest st
      else if \<not> isFinished st ! nxt then Inl (deadlock_report st cur nxt)
      else dfs_next h cur rest st)"
  by pat_completeness auto

text \<open>It terminates because every nested call first visits a node.\<close>

definition unvisited :: "dfs_state \<Rightarrow> nat" where
  "unvisited st = count_list (visitedOrder st) (-1)"

lemma count_list_update:
  "i < length xs \<Longrightarrow> count_list (xs[i := y]) x + (if xs ! i = x then 1 else 0) =
     count_list xs x + (if y = x then 1 else 0)"
proof (induction xs arbitrary: i)
  case (Cons z zs)
  show ?case
  proof (cases i)
    case (Suc j)
    with Cons.prems have "j < length zs" by simp
    from Cons.IH [OF this] show ?thesis
      by (auto simp: Suc split: if_splits)
  qed simp
qed simp

lemma unvisited_visit:
  "cur < length (visitedOrder st) \<Longrightarrow> visitedOrder st ! cur = -1 \<Longrightarrow>
   Suc (unvisited (visit cur st)) = unvisited st"
  using count_list_update [of cur "visitedOrder st" "int (totalNodeCount st)" "-1"]
  by (simp add: unvisited_def visit_def)

lemma unvisited_finish [simp]: "unvisited (finish cur st) = unvisited st"
  by (simp add: unvisited_def finish_def)

lemma unvisited_parent [simp]: "unvisited (st\<lparr>parentOf := ps\<rparr>) = unvisited st"
  by (simp add: unvisited_def)

lemma dfs_unvisited_le:
  "dfs_dfs_next_dom (Inl (h, cur, st)) \<Longrightarrow> \<forall>st'. dfs h cur st = Inr st' \<longrightarrow> unvisited st' \<le> unvisited st"
  "dfs_dfs_next_dom (Inr (h, cur, ns, st)) \<Longrightarrow>
     \<forall>st'. dfs_next h cur ns st = Inr st' \<longrightarrow> unvisited st' \<le> unvisited st"
proof (induction h cur st and h cur ns st rule: dfs_dfs_next.pinduct)
  case (1 h cur st)
  show ?case
  proof (intro allI impI)
    fix st'
    assume r: "dfs h cur st = Inr st'"
    show "unvisited st' \<le> unvisited st"
    proof (cases "length (visitedOrder st) \<le> cur \<or> visitedOrder st ! cur \<noteq> -1")
      case True
      with r show ?thesis
        by (auto simp: dfs.psimps [OF 1(1)] split: if_splits)
    next
      case False
      then have v: "Suc (unvisited (visit cur st)) = unvisited st"
        by (simp add: unvisited_visit)
      show ?thesis
      proof (cases "h cur")
        case None
        with r False v show ?thesis
          by (auto simp: dfs.psimps [OF 1(1)])
      next
        case (Some ms)
        with r False obtain st2 where "dfs_next h cur ms (visit cur st) = Inr st2" "st' = finish cur st2"
          by (cases "dfs_next h cur ms (visit cur st)") (auto simp: dfs.psimps [OF 1(1)])
        with 1(2) Some False v show ?thesis
          by fastforce
      qed
    qed
  qed
next
  case (2 h cur st)
  then show ?case by (simp add: dfs_next.psimps)
next
  case (3 h cur n ns st)
  show ?case
  proof (intro allI impI)
    fix st'
    assume r: "dfs_next h cur (n # ns) st = Inr st'"
    show "unvisited st' \<le> unvisited st"
    proof (cases "visitedOrder st ! n = -1 \<and> n < length (visitedOrder st) \<and> cur < length (visitedOrder st)")
      case True
      then obtain st2 where d: "dfs h n (st\<lparr>parentOf := (parentOf st)[n := int cur]\<rparr>) = Inr st2"
          and "dfs_next h cur ns st2 = Inr st'"
        using r by (auto simp: dfs_next.psimps(2) [OF 3(1)] split: sum.splits if_splits)
      moreover have "unvisited st2 \<le> unvisited st"
        using 3(2) True d by auto
      ultimately show ?thesis
        using 3(3) [OF _ _ d] True by (force intro: order_trans)
    next
      case False
      then show ?thesis
        using r 3(4,5) by (auto simp: dfs_next.psimps(2) [OF 3(1)] split: if_splits)
    qed
  qed
qed

termination dfs
proof (relation "inv_image (less_than <*lex*> less_than)
    (case_sum (\<lambda>(h, cur, st). (unvisited st, 0)) (\<lambda>(h, cur, ns, st). (unvisited st, Suc (length ns))))",
    goal_cases)
  case (2 h cur st ms)
  then show ?case
    using unvisited_visit [of cur st] by auto
next
  case (4 h cur n ns st st')
  then show ?case
    using dfs_unvisited_le(1) [of h n "st\<lparr>parentOf := (parentOf st)[n := int cur]\<rparr>"]
    by (auto simp: le_less)
qed auto

text \<open>The simplifier would unfold \<open>dfs\<close> for ever; it is unfolded by hand.\<close>

declare dfs.simps [simp del]

section \<open>The graph of recorded pairs\<close>

definition edges :: "history \<Rightarrow> (lock_id \<times> lock_id) set" where
  "edges h = {(a, b). \<exists>bs. h a = Some bs \<and> b \<in> set bs}"

lemma edges_Some: "h a = Some bs \<Longrightarrow> (a, b) \<in> edges h \<longleftrightarrow> b \<in> set bs"
  by (simp add: edges_def)

lemma edges_None: "h a = None \<Longrightarrow> (a, b) \<notin> edges h"
  by (simp add: edges_def)

text \<open>Edges between known locks, and no lock under itself.\<close>

definition history_ok :: "nat \<Rightarrow> history \<Rightarrow> bool" where
  "history_ok n h \<longleftrightarrow> (\<forall>(a, b) \<in> edges h. a < n \<and> b < n \<and> a \<noteq> b)"

text \<open>A printed cycle: the edges \<open>(a, b), (p, a), \<dots>, (b, x)\<close> in backward order.\<close>

definition is_cycle :: "(lock_id \<times> lock_id) set \<Rightarrow> (lock_id \<times> lock_id) list \<Rightarrow> bool" where
  "is_cycle E es \<longleftrightarrow> es \<noteq> [] \<and> set es \<subseteq> E \<and> successively (\<lambda>e f. fst e = snd f) es \<and>
     snd (hd es) = fst (last es)"

lemma backward_path:
  "es \<noteq> [] \<Longrightarrow> set es \<subseteq> E \<Longrightarrow> successively (\<lambda>e f. fst e = snd f) es \<Longrightarrow>
   (fst (last es), snd (hd es)) \<in> E\<^sup>+"
proof (induction es rule: induct_list012)
  case (3 e f es)
  then have "(fst (last (f # es)), snd f) \<in> E\<^sup>+"
    by simp
  moreover have "(snd f, snd e) \<in> E"
    using 3(4,5) by (cases e) auto
  ultimately show ?case
    by (simp add: trancl.trancl_into_trancl)
qed auto

lemma is_cycle_cyclic: "is_cycle E es \<Longrightarrow> \<not> acyclic E"
  using backward_path [of es E] by (auto simp: is_cycle_def acyclic_def)

section \<open>What the search maintains\<close>

text \<open>
  \<open>p\<close> is the stack of nodes whose \<open>DFS\<close> call is running, innermost first: they are the nodes
  visited and not finished, in descending order of visit, linked by \<open>parent\<close> along edges of the
  graph. The finished nodes are closed under edges and carry no cycle.
\<close>

abbreviation finished :: "dfs_state \<Rightarrow> lock_id set" where
  "finished st \<equiv> {n. n < length (isFinished st) \<and> isFinished st ! n}"

definition dfs_inv :: "history \<Rightarrow> nat \<Rightarrow> lock_id list \<Rightarrow> dfs_state \<Rightarrow> bool" where
  "dfs_inv h N p st \<longleftrightarrow>
     length (visitedOrder st) = N \<and> length (isFinished st) = N \<and> length (parentOf st) = N \<and>
     distinct p \<and>
     (\<forall>n. n \<in> set p \<longleftrightarrow> n < N \<and> visitedOrder st ! n \<noteq> -1 \<and> \<not> isFinished st ! n) \<and>
     (\<forall>n<N. isFinished st ! n \<longrightarrow> visitedOrder st ! n \<noteq> -1) \<and>
     (\<forall>n<N. visitedOrder st ! n < int (totalNodeCount st)) \<and>
     sorted_wrt (\<lambda>a b. visitedOrder st ! b < visitedOrder st ! a) p \<and>
     successively (\<lambda>a b. parentOf st ! a = int b \<and> (b, a) \<in> edges h) p \<and>
     (\<forall>(a, b) \<in> edges h. a \<in> finished st \<longrightarrow> b \<in> finished st) \<and>
     acyclic (edges h \<inter> finished st \<times> finished st)"

lemma dfs_invI:
  assumes "length (visitedOrder st) = N" "length (isFinished st) = N" "length (parentOf st) = N"
    and "distinct p"
    and "\<And>n. n \<in> set p \<longleftrightarrow> n < N \<and> visitedOrder st ! n \<noteq> -1 \<and> \<not> isFinished st ! n"
    and "\<And>n. n < N \<Longrightarrow> isFinished st ! n \<Longrightarrow> visitedOrder st ! n \<noteq> -1"
    and "\<And>n. n < N \<Longrightarrow> visitedOrder st ! n < int (totalNodeCount st)"
    and "sorted_wrt (\<lambda>a b. visitedOrder st ! b < visitedOrder st ! a) p"
    and "successively (\<lambda>a b. parentOf st ! a = int b \<and> (b, a) \<in> edges h) p"
    and "\<And>a b. (a, b) \<in> edges h \<Longrightarrow> a \<in> finished st \<Longrightarrow> b \<in> finished st"
    and "acyclic (edges h \<inter> finished st \<times> finished st)"
  shows "dfs_inv h N p st"
  unfolding dfs_inv_def using assms by blast

lemma dfs_invD:
  assumes "dfs_inv h N p st"
  shows "distinct p"
    and "n < N \<Longrightarrow> isFinished st ! n \<Longrightarrow> visitedOrder st ! n \<noteq> -1"
    and "n < N \<Longrightarrow> visitedOrder st ! n < int (totalNodeCount st)"
    and "sorted_wrt (\<lambda>a b. visitedOrder st ! b < visitedOrder st ! a) p"
    and "successively (\<lambda>a b. parentOf st ! a = int b \<and> (b, a) \<in> edges h) p"
    and "(a, b) \<in> edges h \<Longrightarrow> a \<in> finished st \<Longrightarrow> b \<in> finished st"
    and "acyclic (edges h \<inter> finished st \<times> finished st)"
  using assms unfolding dfs_inv_def by blast+

lemma acyclic_add_source:
  assumes "acyclic r" and "\<And>a. (a, x) \<notin> r \<union> s" and "\<And>a b. (a, b) \<in> s \<Longrightarrow> a = x"
  shows "acyclic (r \<union> s)"
proof -
  have "a \<noteq> x \<longrightarrow> (a, b) \<in> r\<^sup>+" and "b \<noteq> x" if "(a, b) \<in> (r \<union> s)\<^sup>+" for a b
    using that
  proof (induction rule: trancl_induct)
    case (base b)
    {
      case 1
      show ?case using base assms(3) by blast
    next
      case 2
      show ?case using base assms(2) by blast
    }
  next
    case (step b c)
    {
      case 1
      show ?case
        using step assms(3) by (blast intro: trancl.trancl_into_trancl)
    next
      case 2
      show ?case using step assms(2) by blast
    }
  qed
  then show ?thesis
    using assms(1) unfolding acyclic_def by blast
qed

lemma dfs_inv_len:
  "dfs_inv h N p st \<Longrightarrow>
     length (visitedOrder st) = N \<and> length (isFinished st) = N \<and> length (parentOf st) = N"
  by (simp add: dfs_inv_def)

lemma dfs_inv_stack:
  "dfs_inv h N p st \<Longrightarrow> n \<in> set p \<longleftrightarrow> n < N \<and> visitedOrder st ! n \<noteq> -1 \<and> \<not> isFinished st ! n"
  by (simp add: dfs_inv_def)

lemma sorted_wrt_cong_set:
  "(\<And>a b. a \<in> set xs \<Longrightarrow> b \<in> set xs \<Longrightarrow> P a b = Q a b) \<Longrightarrow> sorted_wrt P xs = sorted_wrt Q xs"
  by (induction xs) auto

lemma successively_cong_set:
  "(\<And>a b. a \<in> set xs \<Longrightarrow> b \<in> set xs \<Longrightarrow> P a b = Q a b) \<Longrightarrow> successively P xs = successively Q xs"
  by (induction xs rule: induct_list012) auto

text \<open>Visiting a new node, linked to the top of the stack.\<close>

definition linked :: "history \<Rightarrow> lock_id list \<Rightarrow> dfs_state \<Rightarrow> lock_id \<Rightarrow> bool" where
  "linked h p st n \<longleftrightarrow> p = [] \<or> parentOf st ! n = int (hd p) \<and> (hd p, n) \<in> edges h"

lemma dfs_inv_visit:
  assumes inv: "dfs_inv h N p st" and n: "n < N" "visitedOrder st ! n = -1" and link: "linked h p st n"
  shows "dfs_inv h N (n # p) (visit n st)"
proof -
  note len = dfs_inv_len [OF inv]
  have np: "n \<notin> set p"
    using dfs_inv_stack [OF inv] n by simp
  have nf: "\<not> isFinished st ! n"
    using dfs_invD(2) [OF inv n(1)] n(2) by blast
  have vo: "visitedOrder (visit n st) ! m = (if m = n then int (totalNodeCount st) else visitedOrder st ! m)"
    if "m < N" for m
    using that len by (auto simp: visit_def)
  have same: "isFinished (visit n st) = isFinished st" "parentOf (visit n st) = parentOf st"
    "totalNodeCount (visit n st) = Suc (totalNodeCount st)"
    by (auto simp: visit_def)
  have pN: "m < N" if "m \<in> set p" for m
    using dfs_inv_stack [OF inv] that by simp
  show ?thesis
  proof (rule dfs_invI)
    show "sorted_wrt (\<lambda>a b. visitedOrder (visit n st) ! b < visitedOrder (visit n st) ! a) (n # p)"
    proof -
      have "sorted_wrt (\<lambda>a b. visitedOrder (visit n st) ! b < visitedOrder (visit n st) ! a) p =
            sorted_wrt (\<lambda>a b. visitedOrder st ! b < visitedOrder st ! a) p"
        by (rule sorted_wrt_cong_set) (metis vo pN np)
      moreover have "visitedOrder (visit n st) ! m < visitedOrder (visit n st) ! n" if "m \<in> set p" for m
        using that np n dfs_invD(3) [OF inv pN [OF that]] pN [OF that] by (auto simp: vo)
      ultimately show ?thesis
        using dfs_invD(4) [OF inv] by simp
    qed
    show "successively (\<lambda>a b. parentOf (visit n st) ! a = int b \<and> (b, a) \<in> edges h) (n # p)"
      using dfs_invD(5) [OF inv] link unfolding same by (cases p) (auto simp: linked_def)
    show "m \<in> set (n # p) \<longleftrightarrow>
        m < N \<and> visitedOrder (visit n st) ! m \<noteq> -1 \<and> \<not> isFinished (visit n st) ! m" for m
      using dfs_inv_stack [OF inv, of m] n nf vo [of m] by (cases "m = n") (auto simp: same)
    show "visitedOrder (visit n st) ! m < int (totalNodeCount (visit n st))" if "m < N" for m
      using dfs_invD(3) [OF inv that] vo [OF that] by (auto simp: same)
    show "visitedOrder (visit n st) ! m \<noteq> -1" if "m < N" "isFinished (visit n st) ! m" for m
      using dfs_invD(2) [OF inv that(1)] that vo [OF that(1)] by (auto simp: same)
    show "b \<in> finished (visit n st)" if "(a, b) \<in> edges h" "a \<in> finished (visit n st)" for a b
      using dfs_invD(6) [OF inv] that unfolding same by blast
    show "acyclic (edges h \<inter> finished (visit n st) \<times> finished (visit n st))"
      using dfs_invD(7) [OF inv] unfolding same .
  qed (use len np dfs_invD(1) [OF inv] in \<open>auto simp: visit_def\<close>)
qed

lemma insert_source_split:
  assumes "\<And>b. (c, b) \<in> E \<Longrightarrow> b \<in> F" and "\<And>a. a \<in> F \<or> a = c \<Longrightarrow> (a, c) \<notin> E"
  shows "E \<inter> insert c F \<times> insert c F = (E \<inter> F \<times> F) \<union> {(a, b). a = c \<and> (a, b) \<in> E}"
  using assms by auto

text \<open>Leaving a node all of whose successors are finished.\<close>

lemma dfs_inv_finish:
  assumes inv: "dfs_inv h N (cur # p) st"
    and succ: "\<And>m. (cur, m) \<in> edges h \<Longrightarrow> m \<in> finished st"
  shows "dfs_inv h N p (finish cur st)"
proof -
  note len = dfs_inv_len [OF inv]
  have cur: "cur < N" "visitedOrder st ! cur \<noteq> -1" "\<not> isFinished st ! cur"
    using dfs_inv_stack [OF inv, of cur] by auto
  have fin: "isFinished (finish cur st) ! m = (m = cur \<or> isFinished st ! m)" if "m < N" for m
    using that len by (cases "m = cur") (simp_all add: finish_def)
  have same: "visitedOrder (finish cur st) = visitedOrder st" "parentOf (finish cur st) = parentOf st"
    "totalNodeCount (finish cur st) = totalNodeCount st" "length (isFinished (finish cur st)) = N"
    using len by (auto simp: finish_def)
  have fs: "finished (finish cur st) = insert cur (finished st)"
    using fin cur len by (auto simp: same(4))
  have no_in: "(a, cur) \<notin> edges h" if "a \<in> finished st \<or> a = cur" for a
    using that dfs_invD(6) [OF inv, of a cur] succ [of cur] cur by auto
  have split: "edges h \<inter> finished (finish cur st) \<times> finished (finish cur st) =
      (edges h \<inter> finished st \<times> finished st) \<union> {(a, b). a = cur \<and> (a, b) \<in> edges h}"
    unfolding fs by (rule insert_source_split) (use succ no_in in blast)+
  show ?thesis
  proof (rule dfs_invI)
    show "acyclic (edges h \<inter> finished (finish cur st) \<times> finished (finish cur st))"
      unfolding split
    proof (rule acyclic_add_source [where x = cur])
      show "acyclic (edges h \<inter> finished st \<times> finished st)"
        by (rule dfs_invD(7) [OF inv])
    qed (use no_in cur in auto)
    show "b \<in> finished (finish cur st)" if "(a, b) \<in> edges h" "a \<in> finished (finish cur st)" for a b
      using that dfs_invD(6) [OF inv, of a b] succ [of b] unfolding fs by blast
    show "m \<in> set p \<longleftrightarrow>
        m < N \<and> visitedOrder (finish cur st) ! m \<noteq> -1 \<and> \<not> isFinished (finish cur st) ! m" for m
      using dfs_inv_stack [OF inv, of m] dfs_invD(1) [OF inv] fin [of m] by (auto simp: same)
    show "visitedOrder (finish cur st) ! m \<noteq> -1" if "m < N" "isFinished (finish cur st) ! m" for m
      using that dfs_invD(2) [OF inv that(1)] cur fin by (auto simp: same)
    show "visitedOrder (finish cur st) ! m < int (totalNodeCount (finish cur st))" if "m < N" for m
      using dfs_invD(3) [OF inv that] by (simp add: same)
    show "sorted_wrt (\<lambda>a b. visitedOrder (finish cur st) ! b < visitedOrder (finish cur st) ! a) p"
      using dfs_invD(4) [OF inv] by (simp add: same)
    show "successively (\<lambda>a b. parentOf (finish cur st) ! a = int b \<and> (b, a) \<in> edges h) p"
      using dfs_invD(5) [OF inv] by (cases p) (simp_all add: same)
  qed (use len dfs_invD(1) [OF inv] in \<open>auto simp: same\<close>)
qed

text \<open>Entering the parent of an unvisited node changes nothing the invariant speaks of.\<close>

lemma dfs_inv_parent:
  assumes inv: "dfs_inv h N p st" and n: "n < N" "visitedOrder st ! n = -1"
  shows "dfs_inv h N p (st\<lparr>parentOf := (parentOf st)[n := v]\<rparr>)"
proof (rule dfs_invI)
  let ?st = "st\<lparr>parentOf := (parentOf st)[n := v]\<rparr>"
  have "n \<notin> set p"
    using dfs_inv_stack [OF inv] n by simp
  then have "successively (\<lambda>a b. (parentOf st)[n := v] ! a = int b \<and> (b, a) \<in> edges h) p =
        successively (\<lambda>a b. parentOf st ! a = int b \<and> (b, a) \<in> edges h) p"
    by (intro successively_cong_set) (metis nth_list_update_neq)
  then show "successively (\<lambda>a b. parentOf ?st ! a = int b \<and> (b, a) \<in> edges h) p"
    using dfs_invD(5) [OF inv] by simp
  show "b \<in> finished ?st" if "(a, b) \<in> edges h" "a \<in> finished ?st" for a b
    using dfs_invD(6) [OF inv, of a b] that by simp
qed (use dfs_inv_len [OF inv] dfs_invD [OF inv] dfs_inv_stack [OF inv] in simp_all)

text \<open>An edge back to a running node: the report follows \<open>parent\<close> up the stack and stops.\<close>

lemma report_cycle_stack:
  assumes inv: "dfs_inv h N (pre @ cur # p) st" and "nxt \<in> set p"
  shows "\<exists>es. report_cycle (parentOf st) nxt cur acc = Some (Inr (acc @ es)) \<and> es \<noteq> [] \<and>
     set es \<subseteq> edges h \<and> successively (\<lambda>e f. fst e = snd f) es \<and>
     snd (hd es) = cur \<and> fst (last es) = nxt"
  using assms
proof (induction p arbitrary: pre cur acc)
  case (Cons q p)
  have link: "parentOf st ! cur = int q" "(q, cur) \<in> edges h"
    using dfs_invD(5) [OF Cons.prems(1)] by (auto simp: successively_append_iff)
  have len: "cur < length (parentOf st)"
    using dfs_inv_len [OF Cons.prems(1)] dfs_inv_stack [OF Cons.prems(1), of cur] by simp
  show ?case
  proof (cases "q = nxt")
    case True
    then show ?thesis
      using link len by (subst report_cycle.simps) (auto intro!: exI [where x = "[(q, cur)]"])
  next
    case False
    with Cons.prems(2) have "nxt \<in> set p" by simp
    from Cons.IH [OF _ this, of "pre @ [cur]" q "acc @ [(q, cur)]"] Cons.prems(1)
    obtain es where es: "report_cycle (parentOf st) nxt q (acc @ [(q, cur)]) =
          Some (Inr ((acc @ [(q, cur)]) @ es))" "es \<noteq> []" "set es \<subseteq> edges h"
        "successively (\<lambda>e f. fst e = snd f) es" "snd (hd es) = q" "fst (last es) = nxt"
      by auto
    then have "successively (\<lambda>e f. fst e = snd f) ((q, cur) # es)"
      by (cases es) auto
    with es False link len show ?thesis
      by (subst report_cycle.simps) (auto intro!: exI [where x = "(q, cur) # es"])
  qed
qed simp

lemma deadlock_report_cycle:
  assumes inv: "dfs_inv h N (cur # p) st" and "nxt \<in> set p" and e: "(cur, nxt) \<in> edges h"
  shows "\<exists>es. deadlock_report st cur nxt = Deadlock es \<and> is_cycle (edges h) es"
proof -
  obtain es where es: "report_cycle (parentOf st) nxt cur [(cur, nxt)] = Some (Inr ((cur, nxt) # es))"
      "es \<noteq> []" "set es \<subseteq> edges h" "successively (\<lambda>e f. fst e = snd f) es"
      "snd (hd es) = cur" "fst (last es) = nxt"
    using report_cycle_stack [of h N "[]" cur p st nxt "[(cur, nxt)]"] assms by auto
  then have "is_cycle (edges h) ((cur, nxt) # es)"
    using e by (cases es) (auto simp: is_cycle_def)
  then show ?thesis
    using es(1) by (simp add: deadlock_report_def)
qed

section \<open>The search is correct\<close>

text \<open>What one call of \<open>DFS\<close>, and one run of its loop, does under a stack \<open>p\<close> of running calls.\<close>

definition dfs_result :: "history \<Rightarrow> nat \<Rightarrow> lock_id list \<Rightarrow> lock_id set \<Rightarrow> dfs_state \<Rightarrow>
    dfs_stop + dfs_state \<Rightarrow> bool" where
  "dfs_result h N p ns st r =
     (case r of
        Inl e \<Rightarrow> \<exists>es. e = Deadlock es \<and> is_cycle (edges h) es
      | Inr st' \<Rightarrow> dfs_inv h N p st' \<and> finished st \<subseteq> finished st' \<and> ns \<subseteq> finished st')"

lemma dfs_result_InrI:
  "r = Inr s \<Longrightarrow> dfs_inv h N p s \<Longrightarrow> finished st \<subseteq> finished s \<Longrightarrow> ns \<subseteq> finished s \<Longrightarrow>
   dfs_result h N p ns st r"
  by (simp add: dfs_result_def)

lemma dfs_correct:
  "history_ok N h \<Longrightarrow> dfs_inv h N p st \<Longrightarrow> n < N \<Longrightarrow> n \<notin> set p \<Longrightarrow>
     (visitedOrder st ! n = -1 \<longrightarrow> linked h p st n) \<Longrightarrow> dfs_result h N p {n} st (dfs h n st)"
  "history_ok N h \<Longrightarrow> dfs_inv h N (cur # p) st \<Longrightarrow> \<forall>m \<in> set ns. (cur, m) \<in> edges h \<Longrightarrow>
     dfs_result h N (cur # p) (set ns) st (dfs_next h cur ns st)"
proof (induction h n st and h cur ns st arbitrary: p and p rule: dfs_dfs_next.induct)
  case (1 h n st)
  note len = dfs_inv_len [OF 1(3)]
  show ?case
  proof (cases "visitedOrder st ! n = -1")
    case False
    then have "isFinished st ! n"
      using dfs_inv_stack [OF 1(3), of n] 1(4,5) by simp
    then show ?thesis
      using False 1(3,4) len by (simp add: dfs.simps dfs_result_def)
  next
    case True
    have inv: "dfs_inv h N (n # p) (visit n st)"
      using dfs_inv_visit 1(3,4,6) True by blast
    have fin: "finished (visit n st) = finished st"
      by (simp add: visit_def)
    have finn: "finished (finish n s) = insert n (finished s)" if "length (isFinished s) = N" for s
      using that 1(4) by (auto simp: finish_def nth_list_update split: if_splits)
    show ?thesis
    proof (cases "h n")
      case None
      then have "dfs_inv h N p (finish n (visit n st))"
        using dfs_inv_finish [OF inv] edges_None [of h n, OF None] by blast
      moreover have "finished (finish n (visit n st)) = insert n (finished st)"
        using finn [of "visit n st"] dfs_inv_len [OF inv] unfolding fin by blast
      moreover have "dfs h n st = Inr (finish n (visit n st))"
        using None True 1(4) len by (simp add: dfs.simps)
      ultimately show ?thesis
        by (intro dfs_result_InrI) blast+
    next
      case (Some ms)
      let ?r = "dfs_next h n ms (visit n st)"
      have IH: "dfs_result h N (n # p) (set ms) (visit n st) ?r"
        using 1(1) [OF _ _ Some 1(2) inv] True 1(4) len edges_Some [of h n, OF Some] by auto
      show ?thesis
      proof (cases ?r)
        case (Inl e)
        with IH Some True 1(4) len show ?thesis
          by (simp add: dfs.simps dfs_result_def)
      next
        case (Inr s)
        with IH have s: "dfs_inv h N (n # p) s" "finished (visit n st) \<subseteq> finished s" "set ms \<subseteq> finished s"
          by (simp_all add: dfs_result_def)
        then have "dfs_inv h N p (finish n s)"
          using dfs_inv_finish [OF s(1)] edges_Some [of h n, OF Some] by blast
        moreover have "finished (finish n s) = insert n (finished s)"
          using finn dfs_inv_len [OF s(1)] by simp
        moreover have "dfs h n st = Inr (finish n s)"
          using Inr Some True 1(4) len by (simp add: dfs.simps)
        ultimately show ?thesis
          using s(2) unfolding fin by (auto simp: dfs_result_def)
      qed
    qed
  qed
next
  case (2 h cur st)
  then show ?case by (simp add: dfs_result_def)
next
  case (3 h cur n ns st)
  note len = dfs_inv_len [OF 3(6)]
  have e: "(cur, n) \<in> edges h" "\<forall>m \<in> set ns. (cur, m) \<in> edges h"
    using 3(7) by simp_all
  with 3(5) have n: "n < N" "cur < N" "n \<noteq> cur"
    by (auto simp: history_ok_def)
  then have rng: "\<not> (length (visitedOrder st) \<le> n \<or> length (visitedOrder st) \<le> cur)"
    using len by simp
  have skip: "dfs_result h N (cur # p) (set (n # ns)) st (dfs_next h cur ns st)"
    if "dfs_result h N (cur # p) (set ns) st (dfs_next h cur ns st)" "isFinished st ! n"
    using that n len by (auto simp: dfs_result_def split: sum.splits)
  consider (new) "visitedOrder st ! n = -1"
    | (later) "visitedOrder st ! n \<noteq> -1" "visitedOrder st ! cur < visitedOrder st ! n"
    | (on_stack) "visitedOrder st ! n \<noteq> -1" "\<not> visitedOrder st ! cur < visitedOrder st ! n" "\<not> isFinished st ! n"
    | (cross) "visitedOrder st ! n \<noteq> -1" "\<not> visitedOrder st ! cur < visitedOrder st ! n" "isFinished st ! n"
    by blast
  then show ?case
  proof cases
    case new
    let ?st = "st\<lparr>parentOf := (parentOf st)[n := int cur]\<rparr>"
    let ?r = "dfs h n ?st"
    have "dfs_inv h N (cur # p) ?st"
      using dfs_inv_parent [OF 3(6) n(1) new] .
    moreover have "n \<notin> set (cur # p)"
      using dfs_inv_stack [OF 3(6), of n] new by simp
    moreover have "linked h (cur # p) ?st n"
      using e(1) n len by (simp add: linked_def)
    ultimately have IH: "dfs_result h N (cur # p) {n} ?st ?r"
      using 3(1) [OF rng new 3(5)] n(1) by blast
    show ?thesis
    proof (cases ?r)
      case (Inl x)
      with IH new rng show ?thesis
        by (simp add: dfs_result_def)
    next
      case (Inr s)
      with IH have s: "dfs_inv h N (cur # p) s" "finished st \<subseteq> finished s" "n \<in> finished s"
        by (simp_all add: dfs_result_def)
      have "dfs_result h N (cur # p) (set ns) s (dfs_next h cur ns s)"
        using 3(2) [OF rng new Inr 3(5) s(1) e(2)] .
      moreover have "dfs_next h cur (n # ns) st = dfs_next h cur ns s"
        using new rng Inr by simp
      ultimately show ?thesis
        using s(2,3) by (auto simp: dfs_result_def split: sum.splits)
    qed
  next
    case later
    have "isFinished st ! n"
    proof (rule ccontr)
      assume "\<not> isFinished st ! n"
      then have "n \<in> set p"
        using dfs_inv_stack [OF 3(6), of n] n later by simp
      then show False
        using dfs_invD(4) [OF 3(6)] later by fastforce
    qed
    then show ?thesis
      using skip [OF 3(3) [OF rng later 3(5,6) e(2)]] later rng by simp
  next
    case on_stack
    then have "n \<in> set p"
      using dfs_inv_stack [OF 3(6), of n] n by simp
    from deadlock_report_cycle [OF 3(6) this e(1)] on_stack rng show ?thesis
      by (simp add: dfs_result_def)
  next
    case cross
    then show ?thesis
      using skip [OF 3(4) [OF rng cross(1,2) _ 3(5,6) e(2)]] rng by simp
  qed
qed

section \<open>Recording and checking\<close>

definition new_search :: "nat \<Rightarrow> dfs_state" where
  "new_search lockCount = \<lparr>visitedOrder = replicate lockCount (-1), totalNodeCount = 0,
     isFinished = replicate lockCount False, parentOf = replicate lockCount (-1)\<rparr>"

text \<open>The loop of \<open>CheckCycle\<close> over the lock ids.\<close>

fun dfs_all :: "history \<Rightarrow> lock_id list \<Rightarrow> dfs_state \<Rightarrow> dfs_stop + dfs_state" where
  "dfs_all h [] st = Inr st"
| "dfs_all h (lockId # rest) st =
     (case dfs h lockId st of Inl e \<Rightarrow> Inl e | Inr st' \<Rightarrow> dfs_all h rest st')"

definition CheckCycle :: "profiler \<Rightarrow> dfs_stop + profiler" where
  "CheckCycle P = (let lockCount = length (nameToId P) in
     map_sum id (\<lambda>st. P\<lparr>search := st\<rparr>)
       (dfs_all (lockHistory P) [0..<lockCount] (new_search lockCount)))"

definition new_profiler :: profiler where
  "new_profiler = \<lparr>nameToId = [], idToName = Map.empty, lockHistory = Map.empty, search = new_search 0\<rparr>"

text \<open>The id of a name; a new name gets the number of names known so far.\<close>

definition lock_id_of :: "lock_name \<Rightarrow> profiler \<Rightarrow> profiler \<times> lock_id" where
  "lock_id_of name P =
     (case map_of (nameToId P) name of
        Some i \<Rightarrow> (P, i)
      | None \<Rightarrow> let i = length (nameToId P) in
          (P\<lparr>nameToId := nameToId P @ [(name, i)], idToName := (idToName P)(i \<mapsto> name)\<rparr>, i))"

text \<open>\<open>lockHistory[prevLockId]\<close> creates an empty set when there is none.\<close>

definition history_of :: "profiler \<Rightarrow> lock_id \<Rightarrow> lock_id list" where
  "history_of P prev = (case lockHistory P prev of None \<Rightarrow> [] | Some s \<Rightarrow> s)"

definition record_order :: "lock_id \<Rightarrow> lock_id \<Rightarrow> profiler \<Rightarrow> dfs_stop + profiler" where
  "record_order prev cur P =
     (if cur = prev then Inr P
      else if cur \<in> set (history_of P prev)
      then Inr (P\<lparr>lockHistory := (lockHistory P)(prev \<mapsto> history_of P prev)\<rparr>)
      else CheckCycle (P\<lparr>lockHistory := (lockHistory P)(prev \<mapsto> insort cur (history_of P prev))\<rparr>))"

text \<open>\<open>PushLock\<close>: the second component is \<open>tls_LockStack\<close> of the calling thread, top first.\<close>

definition PushLock :: "lock_name \<Rightarrow> profiler \<Rightarrow> lock_id list \<Rightarrow> dfs_stop + profiler \<times> lock_id list" where
  "PushLock name P tls_LockStack =
     (let (P1, currentLockId) = lock_id_of name P in
      map_sum id (\<lambda>P2. (P2, currentLockId # tls_LockStack))
        (case tls_LockStack of
           [] \<Rightarrow> Inr P1
         | prevLockId # _ \<Rightarrow> record_order prevLockId currentLockId P1))"

text \<open>\<open>nameToId[_name]\<close> of an unknown name inserts it with id 0.\<close>

definition id_or_insert :: "lock_name \<Rightarrow> profiler \<Rightarrow> profiler \<times> lock_id" where
  "id_or_insert name P =
     (case map_of (nameToId P) name of
        Some i \<Rightarrow> (P, i)
      | None \<Rightarrow> (P\<lparr>nameToId := nameToId P @ [(name, 0)]\<rparr>, 0))"

definition PopLock :: "lock_name \<Rightarrow> profiler \<Rightarrow> lock_id list \<Rightarrow> dfs_stop + profiler \<times> lock_id list" where
  "PopLock name P tls_LockStack =
     (case tls_LockStack of
        [] \<Rightarrow> Inl (ProfilerCrash (ForcedCrash ''MULTIPLE_UNLOCK''))
      | current # rest \<Rightarrow>
          let (P1, lockId) = id_or_insert name P in
          if current \<noteq> lockId then Inl (ProfilerCrash (ForcedCrash ''INVALID_UNLOCK''))
          else Inr (P1, rest))"

text \<open>
  The module version (ServerCore_Module/DeadlockProfiler.ixx) in a debug build, the only one that
  calls it. \<open>PushNode\<close> and \<open>DFS\<close> are as above with \<open>uint32\<close> entries, where the unvisited
  marker -1 is 4294967295; \<open>CheckCycle\<close> also clears the search afterwards, and \<open>PopNode\<close> only
  asserts, so a release build would pop an empty stack or the wrong lock.
\<close>

definition mod_CheckCycle :: "profiler \<Rightarrow> dfs_stop + profiler" where
  "mod_CheckCycle P = map_sum id (\<lambda>P'. P'\<lparr>search := new_search 0\<rparr>) (CheckCycle P)"

definition mod_record_order :: "lock_id \<Rightarrow> lock_id \<Rightarrow> profiler \<Rightarrow> dfs_stop + profiler" where
  "mod_record_order prev cur P =
     (if cur = prev then Inr P
      else if cur \<in> set (history_of P prev)
      then Inr (P\<lparr>lockHistory := (lockHistory P)(prev \<mapsto> history_of P prev)\<rparr>)
      else mod_CheckCycle (P\<lparr>lockHistory := (lockHistory P)(prev \<mapsto> insort cur (history_of P prev))\<rparr>))"

definition mod_PushNode :: "lock_name \<Rightarrow> profiler \<Rightarrow> lock_id list \<Rightarrow> dfs_stop + profiler \<times> lock_id list" where
  "mod_PushNode name P tls_LockStack =
     (let (P1, currentNodeId) = lock_id_of name P in
      map_sum id (\<lambda>P2. (P2, currentNodeId # tls_LockStack))
        (case tls_LockStack of
           [] \<Rightarrow> Inr P1
         | prevNodeId # _ \<Rightarrow> mod_record_order prevNodeId currentNodeId P1))"

definition mod_PopNode :: "build \<Rightarrow> lock_name \<Rightarrow> profiler \<Rightarrow> lock_id list \<Rightarrow>
    failure + profiler \<times> lock_id list" where
  "mod_PopNode b name P tls_LockStack =
     and_then (assert_crash b (tls_LockStack = []) ''MULTIPLE_UNLOCK'') (\<lambda>_.
       let (P1, lockId) = id_or_insert name P in
       case tls_LockStack of
         [] \<Rightarrow> Inl (Undefined ''stack::pop on an empty stack'')
       | current # rest \<Rightarrow>
           and_then (assert_crash b (current \<noteq> lockId) ''INVALID_UNLOCK'') (\<lambda>_. Inr (P1, rest)))"

section \<open>The cycle check decides acyclicity\<close>

lemma dfs_inv_new: "dfs_inv h N [] (new_search N)"
proof -
  have none: "finished (new_search N) = {}"
    by (auto simp: new_search_def)
  have "acyclic (edges h \<inter> finished (new_search N) \<times> finished (new_search N))"
    unfolding none by (simp add: acyclic_def)
  then show ?thesis
    by (intro dfs_invI) (auto simp: new_search_def)
qed

lemma dfs_all_correct:
  "history_ok N h \<Longrightarrow> dfs_inv h N [] st \<Longrightarrow> \<forall>i \<in> set is. i < N \<Longrightarrow>
     dfs_result h N [] (set is) st (dfs_all h is st)"
proof (induction "is" arbitrary: st)
  case (Cons i "is")
  have d: "dfs_result h N [] {i} st (dfs h i st)"
    using dfs_correct(1) [OF Cons.prems(1,2), of i] Cons.prems(3) by (simp add: linked_def)
  show ?case
  proof (cases "dfs h i st")
    case (Inr s)
    with d have s: "dfs_inv h N [] s" "finished st \<subseteq> finished s" "i \<in> finished s"
      by (simp_all add: dfs_result_def)
    have "dfs_result h N [] (set is) s (dfs_all h is s)"
      using Cons.IH [OF Cons.prems(1) s(1)] Cons.prems(3) by simp
    then show ?thesis
      using Inr s(2,3) by (auto simp: dfs_result_def split: sum.splits)
  qed (use d in \<open>simp add: dfs_result_def\<close>)
qed (simp add: dfs_result_def)

lemma CheckCycle_Inr:
  assumes ok: "history_ok (length (nameToId P)) (lockHistory P)" and "CheckCycle P = Inr P'"
  shows "acyclic (edges (lockHistory P)) \<and> (\<exists>st. P' = P\<lparr>search := st\<rparr>)"
proof -
  let ?N = "length (nameToId P)"
  obtain st where st: "dfs_all (lockHistory P) [0..<?N] (new_search ?N) = Inr st" "P' = P\<lparr>search := st\<rparr>"
    using assms(2) by (cases "dfs_all (lockHistory P) [0..<?N] (new_search ?N)") (auto simp: CheckCycle_def Let_def)
  have r: "dfs_inv (lockHistory P) ?N [] st" "{..<?N} \<subseteq> finished st"
    using dfs_all_correct [OF ok dfs_inv_new, of "[0..<?N]"] st(1)
    by (auto simp: dfs_result_def atLeast0LessThan)
  have "edges (lockHistory P) \<subseteq> {..<?N} \<times> {..<?N}"
    using ok by (auto simp: history_ok_def)
  with r(2) have "edges (lockHistory P) \<inter> finished st \<times> finished st = edges (lockHistory P)"
    by blast
  then show ?thesis
    using dfs_invD(7) [OF r(1)] st(2) by auto
qed

lemma CheckCycle_Inl:
  assumes ok: "history_ok (length (nameToId P)) (lockHistory P)" and "CheckCycle P = Inl e"
  shows "\<exists>es. e = Deadlock es \<and> is_cycle (edges (lockHistory P)) es"
proof -
  let ?N = "length (nameToId P)"
  have "dfs_all (lockHistory P) [0..<?N] (new_search ?N) = Inl e"
    using assms(2) by (cases "dfs_all (lockHistory P) [0..<?N] (new_search ?N)") (auto simp: CheckCycle_def Let_def)
  then show ?thesis
    using dfs_all_correct [OF ok dfs_inv_new, of "[0..<?N]"] by (simp add: dfs_result_def)
qed

text \<open>C17. \<open>CheckCycle\<close> decides whether the recorded acquisition orders are free of cycles: it
  returns, with nothing but the search state changed, exactly when the graph is acyclic, and
  otherwise stops with a list of edges that really is a cycle of the graph. It never indexes out
  of a vector and its printing loop always ends.\<close>

theorem CheckCycle_decides:
  assumes "history_ok (length (nameToId P)) (lockHistory P)"
  shows "if acyclic (edges (lockHistory P)) then \<exists>st. CheckCycle P = Inr (P\<lparr>search := st\<rparr>)
    else \<exists>es. CheckCycle P = Inl (Deadlock es) \<and> is_cycle (edges (lockHistory P)) es"
proof (cases "CheckCycle P")
  case (Inl e)
  then show ?thesis
    using CheckCycle_Inl [OF assms Inl] is_cycle_cyclic by auto
next
  case (Inr P')
  then show ?thesis
    using CheckCycle_Inr [OF assms Inr] by auto
qed

section \<open>All threads together\<close>

definition prof_ok :: "profiler \<Rightarrow> bool" where
  "prof_ok P \<longleftrightarrow> history_ok (length (nameToId P)) (lockHistory P) \<and> acyclic (edges (lockHistory P)) \<and>
     (\<forall>i \<in> snd ` set (nameToId P). i < length (nameToId P))"

text \<open>Every two neighbouring locks of a stack are a recorded pair, the lower one first.\<close>

definition stack_ok :: "profiler \<Rightarrow> lock_id list \<Rightarrow> bool" where
  "stack_ok P s \<longleftrightarrow> (\<forall>i \<in> set s. i < length (nameToId P)) \<and>
     successively (\<lambda>a b. a \<noteq> b \<longrightarrow> (b, a) \<in> edges (lockHistory P)) s"

text \<open>What may change without harming stacks: more names, more pairs.\<close>

definition grows :: "profiler \<Rightarrow> profiler \<Rightarrow> bool" where
  "grows P P' \<longleftrightarrow> length (nameToId P) \<le> length (nameToId P') \<and> edges (lockHistory P) \<subseteq> edges (lockHistory P')"

lemma stack_ok_grows: "stack_ok P s \<Longrightarrow> grows P P' \<Longrightarrow> stack_ok P' s"
  unfolding stack_ok_def grows_def by (auto elim!: successively_mono)

lemma history_ok_mono: "history_ok n h \<Longrightarrow> n \<le> m \<Longrightarrow> history_ok m h"
  by (fastforce simp: history_ok_def)

lemma ids_append:
  "\<forall>i \<in> snd ` set xs. i < length xs \<Longrightarrow> j \<le> length xs \<Longrightarrow>
   \<forall>i \<in> snd ` set (xs @ [(name, j)]). i < length (xs @ [(name, j)])"
  by (auto intro!: less_SucI)

lemma prof_ok_append:
  "prof_ok P \<Longrightarrow> j \<le> length (nameToId P) \<Longrightarrow> nameToId P1 = nameToId P @ [(name, j)] \<Longrightarrow>
   lockHistory P1 = lockHistory P \<Longrightarrow> prof_ok P1 \<and> grows P P1"
  unfolding prof_ok_def grows_def using ids_append [of "nameToId P" j name]
  by (auto elim!: history_ok_mono)

lemma lock_id_of_ok:
  assumes "prof_ok P" and "lock_id_of name P = (P1, i)"
  shows "prof_ok P1" and "grows P P1" and "i < length (nameToId P1)" and "lockHistory P1 = lockHistory P"
proof -
  have "prof_ok P1 \<and> grows P P1 \<and> i < length (nameToId P1) \<and> lockHistory P1 = lockHistory P"
  proof (cases "map_of (nameToId P) name")
    case None
    with assms prof_ok_append [of P "length (nameToId P)" P1 name] show ?thesis
      by (auto simp: lock_id_of_def Let_def)
  next
    case (Some j)
    then have "j < length (nameToId P)"
      using assms(1) by (force simp: prof_ok_def dest: map_of_SomeD)
    with Some assms show ?thesis
      by (simp add: lock_id_of_def grows_def)
  qed
  then show "prof_ok P1" "grows P P1" "i < length (nameToId P1)" "lockHistory P1 = lockHistory P"
    by simp_all
qed

lemma id_or_insert_ok:
  assumes "prof_ok P" and "id_or_insert name P = (P1, i)"
  shows "prof_ok P1" and "grows P P1"
  using assms prof_ok_append [of P 0 P1 name]
  by (auto simp: id_or_insert_def grows_def split: option.splits)

lemma edges_touch: "edges ((lockHistory P)(prev \<mapsto> history_of P prev)) = edges (lockHistory P)"
  by (auto simp: edges_def history_of_def split: option.splits if_splits)

lemma edges_insort:
  "edges ((lockHistory P)(prev \<mapsto> insort cur (history_of P prev))) = insert (prev, cur) (edges (lockHistory P))"
  by (auto simp: edges_def history_of_def set_insort_key split: option.splits if_splits)

text \<open>Recording a pair: it goes wrong exactly when the opposite order is already implied.\<close>

lemma record_order_cases:
  assumes ok: "prof_ok P" and ids: "prev < length (nameToId P)" "cur < length (nameToId P)" and ne: "cur \<noteq> prev"
  shows "if (cur, prev) \<in> (edges (lockHistory P))\<^sup>+
    then \<exists>es. record_order prev cur P = Inl (Deadlock es) \<and>
           is_cycle (insert (prev, cur) (edges (lockHistory P))) es
    else \<exists>P'. record_order prev cur P = Inr P' \<and> nameToId P' = nameToId P \<and>
           edges (lockHistory P') = insert (prev, cur) (edges (lockHistory P))"
proof (cases "cur \<in> set (history_of P prev)")
  case True
  then have "(prev, cur) \<in> edges (lockHistory P)"
    by (cases "lockHistory P prev") (simp_all add: history_of_def edges_def)
  moreover have "(cur, prev) \<notin> (edges (lockHistory P))\<^sup>+"
    using ok calculation by (auto simp: prof_ok_def acyclic_def dest: trancl_into_trancl)
  ultimately show ?thesis
    using True ne by (auto simp: record_order_def edges_touch)
next
  case False
  let ?P = "P\<lparr>lockHistory := (lockHistory P)(prev \<mapsto> insort cur (history_of P prev))\<rparr>"
  have E: "edges (lockHistory ?P) = insert (prev, cur) (edges (lockHistory P))"
    by (simp add: edges_insort)
  have hok: "history_ok (length (nameToId ?P)) (lockHistory ?P)"
    using ok ids ne unfolding history_ok_def E by (auto simp: prof_ok_def history_ok_def)
  have cyc: "acyclic (edges (lockHistory ?P)) \<longleftrightarrow> (cur, prev) \<notin> (edges (lockHistory P))\<^sup>+"
    using ok ne unfolding E by (auto simp: prof_ok_def acyclic_insert rtrancl_eq_or_trancl)
  have rec: "record_order prev cur P = CheckCycle ?P"
    using False ne by (simp add: record_order_def)
  show ?thesis
  proof (cases "CheckCycle ?P")
    case (Inl e)
    then obtain es where "e = Deadlock es" "is_cycle (edges (lockHistory ?P)) es"
      using CheckCycle_Inl [OF hok] by blast
    then show ?thesis
      using Inl rec cyc is_cycle_cyclic [of "edges (lockHistory ?P)" es] unfolding E by auto
  next
    case (Inr P')
    then obtain st where "acyclic (edges (lockHistory ?P))" "P' = ?P\<lparr>search := st\<rparr>"
      using CheckCycle_Inr [OF hok] by blast
    then show ?thesis
      using Inr rec cyc E by auto
  qed
qed

lemma record_order_ok:
  assumes ok: "prof_ok P" and ids: "prev < length (nameToId P)" "cur < length (nameToId P)"
    and r: "record_order prev cur P = Inr P'"
  shows "prof_ok P' \<and> grows P P' \<and> (cur \<noteq> prev \<longrightarrow> (prev, cur) \<in> edges (lockHistory P'))"
proof (cases "cur = prev")
  case True
  with ok r show ?thesis by (simp add: record_order_def grows_def)
next
  case False
  from record_order_cases [OF ok ids False] r
  have notp: "(cur, prev) \<notin> (edges (lockHistory P))\<^sup>+"
    and P': "nameToId P' = nameToId P" "edges (lockHistory P') = insert (prev, cur) (edges (lockHistory P))"
    by (auto split: if_splits)
  have "acyclic (edges (lockHistory P'))"
    using ok False notp unfolding P' by (auto simp: prof_ok_def acyclic_insert rtrancl_eq_or_trancl)
  with ok ids False show ?thesis
    unfolding prof_ok_def history_ok_def grows_def P' by auto
qed

lemma PushLock_ok:
  assumes ok: "prof_ok P" and s: "stack_ok P s" and r: "PushLock name P s = Inr (P', s')"
  shows "prof_ok P' \<and> grows P P' \<and> stack_ok P' s'"
proof -
  obtain P1 i where i: "lock_id_of name P = (P1, i)" by fastforce
  note P1 = lock_id_of_ok [OF ok i]
  have s1: "stack_ok P1 s"
    by (rule stack_ok_grows [OF s P1(2)])
  show ?thesis
  proof (cases s)
    case Nil
    with r i P1 show ?thesis by (auto simp: PushLock_def stack_ok_def)
  next
    case (Cons prev rest)
    with r i have rec: "record_order prev i P1 = Inr P'" and s': "s' = i # s"
      by (cases "record_order prev i P1"; simp add: PushLock_def)+
    have "prev < length (nameToId P1)"
      using s1 Cons by (simp add: stack_ok_def)
    from record_order_ok [OF P1(1) this P1(3) rec]
    have P': "prof_ok P'" "grows P1 P'" "i \<noteq> prev \<longrightarrow> (prev, i) \<in> edges (lockHistory P')" by auto
    with stack_ok_grows [OF s1 P'(2)] P1(3) Cons have "stack_ok P' s'"
      by (auto simp: stack_ok_def s' grows_def)
    with P' P1(2) show ?thesis
      by (auto simp: grows_def)
  qed
qed

text \<open>
  The profiler shared by all threads (its mutex makes every call atomic) and the lock stack of
  each thread.
\<close>

inductive prof_run :: "profiler \<Rightarrow> (nat \<Rightarrow> lock_id list) \<Rightarrow> bool" where
  start: "prof_run new_profiler (\<lambda>_. [])"
| push: "prof_run P S \<Longrightarrow> PushLock name P (S t) = Inr (P', s) \<Longrightarrow> prof_run P' (S(t := s))"
| pop: "prof_run P S \<Longrightarrow> PopLock name P (S t) = Inr (P', s) \<Longrightarrow> prof_run P' (S(t := s))"

lemma PopLock_ok:
  assumes "prof_ok P" and "stack_ok P s" and "PopLock name P s = Inr (P', s')"
  shows "prof_ok P' \<and> grows P P' \<and> stack_ok P' s'"
proof -
  obtain P1 i where i: "id_or_insert name P = (P1, i)" by fastforce
  obtain c where s: "s = c # s'" and "P' = P1"
    using assms(3) i by (auto simp: PopLock_def split: list.splits if_splits)
  with id_or_insert_ok [OF assms(1) i] have "prof_ok P'" "grows P P'" by simp_all
  moreover have "stack_ok P s'"
    using assms(2) s by (cases s') (auto simp: stack_ok_def)
  ultimately show ?thesis
    using stack_ok_grows by blast
qed

lemma prof_run_ok:
  "prof_run P S \<Longrightarrow> prof_ok P \<and> (\<forall>t. stack_ok P (S t))"
proof (induction rule: prof_run.induct)
  case start
  show ?case
    by (simp add: new_profiler_def prof_ok_def stack_ok_def history_ok_def edges_def acyclic_def)
next
  case (push P S name t P' s)
  then have "prof_ok P' \<and> grows P P' \<and> stack_ok P' s"
    using PushLock_ok [of P "S t" name P' s] by simp
  with push.IH show ?case
    by (auto intro: stack_ok_grows)
next
  case (pop P S name t P' s)
  then have "prof_ok P' \<and> grows P P' \<and> stack_ok P' s"
    using PopLock_ok [of P "S t" name P' s] by simp
  with pop.IH show ?case
    by (auto intro: stack_ok_grows)
qed

text \<open>Under the top of a stack: every other lock leads to it.\<close>

lemma stack_path:
  "stack_ok P (a # s) \<Longrightarrow> b \<in> set s \<Longrightarrow> b \<noteq> a \<Longrightarrow> (b, a) \<in> (edges (lockHistory P))\<^sup>+"
proof (induction s arbitrary: a)
  case (Cons c s)
  from Cons.prems(1) have s: "stack_ok P (c # s)" and e: "a = c \<or> (c, a) \<in> edges (lockHistory P)"
    by (auto simp: stack_ok_def)
  show ?case
  proof (cases "b = c")
    case True
    with e Cons.prems(3) show ?thesis by auto
  next
    case False
    with Cons.prems(2) have "(b, c) \<in> (edges (lockHistory P))\<^sup>+"
      using Cons.IH [OF s] by simp
    with e show ?thesis
      by (auto intro: trancl_into_trancl)
  qed
qed simp

text \<open>Thread \<open>t\<close> asks for a lock it does not hold yet and that thread \<open>u\<close> holds: the top of a
  stack is the lock being asked for, the rest are the locks held.\<close>

definition waits :: "(nat \<Rightarrow> lock_id list) \<Rightarrow> (nat \<times> nat) set" where
  "waits S = {(t, u). \<exists>l s. S t = l # s \<and> l \<notin> set s \<and> l \<in> set (tl (S u))}"

lemma waits_path:
  assumes run: "prof_run P S" and w: "(t, u) \<in> (waits S)\<^sup>+"
  shows "\<exists>x xs. S t = x # xs \<and> x \<notin> set xs \<and>
     (\<forall>y ys. S u = y # ys \<longrightarrow> y \<notin> set ys \<longrightarrow> (x, y) \<in> (edges (lockHistory P))\<^sup>+)"
  using w
proof (induction rule: trancl_induct)
  case (base u)
  then obtain l s where l: "S t = l # s" "l \<notin> set s" "l \<in> set (tl (S u))"
    by (auto simp: waits_def)
  have "(l, y) \<in> (edges (lockHistory P))\<^sup>+" if "S u = y # ys" "y \<notin> set ys" for y ys
    using that l(3) prof_run_ok [OF run] stack_path [of P y ys l] by (metis list.sel(3))
  with l show ?case by blast
next
  case (step u v)
  from step.IH obtain x xs where x: "S t = x # xs" "x \<notin> set xs"
      "\<And>y ys. S u = y # ys \<Longrightarrow> y \<notin> set ys \<Longrightarrow> (x, y) \<in> (edges (lockHistory P))\<^sup>+" by blast
  from step.hyps(2) obtain l s where l: "S u = l # s" "l \<notin> set s" "l \<in> set (tl (S v))"
    by (auto simp: waits_def)
  have "(l, z) \<in> (edges (lockHistory P))\<^sup>+" if "S v = z # zs" "z \<notin> set zs" for z zs
    using that l(3) prof_run_ok [OF run] stack_path [of P z zs l] by (metis list.sel(3))
  with x l show ?case
    by (metis trancl_trans)
qed


lemma PushLock_known:
  assumes "map_of (nameToId P) name = Some cur" and "s = prev # rest"
  shows "PushLock name P s = map_sum id (\<lambda>P'. (P', cur # s)) (record_order prev cur P)"
  using assms by (simp add: PushLock_def lock_id_of_def)


text \<open>Nested re-acquisition is reported as a deadlock although no other thread takes part:
  asking again for any lock the thread holds below its latest one always stops the process.\<close>

theorem reacquire_stops:
  assumes "prof_run P S" and "map_of (nameToId P) name = Some cur" and "S t = prev # rest"
    and "cur \<in> set rest" and "cur \<noteq> prev"
  shows "\<exists>es. PushLock name P (S t) = Inl (Deadlock es)"
proof -
  have ok: "prof_ok P" "stack_ok P (S t)"
    using prof_run_ok [OF assms(1)] by auto
  then have ids: "prev < length (nameToId P)" "cur < length (nameToId P)"
    using assms(3,4) by (auto simp: stack_ok_def)
  have "(cur, prev) \<in> (edges (lockHistory P))\<^sup>+"
    using stack_path [of P prev rest cur] ok(2) assms(3-5) by simp
  with record_order_cases [OF ok(1) ids assms(5)] PushLock_known [OF assms(2,3)] show ?thesis
    by auto
qed

section \<open>Releasing\<close>

lemma lock_id_of_known: "lock_id_of name P = (P1, i) \<Longrightarrow> map_of (nameToId P1) name = Some i"
  by (auto simp: lock_id_of_def Let_def map_add_def split: option.splits)

lemma record_order_names: "record_order prev cur P = Inr P' \<Longrightarrow> nameToId P' = nameToId P"
proof -
  have "nameToId P' = nameToId Q" if "CheckCycle Q = Inr P'" for Q
    using that by (cases "dfs_all (lockHistory Q) [0..<length (nameToId Q)] (new_search (length (nameToId Q)))")
      (auto simp: CheckCycle_def Let_def)
  then show "record_order prev cur P = Inr P' \<Longrightarrow> nameToId P' = nameToId P"
    by (fastforce simp: record_order_def split: if_splits)
qed

lemma PushLock_known_after:
  assumes "PushLock name P s = Inr (P', s')"
  shows "\<exists>i. s' = i # s \<and> map_of (nameToId P') name = Some i"
proof -
  obtain P1 i where i: "lock_id_of name P = (P1, i)" by fastforce
  show ?thesis
  proof (cases s)
    case Nil
    with assms i lock_id_of_known [OF i] show ?thesis
      by (auto simp: PushLock_def)
  next
    case (Cons prev rest)
    with assms i have "record_order prev i P1 = Inr P'" "s' = i # s"
      by (cases "record_order prev i P1"; simp add: PushLock_def)+
    with record_order_names lock_id_of_known [OF i] show ?thesis
      by metis
  qed
qed

text \<open>A release undoes the acquisition it belongs to: popping the name just pushed restores the
  thread's stack and leaves the profiler as it is.\<close>

theorem push_pop:
  assumes "PushLock name P s = Inr (P', s')"
  shows "PopLock name P' s' = Inr (P', s)"
  using PushLock_known_after [OF assms] by (auto simp: PopLock_def id_or_insert_def)

text \<open>When a release is accepted: the name's lock is the latest one the thread asked for, or
  the name was never seen and the latest lock is the very first one, with id 0. An empty stack and
  every other name stop the process.\<close>

theorem PopLock_accepts:
  "(case PopLock name P s of
      Inl e \<Rightarrow> e = ProfilerCrash (ForcedCrash (if s = [] then ''MULTIPLE_UNLOCK'' else ''INVALID_UNLOCK''))
    | Inr (P', s') \<Rightarrow> \<exists>c. s = c # s' \<and>
        (map_of (nameToId P) name = Some c \<and> P' = P \<or>
         map_of (nameToId P) name = None \<and> c = 0 \<and> map_of (nameToId P') name = Some 0))"
  by (auto simp: PopLock_def id_or_insert_def map_add_def split: list.splits option.splits)

section \<open>Runs\<close>

datatype prof_op = Push nat lock_name | Pop nat lock_name

fun prof_step :: "prof_op \<Rightarrow> profiler \<times> (nat \<Rightarrow> lock_id list) \<Rightarrow>
    dfs_stop + profiler \<times> (nat \<Rightarrow> lock_id list)" where
  "prof_step (Push t name) (P, S) = map_sum id (\<lambda>(P', s). (P', S(t := s))) (PushLock name P (S t))"
| "prof_step (Pop t name) (P, S) = map_sum id (\<lambda>(P', s). (P', S(t := s))) (PopLock name P (S t))"

fun prof_play :: "prof_op list \<Rightarrow> profiler \<times> (nat \<Rightarrow> lock_id list) \<Rightarrow>
    dfs_stop + profiler \<times> (nat \<Rightarrow> lock_id list)" where
  "prof_play [] X = Inr X"
| "prof_play (x # xs) X = (case prof_step x X of Inl e \<Rightarrow> Inl e | Inr X' \<Rightarrow> prof_play xs X')"

lemma prof_step_run:
  assumes "prof_run P S" and "prof_step x (P, S) = Inr (P', S')"
  shows "prof_run P' S'"
proof (cases x)
  case (Push t name)
  with assms show ?thesis
    by (cases "PushLock name P (S t)") (auto intro: prof_run.push)
next
  case (Pop t name)
  with assms show ?thesis
    by (cases "PopLock name P (S t)") (auto intro: prof_run.pop)
qed

lemma prof_play_run: "prof_run P S \<Longrightarrow> prof_play xs (P, S) = Inr (P', S') \<Longrightarrow> prof_run P' S'"
proof (induction xs arbitrary: P S)
  case (Cons x xs)
  show ?case
  proof (cases "prof_step x (P, S)")
    case (Inr X)
    obtain P1 S1 where "X = (P1, S1)" by fastforce
    with Inr Cons.prems have "prof_run P1 S1" "prof_play xs (P1, S1) = Inr (P', S')"
      using prof_step_run [of P S x P1 S1] by auto
    then show ?thesis by (rule Cons.IH)
  qed (use Cons.prems in simp)
qed simp

lemmas prof_play_start = prof_play_run [OF prof_run.start]

text \<open>Two locks in one order: thread 1 holds \<open>100\<close> and asks for \<open>200\<close>; thread 2 asks for \<open>100\<close>.\<close>

abbreviation two_locks :: "dfs_stop + profiler \<times> (nat \<Rightarrow> lock_id list)" where
  "two_locks \<equiv> prof_play [Push 1 100, Push 1 200, Push 2 100] (new_profiler, (\<lambda>_. []))"

lemma two_locks_state:
  "case two_locks of Inl e \<Rightarrow> False
   | Inr (P, S) \<Rightarrow> S 1 = [1, 0] \<and> S 2 = [0] \<and> map_of (nameToId P) 100 = Some 0 \<and> map_of (nameToId P) 200 = Some 1"
  by code_simp


text \<open>Then thread 3, holding \<open>200\<close>, asks for \<open>100\<close>.\<close>

abbreviation opposite_order :: "dfs_stop + profiler \<times> (nat \<Rightarrow> lock_id list)" where
  "opposite_order \<equiv> prof_play [Push 1 100, Push 1 200, Pop 1 200, Push 3 200] (new_profiler, (\<lambda>_. []))"

lemma opposite_order_state:
  "case opposite_order of Inl e \<Rightarrow> False
   | Inr (P, S) \<Rightarrow> S 3 = [1] \<and> map_of (nameToId P) 100 = Some 0 \<and> lockHistory P 0 = Some [1]"
  by code_simp


theorem reacquire_stops_witness:
  "case two_locks of Inl e \<Rightarrow> False
   | Inr (P, S) \<Rightarrow> \<exists>es. PushLock 100 P (S 1) = Inl (Deadlock es)"
proof -
  obtain P S where r: "two_locks = Inr (P, S)" and s: "S 1 = [1, 0]" "map_of (nameToId P) 100 = Some 0"
    using two_locks_state by (auto split: sum.splits)
  from reacquire_stops [OF prof_play_start [OF r] s(2) s(1)] r show ?thesis
    by simp
qed

theorem CheckCycle_decides_witness:
  "\<exists>es. CheckCycle (new_profiler\<lparr>nameToId := [(100, 0), (200, 1)], lockHistory := [0 \<mapsto> [1], 1 \<mapsto> [0]]\<rparr>)
     = Inl (Deadlock es) \<and> is_cycle {(0, 1), (1, 0)} es"
proof -
  let ?P = "new_profiler\<lparr>nameToId := [(100, 0), (200, 1)], lockHistory := [0 \<mapsto> [1], 1 \<mapsto> [0]]\<rparr>"
  have E: "edges (lockHistory ?P) = {(0, 1), (1, 0)}"
    by (auto simp: edges_def split: if_splits)
  have ok: "history_ok (length (nameToId ?P)) (lockHistory ?P)"
    unfolding history_ok_def E by simp
  have cyc: "\<not> acyclic {(0::nat, 1::nat), (1, 0)}"
    unfolding acyclic_def by (auto intro!: exI [where x = 0] intro: trancl_into_trancl2 r_into_trancl)
  show ?thesis
    using CheckCycle_decides [OF ok] unfolding E if_not_P [OF cyc] .
qed

theorem push_pop_witness:
  "case PushLock 100 new_profiler [] of Inl e \<Rightarrow> False | Inr (P, s) \<Rightarrow> PopLock 100 P s = Inr (P, [])"
proof -
  have "case PushLock 100 new_profiler [] of Inl e \<Rightarrow> False | Inr (P, s) \<Rightarrow> s = [0]"
    by code_simp
  then obtain P s where "PushLock 100 new_profiler [] = Inr (P, s)"
    by (auto split: sum.splits)
  with push_pop [OF this] show ?thesis by simp
qed

end
