(* ===== verification/Resource_Source.thy ===== *)
theory Resource_Source
  imports Core_Prelude
begin

text \<open>
  The contract the pools of the library share: something is taken, used by one owner and given
  back. A source hands nothing out twice as long as only what was taken is given back. The
  memory pools, the object pools, the memory manager and the send buffer manager provide it.
\<close>

text \<open>All runs of takers and givers against a source, with what is out in the end.\<close>

inductive source_run :: "('r \<Rightarrow> 's \<Rightarrow> ('a \<times> 's) outcome) \<Rightarrow> ('a \<Rightarrow> 's \<Rightarrow> 's outcome) \<Rightarrow>
    's \<Rightarrow> 's \<Rightarrow> 'a list \<Rightarrow> bool"
  for take_one give_back s0 where
  start: "source_run take_one give_back s0 s0 []"
| taken: "source_run take_one give_back s0 s out \<Longrightarrow> take_one r s = Inr (a, s') \<Longrightarrow>
     source_run take_one give_back s0 s' (a # out)"
| given: "source_run take_one give_back s0 s out \<Longrightarrow> a \<in> set out \<Longrightarrow> give_back a s = Inr s' \<Longrightarrow>
     source_run take_one give_back s0 s' (remove1 a out)"

inductive_cases source_run_consE: "source_run t g s0 s (a # out)"

text \<open>\<open>'r\<close> is what a taker asks for. The same run from a list of operations, so that runs can be computed.\<close>

datatype ('r, 'a) source_op = Take 'r | Give 'a

fun source_play :: "('r \<Rightarrow> 's \<Rightarrow> ('a \<times> 's) outcome) \<Rightarrow> ('a \<Rightarrow> 's \<Rightarrow> 's outcome) \<Rightarrow>
    ('r, 'a) source_op list \<Rightarrow>
    's \<times> 'a list \<Rightarrow> ('s \<times> 'a list) outcome" where
  "source_play t g [] X = Inr X"
| "source_play t g (Take r # ops) (s, out) =
     and_then (t r s) (\<lambda>(a, s'). source_play t g ops (s', a # out))"
| "source_play t g (Give a # ops) (s, out) =
     (if a \<in> set out then and_then (g a s) (\<lambda>s'. source_play t g ops (s', remove1 a out))
      else Inl (Undefined ''not taken''))"

lemma source_play_run:
  "source_run t g s0 s out \<Longrightarrow> source_play t g ops (s, out) = Inr (s', out') \<Longrightarrow> source_run t g s0 s' out'"
proof (induction ops arbitrary: s out)
  case (Cons x ops)
  show ?case
  proof (cases x)
    case (Take r)
    with Cons.prems(2) obtain a s1 where 1: "t r s = Inr (a, s1)" and 2: "source_play t g ops (s1, a # out) = Inr (s', out')"
      by (auto simp: and_then_Inr_iff)
    show ?thesis
      by (rule Cons.IH [OF source_run.taken [OF Cons.prems(1) 1] 2])
  next
    case (Give a)
    with Cons.prems(2) obtain s1 where "a \<in> set out" "g a s = Inr s1" and "source_play t g ops (s1, remove1 a out) = Inr (s', out')"
      by (auto simp: and_then_Inr_iff split: if_splits)
    with source_run.given [OF Cons.prems(1)] Cons.IH show ?thesis
      by blast
  qed
qed simp

locale resource_source =
  fixes take_one :: "'r \<Rightarrow> 's \<Rightarrow> ('a \<times> 's) outcome"
    and give_back :: "'a \<Rightarrow> 's \<Rightarrow> 's outcome"
    and inv :: "'s \<Rightarrow> 'a set \<Rightarrow> bool"
  assumes take_fresh: "inv s out \<Longrightarrow> take_one r s = Inr (a, s') \<Longrightarrow> a \<notin> out"
    and take_inv: "inv s out \<Longrightarrow> take_one r s = Inr (a, s') \<Longrightarrow> inv s' (insert a out)"
    and give_inv: "inv s out \<Longrightarrow> a \<in> out \<Longrightarrow> give_back a s = Inr s' \<Longrightarrow> inv s' (out - {a})"
begin

lemma run_inv:
  assumes "inv s0 {}" and "source_run take_one give_back s0 s out"
  shows "distinct out \<and> inv s (set out)"
  using assms(2)
proof (induction rule: source_run.induct)
  case start
  show ?case using assms(1) by simp
next
  case (taken s out r a s')
  with take_fresh take_inv show ?case by auto
next
  case (given s out a s')
  with give_inv [of s "set out" a s'] show ?case by simp
qed

end

end
