(* ===== verification/Memory_Pool.thy ===== *)
theory Memory_Pool
  imports Resource_Source
begin

text \<open>
  The memory below every allocation of the library: ServerCore/MemoryPool.h and MemoryPool.cpp
  (blocks with a \<open>MemoryHeader\<close>, kept in an interlocked singly linked list), ObjectPool.h (one
  pool per type) and the \<open>StompAllocator\<close> of Allocators.h and Allocators.cpp, with the variants of
  ServerCore_Module/MemoryPool.ixx and Allocator.cpp. The system allocator \<open>_aligned_malloc\<close>,
  \<open>VirtualAlloc\<close> and the size of \<open>MemoryHeader\<close> (its base class is the system's \<open>SLIST_ENTRY\<close>)
  are parameters. The list is a stack of header addresses; each of its operations is atomic.
\<close>

section \<open>The heap\<close>

type_synonym addr = nat

text \<open>\<open>allocSizeAt\<close> is the field \<open>allocSize\<close> of the \<open>MemoryHeader\<close> at an address, \<open>live\<close> the
  blocks of the system allocator with the sizes they were requested with.\<close>

record mem_heap =
  allocSizeAt :: "addr \<Rightarrow> u32"
  live :: "addr \<rightharpoonup> nat"

type_synonym malloc = "(addr \<rightharpoonup> nat) \<Rightarrow> nat \<Rightarrow> addr option"

definition SLIST_ALIGNMENT :: nat where "SLIST_ALIGNMENT = 16"

text \<open>The documented behaviour of \<open>_aligned_malloc\<close>: the block it returns is aligned, is not a
  live block and does not overlap one.\<close>

definition malloc_ok :: "malloc \<Rightarrow> bool" where
  "malloc_ok aligned_malloc \<longleftrightarrow> (\<forall>blocks n a. aligned_malloc blocks n = Some a \<longrightarrow>
     a mod SLIST_ALIGNMENT = 0 \<and> blocks a = None \<and>
     (\<forall>b m. blocks b = Some m \<longrightarrow> a + n \<le> b \<or> b + m \<le> a))"

lemma malloc_fresh: "malloc_ok mal \<Longrightarrow> mal blocks n = Some a \<Longrightarrow> blocks a = None"
  by (simp add: malloc_ok_def)

text \<open>A call of \<open>_aligned_malloc\<close>, null as \<open>None\<close>.\<close>

definition aligned_alloc :: "malloc \<Rightarrow> nat \<Rightarrow> mem_heap \<Rightarrow> addr option \<times> mem_heap" where
  "aligned_alloc mal n h =
     (case mal (live h) n of
        None \<Rightarrow> (None, h)
      | Some a \<Rightarrow> (Some a, h\<lparr>live := (live h)(a \<mapsto> n)\<rparr>))"

section \<open>Memory headers\<close>

definition AttachHeader :: "nat \<Rightarrow> addr option \<Rightarrow> u32 \<Rightarrow> mem_heap \<Rightarrow> (addr \<times> mem_heap) outcome" where
  "AttachHeader header_size header n h =
     (case header of
        None \<Rightarrow> Inl (Undefined ''MemoryHeader constructed at null'')
      | Some a \<Rightarrow> Inr (a + header_size, h\<lparr>allocSizeAt := (allocSizeAt h)(a := n)\<rparr>))"

definition DetachHeader :: "nat \<Rightarrow> addr \<Rightarrow> addr" where
  "DetachHeader header_size ptr = ptr - header_size"

lemma AttachHeader_Inr_iff:
  "AttachHeader k header n h = Inr (p, h') \<longleftrightarrow>
     (\<exists>a. header = Some a \<and> p = a + k \<and> h' = h\<lparr>allocSizeAt := (allocSizeAt h)(a := n)\<rparr>)"
  by (cases header) (auto simp: AttachHeader_def)

lemma Detach_Attach [simp]: "DetachHeader k (a + k) = a"
  by (simp add: DetachHeader_def)

section \<open>MemoryPool\<close>

text \<open>The counters are \<open>atomic<int32>\<close>; they are kept as their bits, so they wrap.\<close>

record mem_pool =
  slist :: "addr list"
  allocSize :: nat
  usedCount :: u32
  reservedCount :: u32

text \<open>The constructor of ServerCore never stores its argument; the module's does.\<close>

definition MemoryPool :: "nat \<Rightarrow> mem_pool" where
  "MemoryPool size_arg = \<lparr>slist = [], allocSize = 0, usedCount = 0, reservedCount = 0\<rparr>"

definition mod_MemoryPool :: "nat \<Rightarrow> mem_pool" where
  "mod_MemoryPool size_arg = \<lparr>slist = [], allocSize = size_arg, usedCount = 0, reservedCount = 0\<rparr>"

definition Push :: "addr \<Rightarrow> mem_pool \<times> mem_heap \<Rightarrow> mem_pool \<times> mem_heap" where
  "Push ptr = (\<lambda>(pool, h).
     (pool\<lparr>slist := ptr # slist pool, usedCount := usedCount pool - 1,
        reservedCount := reservedCount pool + 1\<rparr>,
      h\<lparr>allocSizeAt := (allocSizeAt h)(ptr := 0)\<rparr>))"

definition Pop :: "build \<Rightarrow> malloc \<Rightarrow> mem_pool \<times> mem_heap \<Rightarrow>
    (addr option \<times> mem_pool \<times> mem_heap) outcome" where
  "Pop b mal = (\<lambda>(pool, h).
     case slist pool of
       [] \<Rightarrow> let (memory, h') = aligned_alloc mal (allocSize pool) h in
         Inr (memory, pool\<lparr>usedCount := usedCount pool + 1\<rparr>, h')
     | memory # rest \<Rightarrow>
         and_then (assert_crash b (allocSizeAt h memory \<noteq> 0) ''allocSize is not 0'') (\<lambda>_.
           Inr (Some memory, pool\<lparr>slist := rest, reservedCount := reservedCount pool - 1,
             usedCount := usedCount pool + 1\<rparr>, h)))"

text \<open>The module's \<open>Pop\<close> differs in the condition it asserts.\<close>

definition mod_Pop :: "build \<Rightarrow> malloc \<Rightarrow> mem_pool \<times> mem_heap \<Rightarrow>
    (addr option \<times> mem_pool \<times> mem_heap) outcome" where
  "mod_Pop b mal = (\<lambda>(pool, h).
     case slist pool of
       [] \<Rightarrow> let (memory, h') = aligned_alloc mal (allocSize pool) h in
         Inr (memory, pool\<lparr>usedCount := usedCount pool + 1\<rparr>, h')
     | memory # rest \<Rightarrow>
         and_then (assert_crash b (allocSizeAt h memory = 0) ''allocSize must be larger than 0'') (\<lambda>_.
           Inr (Some memory, pool\<lparr>slist := rest, reservedCount := reservedCount pool - 1,
             usedCount := usedCount pool + 1\<rparr>, h)))"

text \<open>The destructor frees what is in the list.\<close>

definition MemoryPool_dtor :: "mem_pool \<times> mem_heap \<Rightarrow> mem_heap" where
  "MemoryPool_dtor = (\<lambda>(pool, h). h\<lparr>live := live h |` (- set (slist pool))\<rparr>)"

section \<open>What a pool maintains\<close>

text \<open>\<open>out\<close>: the headers handed out and not returned. They and the listed blocks are all
  different live blocks, listed ones carry size 0, and the counters count.\<close>

definition pool_inv :: "mem_pool \<times> mem_heap \<Rightarrow> addr set \<Rightarrow> bool" where
  "pool_inv s out \<longleftrightarrow>
     finite out \<and> distinct (slist (fst s)) \<and> set (slist (fst s)) \<inter> out = {} \<and>
     set (slist (fst s)) \<union> out \<subseteq> dom (live (snd s)) \<and>
     (\<forall>a \<in> set (slist (fst s)). allocSizeAt (snd s) a = 0) \<and>
     usedCount (fst s) = of_nat (card out) \<and>
     reservedCount (fst s) = of_nat (length (slist (fst s)))"

lemma Push_inv:
  assumes inv: "pool_inv s out" and a: "a \<in> out"
  shows "pool_inv (Push a s) (out - {a})"
proof -
  obtain pool h where s: "s = (pool, h)" by fastforce
  have "finite out"
    using inv by (simp add: pool_inv_def)
  then have c: "card out = Suc (card (out - {a}))"
    using a by (rule card.remove)
  have "usedCount pool - 1 = of_nat (card (out - {a}))"
    using inv unfolding pool_inv_def c by (simp add: s)
  with inv a show ?thesis
    by (auto simp: pool_inv_def Push_def s)
qed

lemma Pop_new:
  assumes "malloc_ok mal" and "pool_inv s out" and "slist (fst s) = []"
    and "Pop b mal s = Inr (Some a, s')"
  shows "a \<notin> out \<and> pool_inv s' (insert a out) \<and> live (snd s') a = Some (allocSize (fst s))"
proof -
  have m: "mal (live (snd s)) (allocSize (fst s)) = Some a"
    using assms(3,4) by (auto simp: Pop_def aligned_alloc_def split: prod.splits option.splits)
  have s': "s' = (fst s\<lparr>usedCount := usedCount (fst s) + 1\<rparr>,
      snd s\<lparr>live := (live (snd s))(a \<mapsto> allocSize (fst s))\<rparr>)"
    using assms(3,4) m by (auto simp: Pop_def aligned_alloc_def split: prod.splits)
  have a: "a \<notin> out"
    using malloc_fresh [OF assms(1) m] assms(2) by (auto simp: pool_inv_def)
  then have "card (insert a out) = Suc (card out)"
    using assms(2) by (simp add: pool_inv_def)
  with a show ?thesis
    using assms(2,3) unfolding s' pool_inv_def by auto
qed

lemma Pop_reuse:
  assumes "pool_inv s out" and "slist (fst s) = a # rest"
  shows "\<exists>s'. Pop b mal s = Inr (Some a, s') \<and> a \<notin> out \<and> pool_inv s' (insert a out) \<and>
     slist (fst s') = rest \<and> snd s' = snd s"
  using assms by (auto simp: pool_inv_def Pop_def split: prod.splits)

lemma Pop_inv:
  assumes "malloc_ok mal" and "pool_inv s out" and "Pop b mal s = Inr (Some a, s')"
  shows "a \<notin> out \<and> pool_inv s' (insert a out)"
proof (cases "slist (fst s)")
  case Nil
  then show ?thesis using Pop_new [OF assms(1,2) Nil assms(3)] by blast
next
  case (Cons c rest)
  then show ?thesis using Pop_reuse [OF assms(2) Cons, of b mal] assms(3) by auto
qed

section \<open>ObjectPool\<close>

text \<open>One pool per type. \<open>sizeof_type\<close> is \<open>sizeof(Type)\<close>; \<open>s_allocSize\<close> adds the header. The
  constructor and the destructor of the object run on memory the pool has given out; they do not
  touch its header.\<close>

definition s_allocSize :: "nat \<Rightarrow> nat \<Rightarrow> u32" where
  "s_allocSize header_size sizeof_type = word_of_nat (sizeof_type + header_size)"

definition s_memoryPool :: "nat \<Rightarrow> nat \<Rightarrow> mem_pool" where
  "s_memoryPool header_size sizeof_type = MemoryPool (unat (s_allocSize header_size sizeof_type))"

definition ObjectPool_Pop :: "build \<Rightarrow> malloc \<Rightarrow> nat \<Rightarrow> nat \<Rightarrow> mem_pool \<times> mem_heap \<Rightarrow>
    (addr \<times> mem_pool \<times> mem_heap) outcome" where
  "ObjectPool_Pop b mal header_size sizeof_type s =
     and_then (Pop b mal s) (\<lambda>(memory, pool, h).
       and_then (AttachHeader header_size memory (s_allocSize header_size sizeof_type) h) (\<lambda>(obj, h').
         Inr (obj, pool, h')))"

definition ObjectPool_Push :: "nat \<Rightarrow> addr \<Rightarrow> mem_pool \<times> mem_heap \<Rightarrow> (mem_pool \<times> mem_heap) outcome" where
  "ObjectPool_Push header_size obj s = Inr (Push (DetachHeader header_size obj) s)"

text \<open>Objects lie one header behind their block.\<close>

definition object_pool_inv :: "malloc \<Rightarrow> nat \<Rightarrow> mem_pool \<times> mem_heap \<Rightarrow> addr set \<Rightarrow> bool" where
  "object_pool_inv mal header_size s objs \<longleftrightarrow> malloc_ok mal \<and>
     (\<exists>out. objs = (\<lambda>a. a + header_size) ` out \<and> pool_inv s out)"

lemma pool_inv_write_header:
  "pool_inv (pool, h) out \<Longrightarrow> a \<in> out \<Longrightarrow> pool_inv (pool, h\<lparr>allocSizeAt := (allocSizeAt h)(a := n)\<rparr>) out"
  by (auto simp: pool_inv_def)

lemma ObjectPool_Pop_inv:
  assumes "object_pool_inv mal k s objs" and "ObjectPool_Pop b mal k n s = Inr (obj, s')"
  shows "obj \<notin> objs \<and> object_pool_inv mal k s' (insert obj objs)"
proof -
  from assms(1) obtain out where out: "objs = (\<lambda>a. a + k) ` out" "pool_inv s out" and mal: "malloc_ok mal"
    by (auto simp: object_pool_inv_def)
  from assms(2) obtain a pool h where p: "Pop b mal s = Inr (Some a, pool, h)"
    and r: "obj = a + k" "s' = (pool, h\<lparr>allocSizeAt := (allocSizeAt h)(a := s_allocSize k n)\<rparr>)"
    by (auto simp: ObjectPool_Pop_def and_then_Inr_iff AttachHeader_Inr_iff)
  have fresh: "a \<notin> out" and "pool_inv (pool, h) (insert a out)"
    using Pop_inv [OF mal out(2) p] by auto
  then have "pool_inv s' (insert a out)"
    unfolding r(2) by (intro pool_inv_write_header) simp_all
  moreover have "insert obj objs = (\<lambda>a. a + k) ` insert a out"
    by (simp add: out(1) r(1))
  ultimately have "object_pool_inv mal k s' (insert obj objs)"
    using mal unfolding object_pool_inv_def by blast
  then show ?thesis
    using fresh by (auto simp: out(1) r(1))
qed

lemma ObjectPool_Push_inv:
  assumes "object_pool_inv mal k s objs" and "obj \<in> objs" and "ObjectPool_Push k obj s = Inr s'"
  shows "object_pool_inv mal k s' (objs - {obj})"
proof -
  from assms(1) obtain out where out: "objs = (\<lambda>a. a + k) ` out" "pool_inv s out" and mal: "malloc_ok mal"
    by (auto simp: object_pool_inv_def)
  from assms(2) out(1) obtain a where a: "obj = a + k" "a \<in> out" by auto
  have "pool_inv s' (out - {a})"
    using Push_inv [OF out(2) a(2)] assms(3) by (simp add: ObjectPool_Push_def a(1))
  moreover have "objs - {obj} = (\<lambda>a. a + k) ` (out - {a})"
    by (auto simp: out(1) a(1))
  ultimately show ?thesis
    using mal unfolding object_pool_inv_def by blast
qed

interpretation object_pool: resource_source "\<lambda>_ :: unit. ObjectPool_Pop b mal k n" "ObjectPool_Push k" "object_pool_inv mal k"
  for b mal k n
  by unfold_locales (use ObjectPool_Pop_inv ObjectPool_Push_inv in blast)+

lemma object_pool_inv_start:
  "malloc_ok mal \<Longrightarrow> object_pool_inv mal k (s_memoryPool k n, h) {}"
  by (auto simp: object_pool_inv_def pool_inv_def s_memoryPool_def MemoryPool_def)

text \<open>An allocator to run the model with: the first of the given addresses that lies above all
  live blocks.\<close>

definition high_malloc :: "addr list \<Rightarrow> malloc" where
  "high_malloc slots blocks n =
     find (\<lambda>a. a mod SLIST_ALIGNMENT = 0 \<and> (\<forall>b m. blocks b = Some m \<longrightarrow> b < a \<and> b + m \<le> a)) slots"

lemma high_malloc_ok: "malloc_ok (high_malloc slots)"
proof -
  have "a mod SLIST_ALIGNMENT = 0 \<and> (\<forall>b m. blocks b = Some m \<longrightarrow> b < a \<and> b + m \<le> a)"
    if "high_malloc slots blocks n = Some a" for blocks n a
    using that unfolding high_malloc_def by (auto simp: find_Some_iff)
  moreover from this have "blocks a = None" if "high_malloc slots blocks n = Some a" for blocks n a
    using that by (cases "blocks a") blast+
  ultimately show ?thesis
    unfolding malloc_ok_def by blast
qed

definition empty_heap :: mem_heap where
  "empty_heap = \<lparr>allocSizeAt = (\<lambda>_. 0), live = Map.empty\<rparr>"


text \<open>What is given back is reused first, last in first out, and the block comes back at the
  same address with the counters restored.\<close>

theorem ObjectPool_reuses:
  assumes "ObjectPool_Push k obj s = Inr s'" and "k \<le> obj"
  shows "\<exists>h. ObjectPool_Pop b aligned_malloc k n s' = Inr (obj, fst s, h)"
  using assms
  by (cases s) (auto simp: ObjectPool_Push_def Push_def ObjectPool_Pop_def Pop_def AttachHeader_def DetachHeader_def)

text \<open>Every block a ServerCore pool gets from the system was requested with size 0: the
  constructor drops its argument. It is too small for the header and the object, whatever the
  type.\<close>

theorem pool_blocks_have_size_0:
  assumes "malloc_ok aligned_malloc" and "aligned_malloc (live h) 0 = Some a"
  shows "\<exists>s'. ObjectPool_Pop b aligned_malloc k n (s_memoryPool k n, h) = Inr (a + k, s') \<and>
     live (snd s') a = Some 0"
  using assms(2)
  by (simp add: ObjectPool_Pop_def Pop_def s_memoryPool_def MemoryPool_def aligned_alloc_def AttachHeader_def)

text \<open>The module's pool asks for the full size, but its debug build stops at the first reuse:
  \<open>Push\<close> writes the size 0 that \<open>Pop\<close> asserts against.\<close>

theorem mod_pool_reuse_stops:
  "mod_Pop DebugBuild aligned_malloc (Push a s) = Inl (AssertCrash ''allocSize must be larger than 0'')"
  by (cases s) (simp add: mod_Pop_def Push_def)

lemma two_objects:
  "\<exists>s s'. source_play (\<lambda>_ :: unit. ObjectPool_Pop DebugBuild (high_malloc [4096, 8192]) 32 8) (ObjectPool_Push 32)
     [Take (), Take (), Give 4128] ((s_memoryPool 32 8, empty_heap), []) = Inr (s, [8224]) \<and>
   ObjectPool_Pop DebugBuild (high_malloc [4096, 8192]) 32 8 s = Inr (4128, s')"
  by (simp add: ObjectPool_Pop_def ObjectPool_Push_def Pop_def Push_def aligned_alloc_def high_malloc_def
      s_memoryPool_def MemoryPool_def empty_heap_def AttachHeader_def DetachHeader_def SLIST_ALIGNMENT_def)


theorem ObjectPool_reuses_witness:
  "\<exists>s' h. ObjectPool_Push 32 4128 (s_memoryPool 32 8, empty_heap) = Inr s' \<and>
     ObjectPool_Pop DebugBuild (high_malloc []) 32 8 s' = Inr (4128, s_memoryPool 32 8, h)"
proof -
  obtain s' where s': "ObjectPool_Push 32 4128 (s_memoryPool 32 8, empty_heap) = Inr s'"
    by (simp add: ObjectPool_Push_def)
  from ObjectPool_reuses [OF this, of DebugBuild "high_malloc []" 8] s' show ?thesis
    by auto
qed

theorem pool_blocks_have_size_0_witness:
  "\<exists>s'. ObjectPool_Pop ReleaseBuild (high_malloc [4096]) 32 8 (s_memoryPool 32 8, empty_heap) =
     Inr (4128, s') \<and> live (snd s') 4096 = Some 0"
proof -
  have "high_malloc [4096] (live empty_heap) 0 = Some 4096"
    by (simp add: high_malloc_def empty_heap_def SLIST_ALIGNMENT_def)
  from pool_blocks_have_size_0 [OF high_malloc_ok this, of ReleaseBuild 32 8] show ?thesis
    by simp
qed

section \<open>StompAllocator\<close>

text \<open>Addresses as integers; \<open>VirtualAlloc\<close> is a parameter that gives the base address of a fresh
  range. \<open>int32\<close> arithmetic that overflows has no defined behaviour.\<close>

definition PAGE_SIZE :: int where "PAGE_SIZE = 4096"

definition StompAllocator_AllocateMemory :: "build \<Rightarrow> (int \<Rightarrow> int) \<Rightarrow> int \<Rightarrow> int outcome" where
  "StompAllocator_AllocateMemory b VirtualAlloc n =
     and_then (assert_crash b (n = 0 \<or> n > PAGE_SIZE) ''_size is zero OR exceeded PAGE_SIZE'') (\<lambda>_.
       if 2147483647 < n + PAGE_SIZE - 1 then Inl (Undefined ''signed overflow'')
       else let pageCount = (n + PAGE_SIZE - 1) div PAGE_SIZE;
                offset = pageCount * PAGE_SIZE - n;
                baseAddress = VirtualAlloc (pageCount * PAGE_SIZE)
            in Inr (baseAddress + offset))"

text \<open>The address \<open>ReleaseMemory\<close> passes to \<open>VirtualFree\<close>.\<close>

definition StompAllocator_ReleaseMemory :: "int \<Rightarrow> int" where
  "StompAllocator_ReleaseMemory address = address - address mod PAGE_SIZE"

definition mod_StompAllocator_AllocateMemory :: "build \<Rightarrow> (int \<Rightarrow> int) \<Rightarrow> int \<Rightarrow> int outcome" where
  "mod_StompAllocator_AllocateMemory b VirtualAlloc n =
     and_then (assert_crash b (n = 0) ''size must be larger than 0'') (\<lambda>_.
       let pageCount = to_uint32 (n + PAGE_SIZE - 1) div PAGE_SIZE;
           offset = pageCount * PAGE_SIZE - n;
           baseAddress = VirtualAlloc (pageCount * PAGE_SIZE)
       in Inr (baseAddress + offset))"

lemma stomp_pages:
  fixes n :: int
  assumes "0 < n"
  shows "0 \<le> (n + 4095) div 4096 * 4096 - n" and "(n + 4095) div 4096 * 4096 - n < 4096"
  using assms by linarith+

text \<open>A stomp allocation ends exactly where its pages end, so that the first byte behind it
  is outside the reserved range, and releasing it frees exactly the range that was reserved. This
  holds for every positive size, also above one page, contrary to the comment in the code.\<close>

theorem stomp_end_and_base:
  assumes "StompAllocator_AllocateMemory b VirtualAlloc n = Inr p" and "0 < n"
    and "VirtualAlloc ((n + PAGE_SIZE - 1) div PAGE_SIZE * PAGE_SIZE) mod PAGE_SIZE = 0"
  shows "p + n = VirtualAlloc ((n + PAGE_SIZE - 1) div PAGE_SIZE * PAGE_SIZE) +
       (n + PAGE_SIZE - 1) div PAGE_SIZE * PAGE_SIZE \<and>
     StompAllocator_ReleaseMemory p = VirtualAlloc ((n + PAGE_SIZE - 1) div PAGE_SIZE * PAGE_SIZE)"
proof -
  define len where "len = (n + PAGE_SIZE - 1) div PAGE_SIZE * PAGE_SIZE"
  have r: "0 \<le> len - n" "len - n < PAGE_SIZE"
    using stomp_pages [OF assms(2)] by (simp_all add: len_def PAGE_SIZE_def)
  have p: "p = VirtualAlloc len + (len - n)"
    using assms(1) by (auto simp: StompAllocator_AllocateMemory_def and_then_Inr_iff len_def
        Let_def split: if_splits)
  have "p mod PAGE_SIZE = (VirtualAlloc len mod PAGE_SIZE + (len - n)) mod PAGE_SIZE"
    unfolding p by (simp only: mod_add_left_eq)
  also have "\<dots> = len - n"
    using assms(3) r by (simp add: len_def [symmetric])
  finally show ?thesis
    unfolding len_def [symmetric] StompAllocator_ReleaseMemory_def p by simp
qed

theorem stomp_end_and_base_witness:
  "StompAllocator_AllocateMemory ReleaseBuild (\<lambda>_. 8192) 5000 = Inr 11384 \<and>
   11384 + 5000 = (8192::int) + 8192 \<and> StompAllocator_ReleaseMemory 11384 = 8192"
proof -
  have a: "StompAllocator_AllocateMemory ReleaseBuild (\<lambda>_. 8192) 5000 = Inr 11384"
    by code_simp
  with stomp_end_and_base [OF a] show ?thesis
    by (simp add: PAGE_SIZE_def)
qed

end
