(* ===== verification/Memory_Manager.thy ===== *)
theory Memory_Manager
  imports Memory_Pool
begin

text \<open>
  ServerCore/MemoryManager.h and MemoryManager.cpp: the table of memory pools by size, allocation
  and release through it, and the clients in Allocators.h that call it; with the variants of
  ServerCore_Module/MemoryManager.ixx and Allocator.ixx. \<open>_STOMP_ALLOCATOR\<close> is defined by no
  project, so the calls take their other branch.
\<close>

section \<open>The table of pools\<close>

definition MAX_ALLOC_SIZE :: nat where "MAX_ALLOC_SIZE = 4096"

text \<open>Pools are named by their position in \<open>pools\<close>; \<open>poolTable\<close> lists the entries written so
  far, so that the loops' \<open>tableIndex\<close> is its length and the entries behind it are uninitialised.\<close>

record memory_manager =
  pools :: "mem_pool list"
  poolTable :: "nat list"

text \<open>One pass of a constructor loop: a new pool for \<open>size\<close>, and every entry up to \<open>size\<close>.\<close>

definition add_class :: "(nat \<Rightarrow> mem_pool) \<Rightarrow> nat \<Rightarrow> memory_manager \<Rightarrow> memory_manager" where
  "add_class new_pool sz mm =
     \<lparr>pools = pools mm @ [new_pool sz],
      poolTable = poolTable mm @ replicate (sz + 1 - length (poolTable mm)) (length (pools mm))\<rparr>"

text \<open>\<open>for (; size <= limit; size += step)\<close>, with the value \<open>size\<close> has afterwards.\<close>

function class_loop :: "(nat \<Rightarrow> mem_pool) \<Rightarrow> nat \<Rightarrow> nat \<Rightarrow> nat \<Rightarrow> memory_manager \<Rightarrow> nat \<times> memory_manager" where
  "class_loop new_pool limit step sz mm =
     (if sz \<le> limit \<and> 0 < step then class_loop new_pool limit step (sz + step) (add_class new_pool sz mm)
      else (sz, mm))"
  by pat_completeness auto

termination
  by (relation "measure (\<lambda>(_, limit, step, sz, _). limit + 1 - sz)") auto

declare class_loop.simps [simp del]

definition build_table :: "(nat \<Rightarrow> mem_pool) \<Rightarrow> memory_manager" where
  "build_table new_pool =
     (let (sz, mm) = class_loop new_pool 1024 32 32 \<lparr>pools = [], poolTable = []\<rparr>;
          (sz, mm) = class_loop new_pool 2048 128 sz mm;
          (sz, mm) = class_loop new_pool MAX_ALLOC_SIZE 256 sz mm
      in mm)"

definition MemoryManager :: memory_manager where
  "MemoryManager = build_table MemoryPool"

definition mod_MemoryManager :: memory_manager where
  "mod_MemoryManager = build_table mod_MemoryPool"

text \<open>The sizes the pools are made for, in the order of the pools.\<close>

fun class_sizes :: "nat \<Rightarrow> nat \<Rightarrow> nat \<Rightarrow> nat list" where
  "class_sizes first step 0 = []"
| "class_sizes first step (Suc n) = first # class_sizes (first + step) step n"

definition size_classes :: "nat list" where
  "size_classes = class_sizes 32 32 32 @ class_sizes 1056 128 8 @ class_sizes 2080 256 8"

text \<open>Every entry names the first pool whose size is enough.\<close>

definition table_inv :: "(nat \<Rightarrow> mem_pool) \<Rightarrow> nat list \<Rightarrow> memory_manager \<Rightarrow> bool" where
  "table_inv new_pool cs mm \<longleftrightarrow> pools mm = map new_pool cs \<and>
     length (poolTable mm) = (if cs = [] then 0 else last cs + 1) \<and>
     (\<forall>c \<in> set cs. c < length (poolTable mm)) \<and>
     (\<forall>i < length (poolTable mm). poolTable mm ! i < length cs \<and> i \<le> cs ! (poolTable mm ! i) \<and>
        (\<forall>k < poolTable mm ! i. cs ! k < i))"

lemma add_class_inv:
  assumes inv: "table_inv f cs mm" and new: "\<forall>c \<in> set cs. c < sz"
  shows "table_inv f (cs @ [sz]) (add_class f sz mm)"
proof -
  let ?t = "poolTable mm"
  let ?u = "poolTable (add_class f sz mm)"
  have len: "length ?t \<le> sz"
    using inv new by (auto simp: table_inv_def dest: last_in_set intro: Suc_leI)
  have p: "length (pools mm) = length cs"
    using inv by (simp add: table_inv_def)
  have u: "length ?u = sz + 1" "\<And>i. i < length ?t \<Longrightarrow> ?u ! i = ?t ! i"
      "\<And>i. length ?t \<le> i \<Longrightarrow> i < sz + 1 \<Longrightarrow> ?u ! i = length cs"
    using len by (auto simp: add_class_def nth_append p)
  have "?u ! i < length (cs @ [sz]) \<and> i \<le> (cs @ [sz]) ! (?u ! i) \<and> (\<forall>k < ?u ! i. (cs @ [sz]) ! k < i)"
    if i: "i < length ?u" for i
  proof (cases "i < length ?t")
    case True
    then have "?t ! i < length cs \<and> i \<le> cs ! (?t ! i) \<and> (\<forall>k < ?t ! i. cs ! k < i)"
      using inv by (simp add: table_inv_def)
    with u(2) [OF True] show ?thesis
      by (auto simp: nth_append)
  next
    case False
    have "cs ! k < i" if "k < length cs" for k
    proof -
      have "cs ! k < length ?t"
        using inv nth_mem [OF that] unfolding table_inv_def by blast
      with False show ?thesis by simp
    qed
    with u(3) [of i] False i u(1) show ?thesis
      by (simp add: nth_append)
  qed
  moreover have "pools (add_class f sz mm) = map f (cs @ [sz])"
    using inv by (simp add: add_class_def table_inv_def)
  ultimately show ?thesis
    using u(1) new unfolding table_inv_def by (auto simp: less_Suc_eq)
qed

lemma class_sizes_add: "class_sizes first step (n + m) = class_sizes first step n @ class_sizes (first + n * step) step m"
  by (induction n arbitrary: first) (auto simp: algebra_simps)

lemma class_loop_fold:
  "0 < step \<Longrightarrow> limit < first + n * step \<Longrightarrow> first + n * step \<le> limit + step \<Longrightarrow>
   class_loop f limit step first mm = (first + n * step, fold (add_class f) (class_sizes first step n) mm)"
proof (induction n arbitrary: first mm)
  case 0
  then show ?case by (simp add: class_loop.simps)
next
  case (Suc n)
  then have "first \<le> limit" by simp
  with Suc.prems(1) have "class_loop f limit step first mm =
      class_loop f limit step (first + step) (add_class f first mm)"
    by (subst class_loop.simps) simp
  also have "\<dots> = (first + step + n * step, fold (add_class f) (class_sizes (first + step) step n) (add_class f first mm))"
    using Suc.prems by (intro Suc.IH) (simp_all add: algebra_simps)
  finally show ?case by simp
qed

lemma class_loop_to:
  "0 < step \<Longrightarrow> e = first + n * step \<Longrightarrow> limit < e \<Longrightarrow> e \<le> limit + step \<Longrightarrow>
   class_loop f limit step first mm = (e, fold (add_class f) (class_sizes first step n) mm)"
  using class_loop_fold by metis

lemma build_table_fold: "build_table f = fold (add_class f) size_classes \<lparr>pools = [], poolTable = []\<rparr>"
proof -
  have 1: "class_loop f 1024 32 32 mm = (1056, fold (add_class f) (class_sizes 32 32 32) mm)" for mm
    by (rule class_loop_to) auto
  have 2: "class_loop f 2048 128 1056 mm = (2080, fold (add_class f) (class_sizes 1056 128 8) mm)" for mm
    by (rule class_loop_to) auto
  have 3: "class_loop f 4096 256 2080 mm = (4128, fold (add_class f) (class_sizes 2080 256 8) mm)" for mm
    by (rule class_loop_to) auto
  show ?thesis
    by (simp only: build_table_def size_classes_def MAX_ALLOC_SIZE_def Let_def 1 2 3 prod.case fold_append o_apply)
qed

lemma fold_add_class_inv:
  "table_inv f cs mm \<Longrightarrow> sorted_wrt (<) (cs @ ds) \<Longrightarrow> table_inv f (cs @ ds) (fold (add_class f) ds mm)"
proof (induction ds arbitrary: cs mm)
  case (Cons d ds)
  have "table_inv f (cs @ [d]) (add_class f d mm)"
    using Cons.prems by (intro add_class_inv) (auto simp: sorted_wrt_append)
  from Cons.IH [OF this] Cons.prems(2) show ?case
    by simp
qed simp

lemma class_sizes_bounds:
  "x \<in> set (class_sizes first step n) \<Longrightarrow> first \<le> x \<and> x < first + n * step \<or> step = 0"
  by (induction first step n rule: class_sizes.induct) auto

lemma class_sizes_sorted: "0 < step \<Longrightarrow> sorted_wrt (<) (class_sizes first step n)"
  by (induction first step n rule: class_sizes.induct) (auto dest: class_sizes_bounds)

lemma length_class_sizes [simp]: "length (class_sizes first step n) = n"
  by (induction first step n rule: class_sizes.induct) auto

lemma last_class_sizes: "0 < n \<Longrightarrow> last (class_sizes first step n) = first + (n - 1) * step"
proof (induction first step n rule: class_sizes.induct)
  case (2 first step n)
  then show ?case
    by (cases n) (auto simp: algebra_simps)
qed simp

lemma class_sizes_ne [simp]: "0 < n \<Longrightarrow> class_sizes first step n \<noteq> []"
  by (cases n) auto

lemma size_classes_sorted: "sorted_wrt (<) size_classes"
  unfolding size_classes_def sorted_wrt_append
  by (auto simp: class_sizes_sorted simp del: class_sizes.simps dest!: class_sizes_bounds)

lemma size_classes_shape: "length size_classes = 48 \<and> last size_classes = 3872 \<and> size_classes \<noteq> []"
  by (simp add: size_classes_def last_append last_class_sizes del: class_sizes.simps)

lemma build_table_inv: "table_inv f size_classes (build_table f)"
proof -
  have "table_inv f [] \<lparr>pools = [], poolTable = []\<rparr>"
    by (simp add: table_inv_def)
  from fold_add_class_inv [OF this] show ?thesis
    using size_classes_sorted by (simp add: build_table_fold)
qed

lemma length_poolTable: "length (poolTable (build_table f)) = 3873"
  using build_table_inv [of f] size_classes_shape by (simp add: table_inv_def)

text \<open>The constructor makes 48 pools and fills the table up to size 3872: every entry names
  the pool with the smallest size that is enough. The entries for 3873 to 4096 are never written
  although sizes up to 4096 are looked up in the table.\<close>

theorem poolTable_minimal:
  "length (pools MemoryManager) = 48 \<and> length (poolTable MemoryManager) = 3873 \<and>
   (i < 3873 \<longrightarrow> (let k = poolTable MemoryManager ! i in
      k < 48 \<and> i \<le> size_classes ! k \<and> (\<forall>j < k. size_classes ! j < i)))"
  using build_table_inv [of MemoryPool] size_classes_shape length_poolTable [of MemoryPool]
  by (simp add: table_inv_def MemoryManager_def Let_def)

theorem poolTable_minimal_witness: "poolTable MemoryManager ! 33 = 1"
proof -
  let ?k = "poolTable MemoryManager ! 33"
  have e: "size_classes ! 0 = 32" "size_classes ! 1 = 64"
    by (simp_all add: size_classes_def numeral_eq_Suc nth_append)
  have p: "33 \<le> size_classes ! ?k" "\<And>j. j < ?k \<Longrightarrow> size_classes ! j < 33"
    using poolTable_minimal [of 33] by (simp_all add: Let_def)
  have "?k \<noteq> 0"
  proof
    assume "?k = 0"
    with p(1) have "33 \<le> size_classes ! 0" by simp
    with e(1) show False by simp
  qed
  moreover have "\<not> 1 < ?k" using p(2) [of 1] e(2) by auto
  ultimately show ?thesis by simp
qed

section \<open>Allocation and release\<close>

text \<open>\<open>_size + sizeof(MemoryHeader)\<close>, stored in a \<open>uint32\<close>.\<close>

definition alloc_size :: "nat \<Rightarrow> u32 \<Rightarrow> u32" where
  "alloc_size header_size n = n + word_of_nat header_size"

definition too_large :: "u32 \<Rightarrow> bool" where
  "too_large n \<longleftrightarrow> MAX_ALLOC_SIZE < unat n"

definition Allocate :: "build \<Rightarrow> malloc \<Rightarrow> nat \<Rightarrow> u32 \<Rightarrow> memory_manager \<times> mem_heap \<Rightarrow>
    (addr \<times> memory_manager \<times> mem_heap) outcome" where
  "Allocate b mal header_size n = (\<lambda>(mm, h).
     let allocSize = alloc_size header_size n in
     if too_large allocSize then
       (let (header, h') = aligned_alloc mal (unat allocSize) h in
        and_then (AttachHeader header_size header allocSize h') (\<lambda>(p, h''). Inr (p, mm, h'')))
     else if length (poolTable mm) \<le> unat allocSize
     then Inl (Undefined ''uninitialised entry of poolTable'')
     else let k = poolTable mm ! unat allocSize in
       and_then (Pop b mal (pools mm ! k, h)) (\<lambda>(header, pool, h').
         and_then (AttachHeader header_size header allocSize h') (\<lambda>(p, h'').
           Inr (p, mm\<lparr>pools := (pools mm)[k := pool]\<rparr>, h''))))"

definition Release :: "build \<Rightarrow> nat \<Rightarrow> addr \<Rightarrow> memory_manager \<times> mem_heap \<Rightarrow>
    (memory_manager \<times> mem_heap) outcome" where
  "Release b header_size ptr = (\<lambda>(mm, h).
     let header = DetachHeader header_size ptr; allocSize = allocSizeAt h header in
     and_then (assert_crash b (allocSize = 0) ''Unknown error - allocSize is zero'') (\<lambda>_.
       if too_large allocSize then Inr (mm, h\<lparr>live := (live h)(header := None)\<rparr>)
       else if length (poolTable mm) \<le> unat allocSize
       then Inl (Undefined ''uninitialised entry of poolTable'')
       else let k = poolTable mm ! unat allocSize; (pool, h') = Push header (pools mm ! k, h) in
         Inr (mm\<lparr>pools := (pools mm)[k := pool]\<rparr>, h')))"

definition MemoryManager_dtor :: "memory_manager \<times> mem_heap \<Rightarrow> memory_manager \<times> mem_heap" where
  "MemoryManager_dtor = (\<lambda>(mm, h).
     (mm\<lparr>pools := []\<rparr>, fold (\<lambda>pool h. MemoryPool_dtor (pool, h)) (pools mm) h))"

text \<open>The callers in Allocators.h, with \<open>G_MemoryManager\<close> as the state. The byte count of
  \<open>STL_Allocator\<close> is a \<open>size_t\<close> product converted to \<open>int32\<close> and then to \<open>uint32\<close>.\<close>

definition PoolAllocator_AllocateMemory where
  "PoolAllocator_AllocateMemory = Allocate"

definition PoolAllocator_ReleaseMemory where
  "PoolAllocator_ReleaseMemory = Release"

definition STL_allocate :: "build \<Rightarrow> malloc \<Rightarrow> nat \<Rightarrow> nat \<Rightarrow> u64 \<Rightarrow> memory_manager \<times> mem_heap \<Rightarrow>
    (addr \<times> memory_manager \<times> mem_heap) outcome" where
  "STL_allocate b mal header_size sizeof_type count =
     PoolAllocator_AllocateMemory b mal header_size (ucast (count * word_of_nat sizeof_type))"

definition STL_deallocate where
  "STL_deallocate b header_size ptr (count :: u64) = PoolAllocator_ReleaseMemory b header_size ptr"

definition XNew :: "build \<Rightarrow> malloc \<Rightarrow> nat \<Rightarrow> nat \<Rightarrow> memory_manager \<times> mem_heap \<Rightarrow>
    (addr \<times> memory_manager \<times> mem_heap) outcome" where
  "XNew b mal header_size sizeof_type =
     PoolAllocator_AllocateMemory b mal header_size (word_of_nat sizeof_type)"

definition XDelete where
  "XDelete b header_size obj = PoolAllocator_ReleaseMemory b header_size obj"

text \<open>\<open>BaseAllocator::AllocateMemory\<close> has its \<open>malloc\<close> commented out.\<close>

definition BaseAllocator_AllocateMemory :: "int \<Rightarrow> addr option" where
  "BaseAllocator_AllocateMemory n = None"

text \<open>The module's manager: the sizes are \<open>int32\<close>, so a negative one indexes before the table,
  and \<open>Release\<close> has an empty body.\<close>

definition mod_Allocate :: "build \<Rightarrow> malloc \<Rightarrow> nat \<Rightarrow> int \<Rightarrow> memory_manager \<times> mem_heap \<Rightarrow>
    (addr \<times> memory_manager \<times> mem_heap) outcome" where
  "mod_Allocate b mal header_size n = (\<lambda>(mm, h).
     let allocSize = to_int32 (n + int header_size) in
     if int MAX_ALLOC_SIZE < allocSize then
       (let (header, h') = aligned_alloc mal (nat allocSize) h in
        and_then (AttachHeader header_size header (word_of_int allocSize) h') (\<lambda>(p, h''). Inr (p, mm, h'')))
     else if allocSize < 0 \<or> int (length (poolTable mm)) \<le> allocSize
     then Inl (Undefined ''entry outside of poolTable'')
     else let k = poolTable mm ! nat allocSize in
       and_then (mod_Pop b mal (pools mm ! k, h)) (\<lambda>(header, pool, h').
         and_then (AttachHeader header_size header (word_of_int allocSize) h') (\<lambda>(p, h'').
           Inr (p, mm\<lparr>pools := (pools mm)[k := pool]\<rparr>, h''))))"

definition mod_Release :: "addr \<Rightarrow> memory_manager \<times> mem_heap \<Rightarrow> (memory_manager \<times> mem_heap) outcome" where
  "mod_Release ptr s = Inr s"

section \<open>What the manager maintains\<close>

text \<open>\<open>used\<close>: the headers handed out. No block is in two lists, twice in a list, or both listed
  and handed out.\<close>

definition mm_inv :: "memory_manager \<times> mem_heap \<Rightarrow> addr set \<Rightarrow> bool" where
  "mm_inv s used \<longleftrightarrow>
     poolTable (fst s) = poolTable MemoryManager \<and> length (pools (fst s)) = 48 \<and>
     used \<subseteq> dom (live (snd s)) \<and>
     (\<forall>i < 48. distinct (slist (pools (fst s) ! i)) \<and>
        (\<forall>a \<in> set (slist (pools (fst s) ! i)). a \<notin> used \<and> a \<in> dom (live (snd s)) \<and>
           allocSizeAt (snd s) a = 0 \<and>
           (\<forall>j < 48. a \<in> set (slist (pools (fst s) ! j)) \<longrightarrow> j = i)))"

lemma mm_inv_start: "mm_inv (MemoryManager, h) {}"
proof -
  have p: "pools MemoryManager = map MemoryPool size_classes"
    using build_table_inv [of MemoryPool] by (simp add: table_inv_def MemoryManager_def)
  have "slist (pools MemoryManager ! i) = []" if "i < 48" for i
    using that size_classes_shape by (simp add: p MemoryPool_def)
  then show ?thesis
    using size_classes_shape by (simp add: mm_inv_def p)
qed

lemma table_entry: "length (poolTable MemoryManager) \<le> n \<or> poolTable MemoryManager ! n < 48"
  using build_table_inv [of MemoryPool] size_classes_shape
  by (cases "n < length (poolTable MemoryManager)") (simp_all add: table_inv_def MemoryManager_def)

lemma mm_inv_write:
  "mm_inv (mm, h) used \<Longrightarrow> a \<in> used \<Longrightarrow> mm_inv (mm, h\<lparr>allocSizeAt := (allocSizeAt h)(a := n)\<rparr>) used"
  unfolding mm_inv_def by (simp, blast)

lemma mm_inv_new:
  "mm_inv (mm, h) used \<Longrightarrow> live h a = None \<Longrightarrow> mm_inv (mm, h\<lparr>live := (live h)(a \<mapsto> n)\<rparr>) (insert a used)"
  unfolding mm_inv_def by (simp, blast)

lemma mm_inv_same:
  "mm_inv (mm, h) used \<Longrightarrow> slist pool = slist (pools mm ! k) \<Longrightarrow>
   mm_inv (mm\<lparr>pools := (pools mm)[k := pool]\<rparr>, h) used"
proof -
  assume inv: "mm_inv (mm, h) used" and s: "slist pool = slist (pools mm ! k)"
  have "slist ((pools mm)[k := pool] ! i) = slist (pools mm ! i)" if "i < 48" for i
    using inv s that by (cases "i = k") (auto simp: mm_inv_def)
  with inv show ?thesis
    by (simp add: mm_inv_def)
qed

lemma mm_inv_pop:
  assumes inv: "mm_inv (mm, h) used" and k: "k < 48" and s: "slist (pools mm ! k) = a # slist pool"
  shows "a \<notin> used \<and> mm_inv (mm\<lparr>pools := (pools mm)[k := pool]\<rparr>, h) (insert a used)"
proof -
  let ?f = "\<lambda>i. slist (pools mm ! i)" and ?g = "\<lambda>i. slist ((pools mm)[k := pool] ! i)"
  have g: "?g i = (if i = k then slist pool else ?f i)" if "i < 48" for i
    using inv k that by (auto simp: mm_inv_def)
  have f: "distinct (?f i) \<and> (\<forall>b \<in> set (?f i). b \<notin> used \<and> b \<in> dom (live h) \<and> allocSizeAt h b = 0 \<and>
      (\<forall>j < 48. b \<in> set (?f j) \<longrightarrow> j = i))" if "i < 48" for i
    using inv that by (simp add: mm_inv_def)
  have a: "a \<notin> used" "a \<in> dom (live h)" "\<And>j. j < 48 \<Longrightarrow> a \<in> set (?f j) \<Longrightarrow> j = k" "a \<notin> set (slist pool)"
    using f [OF k] s by auto
  have "distinct (?g i) \<and> (\<forall>b \<in> set (?g i). b \<notin> insert a used \<and> b \<in> dom (live h) \<and> allocSizeAt h b = 0 \<and>
      (\<forall>j < 48. b \<in> set (?g j) \<longrightarrow> j = i))" if i: "i < 48" for i
  proof (cases "i = k")
    case True
    show ?thesis
      using f [OF k] s a True by (auto simp: g k)
  next
    case False
    have sub: "set (?g j) \<subseteq> set (?f j)" if "j < 48" for j
      using g [OF that] s by (cases "j = k") auto
    have "a \<notin> set (?f i)"
      using a(3) [OF i] False by blast
    moreover have "?g i = ?f i"
      using g [OF i] False by simp
    ultimately show ?thesis
      using f [OF i] sub by (metis insertE subsetD)
  qed
  then show ?thesis
    using inv a by (auto simp: mm_inv_def)
qed

lemma mm_inv_push:
  assumes inv: "mm_inv (mm, h) used" and k: "k < 48" and u: "a \<in> used" and s: "slist pool = a # slist (pools mm ! k)"
  shows "mm_inv (mm\<lparr>pools := (pools mm)[k := pool]\<rparr>, h\<lparr>allocSizeAt := (allocSizeAt h)(a := 0)\<rparr>) (used - {a})"
proof -
  let ?f = "\<lambda>i. slist (pools mm ! i)" and ?g = "\<lambda>i. slist ((pools mm)[k := pool] ! i)"
  have g: "?g i = (if i = k then a # ?f k else ?f i)" if "i < 48" for i
    using inv k that s by (auto simp: mm_inv_def)
  have f: "distinct (?f i) \<and> (\<forall>b \<in> set (?f i). b \<notin> used \<and> b \<in> dom (live h) \<and> allocSizeAt h b = 0 \<and>
      (\<forall>j < 48. b \<in> set (?f j) \<longrightarrow> j = i))" if "i < 48" for i
    using inv that by (simp add: mm_inv_def)
  have a: "a \<notin> set (?f i)" if "i < 48" for i
    using f [OF that] u by blast
  have l: "a \<in> dom (live h)"
    using inv u by (auto simp: mm_inv_def)
  have "distinct (?g i) \<and> (\<forall>b \<in> set (?g i). b \<notin> used - {a} \<and> b \<in> dom (live h) \<and>
      ((allocSizeAt h)(a := 0)) b = 0 \<and> (\<forall>j < 48. b \<in> set (?g j) \<longrightarrow> j = i))" if i: "i < 48" for i
  proof (cases "i = k")
    case True
    show ?thesis
      using f [OF k] a l True by (auto simp: g k)
  next
    case False
    show ?thesis
      using f [OF i] a [OF i] False i k by (auto simp: g)
  qed
  then show ?thesis
    using inv by (auto simp: mm_inv_def)
qed

lemma mm_inv_free:
  "mm_inv (mm, h) used \<Longrightarrow> a \<in> used \<Longrightarrow> mm_inv (mm, h\<lparr>live := (live h)(a := None)\<rparr>) (used - {a})"
  unfolding mm_inv_def by (simp, blast)

lemma Allocate_mm_inv:
  assumes mal: "malloc_ok mal" and inv: "mm_inv s used" and al: "Allocate b mal k n s = Inr (p, s')"
  shows "\<exists>a. p = a + k \<and> a \<notin> used \<and> mm_inv s' (insert a used)"
proof -
  obtain mm h where s: "s = (mm, h)" by fastforce
  let ?n = "alloc_size k n" and ?w = "\<lambda>a h. h\<lparr>allocSizeAt := (allocSizeAt h)(a := alloc_size k n)\<rparr>"
  show ?thesis
  proof (cases "too_large ?n")
    case True
    with al obtain a where m: "mal (live h) (unat ?n) = Some a" and p: "p = a + k"
      and s': "s' = (mm, ?w a (h\<lparr>live := (live h)(a \<mapsto> unat ?n)\<rparr>))"
      by (auto simp: Allocate_def s Let_def aligned_alloc_def and_then_Inr_iff AttachHeader_Inr_iff
          split: option.splits)
    have fresh: "live h a = None"
      by (rule malloc_fresh [OF mal m])
    with inv have "a \<notin> used"
      by (auto simp: mm_inv_def s)
    moreover have "mm_inv s' (insert a used)"
      using mm_inv_write [OF mm_inv_new [OF inv [unfolded s] fresh, of "unat ?n"], of a "alloc_size k n"]
      by (simp add: s')
    ultimately show ?thesis using p by blast
  next
    case False
    let ?k = "poolTable mm ! unat ?n"
    from False al obtain a pool h' where len: "unat ?n < length (poolTable mm)"
      and pop: "Pop b mal (pools mm ! ?k, h) = Inr (Some a, pool, h')" and p: "p = a + k"
      and s': "s' = (mm\<lparr>pools := (pools mm)[?k := pool]\<rparr>, ?w a h')"
      by (auto simp: Allocate_def s Let_def and_then_Inr_iff AttachHeader_Inr_iff split: if_splits)
    have k: "?k < 48"
      using len inv table_entry [of "unat ?n"] by (simp add: mm_inv_def s)
    have "a \<notin> used \<and> mm_inv (mm\<lparr>pools := (pools mm)[?k := pool]\<rparr>, h') (insert a used)"
    proof (cases "slist (pools mm ! ?k)")
      case Nil
      with pop have m: "mal (live h) (allocSize (pools mm ! ?k)) = Some a"
        and h': "h' = h\<lparr>live := (live h)(a \<mapsto> allocSize (pools mm ! ?k))\<rparr>" "slist pool = slist (pools mm ! ?k)"
        by (auto simp: Pop_def Let_def aligned_alloc_def split: option.splits)
      have fresh: "live h a = None"
        by (rule malloc_fresh [OF mal m])
      with inv have "a \<notin> used"
        by (auto simp: mm_inv_def s)
      moreover have "mm_inv (mm, h') (insert a used)"
        unfolding h'(1) by (rule mm_inv_new [OF inv [unfolded s] fresh])
      ultimately show ?thesis
        using mm_inv_same h'(2) by blast
    next
      case (Cons c rest)
      with pop have "c = a" "h' = h" "slist pool = rest"
        by (auto simp: Pop_def and_then_Inr_iff)
      with mm_inv_pop [OF inv [unfolded s] k, of a pool] Cons show ?thesis
        by simp
    qed
    with mm_inv_write show ?thesis
      unfolding s' p by blast
  qed
qed

lemma Release_mm_inv:
  assumes inv: "mm_inv s used" and u: "a \<in> used" and r: "Release b k (a + k) s = Inr s'"
  shows "mm_inv s' (used - {a})"
proof -
  obtain mm h where s: "s = (mm, h)" by fastforce
  let ?n = "allocSizeAt h a" and ?k = "poolTable mm ! unat (allocSizeAt h a)"
  show ?thesis
  proof (cases "too_large ?n")
    case True
    with r have "s' = (mm, h\<lparr>live := (live h)(a := None)\<rparr>)"
      by (auto simp: Release_def s Let_def and_then_Inr_iff)
    with mm_inv_free [OF inv [unfolded s] u] show ?thesis by simp
  next
    case False
    with r have len: "unat ?n < length (poolTable mm)"
      and s': "s' = (mm\<lparr>pools := (pools mm)[?k := fst (Push a (pools mm ! ?k, h))]\<rparr>,
        h\<lparr>allocSizeAt := (allocSizeAt h)(a := 0)\<rparr>)"
      by (auto simp: Release_def s Let_def and_then_Inr_iff Push_def split: if_splits)
    have "?k < 48"
      using len inv table_entry [of "unat ?n"] by (simp add: mm_inv_def s)
    from mm_inv_push [OF inv [unfolded s] this u] show ?thesis
      by (simp add: s' Push_def)
  qed
qed

text \<open>The pointers handed out lie one header behind the blocks.\<close>

definition manager_inv :: "malloc \<Rightarrow> nat \<Rightarrow> memory_manager \<times> mem_heap \<Rightarrow> addr set \<Rightarrow> bool" where
  "manager_inv mal k s ptrs \<longleftrightarrow> malloc_ok mal \<and> (\<exists>used. ptrs = (\<lambda>a. a + k) ` used \<and> mm_inv s used)"

lemma manager_invD:
  "manager_inv mal k s ptrs \<Longrightarrow> \<exists>used. ptrs = (\<lambda>a. a + k) ` used \<and> mm_inv s used \<and> malloc_ok mal"
  by (auto simp: manager_inv_def)

lemma Allocate_inv:
  assumes "manager_inv mal k s ptrs" and "Allocate b mal k n s = Inr (p, s')"
  shows "p \<notin> ptrs \<and> manager_inv mal k s' (insert p ptrs)"
proof -
  from manager_invD [OF assms(1)] obtain used
    where u: "ptrs = (\<lambda>a. a + k) ` used" "mm_inv s used" and mal: "malloc_ok mal" by blast
  from Allocate_mm_inv [OF mal u(2) assms(2)] obtain a
    where a: "p = a + k" "a \<notin> used" "mm_inv s' (insert a used)" by blast
  have "insert p ptrs = (\<lambda>a. a + k) ` insert a used"
    by (simp add: a(1) u(1))
  with a(3) mal have "manager_inv mal k s' (insert p ptrs)"
    unfolding manager_inv_def by blast
  with a(1,2) u(1) show ?thesis by auto
qed

lemma Release_inv:
  assumes "manager_inv mal k s ptrs" and "p \<in> ptrs" and "Release b k p s = Inr s'"
  shows "manager_inv mal k s' (ptrs - {p})"
proof -
  from manager_invD [OF assms(1)] obtain used
    where u: "ptrs = (\<lambda>a. a + k) ` used" "mm_inv s used" and mal: "malloc_ok mal" by blast
  with assms(2) obtain a where a: "p = a + k" "a \<in> used" by auto
  have "mm_inv s' (used - {a})"
    using Release_mm_inv [OF u(2) a(2)] assms(3) a(1) by simp
  moreover have "ptrs - {p} = (\<lambda>a. a + k) ` (used - {a})"
    by (auto simp: a(1) u(1))
  ultimately show ?thesis
    using mal unfolding manager_inv_def by blast
qed

interpretation manager: resource_source "\<lambda>n. Allocate b mal k n" "Release b k" "manager_inv mal k"
  for b mal k
  by unfold_locales (use Allocate_inv Release_inv in blast)+

lemma manager_run:
  assumes "malloc_ok mal" and "source_run (Allocate b mal k) (Release b k) (MemoryManager, h) s ptrs"
  shows "distinct ptrs \<and> manager_inv mal k s (set ptrs)"
proof -
  have "manager_inv mal k (MemoryManager, h) {}"
    using assms(1) mm_inv_start by (auto simp: manager_inv_def)
  from manager.run_inv [OF this, of b] assms(2) show ?thesis
    by blast
qed


text \<open>Which requests reach an uninitialised pool pointer: exactly those that need, with the
  header, between 3873 and 4096 bytes.\<close>

theorem Allocate_uninitialised_iff:
  assumes "malloc_ok aligned_malloc"
    and "source_run (Allocate b aligned_malloc k) (Release b k) (MemoryManager, h) s ptrs"
  shows "Allocate b aligned_malloc k n s = Inl (Undefined ''uninitialised entry of poolTable'') \<longleftrightarrow>
    3873 \<le> unat (alloc_size k n) \<and> unat (alloc_size k n) \<le> 4096"
proof -
  have t: "length (poolTable (fst s)) = 3873"
    using manager_run [OF assms] length_poolTable [of MemoryPool]
    by (auto simp: manager_inv_def mm_inv_def MemoryManager_def)
  show ?thesis
    by (cases s) (use t in \<open>auto simp: Allocate_def Let_def too_large_def MAX_ALLOC_SIZE_def and_then_Inl_iff
        AttachHeader_def Pop_def assert_crash_def split: prod.splits option.splits list.splits if_splits\<close>)
qed

text \<open>Memory given back is reused for the next request of the same size: \<open>Release\<close> followed by
  \<open>Allocate\<close> returns the same pointer and restores every pool.\<close>

theorem Release_Allocate:
  assumes "malloc_ok aligned_malloc"
    and "source_run (Allocate b aligned_malloc k) (Release b k) (MemoryManager, h) s ptrs"
    and "p \<in> set ptrs" and "Release b k p s = Inr s'"
    and "allocSizeAt (snd s) (DetachHeader k p) = alloc_size k n" and "\<not> too_large (alloc_size k n)"
  shows "\<exists>h'. Allocate b aligned_malloc k n s' = Inr (p, fst s, h')"
proof -
  obtain mm h where s: "s = (mm, h)" by fastforce
  obtain a where a: "p = a + k"
    using manager_run [OF assms(1,2)] assms(3) by (auto simp: manager_inv_def)
  let ?k = "poolTable mm ! unat (alloc_size k n)"
  from assms(4-6) have len: "unat (alloc_size k n) < length (poolTable mm)"
    and s': "s' = (mm\<lparr>pools := (pools mm)[?k := fst (Push a (pools mm ! ?k, h))]\<rparr>,
      h\<lparr>allocSizeAt := (allocSizeAt h)(a := 0)\<rparr>)"
    by (auto simp: Release_def s a Let_def and_then_Inr_iff Push_def split: if_splits)
  have k: "?k < length (pools mm)"
    using len manager_run [OF assms(1,2)] table_entry [of "unat (alloc_size k n)"]
    by (auto simp: manager_inv_def mm_inv_def s)
  show ?thesis
    using len k assms(6)
    by (simp add: s' a s Allocate_def Let_def Push_def Pop_def AttachHeader_def)
qed

text \<open>A second release of the same pool memory stops a debug build: the first one wrote size 0
  into the header.\<close>

theorem double_release_stops:
  assumes "Release DebugBuild k p s = Inr s'" and "\<not> too_large (allocSizeAt (snd s) (DetachHeader k p))"
  shows "Release DebugBuild k p s' = Inl (AssertCrash ''Unknown error - allocSize is zero'')"
  using assms
  by (cases s) (auto simp: Release_def Let_def and_then_Inr_iff Push_def split: if_splits)

section \<open>A run\<close>

text \<open>Header size 32, a request for 16 bytes and one for 8000.\<close>

lemma size_classes_0: "size_classes ! 0 = 32"
  by (simp add: size_classes_def numeral_eq_Suc)

lemma poolTable_first: "poolTable MemoryManager ! 32 = 0"
proof -
  have "\<forall>j < poolTable MemoryManager ! 32. size_classes ! j < 32"
    using build_table_inv [of MemoryPool] length_poolTable [of MemoryPool]
    by (simp add: table_inv_def MemoryManager_def)
  then show ?thesis
    using size_classes_0 by force
qed

lemma first_pool: "pools MemoryManager ! 0 = MemoryPool 32" "length (pools MemoryManager) = 48"
    "length (poolTable MemoryManager) = 3873"
proof -
  have p: "pools MemoryManager = map MemoryPool size_classes"
    using build_table_inv [of MemoryPool] by (simp add: table_inv_def MemoryManager_def)
  then show "pools MemoryManager ! 0 = MemoryPool 32" "length (pools MemoryManager) = 48"
    using size_classes_shape size_classes_0 by simp_all
  show "length (poolTable MemoryManager) = 3873"
    by (simp add: MemoryManager_def length_poolTable)
qed

abbreviation demo_malloc :: malloc where "demo_malloc \<equiv> high_malloc [4096, 16384]"

abbreviation demo_allocate where "demo_allocate \<equiv> Allocate DebugBuild demo_malloc 32"

lemma demo_run:
  "\<exists>s1 s2 s3. demo_allocate 0 (MemoryManager, empty_heap) = Inr (4128, s1) \<and>
     allocSizeAt (snd s1) 4096 = 32 \<and> Release DebugBuild 32 4128 s1 = Inr s2 \<and>
     demo_allocate 8000 s1 = Inr (16416, s3)"
  by (simp add: Allocate_def Release_def alloc_size_def too_large_def MAX_ALLOC_SIZE_def poolTable_first
      first_pool Pop_def MemoryPool_def aligned_alloc_def high_malloc_def empty_heap_def AttachHeader_def
      DetachHeader_def SLIST_ALIGNMENT_def Push_def)

lemma demo_start:
  assumes "demo_allocate 0 (MemoryManager, empty_heap) = Inr (4128, s1)"
  shows "source_run (Allocate DebugBuild demo_malloc 32) (Release DebugBuild 32) (MemoryManager, empty_heap) s1 [4128]"
  using source_run.start by (rule source_run.taken) (rule assms)


theorem Allocate_uninitialised_iff_witness:
  "demo_allocate 4000 (MemoryManager, empty_heap) = Inl (Undefined ''uninitialised entry of poolTable'')"
  using Allocate_uninitialised_iff [OF high_malloc_ok source_run.start,
      where b = DebugBuild and k = 32 and h = empty_heap and n = 4000]
  by (simp add: alloc_size_def)

theorem Release_Allocate_witness:
  "\<exists>s1 s2 h. demo_allocate 0 (MemoryManager, empty_heap) = Inr (4128, s1) \<and>
     Release DebugBuild 32 4128 s1 = Inr s2 \<and> demo_allocate 0 s2 = Inr (4128, fst s1, h)"
proof -
  obtain s1 s2 where r: "demo_allocate 0 (MemoryManager, empty_heap) = Inr (4128, s1)"
      "Release DebugBuild 32 4128 s1 = Inr s2" "allocSizeAt (snd s1) 4096 = 32"
    using demo_run by blast
  have "\<exists>h. demo_allocate 0 s2 = Inr (4128, fst s1, h)"
    by (rule Release_Allocate [OF high_malloc_ok demo_start [OF r(1)] _ r(2)])
      (simp_all add: r(3) DetachHeader_def alloc_size_def too_large_def MAX_ALLOC_SIZE_def)
  with r show ?thesis by blast
qed

theorem double_release_stops_witness:
  "\<exists>s1 s2. Release DebugBuild 32 4128 s1 = Inr s2 \<and>
     Release DebugBuild 32 4128 s2 = Inl (AssertCrash ''Unknown error - allocSize is zero'')"
proof -
  obtain s1 s2 where r: "Release DebugBuild 32 4128 s1 = Inr s2" "allocSizeAt (snd s1) 4096 = 32"
    using demo_run by blast
  have "Release DebugBuild 32 4128 s2 = Inl (AssertCrash ''Unknown error - allocSize is zero'')"
    by (rule double_release_stops [OF r(1)]) (simp add: r(2) DetachHeader_def too_large_def MAX_ALLOC_SIZE_def)
  with r(1) show ?thesis by blast
qed

section \<open>The module's manager\<close>

text \<open>Its lists stay empty, since \<open>mod_Release\<close> returns nothing to them, and its pools keep the
  sizes they were made for.\<close>

definition mod_inv :: "memory_manager \<Rightarrow> bool" where
  "mod_inv mm \<longleftrightarrow> poolTable mm = poolTable mod_MemoryManager \<and> length (pools mm) = 48 \<and>
     (\<forall>i < 48. slist (pools mm ! i) = [] \<and> allocSize (pools mm ! i) = size_classes ! i)"

lemma mod_inv_start: "mod_inv mod_MemoryManager"
  using build_table_inv [of mod_MemoryPool] size_classes_shape
  by (simp add: mod_inv_def table_inv_def mod_MemoryManager_def mod_MemoryPool_def)

lemma mod_Allocate_step:
  assumes inv: "mod_inv (fst s)" and r: "mod_Allocate b mal k n s = Inr (p, s')"
  shows "mod_inv (fst s') \<and> (\<exists>c. live (snd s') (p - k) = Some c \<and> to_int32 (n + int k) \<le> int c)"
proof -
  obtain mm h where s: "s = (mm, h)" by fastforce
  let ?n = "to_int32 (n + int k)"
  show ?thesis
  proof (cases "int MAX_ALLOC_SIZE < ?n")
    case True
    with r inv show ?thesis
      by (auto simp: mod_Allocate_def s Let_def aligned_alloc_def and_then_Inr_iff AttachHeader_Inr_iff
          split: option.splits)
  next
    case False
    with r have n: "0 \<le> ?n" "nat ?n < length (poolTable mm)"
      by (auto simp: mod_Allocate_def s Let_def split: if_splits)
    define i where "i = poolTable mm ! nat ?n"
    have t: "i < 48" "nat ?n \<le> size_classes ! i"
      using n(2) inv build_table_inv [of mod_MemoryPool] size_classes_shape
      by (simp_all add: i_def mod_inv_def s mod_MemoryManager_def table_inv_def)
    with inv have e: "slist (pools mm ! i) = []" "allocSize (pools mm ! i) = size_classes ! i"
      by (simp_all add: mod_inv_def s)
    have "\<not> int (length (poolTable mm)) \<le> ?n"
      using n by linarith
    with False r n(1) e i_def obtain a where m: "p = a + k"
      "fst s' = mm\<lparr>pools := (pools mm)[i := (pools mm ! i)\<lparr>usedCount := usedCount (pools mm ! i) + 1\<rparr>]\<rparr>"
      "live (snd s') a = Some (size_classes ! i)"
      by (auto simp: mod_Allocate_def s Let_def mod_Pop_def aligned_alloc_def and_then_Inr_iff
          AttachHeader_Inr_iff split: option.splits)
    have "mod_inv (fst s')"
      using inv t(1) e unfolding mod_inv_def s m(2) by (auto simp: nth_list_update)
    with m t(2) n(1) show ?thesis
      by auto
  qed
qed

text \<open>The module's manager, whose pools do store their size, always hands out a block whose
  requested size covers the header and the data; \<open>Release\<close> has an empty body, so no block ever
  comes back.\<close>

theorem mod_Allocate_enough:
  assumes "source_run (mod_Allocate b aligned_malloc k) mod_Release (mod_MemoryManager, h) s ptrs"
    and "mod_Allocate b aligned_malloc k n s = Inr (p, s')" and "0 \<le> n" and "n + int k < 2147483648"
  shows "\<exists>c. live (snd s') (p - k) = Some c \<and> n + int k \<le> int c"
proof -
  from assms(1) have "mod_inv (fst s)"
  proof (induction rule: source_run.induct)
    case start
    show ?case by (simp add: mod_inv_start)
  next
    case (taken s out r a s')
    with mod_Allocate_step show ?case by blast
  next
    case (given s out a s')
    then show ?case by (simp add: mod_Release_def)
  qed
  moreover have "to_int32 (n + int k) = n + int k"
    using assms(3,4) by (intro to_int32_id) simp_all
  ultimately show ?thesis
    using mod_Allocate_step [OF _ assms(2)] by simp
qed

theorem mod_Allocate_enough_witness:
  "\<exists>s c. mod_Allocate DebugBuild demo_malloc 32 8000 (mod_MemoryManager, empty_heap) = Inr (4128, s) \<and>
     live (snd s) 4096 = Some c \<and> 8032 \<le> int c"
proof -
  have "\<exists>s. mod_Allocate DebugBuild demo_malloc 32 8000 (mod_MemoryManager, empty_heap) = Inr (4128, s)"
    by (simp add: mod_Allocate_def to_int32_id MAX_ALLOC_SIZE_def aligned_alloc_def high_malloc_def
        empty_heap_def AttachHeader_def SLIST_ALIGNMENT_def)
  then obtain s where r: "mod_Allocate DebugBuild demo_malloc 32 8000 (mod_MemoryManager, empty_heap) = Inr (4128, s)" ..
  from mod_Allocate_enough [OF source_run.start r] obtain c where "live (snd s) 4096 = Some c" "8032 \<le> int c"
    by auto
  with r show ?thesis by blast
qed

end
