(* ===== verification/Send_Buffer.thy ===== *)
theory Send_Buffer
  imports Core_Prelude
begin

text \<open>
  ServerCore/SendBuffer.h and SendBuffer.cpp: chunks of 8192 bytes, of which every thread has one
  in its thread-local storage; send buffers opened and closed on them; the pool chunks go back to
  when the last reference to them is gone. Chunks and buffers are numbered. A \<open>shared_ptr\<close> is its
  target's number; its deleter runs when the last owner among the thread-local pointers and the
  live send buffers is gone. Each call is one step of the model; the lock the pool is used under
  is the subject of Rw_Lock.
\<close>

section \<open>SendBufferChunk\<close>

definition SEND_BUFFER_CHUNK_SIZE :: u32 where "SEND_BUFFER_CHUNK_SIZE = 0x2000"

record send_chunk =
  isOpened :: bool
  usedSize :: u32

definition new_chunk :: send_chunk where
  "new_chunk = \<lparr>isOpened = False, usedSize = 0\<rparr>"

definition FreeSize :: "send_chunk \<Rightarrow> u32" where
  "FreeSize ch = SEND_BUFFER_CHUNK_SIZE - usedSize ch"

definition ResetBuffer :: "send_chunk \<Rightarrow> send_chunk" where
  "ResetBuffer ch = ch\<lparr>isOpened := False, usedSize := 0\<rparr>"

text \<open>\<open>Open\<close> gives the position of the new buffer in the chunk, or null. \<open>&buffer[usedSize]\<close> of
  a full chunk indexes past the array.\<close>

definition chunk_Open :: "build \<Rightarrow> u32 \<Rightarrow> send_chunk \<Rightarrow> (u32 option \<times> send_chunk) outcome" where
  "chunk_Open b n ch =
     and_then (assert_crash b (SEND_BUFFER_CHUNK_SIZE < n) ''_allocSize is larger than SEND_BUFFER_CHUNK_SIZE'') (\<lambda>_.
     and_then (assert_crash b (isOpened ch) ''SendBufferChunk is already opened'') (\<lambda>_.
       if FreeSize ch < n then Inr (None, ch)
       else if SEND_BUFFER_CHUNK_SIZE \<le> usedSize ch then Inl (Undefined ''array index out of range'')
       else Inr (Some (usedSize ch), ch\<lparr>isOpened := True\<rparr>)))"

definition chunk_Close :: "build \<Rightarrow> u32 \<Rightarrow> send_chunk \<Rightarrow> send_chunk outcome" where
  "chunk_Close b n ch =
     and_then (assert_crash b (\<not> isOpened ch) ''isOpened should be true before calling Close()'') (\<lambda>_.
       Inr (ch\<lparr>isOpened := False, usedSize := usedSize ch + n\<rparr>))"

section \<open>SendBuffer and SendBufferManager\<close>

record send_buffer =
  ownerChunk :: nat
  position :: u32
  allocSize :: u32
  writeSize :: u32

text \<open>\<open>chunkAt\<close>: the chunk objects made so far, numbered below \<open>nextChunk\<close>; then the manager's pool,
  each thread's chunk, and the live send buffers by their number.\<close>

record send_state =
  chunkAt :: "nat \<Rightarrow> send_chunk"
  nextChunk :: nat
  sendBufferChunkPool :: "nat list"
  tls_SendBufferChunk :: "(nat \<times> nat) list"
  sendBuffers :: "(nat \<times> send_buffer) list"
  nextBuffer :: nat

definition new_send_state :: send_state where
  "new_send_state = \<lparr>chunkAt = (\<lambda>_. new_chunk), nextChunk = 0, sendBufferChunkPool = [],
     tls_SendBufferChunk = [], sendBuffers = [], nextBuffer = 0\<rparr>"

definition Pop :: "send_state \<Rightarrow> nat \<times> send_state" where
  "Pop s =
     (if sendBufferChunkPool s \<noteq> []
      then (last (sendBufferChunkPool s), s\<lparr>sendBufferChunkPool := butlast (sendBufferChunkPool s)\<rparr>)
      else (nextChunk s, s\<lparr>nextChunk := nextChunk s + 1, chunkAt := (chunkAt s)(nextChunk s := new_chunk)\<rparr>))"

definition Push :: "nat \<Rightarrow> send_state \<Rightarrow> send_state" where
  "Push c s = s\<lparr>sendBufferChunkPool := sendBufferChunkPool s @ [c]\<rparr>"

text \<open>After a reference to chunk \<open>c\<close> has gone: \<open>PushGlobal\<close> if it was the last.\<close>

definition referenced :: "send_state \<Rightarrow> nat \<Rightarrow> bool" where
  "referenced s c \<longleftrightarrow> c \<in> set (map snd (tls_SendBufferChunk s)) \<or>
     c \<in> set (map (\<lambda>p. ownerChunk (snd p)) (sendBuffers s))"

definition PushGlobal :: "nat \<Rightarrow> send_state \<Rightarrow> send_state" where
  "PushGlobal c s = (if referenced s c then s else Push c s)"

text \<open>\<open>tls_SendBufferChunk = Pop(); tls_SendBufferChunk->ResetBuffer();\<close> on thread \<open>t\<close>.\<close>

definition renew_chunk :: "nat \<Rightarrow> send_state \<Rightarrow> nat \<times> send_state" where
  "renew_chunk t s =
     (let (c, s1) = Pop s;
          old = map_of (tls_SendBufferChunk s) t;
          s2 = s1\<lparr>tls_SendBufferChunk := (t, c) # filter (\<lambda>p. fst p \<noteq> t) (tls_SendBufferChunk s1)\<rparr>;
          s3 = (case old of None \<Rightarrow> s2 | Some o_chunk \<Rightarrow> PushGlobal o_chunk s2)
      in (c, s3\<lparr>chunkAt := (chunkAt s3)(c := ResetBuffer (chunkAt s3 c))\<rparr>))"

text \<open>\<open>SendBufferManager::Open\<close> on thread \<open>t\<close>: the number of the new buffer, or null.\<close>

definition Open :: "build \<Rightarrow> nat \<Rightarrow> u32 \<Rightarrow> send_state \<Rightarrow> (nat option \<times> send_state) outcome" where
  "Open b t n s =
     (let (c, s1) = (case map_of (tls_SendBufferChunk s) t of None \<Rightarrow> renew_chunk t s | Some c \<Rightarrow> (c, s)) in
      and_then (assert_crash b (isOpened (chunkAt s1 c)) ''SendBufferChunk should be close before using'') (\<lambda>_.
        let (c, s2) = (if FreeSize (chunkAt s1 c) < n then renew_chunk t s1 else (c, s1)) in
        and_then (chunk_Open b n (chunkAt s2 c)) (\<lambda>(pos, ch).
          case pos of
            None \<Rightarrow> Inr (None, s2\<lparr>chunkAt := (chunkAt s2)(c := ch)\<rparr>)
          | Some p \<Rightarrow> Inr (Some (nextBuffer s2), s2\<lparr>chunkAt := (chunkAt s2)(c := ch),
              nextBuffer := nextBuffer s2 + 1,
              sendBuffers := (nextBuffer s2, \<lparr>ownerChunk = c, position = p, allocSize = n, writeSize = 0\<rparr>)
                # sendBuffers s2\<rparr>))))"

text \<open>\<open>SendBuffer::Close\<close> of buffer \<open>i\<close>, and the last reference to buffer \<open>i\<close> going away.\<close>

definition Close :: "build \<Rightarrow> nat \<Rightarrow> u32 \<Rightarrow> send_state \<Rightarrow> send_state outcome" where
  "Close b i n s =
     (case map_of (sendBuffers s) i of
        None \<Rightarrow> Inl (Undefined ''use of a deleted SendBuffer'')
      | Some sb \<Rightarrow>
          and_then (assert_crash b (allocSize sb < n) ''_writeSize is larger than allocSize'') (\<lambda>_.
          and_then (chunk_Close b n (chunkAt s (ownerChunk sb))) (\<lambda>ch.
            Inr (s\<lparr>sendBuffers := map (\<lambda>(j, x). if j = i then (j, x\<lparr>writeSize := n\<rparr>) else (j, x)) (sendBuffers s),
              chunkAt := (chunkAt s)(ownerChunk sb := ch)\<rparr>))))"

definition release_buffer :: "nat \<Rightarrow> send_state \<Rightarrow> send_state" where
  "release_buffer i s =
     (case map_of (sendBuffers s) i of
        None \<Rightarrow> s
      | Some sb \<Rightarrow> PushGlobal (ownerChunk sb) (s\<lparr>sendBuffers := filter (\<lambda>p. fst p \<noteq> i) (sendBuffers s)\<rparr>))"

section \<open>Runs\<close>

text \<open>Any calls in any order, by any threads. A buffer is closed at most once: \<open>opn\<close> are the
  buffers opened and not closed yet.\<close>

inductive send_run :: "build \<Rightarrow> send_state \<Rightarrow> nat set \<Rightarrow> bool" for b where
  start: "send_run b new_send_state {}"
| opened: "send_run b s opn \<Longrightarrow> Open b t n s = Inr (Some i, s') \<Longrightarrow> send_run b s' (insert i opn)"
| refused: "send_run b s opn \<Longrightarrow> Open b t n s = Inr (None, s') \<Longrightarrow> send_run b s' opn"
| closed: "send_run b s opn \<Longrightarrow> i \<in> opn \<Longrightarrow> Close b i n s = Inr s' \<Longrightarrow> send_run b s' (opn - {i})"
| released: "send_run b s opn \<Longrightarrow> send_run b (release_buffer i s) (opn - {i})"

text \<open>The bytes a buffer may be written or sent from.\<close>

definition extent :: "nat set \<Rightarrow> nat \<Rightarrow> send_buffer \<Rightarrow> nat set" where
  "extent opn i sb = {unat (position sb) ..< unat (position sb) +
     unat (if i \<in> opn then allocSize sb else writeSize sb)}"

section \<open>The invariant\<close>

definition owner_ok :: "send_state \<Rightarrow> bool" where
  "owner_ok s \<longleftrightarrow>
     distinct (map fst (sendBuffers s)) \<and> (\<forall>i \<in> fst ` set (sendBuffers s). i < nextBuffer s) \<and>
     distinct (map fst (tls_SendBufferChunk s)) \<and> distinct (map snd (tls_SendBufferChunk s)) \<and>
     distinct (sendBufferChunkPool s) \<and>
     (\<forall>c. referenced s c \<longrightarrow> c < nextChunk s \<and> c \<notin> set (sendBufferChunkPool s)) \<and>
     (\<forall>c \<in> set (sendBufferChunkPool s). c < nextChunk s)"

definition range_ok :: "send_state \<Rightarrow> nat set \<Rightarrow> bool" where
  "range_ok s opn \<longleftrightarrow>
     (\<forall>c. unat (usedSize (chunkAt s c)) \<le> 0x2000) \<and>
     (\<forall>i x. (i, x) \<in> set (sendBuffers s) \<longrightarrow> i \<in> opn \<longrightarrow>
        isOpened (chunkAt s (ownerChunk x)) \<and> usedSize (chunkAt s (ownerChunk x)) = position x \<and>
        unat (position x) + unat (allocSize x) \<le> 0x2000) \<and>
     (\<forall>i x. (i, x) \<in> set (sendBuffers s) \<longrightarrow> i \<notin> opn \<longrightarrow>
        unat (position x) + unat (writeSize x) \<le> unat (usedSize (chunkAt s (ownerChunk x)))) \<and>
     (\<forall>i x j y. (i, x) \<in> set (sendBuffers s) \<longrightarrow> (j, y) \<in> set (sendBuffers s) \<longrightarrow> i \<noteq> j \<longrightarrow>
        ownerChunk x = ownerChunk y \<longrightarrow> i \<in> opn \<longrightarrow> j \<notin> opn) \<and>
     (\<forall>i x j y. (i, x) \<in> set (sendBuffers s) \<longrightarrow> (j, y) \<in> set (sendBuffers s) \<longrightarrow> i \<noteq> j \<longrightarrow>
        ownerChunk x = ownerChunk y \<longrightarrow> i \<notin> opn \<longrightarrow> j \<notin> opn \<longrightarrow>
        unat (position x) + unat (writeSize x) \<le> unat (position y) \<or>
        unat (position y) + unat (writeSize y) \<le> unat (position x))"

lemma referenced_iff:
  "referenced s c \<longleftrightarrow> (\<exists>t. (t, c) \<in> set (tls_SendBufferChunk s)) \<or>
     (\<exists>i x. (i, x) \<in> set (sendBuffers s) \<and> ownerChunk x = c)"
  by (force simp: referenced_def)

lemma range_okI:
  assumes "\<And>c. unat (usedSize (chunkAt s c)) \<le> 0x2000"
    and "\<And>i x. (i, x) \<in> set (sendBuffers s) \<Longrightarrow> i \<in> opn \<Longrightarrow> isOpened (chunkAt s (ownerChunk x)) \<and>
      usedSize (chunkAt s (ownerChunk x)) = position x \<and> unat (position x) + unat (allocSize x) \<le> 0x2000"
    and "\<And>i x. (i, x) \<in> set (sendBuffers s) \<Longrightarrow> i \<notin> opn \<Longrightarrow>
      unat (position x) + unat (writeSize x) \<le> unat (usedSize (chunkAt s (ownerChunk x)))"
    and "\<And>i x j y. (i, x) \<in> set (sendBuffers s) \<Longrightarrow> (j, y) \<in> set (sendBuffers s) \<Longrightarrow> i \<noteq> j \<Longrightarrow>
      ownerChunk x = ownerChunk y \<Longrightarrow> i \<in> opn \<Longrightarrow> j \<notin> opn"
    and "\<And>i x j y. (i, x) \<in> set (sendBuffers s) \<Longrightarrow> (j, y) \<in> set (sendBuffers s) \<Longrightarrow> i \<noteq> j \<Longrightarrow>
      ownerChunk x = ownerChunk y \<Longrightarrow> i \<notin> opn \<Longrightarrow> j \<notin> opn \<Longrightarrow>
      unat (position x) + unat (writeSize x) \<le> unat (position y) \<or>
      unat (position y) + unat (writeSize y) \<le> unat (position x)"
  shows "range_ok s opn"
  unfolding range_ok_def using assms by blast

lemma range_okD:
  assumes "range_ok s opn"
  shows "unat (usedSize (chunkAt s c)) \<le> 0x2000"
    and "(i, x) \<in> set (sendBuffers s) \<Longrightarrow> i \<in> opn \<Longrightarrow> isOpened (chunkAt s (ownerChunk x)) \<and>
      usedSize (chunkAt s (ownerChunk x)) = position x \<and> unat (position x) + unat (allocSize x) \<le> 0x2000"
    and "(i, x) \<in> set (sendBuffers s) \<Longrightarrow> i \<notin> opn \<Longrightarrow>
      unat (position x) + unat (writeSize x) \<le> unat (usedSize (chunkAt s (ownerChunk x)))"
    and "(i, x) \<in> set (sendBuffers s) \<Longrightarrow> (j, y) \<in> set (sendBuffers s) \<Longrightarrow> i \<noteq> j \<Longrightarrow>
      ownerChunk x = ownerChunk y \<Longrightarrow> i \<in> opn \<Longrightarrow> j \<notin> opn"
    and "(i, x) \<in> set (sendBuffers s) \<Longrightarrow> (j, y) \<in> set (sendBuffers s) \<Longrightarrow> i \<noteq> j \<Longrightarrow>
      ownerChunk x = ownerChunk y \<Longrightarrow> i \<notin> opn \<Longrightarrow> j \<notin> opn \<Longrightarrow>
      unat (position x) + unat (writeSize x) \<le> unat (position y) \<or>
      unat (position y) + unat (writeSize y) \<le> unat (position x)"
  using assms unfolding range_ok_def by blast+

lemma range_ok_cong:
  "chunkAt s' = chunkAt s \<Longrightarrow> sendBuffers s' = sendBuffers s \<Longrightarrow> range_ok s' opn = range_ok s opn"
  by (simp add: range_ok_def)

lemma range_ok_chunk:
  assumes r: "range_ok s opn" and c: "\<not> (\<exists>i x. (i, x) \<in> set (sendBuffers s) \<and> ownerChunk x = c)"
    and u: "unat (usedSize ch) \<le> 0x2000"
  shows "range_ok (s\<lparr>chunkAt := (chunkAt s)(c := ch)\<rparr>) opn"
proof -
  have n: "ownerChunk x \<noteq> c" if "(i, x) \<in> set (sendBuffers s)" for i x
    using c that by blast
  let ?s = "s\<lparr>chunkAt := (chunkAt s)(c := ch)\<rparr>"
  show ?thesis
  proof (rule range_okI)
    show "unat (usedSize (chunkAt ?s d)) \<le> 0x2000" for d
      using range_okD(1) [OF r] u by simp
    show "isOpened (chunkAt ?s (ownerChunk x)) \<and> usedSize (chunkAt ?s (ownerChunk x)) = position x \<and>
        unat (position x) + unat (allocSize x) \<le> 0x2000" if "(i, x) \<in> set (sendBuffers ?s)" "i \<in> opn" for i x
      using range_okD(2) [OF r, of i x] that n [of i x] by simp
    show "unat (position x) + unat (writeSize x) \<le> unat (usedSize (chunkAt ?s (ownerChunk x)))"
      if "(i, x) \<in> set (sendBuffers ?s)" "i \<notin> opn" for i x
      using range_okD(3) [OF r, of i x] that n [of i x] by simp
  qed (use range_okD(4,5) [OF r] in simp_all)
qed

lemma referenced_chunkAt [simp]: "referenced (s\<lparr>chunkAt := f\<rparr>) c = referenced s c"
  by (simp add: referenced_def)

lemma owner_ok_chunkAt [simp]: "owner_ok (s\<lparr>chunkAt := f\<rparr>) = owner_ok s"
  by (simp add: owner_ok_def)

lemma owner_ok_more:
  assumes "owner_ok s"
  shows "owner_ok (s\<lparr>nextChunk := Suc (nextChunk s)\<rparr>)"
proof -
  have "referenced (s\<lparr>nextChunk := Suc (nextChunk s)\<rparr>) = referenced s"
    by (simp add: referenced_def fun_eq_iff)
  then show ?thesis
    using assms less_SucI unfolding owner_ok_def by (simp; blast)
qed

lemma Pop_ok:
  assumes ok: "owner_ok s" and r: "range_ok s opn" and p: "Pop s = (c, s1)"
  shows "owner_ok s1" and "range_ok s1 opn" and "\<not> referenced s1 c" and "c \<notin> set (sendBufferChunkPool s1)"
    and "c < nextChunk s1" and "tls_SendBufferChunk s1 = tls_SendBufferChunk s" and "sendBuffers s1 = sendBuffers s"
proof -
  have "owner_ok s1 \<and> range_ok s1 opn \<and> \<not> referenced s1 c \<and> c \<notin> set (sendBufferChunkPool s1) \<and>
    c < nextChunk s1 \<and> tls_SendBufferChunk s1 = tls_SendBufferChunk s \<and> sendBuffers s1 = sendBuffers s"
  proof (cases "sendBufferChunkPool s = []")
    case True
    have nr: "\<not> referenced s (nextChunk s)"
      using ok by (auto simp: owner_ok_def)
    then have t: "range_ok (s\<lparr>chunkAt := (chunkAt s)(nextChunk s := new_chunk)\<rparr>) opn"
      by (intro range_ok_chunk [OF r]) (auto simp: referenced_iff new_chunk_def)
    have s1: "c = nextChunk s"
      "s1 = s\<lparr>nextChunk := Suc (nextChunk s), chunkAt := (chunkAt s)(nextChunk s := new_chunk)\<rparr>"
      using True p by (auto simp: Pop_def)
    have "range_ok s1 opn"
      by (rule range_ok_cong [THEN iffD2, OF _ _ t]) (simp_all add: s1(2))
    moreover have "owner_ok s1"
      unfolding s1(2) owner_ok_chunkAt by (rule owner_ok_more [OF ok])
    moreover have "\<not> referenced s1 c"
      using nr by (simp add: s1 referenced_def)
    ultimately show ?thesis
      using True by (simp add: s1)
  next
    case False
    then obtain cs where cs: "sendBufferChunkPool s = cs @ [c]"
      using p by (cases "sendBufferChunkPool s" rule: rev_cases) (auto simp: Pop_def)
    then have s1: "s1 = s\<lparr>sendBufferChunkPool := cs\<rparr>"
      using p by (auto simp: Pop_def)
    have "range_ok s1 opn"
      by (rule range_ok_cong [THEN iffD2, OF _ _ r]) (simp_all add: s1)
    then show ?thesis
      using ok cs by (auto simp: s1 owner_ok_def referenced_def)
  qed
  then show "owner_ok s1" "range_ok s1 opn" "\<not> referenced s1 c" "c \<notin> set (sendBufferChunkPool s1)"
    "c < nextChunk s1" "tls_SendBufferChunk s1 = tls_SendBufferChunk s" "sendBuffers s1 = sendBuffers s"
    by simp_all
qed

lemma PushGlobal_ok:
  "owner_ok s \<Longrightarrow> c < nextChunk s \<Longrightarrow> c \<notin> set (sendBufferChunkPool s) \<Longrightarrow> owner_ok (PushGlobal c s)"
  by (auto simp: PushGlobal_def Push_def owner_ok_def referenced_def)

lemma PushGlobal_frame [simp]:
  "chunkAt (PushGlobal c s) = chunkAt s" "sendBuffers (PushGlobal c s) = sendBuffers s"
  "tls_SendBufferChunk (PushGlobal c s) = tls_SendBufferChunk s" "nextBuffer (PushGlobal c s) = nextBuffer s"
  by (simp_all add: PushGlobal_def Push_def)

lemma set_tls_ok:
  assumes ok: "owner_ok s" and c: "\<not> referenced s c" "c \<notin> set (sendBufferChunkPool s)" "c < nextChunk s"
  shows "owner_ok (s\<lparr>tls_SendBufferChunk := (t, c) # filter (\<lambda>p. fst p \<noteq> t) (tls_SendBufferChunk s)\<rparr>)"
    (is "owner_ok ?s")
proof -
  have d: "distinct (map g (filter P xs))" if "distinct (map g xs)" for g :: "nat \<times> nat \<Rightarrow> nat" and P xs
    using that by (rule distinct_map_filter)
  have ref: "referenced ?s d \<Longrightarrow> d = c \<or> referenced s d" for d
    by (auto simp: referenced_def)
  have "c \<notin> snd ` set (tls_SendBufferChunk s)"
    using c(1) by (simp add: referenced_def)
  then have "distinct (map snd (tls_SendBufferChunk ?s))" "distinct (map fst (tls_SendBufferChunk ?s))"
    using ok d by (auto simp: owner_ok_def)
  then show ?thesis
    using ok c unfolding owner_ok_def by (auto dest!: ref)
qed

lemma renew_chunk_ok:
  assumes ok: "owner_ok s" and r: "range_ok s opn" and n: "renew_chunk t s = (c, s')"
  shows "owner_ok s'" and "range_ok s' opn" and "map_of (tls_SendBufferChunk s') t = Some c"
    and "chunkAt s' c = \<lparr>isOpened = False, usedSize = 0\<rparr>" and "sendBuffers s' = sendBuffers s"
    and "\<not> (\<exists>i x. (i, x) \<in> set (sendBuffers s') \<and> ownerChunk x = c)"
proof -
  obtain c' s1 where p: "Pop s = (c', s1)" by fastforce
  note P = Pop_ok [OF ok r p]
  let ?s2 = "s1\<lparr>tls_SendBufferChunk := (t, c') # filter (\<lambda>p. fst p \<noteq> t) (tls_SendBufferChunk s1)\<rparr>"
  define s3 where "s3 = (case map_of (tls_SendBufferChunk s) t of None \<Rightarrow> ?s2 | Some d \<Rightarrow> PushGlobal d ?s2)"
  have c: "c = c'" and s': "s' = s3\<lparr>chunkAt := (chunkAt s3)(c := ResetBuffer (chunkAt s3 c))\<rparr>"
    using n p by (auto simp: renew_chunk_def s3_def Let_def)
  have ok2: "owner_ok ?s2"
    by (rule set_tls_ok [OF P(1,3-5)])
  have ok3: "owner_ok s3"
  proof (cases "map_of (tls_SendBufferChunk s) t")
    case (Some d)
    then have "referenced s1 d"
      using P(6) by (auto simp: referenced_iff dest: map_of_SomeD)
    then have "d < nextChunk s1" "d \<notin> set (sendBufferChunkPool s1)"
      using P(1) by (simp_all add: owner_ok_def)
    then show ?thesis
      using PushGlobal_ok [OF ok2, of d] Some by (simp add: s3_def)
  qed (use ok2 in \<open>simp add: s3_def\<close>)
  have fr: "chunkAt s3 = chunkAt s1" "sendBuffers s3 = sendBuffers s"
    "map_of (tls_SendBufferChunk s3) t = Some c"
    using P(7) c by (simp_all add: s3_def split: option.splits)
  have no: "\<not> (\<exists>i x. (i, x) \<in> set (sendBuffers s3) \<and> ownerChunk x = c)"
    using P(3,7) c by (auto simp: fr referenced_iff)
  have "range_ok s3 opn"
    using P(2) range_ok_cong [of s3 s1 opn] fr P(7) by simp
  from range_ok_chunk [OF this no, of "ResetBuffer (chunkAt s3 c)"]
  show "range_ok s' opn" by (simp add: s' ResetBuffer_def)
  show "owner_ok s'" using ok3 by (simp add: s')
  show "map_of (tls_SendBufferChunk s') t = Some c" "sendBuffers s' = sendBuffers s"
    "chunkAt s' c = \<lparr>isOpened = False, usedSize = 0\<rparr>"
    using fr by (simp_all add: s' ResetBuffer_def)
  show "\<not> (\<exists>i x. (i, x) \<in> set (sendBuffers s') \<and> ownerChunk x = c)"
    using no by (simp add: s')
qed

lemma new_buffer_ok:
  fixes s c n
  defines "ch \<equiv> chunkAt s c"
  defines "s' \<equiv> s\<lparr>chunkAt := (chunkAt s)(c := ch\<lparr>isOpened := True\<rparr>), nextBuffer := nextBuffer s + 1,
     sendBuffers := (nextBuffer s, \<lparr>ownerChunk = c, position = usedSize ch, allocSize = n, writeSize = 0\<rparr>)
       # sendBuffers s\<rparr>"
  assumes ok: "owner_ok s" and r: "range_ok s opn" and c: "referenced s c" and cl: "\<not> isOpened ch"
    and fit: "unat (usedSize ch) + unat n \<le> 0x2000"
  shows "owner_ok s'" and "range_ok s' (insert (nextBuffer s) opn)"
proof -
  have ref: "referenced s' d \<longleftrightarrow> referenced s d" for d
    using c by (auto simp: referenced_def s'_def)
  have "\<forall>i \<in> fst ` set (sendBuffers s'). i < nextBuffer s'" "distinct (map fst (sendBuffers s'))"
    using ok by (auto simp: owner_ok_def s'_def less_Suc_eq)
  then show "owner_ok s'"
    using ok unfolding owner_ok_def ref by (simp add: s'_def)
  have old: "i \<noteq> nextBuffer s" if "(i, x) \<in> set (sendBuffers s)" for i x
    using ok that by (auto simp: owner_ok_def)
  have other: "i \<notin> opn" if "(i, x) \<in> set (sendBuffers s)" "ownerChunk x = c" for i x
    using range_okD(2) [OF r, of i x] that cl by (auto simp: ch_def)
  show "range_ok s' (insert (nextBuffer s) opn)"
  proof (rule range_okI)
    show "unat (usedSize (chunkAt s' d)) \<le> 0x2000" for d
      using range_okD(1) [OF r, of d] range_okD(1) [OF r, of c] by (simp add: s'_def ch_def)
    show "isOpened (chunkAt s' (ownerChunk x)) \<and> usedSize (chunkAt s' (ownerChunk x)) = position x \<and>
        unat (position x) + unat (allocSize x) \<le> 0x2000"
      if "(i, x) \<in> set (sendBuffers s')" "i \<in> insert (nextBuffer s) opn" for i x
      using that fit old [of i x] other [of i x] range_okD(2) [OF r, of i x] by (auto simp: s'_def)
    show "unat (position x) + unat (writeSize x) \<le> unat (usedSize (chunkAt s' (ownerChunk x)))"
      if "(i, x) \<in> set (sendBuffers s')" "i \<notin> insert (nextBuffer s) opn" for i x
      using that range_okD(3) [OF r, of i x] by (auto simp: s'_def ch_def)
    show "j \<notin> insert (nextBuffer s) opn"
      if "(i, x) \<in> set (sendBuffers s')" "(j, y) \<in> set (sendBuffers s')" "i \<noteq> j"
        "ownerChunk x = ownerChunk y" "i \<in> insert (nextBuffer s) opn" for i x j y
    proof (cases "i = nextBuffer s")
      case True
      with that(1) have "ownerChunk x = c"
        using old [of i x] by (auto simp: s'_def)
      moreover have "(j, y) \<in> set (sendBuffers s)"
        using that(2,3) True by (auto simp: s'_def)
      ultimately show ?thesis
        using other [of j y] that(3,4) True by simp
    next
      case False
      with that(1,5) have i: "(i, x) \<in> set (sendBuffers s)" "i \<in> opn"
        by (auto simp: s'_def)
      show ?thesis
      proof (cases "j = nextBuffer s")
        case True
        with that(2) have "ownerChunk y = c"
          using old [of j y] by (auto simp: s'_def)
        with other [OF i(1)] i(2) that(4) show ?thesis by simp
      next
        case False
        with that(2) have "(j, y) \<in> set (sendBuffers s)"
          by (auto simp: s'_def)
        with False range_okD(4) [OF r i(1) _ that(3,4) i(2)] show ?thesis by simp
      qed
    qed
    show "unat (position x) + unat (writeSize x) \<le> unat (position y) \<or>
        unat (position y) + unat (writeSize y) \<le> unat (position x)"
      if "(i, x) \<in> set (sendBuffers s')" "(j, y) \<in> set (sendBuffers s')" "i \<noteq> j"
        "ownerChunk x = ownerChunk y" "i \<notin> insert (nextBuffer s) opn" "j \<notin> insert (nextBuffer s) opn" for i x j y
      using that range_okD(5) [OF r, of i x j y] by (auto simp: s'_def)
  qed
qed

lemma FreeSize_fits:
  assumes "unat (usedSize ch) \<le> 0x2000" and "\<not> FreeSize ch < n"
  shows "unat (usedSize ch) + unat n \<le> 0x2000"
proof -
  have "usedSize ch \<le> SEND_BUFFER_CHUNK_SIZE"
    using assms(1) by (simp add: SEND_BUFFER_CHUNK_SIZE_def word_le_nat_alt)
  then have "unat (FreeSize ch) = 0x2000 - unat (usedSize ch)"
    by (simp add: FreeSize_def unat_sub) (simp add: SEND_BUFFER_CHUNK_SIZE_def)
  with assms show ?thesis
    by (simp add: word_less_nat_alt)
qed

lemma tls_referenced: "map_of (tls_SendBufferChunk s) t = Some c \<Longrightarrow> referenced s c"
  by (auto simp: referenced_iff dest: map_of_SomeD)

text \<open>The chunk \<open>Open\<close> works on, and what is known of it.\<close>

lemma open_chunk_ok:
  assumes ok: "owner_ok s" and r: "range_ok s opn"
  shows "case (case map_of (tls_SendBufferChunk s) t of None \<Rightarrow> renew_chunk t s | Some c \<Rightarrow> (c, s)) of
    (c, s1) \<Rightarrow> case (if FreeSize (chunkAt s1 c) < n then renew_chunk t s1 else (c, s1)) of
    (d, s2) \<Rightarrow> owner_ok s2 \<and> range_ok s2 opn \<and> referenced s2 d \<and>
      (\<not> isOpened (chunkAt s1 c) \<longrightarrow> \<not> isOpened (chunkAt s2 d)) \<and>
      (n \<le> SEND_BUFFER_CHUNK_SIZE \<longrightarrow> \<not> FreeSize (chunkAt s2 d) < n)"
proof -
  obtain c s1 where 1: "(case map_of (tls_SendBufferChunk s) t of None \<Rightarrow> renew_chunk t s | Some c \<Rightarrow> (c, s)) = (c, s1)"
    by fastforce
  have c: "owner_ok s1 \<and> range_ok s1 opn \<and> map_of (tls_SendBufferChunk s1) t = Some c"
    using 1 ok r renew_chunk_ok [OF ok r] by (cases "map_of (tls_SendBufferChunk s) t") auto
  obtain d s2 where 2: "(if FreeSize (chunkAt s1 c) < n then renew_chunk t s1 else (c, s1)) = (d, s2)"
    by fastforce
  show ?thesis
  proof (cases "FreeSize (chunkAt s1 c) < n")
    case True
    with 2 have "renew_chunk t s1 = (d, s2)" by simp
    from renew_chunk_ok [OF _ _ this, of opn] c tls_referenced [of s2 t d] show ?thesis
      unfolding 1 prod.case 2 by (simp add: FreeSize_def not_less)
  next
    case False
    with 2 have "d = c" "s2 = s1" by simp_all
    with False c tls_referenced [of s1 t c] show ?thesis
      unfolding 1 prod.case 2 by auto
  qed
qed

lemma Open_cases:
  assumes "owner_ok s" and "range_ok s opn" and o: "Open b t n s = Inr (ret, s')" and "b = DebugBuild"
  shows "owner_ok s' \<and> (case ret of
      None \<Rightarrow> range_ok s' opn
    | Some i \<Rightarrow> range_ok s' (insert i opn) \<and> (\<exists>x rest. sendBuffers s' = (i, x) # rest \<and> allocSize x = n))"
proof -
  obtain c s1 where 1: "(case map_of (tls_SendBufferChunk s) t of None \<Rightarrow> renew_chunk t s | Some c \<Rightarrow> (c, s)) = (c, s1)"
    by fastforce
  obtain d s2 where 2: "(if FreeSize (chunkAt s1 c) < n then renew_chunk t s1 else (c, s1)) = (d, s2)"
    by fastforce
  have s2: "owner_ok s2" "range_ok s2 opn" "referenced s2 d"
    using open_chunk_ok [OF assms(1,2), where t = t and n = n] unfolding 1 prod.case 2 by auto
  from o obtain pos ch where op: "chunk_Open b n (chunkAt s2 d) = Inr (pos, ch)"
    and s': "(case pos of None \<Rightarrow> Inr (None, s2\<lparr>chunkAt := (chunkAt s2)(d := ch)\<rparr>)
      | Some p \<Rightarrow> Inr (Some (nextBuffer s2), s2\<lparr>chunkAt := (chunkAt s2)(d := ch), nextBuffer := nextBuffer s2 + 1,
          sendBuffers := (nextBuffer s2, \<lparr>ownerChunk = d, position = p, allocSize = n, writeSize = 0\<rparr>)
            # sendBuffers s2\<rparr>)) = (Inr (ret, s') :: (nat option \<times> send_state) outcome)"
    unfolding Open_def 1 prod.case Let_def 2 by (auto simp: and_then_Inr_iff)
  show ?thesis
  proof (cases pos)
    case None
    with op have "ch = chunkAt s2 d"
      by (auto simp: chunk_Open_def and_then_Inr_iff split: if_splits)
    with s' None s2 show ?thesis by auto
  next
    case (Some p)
    with op assms(4) have p: "\<not> isOpened (chunkAt s2 d)" "\<not> FreeSize (chunkAt s2 d) < n"
        "p = usedSize (chunkAt s2 d)" "ch = (chunkAt s2 d)\<lparr>isOpened := True\<rparr>"
      by (auto simp: chunk_Open_def and_then_Inr_iff assert_crash_Inr_iff split: if_splits)
    from new_buffer_ok [OF s2 p(1) FreeSize_fits [OF range_okD(1) [OF s2(2)] p(2)]] s' Some p show ?thesis
      by auto
  qed
qed

lemma set_map_update:
  "distinct (map fst xs) \<Longrightarrow> (i, a) \<in> set xs \<Longrightarrow>
   (j, y) \<in> set (map (\<lambda>(j, x). if j = i then (j, f x) else (j, x)) xs) \<longleftrightarrow>
     (if j = i then y = f a else (j, y) \<in> set xs)"
proof -
  assume d: "distinct (map fst xs)" and m: "(i, a) \<in> set xs"
  have "(j, y) \<in> set (map (\<lambda>(j, x). if j = i then (j, f x) else (j, x)) xs) \<longleftrightarrow>
      (\<exists>x. (j, x) \<in> set xs \<and> y = (if j = i then f x else x))"
    by (induction xs) (auto split: if_splits)
  also have "\<dots> \<longleftrightarrow> (if j = i then y = f a else (j, y) \<in> set xs)"
  proof (cases "j = i")
    case True
    have "(i, x) \<in> set xs \<longleftrightarrow> x = a" for x
      using eq_key_imp_eq_value [OF d _ m] m by blast
    with True show ?thesis by simp
  qed simp
  finally show ?thesis .
qed

lemma Close_ok:
  assumes ok: "owner_ok s" and r: "range_ok s opn" and i: "i \<in> opn" and cl: "Close b i n s = Inr s'" and "b = DebugBuild"
  shows "owner_ok s' \<and> range_ok s' (opn - {i})"
proof -
  from cl obtain sb where sb: "map_of (sendBuffers s) i = Some sb" and n: "\<not> allocSize sb < n"
    and s': "s' = s\<lparr>sendBuffers := map (\<lambda>(j, x). if j = i then (j, x\<lparr>writeSize := n\<rparr>) else (j, x)) (sendBuffers s),
      chunkAt := (chunkAt s)(ownerChunk sb := (chunkAt s (ownerChunk sb))\<lparr>isOpened := False,
        usedSize := usedSize (chunkAt s (ownerChunk sb)) + n\<rparr>)\<rparr>"
    using assms(5) by (auto simp: Close_def chunk_Close_def and_then_Inr_iff assert_crash_Inr_iff split: option.splits)
  let ?c = "ownerChunk sb" and ?f = "\<lambda>(j, x). if j = i then (j, x\<lparr>writeSize := n\<rparr>) else (j, x :: send_buffer)"
  have mem: "(i, sb) \<in> set (sendBuffers s)"
    by (rule map_of_SomeD [OF sb])
  have ids: "map fst (map ?f (sendBuffers s)) = map fst (sendBuffers s)"
    "map (\<lambda>p. ownerChunk (snd p)) (map ?f (sendBuffers s)) = map (\<lambda>p. ownerChunk (snd p)) (sendBuffers s)"
    by auto
  have "referenced s' = referenced s"
    unfolding referenced_def s' fun_eq_iff by (simp add: ids(2) del: map_map set_map)
  then have "owner_ok s'"
    using ok ids(1) unfolding owner_ok_def by (simp add: s' image_set del: map_map set_map)
  have opn: "usedSize (chunkAt s ?c) = position sb" "unat (position sb) + unat (allocSize sb) \<le> 0x2000"
    using range_okD(2) [OF r mem i] by auto
  have "unat n \<le> unat (allocSize sb)"
    using n by (simp add: not_less word_le_nat_alt)
  with opn(2) have fit: "unat (position sb) + unat n \<le> 0x2000" by simp
  then have sum: "unat (position sb + n) = unat (position sb) + unat n"
    by (intro unat_add_lem [THEN iffD1]) simp
  have uniq: "x = sb" if "(i, x) \<in> set (sendBuffers s)" for x
    using that sb ok by (simp add: owner_ok_def map_of_is_SomeI)
  have set': "(j, y) \<in> set (sendBuffers s') \<longleftrightarrow>
      (if j = i then y = sb\<lparr>writeSize := n\<rparr> else (j, y) \<in> set (sendBuffers s))" for j y
    using set_map_update [OF _ mem, of j y "\<lambda>x. x\<lparr>writeSize := n\<rparr>"] ok by (simp add: s' owner_ok_def)
  have noopen: "ownerChunk x \<noteq> ?c" if "(j, x) \<in> set (sendBuffers s)" "j \<in> opn" "j \<noteq> i" for j x
    using range_okD(4) [OF r mem that(1) that(3) [symmetric] _ i] that(2) by auto
  have ch: "chunkAt s' c = (if c = ?c then \<lparr>isOpened = False, usedSize = position sb + n\<rparr> else chunkAt s c)" for c
    using opn(1) by (simp add: s')
  have "range_ok s' (opn - {i})"
  proof (rule range_okI)
    show "unat (usedSize (chunkAt s' c)) \<le> 0x2000" for c
      using range_okD(1) [OF r] fit sum by (simp add: ch)
    show "isOpened (chunkAt s' (ownerChunk x)) \<and> usedSize (chunkAt s' (ownerChunk x)) = position x \<and>
        unat (position x) + unat (allocSize x) \<le> 0x2000"
      if "(j, x) \<in> set (sendBuffers s')" "j \<in> opn - {i}" for j x
      using that noopen [of j x] range_okD(2) [OF r, of j x] by (auto simp: set' ch)
    show "unat (position x) + unat (writeSize x) \<le> unat (usedSize (chunkAt s' (ownerChunk x)))"
      if "(j, x) \<in> set (sendBuffers s')" "j \<notin> opn - {i}" for j x
    proof (cases "j = i")
      case True
      with that sum show ?thesis by (simp add: set' ch)
    next
      case False
      with that have "unat (position x) + unat (writeSize x) \<le> unat (usedSize (chunkAt s (ownerChunk x)))"
        by (intro range_okD(3) [OF r]) (simp_all add: set')
      with sum opn(1) show ?thesis by (auto simp: ch)
    qed
    show "k \<notin> opn - {i}"
      if "(j, x) \<in> set (sendBuffers s')" "(k, y) \<in> set (sendBuffers s')" "j \<noteq> k"
        "ownerChunk x = ownerChunk y" "j \<in> opn - {i}" for j x k y
      using that range_okD(4) [OF r, of j x k y] by (auto simp: set' split: if_splits)
    show "unat (position x) + unat (writeSize x) \<le> unat (position y) \<or>
        unat (position y) + unat (writeSize y) \<le> unat (position x)"
      if "(j, x) \<in> set (sendBuffers s')" "(k, y) \<in> set (sendBuffers s')" "j \<noteq> k"
        "ownerChunk x = ownerChunk y" "j \<notin> opn - {i}" "k \<notin> opn - {i}" for j x k y
      using that range_okD(5) [OF r, of j x k y] range_okD(3) [OF r, of j x] range_okD(3) [OF r, of k y] opn(1)
      by (auto simp: set' split: if_splits)
  qed
  with \<open>owner_ok s'\<close> show ?thesis ..
qed

lemma range_ok_without:
  assumes r: "range_ok s opn" and c: "chunkAt s' = chunkAt s"
    and m: "\<And>j x. (j, x) \<in> set (sendBuffers s') \<Longrightarrow> (j, x) \<in> set (sendBuffers s) \<and> j \<noteq> i"
  shows "range_ok s' (opn - {i})"
proof (rule range_okI)
  show "unat (usedSize (chunkAt s' d)) \<le> 0x2000" for d
    unfolding c by (rule range_okD(1) [OF r])
  show "isOpened (chunkAt s' (ownerChunk x)) \<and> usedSize (chunkAt s' (ownerChunk x)) = position x \<and>
      unat (position x) + unat (allocSize x) \<le> 0x2000" if "(j, x) \<in> set (sendBuffers s')" "j \<in> opn - {i}" for j x
    unfolding c using range_okD(2) [OF r] m that by blast
  show "unat (position x) + unat (writeSize x) \<le> unat (usedSize (chunkAt s' (ownerChunk x)))"
    if "(j, x) \<in> set (sendBuffers s')" "j \<notin> opn - {i}" for j x
    unfolding c using range_okD(3) [OF r] m that by blast
  show "k \<notin> opn - {i}"
    if "(j, x) \<in> set (sendBuffers s')" "(k, y) \<in> set (sendBuffers s')" "j \<noteq> k"
      "ownerChunk x = ownerChunk y" "j \<in> opn - {i}" for j x k y
    using range_okD(4) [OF r, of j x k y] m that by blast
  show "unat (position x) + unat (writeSize x) \<le> unat (position y) \<or>
      unat (position y) + unat (writeSize y) \<le> unat (position x)"
    if "(j, x) \<in> set (sendBuffers s')" "(k, y) \<in> set (sendBuffers s')" "j \<noteq> k"
      "ownerChunk x = ownerChunk y" "j \<notin> opn - {i}" "k \<notin> opn - {i}" for j x k y
    using range_okD(5) [OF r, of j x k y] m that by blast
qed

lemma release_ok:
  assumes ok: "owner_ok s" and r: "range_ok s opn"
  shows "owner_ok (release_buffer i s) \<and> range_ok (release_buffer i s) (opn - {i})"
proof (cases "map_of (sendBuffers s) i")
  case None
  then have "j \<noteq> i" if "(j, x) \<in> set (sendBuffers s)" for j x
    using that by (force simp: map_of_eq_None_iff)
  then have "range_ok s (opn - {i})"
    by (intro range_ok_without [OF r]) simp_all
  with None ok show ?thesis
    by (simp add: release_buffer_def)
next
  case (Some x)
  let ?s = "s\<lparr>sendBuffers := filter (\<lambda>p. fst p \<noteq> i) (sendBuffers s)\<rparr>"
  have ref: "referenced ?s c \<Longrightarrow> referenced s c" for c
    by (auto simp: referenced_def)
  have "distinct (map fst (sendBuffers ?s))"
    using ok by (simp add: owner_ok_def distinct_map_filter)
  then have ok2: "owner_ok ?s"
    using ok unfolding owner_ok_def by (auto dest!: ref)
  have "referenced s (ownerChunk x)"
    using map_of_SomeD [OF Some] by (auto simp: referenced_iff)
  then have "ownerChunk x < nextChunk s" "ownerChunk x \<notin> set (sendBufferChunkPool s)"
    using ok by (auto simp: owner_ok_def)
  then have "owner_ok (PushGlobal (ownerChunk x) ?s)"
    using PushGlobal_ok [OF ok2] by simp
  moreover have "range_ok ?s (opn - {i})"
    by (rule range_ok_without [OF r]) auto
  then have "range_ok (PushGlobal (ownerChunk x) ?s) (opn - {i})"
    by (rule range_ok_cong [THEN iffD2, rotated 2]) simp_all
  ultimately show ?thesis
    using Some by (simp add: release_buffer_def)
qed

lemma send_run_ok: "send_run DebugBuild s opn \<Longrightarrow> owner_ok s \<and> range_ok s opn"
proof (induction rule: send_run.induct)
  case start
  show ?case
    by (simp add: owner_ok_def range_ok_def new_send_state_def referenced_def new_chunk_def)
next
  case (opened s opn t n i s')
  from Open_cases [OF _ _ opened.hyps(2) refl, of opn] opened.IH show ?case by simp
next
  case (refused s opn t n s')
  from Open_cases [OF _ _ refused.hyps(2) refl, of opn] refused.IH show ?case by simp
next
  case (closed s opn i n s')
  with Close_ok [OF _ _ closed.hyps(2,3) refl] show ?case by blast
next
  case (released s opn i)
  with release_ok show ?case by blast
qed

section \<open>Properties\<close>


text \<open>A chunk in the pool belongs to no thread and to no live send buffer, and no two threads
  work on the same chunk.\<close>

theorem pooled_chunks_free:
  assumes "send_run DebugBuild s opn"
  shows "set (sendBufferChunkPool s) \<inter> {c. referenced s c} = {} \<and>
    inj_on (map_of (tls_SendBufferChunk s)) (dom (map_of (tls_SendBufferChunk s)))"
proof -
  have ok: "owner_ok s"
    using send_run_ok [OF assms] ..
  have "t = u" if "map_of (tls_SendBufferChunk s) t = Some c" "map_of (tls_SendBufferChunk s) u = Some c" for t u c
  proof -
    have "(t, c) \<in> set (tls_SendBufferChunk s)" "(u, c) \<in> set (tls_SendBufferChunk s)"
      using that by (auto dest: map_of_SomeD)
    moreover have "inj_on snd (set (tls_SendBufferChunk s))"
      using ok by (simp add: owner_ok_def distinct_map)
    ultimately show ?thesis
      using inj_onD [of snd _ "(t, c)" "(u, c)"] by simp
  qed
  then have "inj_on (map_of (tls_SendBufferChunk s)) (dom (map_of (tls_SendBufferChunk s)))"
    by (auto simp: inj_on_def)
  moreover have "set (sendBufferChunkPool s) \<inter> {c. referenced s c} = {}"
    using ok by (auto simp: owner_ok_def)
  ultimately show ?thesis by (rule conjI [rotated])
qed

text \<open>When the calling thread has no open buffer, a debug build's \<open>Open\<close> of at least one byte
  succeeds exactly when the size fits a chunk; a larger size stops the process.\<close>

theorem Open_succeeds_iff:
  assumes "send_run DebugBuild s opn" and "0 < n"
    and "map_of (tls_SendBufferChunk s) t = None \<or> \<not> isOpened (chunkAt s (the (map_of (tls_SendBufferChunk s) t)))"
  shows "if n \<le> 0x2000 then \<exists>i s'. Open DebugBuild t n s = Inr (Some i, s')
    else Open DebugBuild t n s = Inl (AssertCrash ''_allocSize is larger than SEND_BUFFER_CHUNK_SIZE'')"
proof -
  have ok: "owner_ok s" "range_ok s opn"
    using send_run_ok [OF assms(1)] by auto
  obtain c s1 where 1: "(case map_of (tls_SendBufferChunk s) t of None \<Rightarrow> renew_chunk t s | Some c \<Rightarrow> (c, s)) = (c, s1)"
    by fastforce
  obtain d s2 where 2: "(if FreeSize (chunkAt s1 c) < n then renew_chunk t s1 else (c, s1)) = (d, s2)"
    by fastforce
  have c: "\<not> isOpened (chunkAt s1 c)"
    using 1 assms(3) renew_chunk_ok(4) [OF ok, of t c s1] by (cases "map_of (tls_SendBufferChunk s) t") auto
  then have d: "range_ok s2 opn" "\<not> isOpened (chunkAt s2 d)" "n \<le> 0x2000 \<longrightarrow> \<not> FreeSize (chunkAt s2 d) < n"
    using open_chunk_ok [OF ok, where t = t and n = n] unfolding 1 prod.case 2 SEND_BUFFER_CHUNK_SIZE_def by auto
  have o: "Open DebugBuild t n s =
      and_then (chunk_Open DebugBuild n (chunkAt s2 d)) (\<lambda>(pos, ch).
        case pos of None \<Rightarrow> Inr (None, s2\<lparr>chunkAt := (chunkAt s2)(d := ch)\<rparr>)
        | Some p \<Rightarrow> Inr (Some (nextBuffer s2), s2\<lparr>chunkAt := (chunkAt s2)(d := ch),
            nextBuffer := nextBuffer s2 + 1,
            sendBuffers := (nextBuffer s2, \<lparr>ownerChunk = d, position = p, allocSize = n, writeSize = 0\<rparr>) # sendBuffers s2\<rparr>))"
    unfolding Open_def 1 prod.case Let_def 2 using c by simp
  show ?thesis
  proof (cases "n \<le> 0x2000")
    case True
    with d(3) have f: "\<not> FreeSize (chunkAt s2 d) < n" by simp
    have "unat (usedSize (chunkAt s2 d)) + unat n \<le> 0x2000"
      by (rule FreeSize_fits [OF range_okD(1) [OF d(1)] f])
    moreover have "0 < unat n"
      using assms(2) by (simp add: word_less_nat_alt)
    ultimately have "\<not> SEND_BUFFER_CHUNK_SIZE \<le> usedSize (chunkAt s2 d)"
      by (simp add: SEND_BUFFER_CHUNK_SIZE_def word_le_nat_alt)
    with True f d(2) have "chunk_Open DebugBuild n (chunkAt s2 d) =
        Inr (Some (usedSize (chunkAt s2 d)), (chunkAt s2 d)\<lparr>isOpened := True\<rparr>)"
      by (simp add: chunk_Open_def SEND_BUFFER_CHUNK_SIZE_def not_less [symmetric])
    with True show ?thesis by (simp add: o)
  next
    case False
    then have "chunk_Open DebugBuild n (chunkAt s2 d) =
        Inl (AssertCrash ''_allocSize is larger than SEND_BUFFER_CHUNK_SIZE'')"
      by (simp add: chunk_Open_def SEND_BUFFER_CHUNK_SIZE_def not_le)
    with False show ?thesis by (simp add: o)
  qed
qed

section \<open>A run\<close>

datatype send_op = OpenOp nat u32 | CloseOp nat u32 | ReleaseOp nat

fun send_step :: "build \<Rightarrow> send_op \<Rightarrow> send_state \<times> nat list \<Rightarrow> (send_state \<times> nat list) outcome" where
  "send_step b (OpenOp t n) (s, opn) =
     and_then (Open b t n s) (\<lambda>(r, s'). Inr (s', case r of None \<Rightarrow> opn | Some i \<Rightarrow> i # opn))"
| "send_step b (CloseOp i n) (s, opn) =
     (if i \<in> set opn then and_then (Close b i n s) (\<lambda>s'. Inr (s', filter (\<lambda>j. j \<noteq> i) opn))
      else Inl (Undefined ''closed twice''))"
| "send_step b (ReleaseOp i) (s, opn) = Inr (release_buffer i s, filter (\<lambda>j. j \<noteq> i) opn)"

fun send_play :: "build \<Rightarrow> send_op list \<Rightarrow> send_state \<times> nat list \<Rightarrow> (send_state \<times> nat list) outcome" where
  "send_play b [] X = Inr X"
| "send_play b (x # xs) X = and_then (send_step b x X) (send_play b xs)"

lemma set_filter_neq: "set (filter (\<lambda>j. j \<noteq> i) xs) = set xs - {i}"
  by auto

lemma send_step_run:
  "send_run b s (set opn) \<Longrightarrow> send_step b x (s, opn) = Inr (s', opn') \<Longrightarrow> send_run b s' (set opn')"
proof (cases x)
  case (OpenOp t n)
  assume run: "send_run b s (set opn)" and st: "send_step b x (s, opn) = Inr (s', opn')"
  then obtain r where o: "Open b t n s = Inr (r, s')" and "opn' = (case r of None \<Rightarrow> opn | Some i \<Rightarrow> i # opn)"
    using OpenOp by (auto simp: and_then_Inr_iff)
  then show ?thesis
    using send_run.opened [OF run] send_run.refused [OF run] by (cases r) auto
next
  case (CloseOp i n)
  assume run: "send_run b s (set opn)" and st: "send_step b x (s, opn) = Inr (s', opn')"
  then have "i \<in> set opn" "Close b i n s = Inr s'" "opn' = filter (\<lambda>j. j \<noteq> i) opn"
    using CloseOp by (auto simp: and_then_Inr_iff split: if_splits)
  with send_run.closed [OF run] show ?thesis
    by (simp only: set_filter_neq)
next
  case (ReleaseOp i)
  assume run: "send_run b s (set opn)" and st: "send_step b x (s, opn) = Inr (s', opn')"
  then have "s' = release_buffer i s" "opn' = filter (\<lambda>j. j \<noteq> i) opn"
    using ReleaseOp by auto
  with send_run.released [OF run] show ?thesis
    by (simp only: set_filter_neq)
qed

lemma send_play_run:
  "send_run b s (set opn) \<Longrightarrow> send_play b xs (s, opn) = Inr (s', opn') \<Longrightarrow> send_run b s' (set opn')"
proof (induction xs arbitrary: s opn)
  case (Cons x xs)
  from Cons.prems(2) obtain s1 opn1 where "send_step b x (s, opn) = Inr (s1, opn1)"
    and "send_play b xs (s1, opn1) = Inr (s', opn')"
    by (auto simp: and_then_Inr_iff)
  with Cons send_step_run show ?case by blast
qed simp

text \<open>Two buffers on the first chunk, the second still open; thread 2 gave its chunk up for a new
  one, and it is in the pool.\<close>

abbreviation demo_ops :: "send_op list" where
  "demo_ops \<equiv> [OpenOp 1 100, CloseOp 0 60, OpenOp 1 200, OpenOp 2 8000, CloseOp 2 8000, ReleaseOp 2, OpenOp 2 500]"

lemma demo_state:
  "case send_play DebugBuild demo_ops (new_send_state, []) of Inl e \<Rightarrow> False
   | Inr (s, opn) \<Rightarrow> opn = [3, 1] \<and> map fst (sendBuffers s) = [3, 1, 0] \<and>
       map_of (sendBuffers s) 0 = Some \<lparr>ownerChunk = 0, position = 0, allocSize = 100, writeSize = 60\<rparr> \<and>
       map_of (sendBuffers s) 1 = Some \<lparr>ownerChunk = 0, position = 60, allocSize = 200, writeSize = 0\<rparr> \<and>
       sendBufferChunkPool s = [1] \<and> map_of (tls_SendBufferChunk s) 7 = None"
  by code_simp

lemma demo_obtain:
  obtains s where "send_run DebugBuild s {3, 1}"
    and "send_play DebugBuild demo_ops (new_send_state, []) = Inr (s, [3, 1])"
    and "map_of (sendBuffers s) 0 = Some \<lparr>ownerChunk = 0, position = 0, allocSize = 100, writeSize = 60\<rparr>"
    and "map_of (sendBuffers s) 1 = Some \<lparr>ownerChunk = 0, position = 60, allocSize = 200, writeSize = 0\<rparr>"
    and "sendBufferChunkPool s = [1]" and "map_of (tls_SendBufferChunk s) 7 = None"
proof -
  obtain s where p: "send_play DebugBuild demo_ops (new_send_state, []) = Inr (s, [3, 1])"
    and rest: "map_of (sendBuffers s) 0 = Some \<lparr>ownerChunk = 0, position = 0, allocSize = 100, writeSize = 60\<rparr>"
      "map_of (sendBuffers s) 1 = Some \<lparr>ownerChunk = 0, position = 60, allocSize = 200, writeSize = 0\<rparr>"
      "sendBufferChunkPool s = [1]" "map_of (tls_SendBufferChunk s) 7 = None"
    using demo_state by (auto split: sum.splits prod.splits)
  have "send_run DebugBuild s (set [3, 1])"
    by (rule send_play_run [OF _ p]) (simp add: send_run.start)
  with p rest that show ?thesis by simp
qed


theorem pooled_chunks_free_witness:
  "\<exists>s. send_play DebugBuild demo_ops (new_send_state, []) = Inr (s, [3, 1]) \<and>
     sendBufferChunkPool s = [1] \<and> \<not> referenced s 1"
proof -
  obtain s where run: "send_run DebugBuild s {3, 1}"
    and p: "send_play DebugBuild demo_ops (new_send_state, []) = Inr (s, [3, 1])" "sendBufferChunkPool s = [1]"
    by (rule demo_obtain) blast
  from pooled_chunks_free [OF run] p show ?thesis by auto
qed

theorem Open_succeeds_iff_witness:
  "\<exists>s i s'. send_play DebugBuild demo_ops (new_send_state, []) = Inr (s, [3, 1]) \<and>
     Open DebugBuild 7 8192 s = Inr (Some i, s')"
proof -
  obtain s where run: "send_run DebugBuild s {3, 1}"
    and p: "send_play DebugBuild demo_ops (new_send_state, []) = Inr (s, [3, 1])"
      "map_of (tls_SendBufferChunk s) 7 = None"
    by (rule demo_obtain) blast
  from Open_succeeds_iff [OF run, of 8192 7] p show ?thesis by auto
qed

end
