(* ===== verification/Lock_Queue.thy ===== *)
theory Lock_Queue
  imports Core_Prelude
begin

text \<open>
  ServerCore/LockQueue.h and the GlobalQueue built on it (GlobalQueue.h, GlobalQueue.cpp), with
  ServerCore_Module/LockQueue.ixx. Every operation holds the queue's lock from beginning to end and
  is one step; \<open>Peek\<close> takes no lock. The items are shared pointers, null as \<open>None\<close>.
\<close>

section \<open>First in, first out\<close>

text \<open>What the users of a queue rely on.\<close>

locale fifo_queue =
  fixes push :: "'a \<Rightarrow> 'q \<Rightarrow> 'q"
    and pop :: "'q \<Rightarrow> 'a option \<times> 'q"
    and contents :: "'q \<Rightarrow> 'a list"
  assumes push_contents: "contents (push x q) = contents q @ [x]"
    and pop_empty: "contents q = [] \<Longrightarrow> pop q = (None, q)"
    and pop_first: "contents q = x # xs \<Longrightarrow> fst (pop q) = Some x"
    and pop_rest: "contents q = x # xs \<Longrightarrow> contents (snd (pop q)) = xs"
begin

lemma pushes_contents: "contents (fold push xs q) = contents q @ xs"
  by (induction xs arbitrary: q) (auto simp: push_contents)

fun pops :: "nat \<Rightarrow> 'q \<Rightarrow> 'a option list" where
  "pops 0 q = []"
| "pops (Suc n) q = fst (pop q) # pops n (snd (pop q))"

lemma pops_contents:
  "pops n q = map Some (take n (contents q)) @ replicate (n - length (contents q)) None"
proof (induction n arbitrary: q)
  case (Suc n)
  show ?case
  proof (cases "contents q")
    case Nil
    then show ?thesis
      using Suc.IH [of q] pop_empty [OF Nil] by simp
  next
    case (Cons x xs)
    then show ?thesis
      using Suc.IH [of "snd (pop q)"] pop_first [OF Cons] pop_rest [OF Cons] by simp
  qed
qed simp

end

section \<open>LockQueue\<close>

record 'a lock_queue =
  items :: "'a option list"

definition new_lock_queue :: "'a lock_queue" where
  "new_lock_queue = \<lparr>items = []\<rparr>"

definition Push :: "'a option \<Rightarrow> 'a lock_queue \<Rightarrow> 'a lock_queue" where
  "Push item q = q\<lparr>items := items q @ [item]\<rparr>"

text \<open>\<open>Type()\<close>, a null pointer, when the queue is empty.\<close>

definition Pop :: "'a lock_queue \<Rightarrow> 'a option \<times> 'a lock_queue" where
  "Pop q = (case items q of [] \<Rightarrow> (None, q) | ret # rest \<Rightarrow> (ret, q\<lparr>items := rest\<rparr>))"

text \<open>\<open>while (Type item = Pop()) _items.push_back(item)\<close>: it ends at a null item as well.\<close>

function PopAll :: "'a list \<Rightarrow> 'a lock_queue \<Rightarrow> 'a list \<times> 'a lock_queue" where
  "PopAll acc q = (case Pop q of (None, q') \<Rightarrow> (acc, q') | (Some item, q') \<Rightarrow> PopAll (acc @ [item]) q')"
  by pat_completeness auto

termination
  by (relation "measure (\<lambda>(acc, q). length (items q))") (auto simp: Pop_def split: list.splits)

declare PopAll.simps [simp del]

text \<open>\<open>items.front()\<close> of an empty queue has no defined behaviour.\<close>

definition Peek :: "'a lock_queue \<Rightarrow> 'a option outcome" where
  "Peek q = (case items q of [] \<Rightarrow> Inl (Undefined ''front of an empty queue'') | item # _ \<Rightarrow> Inr item)"

definition Clear :: "'a lock_queue \<Rightarrow> 'a lock_queue" where
  "Clear q = q\<lparr>items := []\<rparr>"

text \<open>GlobalQueue, a LockQueue of JobQueues.\<close>

record 'a global_queue =
  jobQueue :: "'a lock_queue"

definition GlobalQueue :: "'a global_queue" where
  "GlobalQueue = \<lparr>jobQueue = new_lock_queue\<rparr>"

definition GlobalQueue_Push :: "'a option \<Rightarrow> 'a global_queue \<Rightarrow> 'a global_queue" where
  "GlobalQueue_Push jq g = g\<lparr>jobQueue := Push jq (jobQueue g)\<rparr>"

definition GlobalQueue_Pop :: "'a global_queue \<Rightarrow> 'a option \<times> 'a global_queue" where
  "GlobalQueue_Pop g = (let (ret, q) = Pop (jobQueue g) in (ret, g\<lparr>jobQueue := q\<rparr>))"

section \<open>Their contract\<close>

text \<open>The queue of pointers, null included, hands them out in order; popping from the empty queue
  gives null.\<close>

interpretation lock_queue: fifo_queue Push "\<lambda>q. (if items q = [] then None else Some (fst (Pop q)), snd (Pop q))" items
  by unfold_locales (auto simp: Push_def Pop_def split: list.splits)

interpretation global_queue: fifo_queue GlobalQueue_Push
  "\<lambda>g. (if items (jobQueue g) = [] then None else Some (fst (GlobalQueue_Pop g)), snd (GlobalQueue_Pop g))"
  "\<lambda>g. items (jobQueue g)"
  by unfold_locales (auto simp: GlobalQueue_Push_def GlobalQueue_Pop_def Push_def Pop_def split: list.splits)

lemma PopAll_items:
  "PopAll acc q = (acc @ map the (takeWhile (\<lambda>x. x \<noteq> None) (items q)),
     q\<lparr>items := drop (Suc (length (takeWhile (\<lambda>x. x \<noteq> None) (items q)))) (items q)\<rparr>)"
proof (induction acc q rule: PopAll.induct)
  case (1 acc q)
  show ?case
  proof (cases "items q")
    case Nil
    then show ?thesis
      by (subst PopAll.simps) (simp add: Pop_def)
  next
    case (Cons x xs)
    show ?thesis
    proof (cases x)
      case None
      with Cons show ?thesis
        by (subst PopAll.simps) (simp add: Pop_def)
    next
      case (Some a)
      with Cons 1 [of "Some a" "q\<lparr>items := xs\<rparr>" a] show ?thesis
        by (subst PopAll.simps) (simp add: Pop_def)
    qed
  qed
qed

text \<open>\<open>PopAll\<close> takes what the queue holds in order of insertion up to the first null pointer,
  and removes that null pointer too; without null pointers it takes everything and leaves the
  queue empty.\<close>

theorem PopAll_takes:
  "PopAll acc q = (acc @ map the (takeWhile (\<lambda>x. x \<noteq> None) (items q)),
     q\<lparr>items := drop (Suc (length (takeWhile (\<lambda>x. x \<noteq> None) (items q)))) (items q)\<rparr>) \<and>
   PopAll acc (fold Push (map Some xs) new_lock_queue) = (acc @ xs, new_lock_queue)"
proof -
  have "items (fold Push (map Some xs) new_lock_queue) = map Some xs"
    using lock_queue.pushes_contents [of "map Some xs" new_lock_queue] by (simp add: new_lock_queue_def)
  then have q: "fold Push (map Some xs) new_lock_queue = \<lparr>items = map Some xs\<rparr>"
    by (metis (full_types) lock_queue.surjective old.unit.exhaust)
  have t: "takeWhile (\<lambda>x. x \<noteq> None) (map Some xs) = map Some xs"
    by (induction xs) auto
  have "PopAll acc (fold Push (map Some xs) new_lock_queue) = (acc @ xs, new_lock_queue)"
    unfolding PopAll_items q lock_queue.select_convs t by (simp add: new_lock_queue_def comp_def)
  with PopAll_items show ?thesis by blast
qed

text \<open>The global queue returns the job queues in the order they were pushed in, and null once
  it is empty.\<close>

theorem GlobalQueue_fifo:
  "fst (GlobalQueue_Pop (fold GlobalQueue_Push qs GlobalQueue)) = (case qs of [] \<Rightarrow> None | q # _ \<Rightarrow> q) \<and>
   snd (GlobalQueue_Pop (fold GlobalQueue_Push qs GlobalQueue)) = fold GlobalQueue_Push (tl qs) GlobalQueue"
proof -
  have "items (jobQueue (fold GlobalQueue_Push qs GlobalQueue)) = qs" for qs
    using global_queue.pushes_contents [of qs GlobalQueue] by (simp add: GlobalQueue_def new_lock_queue_def)
  then have q: "fold GlobalQueue_Push qs GlobalQueue = \<lparr>jobQueue = \<lparr>items = qs\<rparr>\<rparr>" for qs
    by (metis (full_types) global_queue.surjective lock_queue.surjective old.unit.exhaust)
  show ?thesis
    unfolding q by (cases qs) (simp_all add: GlobalQueue_Pop_def Pop_def)
qed

end
