(* ===== verification/Job_Queue.thy ===== *)
theory Job_Queue
  imports Lock_Queue "HOL-Library.Sublist"
begin

text \<open>
  ServerCore/JobQueue.h, JobQueue.cpp and Job.h with the worker loop of ThreadManager.cpp: any
  number of job queues and threads. Every thread has a stack of running calls; each atomic access
  to shared data (the counter, a queue under its lock, the global queue, the thread-local pointer
  and the clock) is a step of its own, and threads interleave in any order. A job's body may make
  any calls, \<open>DoAsync\<close> included. Jobs and job queues are numbered; the \<open>int32\<close> counter is an
  integer, so fewer than 2^31 jobs are pending at a time.
\<close>

section \<open>State\<close>

type_synonym job = nat
type_synonym qid = nat

text \<open>Where a call has got to. \<open>PushStart\<close> to \<open>PushDecide\<close>: \<open>Push\<close> before \<open>fetch_add\<close>, before
  \<open>jobs.Push\<close> and before its test of \<open>prevCount\<close>. \<open>ExecPop\<close> to \<open>ExecTick\<close>: \<open>Execute\<close> at the head of
  its loop, with jobs of the batch still to run, before \<open>fetch_sub\<close> and before the clock. \<open>Work\<close>:
  the head of the loop of \<open>DoGlobalQueueWork\<close>.\<close>

datatype frame =
    PushStart qid job bool
  | PushJob qid job bool int
  | PushDecide qid bool int
  | ExecPop qid
  | ExecRun qid "job list" int
  | ExecSub qid int
  | ExecTick qid
  | Work

record thread =
  calls :: "frame list"
  tls_CurrentJobQueue :: "qid option"
  tls_EndTickCount :: u64

text \<open>\<open>pushed\<close> and \<open>executed\<close> record, per queue, the order jobs entered it and were run in.\<close>

record system =
  threads :: "thread list"
  jobs :: "qid \<Rightarrow> job list"
  jobCount :: "qid \<Rightarrow> int"
  globalQueue :: "qid list"
  pushed :: "qid \<Rightarrow> job list"
  executed :: "qid \<Rightarrow> job list"

section \<open>Steps\<close>

text \<open>\<open>DoAsync\<close> and the timer both call \<open>Push\<close>.\<close>

datatype event =
    CallPush qid job bool
  | CallWork
  | Advance u64

text \<open>A thread may make a call when it runs no call or when a job's body is running.\<close>

definition can_call :: "frame list \<Rightarrow> bool" where
  "can_call fs = (case fs of [] \<Rightarrow> True | ExecRun q (j # rest) n # _ \<Rightarrow> True | _ \<Rightarrow> False)"

text \<open>One step of the top call of a thread; \<open>now\<close> is what the clock shows.\<close>

fun advance :: "u64 \<Rightarrow> thread \<Rightarrow> system \<Rightarrow> (thread \<times> system) option" where
  "advance now th s = (case calls th of
     [] \<Rightarrow> None
   | PushStart q job pushOnly # fs \<Rightarrow>
       Some (th\<lparr>calls := PushJob q job pushOnly (jobCount s q) # fs\<rparr>,
         s\<lparr>jobCount := (jobCount s)(q := jobCount s q + 1)\<rparr>)
   | PushJob q job pushOnly prevCount # fs \<Rightarrow>
       Some (th\<lparr>calls := PushDecide q pushOnly prevCount # fs\<rparr>,
         s\<lparr>jobs := (jobs s)(q := jobs s q @ [job]), pushed := (pushed s)(q := pushed s q @ [job])\<rparr>)
   | PushDecide q pushOnly prevCount # fs \<Rightarrow>
       (if prevCount = 0 then
          if tls_CurrentJobQueue th = None \<and> \<not> pushOnly
          then Some (th\<lparr>calls := ExecPop q # fs, tls_CurrentJobQueue := Some q\<rparr>, s)
          else Some (th\<lparr>calls := fs\<rparr>, s\<lparr>globalQueue := globalQueue s @ [q]\<rparr>)
        else Some (th\<lparr>calls := fs\<rparr>, s))
   | ExecPop q # fs \<Rightarrow>
       Some (th\<lparr>calls := ExecRun q (jobs s q) (int (length (jobs s q))) # fs\<rparr>,
         s\<lparr>jobs := (jobs s)(q := [])\<rparr>)
   | ExecRun q (j # rest) tempJobCount # fs \<Rightarrow>
       Some (th\<lparr>calls := ExecRun q rest tempJobCount # fs\<rparr>,
         s\<lparr>executed := (executed s)(q := executed s q @ [j])\<rparr>)
   | ExecRun q [] tempJobCount # fs \<Rightarrow>
       Some (th\<lparr>calls := ExecSub q tempJobCount # fs\<rparr>, s)
   | ExecSub q tempJobCount # fs \<Rightarrow>
       (let s' = s\<lparr>jobCount := (jobCount s)(q := jobCount s q - tempJobCount)\<rparr> in
        if jobCount s q = tempJobCount
        then Some (th\<lparr>calls := fs, tls_CurrentJobQueue := None\<rparr>, s')
        else Some (th\<lparr>calls := ExecTick q # fs\<rparr>, s'))
   | ExecTick q # fs \<Rightarrow>
       (if tls_EndTickCount th \<le> now
        then Some (th\<lparr>calls := fs, tls_CurrentJobQueue := None\<rparr>, s\<lparr>globalQueue := globalQueue s @ [q]\<rparr>)
        else Some (th\<lparr>calls := ExecPop q # fs\<rparr>, s))
   | Work # fs \<Rightarrow>
       (if tls_EndTickCount th < now then Some (th\<lparr>calls := fs\<rparr>, s)
        else case globalQueue s of
            [] \<Rightarrow> Some (th\<lparr>calls := fs\<rparr>, s)
          | q # g \<Rightarrow> Some (th\<lparr>calls := ExecPop q # Work # fs, tls_CurrentJobQueue := Some q\<rparr>, s\<lparr>globalQueue := g\<rparr>)))"

declare advance.simps [simp del]

fun thread_step :: "event \<Rightarrow> thread \<Rightarrow> system \<Rightarrow> (thread \<times> system) option" where
  "thread_step (CallPush q job pushOnly) th s =
     (if can_call (calls th) then Some (th\<lparr>calls := PushStart q job pushOnly # calls th\<rparr>, s) else None)"
| "thread_step CallWork th s =
     (if can_call (calls th) then Some (th\<lparr>calls := Work # calls th\<rparr>, s) else None)"
| "thread_step (Advance now) th s = advance now th s"

definition step :: "nat \<Rightarrow> event \<Rightarrow> system \<Rightarrow> system option" where
  "step t e s =
     (if t < length (threads s) then
        (case thread_step e (threads s ! t) s of
           None \<Rightarrow> None
         | Some (th, s') \<Rightarrow> Some (s'\<lparr>threads := (threads s)[t := th]\<rparr>))
      else None)"

definition new_thread :: "u64 \<Rightarrow> thread" where
  "new_thread endTick = \<lparr>calls = [], tls_CurrentJobQueue = None, tls_EndTickCount = endTick\<rparr>"

definition new_system :: "u64 list \<Rightarrow> system" where
  "new_system endTicks = \<lparr>threads = map new_thread endTicks, jobs = (\<lambda>_. []), jobCount = (\<lambda>_. 0),
     globalQueue = [], pushed = (\<lambda>_. []), executed = (\<lambda>_. [])\<rparr>"

inductive reach :: "system \<Rightarrow> bool" where
  start: "reach (new_system endTicks)"
| step: "reach s \<Longrightarrow> step t e s = Some s' \<Longrightarrow> reach s'"

section \<open>Accounting\<close>

text \<open>A call has the token of queue \<open>q\<close> if it is executing it, or pushed it from empty and has not
  decided yet who executes it.\<close>

fun executing :: "qid \<Rightarrow> frame \<Rightarrow> bool" where
  "executing q (ExecPop p) = (p = q)"
| "executing q (ExecRun p js n) = (p = q)"
| "executing q (ExecSub p n) = (p = q)"
| "executing q (ExecTick p) = (p = q)"
| "executing q f = False"

fun token :: "qid \<Rightarrow> frame \<Rightarrow> int" where
  "token q (PushJob p j b prevCount) = (if p = q \<and> prevCount = 0 then 1 else 0)"
| "token q (PushDecide p b prevCount) = (if p = q \<and> prevCount = 0 then 1 else 0)"
| "token q f = (if executing q f then 1 else 0)"

text \<open>Counted in \<open>jobCount\<close> but not in \<open>jobs\<close>: not pushed yet, or taken and not subtracted yet.\<close>

fun outstanding :: "qid \<Rightarrow> frame \<Rightarrow> int" where
  "outstanding q (PushJob p j b c) = (if p = q then 1 else 0)"
| "outstanding q (ExecRun p js n) = (if p = q then n else 0)"
| "outstanding q (ExecSub p n) = (if p = q then n else 0)"
| "outstanding q f = 0"

text \<open>Jobs of a batch that have not been run.\<close>

fun to_run :: "qid \<Rightarrow> frame \<Rightarrow> job list" where
  "to_run q (ExecRun p js n) = (if p = q then js else [])"
| "to_run q f = []"

definition frames :: "system \<Rightarrow> frame list" where
  "frames s = concat (map calls (threads s))"

text \<open>The books of queue \<open>q\<close>, given all running calls, the global queue, the counter, the list of
  jobs and the two logs: the counter counts the jobs in the list, announced or in a batch; there
  is exactly one token while it is not zero and none while it is zero; and no job is lost,
  duplicated or overtaken.\<close>

definition books :: "qid \<Rightarrow> frame list \<Rightarrow> qid list \<Rightarrow> int \<Rightarrow> job list \<Rightarrow> job list \<Rightarrow> job list \<Rightarrow> bool" where
  "books q F g c js pu ex \<longleftrightarrow>
     c = int (length js) + sum_list (map (outstanding q) F) \<and>
     sum_list (map (token q) F) + int (count_list g q) = (if c = 0 then 0 else 1) \<and>
     pu = ex @ concat (map (to_run q) F) @ js \<and>
     (\<forall>f \<in> set F. 0 \<le> outstanding q f \<and> (to_run q f \<noteq> [] \<longrightarrow> executing q f))"

definition accounts :: "qid \<Rightarrow> system \<Rightarrow> bool" where
  "accounts q s \<longleftrightarrow>
     books q (frames s) (globalQueue s) (jobCount s q) (jobs s q) (pushed s q) (executed s q)"

lemma token_nonneg [simp]: "0 \<le> token q f"
  by (cases f) auto

lemma token_executing: "executing q f \<Longrightarrow> token q f = 1"
  by (cases f) auto

lemma sum_token_nonneg [simp]: "0 \<le> sum_list (map (token q) F)"
  by (rule sum_list_nonneg) auto

lemma sum_outstanding_nonneg: "\<forall>f \<in> set F. 0 \<le> outstanding q f \<Longrightarrow> 0 \<le> sum_list (map (outstanding q) F)"
  by (rule sum_list_nonneg) auto

lemma no_token_no_jobs:
  assumes "sum_list (map (token q) F) = 0" and "\<forall>f \<in> set F. to_run q f \<noteq> [] \<longrightarrow> executing q f"
  shows "concat (map (to_run q) F) = []"
proof -
  have "to_run q f = []" if "f \<in> set F" for f
  proof (rule ccontr)
    assume "to_run q f \<noteq> []"
    with assms(2) that have "token q f = 1"
      by (simp add: token_executing)
    moreover have "token q f = 0"
      using assms(1) that by (subst (asm) sum_list_nonneg_eq_0_iff) auto
    ultimately show False by simp
  qed
  then show ?thesis by simp
qed

text \<open>The frame \<open>f\<close> of the calls \<open>A @ f # B\<close> has the token: nobody else has jobs to run.\<close>

lemma books_holder:
  assumes "books q (A @ f # B) g c js pu ex" and "token q f = 1"
  shows "c \<noteq> 0" and "count_list g q = 0" and "sum_list (map (token q) A) = 0" and "sum_list (map (token q) B) = 0"
    and "concat (map (to_run q) A) = []" and "concat (map (to_run q) B) = []"
proof -
  have s: "sum_list (map (token q) A) + 1 + sum_list (map (token q) B) + int (count_list g q) = (if c = 0 then 0 else 1)"
    using assms(1) [unfolded books_def, THEN conjunct2, THEN conjunct1] assms(2) by (simp add: ac_simps)
  have a: "0 \<le> sum_list (map (token q) A)" and b: "0 \<le> sum_list (map (token q) B)"
    by simp_all
  show c: "c \<noteq> 0"
  proof
    assume "c = 0"
    then have "sum_list (map (token q) A) + 1 + sum_list (map (token q) B) + int (count_list g q) = 0"
      using s by (simp only: refl if_True)
    with a b show False by linarith
  qed
  have s1: "sum_list (map (token q) A) + 1 + sum_list (map (token q) B) + int (count_list g q) = 1"
    using s c by (simp only: if_False)
  have all: "\<forall>f \<in> set (A @ f # B). 0 \<le> outstanding q f \<and> (to_run q f \<noteq> [] \<longrightarrow> executing q f)"
    by (rule assms(1) [unfolded books_def, THEN conjunct2, THEN conjunct2, THEN conjunct2])
  show "count_list g q = 0" using s1 a b by linarith
  show A: "sum_list (map (token q) A) = 0" using s1 a b by linarith
  show B: "sum_list (map (token q) B) = 0" using s1 a b by linarith
  show "concat (map (to_run q) A) = []" "concat (map (to_run q) B) = []"
    by (rule no_token_no_jobs [OF A], use all in simp, rule no_token_no_jobs [OF B], use all in simp)
qed

lemma books_nonneg: "books q F g c js pu ex \<Longrightarrow> 0 \<le> c"
  using sum_outstanding_nonneg [of F q] by (simp add: books_def)

text \<open>One lemma per kind of step. First: a call starts, or one that has nothing to do with \<open>q\<close>
  moves on.\<close>

definition neutral :: "qid \<Rightarrow> frame \<Rightarrow> bool" where
  "neutral q f \<longleftrightarrow> token q f = 0 \<and> outstanding q f = 0 \<and> to_run q f = []"

lemma books_neutral:
  "\<forall>f \<in> set gs \<union> set hs. neutral q f \<Longrightarrow> books q (A @ gs @ B) g c js pu ex \<Longrightarrow> books q (A @ hs @ B) g c js pu ex"
proof -
  assume n: "\<forall>f \<in> set gs \<union> set hs. neutral q f" and b: "books q (A @ gs @ B) g c js pu ex"
  have z: "sum_list (map (token q) xs) = 0 \<and> sum_list (map (outstanding q) xs) = 0 \<and> concat (map (to_run q) xs) = []"
    if "\<forall>f \<in> set xs. neutral q f" for xs
    using that by (induction xs) (auto simp: neutral_def)
  have "sum_list (map (token q) gs) = 0" "sum_list (map (outstanding q) gs) = 0" "concat (map (to_run q) gs) = []"
    "sum_list (map (token q) hs) = 0" "sum_list (map (outstanding q) hs) = 0" "concat (map (to_run q) hs) = []"
    using z [of gs] z [of hs] n by auto
  with b n show ?thesis
    by (auto simp: books_def neutral_def)
qed

lemma books_fetch_add:
  assumes "books q (A @ PushStart q j po # B) g c js pu ex"
  shows "books q (A @ PushJob q j po c # B) g (c + 1) js pu ex"
  using assms books_nonneg [OF assms] by (auto simp: books_def)

lemma books_push:
  assumes "books q (A @ PushJob q j po p # B) g c js pu ex"
  shows "books q (A @ PushDecide q po p # B) g c (js @ [j]) (pu @ [j]) ex"
  using assms by (auto simp: books_def)

lemma books_to_exec:
  assumes "books q (A @ PushDecide q po 0 # B) g c js pu ex"
  shows "books q (A @ ExecPop q # B) g c js pu ex"
  using assms by (auto simp: books_def)

lemma books_to_global:
  assumes "books q (A @ f # B) g c js pu ex" and "token q f = 1" "outstanding q f = 0" "to_run q f = []"
  shows "books q (A @ B) (g @ [q]) c js pu ex"
  using assms by (auto simp: books_def)

lemma books_from_global:
  assumes "books q (A @ B) (q # g) c js pu ex"
  shows "books q (A @ ExecPop q # B) g c js pu ex"
  using assms by (auto simp: books_def)

lemma books_pop_all:
  assumes "books q (A @ ExecPop q # B) g c js pu ex"
  shows "books q (A @ ExecRun q js (int (length js)) # B) g c [] pu ex"
  using assms books_holder(1) [OF assms] by (auto simp: books_def books_holder(2-) [OF assms token_executing] simp del: concat_eq_Nil_conv)

lemma books_run:
  assumes "books q (A @ ExecRun q (j # rest) n # B) g c js pu ex"
  shows "books q (A @ ExecRun q rest n # B) g c js pu (ex @ [j])"
  using assms books_holder(1) [OF assms] by (auto simp: books_def books_holder(2-) [OF assms token_executing] simp del: concat_eq_Nil_conv)

lemma books_ran:
  assumes "books q (A @ ExecRun q [] n # B) g c js pu ex"
  shows "books q (A @ ExecSub q n # B) g c js pu ex"
  using assms by (auto simp: books_def)

lemma books_finish:
  assumes "books q (A @ ExecSub q c # B) g c js pu ex"
  shows "books q (A @ B) g 0 js pu ex"
  using assms books_holder [OF assms] by (auto simp: books_def)

lemma books_continue:
  assumes "books q (A @ ExecSub q n # B) g c js pu ex" and "c \<noteq> n"
  shows "books q (A @ ExecTick q # B) g (c - n) js pu ex"
  using assms books_holder [OF assms(1)] by (auto simp: books_def)

lemma books_again:
  assumes "books q (A @ ExecTick q # B) g c js pu ex"
  shows "books q (A @ ExecPop q # B) g c js pu ex"
  using assms by (auto simp: books_def)

lemma books_global_other:
  "p \<noteq> q \<Longrightarrow> books q F (g @ [p]) c js pu ex = books q F g c js pu ex"
  "p \<noteq> q \<Longrightarrow> books q F (p # g) c js pu ex = books q F g c js pu ex"
  by (simp_all add: books_def)

section \<open>Every step keeps the books\<close>

text \<open>The frames of all threads around those of thread \<open>t\<close>.\<close>

lemma frames_split:
  assumes "t < length (threads s)"
  shows "\<exists>A B. frames s = A @ calls (threads s ! t) @ B \<and>
    (\<forall>th s'. threads s' = (threads s)[t := th] \<longrightarrow> frames s' = A @ calls th @ B)"
proof -
  let ?A = "concat (map calls (take t (threads s)))" and ?B = "concat (map calls (drop (Suc t) (threads s)))"
  have "threads s = take t (threads s) @ threads s ! t # drop (Suc t) (threads s)"
    using assms by (rule id_take_nth_drop)
  then have "frames s = ?A @ calls (threads s ! t) @ ?B"
    unfolding frames_def by (metis concat.simps(2) concat_append list.simps(9) map_append)
  moreover have "frames s' = ?A @ calls th @ ?B" if "threads s' = (threads s)[t := th]" for th s'
    using that assms by (simp add: frames_def upd_conv_take_nth_drop)
  ultimately show ?thesis by blast
qed

text \<open>What a step of the top call does to the books of every queue, with \<open>fs\<close> the rest of the
  thread's calls.\<close>

lemma advance_books:
  assumes b: "\<And>q. books q (A @ calls th @ B) (globalQueue s) (jobCount s q) (jobs s q) (pushed s q) (executed s q)"
    and a: "advance now th s = Some (th', s')"
  shows "books q (A @ calls th' @ B) (globalQueue s') (jobCount s' q) (jobs s' q) (pushed s' q) (executed s' q)"
proof (cases "calls th")
  case Nil
  with a show ?thesis by (simp add: advance.simps)
next
  case (Cons f fs)
  have b': "books q (A @ f # fs @ B) (globalQueue s) (jobCount s q) (jobs s q) (pushed s q) (executed s q)" for q
    using b [of q] Cons by simp
  have n1: "books q (A @ hs @ fs @ B) g c js pu ex"
    if "neutral q f" "\<forall>h \<in> set hs. neutral q h" "books q (A @ f # fs @ B) g c js pu ex" for hs g c js pu ex
    using books_neutral [of "[f]" hs q A "fs @ B"] that by simp
  show ?thesis
  proof (cases f)
    case (PushStart p j po)
    show ?thesis
    proof (cases "p = q")
      case True
      with a Cons PushStart b' [of q] show ?thesis
        by (auto simp: advance.simps intro!: books_fetch_add)
    next
      case False
      with a Cons PushStart b' [of q] n1 [of "[PushJob p j po (jobCount s p)]"] show ?thesis
        by (auto simp: advance.simps neutral_def)
    qed
  next
    case (PushJob p j po prev)
    show ?thesis
    proof (cases "p = q")
      case True
      with a Cons PushJob b' [of q] show ?thesis
        by (auto simp: advance.simps intro!: books_push)
    next
      case False
      with a Cons PushJob b' [of q] n1 [of "[PushDecide p po prev]"] show ?thesis
        by (auto simp: advance.simps neutral_def)
    qed
  next
    case (PushDecide p po prev)
    show ?thesis
    proof (cases "p = q \<and> prev = 0")
      case True
      with a Cons PushDecide b' [of q] show ?thesis
        by (auto simp: advance.simps intro!: books_to_exec books_to_global split: if_splits)
    next
      case False
      with a Cons PushDecide b' [of q] n1 [of "[]"] n1 [of "[ExecPop p]"] show ?thesis
        by (auto simp: advance.simps neutral_def books_global_other split: if_splits)
    qed
  next
    case (ExecPop p)
    show ?thesis
    proof (cases "p = q")
      case True
      with a Cons ExecPop b' [of q] show ?thesis
        by (auto simp: advance.simps intro!: books_pop_all)
    next
      case False
      with a Cons ExecPop b' [of q] n1 [of "[ExecRun p (jobs s p) (int (length (jobs s p)))]"] show ?thesis
        by (auto simp: advance.simps neutral_def)
    qed
  next
    case (ExecRun p js n)
    show ?thesis
    proof (cases "p = q")
      case True
      with a Cons ExecRun b' [of q] show ?thesis
        by (cases js) (auto simp: advance.simps intro!: books_run books_ran)
    next
      case False
      with a Cons ExecRun b' [of q] n1 [of "[ExecRun p (tl js) n]"] n1 [of "[ExecSub p n]"] show ?thesis
        by (cases js) (auto simp: advance.simps neutral_def)
    qed
  next
    case (ExecSub p n)
    show ?thesis
    proof (cases "p = q")
      case True
      with a Cons ExecSub b' [of q] books_finish [where q = q and A = A and B = "fs @ B"]
          books_continue [where q = q and A = A and B = "fs @ B" and n = n] show ?thesis
        by (auto simp: advance.simps Let_def split: if_splits)
    next
      case False
      with a Cons ExecSub b' [of q] n1 [of "[]"] n1 [of "[ExecTick p]"] show ?thesis
        by (auto simp: advance.simps neutral_def Let_def split: if_splits)
    qed
  next
    case (ExecTick p)
    show ?thesis
    proof (cases "p = q")
      case True
      with a Cons ExecTick b' [of q] show ?thesis
        by (auto simp: advance.simps intro!: books_again books_to_global split: if_splits)
    next
      case False
      with a Cons ExecTick b' [of q] n1 [of "[]"] n1 [of "[ExecPop p]"] show ?thesis
        by (auto simp: advance.simps neutral_def books_global_other split: if_splits)
    qed
  next
    case Work
    show ?thesis
    proof (cases "tls_EndTickCount th < now \<or> globalQueue s = []")
      case True
      with a Cons Work b' [of q] n1 [of "[]"] show ?thesis
        by (auto simp: advance.simps neutral_def split: if_splits)
    next
      case False
      then obtain p g where g: "globalQueue s = p # g"
        by (cases "globalQueue s") auto
      with a Cons Work False have new: "calls th' = ExecPop p # Work # fs"
          "s' = s\<lparr>globalQueue := g\<rparr>"
        by (auto simp: advance.simps)
      show ?thesis
      proof (cases "p = q")
        case True
        with books_from_global [of q A "Work # fs @ B" g] b' [of q] show ?thesis
          by (simp add: new g Work)
      next
        case False
        with n1 [of "[ExecPop p, Work]"] b' [of q] show ?thesis
          by (simp add: new g Work neutral_def books_global_other)
      qed
    qed
  qed
qed

lemma step_accounts:
  assumes "\<And>q. accounts q s" and "step t e s = Some s'"
  shows "accounts q s'"
proof -
  from assms(2) obtain th s1 where t: "t < length (threads s)"
    and e: "thread_step e (threads s ! t) s = Some (th, s1)" and s': "s' = s1\<lparr>threads := (threads s)[t := th]\<rparr>"
    by (auto simp: step_def split: if_splits option.splits)
  obtain A B where F: "frames s = A @ calls (threads s ! t) @ B" and F': "frames s' = A @ calls th @ B"
    using frames_split [OF t] s' by fastforce
  have b: "books q (A @ calls (threads s ! t) @ B) (globalQueue s) (jobCount s q) (jobs s q) (pushed s q) (executed s q)" for q
    using assms(1) [of q] by (simp add: accounts_def F)
  show ?thesis
  proof (cases e)
    case (CallPush p j po)
    with e have "s1 = s" "calls th = PushStart p j po # calls (threads s ! t)"
      by (auto split: if_splits)
    with s' b [of q] books_neutral [of "[]" "[PushStart p j po]" q A "calls (threads s ! t) @ B"] show ?thesis
      unfolding accounts_def F' by (simp add: neutral_def)
  next
    case CallWork
    with e have "s1 = s" "calls th = Work # calls (threads s ! t)"
      by (auto split: if_splits)
    with s' b [of q] books_neutral [of "[]" "[Work]" q A "calls (threads s ! t) @ B"] show ?thesis
      unfolding accounts_def F' by (simp add: neutral_def)
  next
    case (Advance now)
    with e have "advance now (threads s ! t) s = Some (th, s1)" by simp
    from advance_books [OF b this, of q] show ?thesis
      unfolding accounts_def F' by (simp add: s')
  qed
qed

lemma reach_accounts: "reach s \<Longrightarrow> accounts q s"
proof (induction arbitrary: q rule: reach.induct)
  case (start endTicks)
  have "frames (new_system endTicks) = []"
    by (induction endTicks) (auto simp: frames_def new_system_def new_thread_def)
  then show ?case
    by (simp add: accounts_def books_def) (simp add: new_system_def)
next
  case (step s t e s')
  then show ?case using step_accounts by blast
qed

section \<open>Properties\<close>

lemma executing_le_token:
  "int (length (filter (executing q) F)) \<le> sum_list (map (token q) F)"
  by (induction F) (use token_executing token_nonneg in \<open>auto intro: add_increasing\<close>)

lemma books_token:
  "books q F g c js pu ex \<Longrightarrow> c \<noteq> 0 \<Longrightarrow> q \<in> set g \<or> (\<exists>f \<in> set F. token q f \<noteq> 0)"
proof (rule ccontr)
  assume b: "books q F g c js pu ex" and c: "c \<noteq> 0" and no: "\<not> (q \<in> set g \<or> (\<exists>f \<in> set F. token q f \<noteq> 0))"
  have "sum_list (map (token q) F) = 0"
    using no by (induction F) auto
  moreover have "count_list g q = 0"
    using no by (simp add: count_list_0_iff)
  ultimately show False
    using b c by (simp add: books_def)
qed

lemma books_pending: "books q F g 0 js pu ex \<Longrightarrow> js = []"
proof -
  assume b: "books q F g 0 js pu ex"
  then have "0 = int (length js) + sum_list (map (outstanding q) F)" "0 \<le> sum_list (map (outstanding q) F)"
    using sum_outstanding_nonneg [of F q] by (simp_all add: books_def)
  then have "int (length js) = 0" by linarith
  then show ?thesis by simp
qed




text \<open>When every call has returned and the queue is not waiting in the global queue, all its
  jobs have been run and its counter is zero.\<close>

theorem quiescent_done:
  assumes "reach s" and "frames s = []" and "q \<notin> set (globalQueue s)"
  shows "executed s q = pushed s q \<and> jobCount s q = 0"
proof -
  have b: "books q [] (globalQueue s) (jobCount s q) (jobs s q) (pushed s q) (executed s q)"
    using reach_accounts [OF assms(1), of q] assms(2) by (simp add: accounts_def)
  with books_token [OF b] assms(3) have "jobCount s q = 0" by auto
  with b show ?thesis by (simp add: books_def)
qed

fun run_events :: "(nat \<times> event) list \<Rightarrow> system \<Rightarrow> system option" where
  "run_events [] s = Some s"
| "run_events ((t, e) # es) s = (case step t e s of None \<Rightarrow> None | Some s' \<Rightarrow> run_events es s')"

lemma run_events_reach: "reach s \<Longrightarrow> run_events es s = Some s' \<Longrightarrow> reach s'"
  by (induction es s rule: run_events.induct) (auto split: option.splits intro: reach.step)

text \<open>A job given to an idle queue by a thread that executes nothing is run by that thread
  before \<open>DoAsync\<close> returns, in seven steps if no other thread intervenes.\<close>

theorem DoAsync_runs:
  assumes "reach s" and "t < length (threads s)" and "calls (threads s ! t) = []"
    and "tls_CurrentJobQueue (threads s ! t) = None" and "jobCount s q = 0"
  shows "\<exists>s'. run_events ((t, CallPush q j False) # replicate 7 (t, Advance now)) s = Some s' \<and>
     executed s' q = executed s q @ [j] \<and> jobCount s' q = 0 \<and> threads s' ! t = threads s ! t"
proof -
  have "jobs s q = []"
    using reach_accounts [OF assms(1), of q] assms(5) books_pending by (simp add: accounts_def)
  with assms(2-5) show ?thesis
    by (simp add: numeral_eq_Suc step_def can_call_def advance.simps)
qed

text \<open>\<open>tls_EndTickCount\<close> is never assigned in the library, so it is 0 on every thread. Then no
  worker ever takes a queue from the global queue once the clock shows more than 0: whatever
  happens, the global queue only grows at its end, and what is put there is never executed.\<close>

theorem global_queue_starves:
  assumes "run_events es s = Some s'" and "\<forall>th \<in> set (threads s). tls_EndTickCount th = 0"
    and "\<forall>(t, e) \<in> set es. e \<noteq> Advance 0"
  shows "prefix (globalQueue s) (globalQueue s')"
  using assms
proof (induction es s rule: run_events.induct)
  case (1 s)
  then show ?case by simp
next
  case (2 t e es s)
  from 2(2) obtain s1 where s1: "step t e s = Some s1" and r: "run_events es s1 = Some s'"
    by (auto split: option.splits)
  then obtain th s0 where t: "t < length (threads s)" and e: "thread_step e (threads s ! t) s = Some (th, s0)"
    and s1': "s1 = s0\<lparr>threads := (threads s)[t := th]\<rparr>"
    by (auto simp: step_def split: if_splits option.splits)
  have t0: "tls_EndTickCount (threads s ! t) = 0"
    using 2(3) t by simp
  have "tls_EndTickCount th = 0 \<and> prefix (globalQueue s) (globalQueue s0)"
  proof (cases e)
    case (Advance now)
    then have "0 < now"
      using 2(4) by (auto simp: word_neq_0_conv)
    with e Advance t0 show ?thesis
      by (auto simp: advance.simps Let_def split: list.splits frame.splits if_splits)
  qed (use e t0 in \<open>auto split: if_splits\<close>)
  moreover from this have "\<forall>th \<in> set (threads s1). tls_EndTickCount th = 0"
    using 2(3) by (auto simp: s1' dest!: set_update_subset_insert [THEN subsetD])
  then have "prefix (globalQueue s1) (globalQueue s')"
    using 2(1) [OF s1 r] 2(4) by simp
  ultimately show ?case
    using prefix_order.trans by (auto simp: s1')
qed

section \<open>A run\<close>

text \<open>Thread 0 gives queue 5 job 1 and starts executing; meanwhile thread 1 pushes job 2, and the
  clock runs out for thread 0, so the queue goes to the global queue, where thread 1 takes it.\<close>

abbreviation adv :: "nat \<Rightarrow> u64 \<Rightarrow> nat \<times> event" where "adv t now \<equiv> (t, Advance now)"

abbreviation demo_first :: "(nat \<times> event) list" where
  "demo_first \<equiv> [(0, CallPush 5 1 False), adv 0 1, adv 0 1, adv 0 1, adv 0 1,
     (1, CallPush 5 2 False), adv 1 1, adv 1 1, adv 1 1]"

abbreviation demo_second :: "(nat \<times> event) list" where
  "demo_second \<equiv> [adv 0 1, adv 0 1, adv 0 1, adv 0 150,
     (1, CallWork), adv 1 150, adv 1 150, adv 1 150, adv 1 150, adv 1 150, adv 1 150]"

lemma demo_states:
  "case run_events demo_first (new_system [100, 200]) of None \<Rightarrow> False
   | Some s \<Rightarrow> frames s = [ExecRun 5 [1] 1] \<and> jobs s 5 = [2] \<and> pushed s 5 = [1, 2] \<and>
       (case run_events demo_second s of None \<Rightarrow> False
        | Some s' \<Rightarrow> frames s' = [] \<and> globalQueue s' = [] \<and> executed s' 5 = [1, 2] \<and> length (threads s') = 2 \<and>
            calls (threads s' ! 0) = [] \<and> tls_CurrentJobQueue (threads s' ! 0) = None \<and> jobCount s' 5 = 0)"
  by code_simp

lemma demo_first_obtain:
  obtains s where "run_events demo_first (new_system [100, 200]) = Some s" and "reach s"
    and "frames s = [ExecRun 5 [1] 1]" and "jobs s 5 = [2]"
proof (cases "run_events demo_first (new_system [100, 200])")
  case None
  with demo_states show ?thesis by (simp del: run_events.simps)
next
  case (Some s)
  from that [OF this run_events_reach [OF reach.start this]] show ?thesis
    using demo_states Some by (simp del: run_events.simps)
qed

lemma demo_second_obtain:
  obtains s where "run_events (demo_first @ demo_second) (new_system [100, 200]) = Some s" and "reach s"
    and "frames s = []" and "globalQueue s = []" and "length (threads s) = 2"
    and "calls (threads s ! 0) = []" and "tls_CurrentJobQueue (threads s ! 0) = None" and "jobCount s 5 = 0"
proof -
  have "case run_events (demo_first @ demo_second) (new_system [100, 200]) of None \<Rightarrow> False
    | Some s \<Rightarrow> frames s = [] \<and> globalQueue s = [] \<and> length (threads s) = 2 \<and>
        calls (threads s ! 0) = [] \<and> tls_CurrentJobQueue (threads s ! 0) = None \<and> jobCount s 5 = 0"
    by code_simp
  then obtain s where r: "run_events (demo_first @ demo_second) (new_system [100, 200]) = Some s"
    and s: "frames s = []" "globalQueue s = []" "length (threads s) = 2"
      "calls (threads s ! 0) = []" "tls_CurrentJobQueue (threads s ! 0) = None" "jobCount s 5 = 0"
    by (cases "run_events (demo_first @ demo_second) (new_system [100, 200])") (simp_all del: run_events.simps append.simps)
  from that [OF r run_events_reach [OF reach.start r] s] show ?thesis .
qed




theorem quiescent_done_witness:
  "\<exists>s. run_events (demo_first @ demo_second) (new_system [100, 200]) = Some s \<and> executed s 5 = pushed s 5"
proof (rule demo_second_obtain)
  fix s
  assume s: "run_events (demo_first @ demo_second) (new_system [100, 200]) = Some s" "reach s" "frames s = []" "globalQueue s = []"
  from quiescent_done [OF s(2,3), of 5] s show ?thesis by (simp del: run_events.simps append.simps)
qed

theorem DoAsync_runs_witness:
  "\<exists>s s'. run_events (demo_first @ demo_second) (new_system [100, 200]) = Some s \<and>
     run_events ((0, CallPush 5 9 False) # replicate 7 (0, Advance 160)) s = Some s' \<and>
     executed s' 5 = executed s 5 @ [9]"
proof (rule demo_second_obtain)
  fix s
  assume s: "run_events (demo_first @ demo_second) (new_system [100, 200]) = Some s" "reach s" "length (threads s) = 2"
    "calls (threads s ! 0) = []" "tls_CurrentJobQueue (threads s ! 0) = None" "jobCount s 5 = 0"
  from DoAsync_runs [OF s(2) _ s(4-6), of 9 160] s show ?thesis by (auto simp del: run_events.simps append.simps)
qed

theorem global_queue_starves_witness:
  "case run_events [(0, CallPush 5 1 True), adv 0 1, adv 0 1, adv 0 1] (new_system [0, 0]) of None \<Rightarrow> False
   | Some s \<Rightarrow> globalQueue s = [5] \<and>
       (case run_events [(1, CallWork), adv 1 7] s of None \<Rightarrow> False
        | Some s' \<Rightarrow> prefix (globalQueue s) (globalQueue s') \<and> executed s' 5 = [])"
proof -
  have c: "case run_events [(0, CallPush 5 1 True), adv 0 1, adv 0 1, adv 0 1] (new_system [0, 0]) of None \<Rightarrow> False
   | Some s \<Rightarrow> globalQueue s = [5] \<and> map tls_EndTickCount (threads s) = [0, 0] \<and>
       (case run_events [(1, CallWork), adv 1 7] s of None \<Rightarrow> False | Some s' \<Rightarrow> executed s' 5 = [])"
    by code_simp
  obtain s s' where s: "run_events [(0, CallPush 5 1 True), adv 0 1, adv 0 1, adv 0 1] (new_system [0, 0]) = Some s"
      "globalQueue s = [5]" "map tls_EndTickCount (threads s) = [0, 0]"
    and r: "run_events [(1, CallWork), adv 1 7] s = Some s'" "executed s' 5 = []"
    using c by (auto simp del: run_events.simps split: option.splits)
  have "\<forall>th \<in> set (threads s). tls_EndTickCount th = 0"
    using s(3) by auto
  then have "prefix (globalQueue s) (globalQueue s')"
    by (rule global_queue_starves [OF r(1)]) simp
  with s r show ?thesis by (simp del: run_events.simps)
qed

end
