(* ===== verification/Job_Timer.thy ===== *)
theory Job_Timer
  imports Job_Queue "HOL-Library.Multiset"
begin

text \<open>
  ServerCore/JobTimer.h and JobTimer.cpp, with \<open>DistributeReservedJobs\<close> of ThreadManager.cpp: jobs
  reserved for a later tick, and their delivery to their job queues. The priority queue is the
  list of its items by ascending tick; among equal ticks the C++ library leaves the order open,
  here the earlier reservation comes first. The \<open>JobData\<close> an item points to is part of the item:
  it is made for the item by \<open>Reserve\<close> and given back to its pool when the item is used up.
\<close>

section \<open>State and operations\<close>

record timer_item =
  executeTick :: u64
  owner :: qid
  job_of :: job

text \<open>\<open>items.push\<close>, with \<open>operator<\<close> comparing ticks the other way round, so that the top of the
  heap has the smallest tick.\<close>

fun push_item :: "timer_item \<Rightarrow> timer_item list \<Rightarrow> timer_item list" where
  "push_item x [] = [x]"
| "push_item x (y # ys) = (if executeTick x < executeTick y then x # y # ys else y # push_item x ys)"

text \<open>The loop under the lock: items that are due, and what stays.\<close>

fun collect :: "u64 \<Rightarrow> timer_item list \<Rightarrow> timer_item list \<times> timer_item list" where
  "collect now [] = ([], [])"
| "collect now (x # xs) =
     (if now < executeTick x then ([], x # xs)
      else let (due, rest) = collect now xs in (x # due, rest))"

text \<open>Where a thread is in \<open>Distribute\<close>: outside, past the \<open>exchange\<close>, or with items to deliver.\<close>

datatype phase = Outside | Entered u64 | Delivering "timer_item list"

text \<open>\<open>pushes\<close> are the calls \<open>ownerJobQueue->Push(job, true)\<close> made; \<open>reserved\<close>, \<open>delivered\<close> and
  \<open>cleared\<close> record the items put in, used up by \<open>Distribute\<close> and dropped by \<open>Clear\<close>.\<close>

record job_timer =
  items :: "timer_item list"
  distributing :: bool
  phases :: "nat \<Rightarrow> phase"
  pushes :: "(qid \<times> job) list"
  reserved :: "timer_item multiset"
  delivered :: "timer_item list"
  cleared :: "timer_item multiset"

definition new_timer :: job_timer where
  "new_timer = \<lparr>items = [], distributing = False, phases = (\<lambda>_. Outside), pushes = [],
     reserved = {#}, delivered = [], cleared = {#}\<rparr>"

definition Reserve :: "timer_item \<Rightarrow> job_timer \<Rightarrow> job_timer" where
  "Reserve x s = s\<lparr>items := push_item x (items s), reserved := add_mset x (reserved s)\<rparr>"

text \<open>\<open>GetTickCount64() + _tickAfter\<close> wraps like every unsigned sum.\<close>

definition Reserve_after :: "u64 \<Rightarrow> u64 \<Rightarrow> qid \<Rightarrow> job \<Rightarrow> job_timer \<Rightarrow> job_timer" where
  "Reserve_after tick_count tickAfter q j =
     Reserve \<lparr>executeTick = tick_count + tickAfter, owner = q, job_of = j\<rparr>"

definition Clear :: "job_timer \<Rightarrow> job_timer" where
  "Clear s = s\<lparr>items := [], cleared := cleared s + mset (items s)\<rparr>"

text \<open>One step of \<open>Distribute(now)\<close> on thread \<open>t\<close>; \<open>alive\<close> tells which job queues still exist.\<close>

definition Distribute_step :: "(qid \<Rightarrow> bool) \<Rightarrow> nat \<Rightarrow> u64 \<Rightarrow> job_timer \<Rightarrow> job_timer" where
  "Distribute_step alive t now s =
     (case phases s t of
        Outside \<Rightarrow> if distributing s then s
          else s\<lparr>distributing := True, phases := (phases s)(t := Entered now)\<rparr>
      | Entered n \<Rightarrow> let (due, rest) = collect n (items s) in
          s\<lparr>items := rest, phases := (phases s)(t := Delivering due)\<rparr>
      | Delivering (x # xs) \<Rightarrow>
          s\<lparr>pushes := pushes s @ (if alive (owner x) then [(owner x, job_of x)] else []),
            delivered := delivered s @ [x], phases := (phases s)(t := Delivering xs)\<rparr>
      | Delivering [] \<Rightarrow> s\<lparr>distributing := False, phases := (phases s)(t := Outside)\<rparr>)"

datatype timer_event = ReserveOp timer_item | ClearOp | DistributeOp nat u64

fun apply_event :: "(qid \<Rightarrow> bool) \<Rightarrow> timer_event \<Rightarrow> job_timer \<Rightarrow> job_timer" where
  "apply_event alive (ReserveOp x) s = Reserve x s"
| "apply_event alive ClearOp s = Clear s"
| "apply_event alive (DistributeOp t now) s = Distribute_step alive t now s"

inductive timer_reach :: "job_timer \<Rightarrow> bool" where
  start: "timer_reach new_timer"
| event: "timer_reach s \<Longrightarrow> timer_reach (apply_event alive e s)"

text \<open>A whole call by one thread while no other runs: enter, collect, deliver one by one, leave.\<close>

definition Distribute :: "(qid \<Rightarrow> bool) \<Rightarrow> nat \<Rightarrow> u64 \<Rightarrow> job_timer \<Rightarrow> job_timer" where
  "Distribute alive t now s =
     ((Distribute_step alive t now) ^^ (length (fst (collect now (items s))) + 3)) s"

section \<open>The list is a priority queue\<close>

lemma mset_push_item [simp]: "mset (push_item x xs) = add_mset x (mset xs)"
  by (induction xs) auto

lemma set_push_item [simp]: "set (push_item x xs) = insert x (set xs)"
  by (induction xs) auto

lemma sorted_push_item:
  "sorted (map executeTick xs) \<Longrightarrow> sorted (map executeTick (push_item x xs))"
  by (induction xs) auto

lemma collect_eq: "collect now xs = (takeWhile (\<lambda>x. executeTick x \<le> now) xs, dropWhile (\<lambda>x. executeTick x \<le> now) xs)"
  by (induction xs) (auto simp: Let_def not_less)

lemma collect_mset: "collect now xs = (due, rest) \<Longrightarrow> mset xs = mset due + mset rest"
  by (induction xs arbitrary: due rest) (auto simp: Let_def split: if_splits prod.splits)

lemma collect_due:
  "sorted (map executeTick xs) \<Longrightarrow> collect now xs = (due, rest) \<Longrightarrow>
   (\<forall>x \<in> set due. executeTick x \<le> now) \<and> (\<forall>x \<in> set rest. now < executeTick x) \<and>
   sorted (map executeTick due) \<and> sorted (map executeTick rest)"
proof (induction xs arbitrary: due rest)
  case (Cons x xs)
  show ?case
  proof (cases "now < executeTick x")
    case True
    with Cons.prems show ?thesis by (auto intro: less_le_trans)
  next
    case False
    with Cons.prems obtain due' where d: "collect now xs = (due', rest)" "due = x # due'"
      by (auto simp: Let_def split: prod.splits)
    have "sorted (map executeTick xs)" "\<forall>y \<in> set xs. executeTick x \<le> executeTick y"
      using Cons.prems(1) by auto
    moreover have "set due' \<subseteq> set xs"
      using d(1) by (auto simp: collect_eq dest: set_takeWhileD)
    ultimately show ?thesis
      using Cons.IH [OF _ d(1)] False d(2) by auto
  qed
qed simp

section \<open>The invariant\<close>

fun in_flight :: "phase \<Rightarrow> timer_item list" where
  "in_flight (Delivering xs) = xs"
| "in_flight _ = []"

text \<open>The flag is set exactly while one thread is inside, and no item is lost or used twice.\<close>

definition timer_inv :: "job_timer \<Rightarrow> bool" where
  "timer_inv s \<longleftrightarrow> sorted (map executeTick (items s)) \<and>
     (\<exists>t. (\<forall>u. u \<noteq> t \<longrightarrow> phases s u = Outside) \<and> (distributing s \<longleftrightarrow> phases s t \<noteq> Outside) \<and>
        reserved s = mset (items s) + mset (in_flight (phases s t)) + mset (delivered s) + cleared s)"

lemma timer_invI:
  "sorted (map executeTick (items s)) \<Longrightarrow> (\<And>u. u \<noteq> t \<Longrightarrow> phases s u = Outside) \<Longrightarrow>
   (distributing s \<longleftrightarrow> phases s t \<noteq> Outside) \<Longrightarrow>
   reserved s = mset (items s) + mset (in_flight (phases s t)) + mset (delivered s) + cleared s \<Longrightarrow> timer_inv s"
  unfolding timer_inv_def by blast

lemma Distribute_step_inv:
  assumes "timer_inv s"
  shows "timer_inv (Distribute_step alive u now s)"
proof -
  obtain t where t: "\<And>u. u \<noteq> t \<Longrightarrow> phases s u = Outside" "distributing s \<longleftrightarrow> phases s t \<noteq> Outside"
      "reserved s = mset (items s) + mset (in_flight (phases s t)) + mset (delivered s) + cleared s"
    and srt: "sorted (map executeTick (items s))"
    using assms by (auto simp: timer_inv_def)
  show ?thesis
  proof (cases "phases s u")
    case Outside
    show ?thesis
    proof (cases "distributing s")
      case True
      with Outside assms show ?thesis by (simp add: Distribute_step_def)
    next
      case False
      with t have "phases s v = Outside" for v by (cases "v = t") auto
      with False t(2,3) srt Outside show ?thesis
        by (intro timer_invI [where t = u]) (simp_all add: Distribute_step_def)
    qed
  next
    case (Entered n)
    then have u: "u = t" using t(1) by fastforce
    obtain due rest where c: "collect n (items s) = (due, rest)" by fastforce
    show ?thesis
      by (rule timer_invI [where t = t])
        (use t Entered u c collect_mset [OF c] collect_due [OF srt c] in \<open>simp_all add: Distribute_step_def\<close>)
  next
    case (Delivering xs)
    then have u: "u = t" using t(1) by fastforce
    show ?thesis
      by (cases xs; rule timer_invI [where t = t]) (use t Delivering u srt in \<open>simp_all add: Distribute_step_def\<close>)
  qed
qed

lemma timer_reach_inv: "timer_reach s \<Longrightarrow> timer_inv s"
proof (induction rule: timer_reach.induct)
  case start
  show ?case by (rule timer_invI) (simp_all add: new_timer_def)
next
  case (event s alive e)
  show ?case
  proof (cases e)
    case (ReserveOp x)
    from event.IH obtain t where "\<And>u. u \<noteq> t \<Longrightarrow> phases s u = Outside" "distributing s \<longleftrightarrow> phases s t \<noteq> Outside"
        "reserved s = mset (items s) + mset (in_flight (phases s t)) + mset (delivered s) + cleared s"
        "sorted (map executeTick (items s))"
      by (auto simp: timer_inv_def)
    then show ?thesis
      unfolding ReserveOp by (intro timer_invI [where t = t]) (simp_all add: Reserve_def sorted_push_item)
  next
    case ClearOp
    from event.IH obtain t where "\<And>u. u \<noteq> t \<Longrightarrow> phases s u = Outside" "distributing s \<longleftrightarrow> phases s t \<noteq> Outside"
        "reserved s = mset (items s) + mset (in_flight (phases s t)) + mset (delivered s) + cleared s"
      by (auto simp: timer_inv_def)
    then show ?thesis
      unfolding ClearOp by (intro timer_invI [where t = t]) (simp_all add: Clear_def)
  next
    case (DistributeOp t now)
    with Distribute_step_inv [OF event.IH] show ?thesis by simp
  qed
qed

section \<open>Properties\<close>


lemma deliver_all:
  assumes "phases s t = Delivering xs" and "distributing s"
  shows "((Distribute_step alive t now) ^^ (length xs + 1)) s =
    s\<lparr>distributing := False, phases := (phases s)(t := Outside), delivered := delivered s @ xs,
      pushes := pushes s @ map (\<lambda>x. (owner x, job_of x)) (filter (\<lambda>x. alive (owner x)) xs)\<rparr>"
  using assms
proof (induction xs arbitrary: s)
  case Nil
  then show ?case by (simp add: Distribute_step_def fun_upd_def)
next
  case (Cons x xs)
  have "((Distribute_step alive t now) ^^ (length (x # xs) + 1)) s =
      ((Distribute_step alive t now) ^^ (length xs + 1)) (Distribute_step alive t now s)"
    by (simp only: length_Cons add_Suc funpow_Suc_right o_apply)
  also have "\<dots> = (Distribute_step alive t now s)\<lparr>distributing := False,
      phases := (phases (Distribute_step alive t now s))(t := Outside),
      delivered := delivered (Distribute_step alive t now s) @ xs,
      pushes := pushes (Distribute_step alive t now s) @ map (\<lambda>x. (owner x, job_of x)) (filter (\<lambda>x. alive (owner x)) xs)\<rparr>"
    by (rule Cons.IH) (use Cons.prems in \<open>simp_all add: Distribute_step_def\<close>)
  also have "\<dots> = s\<lparr>distributing := False, phases := (phases s)(t := Outside), delivered := delivered s @ x # xs,
      pushes := pushes s @ map (\<lambda>x. (owner x, job_of x)) (filter (\<lambda>x. alive (owner x)) (x # xs))\<rparr>"
    using Cons.prems(1) by (simp add: Distribute_step_def)
  finally show ?case .
qed

lemma Distribute_eq:
  assumes "\<not> distributing s" and "phases s t = Outside" and c: "collect now (items s) = (due, rest)"
  shows "Distribute alive t now s = s\<lparr>items := rest, delivered := delivered s @ due,
    pushes := pushes s @ map (\<lambda>x. (owner x, job_of x)) (filter (\<lambda>x. alive (owner x)) due)\<rparr>"
proof -
  let ?d = "Distribute_step alive t now"
  have 2: "?d (?d s) = s\<lparr>distributing := True, items := rest, phases := (phases s)(t := Delivering due)\<rparr>"
    using assms by (simp add: Distribute_step_def)
  have "Distribute alive t now s = (?d ^^ (length due + 1)) (?d (?d s))"
    by (simp only: Distribute_def c fst_conv numeral_3_eq_3 One_nat_def add_Suc_right add_0_right funpow_Suc_right o_apply)
  also have "\<dots> = (?d (?d s))\<lparr>distributing := False, phases := (phases (?d (?d s)))(t := Outside),
      delivered := delivered (?d (?d s)) @ due,
      pushes := pushes (?d (?d s)) @ map (\<lambda>x. (owner x, job_of x)) (filter (\<lambda>x. alive (owner x)) due)\<rparr>"
    by (rule deliver_all) (simp_all add: 2)
  finally show ?thesis
    using assms(1,2) by (simp add: 2 fun_upd_idem)
qed

text \<open>C27. A call of \<open>Distribute\<close> that finds nobody inside delivers exactly the items that are due,
  earliest tick first, each to its job queue if that still exists, and leaves exactly the items
  that are not due yet.\<close>

theorem Distribute_delivers_due:
  assumes "timer_reach s" and "\<not> distributing s"
  shows "\<exists>due rest. Distribute alive t now s = s\<lparr>items := rest, delivered := delivered s @ due,
      pushes := pushes s @ map (\<lambda>x. (owner x, job_of x)) (filter (\<lambda>x. alive (owner x)) due)\<rparr> \<and>
    mset (items s) = mset due + mset rest \<and> sorted (map executeTick due) \<and>
    set due = {x \<in> set (items s). executeTick x \<le> now} \<and> set rest = {x \<in> set (items s). now < executeTick x}"
proof -
  obtain due rest where c: "collect now (items s) = (due, rest)" by fastforce
  have inv: "timer_inv s" by (rule timer_reach_inv [OF assms(1)])
  then have srt: "sorted (map executeTick (items s))" by (simp add: timer_inv_def)
  have out: "phases s t = Outside"
    using inv assms(2) by (auto simp: timer_inv_def) (metis)
  note D = collect_due [OF srt c] collect_mset [OF c]
  have s: "set (items s) = set due \<union> set rest"
    using D(2) by (metis set_mset_mset set_mset_union)
  have "set due = {x \<in> set (items s). executeTick x \<le> now}" "set rest = {x \<in> set (items s). now < executeTick x}"
    using D(1) unfolding s by (auto simp: not_less [symmetric])
  with Distribute_eq [OF assms(2) out c] D show ?thesis by blast
qed

text \<open>A thread that finds another one distributing returns at once and changes nothing.\<close>

theorem Distribute_busy:
  assumes "timer_reach s" and "phases s u \<noteq> Outside" and "t \<noteq> u"
  shows "Distribute_step alive t now s = s"
proof -
  obtain v where v: "\<And>w. w \<noteq> v \<Longrightarrow> phases s w = Outside" "distributing s \<longleftrightarrow> phases s v \<noteq> Outside"
    using timer_reach_inv [OF assms(1)] by (auto simp: timer_inv_def)
  have "v = u"
    using v(1) [of u] assms(2) by metis
  with v assms(2,3) have "distributing s" "phases s t = Outside" by auto
  then show ?thesis by (simp add: Distribute_step_def)
qed

section \<open>A run\<close>

definition due_at :: "u64 \<Rightarrow> job \<Rightarrow> timer_item" where
  "due_at tick j = \<lparr>executeTick = tick, owner = 5, job_of = j\<rparr>"

fun apply_events :: "(qid \<Rightarrow> bool) \<Rightarrow> timer_event list \<Rightarrow> job_timer \<Rightarrow> job_timer" where
  "apply_events alive [] s = s"
| "apply_events alive (e # es) s = apply_events alive es (apply_event alive e s)"

lemma apply_events_reach: "timer_reach s \<Longrightarrow> timer_reach (apply_events alive es s)"
  by (induction es arbitrary: s) (auto intro: timer_reach.event)

abbreviation demo_timer :: job_timer where
  "demo_timer \<equiv> apply_events (\<lambda>_. True)
     [ReserveOp (due_at 30 1), ReserveOp (due_at 10 2), ReserveOp (due_at 20 3)] new_timer"

lemma demo_timer_reach: "timer_reach demo_timer"
  by (rule apply_events_reach [OF timer_reach.start])

text \<open>Thread 0 delivers what is due at tick 20, with one item delivered.\<close>

abbreviation demo_busy :: job_timer where
  "demo_busy \<equiv> apply_events (\<lambda>_. True) [DistributeOp 0 20, DistributeOp 0 20, DistributeOp 0 20] demo_timer"

lemma demo_timer_facts:
  "items demo_timer = [due_at 10 2, due_at 20 3, due_at 30 1]" "\<not> distributing demo_timer"
  "phases demo_busy 0 = Delivering [due_at 20 3]" "items demo_busy = [due_at 30 1]"
  by (simp_all add: new_timer_def Reserve_def due_at_def Distribute_step_def)


theorem Distribute_delivers_due_witness:
  "\<exists>due rest. set due = {due_at 10 2, due_at 20 3} \<and> set rest = {due_at 30 1} \<and>
     items (Distribute (\<lambda>_. True) 0 20 demo_timer) = rest \<and>
     delivered (Distribute (\<lambda>_. True) 0 20 demo_timer) = delivered demo_timer @ due"
proof -
  have d: "{x \<in> set (items demo_timer). executeTick x \<le> 20} = {due_at 10 2, due_at 20 3}"
    "{x \<in> set (items demo_timer). 20 < executeTick x} = {due_at 30 1}"
    unfolding demo_timer_facts(1) by (auto simp: due_at_def)
  show ?thesis
    using Distribute_delivers_due [OF demo_timer_reach demo_timer_facts(2), of "\<lambda>_. True" 0 20]
    unfolding d by (auto simp del: apply_events.simps)
qed

theorem Distribute_busy_witness: "Distribute_step (\<lambda>_. True) 1 25 demo_busy = demo_busy"
proof (rule Distribute_busy)
  show "timer_reach demo_busy" by (rule apply_events_reach [OF demo_timer_reach])
  show "phases demo_busy 0 \<noteq> Outside" unfolding demo_timer_facts(3) by simp
qed simp

end
