(* ===== verification/Thread_Manager.thy ===== *)
theory Thread_Manager
  imports Rw_Lock
begin

text \<open>
  ServerCore/ThreadManager.h and ThreadManager.cpp: thread ids, launching and joining, with the
  variant of ServerCore_Module/ThreadManager.ixx. The worker loop is in Job_Queue, the timer call
  in Job_Timer. The thread ids are what the locks of Rw_Lock are taken with.
\<close>

section \<open>Thread ids\<close>

text \<open>\<open>s_ThreadId\<close> starts at 1; \<open>InitTLS\<close> gives the calling thread its value and adds one.\<close>

definition InitTLS :: "u32 \<Rightarrow> u32 \<times> u32" where
  "InitTLS s_ThreadId = (s_ThreadId, s_ThreadId + 1)"

text \<open>The ids of the first \<open>n\<close> threads: the constructing thread's, then those launched.\<close>

fun thread_ids :: "nat \<Rightarrow> u32 \<Rightarrow> u32 list" where
  "thread_ids 0 s_ThreadId = []"
| "thread_ids (Suc n) s_ThreadId = (let (tid, next_id) = InitTLS s_ThreadId in tid # thread_ids n next_id)"

section \<open>Launching and joining\<close>

datatype os_thread = Running | Joined

record thread_manager =
  threads :: "os_thread list"

definition ThreadManager :: thread_manager where
  "ThreadManager = \<lparr>threads = []\<rparr>"

definition Launch :: "thread_manager \<Rightarrow> thread_manager" where
  "Launch m = m\<lparr>threads := threads m @ [Running]\<rparr>"

text \<open>\<open>if (thread.joinable()) thread.join();\<close> waits for the thread, so that it is joined
  afterwards; then \<open>threads.clear()\<close> destroys the thread objects, which terminates the process if
  one of them is still joinable.\<close>

definition destroy :: "os_thread \<Rightarrow> unit outcome" where
  "destroy t = (if t = Running then Inl (StdException ''std::terminate: joinable thread destroyed'') else Inr ())"

fun destroy_all :: "os_thread list \<Rightarrow> unit outcome" where
  "destroy_all [] = Inr ()"
| "destroy_all (t # ts) = and_then (destroy t) (\<lambda>_. destroy_all ts)"

definition join_thread :: "os_thread \<Rightarrow> os_thread" where
  "join_thread t = (if t = Running then Joined else t)"

definition Join :: "thread_manager \<Rightarrow> thread_manager outcome" where
  "Join m = (let ts = map join_thread (threads m) in and_then (destroy_all ts) (\<lambda>_. Inr (m\<lparr>threads := []\<rparr>)))"

text \<open>The module's loop pops the last element in every pass of a range-based \<open>for\<close>, whose end was
  fixed before the first: \<open>i\<close> counts the passes, \<open>last\<close> is that end.\<close>

function mod_join_loop :: "nat \<Rightarrow> nat \<Rightarrow> os_thread list \<Rightarrow> os_thread list outcome" where
  "mod_join_loop i last_i ts =
     (if last_i \<le> i then Inr ts
      else if length ts \<le> i then Inl (Undefined ''invalidated iterator'')
      else let ts' = ts[i := join_thread (ts ! i)] in
        and_then (destroy (last ts')) (\<lambda>_. mod_join_loop (i + 1) last_i (butlast ts')))"
  by pat_completeness auto

termination
  by (relation "measure (\<lambda>(i, last_i, _). last_i - i)") auto

definition mod_Join :: "thread_manager \<Rightarrow> thread_manager outcome" where
  "mod_Join m = and_then (mod_join_loop 0 (length (threads m)) (threads m)) (\<lambda>ts. Inr (m\<lparr>threads := ts\<rparr>))"

section \<open>Properties\<close>

lemma thread_ids_nth: "i < n \<Longrightarrow> thread_ids n s ! i = s + of_nat i"
proof (induction n arbitrary: s i)
  case (Suc n)
  then show ?case
    by (cases i) (simp_all add: InitTLS_def)
qed simp

lemma length_thread_ids [simp]: "length (thread_ids n s) = n"
  by (induction n arbitrary: s) (simp_all add: InitTLS_def)

text \<open>Joining waits for every launched thread and leaves an empty manager; it never destroys
  a thread that can still be joined.\<close>

theorem Join_all:
  "Join ((Launch ^^ n) m) = Inr (m\<lparr>threads := []\<rparr>)"
proof -
  have "destroy_all (map join_thread ts) = Inr ()" for ts
    by (induction ts) (auto simp: destroy_def join_thread_def split: os_thread.splits)
  moreover have "((Launch ^^ n) m)\<lparr>threads := []\<rparr> = m\<lparr>threads := []\<rparr>"
    by (induction n) (simp_all add: Launch_def)
  ultimately show ?thesis
    by (simp add: Join_def)
qed

text \<open>The module's \<open>Join\<close> joins a single thread, but with two or more running threads its first
  pass destroys the last one before joining it, which terminates the process.\<close>

theorem mod_Join_terminates:
  "mod_Join ((Launch ^^ n) ThreadManager) =
     (if n \<le> 1 then Inr ThreadManager
      else Inl (StdException ''std::terminate: joinable thread destroyed''))"
proof -
  have t: "threads ((Launch ^^ n) ThreadManager) = replicate n Running" for n
    by (induction n) (simp_all add: Launch_def ThreadManager_def replicate_append_same)
  have m: "((Launch ^^ n) ThreadManager)\<lparr>threads := []\<rparr> = ThreadManager"
    by (induction n) (simp_all add: Launch_def ThreadManager_def)
  show ?thesis
  proof (cases "n \<le> 1")
    case True
    then show ?thesis
      unfolding mod_Join_def t
      by (cases n) (simp_all add: m ThreadManager_def Launch_def join_thread_def destroy_def)
  next
    case False
    then have "last ((replicate n Running)[0 := Joined]) = Running"
      by (cases n) (auto simp: last_conv_nth)
    with False show ?thesis
      unfolding mod_Join_def t by (subst mod_join_loop.simps) (simp add: join_thread_def destroy_def)
  qed
qed

text \<open>The first 65535 threads get pairwise different ids, none of them 0, that the locks can
  tell apart. The next thread's id has 16 zero bits at its end: the locks take it for nobody.\<close>

theorem thread_ids_lockable:
  "distinct (map desired_flag (thread_ids 65535 1)) \<and> 0 \<notin> set (map desired_flag (thread_ids 65535 1)) \<and>
   desired_flag (thread_ids 65536 1 ! 65535) = 0"
proof -
  let ?flags = "map desired_flag (thread_ids 65535 1)"
  have d: "unat (?flags ! i) = (i + 1) * 65536" if i: "i < length ?flags" for i
  proof -
    have "unat (1 + of_nat i :: u32) = i + 1"
      using i by (simp add: unat_word_ariths unat_of_nat)
    with i show ?thesis
      by (simp add: thread_ids_nth unat_desired_flag)
  qed
  have "distinct ?flags"
    unfolding distinct_conv_nth
  proof (intro allI impI)
    fix i j
    assume "i < length ?flags" "j < length ?flags" "i \<noteq> j"
    moreover have "(i + 1) * 65536 \<noteq> (j + 1) * 65536"
      using \<open>i \<noteq> j\<close> by simp
    ultimately have "unat (?flags ! i) \<noteq> unat (?flags ! j)"
      using d by (simp only:) blast
    then show "?flags ! i \<noteq> ?flags ! j" by metis
  qed
  moreover have "0 \<notin> set ?flags"
  proof
    assume "0 \<in> set ?flags"
    then obtain i where "i < length ?flags" "?flags ! i = 0"
      by (auto simp: in_set_conv_nth)
    with d [of i] show False by simp
  qed
  moreover have "desired_flag (thread_ids 65536 1 ! 65535) = 0"
    by (simp add: thread_ids_nth unat_eq_0 [symmetric] unat_desired_flag)
  ultimately show ?thesis by blast
qed

end
