(* ===== verification/Net_Session.thy ===== *)
theory Net_Session
  imports Recv_Buffer "HOL-Library.Multiset"
begin

text \<open>
  The network layer of ServerCore: IocpEvent, IocpService, Session, Service and Listener (.h and
  .cpp of each). Winsock and the completion port are not modelled: every call takes the results
  the system gave as arguments, and records the asynchronous operations the system has accepted
  and not completed yet. Sessions are numbered. A \<open>shared_ptr\<close> in an event is the object it points
  to, null as \<open>None\<close>. What content classes override (\<open>OnConnected\<close>, \<open>OnRecv\<close>, \<open>OnSend\<close>,
  \<open>OnDisconnected\<close>) is a parameter where its result is used and makes no calls back.
\<close>

section \<open>State\<close>

datatype EventType = CONNECT | DISCONNECT | ACCEPT | RECV | SEND

type_synonym sid = nat

text \<open>An object that handles completions: a session or the listener.\<close>

datatype handler = SessionObj sid | ListenerObj

text \<open>A send buffer, by its \<open>WriteSize\<close>.\<close>

type_synonym send_buf = u32

record session =
  netAddress :: nat
  isConnected :: bool
  has_service :: bool
  recvBuffer :: recv_buffer
  sendQueue :: "send_buf list"
  isSendRegistered :: bool
  connectOwner :: "handler option"
  disconnectOwner :: "handler option"
  recvOwner :: "handler option"
  sendOwner :: "handler option"
  sendEventBuffers :: "send_buf list"

datatype ServiceType = Server | Client

text \<open>\<open>posted\<close>: the operations the system will complete, with the event they were started with;
  an accept operation is named by the number of its \<open>AcceptEvent\<close>.\<close>

datatype operation = ConnectOp sid | DisconnectOp sid | RecvOp sid | SendOp sid | AcceptOp nat

record network =
  sessionAt :: "sid \<Rightarrow> session"
  nextSession :: sid
  serviceType :: ServiceType
  sessions :: "sid list"
  sessionCount :: int
  maxSessionCount :: int
  acceptOwner :: "nat \<Rightarrow> handler option"
  acceptCount :: nat
  posted :: "operation multiset"

text \<open>What a call of the system returned, with the error code \<open>WSAGetLastError\<close> gives.\<close>

datatype sys_result = Success | SocketError

definition WSA_IO_PENDING :: int where "WSA_IO_PENDING = 997"
definition WAIT_TIMEOUT :: int where "WAIT_TIMEOUT = 258"

text \<open>An overlapped call is under way when it succeeded at once or is pending.\<close>

definition started :: "sys_result \<Rightarrow> int \<Rightarrow> bool" where
  "started r e \<longleftrightarrow> r = Success \<or> e = WSA_IO_PENDING"

definition new_session :: "recv_buffer \<Rightarrow> session" where
  "new_session rb = \<lparr>netAddress = 0, isConnected = False, has_service = False, recvBuffer = rb,
     sendQueue = [], isSendRegistered = False, connectOwner = None, disconnectOwner = None,
     recvOwner = None, sendOwner = None, sendEventBuffers = []\<rparr>"

definition upd :: "sid \<Rightarrow> (session \<Rightarrow> session) \<Rightarrow> network \<Rightarrow> network" where
  "upd i f w = w\<lparr>sessionAt := (sessionAt w)(i := f (sessionAt w i))\<rparr>"

definition post :: "operation \<Rightarrow> network \<Rightarrow> network" where
  "post x w = w\<lparr>posted := add_mset x (posted w)\<rparr>"

section \<open>Service\<close>

definition AddSession :: "sid \<Rightarrow> network \<Rightarrow> network" where
  "AddSession i w = w\<lparr>sessionCount := sessionCount w + 1,
     sessions := (if i \<in> set (sessions w) then sessions w else sessions w @ [i])\<rparr>"

text \<open>\<open>erase\<close> is the argument of \<open>ASSERT_CRASH\<close>: a debug build evaluates it and crashes if nothing
  was erased, a release build drops it.\<close>

definition ReleaseSession :: "build \<Rightarrow> sid \<Rightarrow> network \<Rightarrow> network outcome" where
  "ReleaseSession b i w =
     (case b of
        DebugBuild \<Rightarrow>
          if i \<notin> set (sessions w) then Inl (AssertCrash ''_session is not exist in the sessions.'')
          else Inr (w\<lparr>sessions := filter (\<lambda>j. j \<noteq> i) (sessions w), sessionCount := sessionCount w - 1\<rparr>)
      | ReleaseBuild \<Rightarrow> Inr (w\<lparr>sessionCount := sessionCount w - 1\<rparr>))"

text \<open>\<open>CreateSession\<close>: the factory makes a session with the receive buffer \<open>rb\<close>; registering its
  socket with the completion port may fail, and then the result is null.\<close>

definition CreateSession :: "recv_buffer \<Rightarrow> bool \<Rightarrow> network \<Rightarrow> sid option \<times> network" where
  "CreateSession rb registered w =
     (let i = nextSession w;
          w' = w\<lparr>nextSession := i + 1, sessionAt := (sessionAt w)(i := (new_session rb)\<lparr>has_service := True\<rparr>)\<rparr>
      in (if registered then Some i else None, w'))"

section \<open>Session\<close>

definition HandleError :: "int \<Rightarrow> session \<Rightarrow> session" where
  "HandleError errorCode s = s"

text \<open>\<open>Disconnect\<close> has an empty body.\<close>

definition Disconnect :: "sid \<Rightarrow> network \<Rightarrow> network" where
  "Disconnect i w = w"

text \<open>The error handling runs when \<open>WSARecv\<close> did \<^emph>\<open>not\<close> return \<open>SOCKET_ERROR\<close>.\<close>

definition RegisterRecv :: "sys_result \<Rightarrow> int \<Rightarrow> sid \<Rightarrow> network \<Rightarrow> network outcome" where
  "RegisterRecv wsaRecv errorCode i w =
     (if \<not> isConnected (sessionAt w i) then Inr w
      else and_then (WriteCursor (recvBuffer (sessionAt w i))) (\<lambda>_.
        let w1 = upd i (\<lambda>s. s\<lparr>recvOwner := Some (SessionObj i)\<rparr>) w;
            w2 = (if started wsaRecv errorCode then post (RecvOp i) w1 else w1)
        in Inr (if wsaRecv \<noteq> SocketError \<and> errorCode \<noteq> WSA_IO_PENDING
                then upd i (\<lambda>s. (HandleError errorCode s)\<lparr>recvOwner := None\<rparr>) w2 else w2)))"

text \<open>\<open>RegisterSend\<close> moves the queue into the event and builds an array of descriptors, which it
  drops; it starts no operation.\<close>

definition RegisterSend :: "sid \<Rightarrow> network \<Rightarrow> network" where
  "RegisterSend i w =
     (if \<not> isConnected (sessionAt w i) then w
      else upd i (\<lambda>s. s\<lparr>sendOwner := Some (SessionObj i),
        sendEventBuffers := sendEventBuffers s @ sendQueue s, sendQueue := []\<rparr>) w)"

definition Send :: "send_buf \<Rightarrow> sid \<Rightarrow> network \<Rightarrow> network" where
  "Send sb i w =
     (if \<not> isConnected (sessionAt w i) then w
      else let registerSend = \<not> isSendRegistered (sessionAt w i);
               w1 = upd i (\<lambda>s. s\<lparr>sendQueue := sendQueue s @ [sb], isSendRegistered := True\<rparr>) w
           in if registerSend then RegisterSend i w1 else w1)"

definition BroadCast :: "send_buf \<Rightarrow> network \<Rightarrow> network" where
  "BroadCast sb w = fold (Send sb) (sessions w) w"

text \<open>\<open>RegisterConnect\<close>, with the results of \<open>SetReuseAddress\<close>, \<open>BindAnyAddress\<close> and \<open>ConnectEx\<close>.\<close>

definition RegisterConnect :: "bool \<Rightarrow> bool \<Rightarrow> sys_result \<Rightarrow> int \<Rightarrow> sid \<Rightarrow> network \<Rightarrow> (bool \<times> network) outcome" where
  "RegisterConnect reuse bound connectEx errorCode i w =
     (let s = sessionAt w i in
      if isConnected s then Inr (False, w)
      else if \<not> has_service s then Inl (Undefined ''null service'')
      else if serviceType w \<noteq> Client \<or> \<not> reuse \<or> \<not> bound then Inr (False, w)
      else let w1 = upd i (\<lambda>s. s\<lparr>connectOwner := Some (SessionObj i)\<rparr>) w in
        if connectEx = SocketError \<and> errorCode \<noteq> WSA_IO_PENDING
        then Inr (False, upd i (\<lambda>s. s\<lparr>disconnectOwner := None\<rparr>) w1)
        else Inr (True, post (ConnectOp i) w1))"

definition RegisterDisconnect :: "sys_result \<Rightarrow> int \<Rightarrow> sid \<Rightarrow> network \<Rightarrow> bool \<times> network" where
  "RegisterDisconnect disconnectEx errorCode i w =
     (let w1 = upd i (\<lambda>s. s\<lparr>disconnectOwner := Some (SessionObj i)\<rparr>) w in
      if disconnectEx = SocketError \<and> errorCode \<noteq> WSA_IO_PENDING
      then (False, upd i (\<lambda>s. s\<lparr>disconnectOwner := None\<rparr>) w1)
      else (False, post (DisconnectOp i) w1))"

definition ProcessConnect :: "sys_result \<Rightarrow> int \<Rightarrow> sid \<Rightarrow> network \<Rightarrow> network outcome" where
  "ProcessConnect wsaRecv errorCode i w =
     (let w1 = upd i (\<lambda>s. s\<lparr>connectOwner := None, isConnected := True\<rparr>) w in
      if \<not> has_service (sessionAt w1 i) then Inl (Undefined ''null service'')
      else RegisterRecv wsaRecv errorCode i (AddSession i w1))"

definition ProcessDisconnect :: "build \<Rightarrow> sid \<Rightarrow> network \<Rightarrow> network outcome" where
  "ProcessDisconnect b i w =
     (let w1 = upd i (\<lambda>s. s\<lparr>disconnectOwner := None\<rparr>) w in
      if \<not> has_service (sessionAt w1 i) then Inl (Undefined ''null service'')
      else ReleaseSession b i w1)"

text \<open>\<open>onRecv\<close> is \<open>OnRecv\<close>: how many of the unread bytes the content has processed.\<close>

definition ProcessRecv :: "(int \<Rightarrow> int) \<Rightarrow> sys_result \<Rightarrow> int \<Rightarrow> int \<Rightarrow> sid \<Rightarrow> network \<Rightarrow> network outcome" where
  "ProcessRecv onRecv wsaRecv errorCode bytesTransferred i w =
     (let w1 = upd i (\<lambda>s. s\<lparr>recvOwner := None\<rparr>) w in
      if bytesTransferred = 0 then Inr (Disconnect i w1)
      else let (written, rb1) = OnWrite bytesTransferred (recvBuffer (sessionAt w1 i));
               w2 = upd i (\<lambda>s. s\<lparr>recvBuffer := rb1\<rparr>) w1 in
        if \<not> written then Inr (Disconnect i w2)
        else let dataSize = DataSize rb1 in
          and_then (ReadCursor rb1) (\<lambda>_.
            let processLen = onRecv dataSize in
            if processLen < 0 \<or> dataSize < processLen then Inr (Disconnect i w2)
            else let (readOk, rb2) = OnRead processLen rb1;
                     w3 = upd i (\<lambda>s. s\<lparr>recvBuffer := rb2\<rparr>) w2 in
              if \<not> readOk then Inr (Disconnect i w3)
              else and_then (Clean rb2) (\<lambda>rb3.
                RegisterRecv wsaRecv errorCode i (upd i (\<lambda>s. s\<lparr>recvBuffer := rb3\<rparr>) w3))))"

definition ProcessSend :: "int \<Rightarrow> sid \<Rightarrow> network \<Rightarrow> network" where
  "ProcessSend bytesTransferred i w =
     (let w1 = upd i (\<lambda>s. s\<lparr>sendOwner := None, sendEventBuffers := []\<rparr>) w in
      if bytesTransferred = 0 then Disconnect i w1
      else if sendQueue (sessionAt w1 i) = [] then upd i (\<lambda>s. s\<lparr>isSendRegistered := False\<rparr>) w1
      else RegisterSend i w1)"


section \<open>Projections\<close>

lemma sessionAt_upd [simp]: "sessionAt (upd i f w) j = (if j = i then f (sessionAt w i) else sessionAt w j)"
  by (simp add: upd_def)

lemma upd_simps [simp]:
  "nextSession (upd i f w) = nextSession w" "serviceType (upd i f w) = serviceType w"
  "sessions (upd i f w) = sessions w" "sessionCount (upd i f w) = sessionCount w"
  "maxSessionCount (upd i f w) = maxSessionCount w" "acceptOwner (upd i f w) = acceptOwner w"
  "acceptCount (upd i f w) = acceptCount w" "posted (upd i f w) = posted w"
  by (simp_all add: upd_def)

lemma post_simps [simp]:
  "sessionAt (post x w) = sessionAt w"
  "nextSession (post x w) = nextSession w" "serviceType (post x w) = serviceType w"
  "sessions (post x w) = sessions w" "sessionCount (post x w) = sessionCount w"
  "maxSessionCount (post x w) = maxSessionCount w" "acceptOwner (post x w) = acceptOwner w"
  "acceptCount (post x w) = acceptCount w" "posted (post x w) = add_mset x (posted w)"
  by (simp_all add: post_def)

lemma AddSession_simps [simp]:
  "sessionAt (AddSession i w) = sessionAt w" "nextSession (AddSession i w) = nextSession w"
  "serviceType (AddSession i w) = serviceType w" "acceptOwner (AddSession i w) = acceptOwner w"
  "posted (AddSession i w) = posted w" "sessionCount (AddSession i w) = sessionCount w + 1"
  "sessions (AddSession i w) = (if i \<in> set (sessions w) then sessions w else sessions w @ [i])"
  by (simp_all add: AddSession_def)

section \<open>Receiving\<close>

lemma RegisterRecv_idle [simp]: "\<not> isConnected (sessionAt w i) \<Longrightarrow> RegisterRecv r e i w = Inr w"
  by (simp add: RegisterRecv_def)

lemma RegisterRecv_connected:
  assumes "isConnected (sessionAt w i)" and "RegisterRecv r e i w = Inr w'"
  shows "posted w' = (if started r e then add_mset (RecvOp i) (posted w) else posted w)"
    and "recvOwner (sessionAt w' i) = (if r = Success \<and> e \<noteq> WSA_IO_PENDING then None else Some (SessionObj i))"
    and "recvBuffer (sessionAt w' i) = recvBuffer (sessionAt w i)"
    and "isConnected (sessionAt w' i)"
  using assms
  by (cases r; auto simp: RegisterRecv_def and_then_Inr_iff HandleError_def Let_def split: if_splits)+

text \<open>\<open>RegisterRecv\<close> on a connected session leaves the right owner in its event only when the
  receive is pending: if it succeeded at once the system will still complete it, but the owner is
  already gone, and if it failed the owner stays, although nothing will complete.\<close>

theorem RegisterRecv_owner:
  assumes "isConnected (sessionAt w i)" and "RegisterRecv r e i w = Inr w'"
  shows "(e = WSA_IO_PENDING \<and> recvOwner (sessionAt w' i) = Some (SessionObj i) \<and> posted w' = add_mset (RecvOp i) (posted w)) \<or>
         (e \<noteq> WSA_IO_PENDING \<and> r = Success \<and> recvOwner (sessionAt w' i) = None \<and> posted w' = add_mset (RecvOp i) (posted w)) \<or>
         (e \<noteq> WSA_IO_PENDING \<and> r = SocketError \<and> recvOwner (sessionAt w' i) = Some (SessionObj i) \<and> posted w' = posted w)"
  using RegisterRecv_connected [OF assms] by (cases r) (auto simp: started_def)

definition example_buffer :: recv_buffer where
  "example_buffer = \<lparr>capacity = 10, bufferSize = 1, readCursor = 0, writeCursor = 0, buffer = replicate 10 0\<rparr>"

definition example_network :: "network" where
  "example_network = \<lparr>sessionAt = (\<lambda>_. (new_session example_buffer)\<lparr>isConnected := True, has_service := True\<rparr>),
     nextSession = 1, serviceType = Client, sessions = [0], sessionCount = 1, maxSessionCount = 1,
     acceptOwner = (\<lambda>_. None), acceptCount = 0, posted = {#}\<rparr>"

lemmas example_defs = example_network_def example_buffer_def new_session_def

lemma WriteCursor_example [simp]: "WriteCursor example_buffer = Inr 0"
  by (simp add: WriteCursor_def example_buffer_def)

lemma RegisterRecv_example: "\<exists>w'. RegisterRecv Success 0 0 example_network = Inr w'"
  by (simp add: RegisterRecv_def example_network_def new_session_def Let_def)

lemma RegisterRecv_owner_witness:
  "\<exists>w'. RegisterRecv Success 0 0 example_network = Inr w' \<and> recvOwner (sessionAt w' 0) = None \<and> posted w' = {#RecvOp 0#}"
proof -
  obtain w' where w': "RegisterRecv Success 0 0 example_network = Inr w'"
    using RegisterRecv_example by blast
  have "isConnected (sessionAt example_network 0)" "posted example_network = {#}"
    by (simp_all add: example_network_def)
  then show ?thesis
    using RegisterRecv_owner [OF _ w'] w' by (auto simp: WSA_IO_PENDING_def)
qed

text \<open>What a completed receive does on every early return: the session is still connected, has
  no receive under way, and nothing else has been started, so it never hears of its peer again.\<close>

theorem ProcessRecv_gives_up:
  assumes "isConnected (sessionAt w i)"
    and "bytes = 0 \<or> FreeSize (recvBuffer (sessionAt w i)) < bytes"
  shows "\<exists>w'. ProcessRecv onRecv r e bytes i w = Inr w' \<and> isConnected (sessionAt w' i) \<and>
           recvOwner (sessionAt w' i) = None \<and> posted w' = posted w \<and> sessions w' = sessions w"
  using assms by (auto simp: ProcessRecv_def OnWrite_def Disconnect_def Let_def)

lemma ProcessRecv_gives_up_witness:
  "\<exists>w'. ProcessRecv id Success 0 0 0 example_network = Inr w' \<and> isConnected (sessionAt w' 0) \<and> posted w' = {#}"
  using ProcessRecv_gives_up [of example_network 0 0 id Success 0] by (auto simp: example_network_def)

lemma OnWrite_kept [simp]:
  "bufferSize (snd (OnWrite n rb)) = bufferSize rb" "readCursor (snd (OnWrite n rb)) = readCursor rb"
  by (simp_all add: OnWrite_def)

text \<open>The path through the receive handler when the content consumes a valid amount.\<close>

lemma ProcessRecv_accepted:
  assumes "ProcessRecv onRecv r e bytes i w = Inr w'" and "bytes \<noteq> 0"
    and "OnWrite bytes (recvBuffer (sessionAt w i)) = (True, rb1)"
    and "0 \<le> onRecv (DataSize rb1)" and "onRecv (DataSize rb1) \<le> DataSize rb1"
    and "OnRead (onRecv (DataSize rb1)) rb1 = (True, rb2)"
  obtains rb3 w1 where "Clean rb2 = Inr rb3"
    and "isConnected (sessionAt w1 i) = isConnected (sessionAt w i)" and "posted w1 = posted w"
    and "recvBuffer (sessionAt w1 i) = rb3" and "RegisterRecv r e i w1 = Inr w'"
proof -
  from assms obtain rb3 where "Clean rb2 = Inr rb3"
    "RegisterRecv r e i (upd i (\<lambda>s. s\<lparr>recvBuffer := rb3\<rparr>) (upd i (\<lambda>s. s\<lparr>recvBuffer := rb2\<rparr>)
       (upd i (\<lambda>s. s\<lparr>recvBuffer := rb1\<rparr>) (upd i (\<lambda>s. s\<lparr>recvOwner := None\<rparr>) w)))) = Inr w'"
    by (cases "ReadCursor rb1"; cases "Clean rb2") (simp_all add: ProcessRecv_def)
  then show thesis
    by (intro that) auto
qed



section \<open>Sending\<close>

lemma Send_connected:
  assumes "isConnected (sessionAt w i)"
  shows "isConnected (sessionAt (Send sb i w) i)"
    and "isSendRegistered (sessionAt (Send sb i w) i)"
    and "posted (Send sb i w) = posted w"
    and "sendEventBuffers (sessionAt (Send sb i w) i) @ sendQueue (sessionAt (Send sb i w) i) =
           sendEventBuffers (sessionAt w i) @ sendQueue (sessionAt w i) @ [sb]"
    and "isSendRegistered (sessionAt w i) \<Longrightarrow>
           sendEventBuffers (sessionAt (Send sb i w) i) = sendEventBuffers (sessionAt w i)"
    and "\<not> isSendRegistered (sessionAt w i) \<Longrightarrow> sendQueue (sessionAt (Send sb i w) i) = []"
  using assms by (auto simp: Send_def RegisterSend_def Let_def)

lemma Sends_connected:
  assumes "isConnected (sessionAt w i)" and "isSendRegistered (sessionAt w i)"
  shows "let w' = fold (\<lambda>sb. Send sb i) sbs w in posted w' = posted w \<and>
           isSendRegistered (sessionAt w' i) \<and> sendEventBuffers (sessionAt w' i) = sendEventBuffers (sessionAt w i) \<and>
           sendQueue (sessionAt w' i) = sendQueue (sessionAt w i) @ sbs"
  using assms
proof (induction sbs arbitrary: w)
  case (Cons sb sbs)
  then have "sendQueue (sessionAt (Send sb i w) i) = sendQueue (sessionAt w i) @ [sb]"
    using Send_connected(4,5) [of w i sb] by simp
  with Cons.IH [of "Send sb i w"] Cons.prems show ?case
    using Send_connected [of w i sb] by (simp add: Let_def)
qed simp

text \<open>What \<open>Send\<close> does with its buffers: on an idle connected session the first one goes into the
  send event and every later one waits in the queue, in order, behind a send that is marked as
  registered but was never given to the system.\<close>

theorem Send_never_sends:
  assumes "isConnected (sessionAt w i)" and "\<not> isSendRegistered (sessionAt w i)"
    and "sendEventBuffers (sessionAt w i) = []" and "sendQueue (sessionAt w i) = []"
  shows "let w' = fold (\<lambda>sb. Send sb i) (sb # sbs) w in posted w' = posted w \<and>
           isSendRegistered (sessionAt w' i) \<and> sendEventBuffers (sessionAt w' i) = [sb] \<and>
           sendQueue (sessionAt w' i) = sbs"
  using Sends_connected [of "Send sb i w" i sbs] Send_connected [OF assms(1), of sb] assms
  by (simp add: Let_def)

lemma Send_never_sends_witness:
  "let w' = fold (\<lambda>sb. Send sb 0) [10, 20, 30] example_network in posted w' = {#} \<and>
     sendEventBuffers (sessionAt w' 0) = [10] \<and> sendQueue (sessionAt w' 0) = [20, 30]"
  using Send_never_sends [of example_network 0 10 "[20, 30]"] by (simp add: example_network_def new_session_def Let_def)

section \<open>Sessions of a service\<close>

text \<open>A disconnection, in a release build: the session stays in the set of sessions and stays
  marked as connected, so a broadcast still reaches it, while the count goes down.\<close>

theorem ProcessDisconnect_release:
  assumes "has_service (sessionAt w i)"
  shows "\<exists>w'. ProcessDisconnect ReleaseBuild i w = Inr w' \<and> sessions w' = sessions w \<and>
           sessionCount w' = sessionCount w - 1 \<and> isConnected (sessionAt w' i) = isConnected (sessionAt w i)"
  using assms by (simp add: ProcessDisconnect_def ReleaseSession_def)

lemma ProcessDisconnect_release_witness:
  "\<exists>w'. ProcessDisconnect ReleaseBuild 0 example_network = Inr w' \<and> sessions w' = [0] \<and> sessionCount w' = 0"
  using ProcessDisconnect_release [of example_network 0] by (auto simp: example_network_def)

end
