(* ===== verification/Net_Dispatch.thy ===== *)
theory Net_Dispatch
  imports Net_Session
begin

text \<open>
  ServerCore/Listener.cpp, the two \<open>Start\<close> functions of Service.cpp and the completion loop of
  IocpService.cpp on top of Net_Session: which handler a completed operation reaches, and what
  that does to the network.
\<close>

section \<open>Listener\<close>

text \<open>What the system answers during one handler: for the n-th \<open>CreateSession\<close> whether its socket
  could be registered, and the result and error code of the n-th \<open>AcceptEx\<close>; \<open>SO_UPDATE_ACCEPT_CONTEXT\<close>;
  the peer's address, if \<open>getpeername\<close> succeeded; \<open>WSARecv\<close>.\<close>

record answers =
  registers :: "nat \<Rightarrow> bool"
  acceptEx :: "nat \<Rightarrow> sys_result \<times> int"
  syncContext :: bool
  peerName :: "nat option"
  wsaRecvResult :: "sys_result \<times> int"

text \<open>\<open>RegisterAccept\<close> calls itself until \<open>AcceptEx\<close> has started, without any bound; \<open>n\<close> counts
  the attempts.\<close>

partial_function (option) RegisterAccept ::
  "recv_buffer \<Rightarrow> answers \<Rightarrow> nat \<Rightarrow> nat \<Rightarrow> network \<Rightarrow> network outcome option" where
  "RegisterAccept rb sys n a w =
     (case CreateSession rb (registers sys n) w of
        (None, w1) \<Rightarrow> Some (Inl (Undefined ''null session''))
      | (Some i, w1) \<Rightarrow>
          (case WriteCursor (recvBuffer (sessionAt w1 i)) of
             Inl e \<Rightarrow> Some (Inl e)
           | Inr _ \<Rightarrow>
               let w2 = w1\<lparr>acceptOwner := (acceptOwner w1)(a := Some (SessionObj i))\<rparr> in
               if started (fst (acceptEx sys n)) (snd (acceptEx sys n))
               then Some (Inr (post (AcceptOp a) w2))
               else RegisterAccept rb sys (n + 1) a w2))"

declare RegisterAccept.simps [code]

text \<open>\<open>getpeername\<close> having succeeded is treated as the failure.\<close>

definition ProcessAccept :: "recv_buffer \<Rightarrow> answers \<Rightarrow> nat \<Rightarrow> network \<Rightarrow> network outcome option" where
  "ProcessAccept rb sys a w =
     (case acceptOwner w a of
        Some (SessionObj i) \<Rightarrow>
          (if \<not> syncContext sys then RegisterAccept rb sys 0 a w
           else if peerName sys \<noteq> None then RegisterAccept rb sys 0 a w
           else case ProcessConnect (fst (wsaRecvResult sys)) (snd (wsaRecvResult sys)) i w of
               Inl e \<Rightarrow> Some (Inl e)
             | Inr w1 \<Rightarrow> RegisterAccept rb sys 0 a w1)
      | _ \<Rightarrow> Some (Inl (Undefined ''owner is not a session'')))"

text \<open>\<open>Listener::DispatchEvent\<close>; the event's type is the kind of its operation.\<close>

definition Listener_DispatchEvent :: "build \<Rightarrow> recv_buffer \<Rightarrow> answers \<Rightarrow> operation \<Rightarrow> network \<Rightarrow> network outcome option" where
  "Listener_DispatchEvent b rb sys x w =
     (case x of
        AcceptOp a \<Rightarrow> ProcessAccept rb sys a w
      | _ \<Rightarrow> (if b = DebugBuild then Some (Inl (AssertCrash ''Listener - EventType must be EventType::ACCEPT''))
               else Some (Inl (Undefined ''cast to AcceptEvent''))))"

definition Session_DispatchEvent :: "build \<Rightarrow> (int \<Rightarrow> int) \<Rightarrow> answers \<Rightarrow> operation \<Rightarrow> int \<Rightarrow> sid \<Rightarrow> network \<Rightarrow> network outcome" where
  "Session_DispatchEvent b onRecv sys x byteTransferred i w =
     (case x of
        ConnectOp _ \<Rightarrow> ProcessConnect (fst (wsaRecvResult sys)) (snd (wsaRecvResult sys)) i w
      | DisconnectOp _ \<Rightarrow> ProcessDisconnect b i w
      | RecvOp _ \<Rightarrow> ProcessRecv onRecv (fst (wsaRecvResult sys)) (snd (wsaRecvResult sys)) byteTransferred i w
      | SendOp _ \<Rightarrow> Inr (ProcessSend byteTransferred i w)
      | AcceptOp _ \<Rightarrow> Inr w)"

text \<open>The owner a completed operation's event holds now.\<close>

fun event_owner :: "operation \<Rightarrow> network \<Rightarrow> handler option" where
  "event_owner (ConnectOp i) w = connectOwner (sessionAt w i)"
| "event_owner (DisconnectOp i) w = disconnectOwner (sessionAt w i)"
| "event_owner (RecvOp i) w = recvOwner (sessionAt w i)"
| "event_owner (SendOp i) w = sendOwner (sessionAt w i)"
| "event_owner (AcceptOp a) w = acceptOwner w a"

definition dispatch :: "build \<Rightarrow> recv_buffer \<Rightarrow> (int \<Rightarrow> int) \<Rightarrow> answers \<Rightarrow> operation \<Rightarrow> int \<Rightarrow> network \<Rightarrow> network outcome option" where
  "dispatch b rb onRecv sys x byteTransferred w =
     (case event_owner x w of
        None \<Rightarrow> Some (Inl (Undefined ''null session object''))
      | Some (SessionObj i) \<Rightarrow> Some (Session_DispatchEvent b onRecv sys x byteTransferred i w)
      | Some ListenerObj \<Rightarrow> Listener_DispatchEvent b rb sys x w)"

text \<open>\<open>DispatchCompletionPacket\<close>, with what \<open>GetQueuedCompletionStatus\<close> gave: a completed operation,
  successful or not, or a failure without one.\<close>

datatype completion = Completed operation int | FailedNoEvent int

definition DispatchCompletionPacket :: "build \<Rightarrow> recv_buffer \<Rightarrow> (int \<Rightarrow> int) \<Rightarrow> answers \<Rightarrow> completion \<Rightarrow> network \<Rightarrow>
    (bool \<times> network) outcome option" where
  "DispatchCompletionPacket b rb onRecv sys c w =
     (case c of
        Completed x byteTransferred \<Rightarrow>
          map_option (\<lambda>r. and_then r (\<lambda>w'. Inr (True, w')))
            (dispatch b rb onRecv sys x byteTransferred (w\<lparr>posted := posted w - {#x#}\<rparr>))
      | FailedNoEvent errorCode \<Rightarrow>
          (if errorCode = WAIT_TIMEOUT then Some (Inr (False, w))
           else Some (Inl (Undefined ''null event''))))"

section \<open>Starting\<close>

text \<open>\<open>StartAccept\<close> after the listening socket has been set up: one \<open>AcceptEvent\<close> per allowed session,
  with the answers the system gives for each.\<close>

fun start_accepts :: "recv_buffer \<Rightarrow> answers list \<Rightarrow> network \<Rightarrow> network outcome option" where
  "start_accepts rb [] w = Some (Inr w)"
| "start_accepts rb (sys # rest) w =
     (case RegisterAccept rb sys 0 (acceptCount w)
         (w\<lparr>acceptCount := acceptCount w + 1, acceptOwner := (acceptOwner w)(acceptCount w := Some ListenerObj)\<rparr>) of
        None \<Rightarrow> None
      | Some (Inl e) \<Rightarrow> Some (Inl e)
      | Some (Inr w') \<Rightarrow> start_accepts rb rest w')"

text \<open>\<open>socketSteps\<close>: socket created, registered, the two options set, bound, listening, in that order.\<close>

definition StartAccept :: "recv_buffer \<Rightarrow> bool list \<Rightarrow> answers list \<Rightarrow> network \<Rightarrow> (bool \<times> network) outcome option" where
  "StartAccept rb socketSteps syss w =
     (if list_all id socketSteps
      then map_option (\<lambda>r. and_then r (\<lambda>w'. Inr (True, w'))) (start_accepts rb (take (nat (maxSessionCount w)) syss) w)
      else Some (Inr (False, w)))"

text \<open>\<open>ServerService::Start\<close>: \<open>made\<close> is whether the listener could be allocated.\<close>

definition ServerService_Start :: "recv_buffer \<Rightarrow> bool \<Rightarrow> bool \<Rightarrow> bool list \<Rightarrow> answers list \<Rightarrow> network \<Rightarrow> (bool \<times> network) outcome option" where
  "ServerService_Start rb has_factory made socketSteps syss w =
     (if \<not> has_factory then Some (Inr (False, w))
      else if \<not> made then Some (Inr (False, w))
      else StartAccept rb socketSteps syss w)"

text \<open>\<open>ClientService::Start\<close>: for every session whether its socket could be registered and what the
  system calls of \<open>RegisterConnect\<close> gave.\<close>

fun client_connects :: "recv_buffer \<Rightarrow> (bool \<times> bool \<times> bool \<times> sys_result \<times> int) list \<Rightarrow> network \<Rightarrow> (bool \<times> network) outcome" where
  "client_connects rb [] w = Inr (True, w)"
| "client_connects rb ((registered, reuse, bound, connectEx, errorCode) # rest) w =
     (case CreateSession rb registered w of
        (None, w1) \<Rightarrow> Inl (Undefined ''null session'')
      | (Some i, w1) \<Rightarrow>
          and_then (RegisterConnect reuse bound connectEx errorCode i w1) (\<lambda>(ok, w2).
            if ok then client_connects rb rest w2 else Inr (False, w2)))"

definition ClientService_Start where
  "ClientService_Start rb has_factory answers w =
     (if \<not> has_factory then Inr (False, w)
      else client_connects rb (take (nat (maxSessionCount w)) answers) w)"

definition new_network :: "ServiceType \<Rightarrow> int \<Rightarrow> network" where
  "new_network ty n = \<lparr>sessionAt = (\<lambda>_. new_session \<lparr>capacity = 0, bufferSize = 0, readCursor = 0, writeCursor = 0, buffer = []\<rparr>),
     nextSession = 0, serviceType = ty, sessions = [], sessionCount = 0, maxSessionCount = n,
     acceptOwner = (\<lambda>_. None), acceptCount = 0, posted = {#}\<rparr>"

section \<open>Runs\<close>

text \<open>After starting: completions of posted operations in any order, and sends and broadcasts by the
  content at any time.\<close>

inductive net_run :: "build \<Rightarrow> ServiceType \<Rightarrow> int \<Rightarrow> network \<Rightarrow> bool" for b ty n where
  server: "ty = Server \<Longrightarrow> ServerService_Start rb has_factory made socketSteps syss (new_network ty n) = Some (Inr (ok, w)) \<Longrightarrow> net_run b ty n w"
| client: "ty = Client \<Longrightarrow> ClientService_Start rb has_factory ans (new_network ty n) = Inr (ok, w) \<Longrightarrow> net_run b ty n w"
| complete: "net_run b ty n w \<Longrightarrow> x \<in># posted w \<Longrightarrow>
    DispatchCompletionPacket b rb onRecv sys (Completed x bytes) w = Some (Inr (ret, w')) \<Longrightarrow> net_run b ty n w'"
| send: "net_run b ty n w \<Longrightarrow> net_run b ty n (Send sb i w)"
| broadcast: "net_run b ty n w \<Longrightarrow> net_run b ty n (BroadCast sb w)"
| connect: "net_run b ty n w \<Longrightarrow> i < nextSession w \<Longrightarrow> RegisterConnect reuse bound r e i w = Inr (ok, w') \<Longrightarrow> net_run b ty n w'"
| disconnect: "net_run b ty n w \<Longrightarrow> i < nextSession w \<Longrightarrow> net_run b ty n (snd (RegisterDisconnect r e i w))"

section \<open>Accepting\<close>

lemma CreateSession_eq:
  "CreateSession rb registered w =
     (if registered then Some (nextSession w) else None,
      w\<lparr>nextSession := nextSession w + 1, sessionAt := (sessionAt w)(nextSession w := (new_session rb)\<lparr>has_service := True\<rparr>)\<rparr>)"
  by (simp add: CreateSession_def Let_def)

text \<open>One round of \<open>RegisterAccept\<close> and the world it leaves.\<close>

definition accept_round :: "recv_buffer \<Rightarrow> nat \<Rightarrow> network \<Rightarrow> network" where
  "accept_round rb a w = (let w1 = snd (CreateSession rb True w) in
     w1\<lparr>acceptOwner := (acceptOwner w1)(a := Some (SessionObj (nextSession w)))\<rparr>)"

lemma RegisterAccept_unfold:
  "RegisterAccept rb sys n a w =
     (if \<not> registers sys n then Some (Inl (Undefined ''null session''))
      else case WriteCursor rb of Inl e \<Rightarrow> Some (Inl e)
        | Inr _ \<Rightarrow> if started (fst (acceptEx sys n)) (snd (acceptEx sys n))
                  then Some (Inr (post (AcceptOp a) (accept_round rb a w)))
                  else RegisterAccept rb sys (n + 1) a (accept_round rb a w))"
  by (subst RegisterAccept.simps) (cases "WriteCursor rb"; simp add: CreateSession_eq accept_round_def new_session_def Let_def)

lemma RegisterAccept_returns:
  "RegisterAccept rb sys n a w = Some r \<Longrightarrow>
     (\<exists>k. n \<le> k \<and> (\<not> registers sys k \<or> started (fst (acceptEx sys k)) (snd (acceptEx sys k)))) \<or> (\<exists>e. WriteCursor rb = Inl e)"
proof (erule RegisterAccept.raw_induct [rotated])
  fix f rb sys n a w r
  assume IH: "\<And>rb sys n a w r. f rb sys n a w = Some r \<Longrightarrow>
      (\<exists>k. n \<le> k \<and> (\<not> registers sys k \<or> started (fst (acceptEx sys k)) (snd (acceptEx sys k)))) \<or> (\<exists>e. WriteCursor rb = Inl e)"
    and run: "(case CreateSession rb (registers sys n) w of
        (None, w1) \<Rightarrow> Some (Inl (Undefined ''null session''))
      | (Some i, w1) \<Rightarrow>
          (case WriteCursor (recvBuffer (sessionAt w1 i)) of
             Inl e \<Rightarrow> Some (Inl e)
           | Inr _ \<Rightarrow>
               let w2 = w1\<lparr>acceptOwner := (acceptOwner w1)(a := Some (SessionObj i))\<rparr> in
               if started (fst (acceptEx sys n)) (snd (acceptEx sys n))
               then Some (Inr (post (AcceptOp a) w2))
               else f rb sys (n + 1) a w2)) = Some r"
  show "(\<exists>k. n \<le> k \<and> (\<not> registers sys k \<or> started (fst (acceptEx sys k)) (snd (acceptEx sys k)))) \<or> (\<exists>e. WriteCursor rb = Inl e)"
  proof (cases "registers sys n \<and> \<not> started (fst (acceptEx sys n)) (snd (acceptEx sys n))")
    case True
    with run have "(\<exists>e. WriteCursor rb = Inl e) \<or> (\<exists>w'. f rb sys (n + 1) a w' = Some r)"
      by (cases "WriteCursor rb") (auto simp: CreateSession_eq new_session_def Let_def)
    with IH show ?thesis
      by (meson add_leD1)
  qed blast
qed

lemma RegisterAccept_succeeds:
  assumes "WriteCursor rb = Inr c"
    and "\<not> registers sys (n + k) \<or> started (fst (acceptEx sys (n + k))) (snd (acceptEx sys (n + k)))"
  shows "RegisterAccept rb sys n a w \<noteq> None"
  using assms(2)
proof (induction k arbitrary: n w)
  case 0
  then show ?case
    by (subst RegisterAccept_unfold) (simp add: assms(1))
next
  case (Suc k)
  then show ?case
    using Suc.IH [of "n + 1" "accept_round rb a w"]
    by (subst RegisterAccept_unfold) (simp add: assms(1))
qed

text \<open>\<open>RegisterAccept\<close> calls itself without a bound: it returns if and only if the system at some
  attempt refuses to register the new session's socket (which dereferences null) or lets the
  accept start; while every attempt fails it never returns.\<close>

theorem RegisterAccept_returns_iff:
  assumes "rb_wf rb" and "FreeSize rb > 0"
  shows "RegisterAccept rb sys 0 a w \<noteq> None \<longleftrightarrow>
           (\<exists>k. \<not> registers sys k \<or> started (fst (acceptEx sys k)) (snd (acceptEx sys k)))"
proof -
  have "WriteCursor rb = Inr (writeCursor rb)"
    using assms by (simp add: WriteCursor_def rb_wf_def FreeSize_def)
  then show ?thesis
    using RegisterAccept_succeeds [of rb _ sys 0] RegisterAccept_returns [of rb sys 0 a w] by fastforce
qed

definition all_well :: answers where
  "all_well = \<lparr>registers = (\<lambda>_. True), acceptEx = (\<lambda>_. (SocketError, WSA_IO_PENDING)), syncContext = True,
     peerName = Some 1, wsaRecvResult = (SocketError, WSA_IO_PENDING)\<rparr>"

lemma rb_wf_example: "rb_wf example_buffer" "FreeSize example_buffer > 0"
  by (simp_all add: rb_wf_def example_buffer_def BUFFER_COUNT_def FreeSize_def)

lemma RegisterAccept_returns_iff_witness:
  "RegisterAccept example_buffer (all_well\<lparr>acceptEx := (\<lambda>_. (SocketError, 10038))\<rparr>) 0 0 example_network = None"
  using RegisterAccept_returns_iff [OF rb_wf_example, of "all_well\<lparr>acceptEx := (\<lambda>_. (SocketError, 10038))\<rparr>" 0 example_network]
  by (simp add: all_well_def started_def WSA_IO_PENDING_def)

text \<open>An accept whose peer's address could be read is dropped: the session stays unconnected and
  the event is only used to accept the next one.\<close>

theorem ProcessAccept_drops_peer:
  assumes "acceptOwner w a = Some (SessionObj i)" and "syncContext sys" and "peerName sys = Some addr"
  shows "ProcessAccept rb sys a w = RegisterAccept rb sys 0 a w"
  using assms by (simp add: ProcessAccept_def)

lemma ProcessAccept_drops_peer_witness:
  "ProcessAccept example_buffer all_well 0 (example_network\<lparr>acceptOwner := (\<lambda>_. Some (SessionObj 0))\<rparr>) =
   RegisterAccept example_buffer all_well 0 0 (example_network\<lparr>acceptOwner := (\<lambda>_. Some (SessionObj 0))\<rparr>)"
  using ProcessAccept_drops_peer [of "example_network\<lparr>acceptOwner := (\<lambda>_. Some (SessionObj 0))\<rparr>" 0 0 all_well 1]
  by (simp add: all_well_def)

text \<open>What holds of every world in which \<open>RegisterAccept\<close> may run holds of the one it leaves.\<close>

lemma RegisterAccept_rule:
  assumes "RegisterAccept rb sys n a w = Some (Inr w')" and "P w"
    and step: "\<And>v. P v \<Longrightarrow> P (accept_round rb a v)"
  shows "\<exists>v. P v \<and> w' = post (AcceptOp a) (accept_round rb a v)"
proof -
  have unfolded: "w' = post (AcceptOp a) (accept_round rb a v) \<or>
      RegisterAccept rb sys (n + 1) a (accept_round rb a v) = Some (Inr w') \<and>
        registers sys n \<and> \<not> started (fst (acceptEx sys n)) (snd (acceptEx sys n))"
    if "RegisterAccept rb sys n a v = Some (Inr w')" for n v
  proof -
    have c: "\<exists>c. WriteCursor rb = Inr c" "registers sys n"
      using that RegisterAccept_unfold [of rb sys n a v] by (auto split: if_splits sum.splits)
    show ?thesis
      using that RegisterAccept_unfold [of rb sys n a v] c
      by (cases "started (fst (acceptEx sys n)) (snd (acceptEx sys n))") auto
  qed
  have *: "\<exists>v. P v \<and> w' = post (AcceptOp a) (accept_round rb a v)"
    if "RegisterAccept rb sys n a v = Some (Inr w')" "P v"
      "\<not> registers sys (n + k) \<or> started (fst (acceptEx sys (n + k))) (snd (acceptEx sys (n + k)))" for k n v
    using that
  proof (induction k arbitrary: n v)
    case 0
    then show ?case
      using unfolded [OF 0(1)] by auto
  next
    case (Suc k)
    then show ?case
      using unfolded [OF Suc.prems(1)] Suc.IH [of "n + 1" "accept_round rb a v"] step [of v] by auto
  qed
  consider k where "\<not> registers sys (n + k) \<or> started (fst (acceptEx sys (n + k))) (snd (acceptEx sys (n + k)))"
    | e where "WriteCursor rb = Inl e"
    using RegisterAccept_returns [OF assms(1)] by (metis le_Suc_ex)
  then show ?thesis
  proof cases
    case 2
    then show ?thesis
      using assms(1) RegisterAccept_unfold [of rb sys n a w] by (auto split: if_splits)
  qed (use * assms in blast)
qed

section \<open>The invariant of every run\<close>

text \<open>\<open>X\<close>: accept events that are being prepared.\<close>

definition net_ok :: "nat set \<Rightarrow> build \<Rightarrow> network \<Rightarrow> bool" where
  "net_ok X b w \<longleftrightarrow>
     (\<forall>i. connectOwner (sessionAt w i) \<noteq> None \<longrightarrow> connectOwner (sessionAt w i) = Some (SessionObj i) \<and>
        \<not> isConnected (sessionAt w i) \<and> serviceType w = Client \<and> i < nextSession w) \<and>
     (\<forall>i. isConnected (sessionAt w i) \<longrightarrow> i < nextSession w \<and> serviceType w = Client) \<and>
     (\<forall>i \<in> set (sessions w). isConnected (sessionAt w i)) \<and> distinct (sessions w) \<and>
     (b = DebugBuild \<longrightarrow> sessionCount w = int (length (sessions w))) \<and>
     (\<forall>i. SendOp i \<notin># posted w) \<and>
     (\<forall>a. AcceptOp a \<in># posted w \<longrightarrow> a \<in> X \<or> (\<exists>i. acceptOwner w a = Some (SessionObj i)))"

lemma net_okI:
  assumes "\<And>i. connectOwner (sessionAt w i) \<noteq> None \<Longrightarrow> connectOwner (sessionAt w i) = Some (SessionObj i) \<and>
        \<not> isConnected (sessionAt w i) \<and> serviceType w = Client \<and> i < nextSession w"
    and "\<And>i. isConnected (sessionAt w i) \<Longrightarrow> i < nextSession w \<and> serviceType w = Client"
    and "\<And>i. i \<in> set (sessions w) \<Longrightarrow> isConnected (sessionAt w i)" and "distinct (sessions w)"
    and "b = DebugBuild \<Longrightarrow> sessionCount w = int (length (sessions w))"
    and "\<And>i. SendOp i \<notin># posted w"
    and "\<And>a. AcceptOp a \<in># posted w \<Longrightarrow> a \<notin> X \<Longrightarrow> \<exists>i. acceptOwner w a = Some (SessionObj i)"
  shows "net_ok X b w"
  unfolding net_ok_def using assms by blast

lemma net_okD:
  assumes "net_ok X b w"
  shows "connectOwner (sessionAt w i) \<noteq> None \<Longrightarrow> connectOwner (sessionAt w i) = Some (SessionObj i) \<and>
        \<not> isConnected (sessionAt w i) \<and> serviceType w = Client \<and> i < nextSession w"
    and "isConnected (sessionAt w i) \<Longrightarrow> i < nextSession w \<and> serviceType w = Client"
    and "i \<in> set (sessions w) \<Longrightarrow> isConnected (sessionAt w i)" and "distinct (sessions w)"
    and "b = DebugBuild \<Longrightarrow> sessionCount w = int (length (sessions w))"
    and "SendOp i \<notin># posted w"
    and "AcceptOp a \<in># posted w \<Longrightarrow> a \<notin> X \<Longrightarrow> \<exists>i. acceptOwner w a = Some (SessionObj i)"
  using assms unfolding net_ok_def by blast+

text \<open>Handlers that change neither connections nor the service: the frame they leave.\<close>

definition frame :: "network \<Rightarrow> network \<Rightarrow> bool" where
  "frame w w' \<longleftrightarrow> nextSession w' = nextSession w \<and> serviceType w' = serviceType w \<and>
     sessions w' = sessions w \<and> sessionCount w' = sessionCount w \<and> acceptOwner w' = acceptOwner w \<and>
     (\<forall>i. isConnected (sessionAt w' i) = isConnected (sessionAt w i) \<and>
        connectOwner (sessionAt w' i) = connectOwner (sessionAt w i)) \<and>
     (\<forall>x \<in># posted w'. x \<in># posted w \<or> x \<in> range RecvOp \<union> range DisconnectOp)"

lemma frame_refl [simp]: "frame w w"
  by (simp add: frame_def)

lemma frame_trans [trans]: "frame u v \<Longrightarrow> frame v w \<Longrightarrow> frame u w"
  unfolding frame_def by auto

lemma net_ok_frame:
  assumes ok: "net_ok X b w" and f: "frame w w'"
  shows "net_ok X b w'"
proof -
  have eqs: "nextSession w' = nextSession w" "serviceType w' = serviceType w"
     "sessions w' = sessions w" "sessionCount w' = sessionCount w" "acceptOwner w' = acceptOwner w"
     "\<And>i. isConnected (sessionAt w' i) = isConnected (sessionAt w i)"
     "\<And>i. connectOwner (sessionAt w' i) = connectOwner (sessionAt w i)"
    using f by (simp_all add: frame_def)
  have posts: "SendOp i \<in># posted w' \<Longrightarrow> SendOp i \<in># posted w" "AcceptOp a \<in># posted w' \<Longrightarrow> AcceptOp a \<in># posted w" for i a
    using f by (auto simp: frame_def)
  show ?thesis
    by (rule net_okI, simp_all only: eqs) (use net_okD [OF ok] posts in blast)+
qed

lemma frame_upd:
  "isConnected (f (sessionAt w i)) = isConnected (sessionAt w i) \<Longrightarrow>
   connectOwner (f (sessionAt w i)) = connectOwner (sessionAt w i) \<Longrightarrow> frame w (upd i f w)"
  by (simp add: frame_def)

lemma frame_post: "x \<in> range RecvOp \<union> range DisconnectOp \<Longrightarrow> frame w (post x w)"
  by (simp add: frame_def)

lemma frame_take: "frame w (w\<lparr>posted := posted w - {#x#}\<rparr>)"
  by (auto simp: frame_def dest: in_diffD)

lemma frame_RegisterRecv: "RegisterRecv r e i w = Inr w' \<Longrightarrow> frame w w'"
  by (auto simp: RegisterRecv_def and_then_Inr_iff HandleError_def frame_def Let_def split: if_splits)

lemma frame_RegisterSend: "frame w (RegisterSend i w)"
  by (simp add: RegisterSend_def frame_def)

lemma frame_Send: "frame w (Send sb i w)"
  by (simp add: Send_def RegisterSend_def frame_def Let_def)

lemma frame_BroadCast: "frame w (BroadCast sb w)"
proof -
  have "frame w (fold (Send sb) is w)" for "is"
    by (induction "is" arbitrary: w) (auto intro: frame_trans frame_Send)
  then show ?thesis
    by (simp add: BroadCast_def)
qed

lemma frame_RegisterDisconnect: "frame w (snd (RegisterDisconnect r e i w))"
  by (simp add: RegisterDisconnect_def frame_def Let_def)

lemma frame_ProcessSend: "frame w (ProcessSend bytes i w)"
  by (simp add: ProcessSend_def RegisterSend_def Disconnect_def frame_def Let_def)

lemma frame_set_recv [simp]:
  "frame w (upd i (\<lambda>s. s\<lparr>recvBuffer := rb\<rparr>) v) = frame w v"
  "frame w (upd i (\<lambda>s. s\<lparr>recvOwner := h\<rparr>) v) = frame w v"
  by (auto simp: frame_def)

lemma frame_ProcessRecv:
  assumes "ProcessRecv onRecv r e bytes i w = Inr w'"
  shows "frame w w'"
proof -
  have "\<exists>v. (w' = v \<or> RegisterRecv r e i v = Inr w') \<and> frame w v"
    using assms
    by (auto simp: ProcessRecv_def Disconnect_def Let_def and_then_Inr_iff intro: exI [of _ w']
        split: if_splits prod.splits)
  then show ?thesis
    using frame_RegisterRecv frame_trans by blast
qed

lemma net_ok_ReleaseSession:
  assumes ok: "net_ok X b w" and run: "ReleaseSession b i w = Inr w'"
  shows "net_ok X b w'"
proof -
  have eqs: "nextSession w' = nextSession w" "serviceType w' = serviceType w" "acceptOwner w' = acceptOwner w"
     "sessionAt w' = sessionAt w" "posted w' = posted w"
    using run by (auto simp: ReleaseSession_def split: build.splits if_splits)
  have ss: "set (sessions w') \<subseteq> set (sessions w)" "distinct (sessions w')"
    using run net_okD(4) [OF ok] by (auto simp: ReleaseSession_def split: build.splits if_splits)
  have count: "sessionCount w' = int (length (sessions w'))" if "b = DebugBuild"
  proof -
    have i: "i \<in> set (sessions w)" and w': "w' = w\<lparr>sessions := filter (\<lambda>j. j \<noteq> i) (sessions w), sessionCount := sessionCount w - 1\<rparr>"
      using run that by (auto simp: ReleaseSession_def split: if_splits)
    have "set (filter (\<lambda>j. j \<noteq> i) (sessions w)) = set (sessions w) - {i}"
      by auto
    then have "length (filter (\<lambda>j. j \<noteq> i) (sessions w)) = length (sessions w) - 1"
      using i net_okD(4) [OF ok] by (metis card_Diff_singleton distinct_card distinct_filter)
    moreover have "0 < length (sessions w)"
      using i by (cases "sessions w") auto
    ultimately show ?thesis
      using net_okD(5) [OF ok that] by (simp add: w' of_nat_diff Suc_le_eq)
  qed
  show ?thesis
    by (rule net_okI, simp_all only: eqs) (use net_okD [OF ok] ss count in blast)+
qed

lemma net_ok_upd_disconnectOwner: "net_ok X b w \<Longrightarrow> net_ok X b (upd i (\<lambda>s. s\<lparr>disconnectOwner := h\<rparr>) w)"
  by (rule net_ok_frame) (auto intro: frame_upd)

lemma net_ok_ProcessDisconnect: "net_ok X b w \<Longrightarrow> ProcessDisconnect b i w = Inr w' \<Longrightarrow> net_ok X b w'"
  by (auto simp: ProcessDisconnect_def Let_def split: if_splits intro: net_ok_ReleaseSession [OF net_ok_upd_disconnectOwner])

lemma net_ok_ProcessConnect:
  assumes ok: "net_ok X b w" and own: "connectOwner (sessionAt w i) = Some h"
    and run: "ProcessConnect r e i w = Inr w'"
  shows "net_ok X b w'"
proof -
  let ?v = "AddSession i (upd i (\<lambda>s. s\<lparr>connectOwner := None, isConnected := True\<rparr>) w)"
  have o: "\<not> isConnected (sessionAt w i)" "serviceType w = Client" "i < nextSession w"
    using net_okD(1) [OF ok, of i] own by auto
  have "i \<notin> set (sessions w)"
    using net_okD(3) [OF ok] o by blast
  then have "net_ok X b ?v"
    by (intro net_okI) (use net_okD [OF ok] o in \<open>auto split: if_splits\<close>)
  moreover have "RegisterRecv r e i ?v = Inr w'"
    using run by (simp add: ProcessConnect_def Let_def split: if_splits)
  ultimately show ?thesis
    using net_ok_frame frame_RegisterRecv by blast
qed

lemma net_ok_CreateSession:
  assumes ok: "net_ok X b w"
  shows "net_ok X b (snd (CreateSession rb registered w))"
proof -
  let ?i = "nextSession w"
  have o: "\<not> isConnected (sessionAt w ?i)"
    using net_okD(2) [OF ok, of ?i] by auto
  then have i: "?i \<notin> set (sessions w)"
    using net_okD(3) [OF ok] by blast
  show ?thesis
    by (rule net_okI; use net_okD [OF ok] i in \<open>simp add: CreateSession_eq new_session_def split: if_splits; force?\<close>)
qed

lemma net_ok_accept_round:
  assumes "net_ok X b w"
  shows "net_ok X b (accept_round rb a w)"
proof -
  have "net_ok X b (snd (CreateSession rb True w))"
    using net_ok_CreateSession [OF assms] by blast
  then show ?thesis
    by (auto simp: net_ok_def accept_round_def Let_def)
qed

lemma net_ok_RegisterAccept:
  assumes ok: "net_ok (insert a X) b w" and run: "RegisterAccept rb sys n a w = Some (Inr w')"
  shows "net_ok X b w'"
proof -
  obtain v where v: "net_ok (insert a X) b v" "w' = post (AcceptOp a) (accept_round rb a v)"
    using RegisterAccept_rule [OF run, of "net_ok (insert a X) b"] ok net_ok_accept_round by blast
  have own: "acceptOwner w' a = Some (SessionObj (nextSession v))"
    by (simp add: v(2) accept_round_def Let_def)
  have "net_ok (insert a X) b w'"
    using net_ok_accept_round [OF v(1), of rb a] by (auto simp: v(2) net_ok_def accept_round_def CreateSession_eq Let_def)
  then show ?thesis
    using own by (auto simp: net_ok_def)
qed

lemma net_ok_start_accepts:
  "net_ok {} b w \<Longrightarrow> start_accepts rb syss w = Some (Inr w') \<Longrightarrow> net_ok {} b w'"
proof (induction syss arbitrary: w)
  case (Cons sys rest)
  let ?v = "w\<lparr>acceptCount := acceptCount w + 1, acceptOwner := (acceptOwner w)(acceptCount w := Some ListenerObj)\<rparr>"
  obtain u where u: "RegisterAccept rb sys 0 (acceptCount w) ?v = Some (Inr u)" "start_accepts rb rest u = Some (Inr w')"
    using Cons.prems(2) by (auto split: option.splits sum.splits)
  have "net_ok {acceptCount w} b ?v"
    using Cons.prems(1) by (auto simp: net_ok_def)
  then show ?case
    using Cons.IH u net_ok_RegisterAccept by blast
qed simp

lemma net_ok_new_network: "net_ok {} b (new_network ty n)"
  by (simp add: net_ok_def new_network_def new_session_def)

lemma net_ok_post_Connect: "net_ok X b w \<Longrightarrow> net_ok X b (post (ConnectOp i) w)"
  by (simp add: net_ok_def)

lemma net_ok_RegisterConnect:
  assumes ok: "net_ok X b w" and created: "i < nextSession w"
    and run: "RegisterConnect reuse bound r e i w = Inr (b', w')"
  shows "net_ok X b w'"
proof -
  have "w' = w \<or> (\<not> isConnected (sessionAt w i) \<and> serviceType w = Client \<and>
      (let w1 = upd i (\<lambda>s. s\<lparr>connectOwner := Some (SessionObj i)\<rparr>) w in
       w' = post (ConnectOp i) w1 \<or> w' = upd i (\<lambda>s. s\<lparr>disconnectOwner := None\<rparr>) w1))"
    using run by (auto simp: RegisterConnect_def Let_def split: if_splits)
  then show ?thesis
  proof
    assume "w' = w"
    with ok show ?thesis
      by simp
  next
    assume c: "\<not> isConnected (sessionAt w i) \<and> serviceType w = Client \<and>
      (let w1 = upd i (\<lambda>s. s\<lparr>connectOwner := Some (SessionObj i)\<rparr>) w in
       w' = post (ConnectOp i) w1 \<or> w' = upd i (\<lambda>s. s\<lparr>disconnectOwner := None\<rparr>) w1)"
    have "net_ok X b (upd i (\<lambda>s. s\<lparr>connectOwner := Some (SessionObj i)\<rparr>) w)"
      using ok c created by (auto simp: net_ok_def)
    note kept = net_ok_upd_disconnectOwner [OF this] net_ok_post_Connect [OF this]
    from c show ?thesis
      unfolding Let_def by (elim conjE disjE) (simp_all only: kept)
  qed
qed

lemma net_ok_client_connects:
  "net_ok X b w \<Longrightarrow> client_connects rb xs w = Inr (ok, w') \<Longrightarrow> net_ok X b w'"
proof (induction xs arbitrary: w)
  case (Cons x rest)
  obtain registered reuse bound connectEx errorCode where x: "x = (registered, reuse, bound, connectEx, errorCode)"
    by (cases x) auto
  let ?v = "snd (CreateSession rb True w)"
  have v: "net_ok X b ?v"
    by (rule net_ok_CreateSession [OF Cons.prems(1)])
  have reg: registered
    using Cons.prems(2) by (cases registered; unfold x) (auto simp: CreateSession_eq)
  obtain ok2 u where u: "RegisterConnect reuse bound connectEx errorCode (nextSession w) ?v = Inr (ok2, u)"
    and rest: "if ok2 then client_connects rb rest u = Inr (ok, w') else u = w'"
    using Cons.prems(2) reg by (auto simp: x CreateSession_eq and_then_Inr_iff split: if_splits)
  have "nextSession w < nextSession ?v"
    by (simp add: CreateSession_eq)
  then have "net_ok X b u"
    using net_ok_RegisterConnect [OF v _ u] by blast
  then show ?case
    using Cons.IH [of u] rest by (cases ok2) auto
qed simp

lemma net_ok_take: "net_ok X b w \<Longrightarrow> net_ok X b (w\<lparr>posted := posted w - {#x#}\<rparr>)"
  by (rule net_ok_frame [OF _ frame_take])

lemma net_ok_Session_DispatchEvent:
  assumes ok: "net_ok X b w" and own: "event_owner x w = Some (SessionObj i)"
    and run: "Session_DispatchEvent b onRecv sys x bytes i w = Inr w'"
  shows "net_ok X b w'"
proof (cases x)
  case (ConnectOp j)
  then have "j = i"
    using own net_okD(1) [OF ok, of j] by auto
  then show ?thesis
    using net_ok_ProcessConnect [OF ok] own run ConnectOp by (auto simp: Session_DispatchEvent_def)
next
  case (DisconnectOp j)
  then show ?thesis
    using net_ok_ProcessDisconnect [OF ok] run by (auto simp: Session_DispatchEvent_def)
next
  case (RecvOp j)
  then show ?thesis
    using net_ok_frame [OF ok frame_ProcessRecv] run by (auto simp: Session_DispatchEvent_def)
next
  case (SendOp j)
  then show ?thesis
    using net_ok_frame [OF ok frame_ProcessSend] run by (auto simp: Session_DispatchEvent_def)
next
  case (AcceptOp j)
  then show ?thesis
    using ok run by (auto simp: Session_DispatchEvent_def)
qed

lemma complete_cases:
  assumes "DispatchCompletionPacket b rb onRecv sys (Completed x bytes) w = Some (Inr (ret, w'))"
    and "event_owner x w \<noteq> Some ListenerObj"
  obtains i where "event_owner x w = Some (SessionObj i)"
    and "Session_DispatchEvent b onRecv sys x bytes i (w\<lparr>posted := posted w - {#x#}\<rparr>) = Inr w'"
proof -
  have "event_owner x (w\<lparr>posted := posted w - {#x#}\<rparr>) = event_owner x w"
    by (cases x) simp_all
  with assms that show thesis
    by (auto simp: DispatchCompletionPacket_def dispatch_def and_then_Inr_iff split: option.splits handler.splits)
qed

lemma listener_accepts_only:
  "DispatchCompletionPacket b rb onRecv sys (Completed x bytes) w = Some (Inr (ret, w')) \<Longrightarrow>
   event_owner x w = Some ListenerObj \<Longrightarrow> \<exists>a. x = AcceptOp a"
  by (cases x; cases b) (auto simp: DispatchCompletionPacket_def dispatch_def Listener_DispatchEvent_def)


lemma event_owner_take [simp]: "event_owner x (w\<lparr>posted := q\<rparr>) = event_owner x w"
  by (cases x) simp_all

lemma serviceType_frame: "frame w w' \<Longrightarrow> serviceType w' = serviceType w"
  by (simp add: frame_def)

lemma net_ok_complete:
  assumes ok: "net_ok {} b w" and x: "x \<in># posted w"
    and run: "DispatchCompletionPacket b rb onRecv sys (Completed x bytes) w = Some (Inr (ret, w'))"
  shows "net_ok {} b w'"
proof -
  have "event_owner x w \<noteq> Some ListenerObj"
    using listener_accepts_only [OF run] net_okD(7) [OF ok] x by fastforce
  then obtain i where i: "event_owner x w = Some (SessionObj i)"
    "Session_DispatchEvent b onRecv sys x bytes i (w\<lparr>posted := posted w - {#x#}\<rparr>) = Inr w'"
    using complete_cases [OF run] by blast
  show ?thesis
    by (rule net_ok_Session_DispatchEvent [OF net_ok_take [OF ok, of x] _ i(2)]) (simp add: i)
qed

lemma net_run_ok: "net_run b ty n w \<Longrightarrow> net_ok {} b w"
proof (induction rule: net_run.induct)
  case (server rb has_factory made socketSteps syss ok w)
  then show ?case
    using net_ok_start_accepts [OF net_ok_new_network]
    by (auto simp: ServerService_Start_def StartAccept_def and_then_Inr_iff net_ok_new_network split: if_splits)
next
  case (client rb has_factory ans ok w)
  then show ?case
    using net_ok_client_connects [OF net_ok_new_network]
    by (auto simp: ClientService_Start_def net_ok_new_network split: if_splits)
next
  case (complete w x rb onRecv sys bytes ret w')
  then show ?case
    using net_ok_complete by blast
next
  case (send w sb i)
  then show ?case
    using net_ok_frame frame_Send by blast
next
  case (broadcast w sb)
  then show ?case
    using net_ok_frame frame_BroadCast by blast
next
  case (connect w i reuse bound r e ok w')
  then show ?case
    using net_ok_RegisterConnect by blast
next
  case (disconnect w i r e)
  then show ?case
    using net_ok_frame frame_RegisterDisconnect by blast
qed


lemma serviceType_RegisterAccept:
  "RegisterAccept rb sys k a w = Some (Inr w') \<Longrightarrow> serviceType w' = serviceType w"
  using RegisterAccept_rule [of rb sys k a w w' "\<lambda>v. serviceType v = serviceType w"]
  by (auto simp: accept_round_def CreateSession_eq Let_def)

lemma serviceType_start_accepts:
  "start_accepts rb syss w = Some (Inr w') \<Longrightarrow> serviceType w' = serviceType w"
proof (induction syss arbitrary: w)
  case (Cons sys rest)
  then show ?case
    by (auto split: option.splits sum.splits dest!: serviceType_RegisterAccept)
qed simp

lemma serviceType_RegisterConnect:
  "RegisterConnect reuse bound r e i w = Inr (ok, w') \<Longrightarrow> serviceType w' = serviceType w"
  by (auto simp: RegisterConnect_def Let_def split: if_splits)

lemma serviceType_client_connects:
  "client_connects rb xs w = Inr (ok, w') \<Longrightarrow> serviceType w' = serviceType w"
proof (induction xs arbitrary: w)
  case (Cons x rest)
  then show ?case
    by (cases x) (auto simp: CreateSession_eq and_then_Inr_iff split: if_splits prod.splits
        dest!: serviceType_RegisterConnect)
qed simp

lemma serviceType_Session_DispatchEvent:
  assumes "Session_DispatchEvent b onRecv sys x bytes i w = Inr w'"
  shows "serviceType w' = serviceType w"
proof (cases x)
  case (ConnectOp j)
  then show ?thesis
    using assms by (auto simp: Session_DispatchEvent_def ProcessConnect_def Let_def split: if_splits
        dest!: serviceType_frame [OF frame_RegisterRecv])
next
  case (DisconnectOp j)
  then show ?thesis
    using assms by (auto simp: Session_DispatchEvent_def ProcessDisconnect_def ReleaseSession_def Let_def
        split: if_splits build.splits)
next
  case (RecvOp j)
  then show ?thesis
    using assms by (auto simp: Session_DispatchEvent_def dest: serviceType_frame [OF frame_ProcessRecv])
next
  case (SendOp j)
  then show ?thesis
    using assms serviceType_frame [OF frame_ProcessSend] by (auto simp: Session_DispatchEvent_def)
next
  case (AcceptOp j)
  then show ?thesis
    using assms by (auto simp: Session_DispatchEvent_def)
qed

lemma net_run_serviceType: "net_run b ty n w \<Longrightarrow> serviceType w = ty"
proof (induction rule: net_run.induct)
  case (server rb has_factory made socketSteps syss ok w)
  then show ?case
    using serviceType_start_accepts by (auto simp: ServerService_Start_def StartAccept_def and_then_Inr_iff new_network_def split: if_splits)
next
  case (client rb has_factory ans ok w)
  then show ?case
    using serviceType_client_connects by (auto simp: ClientService_Start_def new_network_def split: if_splits)
next
  case (complete w x rb onRecv sys bytes ret w')
  have "event_owner x w \<noteq> Some ListenerObj"
    using listener_accepts_only [OF complete.hyps(3)] net_okD(7) [OF net_run_ok [OF complete.hyps(1)]] complete.hyps(2)
    by fastforce
  then obtain i where "Session_DispatchEvent b onRecv sys x bytes i (w\<lparr>posted := posted w - {#x#}\<rparr>) = Inr w'"
    using complete_cases [OF complete.hyps(3)] by blast
  from serviceType_Session_DispatchEvent [OF this] complete.IH show ?case
    by simp
qed (use serviceType_frame frame_Send frame_BroadCast frame_RegisterDisconnect serviceType_RegisterConnect in metis)+

text \<open>Two concrete runs: a server with one accept under way, and a client that has connected.\<close>

lemma server_example:
  "\<exists>w. net_run DebugBuild Server 1 w \<and> posted w = {#AcceptOp 0#}"
proof -
  let ?v = "(new_network Server 1)\<lparr>acceptCount := 1, acceptOwner := (acceptOwner (new_network Server 1))(0 := Some ListenerObj)\<rparr>"
  have "RegisterAccept example_buffer all_well 0 0 ?v = Some (Inr (post (AcceptOp 0) (accept_round example_buffer 0 ?v)))"
    by (subst RegisterAccept_unfold) (simp add: all_well_def started_def)
  then have "ServerService_Start example_buffer True True [] [all_well] (new_network Server 1) =
      Some (Inr (True, post (AcceptOp 0) (accept_round example_buffer 0 ?v)))"
    by (simp add: ServerService_Start_def StartAccept_def new_network_def)
  from net_run.server [OF refl this]
  have "net_run DebugBuild Server 1 (post (AcceptOp 0) (accept_round example_buffer 0 ?v))" .
  moreover have "posted (post (AcceptOp 0) (accept_round example_buffer 0 ?v)) = {#AcceptOp 0#}"
    by (simp add: accept_round_def CreateSession_eq new_network_def)
  ultimately show ?thesis
    by blast
qed

text \<open>A client whose sockets can be registered and whose connects are pending: where \<open>Start\<close>
  gets to, and what each completed connect adds.\<close>

definition pending_connects :: "nat \<Rightarrow> (bool \<times> bool \<times> bool \<times> sys_result \<times> int) list" where
  "pending_connects n = replicate n (True, True, True, SocketError, WSA_IO_PENDING)"

definition connecting :: "nat \<Rightarrow> nat \<Rightarrow> network \<Rightarrow> bool" where
  "connecting k n w \<longleftrightarrow> nextSession w = n \<and> serviceType w = Client \<and> sessions w = [0..<k] \<and>
     posted w = mset (map RecvOp [0..<k]) + mset (map ConnectOp [k..<n]) \<and>
     (\<forall>i. isConnected (sessionAt w i) \<longleftrightarrow> i < k) \<and>
     (\<forall>i<n. has_service (sessionAt w i) \<and> recvBuffer (sessionAt w i) = example_buffer) \<and>
     (\<forall>i<n. k \<le> i \<longrightarrow> connectOwner (sessionAt w i) = Some (SessionObj i))"

lemma client_connects_pending:
  "connecting 0 m w \<Longrightarrow> \<exists>w'. client_connects example_buffer (pending_connects k) w = Inr (True, w') \<and> connecting 0 (m + k) w'"
proof (induction k arbitrary: m w)
  case (Suc k)
  obtain v where v: "CreateSession example_buffer True w = (Some m, v)"
    using Suc.prems by (simp add: CreateSession_eq connecting_def)
  let ?u = "post (ConnectOp m) (upd m (\<lambda>s. s\<lparr>connectOwner := Some (SessionObj m)\<rparr>) v)"
  have "RegisterConnect True True SocketError WSA_IO_PENDING m v = Inr (True, ?u)"
    using Suc.prems v by (auto simp: RegisterConnect_def CreateSession_eq connecting_def new_session_def)
  with v have "client_connects example_buffer (pending_connects (Suc k)) w = client_connects example_buffer (pending_connects k) ?u"
    by (simp add: pending_connects_def)
  moreover have "connecting 0 (Suc m) ?u"
    using Suc.prems v by (auto simp: CreateSession_eq connecting_def new_session_def)
  ultimately show ?case
    using Suc.IH [of "Suc m" ?u] by simp
qed (simp add: pending_connects_def)

lemma connect_completes:
  assumes c: "connecting k n w" and k: "k < n"
  shows "\<exists>w'. DispatchCompletionPacket b example_buffer onRecv all_well (Completed (ConnectOp k) 0) w = Some (Inr (True, w')) \<and>
    connecting (Suc k) n w'"
proof -
  define u where "u = w\<lparr>posted := posted w - {#ConnectOp k#}\<rparr>"
  define v where "v = AddSession k (upd k (\<lambda>s. s\<lparr>connectOwner := None, isConnected := True\<rparr>) u)"
  let ?w = "post (RecvOp k) (upd k (\<lambda>s. s\<lparr>recvOwner := Some (SessionObj k)\<rparr>) v)"
  have u: "event_owner (ConnectOp k) u = Some (SessionObj k)" "has_service (sessionAt u k)"
    "recvBuffer (sessionAt u k) = example_buffer"
    using c k by (simp_all add: u_def connecting_def)
  then have "RegisterRecv SocketError WSA_IO_PENDING k v = Inr ?w"
    by (simp add: RegisterRecv_def v_def started_def)
  then have "ProcessConnect SocketError WSA_IO_PENDING k u = Inr ?w"
    using u by (simp add: ProcessConnect_def v_def)
  then have "Session_DispatchEvent b onRecv all_well (ConnectOp k) 0 k u = Inr ?w"
    by (simp add: Session_DispatchEvent_def all_well_def)
  then have "dispatch b example_buffer onRecv all_well (ConnectOp k) 0 u = Some (Inr ?w)"
    using u(1) by (simp add: dispatch_def)
  then have "DispatchCompletionPacket b example_buffer onRecv all_well (Completed (ConnectOp k) 0) w = Some (Inr (True, ?w))"
    by (simp add: DispatchCompletionPacket_def u_def)
  moreover have "connecting (Suc k) n ?w"
    using c k by (auto simp: u_def v_def connecting_def upt_conv_Cons less_Suc_eq atLeastLessThanSuc)
  ultimately show ?thesis
    by blast
qed

lemma client_connects_run: "\<exists>w. net_run b Client (int n) w \<and> connecting n n w"
proof -
  have "connecting 0 0 (new_network Client (int n))"
    by (simp add: connecting_def new_network_def new_session_def)
  from client_connects_pending [OF this, of n] obtain w0 where
    w0: "client_connects example_buffer (pending_connects n) (new_network Client (int n)) = Inr (True, w0)" "connecting 0 n w0"
    by auto
  then have "ClientService_Start example_buffer True (pending_connects n) (new_network Client (int n)) = Inr (True, w0)"
    by (simp add: ClientService_Start_def new_network_def pending_connects_def)
  then have start: "net_run b Client (int n) w0"
    by (rule net_run.client [OF refl])
  have "k \<le> n \<Longrightarrow> \<exists>w. net_run b Client (int n) w \<and> connecting k n w" for k
  proof (induction k)
    case 0
    with start w0(2) show ?case
      by blast
  next
    case (Suc k)
    then obtain w where w: "net_run b Client (int n) w" "connecting k n w"
      by auto
    have "ConnectOp k \<in># posted w"
      using w(2) Suc.prems by (auto simp: connecting_def)
    moreover obtain w' where "DispatchCompletionPacket b example_buffer id all_well (Completed (ConnectOp k) 0) w = Some (Inr (True, w'))"
      "connecting (Suc k) n w'"
      using connect_completes [OF w(2)] Suc.prems by fastforce
    ultimately show ?case
      using net_run.complete [OF w(1)] by blast
  qed
  from this [OF order_refl] show ?thesis .
qed


text \<open>A server never connects anybody: the event of an accept is owned by the new session, whose
  \<open>DispatchEvent\<close> has no case for it, so \<open>ProcessAccept\<close> is never called; no run, whatever the
  system answers, has a connected session.\<close>

theorem server_connects_nobody:
  assumes "net_run b Server n w"
  shows "\<not> isConnected (sessionAt w i) \<and> sessions w = []"
proof -
  note ok = net_run_ok [OF assms]
  have "\<not> isConnected (sessionAt w j)" for j
    using net_okD(2) [OF ok] net_run_serviceType [OF assms] by auto
  then show ?thesis
    using net_okD(3) [OF ok] by (cases "sessions w") auto
qed

lemma server_connects_nobody_witness:
  "\<exists>w. net_run DebugBuild Server 1 w \<and> \<not> isConnected (sessionAt w 0) \<and> sessions w = []"
  using server_example server_connects_nobody by blast

text \<open>The completion of an accept changes nothing: it is taken from the port, and no new accept is
  started, so a server stops accepting after \<open>maxSessionCount\<close> connections.\<close>

theorem accept_completion_ignored:
  assumes "net_run b ty n w" and "AcceptOp a \<in># posted w"
  shows "DispatchCompletionPacket b rb onRecv sys (Completed (AcceptOp a) bytes) w =
           Some (Inr (True, w\<lparr>posted := posted w - {#AcceptOp a#}\<rparr>))"
  using net_okD(7) [OF net_run_ok [OF assms(1)] assms(2)]
  by (auto simp: DispatchCompletionPacket_def dispatch_def Session_DispatchEvent_def)

lemma accept_completion_ignored_witness:
  "\<exists>w. net_run DebugBuild Server 1 w \<and>
     DispatchCompletionPacket DebugBuild example_buffer id all_well (Completed (AcceptOp 0) 0) w = Some (Inr (True, w\<lparr>posted := {#}\<rparr>))"
  using server_example accept_completion_ignored [of DebugBuild Server 1 _ 0 example_buffer id all_well 0] by fastforce

text \<open>Nothing is ever sent: in no run is a send operation under way.\<close>

theorem no_send_is_posted:
  assumes "net_run b ty n w"
  shows "SendOp i \<notin># posted w"
  using net_okD(6) [OF net_run_ok [OF assms]] .

lemma no_send_is_posted_witness:
  "\<exists>w. net_run DebugBuild Server 1 w \<and> SendOp 0 \<notin># posted w"
  using server_example no_send_is_posted by blast



text \<open>A receive that \<open>WSARecv\<close> could complete at once is still delivered through the port, to an
  event whose owner \<open>RegisterRecv\<close> has already cleared: handling it dereferences null.\<close>

theorem immediate_receive_undefined:
  assumes "isConnected (sessionAt w i)" and "RegisterRecv Success e i w = Inr w'" and "e \<noteq> WSA_IO_PENDING"
  shows "RecvOp i \<in># posted w' \<and>
         DispatchCompletionPacket b rb onRecv sys (Completed (RecvOp i) bytes) w' = Some (Inl (Undefined ''null session object''))"
  using RegisterRecv_connected(1,2) [OF assms(1,2)] assms(3)
  by (simp add: DispatchCompletionPacket_def dispatch_def started_def)

lemma immediate_receive_undefined_witness:
  "\<exists>w'. RegisterRecv Success 0 0 example_network = Inr w' \<and>
     DispatchCompletionPacket ReleaseBuild example_buffer id all_well (Completed (RecvOp 0) 5) w' =
       Some (Inl (Undefined ''null session object''))"
proof -
  obtain w' where w': "RegisterRecv Success 0 0 example_network = Inr w'"
    using RegisterRecv_example by blast
  have "isConnected (sessionAt example_network 0)"
    by (simp add: example_network_def)
  then show ?thesis
    using immediate_receive_undefined [OF _ w'] w' by (simp add: WSA_IO_PENDING_def)
qed

end
