(* ===== verification/Buffer_IO.thy ===== *)
theory Buffer_IO
  imports Core_Prelude
begin

text \<open>
  ServerCore/BufferReader.h and BufferWriter.h (with the .cpp files): cursors over a block of
  memory the caller owns. The block is the list \<open>memory\<close>, which may be shorter than the size the
  object was told; touching bytes beyond it has no defined behaviour. Sizes and cursors are
  \<open>uint32\<close>, so \<open>FreeSize\<close> wraps around when the cursor is past the size.
\<close>

section \<open>State and operations\<close>

record buffer_io =
  memory :: "u8 list"
  io_size :: u32
  io_cursor :: u32

definition BufferReader :: "u8 list \<Rightarrow> u32 \<Rightarrow> u32 \<Rightarrow> buffer_io" where
  "BufferReader mem n pos = \<lparr>memory = mem, io_size = n, io_cursor = pos\<rparr>"

definition BufferWriter :: "u8 list \<Rightarrow> u32 \<Rightarrow> u32 \<Rightarrow> buffer_io" where
  "BufferWriter mem n pos = \<lparr>memory = mem, io_size = n, io_cursor = pos\<rparr>"

lemma BufferReader_simps [simp]:
  "memory (BufferReader mem n pos) = mem" "io_size (BufferReader mem n pos) = n" "io_cursor (BufferReader mem n pos) = pos"
  by (simp_all add: BufferReader_def)

definition io_FreeSize :: "buffer_io \<Rightarrow> u32" where
  "io_FreeSize b = io_size b - io_cursor b"

text \<open>\<open>memcpy\<close> from the block at the cursor.\<close>

definition copy_out :: "nat \<Rightarrow> buffer_io \<Rightarrow> u8 list outcome" where
  "copy_out len b =
     (if length (memory b) < unat (io_cursor b) + len then Inl (Undefined ''read out of bounds'')
      else Inr (take len (drop (unat (io_cursor b)) (memory b))))"

text \<open>\<open>Peek\<close>: the result and, when it copied, the bytes now at the destination. The last statement
  of the code returns \<open>false\<close>.\<close>

definition Peek :: "u32 \<Rightarrow> buffer_io \<Rightarrow> (bool \<times> u8 list option) outcome" where
  "Peek len b =
     (if io_FreeSize b < len then Inr (False, None)
      else and_then (copy_out (unat len) b) (\<lambda>bytes. Inr (False, Some bytes)))"

definition Read :: "u32 \<Rightarrow> buffer_io \<Rightarrow> (bool \<times> u8 list option \<times> buffer_io) outcome" where
  "Read len b =
     and_then (Peek len b) (\<lambda>(ok, bytes).
       if \<not> ok then Inr (False, bytes, b)
       else Inr (False, bytes, b\<lparr>io_cursor := io_cursor b + len\<rparr>))"

text \<open>\<open>operator>>\<close> for a type of \<open>n\<close> bytes; \<open>None\<close> is the branch that returns \<open>nullptr\<close> instead of a
  reader. \<open>sizeof\<close> is a \<open>size_t\<close>, so the comparison is made in 64 bits, and the cursor is advanced
  modulo 32 bits.\<close>

definition read_value :: "nat \<Rightarrow> buffer_io \<Rightarrow> (u8 list \<times> buffer_io) option outcome" where
  "read_value n b =
     (if unat (io_FreeSize b) < n then Inr None
      else and_then (copy_out n b) (\<lambda>bytes. Inr (Some (bytes, b\<lparr>io_cursor := io_cursor b + of_nat n\<rparr>))))"

text \<open>\<open>Write\<close> of \<open>len\<close> bytes found at \<open>src\<close>.\<close>

definition Write :: "u8 list \<Rightarrow> u32 \<Rightarrow> buffer_io \<Rightarrow> (bool \<times> buffer_io) outcome" where
  "Write src len b =
     (if io_FreeSize b < len then Inr (False, b)
      else if length src < unat len then Inl (Undefined ''read out of bounds'')
      else if length (memory b) < unat (io_cursor b) + unat len then Inl (Undefined ''write out of bounds'')
      else Inr (True, b\<lparr>memory := overwrite (memory b) (unat (io_cursor b)) (take (unat len) src),
                        io_cursor := io_cursor b + len\<rparr>))"

section \<open>Well-formed buffers\<close>

definition io_ok :: "buffer_io \<Rightarrow> bool" where
  "io_ok b \<longleftrightarrow> io_cursor b \<le> io_size b \<and> unat (io_size b) \<le> length (memory b)"

lemma unat_FreeSize: "io_ok b \<Longrightarrow> unat (io_FreeSize b) = unat (io_size b) - unat (io_cursor b)"
  by (simp add: io_ok_def io_FreeSize_def unat_sub)

lemma io_ok_le: "io_ok b \<Longrightarrow> unat (io_cursor b) \<le> unat (io_size b)"
  by (simp add: io_ok_def word_le_nat_alt)

text \<open>\<open>Read\<close> never succeeds: on every reader, for every length, it answers \<open>false\<close> and leaves the
  cursor where it was, also when the bytes have been copied.\<close>

theorem Read_never_succeeds:
  "(\<exists>bytes. Read len b = Inr (False, bytes, b)) \<or> Read len b = Inl (Undefined ''read out of bounds'')"
  by (simp add: Read_def Peek_def copy_out_def)

lemma Write_fits:
  assumes ok: "io_ok b" and fit: "length src \<le> unat (io_FreeSize b)"
  shows "\<exists>b'. Write src (of_nat (length src)) b = Inr (True, b') \<and> io_ok b' \<and> io_size b' = io_size b \<and>
           unat (io_cursor b') = unat (io_cursor b) + length src \<and>
           take (unat (io_cursor b')) (memory b') = take (unat (io_cursor b)) (memory b) @ src \<and>
           length (memory b') = length (memory b)"
proof -
  have room: "unat (io_cursor b) + length src \<le> unat (io_size b)"
    using fit unat_FreeSize [OF ok] io_ok_le [OF ok] by simp
  have len: "unat (of_nat (length src) :: u32) = length src"
    using room unat_u32_less [of "io_size b"] by (simp add: unat_of_nat take_bit_nat_eq_self)
  have cur: "unat (io_cursor b + of_nat (length src)) = unat (io_cursor b) + length src"
    using room unat_u32_less [of "io_size b"] iffD1 [OF unat_add_lem, of "io_cursor b" "of_nat (length src)"]
    by (simp add: len)
  have mem: "unat (io_cursor b) + length src \<le> length (memory b)"
    using room ok by (simp add: io_ok_def)
  have "\<not> io_FreeSize b < of_nat (length src)"
    using fit by (simp add: word_less_nat_alt len)
  then have "Write src (of_nat (length src)) b = Inr (True, b\<lparr>memory := overwrite (memory b) (unat (io_cursor b)) src,
                        io_cursor := io_cursor b + of_nat (length src)\<rparr>)"
    using mem by (simp add: Write_def len)
  then show ?thesis
    using room mem ok by (simp add: cur io_ok_def word_le_nat_alt overwrite_def)
qed

section \<open>Writing and reading back\<close>

text \<open>A sequence of \<open>Write\<close> calls that stops at the first refusal, and a chain of \<open>>>\<close>.\<close>

fun write_all :: "u8 list list \<Rightarrow> buffer_io \<Rightarrow> (bool \<times> buffer_io) outcome" where
  "write_all [] b = Inr (True, b)"
| "write_all (c # cs) b =
     and_then (Write c (of_nat (length c)) b) (\<lambda>(ok, b'). if ok then write_all cs b' else Inr (False, b'))"

fun read_values :: "nat list \<Rightarrow> buffer_io \<Rightarrow> (u8 list list \<times> buffer_io) option outcome" where
  "read_values [] b = Inr (Some ([], b))"
| "read_values (n # ns) b =
     and_then (read_value n b) (\<lambda>r. case r of None \<Rightarrow> Inr None
       | Some (x, b') \<Rightarrow> and_then (read_values ns b') (\<lambda>q. case q of None \<Rightarrow> Inr None
           | Some (xs, b'') \<Rightarrow> Inr (Some (x # xs, b''))))"

lemma write_all_fits:
  assumes "io_ok b" and "length (concat cs) \<le> unat (io_FreeSize b)"
  shows "\<exists>b'. write_all cs b = Inr (True, b') \<and> io_ok b' \<and> io_size b' = io_size b \<and>
           unat (io_cursor b') = unat (io_cursor b) + length (concat cs) \<and>
           take (unat (io_cursor b')) (memory b') = take (unat (io_cursor b)) (memory b) @ concat cs"
  using assms
proof (induction cs arbitrary: b)
  case (Cons c cs)
  obtain b1 where b1: "Write c (of_nat (length c)) b = Inr (True, b1)" "io_ok b1" "io_size b1 = io_size b"
    "unat (io_cursor b1) = unat (io_cursor b) + length c"
    "take (unat (io_cursor b1)) (memory b1) = take (unat (io_cursor b)) (memory b) @ c"
    using Write_fits [OF Cons.prems(1), of c] Cons.prems(2) by auto
  have "length (concat cs) \<le> unat (io_FreeSize b1)"
    using Cons.prems b1 by (simp add: unat_FreeSize)
  from Cons.IH [OF b1(2) this] b1 show ?case
    by auto
qed simp

lemma read_value_slice:
  assumes "io_ok b" and "take (unat (io_cursor b) + n) (memory b) = take (unat (io_cursor b)) (memory b) @ x"
    and "length x = n" and "unat (io_cursor b) + n \<le> unat (io_size b)"
  shows "\<exists>b'. read_value n b = Inr (Some (x, b')) \<and> io_ok b' \<and> memory b' = memory b \<and> io_size b' = io_size b \<and>
           unat (io_cursor b') = unat (io_cursor b) + n"
proof -
  have len: "unat (of_nat n :: u32) = n"
    using assms(4) unat_u32_less [of "io_size b"] by (simp add: unat_of_nat take_bit_nat_eq_self)
  have cur: "unat (io_cursor b + of_nat n) = unat (io_cursor b) + n"
    using assms(4) unat_u32_less [of "io_size b"] iffD1 [OF unat_add_lem, of "io_cursor b" "of_nat n"] by (simp add: len)
  have mem: "unat (io_cursor b) + n \<le> length (memory b)"
    using assms(1,4) by (simp add: io_ok_def)
  have "take n (drop (unat (io_cursor b)) (memory b)) = x"
    using assms(2) mem by (simp add: take_add)
  then show ?thesis
    using assms(1,4) mem
    by (simp add: read_value_def copy_out_def unat_FreeSize cur io_ok_def word_le_nat_alt)
qed

lemma read_values_slice:
  assumes "io_ok b" and "unat (io_cursor b) + length (concat cs) \<le> unat (io_size b)"
    and "take (unat (io_cursor b) + length (concat cs)) (memory b) = take (unat (io_cursor b)) (memory b) @ concat cs"
  shows "\<exists>b'. read_values (map length cs) b = Inr (Some (cs, b')) \<and> unat (io_cursor b') = unat (io_cursor b) + length (concat cs)"
  using assms
proof (induction cs arbitrary: b)
  case (Cons c cs)
  have all: "take (length c + length (concat cs)) (drop (unat (io_cursor b)) (memory b)) = c @ concat cs"
    using Cons.prems by (simp add: take_add io_ok_def)
  have "take (length c) (drop (unat (io_cursor b)) (memory b)) = c"
    using arg_cong [OF all, of "take (length c)"] by (simp add: min_def)
  moreover have rest: "take (length (concat cs)) (drop (length c + unat (io_cursor b)) (memory b)) = concat cs"
    using arg_cong [OF all, of "drop (length c)"] by (simp add: drop_take)
  ultimately have "take (unat (io_cursor b) + length c) (memory b) = take (unat (io_cursor b)) (memory b) @ c"
    by (simp add: take_add)
  from read_value_slice [OF Cons.prems(1) this] Cons.prems(2) obtain b1 where
    b1: "read_value (length c) b = Inr (Some (c, b1))" "io_ok b1" "memory b1 = memory b" "io_size b1 = io_size b"
      "unat (io_cursor b1) = unat (io_cursor b) + length c"
    by auto
  have "take (unat (io_cursor b1) + length (concat cs)) (memory b1) = take (unat (io_cursor b1)) (memory b1) @ concat cs"
    using rest take_add [of "unat (io_cursor b1)" "length (concat cs)" "memory b1"] b1(3,5) by (simp add: add.commute)
  from Cons.IH [OF b1(2) _ this] b1 Cons.prems(2) show ?case
    by auto
qed simp



end
