(* ===== verification/Socket_Helper.thy ===== *)
theory Socket_Helper
  imports Core_Prelude
begin

text \<open>
  ServerCore/NetAddress and ServerCore/SocketHelper: socket addresses, the options and calls the
  network layer makes of Winsock, and the start-up of the extension functions. Winsock itself is
  a parameter: each call is a function from what it is given to what it returns.
\<close>

section \<open>Socket addresses\<close>

text \<open>\<open>SOCKADDR_IN\<close>. Port and address are stored as they go over the wire: the value the code puts
  into \<open>sin_port\<close> is read by the network with its bytes exchanged.\<close>

record sockaddr_in =
  sin_family :: u16
  sin_port :: u16
  sin_addr :: u32

definition AF_INET :: u16 where "AF_INET = 2"

definition swap_bytes :: "u16 \<Rightarrow> u16" where
  "swap_bytes x = or (push_bit 8 x) (drop_bit 8 x)"

text \<open>The port a peer sees (\<open>ntohs\<close> on a little-endian machine).\<close>

definition wire_port :: "sockaddr_in \<Rightarrow> u16" where
  "wire_port a = swap_bytes (sin_port a)"

text \<open>\<open>inet_pton\<close> fills the address it is given when the text is valid. \<open>IP2Address\<close> drops that
  address and returns a new, zero one; \<open>IP2AddressW\<close> returns the one it passed, which stays
  uninitialised when the text is not valid.\<close>

definition IP2Address :: "(string \<Rightarrow> u32 option) \<Rightarrow> string \<Rightarrow> u32" where
  "IP2Address inet_pton ip = (case inet_pton ip of None \<Rightarrow> 0 | Some address \<Rightarrow> 0)"

definition IP2AddressW :: "(string \<Rightarrow> u32 option) \<Rightarrow> string \<Rightarrow> u32 outcome" where
  "IP2AddressW InetPtonW ip =
     (case InetPtonW ip of None \<Rightarrow> Inl (Undefined ''uninitialised address'') | Some address \<Rightarrow> Inr address)"

definition NetAddress_of :: "sockaddr_in \<Rightarrow> sockaddr_in" where
  "NetAddress_of sockAddr = sockAddr"

definition NetAddress :: "(string \<Rightarrow> u32 option) \<Rightarrow> string \<Rightarrow> u16 \<Rightarrow> sockaddr_in" where
  "NetAddress inet_pton ip port = \<lparr>sin_family = AF_INET, sin_port = port, sin_addr = IP2Address inet_pton ip\<rparr>"

definition NetAddressW :: "(string \<Rightarrow> u32 option) \<Rightarrow> string \<Rightarrow> u16 \<Rightarrow> sockaddr_in outcome" where
  "NetAddressW InetPtonW ip port =
     and_then (IP2AddressW InetPtonW ip) (\<lambda>a. Inr \<lparr>sin_family = AF_INET, sin_port = port, sin_addr = a\<rparr>)"

text \<open>NetAddress.ixx of ServerCore_Module converts the port with \<open>htons\<close>.\<close>

definition mod_NetAddressW :: "(string \<Rightarrow> u32 option) \<Rightarrow> string \<Rightarrow> u16 \<Rightarrow> sockaddr_in outcome" where
  "mod_NetAddressW InetPtonW ip port =
     and_then (IP2AddressW InetPtonW ip) (\<lambda>a. Inr \<lparr>sin_family = AF_INET, sin_port = swap_bytes port, sin_addr = a\<rparr>)"

lemma bit_swap_bytes: "bit (swap_bytes x) n \<longleftrightarrow> n < 16 \<and> (if n < 8 then bit x (n + 8) else bit x (n - 8))"
  by (auto simp: swap_bytes_def bit_or_iff bit_push_bit_iff bit_drop_bit_eq add.commute dest: bit_imp_le_length)

lemma swap_bytes_involution [simp]: "swap_bytes (swap_bytes x) = x"
  by (rule bit_word_eqI) (auto simp: bit_swap_bytes)

lemma swap_bytes_fixed: "swap_bytes x = x \<longleftrightarrow> take_bit 8 x = drop_bit 8 x"
proof
  assume "swap_bytes x = x"
  then have *: "bit x n \<longleftrightarrow> bit (swap_bytes x) n" for n
    by simp
  show "take_bit 8 x = drop_bit 8 x"
    by (rule bit_word_eqI) (use * bit_swap_bytes [of x] in \<open>auto simp: bit_take_bit_iff bit_drop_bit_eq add.commute dest: bit_imp_le_length\<close>)
next
  assume h: "take_bit 8 x = drop_bit 8 x"
  have *: "n < 8 \<and> bit x n \<longleftrightarrow> bit x (8 + n)" for n
    using arg_cong [OF h, of "\<lambda>y. bit y n"] by (simp add: bit_take_bit_iff bit_drop_bit_eq)
  show "swap_bytes x = x"
  proof (rule bit_word_eqI)
    fix n
    assume "n < LENGTH(16)"
    then show "bit (swap_bytes x) n = bit x n"
      using *[of n] *[of "n - 8"] by (auto simp: bit_swap_bytes add.commute)
  qed
qed

text \<open>The port of an address made from text is the one asked for only when its two bytes are
  equal; the module's version gives every port as asked.\<close>

theorem NetAddress_port:
  "wire_port (NetAddress inet_pton ip port) = port \<longleftrightarrow> take_bit 8 port = drop_bit 8 port"
  by (simp add: wire_port_def NetAddress_def swap_bytes_fixed)

lemma mod_NetAddressW_port: "mod_NetAddressW InetPtonW ip port = Inr a \<Longrightarrow> wire_port a = port"
  by (auto simp: mod_NetAddressW_def wire_port_def and_then_Inr_iff)

text \<open>An address made from a narrow string is always 0.0.0.0.\<close>

lemma NetAddress_any: "sin_addr (NetAddress inet_pton ip port) = 0"
  by (simp add: NetAddress_def IP2Address_def split: option.splits)

section \<open>Sockets and options\<close>

type_synonym sock = u64

definition INVALID_SOCKET :: sock where "INVALID_SOCKET = - 1"
definition SOCKET_ERROR :: int where "SOCKET_ERROR = - 1"

definition SOL_SOCKET :: int where "SOL_SOCKET = 65535"
definition SO_DEBUG :: int where "SO_DEBUG = 1"
definition SO_REUSEADDR :: int where "SO_REUSEADDR = 4"
definition SO_LINGER :: int where "SO_LINGER = 128"
definition SO_SNDBUF :: int where "SO_SNDBUF = 4097"
definition SO_RCVBUF :: int where "SO_RCVBUF = 4098"
definition SO_UPDATE_ACCEPT_CONTEXT :: int where "SO_UPDATE_ACCEPT_CONTEXT = 28683"
definition IPPROTO_TCP :: int where "IPPROTO_TCP = 6"
definition TCP_NODELAY :: int where "TCP_NODELAY = 1"

text \<open>\<open>CloseSocket\<close>, with the sockets closed so far.\<close>

definition CloseSocket :: "sock \<Rightarrow> sock list \<Rightarrow> sock \<times> sock list" where
  "CloseSocket s closed = (INVALID_SOCKET, if s \<noteq> INVALID_SOCKET then closed @ [s] else closed)"

lemma CloseSocket_once: "CloseSocket (fst (CloseSocket s closed)) (snd (CloseSocket s closed)) = CloseSocket s closed"
  by (simp add: CloseSocket_def)

text \<open>\<open>setsockopt\<close> takes the bytes of the option's value, little-endian.\<close>

type_synonym setsockopt = "sock \<Rightarrow> int \<Rightarrow> int \<Rightarrow> u8 list \<Rightarrow> int"

definition SetSocketOption :: "setsockopt \<Rightarrow> sock \<Rightarrow> int \<Rightarrow> int \<Rightarrow> u8 list \<Rightarrow> bool" where
  "SetSocketOption sockopt s level optName optVal = (SOCKET_ERROR \<noteq> sockopt s level optName optVal)"

definition bytes16 :: "u16 \<Rightarrow> u8 list" where
  "bytes16 x = [ucast x, ucast (drop_bit 8 x)]"

definition bytes32 :: "u32 \<Rightarrow> u8 list" where
  "bytes32 x = bytes16 (ucast x) @ bytes16 (ucast (drop_bit 16 x))"

definition bytes64 :: "u64 \<Rightarrow> u8 list" where
  "bytes64 x = bytes32 (ucast x) @ bytes32 (ucast (drop_bit 32 x))"

definition SyncSocketContext :: "setsockopt \<Rightarrow> sock \<Rightarrow> sock \<Rightarrow> bool" where
  "SyncSocketContext sockopt s listenSocket = SetSocketOption sockopt s SOL_SOCKET SO_UPDATE_ACCEPT_CONTEXT (bytes64 listenSocket)"

definition SetLinger :: "setsockopt \<Rightarrow> sock \<Rightarrow> u16 \<Rightarrow> u16 \<Rightarrow> bool" where
  "SetLinger sockopt s onOff linger = SetSocketOption sockopt s SOL_SOCKET SO_LINGER (bytes16 onOff @ bytes16 linger)"

definition SetReuseAddress :: "setsockopt \<Rightarrow> sock \<Rightarrow> bool \<Rightarrow> bool" where
  "SetReuseAddress sockopt s flag = SetSocketOption sockopt s SOL_SOCKET SO_REUSEADDR [of_bool flag]"

definition SetRecvBufferSize :: "setsockopt \<Rightarrow> sock \<Rightarrow> u32 \<Rightarrow> bool" where
  "SetRecvBufferSize sockopt s bufSize = SetSocketOption sockopt s SOL_SOCKET SO_RCVBUF (bytes32 bufSize)"

definition SetSendBufferSize :: "setsockopt \<Rightarrow> sock \<Rightarrow> u32 \<Rightarrow> bool" where
  "SetSendBufferSize sockopt s bufSize = SetSocketOption sockopt s SOL_SOCKET SO_SNDBUF (bytes32 bufSize)"

definition SetTcpNoDelay :: "setsockopt \<Rightarrow> sock \<Rightarrow> bool \<Rightarrow> bool" where
  "SetTcpNoDelay sockopt s flag = SetSocketOption sockopt s SOL_SOCKET TCP_NODELAY [of_bool flag]"

text \<open>\<open>bind\<close> takes an address, \<open>listen\<close> a backlog.\<close>

definition Bind :: "(sock \<Rightarrow> sockaddr_in \<Rightarrow> int) \<Rightarrow> sock \<Rightarrow> sockaddr_in \<Rightarrow> bool" where
  "Bind bind_call s a = (SOCKET_ERROR \<noteq> bind_call s a)"

definition BindAnyAddress :: "(sock \<Rightarrow> sockaddr_in \<Rightarrow> int) \<Rightarrow> sock \<Rightarrow> u16 \<Rightarrow> bool" where
  "BindAnyAddress bind_call s port = (SOCKET_ERROR \<noteq> bind_call s \<lparr>sin_family = AF_INET, sin_port = port, sin_addr = 0\<rparr>)"

definition Listen :: "(sock \<Rightarrow> int \<Rightarrow> int) \<Rightarrow> sock \<Rightarrow> int \<Rightarrow> bool" where
  "Listen listen_call s backlog = (SOCKET_ERROR \<noteq> listen_call s backlog)"

text \<open>\<open>SetTcpNoDelay\<close> asks for option 1 at the level of sockets: whatever a system does with the
  request, it is the request that sets \<open>SO_DEBUG\<close>, and never the one that sets \<open>TCP_NODELAY\<close> of TCP.\<close>

theorem SetTcpNoDelay_sets_debug:
  "SetTcpNoDelay sockopt s flag = SetSocketOption sockopt s SOL_SOCKET SO_DEBUG [of_bool flag] \<and>
   (SOL_SOCKET, SO_DEBUG) \<noteq> (IPPROTO_TCP, TCP_NODELAY)"
  by (simp add: SetTcpNoDelay_def SO_DEBUG_def TCP_NODELAY_def SOL_SOCKET_def IPPROTO_TCP_def)

section \<open>Start-up\<close>

text \<open>The three extension functions; \<open>ioctl\<close> says which of them \<open>WSAIoctl\<close> can deliver.\<close>

datatype extension = ConnectExFn | DisconnectExFn | AcceptExFn

definition BindWinsockFuntion :: "(extension \<Rightarrow> int) \<Rightarrow> extension \<Rightarrow> extension set \<Rightarrow> bool \<times> extension set" where
  "BindWinsockFuntion ioctl f bound =
     (if SOCKET_ERROR \<noteq> ioctl f then (True, insert f bound) else (False, bound))"

text \<open>Binding as the argument of \<open>ASSERT_CRASH\<close>: not evaluated in a release build.\<close>

definition assert_bind :: "build \<Rightarrow> (extension \<Rightarrow> int) \<Rightarrow> extension \<Rightarrow> string \<Rightarrow> extension set \<Rightarrow> extension set outcome" where
  "assert_bind b ioctl f message bound =
     (case b of ReleaseBuild \<Rightarrow> Inr bound
      | DebugBuild \<Rightarrow> let (ok, bound') = BindWinsockFuntion ioctl f bound in
          and_then (assert_crash b ok message) (\<lambda>_. Inr bound'))"

definition SocketHelper_Init :: "build \<Rightarrow> int \<Rightarrow> (extension \<Rightarrow> int) \<Rightarrow> extension set outcome" where
  "SocketHelper_Init b wsaStartup ioctl =
     and_then (assert_crash b (wsaStartup = 0) ''Failed - WSAStartup'') (\<lambda>_.
     and_then (assert_bind b ioctl ConnectExFn ''Failed - Get a function pointer to ConnectEx'' {}) (\<lambda>bound.
     and_then (assert_bind b ioctl DisconnectExFn ''Failed - Get a function pointer to DisconnectEx'' bound) (\<lambda>bound.
       assert_bind b ioctl AcceptExFn ''Failed - Get a function pointer to AcceptEx'' bound)))"

text \<open>No build gets through \<open>Init\<close> with an extension function: a debug build crashes as soon as a
  step succeeds, and a release build evaluates none of them.\<close>

theorem Init_binds_nothing:
  "SocketHelper_Init b wsaStartup ioctl = Inr {} \<or> (\<exists>m. SocketHelper_Init b wsaStartup ioctl = Inl (AssertCrash m))"
  by (cases b) (auto simp: SocketHelper_Init_def assert_bind_def BindWinsockFuntion_def assert_crash_def Let_def)

text \<open>The constructor of \<open>IocpService\<close>: \<open>CreateIoCompletionPort\<close> reports failure as a null handle,
  the assertion looks for \<open>INVALID_HANDLE_VALUE\<close>.\<close>

definition IocpService :: "build \<Rightarrow> u64 \<Rightarrow> u64 outcome" where
  "IocpService b handle = and_then (assert_crash b (- 1 = handle) ''Failed - Creating a IOCP'') (\<lambda>_. Inr handle)"

definition RegisterSockToIOCP :: "(u64 \<Rightarrow> sock \<Rightarrow> u64) \<Rightarrow> u64 \<Rightarrow> sock \<Rightarrow> bool" where
  "RegisterSockToIOCP createPort iocpHandle s = (createPort iocpHandle s \<noteq> 0)"

lemma IocpService_accepts_null: "IocpService b 0 = Inr 0"
  by (cases b) (simp_all add: IocpService_def assert_crash_def)

section \<open>The process globals\<close>

text \<open>\<open>CoreGlobal\<close>'s constructor makes the managers in this order and then initialises the sockets;
  \<open>instances\<close> is the number of \<open>CoreGlobal\<close> objects a program has constructed.\<close>

datatype global = G_MemoryManager | G_GlobalQueue | G_JobTimer | G_ThreadManager | G_SendBufferManager | G_DeadLockProfiler

definition CoreGlobal :: "build \<Rightarrow> int \<Rightarrow> (extension \<Rightarrow> int) \<Rightarrow> (global list \<times> extension set) outcome" where
  "CoreGlobal b wsaStartup ioctl =
     and_then (SocketHelper_Init b wsaStartup ioctl) (\<lambda>bound.
       Inr ([G_MemoryManager, G_GlobalQueue, G_JobTimer, G_ThreadManager, G_SendBufferManager, G_DeadLockProfiler], bound))"

end
