(* ===== verification/Simple_Server.thy ===== *)
theory Simple_Server
  imports Socket_Helper
begin

text \<open>
  Server/SimpleIocpServer.h, the stand-alone server sketch: the listener's start-up and the
  completion loop of a worker. The functions it calls without defining them (\<open>ProcessConnect\<close> and
  its kind) and \<open>RegisterAccept\<close>, which is cut off in the middle of a statement, are not modelled.
\<close>

text \<open>What Winsock answers while the listener starts.\<close>

record start_answers =
  wsaStartup :: int
  wsaSocket :: sock
  completionPort :: "sock \<Rightarrow> u64"
  sockopt :: setsockopt
  bindCall :: "sock \<Rightarrow> sockaddr_in \<Rightarrow> int"
  listenCall :: "sock \<Rightarrow> u32 \<Rightarrow> int"

text \<open>\<open>StartListening\<close> either returns or enters its accept loop, which has no exit.\<close>

datatype listening = Returns bool | AcceptsForever sock

text \<open>The association with the port is the argument of \<open>ASSERT_CRASH\<close>.\<close>

definition RegisterSock2IOCP :: "build \<Rightarrow> (sock \<Rightarrow> u64) \<Rightarrow> sock \<Rightarrow> sock outcome" where
  "RegisterSock2IOCP b createPort s =
     and_then (assert_crash b (0 \<noteq> createPort s) ''Failed - Register a socket to IOCP'') (\<lambda>_. Inr s)"

definition simple_CreateSocket :: "build \<Rightarrow> start_answers \<Rightarrow> sock outcome" where
  "simple_CreateSocket b sys = RegisterSock2IOCP b (completionPort sys) (wsaSocket sys)"

definition simple_SetSockOpt :: "setsockopt \<Rightarrow> sock \<Rightarrow> int \<Rightarrow> int \<Rightarrow> u8 list \<Rightarrow> bool" where
  "simple_SetSockOpt sockopt_call s level optName optVal = (SOCKET_ERROR \<noteq> sockopt_call s level optName optVal)"

definition listen_address :: sockaddr_in where
  "listen_address = \<lparr>sin_family = AF_INET, sin_port = swap_bytes 7777, sin_addr = 0\<rparr>"

definition StartListening :: "build \<Rightarrow> start_answers \<Rightarrow> u32 \<Rightarrow> listening outcome" where
  "StartListening b sys backlog =
     (if SOCKET_ERROR = wsaStartup sys then Inr (Returns False)
      else and_then (simple_CreateSocket b sys) (\<lambda>listenSocket.
        and_then (RegisterSock2IOCP b (completionPort sys) listenSocket) (\<lambda>registered.
          if INVALID_SOCKET \<noteq> registered then Inr (Returns False)
          else if \<not> simple_SetSockOpt (sockopt sys) listenSocket SOL_SOCKET SO_REUSEADDR [1] then Inr (Returns False)
          else if \<not> simple_SetSockOpt (sockopt sys) listenSocket SOL_SOCKET SO_LINGER [0, 0, 0, 0] then Inr (Returns False)
          else if SOCKET_ERROR \<noteq> bindCall sys listenSocket listen_address then Inr (Returns False)
          else if SOCKET_ERROR \<noteq> listenCall sys listenSocket backlog then Inr (Returns False)
          else Inr (AcceptsForever listenSocket))))"

text \<open>The accept loop is reached only with an invalid socket that could neither be bound nor
  listened on: every test of the start-up is the wrong way round.\<close>

theorem StartListening_accepts_only_broken:
  assumes "StartListening b sys backlog = Inr (AcceptsForever s)"
  shows "s = INVALID_SOCKET \<and> wsaSocket sys = INVALID_SOCKET \<and>
         bindCall sys s listen_address = SOCKET_ERROR \<and> listenCall sys s backlog = SOCKET_ERROR"
  using assms
  by (auto simp: StartListening_def simple_CreateSocket_def RegisterSock2IOCP_def and_then_Inr_iff split: if_splits)

lemma StartListening_accepts_only_broken_witness:
  "\<exists>sys. StartListening ReleaseBuild sys 5 = Inr (AcceptsForever INVALID_SOCKET) \<and> wsaSocket sys = INVALID_SOCKET"
proof -
  let ?sys = "\<lparr>wsaStartup = 0, wsaSocket = INVALID_SOCKET, completionPort = (\<lambda>_. 0), sockopt = (\<lambda>_ _ _ _. 0),
    bindCall = (\<lambda>_ _. SOCKET_ERROR), listenCall = (\<lambda>_ _. SOCKET_ERROR)\<rparr>"
  have "StartListening ReleaseBuild ?sys 5 = Inr (AcceptsForever INVALID_SOCKET)"
    by (simp add: StartListening_def simple_CreateSocket_def RegisterSock2IOCP_def simple_SetSockOpt_def SOCKET_ERROR_def)
  from this StartListening_accepts_only_broken [OF this] show ?thesis
    by blast
qed

text \<open>\<open>DispatchIoCompletionPacket\<close> passes the (null) value of its event pointer where its address is
  meant, so \<open>iocpEvent\<close> is still null when a packet has been taken; \<open>got\<close> is whether one was.\<close>

datatype simple_event = Connect_ev | Disconnect_ev | Accept_ev | Recv_ev | Send_ev

definition DispatchIoCompletionPacket :: "bool \<Rightarrow> int \<Rightarrow> bool outcome" where
  "DispatchIoCompletionPacket got errorCode =
     (if got then Inl (Undefined ''null event'')
      else if errorCode = 258 then Inr False else Inr True)"

end
