(* ===== verification/Pb_Utf8.thy ===== *)
theory Pb_Utf8
  imports Core_Prelude
begin

text \<open>
  The UTF-8 check of Headers/google/protobuf/stubs/structurally_valid.cc, which the message classes
  run over every string field: the state table, the scanner that skips ASCII eight bytes at a
  time and then runs the table, and the three functions on top of it. It is proved equal to the
  definition of well-formed UTF-8 by byte ranges and, through \<open>EncodeAsUTF8Char\<close> of strutil.cc, to
  the set of encoded sequences of Unicode scalar values.
\<close>

section \<open>Exit codes and the state table\<close>

definition kExitIllegalStructure :: nat where "kExitIllegalStructure = 240"
definition kExitOK :: nat where "kExitOK = 241"
definition kExitReject :: nat where "kExitReject = 242"
definition kExitDoAgain :: nat where "kExitDoAgain = 253"

text \<open>Rows of the macros \<open>X__\<close> and \<open>RJ_\<close> of the table, and one block of 256 entries per state.\<close>

abbreviation ILL :: "nat \<Rightarrow> nat list" where "ILL n \<equiv> replicate n kExitIllegalStructure"
abbreviation REJ :: "nat \<Rightarrow> nat list" where "REJ n \<equiv> replicate n kExitReject"

definition state_0 :: "nat list" where
  "state_0 = replicate 128 0 @ ILL 64 @ ILL 2 @ replicate 30 1 @ [2] @ replicate 12 3 @ [7, 3, 3] @ [4, 5, 5, 5, 6] @ ILL 11"

definition state_1 :: "nat list" where
  "state_1 = ILL 128 @ replicate 64 0 @ ILL 64"

definition state_2 :: "nat list" where
  "state_2 = ILL 128 @ ILL 32 @ replicate 32 1 @ ILL 64"

definition state_3 :: "nat list" where
  "state_3 = ILL 128 @ replicate 64 1 @ ILL 64"

definition state_4 :: "nat list" where
  "state_4 = ILL 128 @ ILL 16 @ replicate 48 3 @ ILL 64"

definition state_5 :: "nat list" where
  "state_5 = ILL 128 @ replicate 64 3 @ ILL 64"

definition state_6 :: "nat list" where
  "state_6 = ILL 128 @ replicate 16 3 @ ILL 48 @ ILL 64"

definition state_7 :: "nat list" where
  "state_7 = ILL 128 @ replicate 32 1 @ replicate 32 8 @ ILL 64"

definition state_8 :: "nat list" where
  "state_8 = ILL 128 @ REJ 64 @ ILL 64"

definition utf8acceptnonsurrogates :: "nat list" where
  "utf8acceptnonsurrogates = state_0 @ state_1 @ state_2 @ state_3 @ state_4 @ state_5 @ state_6 @ state_7 @ state_8"

definition utf8acceptnonsurrogates_fast :: "nat list" where
  "utf8acceptnonsurrogates_fast = replicate 128 0 @ replicate 128 1"

definition LOSUB :: u32 where "LOSUB = 0x20202020"
definition HIADD :: u32 where "HIADD = 0"
definition STATE0_SIZE :: nat where "STATE0_SIZE = 256"
definition ENTRY_SHIFT :: nat where "ENTRY_SHIFT = 8"

section \<open>The scanner\<close>

text \<open>The string is the list \<open>bs\<close>, stored at address \<open>addr\<close>; \<open>src\<close> and the limits are offsets into it
  and \<open>tbl\<close> is the offset of \<open>Tbl\<close> in the state table.\<close>

definition InStateZero :: "nat \<Rightarrow> bool" where
  "InStateZero tbl \<longleftrightarrow> tbl < STATE0_SIZE"

definition fast_entry :: "u8 list \<Rightarrow> nat \<Rightarrow> nat" where
  "fast_entry bs i = utf8acceptnonsurrogates_fast ! unat (bs ! i)"

text \<open>A \<open>uint32\<close> read from four bytes, least significant first.\<close>

definition load32 :: "u8 list \<Rightarrow> nat \<Rightarrow> u32" where
  "load32 bs i = or (ucast (bs ! i)) (or (push_bit 8 (ucast (bs ! (i + 1))))
                 (or (push_bit 16 (ucast (bs ! (i + 2)))) (push_bit 24 (ucast (bs ! (i + 3))))))"

text \<open>The loop up to an 8-byte boundary.\<close>

function align_loop :: "(u8 list \<Rightarrow> nat \<Rightarrow> bool) \<Rightarrow> nat \<Rightarrow> u8 list \<Rightarrow> nat \<Rightarrow> nat" where
  "align_loop ok addr bs src =
     (if (addr + src) mod 8 \<noteq> 0 \<and> src < length bs \<and> ok bs src then align_loop ok addr bs (src + 1) else src)"
  by auto
termination by (relation "measure (\<lambda>(ok, addr, bs, src). length bs - src)") auto

definition srclimit8 :: "u8 list \<Rightarrow> nat" where
  "srclimit8 bs = (if length bs < 7 then 0 else length bs - 7)"

text \<open>Groups of eight: the range check on both words, and the look at the table when it fails.\<close>

function fast_loop :: "u8 list \<Rightarrow> nat \<Rightarrow> nat" where
  "fast_loop bs src =
     (if src < srclimit8 bs then
        let s0123 = load32 bs src; s4567 = load32 bs (src + 4);
            temp = or (or (s0123 - LOSUB) (s0123 + HIADD)) (or (s4567 - LOSUB) (s4567 + HIADD))
        in if and temp 0x80808080 \<noteq> 0 then
             if fast_entry bs src \<noteq> 0 \<or> fast_entry bs (src + 1) \<noteq> 0 \<or>
                fast_entry bs (src + 2) \<noteq> 0 \<or> fast_entry bs (src + 3) \<noteq> 0 then src
             else if fast_entry bs (src + 4) \<noteq> 0 \<or> fast_entry bs (src + 5) \<noteq> 0 \<or>
                fast_entry bs (src + 6) \<noteq> 0 \<or> fast_entry bs (src + 7) \<noteq> 0 then src + 4
             else fast_loop bs (src + 8)
           else fast_loop bs (src + 8)
      else src)"
  by auto
termination by (relation "measure (\<lambda>(bs, src). length bs - src)") (auto simp: srclimit8_def split: if_splits)

text \<open>The byte-at-a-time scan over the bytes from \<open>src\<close> on: the last table row, the offset reached and
  the last entry read.\<close>

fun scan_bytes :: "nat \<Rightarrow> nat \<Rightarrow> nat \<Rightarrow> u8 list \<Rightarrow> nat \<times> nat \<times> nat" where
  "scan_bytes tbl src e [] = (tbl, src, e)"
| "scan_bytes tbl src e (c # cs) =
     (let e' = utf8acceptnonsurrogates ! (tbl + unat c) in
      if e' \<ge> kExitIllegalStructure then (tbl, src + 1, e')
      else scan_bytes (push_bit ENTRY_SHIFT e') (src + 1) e' cs)"

text \<open>\<open>do src--; while (src > isrc && (src[0] & 0xc0) == 0x80)\<close>\<close>

fun back_up :: "u8 list \<Rightarrow> nat \<Rightarrow> nat" where
  "back_up bs 0 = 0"
| "back_up bs (Suc src) = (if src > 0 \<and> and (bs ! src) 0xC0 = 0x80 then back_up bs src else src)"

definition scan_exit :: "u8 list \<Rightarrow> nat \<times> nat \<times> nat \<Rightarrow> nat \<times> nat" where
  "scan_exit bs = (\<lambda>(tbl, src, e).
     if e \<ge> kExitIllegalStructure then
       (e, let src1 = src - 1 in if \<not> InStateZero tbl then back_up bs src1 else src1)
     else if \<not> InStateZero tbl then (kExitIllegalStructure, back_up bs src)
     else (kExitOK, src))"

text \<open>One pass from the label \<open>DoAgain\<close>, and the jump back to it.\<close>

definition scan_pass :: "nat \<Rightarrow> u8 list \<Rightarrow> nat \<Rightarrow> nat \<times> nat" where
  "scan_pass addr bs src =
     (let src1 = align_loop (\<lambda>bs i. fast_entry bs i = 0) addr bs src;
          src2 = (if (addr + src1) mod 8 = 0 then fast_loop bs src1 else src1)
      in scan_exit bs (scan_bytes 0 src2 0 (drop src2 bs)))"

partial_function (option) scan_again :: "nat \<Rightarrow> u8 list \<Rightarrow> nat \<Rightarrow> (nat \<times> nat) option" where
  "scan_again addr bs src =
     (let r = scan_pass addr bs src in
      if fst r = kExitDoAgain then scan_again addr bs (snd r) else Some r)"

declare scan_again.simps [code]

definition UTF8GenericScan :: "nat \<Rightarrow> u8 list \<Rightarrow> (nat \<times> nat) option" where
  "UTF8GenericScan addr bs = (if bs = [] then Some (kExitOK, 0) else scan_again addr bs 0)"

text \<open>\<open>UTF8GenericScanFastAscii\<close> skips ASCII first, byte by byte to an 8-byte boundary, by eights, and
  byte by byte again.\<close>

function ascii_eights :: "u8 list \<Rightarrow> nat \<Rightarrow> nat" where
  "ascii_eights bs src =
     (if src < srclimit8 bs \<and> and (or (load32 bs src) (load32 bs (src + 4))) 0x80808080 = 0
      then ascii_eights bs (src + 8) else src)"
  by auto
termination by (relation "measure (\<lambda>(bs, src). length bs - src)") (auto simp: srclimit8_def split: if_splits)

function ascii_bytes :: "u8 list \<Rightarrow> nat \<Rightarrow> nat" where
  "ascii_bytes bs src = (if src < length bs \<and> bs ! src < 0x80 then ascii_bytes bs (src + 1) else src)"
  by auto
termination by (relation "measure (\<lambda>(bs, src). length bs - src)") auto

partial_function (option) scan_fast_ascii :: "nat \<Rightarrow> u8 list \<Rightarrow> nat \<Rightarrow> (nat \<times> nat) option" where
  "scan_fast_ascii addr bs src =
     (let src1 = align_loop (\<lambda>bs i. bs ! i < 0x80) addr bs src;
          src2 = (if (addr + src1) mod 8 = 0 then ascii_eights bs src1 else src1);
          src3 = ascii_bytes bs src2
      in case UTF8GenericScan (addr + src3) (drop src3 bs) of
           None \<Rightarrow> None
         | Some (exit_reason, rest_consumed) \<Rightarrow>
             if exit_reason = kExitDoAgain then scan_fast_ascii addr bs (src3 + rest_consumed)
             else Some (exit_reason, src3 + rest_consumed))"

declare scan_fast_ascii.simps [code]

definition UTF8GenericScanFastAscii :: "nat \<Rightarrow> u8 list \<Rightarrow> (nat \<times> nat) option" where
  "UTF8GenericScanFastAscii addr bs = (if bs = [] then Some (kExitOK, 0) else scan_fast_ascii addr bs 0)"

text \<open>\<open>initialized\<close> is \<open>module_initialized_\<close>.\<close>

definition IsStructurallyValidUTF8 :: "bool \<Rightarrow> nat \<Rightarrow> u8 list \<Rightarrow> bool option" where
  "IsStructurallyValidUTF8 initialized addr bs =
     (if \<not> initialized then Some True
      else map_option (\<lambda>r. snd r = length bs) (UTF8GenericScanFastAscii addr bs))"

definition UTF8SpnStructurallyValid :: "bool \<Rightarrow> nat \<Rightarrow> u8 list \<Rightarrow> nat option" where
  "UTF8SpnStructurallyValid initialized addr bs =
     (if \<not> initialized then Some (length bs)
      else map_option snd (UTF8GenericScanFastAscii addr bs))"

declare align_loop.simps [simp del] fast_loop.simps [simp del] ascii_eights.simps [simp del] ascii_bytes.simps [simp del]

section \<open>Table look-ups\<close>

lemma nth_blocks:
  assumes "\<forall>b \<in> set bs. length b = n" and "i < length bs" and "j < n"
  shows "concat bs ! (i * n + j) = bs ! i ! j"
  using assms
proof (induction bs arbitrary: i)
  case (Cons b bs)
  then show ?case
    by (cases i) (auto simp: nth_append)
qed simp

definition table_rows :: "nat list list" where
  "table_rows = [state_0, state_1, state_2, state_3, state_4, state_5, state_6, state_7, state_8]"

lemmas state_defs = state_0_def state_1_def state_2_def state_3_def state_4_def state_5_def
  state_6_def state_7_def state_8_def

definition entry :: "nat \<Rightarrow> u8 \<Rightarrow> nat" where
  "entry s c = table_rows ! s ! unat c"

lemma unat_u8_less: "unat (c :: u8) < 256"
  by (rule order_less_le_trans [OF unsigned_less]) simp

lemma utf8_table_entry: "s < 9 \<Longrightarrow> utf8acceptnonsurrogates ! (s * 256 + unat c) = entry s c"
proof -
  assume "s < 9"
  moreover have "\<forall>b \<in> set table_rows. length b = 256"
    by (simp add: table_rows_def state_defs)
  moreover have "utf8acceptnonsurrogates = concat table_rows" "length table_rows = 9"
    by (simp_all add: utf8acceptnonsurrogates_def table_rows_def)
  ultimately show ?thesis
    using nth_blocks [of table_rows 256 s "unat c"] unat_u8_less [of c] by (simp add: entry_def)
qed


lemma row_simps:
  "n < 256 \<Longrightarrow> state_0 ! n = (if n < 128 then 0 else if n < 194 then 240 else if n < 224 then 1 else if n = 224 then 2
     else if n < 237 then 3 else if n = 237 then 7 else if n < 240 then 3 else if n = 240 then 4
     else if n < 244 then 5 else if n = 244 then 6 else 240)"
  "n < 256 \<Longrightarrow> state_1 ! n = (if n < 128 then 240 else if n < 192 then 0 else 240)"
  "n < 256 \<Longrightarrow> state_2 ! n = (if n < 160 then 240 else if n < 192 then 1 else 240)"
  "n < 256 \<Longrightarrow> state_3 ! n = (if n < 128 then 240 else if n < 192 then 1 else 240)"
  "n < 256 \<Longrightarrow> state_4 ! n = (if n < 144 then 240 else if n < 192 then 3 else 240)"
  "n < 256 \<Longrightarrow> state_5 ! n = (if n < 128 then 240 else if n < 192 then 3 else 240)"
  "n < 256 \<Longrightarrow> state_6 ! n = (if n < 128 then 240 else if n < 144 then 3 else 240)"
  "n < 256 \<Longrightarrow> state_7 ! n = (if n < 128 then 240 else if n < 160 then 1 else if n < 192 then 8 else 240)"
  "n < 256 \<Longrightarrow> state_8 ! n = (if n < 128 then 240 else if n < 192 then 242 else 240)"
  by (auto simp: state_defs nth_append nth_Cons' kExitIllegalStructure_def kExitReject_def)

lemma entry_simps:
  "entry 0 c = (if unat c < 128 then 0 else if unat c < 194 then 240 else if unat c < 224 then 1 else if unat c = 224 then 2
     else if unat c < 237 then 3 else if unat c = 237 then 7 else if unat c < 240 then 3 else if unat c = 240 then 4
     else if unat c < 244 then 5 else if unat c = 244 then 6 else 240)"
  "entry 1 c = (if unat c < 128 then 240 else if unat c < 192 then 0 else 240)"
  "entry 2 c = (if unat c < 160 then 240 else if unat c < 192 then 1 else 240)"
  "entry 3 c = (if unat c < 128 then 240 else if unat c < 192 then 1 else 240)"
  "entry 4 c = (if unat c < 144 then 240 else if unat c < 192 then 3 else 240)"
  "entry 5 c = (if unat c < 128 then 240 else if unat c < 192 then 3 else 240)"
  "entry 6 c = (if unat c < 128 then 240 else if unat c < 144 then 3 else 240)"
  "entry 7 c = (if unat c < 128 then 240 else if unat c < 160 then 1 else if unat c < 192 then 8 else 240)"
  "entry 8 c = (if unat c < 128 then 240 else if unat c < 192 then 242 else 240)"
  using row_simps [OF unat_u8_less [of c]] by (simp_all add: entry_def table_rows_def)

lemmas entry_eval = entry_simps entry_simps(2) [unfolded One_nat_def]

lemma state_cases:
  fixes s :: nat
  assumes "s < 9" obtains "s = 0" | "s = 1" | "s = 2" | "s = 3" | "s = 4" | "s = 5" | "s = 6" | "s = 7" | "s = 8"
  using assms by linarith

lemma entry_range: "s < 9 \<Longrightarrow> entry s c < 9 \<or> entry s c = 240 \<or> entry s c = 242"
  by (erule state_cases) (simp_all only: entry_simps split: if_splits, auto)

definition continuation :: "u8 \<Rightarrow> bool" where
  "continuation c \<longleftrightarrow> 128 \<le> unat c \<and> unat c < 192"

lemma entry_continues: "0 < s \<Longrightarrow> s < 9 \<Longrightarrow> entry s c < 9 \<Longrightarrow> continuation c"
  by (rule state_cases [of s]) (simp_all only: entry_simps continuation_def split: if_splits, auto)

lemma entry_leads: "0 < entry 0 c \<Longrightarrow> entry 0 c < 9 \<Longrightarrow> \<not> continuation c"
  by (auto simp: entry_simps continuation_def split: if_splits)

lemma continuation_bits: "and c 0xC0 = (0x80 :: u8) \<longleftrightarrow> continuation c"
proof -
  have "\<forall>n < 256. (and (word_of_nat n) 0xC0 = (0x80 :: u8)) = (128 \<le> n \<and> n < (192 :: nat))"
    by code_simp
  then have "(and (word_of_nat (unat c)) 0xC0 = (0x80 :: u8)) = (128 \<le> unat c \<and> unat c < 192)"
    using unat_u8_less by blast
  then show ?thesis
    by (simp add: continuation_def)
qed

section \<open>Completing a character\<close>

text \<open>How many of the following bytes complete the character that has brought the scan to state \<open>s\<close>.\<close>

fun completes :: "nat \<Rightarrow> u8 list \<Rightarrow> nat option" where
  "completes s [] = None"
| "completes s (c # cs) =
     (let e = entry s c in if e \<ge> 240 then None else if e = 0 then Some 1 else map_option Suc (completes e cs))"

definition first_char :: "u8 list \<Rightarrow> nat option" where
  "first_char bs = completes 0 bs"

lemma completes_bounds: "completes s cs = Some k \<Longrightarrow> 0 < k \<and> k \<le> length cs"
  by (induction s cs arbitrary: k rule: completes.induct) (auto simp: Let_def split: if_splits)

text \<open>Length of the longest prefix made of complete characters.\<close>

function span :: "u8 list \<Rightarrow> nat" where
  "span bs = (case first_char bs of None \<Rightarrow> 0 | Some k \<Rightarrow> k + span (drop k bs))"
  by auto
termination by (relation "measure length") (auto simp: first_char_def dest: completes_bounds)

declare span.simps [simp del]

lemma first_char_Nil [simp]: "first_char [] = None"
  by (simp add: first_char_def)

lemma span_Nil [simp]: "span [] = 0"
  by (simp add: span.simps)

lemma span_le: "span bs \<le> length bs"
proof (induction bs rule: span.induct)
  case (1 bs)
  show ?case
  proof (cases "first_char bs")
    case (Some k)
    then have "k \<le> length bs"
      by (auto simp: first_char_def dest: completes_bounds)
    then show ?thesis
      using 1 [OF Some] Some by (simp add: span.simps [of bs])
  qed (simp add: span.simps [of bs])
qed

section \<open>The table scan finds the longest valid prefix\<close>

lemma back_up_to_lead:
  assumes "\<not> continuation b" and "list_all continuation cs"
  shows "back_up (pre @ b # cs @ rest) (length pre + 1 + length cs) = length pre"
  using assms(2)
proof (induction cs arbitrary: rest rule: rev_induct)
  case Nil
  then show ?case
    using assms(1) by (simp add: nth_append continuation_bits)
next
  case (snoc c cs)
  have "(pre @ b # (cs @ [c]) @ rest) ! (length pre + 1 + length cs) = c"
    by (simp add: nth_append)
  then show ?case
    using snoc.IH [of "c # rest"] snoc.prems by (simp add: continuation_bits)
qed

lemma scan_step:
  assumes "s < 9"
  shows "scan_bytes (s * 256) src e (c # cs) =
     (if entry s c < 9 then scan_bytes (entry s c * 256) (src + 1) (entry s c) cs else (s * 256, src + 1, entry s c))"
  using utf8_table_entry [OF assms, of c] entry_range [OF assms, of c]
  by (auto simp: kExitIllegalStructure_def ENTRY_SHIFT_def push_bit_eq_mult Let_def)

lemma InStateZero_row [simp]: "InStateZero (s * 256) \<longleftrightarrow> s = 0"
  by (auto simp: InStateZero_def STATE0_SIZE_def)

text \<open>From inside a character: either the bytes complete it and the scan is back in state 0 behind
  it, or the scan ends with its start.\<close>

lemma scan_inside:
  assumes "0 < s" and "s < 9" and "e < 9" and "\<not> continuation b" and "list_all continuation cs"
  shows "case completes s rest of
     Some k \<Rightarrow> scan_exit (pre @ b # cs @ rest) (scan_bytes (s * 256) (length pre + 1 + length cs) e rest) =
               scan_exit (pre @ b # cs @ rest) (scan_bytes 0 (length pre + 1 + length cs + k) 0 (drop k rest))
   | None \<Rightarrow> \<exists>r \<in> {240, 242}. scan_exit (pre @ b # cs @ rest) (scan_bytes (s * 256) (length pre + 1 + length cs) e rest) = (r, length pre)"
  using assms
proof (induction rest arbitrary: s cs e)
  case Nil
  have "back_up (pre @ b # cs) (Suc (length pre + length cs)) = length pre"
    using back_up_to_lead [OF Nil.prems(4,5), of pre "[]"] by simp
  then show ?case
    using Nil.prems by (simp add: scan_exit_def kExitIllegalStructure_def)
next
  case (Cons c rest)
  note step = scan_step [OF Cons.prems(2), of "length pre + 1 + length cs" e c rest]
  consider "entry s c = 0" | "0 < entry s c" "entry s c < 9" | "entry s c = 240 \<or> entry s c = 242"
    using entry_range [OF Cons.prems(2), of c] by auto
  then show ?case
  proof cases
    case 1
    then show ?thesis
      using step by simp
  next
    case 2
    then have "continuation c"
      using entry_continues Cons.prems by blast
    then have "list_all continuation (cs @ [c])"
      using Cons.prems by simp
    from Cons.IH [OF 2 2(2) Cons.prems(4) this] 2 step show ?thesis
      by (auto simp: Let_def split: option.splits)
  next
    case 3
    have "back_up (pre @ b # cs @ c # rest) (Suc (length pre + length cs)) = length pre"
      using back_up_to_lead [OF Cons.prems(4,5), of pre "c # rest"] by simp
    then show ?thesis
      using 3 step Cons.prems(1) by (auto simp: scan_exit_def kExitIllegalStructure_def Let_def)
  qed
qed

lemma scan_zero:
  "\<exists>r \<in> {240, 241, 242}. scan_exit (pre @ rest) (scan_bytes 0 (length pre) 0 rest) = (r, length pre + span rest)"
proof (induction rest arbitrary: pre rule: length_induct)
  case (1 rest)
  show ?case
  proof (cases rest)
    case Nil
    then show ?thesis
      by (simp add: scan_exit_def kExitIllegalStructure_def kExitOK_def InStateZero_def STATE0_SIZE_def)
  next
    case (Cons b cs)
    note step = scan_step [of 0 "length pre" 0 b cs, simplified]
    consider "entry 0 b = 0" | "0 < entry 0 b" "entry 0 b < 9" | "entry 0 b = 240 \<or> entry 0 b = 242"
      using entry_range [of 0 b] by auto
    then show ?thesis
    proof cases
      case 1
      then have "span rest = 1 + span cs"
        by (simp add: span.simps [of "b # cs"] Cons first_char_def)
      then show ?thesis
        using "1.IH" [rule_format, of cs "pre @ [b]"] 1 step by (simp add: Cons)
    next
      case 2
      have nc: "\<not> continuation b"
        using entry_leads 2 by blast
      note inside = scan_inside [OF 2 2(2) nc, of "[]" pre cs, simplified]
      show ?thesis
      proof (cases "completes (entry 0 b) cs")
        case None
        then have "span rest = 0"
          using 2 by (simp add: span.simps [of "b # cs"] Cons first_char_def)
        then show ?thesis
          using inside None 2 step by (auto simp: Cons)
      next
        case (Some k)
        then have k: "k \<le> length cs" "span rest = 1 + k + span (drop k cs)"
          using 2 completes_bounds [OF Some] by (simp_all add: span.simps [of "b # cs"] Cons first_char_def)
        have "pre @ rest = (pre @ b # take k cs) @ drop k cs" "length (pre @ b # take k cs) = length pre + 1 + k"
          using k by (simp_all add: Cons)
        then show ?thesis
          using "1.IH" [rule_format, of "drop k cs" "pre @ b # take k cs"] inside Some k 2 step
          by (simp add: Cons add.assoc)
      qed
    next
      case 3
      then have "span rest = 0"
        by (auto simp: span.simps [of "b # cs"] Cons first_char_def)
      then show ?thesis
        using 3 step by (auto simp: Cons scan_exit_def kExitIllegalStructure_def InStateZero_def STATE0_SIZE_def Let_def)
    qed
  qed
qed


section \<open>Skipping ASCII\<close>

definition skips :: "u8 list \<Rightarrow> nat \<Rightarrow> nat \<Rightarrow> bool" where
  "skips bs a b \<longleftrightarrow> a \<le> b \<and> b \<le> length bs \<and> (\<forall>i. a \<le> i \<and> i < b \<longrightarrow> unat (bs ! i) < 128)"

lemma skips_refl [intro]: "a \<le> length bs \<Longrightarrow> skips bs a a"
  by (simp add: skips_def)

lemma skips_trans: "skips bs a b \<Longrightarrow> skips bs b c \<Longrightarrow> skips bs a c"
  unfolding skips_def by (meson le_trans not_le_imp_less)

lemma skips_one: "a < length bs \<Longrightarrow> unat (bs ! a) < 128 \<Longrightarrow> skips bs a (Suc a)"
  unfolding skips_def by (auto simp: less_Suc_eq)

lemma fast_entry_0: "fast_entry bs i = 0 \<longleftrightarrow> unat (bs ! i) < 128"
  using unat_u8_less [of "bs ! i"] by (simp add: fast_entry_def utf8acceptnonsurrogates_fast_def nth_append)

lemma byte_less_128: "(c :: u8) < 0x80 \<longleftrightarrow> unat c < 128"
  by (simp add: word_less_nat_alt)

lemma align_loop_skips:
  assumes "\<And>i. ok bs i \<Longrightarrow> unat (bs ! i) < 128" and "src \<le> length bs"
  shows "skips bs src (align_loop ok addr bs src)"
  using assms
proof (induction ok addr bs src rule: align_loop.induct)
  case (1 ok addr bs src)
  show ?case
  proof (cases "(addr + src) mod 8 \<noteq> 0 \<and> src < length bs \<and> ok bs src")
    case True
    then have "skips bs src (Suc src)"
      using "1.prems" by (auto intro: skips_one)
    moreover have "skips bs (Suc src) (align_loop ok addr bs (src + 1))"
      using "1.IH" [OF True "1.prems"(1)] True by simp
    ultimately show ?thesis
      using skips_trans True by (subst align_loop.simps) auto
  next
    case False
    then show ?thesis
      using "1.prems" by (subst align_loop.simps) auto
  qed
qed

lemma ascii_bytes_skips: "src \<le> length bs \<Longrightarrow> skips bs src (ascii_bytes bs src)"
proof (induction bs src rule: ascii_bytes.induct)
  case (1 bs src)
  show ?case
  proof (cases "src < length bs \<and> bs ! src < 0x80")
    case True
    then have "skips bs src (Suc src)"
      by (auto intro: skips_one simp: byte_less_128)
    then show ?thesis
      using 1 True skips_trans by (subst ascii_bytes.simps) auto
  next
    case False
    then show ?thesis
      using "1.prems" by (subst ascii_bytes.simps) auto
  qed
qed

text \<open>The high bits of a loaded word are the high bits of its bytes.\<close>

lemma high_bit: "bit (c :: u8) 7 \<longleftrightarrow> 128 \<le> unat c"
proof -
  have "\<forall>n < 256. bit (word_of_nat n :: u8) 7 = (128 \<le> (n :: nat))"
    by code_simp
  then have "bit (word_of_nat (unat c) :: u8) 7 = (128 \<le> unat c)"
    using unat_u8_less by blast
  then show ?thesis
    by simp
qed

lemma high_mask_bits: "n \<in> {7, 15, 23, 31} \<Longrightarrow> bit (0x80808080 :: u32) n"
  by auto

lemma u8_bit_high: "8 \<le> n \<Longrightarrow> \<not> bit (c :: u8) n"
  by (auto dest: bit_imp_le_length)

lemma load32_high_bits:
  "bit (load32 bs i) 7 = bit (bs ! i) 7" "bit (load32 bs i) 15 = bit (bs ! (i + 1)) 7"
  "bit (load32 bs i) 23 = bit (bs ! (i + 2)) 7" "bit (load32 bs i) 31 = bit (bs ! (i + 3)) 7"
  by (simp_all add: load32_def bit_or_iff bit_push_bit_iff bit_ucast_iff u8_bit_high)

lemma no_high_bits:
  assumes "and (or x y) 0x80808080 = (0 :: u32)" and "n \<in> {7, 15, 23, 31}"
  shows "\<not> bit x n" and "\<not> bit y n"
  using arg_cong [OF assms(1), of "\<lambda>w. bit w n"] assms(2) by (auto simp: bit_and_iff bit_or_iff high_mask_bits)

lemma load32_ascii:
  assumes "\<And>n. n \<in> {7, 15, 23, 31} \<Longrightarrow> \<not> bit (load32 bs i) n" and "i \<le> j" and "j < i + 4"
  shows "unat (bs ! j) < 128"
proof -
  have "j = i \<or> j = i + 1 \<or> j = i + 2 \<or> j = i + 3"
    using assms(2,3) by auto
  then show ?thesis
    using assms(1) load32_high_bits [of bs i] high_bit by (metis insertI1 insertI2 linorder_not_le)
qed

lemma eight_ascii:
  assumes "src < srclimit8 bs"
    and "\<And>n. n \<in> {7, 15, 23, 31} \<Longrightarrow> \<not> bit (load32 bs src) n \<and> \<not> bit (load32 bs (src + 4)) n"
  shows "skips bs src (src + 8)"
  unfolding skips_def
proof (intro conjI allI impI)
  show "src + 8 \<le> length bs"
    using assms(1) by (auto simp: srclimit8_def split: if_splits)
  fix i
  assume "src \<le> i \<and> i < src + 8"
  then consider "src \<le> i" "i < src + 4" | "src + 4 \<le> i" "i < src + 4 + 4"
    by linarith
  then show "unat (bs ! i) < 128"
    using load32_ascii assms(2) by cases blast+
qed simp

lemma ascii_eights_skips: "src \<le> length bs \<Longrightarrow> skips bs src (ascii_eights bs src)"
proof (induction bs src rule: ascii_eights.induct)
  case (1 bs src)
  show ?case
  proof (cases "src < srclimit8 bs \<and> and (or (load32 bs src) (load32 bs (src + 4))) 0x80808080 = 0")
    case True
    then have s: "skips bs src (src + 8)"
      using eight_ascii no_high_bits by blast
    then have "src + 8 \<le> length bs"
      by (simp add: skips_def)
    then show ?thesis
      using "1.IH" True s skips_trans by (subst ascii_eights.simps) auto
  next
    case False
    then show ?thesis
      using "1.prems" by (subst ascii_eights.simps) auto
  qed
qed

lemma four_entries:
  assumes "fast_entry bs i = 0" "fast_entry bs (i + 1) = 0" "fast_entry bs (i + 2) = 0" "fast_entry bs (i + 3) = 0"
    and "i + 4 \<le> length bs"
  shows "skips bs i (i + 4)"
proof -
  have "unat (bs ! j) < 128" if "i \<le> j" "j < i + 4" for j
  proof -
    have "j = i \<or> j = i + 1 \<or> j = i + 2 \<or> j = i + 3"
      using that by auto
    then show ?thesis
      using assms fast_entry_0 by metis
  qed
  then show ?thesis
    using assms(5) by (simp add: skips_def)
qed

lemma fast_loop_skips: "src \<le> length bs \<Longrightarrow> skips bs src (fast_loop bs src)"
proof (induction bs src rule: fast_loop.induct)
  case (1 bs src)
  let ?a = "load32 bs src" and ?b = "load32 bs (src + 4)"
  let ?temp = "or (or (?a - LOSUB) (?a + HIADD)) (or (?b - LOSUB) (?b + HIADD))"
  let ?bad1 = "fast_entry bs src \<noteq> 0 \<or> fast_entry bs (src + 1) \<noteq> 0 \<or> fast_entry bs (src + 2) \<noteq> 0 \<or> fast_entry bs (src + 3) \<noteq> 0"
  let ?bad2 = "fast_entry bs (src + 4) \<noteq> 0 \<or> fast_entry bs (src + 5) \<noteq> 0 \<or> fast_entry bs (src + 6) \<noteq> 0 \<or> fast_entry bs (src + 7) \<noteq> 0"
  show ?case
  proof (cases "src < srclimit8 bs")
    case True
    then have len: "src + 8 \<le> length bs"
      by (auto simp: srclimit8_def split: if_splits)
    have first: "skips bs src (src + 4)" if "\<not> ?bad1"
      using that len four_entries [of bs src] by auto
    have second: "skips bs (src + 4) (src + 8)" if "\<not> ?bad2"
      using that len four_entries [of bs "src + 4"] by (simp add: numeral_eq_Suc)
    have rec: "skips bs src (fast_loop bs (src + 8))" if "skips bs src (src + 8)"
      "and ?temp 0x80808080 = 0 \<or> \<not> ?bad1 \<and> \<not> ?bad2"
      using "1.IH" [OF True refl refl refl] that len skips_trans by (cases "and ?temp 0x80808080 = 0") auto
    consider "and ?temp 0x80808080 = 0" | "and ?temp 0x80808080 \<noteq> 0" ?bad1
      | "and ?temp 0x80808080 \<noteq> 0" "\<not> ?bad1" ?bad2 | "and ?temp 0x80808080 \<noteq> 0" "\<not> ?bad1" "\<not> ?bad2"
      by blast
    then show ?thesis
    proof cases
      case 1
      have "?temp = or ?a (or ?b (or (?a - LOSUB) (?b - LOSUB)))"
        by (simp add: HIADD_def ac_simps)
      then have "\<not> bit ?a n \<and> \<not> bit ?b n" if "n \<in> {7, 15, 23, 31}" for n
        using arg_cong [OF 1, of "\<lambda>w. bit w n"] that by (auto simp: bit_and_iff bit_or_iff high_mask_bits)
      then have "skips bs src (src + 8)"
        using eight_ascii [OF True] by blast
      then show ?thesis
        using rec 1 True by (subst fast_loop.simps) simp
    next
      case 2
      then show ?thesis
        using "1.prems" True by (subst fast_loop.simps) (simp add: Let_def skips_refl)
    next
      case 3
      then show ?thesis
        using first True by (subst fast_loop.simps) (simp add: Let_def)
    next
      case 4
      then show ?thesis
        using rec skips_trans [OF first second] True by (subst fast_loop.simps) (simp add: Let_def)
    qed
  next
    case False
    then show ?thesis
      using "1.prems" by (subst fast_loop.simps) auto
  qed
qed


lemma span_ascii: "unat b < 128 \<Longrightarrow> span (b # bs) = Suc (span bs)"
  by (simp add: span.simps [of "b # bs"] first_char_def entry_simps)

lemma span_skip: "skips bs 0 k \<Longrightarrow> span bs = k + span (drop k bs)"
proof (induction k arbitrary: bs)
  case (Suc k)
  then obtain b cs where bs: "bs = b # cs"
    by (cases bs) (auto simp: skips_def)
  have "unat ((b # cs) ! Suc i) < 128" if "i < k" for i
    using Suc.prems that unfolding skips_def bs by blast
  then have "skips cs 0 k"
    using Suc.prems by (simp add: skips_def bs)
  moreover have "unat b < 128"
    using Suc.prems by (force simp: skips_def bs)
  ultimately show ?case
    using Suc.IH [of cs] by (simp add: bs span_ascii)
qed simp

section \<open>What the scanners compute\<close>

lemma scan_pass_span:
  "\<exists>r \<in> {240, 241, 242}. scan_pass addr bs 0 = (r, span bs)"
proof -
  define src1 where "src1 = align_loop (\<lambda>bs i. fast_entry bs i = 0) addr bs 0"
  define src2 where "src2 = (if (addr + src1) mod 8 = 0 then fast_loop bs src1 else src1)"
  have s1: "skips bs 0 src1"
    unfolding src1_def by (rule align_loop_skips) (simp_all add: fast_entry_0)
  have s2: "skips bs src1 src2"
    using s1 fast_loop_skips [of src1 bs] by (auto simp: src2_def skips_def)
  have s: "skips bs 0 src2"
    using skips_trans [OF s1 s2] .
  then have "length (take src2 bs) = src2"
    by (simp add: skips_def)
  with scan_zero [of "take src2 bs" "drop src2 bs"] span_skip [OF s] show ?thesis
    by (simp add: scan_pass_def Let_def src1_def [symmetric] src2_def [symmetric])
qed

lemma UTF8GenericScan_span:
  "\<exists>r \<in> {240, 241, 242}. UTF8GenericScan addr bs = Some (r, span bs)"
proof (cases "bs = []")
  case False
  obtain r where "r \<in> {240, 241, 242}" "scan_pass addr bs 0 = (r, span bs)"
    using scan_pass_span by blast
  then have "scan_again addr bs 0 = Some (r, span bs)"
    by (subst scan_again.simps) (auto simp: kExitDoAgain_def)
  then show ?thesis
    using False \<open>r \<in> {240, 241, 242}\<close> by (auto simp: UTF8GenericScan_def)
qed (simp add: UTF8GenericScan_def kExitOK_def)

lemma UTF8GenericScanFastAscii_span:
  "\<exists>r \<in> {240, 241, 242}. UTF8GenericScanFastAscii addr bs = Some (r, span bs)"
proof (cases "bs = []")
  case False
  define src1 where "src1 = align_loop (\<lambda>bs i. bs ! i < 0x80) addr bs 0"
  define src2 where "src2 = (if (addr + src1) mod 8 = 0 then ascii_eights bs src1 else src1)"
  define src3 where "src3 = ascii_bytes bs src2"
  have s1: "skips bs 0 src1"
    unfolding src1_def by (rule align_loop_skips) (simp_all add: byte_less_128)
  have s2: "skips bs src1 src2"
    using s1 ascii_eights_skips [of src1 bs] by (auto simp: src2_def skips_def)
  have s3: "skips bs src2 src3"
    unfolding src3_def by (rule ascii_bytes_skips) (use s2 in \<open>simp add: skips_def\<close>)
  have s: "skips bs 0 src3"
    using skips_trans [OF skips_trans [OF s1 s2] s3] .
  obtain r where r: "r \<in> {240, 241, 242}" "UTF8GenericScan (addr + src3) (drop src3 bs) = Some (r, span (drop src3 bs))"
    using UTF8GenericScan_span by blast
  have "scan_fast_ascii addr bs 0 = Some (r, span bs)"
    unfolding scan_fast_ascii.simps [of addr bs 0] Let_def src1_def [symmetric] src2_def [symmetric] src3_def [symmetric]
    using r span_skip [OF s] by (auto simp: kExitDoAgain_def)
  then show ?thesis
    using False r(1) by (auto simp: UTF8GenericScanFastAscii_def)
qed (simp add: UTF8GenericScanFastAscii_def kExitOK_def)

lemma IsStructurallyValidUTF8_span: "IsStructurallyValidUTF8 True addr bs = Some (span bs = length bs)"
  using UTF8GenericScanFastAscii_span [of addr bs] by (auto simp: IsStructurallyValidUTF8_def)

lemma UTF8SpnStructurallyValid_span: "UTF8SpnStructurallyValid True addr bs = Some (span bs)"
  using UTF8GenericScanFastAscii_span [of addr bs] by (auto simp: UTF8SpnStructurallyValid_def)

section \<open>Encoding\<close>

text \<open>\<open>EncodeAsUTF8Char\<close> of strutil.cc: the last \<open>len\<close> bytes of \<open>tmp\<close>, most significant first.\<close>

definition big_endian_tail :: "nat \<Rightarrow> u32 \<Rightarrow> u8 list" where
  "big_endian_tail len tmp =
     drop (4 - len) [ucast (drop_bit 24 tmp), ucast (drop_bit 16 tmp), ucast (drop_bit 8 tmp), ucast tmp]"

definition EncodeAsUTF8Char :: "u32 \<Rightarrow> u8 list" where
  "EncodeAsUTF8Char code_point =
     (if code_point \<le> 0x7f then big_endian_tail 1 code_point
      else if code_point \<le> 0x07ff then
        big_endian_tail 2 (or (or 0xc080 (push_bit 2 (and code_point 0x07c0))) (and code_point 0x003f))
      else if code_point \<le> 0xffff then
        big_endian_tail 3 (or (or (or 0xe08080 (push_bit 4 (and code_point 0xf000)))
          (push_bit 2 (and code_point 0x0fc0))) (and code_point 0x003f))
      else
        big_endian_tail 4 (or (or (or (or 0xf0808080 (push_bit 6 (and code_point 0x1c0000)))
          (push_bit 4 (and code_point 0x03f000))) (push_bit 2 (and code_point 0x0fc0))) (and code_point 0x003f)))"


lemma byte_bits_cases: "n < LENGTH(8) \<Longrightarrow> n = 0 \<or> n = 1 \<or> n = 2 \<or> n = 3 \<or> n = 4 \<or> n = 5 \<or> n = 6 \<or> n = (7 :: nat)"
  by auto

lemmas bit_rules = bit_or_iff bit_and_iff bit_push_bit_iff bit_drop_bit_eq bit_ucast_iff

lemma enc2: "big_endian_tail 2 (or (or 0xc080 (push_bit 2 (and cp 0x07c0))) (and cp 0x003f)) =
   [or 0xC0 (and 0x1F (ucast (drop_bit 6 cp))), or 0x80 (and 0x3F (ucast cp))]"
  unfolding big_endian_tail_def
  by (simp; intro conjI bit_word_eqI; drule byte_bits_cases; elim disjE; simp add: bit_rules)

lemma enc3: "big_endian_tail 3 (or (or (or 0xe08080 (push_bit 4 (and cp 0xf000))) (push_bit 2 (and cp 0x0fc0))) (and cp 0x003f)) =
   [or 0xE0 (and 0x0F (ucast (drop_bit 12 cp))), or 0x80 (and 0x3F (ucast (drop_bit 6 cp))), or 0x80 (and 0x3F (ucast cp))]"
  unfolding big_endian_tail_def
  by (simp; intro conjI bit_word_eqI; drule byte_bits_cases; elim disjE; simp add: bit_rules)

lemma enc4: "big_endian_tail 4 (or (or (or (or 0xf0808080 (push_bit 6 (and cp 0x1c0000)))
          (push_bit 4 (and cp 0x03f000))) (push_bit 2 (and cp 0x0fc0))) (and cp 0x003f)) =
   [or 0xF0 (and 0x07 (ucast (drop_bit 18 cp))), or 0x80 (and 0x3F (ucast (drop_bit 12 cp))),
    or 0x80 (and 0x3F (ucast (drop_bit 6 cp))), or 0x80 (and 0x3F (ucast cp))]"
  unfolding big_endian_tail_def
  by (simp; intro conjI bit_word_eqI; drule byte_bits_cases; elim disjE; simp add: bit_rules)

lemma low_bits: "and (mask k) c = (word_of_nat (unat c mod 2 ^ k) :: u8)"
proof -
  have "unat (and (mask k) c) = unat c mod 2 ^ k"
    by (simp only: and.commute [of "mask k"] take_bit_eq_mask [symmetric] unsigned_take_bit_eq)
      (simp add: take_bit_eq_mod)
  then have "word_of_nat (unat (and (mask k) c)) = (word_of_nat (unat c mod 2 ^ k) :: u8)"
    by simp
  then show ?thesis
    by simp
qed

lemma unat_marked:
  "unat (or 0xC0 (and 0x1F c) :: u8) = 192 + unat c mod 32" "unat (or 0xE0 (and 0x0F c) :: u8) = 224 + unat c mod 16"
  "unat (or 0xF0 (and 0x07 c) :: u8) = 240 + unat c mod 8" "unat (or 0x80 (and 0x3F c) :: u8) = 128 + unat c mod 64"
proof -
  have "\<forall>n < 32. unat (or 0xC0 (word_of_nat n) :: u8) = 192 + n" by code_simp
  then show "unat (or 0xC0 (and 0x1F c) :: u8) = 192 + unat c mod 32"
    using low_bits [of 5 c] by (simp add: mask_eq_exp_minus_1)
  have "\<forall>n < 16. unat (or 0xE0 (word_of_nat n) :: u8) = 224 + n" by code_simp
  then show "unat (or 0xE0 (and 0x0F c) :: u8) = 224 + unat c mod 16"
    using low_bits [of 4 c] by (simp add: mask_eq_exp_minus_1)
  have "\<forall>n < 8. unat (or 0xF0 (word_of_nat n) :: u8) = 240 + n" by code_simp
  then show "unat (or 0xF0 (and 0x07 c) :: u8) = 240 + unat c mod 8"
    using low_bits [of 3 c] by (simp add: mask_eq_exp_minus_1)
  have "\<forall>n < 64. unat (or 0x80 (word_of_nat n) :: u8) = 128 + n" by code_simp
  then show "unat (or 0x80 (and 0x3F c) :: u8) = 128 + unat c mod 64"
    using low_bits [of 6 c] by (simp add: mask_eq_exp_minus_1)
qed

lemma unat_byte_of: "unat (ucast (cp :: u32) :: u8) = unat cp mod 256"
  by (simp add: unsigned_ucast_eq take_bit_eq_mod)

lemma unat_drop_bit: "unat (drop_bit k (cp :: u32)) = unat cp div 2 ^ k"
  by (simp add: unsigned_drop_bit_eq drop_bit_eq_div [where 'a = nat] take_bit_eq_mod mod_less [OF unat_u32_less]
      del: drop_bit_eq_div)

text \<open>The encoding of a code point by arithmetic.\<close>

lemma EncodeAsUTF8Char_values:
  assumes "unat cp < 0x200000"
  shows "map unat (EncodeAsUTF8Char cp) =
    (let n = unat cp in
     if n < 0x80 then [n]
     else if n < 0x800 then [192 + n div 64, 128 + n mod 64]
     else if n < 0x10000 then [224 + n div 4096, 128 + n div 64 mod 64, 128 + n mod 64]
     else [240 + n div 262144, 128 + n div 4096 mod 64, 128 + n div 64 mod 64, 128 + n mod 64])"
proof -
  have m: "unat cp div k mod 256 mod 64 = unat cp div k mod 64" "unat cp mod 256 mod 64 = unat cp mod 64"
    "unat cp div k mod 256 mod 32 = unat cp div k mod 32" "unat cp div k mod 256 mod 16 = unat cp div k mod 16"
    "unat cp div k mod 256 mod 8 = unat cp div k mod 8" for k
    by (simp_all add: mod_mod_cancel)
  have one: "big_endian_tail 1 cp = [ucast cp]"
    by (simp add: big_endian_tail_def)
  show ?thesis
    using assms unfolding EncodeAsUTF8Char_def one enc2 enc3 enc4
    by (auto simp: unat_marked unat_byte_of unat_drop_bit m Let_def word_le_nat_alt)
qed

definition scalar :: "u32 \<Rightarrow> bool" where
  "scalar cp \<longleftrightarrow> unat cp < 0x110000 \<and> (unat cp < 0xD800 \<or> 0xE000 \<le> unat cp)"


lemma unat_list_eqI: "map unat (xs :: u8 list) = map unat ys \<Longrightarrow> xs = ys"
  by (metis inj_map_eq_map injI word_unat_eq_iff)

lemma map_unat_Cons: "map unat xs = n # ns \<Longrightarrow> \<exists>c cs. xs = c # cs \<and> unat c = n \<and> map unat cs = ns"
  by (cases xs) auto

text \<open>Digits to the base 64.\<close>

lemma digits: obtains p q r :: nat where "n = (p * 64 + q) * 64 + r" "q < 64" "r < 64"
proof (rule that)
  show "n = (n div 64 div 64 * 64 + n div 64 mod 64) * 64 + n mod 64"
    by (metis div_mult_mod_eq)
qed simp_all

lemma digit_values:
  fixes p q r n :: nat
  assumes "n = (p * 64 + q) * 64 + r" and "q < 64" and "r < 64"
  shows "n div 4096 = p" and "n div 64 = p * 64 + q" and "n div 64 mod 64 = q" and "n mod 64 = r"
proof -
  show a: "n div 64 = p * 64 + q"
    using assms(3) div_mult_self3 [of 64 "p * 64 + q" r] by (simp add: assms(1))
  show "n mod 64 = r"
    using assms(3) by (simp only: assms(1) mod_mult_self3 mod_less)
  have "n div 4096 = n div 64 div 64"
    by (simp add: div_mult2_eq [symmetric])
  also have "\<dots> = p"
    using a assms(2) by simp
  finally show "n div 4096 = p" .
  show "n div 64 mod 64 = q"
    using a assms(2) by simp
qed

text \<open>Forward: the encoding of a scalar value is one complete character.\<close>

lemma first_char_encoded:
  assumes "scalar cp"
  shows "first_char (EncodeAsUTF8Char cp @ rest) = Some (length (EncodeAsUTF8Char cp))"
proof -
  define n where "n = unat cp"
  have n: "n < 0x110000" "n < 0xD800 \<or> 0xE000 \<le> n"
    using assms by (simp_all add: scalar_def n_def)
  have v: "map unat (EncodeAsUTF8Char cp) =
    (if n < 0x80 then [n]
     else if n < 0x800 then [192 + n div 64, 128 + n mod 64]
     else if n < 0x10000 then [224 + n div 4096, 128 + n div 64 mod 64, 128 + n mod 64]
     else [240 + n div 262144, 128 + n div 4096 mod 64, 128 + n div 64 mod 64, 128 + n mod 64])"
    using EncodeAsUTF8Char_values [of cp] n by (simp add: n_def Let_def)
  consider "n < 0x80" | "0x80 \<le> n" "n < 0x800" | "0x800 \<le> n" "n < 0x10000" | "0x10000 \<le> n"
    by linarith
  then show ?thesis
  proof cases
    case 1
    then obtain a where "EncodeAsUTF8Char cp = [a]" "unat a = n"
      using v by auto
    then show ?thesis
      using 1 by (simp add: first_char_def entry_simps)
  next
    case 2
    then obtain a b where e: "EncodeAsUTF8Char cp = [a, b]" "unat a = 192 + n div 64" "unat b = 128 + n mod 64"
      using v by auto
    have "194 \<le> unat a" "unat a < 224" "128 \<le> unat b" "unat b < 192"
      using 2 e by (auto simp: less_mult_imp_div_less)
    then show ?thesis
      using e(1) by (simp add: first_char_def entry_eval)
  next
    case 3
    then obtain a b c where e: "EncodeAsUTF8Char cp = [a, b, c]" "unat a = 224 + n div 4096"
        "unat b = 128 + n div 64 mod 64" "unat c = 128 + n mod 64"
      using v by auto
    have r: "224 \<le> unat a" "unat a < 240" "128 \<le> unat b" "unat b < 192" "128 \<le> unat c" "unat c < 192"
      using 3 e by (auto simp: less_mult_imp_div_less)
    obtain p q r where d: "n = (p * 64 + q) * 64 + r" "q < 64" "r < 64"
      by (rule digits)
    have "unat a = 224 \<Longrightarrow> 160 \<le> unat b" "unat a = 237 \<Longrightarrow> unat b < 160"
      using 3 n(2) d(2,3) unfolding e(2,3) digit_values(1,3) [OF d] by (simp_all add: d(1))
    then show ?thesis
      using e(1) r by (auto simp: first_char_def entry_eval)
  next
    case 4
    then obtain a b c d where e: "EncodeAsUTF8Char cp = [a, b, c, d]" "unat a = 240 + n div 262144"
        "unat b = 128 + n div 4096 mod 64" "unat c = 128 + n div 64 mod 64" "unat d = 128 + n mod 64"
      using v by auto
    have r: "240 \<le> unat a" "unat a < 245" "128 \<le> unat b" "unat b < 192" "128 \<le> unat c" "unat c < 192" "128 \<le> unat d" "unat d < 192"
      using n e by (auto simp: less_mult_imp_div_less)
    obtain p q r where d: "n = (p * 64 + q) * 64 + r" "q < 64" "r < 64"
      by (rule digits)
    have "n div 262144 = p div 64" "n div 4096 mod 64 = p mod 64"
      using digit_values(1) [OF d] by (simp_all add: div_mult2_eq [of n 4096 64, simplified])
    then have "unat a = 240 \<Longrightarrow> 144 \<le> unat b" "unat a = 244 \<Longrightarrow> unat b < 144"
      using 4 n(1) d(2,3) div_mult_mod_eq [of p 64] unfolding e(2,3) by (simp_all add: d(1))
    then show ?thesis
      using e(1) r by (auto simp: first_char_def entry_eval)
  qed
qed

text \<open>Backward: a complete character is the encoding of a scalar value.\<close>

lemma completes_1: "completes 1 cs = Some k \<Longrightarrow> \<exists>c r. cs = c # r \<and> k = 1 \<and> continuation c"
  by (cases cs) (auto simp: entry_eval continuation_def Let_def split: if_splits)

lemma completes_8: "completes 8 cs = None"
  by (cases cs) (auto simp: entry_eval Let_def)

lemma completes_3: "completes 3 cs = Some k \<Longrightarrow> \<exists>b c r. cs = b # c # r \<and> k = 2 \<and> continuation b \<and> continuation c"
  by (cases cs) (auto simp: entry_eval continuation_def Let_def split: if_splits dest!: completes_1 [unfolded One_nat_def])

lemma completes_2_7:
  "completes 2 cs = Some k \<Longrightarrow> \<exists>b c r. cs = b # c # r \<and> k = 2 \<and> continuation b \<and> continuation c \<and> 160 \<le> unat b"
  "completes 7 cs = Some k \<Longrightarrow> \<exists>b c r. cs = b # c # r \<and> k = 2 \<and> continuation b \<and> continuation c \<and> unat b < 160"
  by (cases cs; auto simp: entry_eval continuation_def completes_8 Let_def split: if_splits dest!: completes_1 [unfolded One_nat_def])+

lemma completes_4_5_6:
  "completes 4 cs = Some k \<Longrightarrow> \<exists>b c d r. cs = b # c # d # r \<and> k = 3 \<and> continuation b \<and> continuation c \<and> continuation d \<and> 144 \<le> unat b"
  "completes 5 cs = Some k \<Longrightarrow> \<exists>b c d r. cs = b # c # d # r \<and> k = 3 \<and> continuation b \<and> continuation c \<and> continuation d"
  "completes 6 cs = Some k \<Longrightarrow> \<exists>b c d r. cs = b # c # d # r \<and> k = 3 \<and> continuation b \<and> continuation c \<and> continuation d \<and> unat b < 144"
  by (cases cs; auto simp: entry_eval continuation_def Let_def split: if_splits dest!: completes_3)+

lemma scalar_of:
  assumes "n < 0x110000" and "n < 0xD800 \<or> 0xE000 \<le> n"
  shows "scalar (word_of_nat n)" and "unat (word_of_nat n :: u32) = n"
proof -
  show u: "unat (word_of_nat n :: u32) = n"
    using assms(1) by (simp add: unat_of_nat)
  show "scalar (word_of_nat n)"
    using assms unfolding scalar_def u by simp
qed

lemma encode_of:
  assumes "n < 0x110000" and "n < 0xD800 \<or> 0xE000 \<le> n" and "map unat xs =
    (if n < 0x80 then [n]
     else if n < 0x800 then [192 + n div 64, 128 + n mod 64]
     else if n < 0x10000 then [224 + n div 4096, 128 + n div 64 mod 64, 128 + n mod 64]
     else [240 + n div 262144, 128 + n div 4096 mod 64, 128 + n div 64 mod 64, 128 + n mod 64])"
  shows "\<exists>cp. scalar cp \<and> xs = EncodeAsUTF8Char cp"
proof -
  note u = scalar_of [OF assms(1,2)]
  have "map unat xs = map unat (EncodeAsUTF8Char (word_of_nat n))"
    using EncodeAsUTF8Char_values [of "word_of_nat n"] assms(1,3) unfolding u(2) Let_def by simp
  then show ?thesis
    using u(1) unat_list_eqI by blast
qed

lemma continuation_digit: "continuation b \<Longrightarrow> \<exists>q < 64. unat b = 128 + q"
  by (rule exI [of _ "unat b - 128"]) (auto simp: continuation_def)

lemma encoded_two:
  assumes "194 \<le> unat a" "unat a < 224" "continuation b"
  shows "\<exists>cp. scalar cp \<and> [a, b] = EncodeAsUTF8Char cp"
proof -
  obtain p q where a: "unat a = 192 + p" and b: "unat b = 128 + q" "q < 64"
    using assms(1) continuation_digit [OF assms(3)] le_Suc_ex [of 192 "unat a"] by auto
  define n where "n = (0 * 64 + p) * 64 + q"
  have p: "2 \<le> p" "p < 32"
    using assms a by auto
  have d: "n div 64 = p" "n mod 64 = q"
    using digit_values [OF n_def] p b by simp_all
  have n: "128 \<le> n" "n < 2048"
    using p b by (simp_all add: n_def)
  have "\<not> n < 0x80" "n < 0x800"
    using n by auto
  then show ?thesis
    by (intro encode_of [of n]) (simp_all add: a b d)
qed

lemma encoded_three:
  assumes "224 \<le> unat a" "unat a < 240" "continuation b" "continuation c"
    and "unat a = 224 \<longrightarrow> 160 \<le> unat b" "unat a = 237 \<longrightarrow> unat b < 160"
  shows "\<exists>cp. scalar cp \<and> [a, b, c] = EncodeAsUTF8Char cp"
proof -
  obtain p q r where a: "unat a = 224 + p" and b: "unat b = 128 + q" "q < 64" and c: "unat c = 128 + r" "r < 64"
    using assms(1) continuation_digit [OF assms(3)] continuation_digit [OF assms(4)] le_Suc_ex [of 224 "unat a"] by auto
  define n where "n = (p * 64 + q) * 64 + r"
  note d = digit_values [OF n_def b(2) c(2)]
  have p: "p < 16" "p = 0 \<longrightarrow> 32 \<le> q" "p = 13 \<longrightarrow> q < 32"
    using assms a b by auto
  have eq: "n = 4096 * p + 64 * q + r"
    by (simp add: n_def)
  have "p = 0 \<or> 1 \<le> p" "p \<le> 12 \<or> p = 13 \<or> 14 \<le> p"
    by linarith+
  then have n: "0x800 \<le> n" "n < 0x10000" "n < 0xD800 \<or> 0xE000 \<le> n"
    using p b(2) c(2) eq by (auto; linarith)+
  have "\<not> n < 0x80" "\<not> n < 0x800"
    using n by auto
  then show ?thesis
    using n(2,3) by (intro encode_of [of n]) (simp_all add: a b c d(1,3,4))
qed

lemma encoded_four:
  assumes "240 \<le> unat a" "unat a < 245" "continuation b" "continuation c" "continuation d"
    and "unat a = 240 \<longrightarrow> 144 \<le> unat b" "unat a = 244 \<longrightarrow> unat b < 144"
  shows "\<exists>cp. scalar cp \<and> [a, b, c, d] = EncodeAsUTF8Char cp"
proof -
  obtain p q r t where a: "unat a = 240 + p" and b: "unat b = 128 + q" "q < 64" and c: "unat c = 128 + r" "r < 64"
      and d: "unat d = 128 + t" "t < 64"
    using assms(1) continuation_digit [OF assms(3)] continuation_digit [OF assms(4)] continuation_digit [OF assms(5)]
      le_Suc_ex [of 240 "unat a"] by auto
  define n where "n = ((p * 64 + q) * 64 + r) * 64 + t"
  note v = digit_values [OF n_def c(2) d(2)]
  have w: "n div 262144 = p" "n div 4096 mod 64 = q"
    using v(1) b(2) by (simp_all add: div_mult2_eq [of n 4096 64, simplified])
  have p: "p < 5" "p = 0 \<longrightarrow> 16 \<le> q" "p = 4 \<longrightarrow> q < 16"
    using assms a b by auto
  have eq: "n = 262144 * p + 4096 * q + 64 * r + t"
    by (simp add: n_def)
  have "p = 0 \<or> 1 \<le> p" "p \<le> 3 \<or> p = 4"
    using p(1) by linarith+
  then have n: "0x10000 \<le> n" "n < 0x110000"
    using p b(2) c(2) d(2) eq by (auto; linarith)+
  have "\<not> n < 0x80" "\<not> n < 0x800" "\<not> n < 0x10000" "0xE000 \<le> n"
    using n by auto
  then show ?thesis
    using n(2) by (intro encode_of [of n]) (simp_all add: a b c d v(3,4) w)
qed

lemma entry_0_cases:
  assumes "entry 0 a < 240"
  obtains "entry 0 a = 0" "unat a < 128" | "entry 0 a = 1" "194 \<le> unat a" "unat a < 224"
    | "entry 0 a = 2" "unat a = 224" | "entry 0 a = 3" "224 < unat a" "unat a < 240" "unat a \<noteq> 237"
    | "entry 0 a = 7" "unat a = 237" | "entry 0 a = 4" "unat a = 240"
    | "entry 0 a = 5" "240 < unat a" "unat a < 244" | "entry 0 a = 6" "unat a = 244"
  using assms by (auto simp: entry_simps(1) split: if_splits)

lemma first_char_Cons:
  "first_char (a # r) = (if entry 0 a \<ge> 240 then None else if entry 0 a = 0 then Some 1 else map_option Suc (completes (entry 0 a) r))"
  by (simp add: first_char_def Let_def)

lemma first_char_decodes:
  assumes "first_char bs = Some k"
  shows "\<exists>cp. scalar cp \<and> take k bs = EncodeAsUTF8Char cp"
proof -
  obtain a r where bs: "bs = a # r"
    using assms by (cases bs) auto
  have lead: "entry 0 a < 240"
    using assms by (auto simp: bs first_char_Cons split: if_splits)
  show ?thesis
    using lead
  proof (cases rule: entry_0_cases)
    case 1
    then show ?thesis
      using assms encode_of [of "unat a" "[a]"] by (auto simp: bs first_char_Cons)
  next
    case 2
    then obtain b t where "r = b # t" "k = 2" "continuation b"
      using assms completes_1 [of r "k - 1"] by (auto simp: bs first_char_Cons)
    then show ?thesis
      using 2 encoded_two [of a b] by (auto simp: bs)
  next
    case 3
    then obtain b c t where "r = b # c # t" "k = 3" "continuation b" "continuation c" "160 \<le> unat b"
      using assms completes_2_7(1) [of r "k - 1"] by (auto simp: bs first_char_Cons)
    then show ?thesis
      using 3 encoded_three [of a b c] by (auto simp: bs)
  next
    case 4
    then obtain b c t where "r = b # c # t" "k = 3" "continuation b" "continuation c"
      using assms completes_3 [of r "k - 1"] by (auto simp: bs first_char_Cons)
    then show ?thesis
      using 4 encoded_three [of a b c] by (auto simp: bs)
  next
    case 5
    then obtain b c t where "r = b # c # t" "k = 3" "continuation b" "continuation c" "unat b < 160"
      using assms completes_2_7(2) [of r "k - 1"] by (auto simp: bs first_char_Cons)
    then show ?thesis
      using 5 encoded_three [of a b c] by (auto simp: bs)
  next
    case 6
    then obtain b c d t where "r = b # c # d # t" "k = 4" "continuation b" "continuation c" "continuation d" "144 \<le> unat b"
      using assms completes_4_5_6(1) [of r "k - 1"] by (auto simp: bs first_char_Cons)
    then show ?thesis
      using 6 encoded_four [of a b c d] by (auto simp: bs)
  next
    case 7
    then obtain b c d t where "r = b # c # d # t" "k = 4" "continuation b" "continuation c" "continuation d"
      using assms completes_4_5_6(2) [of r "k - 1"] by (auto simp: bs first_char_Cons)
    then show ?thesis
      using 7 encoded_four [of a b c d] by (auto simp: bs)
  next
    case 8
    then obtain b c d t where "r = b # c # d # t" "k = 4" "continuation b" "continuation c" "continuation d" "unat b < 144"
      using assms completes_4_5_6(3) [of r "k - 1"] by (auto simp: bs first_char_Cons)
    then show ?thesis
      using 8 encoded_four [of a b c d] by (auto simp: bs)
  qed
qed

lemma EncodeAsUTF8Char_nonempty: "scalar cp \<Longrightarrow> EncodeAsUTF8Char cp \<noteq> []"
  using EncodeAsUTF8Char_values [of cp] by (auto simp: scalar_def Let_def split: if_splits)

lemma span_encoded: "scalar cp \<Longrightarrow> span (EncodeAsUTF8Char cp @ rest) = length (EncodeAsUTF8Char cp) + span rest"
  using first_char_encoded [of cp rest] by (simp add: span.simps [of "EncodeAsUTF8Char cp @ rest"])

lemma span_encodings: "list_all scalar cps \<Longrightarrow> span (concat (map EncodeAsUTF8Char cps) @ rest) =
    length (concat (map EncodeAsUTF8Char cps)) + span rest"
  by (induction cps) (simp_all add: span_encoded)

lemma span_decodes: "\<exists>cps. list_all scalar cps \<and> take (span bs) bs = concat (map EncodeAsUTF8Char cps)"
proof (induction bs rule: span.induct)
  case (1 bs)
  show ?case
  proof (cases "first_char bs")
    case None
    then show ?thesis
      by (intro exI [of _ "[]"]) (simp add: span.simps [of bs])
  next
    case (Some k)
    obtain cp cps where "scalar cp" "take k bs = EncodeAsUTF8Char cp" "list_all scalar cps"
      "take (span (drop k bs)) (drop k bs) = concat (map EncodeAsUTF8Char cps)"
      using first_char_decodes [OF Some] 1 [OF Some] by blast
    then show ?thesis
      by (intro exI [of _ "cp # cps"]) (simp add: span.simps [of bs] Some take_add)
  qed
qed

lemma span_exact: "span bs = length bs \<longleftrightarrow> (\<exists>cps. list_all scalar cps \<and> bs = concat (map EncodeAsUTF8Char cps))"
proof
  assume "span bs = length bs"
  then show "\<exists>cps. list_all scalar cps \<and> bs = concat (map EncodeAsUTF8Char cps)"
    using span_decodes [of bs] by simp
next
  assume "\<exists>cps. list_all scalar cps \<and> bs = concat (map EncodeAsUTF8Char cps)"
  then show "span bs = length bs"
    using span_encodings [of _ "[]"] by auto
qed

text \<open>C19. The check is exact: with the tables initialised it returns, for every string at every address,
  and accepts exactly the sequences of encoded Unicode scalar values.\<close>

theorem IsStructurallyValidUTF8_exact:
  "IsStructurallyValidUTF8 True addr bs =
     Some (\<exists>cps. list_all scalar cps \<and> bs = concat (map EncodeAsUTF8Char cps))"
  by (simp add: IsStructurallyValidUTF8_span span_exact)

section \<open>Coercing a string\<close>

text \<open>\<open>UTF8CoerceToStructurallyValid\<close>: the loop that replaces the byte after each valid stretch; the
  string is at address \<open>addr\<close>, \<open>rest\<close> are the bytes from \<open>src\<close> on.\<close>

function coerce_rest :: "nat \<Rightarrow> u8 \<Rightarrow> u8 list \<Rightarrow> u8 list option" where
  "coerce_rest addr replace_char rest =
     (case rest of [] \<Rightarrow> Some []
      | bad # str2 \<Rightarrow> (case UTF8SpnStructurallyValid True (addr + 1) str2 of
          None \<Rightarrow> None
        | Some n \<Rightarrow> map_option (\<lambda>tail. replace_char # take n str2 @ tail)
            (coerce_rest (addr + 1 + n) replace_char (drop n str2))))"
  by auto
termination by (relation "measure (\<lambda>(addr, c, rest). length rest)") auto

definition UTF8CoerceToStructurallyValid :: "nat \<Rightarrow> u8 \<Rightarrow> u8 list \<Rightarrow> u8 list option" where
  "UTF8CoerceToStructurallyValid addr replace_char bs =
     (case UTF8SpnStructurallyValid True addr bs of
        None \<Rightarrow> None
      | Some n \<Rightarrow> if n = length bs then Some bs
          else map_option (\<lambda>tail. take n bs @ tail) (coerce_rest (addr + n) replace_char (drop n bs)))"

declare coerce_rest.simps [simp del]

lemma span_take_append: "span (take (span bs) bs @ rest) = span bs + span rest"
proof -
  obtain cps where "list_all scalar cps" "take (span bs) bs = concat (map EncodeAsUTF8Char cps)"
    using span_decodes by blast
  then show ?thesis
    using span_encodings [of cps rest] span_le [of bs] by (simp add: min_def split: if_splits) (metis length_take min.absorb2)
qed

lemma coerce_rest_valid:
  assumes "unat c < 128"
  shows "\<exists>out. coerce_rest addr c rest = Some out \<and> length out = length rest \<and> span out = length out"
  using assms
proof (induction addr c rest rule: coerce_rest.induct)
  case (1 addr c rest)
  show ?case
  proof (cases rest)
    case Nil
    then show ?thesis
      by (simp add: coerce_rest.simps)
  next
    case (Cons bad str2)
    let ?n = "span str2"
    obtain tail where tail: "coerce_rest (addr + 1 + ?n) c (drop ?n str2) = Some tail" "length tail = length (drop ?n str2)"
      "span tail = length tail"
      using "1.IH" [OF Cons UTF8SpnStructurallyValid_span "1.prems"] by blast
    have "span (c # take ?n str2 @ tail) = length rest"
      using span_ascii [OF "1.prems"] span_take_append [of str2 tail] tail span_le [of str2] by (simp add: Cons)
    then show ?thesis
      using tail span_le [of str2] by (subst coerce_rest.simps) (simp add: Cons UTF8SpnStructurallyValid_span)
  qed
qed

text \<open>Coercion returns, keeps the length, leaves valid strings alone, and its result is always valid,
  if the replacement is an ASCII character.\<close>

theorem UTF8Coerce_valid:
  assumes "unat c < 128"
  shows "\<exists>out. UTF8CoerceToStructurallyValid addr c bs = Some out \<and> length out = length bs \<and>
           IsStructurallyValidUTF8 True addr' out = Some True \<and>
           out = (if IsStructurallyValidUTF8 True addr bs = Some True then bs else out)"
proof -
  obtain tail where tail: "coerce_rest (addr + span bs) c (drop (span bs) bs) = Some tail"
    "length tail = length (drop (span bs) bs)" "span tail = length tail"
    using coerce_rest_valid [OF assms] by blast
  show ?thesis
    using tail span_take_append [of bs tail] span_le [of bs]
    by (simp add: UTF8CoerceToStructurallyValid_def UTF8SpnStructurallyValid_span IsStructurallyValidUTF8_span)
qed

lemma UTF8Coerce_valid_witness:
  "\<exists>out. UTF8CoerceToStructurallyValid 0 32 [0x41, 0xC3, 0x42] = Some out \<and> length out = 3 \<and>
     IsStructurallyValidUTF8 True 0 out = Some True"
  using UTF8Coerce_valid [of 32 0 "[0x41, 0xC3, 0x42]" 0] by auto

end
