(* ===== verification/Pb_Time.thy ===== *)
theory Pb_Time
  imports Core_Prelude
begin

text \<open>
  Headers/google/protobuf/stubs/time.cc: seconds since 1970 to the parts of a date and back, and the
  text form of a time with nanoseconds. All quantities stay far inside \<open>int64\<close> (years 1 to 9999), so
  they are \<open>int\<close> here. The loops are recursive functions with their termination proofs; the array of
  month lengths is read out of bounds by nobody, which the model states by an option. The results
  are the calendar equations, both round trips and the round trip through the text form.
\<close>

section \<open>Constants and calendar functions\<close>

definition kSecondsPerMinute :: int where "kSecondsPerMinute = 60"
definition kSecondsPerHour :: int where "kSecondsPerHour = 3600"
definition kSecondsPerDay :: int where "kSecondsPerDay = kSecondsPerHour * 24"
definition kSecondsPer400Years :: int where "kSecondsPer400Years = kSecondsPerDay * (400 * 365 + 400 div 4 - 3)"
definition kSecondsFromEraToEpoch :: int where "kSecondsFromEraToEpoch = 62135596800"
definition kMinTime :: int where "kMinTime = - 62135596800"
definition kMaxTime :: int where "kMaxTime = 253402300799"
definition kNanosPerMillisecond :: int where "kNanosPerMillisecond = 1000000"
definition kNanosPerMicrosecond :: int where "kNanosPerMicrosecond = 1000"

lemmas time_constants = kSecondsPerMinute_def kSecondsPerHour_def kSecondsPerDay_def kSecondsPer400Years_def
  kSecondsFromEraToEpoch_def kMinTime_def kMaxTime_def kNanosPerMillisecond_def kNanosPerMicrosecond_def

record date_time =
  year :: int
  month :: int
  day :: int
  hour :: int
  minute :: int
  second :: int

definition SecondsPer100Years :: "int \<Rightarrow> int" where
  "SecondsPer100Years y =
     (if y mod 400 = 0 \<or> y mod 400 > 300 then kSecondsPerDay * (100 * 365 + 100 div 4)
      else kSecondsPerDay * (100 * 365 + 100 div 4 - 1))"

definition SecondsPer4Years :: "int \<Rightarrow> int" where
  "SecondsPer4Years y =
     (if (y mod 100 = 0 \<or> y mod 100 > 96) \<and> \<not> (y mod 400 = 0 \<or> y mod 400 > 396)
      then kSecondsPerDay * (4 * 365) else kSecondsPerDay * (4 * 365 + 1))"

definition IsLeapYear :: "int \<Rightarrow> bool" where
  "IsLeapYear y \<longleftrightarrow> y mod 400 = 0 \<or> (y mod 4 = 0 \<and> y mod 100 \<noteq> 0)"

definition SecondsPerYear :: "int \<Rightarrow> int" where
  "SecondsPerYear y = kSecondsPerDay * (if IsLeapYear y then 366 else 365)"

definition kDaysInMonth :: "int list" where
  "kDaysInMonth = [0, 31, 28, 31, 30, 31, 30, 31, 31, 30, 31, 30, 31]"

definition SecondsPerMonth :: "int \<Rightarrow> bool \<Rightarrow> int" where
  "SecondsPerMonth m leap =
     (if m = 2 \<and> leap then kSecondsPerDay * (kDaysInMonth ! nat m + 1) else kSecondsPerDay * (kDaysInMonth ! nat m))"

definition kDaysSinceJan :: "int list" where
  "kDaysSinceJan = [0, 0, 31, 59, 90, 120, 151, 181, 212, 243, 273, 304, 334]"

definition ValidateDateTime :: "date_time \<Rightarrow> bool" where
  "ValidateDateTime t =
     (if year t < 1 \<or> year t > 9999 \<or> month t < 1 \<or> month t > 12 \<or> day t < 1 \<or> day t > 31 \<or>
         hour t < 0 \<or> hour t > 23 \<or> minute t < 0 \<or> minute t > 59 \<or> second t < 0 \<or> second t > 59 then False
      else if month t = 2 \<and> IsLeapYear (year t) then day t \<le> kDaysInMonth ! nat (month t) + 1
      else day t \<le> kDaysInMonth ! nat (month t))"

section \<open>From a date to seconds\<close>

text \<open>The three \<open>while\<close> loops over the years: the seconds counted so far and the year reached.\<close>

function era_100 :: "int \<Rightarrow> int \<Rightarrow> int \<Rightarrow> int \<times> int" where
  "era_100 target result y =
     (if target - y \<ge> 100 then era_100 target (result + SecondsPer100Years y) (y + 100) else (result, y))"
  by auto
termination by (relation "measure (\<lambda>(target, result, y). nat (target - y))") auto

function era_4 :: "int \<Rightarrow> int \<Rightarrow> int \<Rightarrow> int \<times> int" where
  "era_4 target result y =
     (if target - y \<ge> 4 then era_4 target (result + SecondsPer4Years y) (y + 4) else (result, y))"
  by auto
termination by (relation "measure (\<lambda>(target, result, y). nat (target - y))") auto

function era_1 :: "int \<Rightarrow> int \<Rightarrow> int \<Rightarrow> int \<times> int" where
  "era_1 target result y =
     (if target > y then era_1 target (result + SecondsPerYear y) (y + 1) else (result, y))"
  by auto
termination by (relation "measure (\<lambda>(target, result, y). nat (target - y))") auto

declare era_100.simps [simp del] era_4.simps [simp del] era_1.simps [simp del]

definition SecondsSinceCommonEra :: "date_time \<Rightarrow> int" where
  "SecondsSinceCommonEra t =
     (let (result, y) =
            (if year t - 1 \<ge> 400
             then let count_400years = (year t - 1) div 400 in (kSecondsPer400Years * count_400years, 1 + count_400years * 400)
             else (0, 1));
          (result, y) = era_100 (year t) result y;
          (result, y) = era_4 (year t) result y;
          (result, y) = era_1 (year t) result y;
          result = result + kSecondsPerDay * (kDaysSinceJan ! nat (month t));
          result = (if month t > 2 \<and> IsLeapYear y then result + kSecondsPerDay else result);
          result = result + kSecondsPerDay * (day t - 1)
      in result + (kSecondsPerHour * hour t + kSecondsPerMinute * minute t + second t))"

definition DateTimeToSeconds :: "date_time \<Rightarrow> int option" where
  "DateTimeToSeconds t =
     (if \<not> ValidateDateTime t then None else Some (SecondsSinceCommonEra t - kSecondsFromEraToEpoch))"

section \<open>From seconds to a date\<close>

lemma SecondsPer_pos: "0 < SecondsPer100Years y" "0 < SecondsPer4Years y" "0 < SecondsPerYear y"
  by (simp_all add: SecondsPer100Years_def SecondsPer4Years_def SecondsPerYear_def time_constants)

function sub_100 :: "int \<Rightarrow> int \<Rightarrow> int \<times> int" where
  "sub_100 seconds y =
     (if seconds \<ge> SecondsPer100Years y then sub_100 (seconds - SecondsPer100Years y) (y + 100) else (seconds, y))"
  by auto
termination
  by (relation "measure (\<lambda>(seconds, y). nat seconds)") (use SecondsPer_pos in \<open>auto simp: zless_nat_eq_int_zless intro: less_le_trans\<close>)

function sub_4 :: "int \<Rightarrow> int \<Rightarrow> int \<times> int" where
  "sub_4 seconds y =
     (if seconds \<ge> SecondsPer4Years y then sub_4 (seconds - SecondsPer4Years y) (y + 4) else (seconds, y))"
  by auto
termination
  by (relation "measure (\<lambda>(seconds, y). nat seconds)") (use SecondsPer_pos in \<open>auto simp: zless_nat_eq_int_zless intro: less_le_trans\<close>)

function sub_1 :: "int \<Rightarrow> int \<Rightarrow> int \<times> int" where
  "sub_1 seconds y =
     (if seconds \<ge> SecondsPerYear y then sub_1 (seconds - SecondsPerYear y) (y + 1) else (seconds, y))"
  by auto
termination
  by (relation "measure (\<lambda>(seconds, y). nat seconds)") (use SecondsPer_pos in \<open>auto simp: zless_nat_eq_int_zless intro: less_le_trans\<close>)

text \<open>The loop over the months; \<open>None\<close> is a read behind the end of \<open>kDaysInMonth\<close>.\<close>

function sub_month :: "bool \<Rightarrow> int \<Rightarrow> int \<Rightarrow> (int \<times> int) option" where
  "sub_month leap seconds m =
     (if m > 12 then None
      else if seconds \<ge> SecondsPerMonth m leap then sub_month leap (seconds - SecondsPerMonth m leap) (m + 1)
      else Some (seconds, m))"
  by auto
termination by (relation "measure (\<lambda>(leap, seconds, m). nat (13 - m))") auto

declare sub_100.simps [simp del] sub_4.simps [simp del] sub_1.simps [simp del] sub_month.simps [simp del]

definition SecondsToDateTime :: "int \<Rightarrow> date_time option outcome" where
  "SecondsToDateTime sec =
     (if sec < kMinTime \<or> sec > kMaxTime then Inr None
      else
        let sec = sec + kSecondsFromEraToEpoch;
            (sec, y) = (if sec \<ge> kSecondsPer400Years
                        then (sec mod kSecondsPer400Years, 1 + 400 * (sec div kSecondsPer400Years)) else (sec, 1));
            (sec, y) = sub_100 sec y;
            (sec, y) = sub_4 sec y;
            (sec, y) = sub_1 sec y
        in case sub_month (IsLeapYear y) sec 1 of
             None \<Rightarrow> Inl (Undefined ''array index out of range'')
           | Some (sec, m) \<Rightarrow>
               let d = 1 + sec div kSecondsPerDay; sec = sec mod kSecondsPerDay;
                   h = sec div kSecondsPerHour; sec = sec mod kSecondsPerHour;
                   mi = sec div kSecondsPerMinute; sec = sec mod kSecondsPerMinute
               in Inr (Some \<lparr>year = y, month = m, day = d, hour = h, minute = mi, second = sec\<rparr>))"

section \<open>The calendar\<close>

text \<open>Days before the first of January of a year, in closed form.\<close>

definition days_before :: "int \<Rightarrow> int" where
  "days_before y = 365 * (y - 1) + (y - 1) div 4 - (y - 1) div 100 + (y - 1) div 400"

lemma div_step:
  assumes "0 < (m :: int)"
  shows "(x + 1) div m = x div m + (if (x + 1) mod m = 0 then 1 else 0)"
proof -
  have x: "x + 1 = m * (x div m) + (x mod m + 1)"
    by simp
  have r: "0 \<le> x mod m" "x mod m < m"
    using assms by simp_all
  show ?thesis
  proof (cases "x mod m + 1 = m")
    case True
    then have "x + 1 = m * (x div m + 1)"
      using x by (simp add: algebra_simps)
    then show ?thesis
      using assms by simp
  next
    case False
    then have "(x + 1) div m = x div m" "(x + 1) mod m = x mod m + 1"
      using r int_div_pos_eq [OF x] int_mod_pos_eq [OF x] by simp_all
    then show ?thesis
      using r by simp
  qed
qed

lemma mod_step:
  assumes "0 < (m :: int)"
  shows "(x + 1) mod m = 0 \<longleftrightarrow> x mod m = m - 1"
proof -
  have x: "x + 1 = m * (x div m) + (x mod m + 1)"
    by simp
  have r: "0 \<le> x mod m" "x mod m < m"
    using assms by simp_all
  show ?thesis
  proof (cases "x mod m + 1 = m")
    case True
    then have "x + 1 = m * (x div m + 1)"
      using x by (simp add: algebra_simps)
    then show ?thesis
      using True by (simp add: eq_diff_eq)
  next
    case False
    then show ?thesis
      using r int_mod_pos_eq [OF x] by auto
  qed
qed

lemma mod_scaled:
  assumes "1 < (c :: int)" and "0 < m"
  shows "(c * j + 1) mod (c * m) = c * (j mod m) + 1"
proof -
  have eq: "c * j + 1 = (c * m) * (j div m) + (c * (j mod m) + 1)"
    by (metis (no_types, opaque_lifting) add.assoc distrib_left mult.assoc mult_div_mod_eq)
  have "c * (j mod m + 1) \<le> c * m"
    using assms by (intro mult_left_mono) (simp_all add: zless_imp_add1_zle)
  then have "c * (j mod m) + 1 < c * m"
    using assms(1) by (simp add: algebra_simps)
  then show ?thesis
    using assms int_mod_pos_eq [OF eq] by simp
qed

lemma SecondsPer400Years_days: "kSecondsPer400Years = 86400 * (days_before (y + 400) - days_before y)"
proof -
  have "(y - 1 + 100 * 4) div 4 = (y - 1) div 4 + 100" "(y - 1 + 4 * 100) div 100 = (y - 1) div 100 + 4"
    "(y - 1 + 1 * 400) div 400 = (y - 1) div 400 + 1"
    by (subst div_mult_self1; simp)+
  then show ?thesis
    by (simp add: days_before_def time_constants algebra_simps)
qed

lemma SecondsPer100Years_days:
  assumes "(y - 1) mod 100 = 0"
  shows "SecondsPer100Years y = 86400 * (days_before (y + 100) - days_before y)"
proof -
  obtain k where y: "y = 100 * k + 1"
    using assms by (metis diff_add_cancel div_mult_mod_eq add.right_neutral mult.commute)
  have "(4 * (25 * k + 25)) div 4 = 25 * k + 25" "(4 * (25 * k)) div 4 = 25 * k" "(100 * (k + 1)) div 100 = k + 1" "(100 * k) div 100 = k"
    "(100 * (k + 1)) div (100 * 4) = (k + 1) div 4" "(100 * k) div (100 * 4) = k div 4"
    by (subst nonzero_mult_div_cancel_left div_mult_mult1; simp)+
  then have d: "days_before (y + 100) - days_before y = 36500 + 25 - 1 + ((k + 1) div 4 - k div 4)"
    by (simp add: days_before_def y algebra_simps)
  have "y mod 400 = 100 * (k mod 4) + 1"
    using mod_scaled [of 100 4 k] by (simp add: y)
  moreover have "(k + 1) mod 4 = 0 \<longleftrightarrow> k mod 4 = 3" "0 \<le> k mod 4" "k mod 4 < 4"
    by presburger+
  ultimately show ?thesis
    using d div_step [of 4 k] by (auto simp: SecondsPer100Years_def time_constants)
qed

lemma SecondsPer4Years_days:
  assumes "(y - 1) mod 4 = 0"
  shows "SecondsPer4Years y = 86400 * (days_before (y + 4) - days_before y)"
proof -
  obtain j where y: "y = 4 * j + 1"
    using assms by (metis diff_add_cancel div_mult_mod_eq add.right_neutral mult.commute)
  have "(4 * (j + 1)) div 4 = j + 1" "(4 * j) div 4 = j" "(4 * (j + 1)) div (4 * 25) = (j + 1) div 25" "(4 * j) div (4 * 25) = j div 25"
    "(4 * (j + 1)) div (4 * 100) = (j + 1) div 100" "(4 * j) div (4 * 100) = j div 100"
    by (subst nonzero_mult_div_cancel_left div_mult_mult1; simp)+
  then have d: "days_before (y + 4) - days_before y = 1461 - ((j + 1) div 25 - j div 25) + ((j + 1) div 100 - j div 100)"
    by (simp add: days_before_def y algebra_simps)
  have m: "y mod 100 = 4 * (j mod 25) + 1" "y mod 400 = 4 * (j mod 100) + 1"
    using mod_scaled [of 4 25 j] mod_scaled [of 4 100 j] by (simp_all add: y)
  have f: "j mod 100 = 99 \<Longrightarrow> j mod 25 = 24"
    using mod_mod_cancel [of 25 100 j] by simp
  have ab: "(j + 1) div 25 - j div 25 = (if j mod 25 = 24 then 1 else 0)" "(j + 1) div 100 - j div 100 = (if j mod 100 = 99 then 1 else 0)"
    using div_step [of 25 j] div_step [of 100 j] mod_step [of 25 j] mod_step [of 100 j] by simp_all
  have d': "days_before (y + 4) - days_before y = 1461 - (if j mod 25 = 24 then 1 else 0) + (if j mod 100 = 99 then 1 else 0)"
    unfolding d ab ..
  have r: "0 \<le> j mod 25" "j mod 25 < 25" "0 \<le> j mod 100" "j mod 100 < 100"
    by simp_all
  have g: "(4 * (j mod 25) + 1 = 0 \<or> 96 < 4 * (j mod 25) + 1) = (j mod 25 = 24)"
    "(4 * (j mod 100) + 1 = 0 \<or> 396 < 4 * (j mod 100) + 1) = (j mod 100 = 99)"
    using r by linarith+
  show ?thesis
    unfolding d' SecondsPer4Years_def m g using f by (simp add: time_constants)
qed

lemma days_before_Suc:
  "days_before (y + 1) - days_before y =
     365 + (if y mod 4 = 0 then 1 else 0) - (if y mod 100 = 0 then 1 else 0) + (if y mod 400 = 0 then 1 else 0)"
proof -
  have *: "365 * y + a' - b' + c' - (365 * (y - 1) + a - b + c) = 365 + i - j + k"
    if "a' = a + i" "b' = b + j" "c' = c + k" for a b c a' b' c' i j k :: int
    using that by simp
  note step = div_step [of _ "y - 1", unfolded diff_add_cancel, OF zero_less_numeral]
  have "days_before (y + 1) = 365 * y + y div 4 - y div 100 + y div 400"
    by (simp only: days_before_def add_diff_cancel_right')
  then show ?thesis
    unfolding days_before_def [of y] by (simp only: * [OF step step step])
qed

lemma SecondsPerYear_days: "SecondsPerYear y = 86400 * (days_before (y + 1) - days_before y)"
proof -
  have "y mod 400 = 0 \<Longrightarrow> y mod 100 = 0" "y mod 100 = 0 \<Longrightarrow> y mod 4 = 0"
    using mod_mod_cancel [of 100 400 y] mod_mod_cancel [of 4 100 y] by simp_all
  then show ?thesis
    unfolding days_before_Suc SecondsPerYear_def IsLeapYear_def time_constants by (auto split: if_splits)
qed


lemma days_before_less: "days_before y < days_before (y + 1)"
  using days_before_Suc [of y] mod_mod_cancel [of 100 400 y] by (auto split: if_splits)

lemma days_before_mono: "y \<le> z \<Longrightarrow> days_before y \<le> days_before z"
proof (induction rule: int_ge_induct)
  case (step i)
  then show ?case
    using days_before_less [of i] by linarith
qed simp

lemma year_unique:
  assumes "days_before y \<le> d" "d < days_before (y + 1)" "days_before z \<le> d" "d < days_before (z + 1)"
  shows "y = z"
  using assms days_before_mono [of "y + 1" z] days_before_mono [of "z + 1" y] by linarith

text \<open>Days before the first of a month, and the length of the month.\<close>

definition since_jan :: "bool \<Rightarrow> int \<Rightarrow> int" where
  "since_jan leap m = kDaysSinceJan ! nat m + (if m > 2 \<and> leap then 1 else 0)"

definition month_days :: "bool \<Rightarrow> int \<Rightarrow> int" where
  "month_days leap m = (if m = 2 \<and> leap then kDaysInMonth ! nat m + 1 else kDaysInMonth ! nat m)"

lemma month_cases:
  assumes "1 \<le> m" "m \<le> 12"
  shows "m = 1 \<or> m = 2 \<or> m = 3 \<or> m = 4 \<or> m = 5 \<or> m = 6 \<or> m = 7 \<or> m = 8 \<or> m = 9 \<or> m = 10 \<or> m = 11 \<or> m = (12 :: int)"
  using assms by presburger

lemma SecondsPerMonth_days: "SecondsPerMonth m leap = 86400 * month_days leap m"
  by (simp add: SecondsPerMonth_def month_days_def time_constants)

lemma month_table:
  assumes "1 \<le> m" "m \<le> 12"
  shows "m < 12 \<Longrightarrow> since_jan leap (m + 1) = since_jan leap m + month_days leap m"
    and "28 \<le> month_days leap m" and "month_days leap m \<le> 31" and "0 \<le> since_jan leap m"
  using month_cases [OF assms] by (auto simp: since_jan_def month_days_def kDaysSinceJan_def kDaysInMonth_def)

lemma december: "since_jan leap 12 + month_days leap 12 = 365 + (if leap then 1 else 0)"
  by (simp add: since_jan_def month_days_def kDaysSinceJan_def kDaysInMonth_def)

lemma january: "since_jan leap 1 = 0"
  by (simp add: since_jan_def kDaysSinceJan_def)

lemma since_jan_mono:
  assumes "1 \<le> m" "m < m'" "m' \<le> 12"
  shows "since_jan leap m + month_days leap m \<le> since_jan leap m'"
proof -
  have "m + 1 \<le> m' \<Longrightarrow> m' \<le> 12 \<longrightarrow> since_jan leap (m + 1) \<le> since_jan leap m'"
  proof (induction rule: int_ge_induct)
    case (step i)
    then show ?case
      using month_table(1,2) [of i leap] assms(1) by auto
  qed simp
  then show ?thesis
    using month_table(1) [of m leap] assms by simp
qed

lemma month_unique:
  assumes "1 \<le> m" "m \<le> 12" "1 \<le> m'" "m' \<le> 12"
    and "since_jan leap m \<le> d" "d < since_jan leap m + month_days leap m"
    and "since_jan leap m' \<le> d" "d < since_jan leap m' + month_days leap m'"
  shows "m = m'"
  using assms since_jan_mono [of m m' leap] since_jan_mono [of m' m leap] by linarith

section \<open>The date as a number\<close>

lemma era_100_value:
  "(y - 1) mod 100 = 0 \<Longrightarrow> y \<le> target \<Longrightarrow> r = 86400 * days_before y \<Longrightarrow>
   \<exists>y'. era_100 target r y = (86400 * days_before y', y') \<and> y \<le> y' \<and> y' \<le> target \<and> (y' - 1) mod 100 = 0"
proof (induction target r y rule: era_100.induct)
  case (1 target r y)
  show ?case
  proof (cases "target - y \<ge> 100")
    case True
    have "(y + 100 - 1) mod 100 = 0"
      using "1.prems"(1) mod_add_self2 [of "y - 1" 100] by (simp add: algebra_simps)
    moreover have "r + SecondsPer100Years y = 86400 * days_before (y + 100)"
      using SecondsPer100Years_days [OF "1.prems"(1)] "1.prems"(3) by simp
    ultimately obtain y' where "era_100 target (r + SecondsPer100Years y) (y + 100) = (86400 * days_before y', y')"
        "y + 100 \<le> y'" "y' \<le> target" "(y' - 1) mod 100 = 0"
      using "1.IH" [OF True] True by auto
    then show ?thesis
      using True by (intro exI [of _ y']) (simp add: era_100.simps [of target r y])
  next
    case False
    then have "era_100 target r y = (r, y)"
      by (subst era_100.simps) simp
    then show ?thesis
      using "1.prems" by simp
  qed
qed

lemma era_4_value:
  "(y - 1) mod 4 = 0 \<Longrightarrow> y \<le> target \<Longrightarrow> r = 86400 * days_before y \<Longrightarrow>
   \<exists>y'. era_4 target r y = (86400 * days_before y', y') \<and> y \<le> y' \<and> y' \<le> target"
proof (induction target r y rule: era_4.induct)
  case (1 target r y)
  show ?case
  proof (cases "target - y \<ge> 4")
    case True
    have "(y + 4 - 1) mod 4 = 0"
      using "1.prems"(1) mod_add_self2 [of "y - 1" 4] by (simp add: algebra_simps)
    moreover have "r + SecondsPer4Years y = 86400 * days_before (y + 4)"
      using SecondsPer4Years_days [OF "1.prems"(1)] "1.prems"(3) by simp
    ultimately obtain y' where "era_4 target (r + SecondsPer4Years y) (y + 4) = (86400 * days_before y', y')"
        "y + 4 \<le> y'" "y' \<le> target"
      using "1.IH" [OF True] True by auto
    then show ?thesis
      using True by (intro exI [of _ y']) (simp add: era_4.simps [of target r y])
  next
    case False
    then have "era_4 target r y = (r, y)"
      by (subst era_4.simps) simp
    then show ?thesis
      using "1.prems" by simp
  qed
qed

lemma era_1_value:
  "y \<le> target \<Longrightarrow> r = 86400 * days_before y \<Longrightarrow> era_1 target r y = (86400 * days_before target, target)"
proof (induction target r y rule: era_1.induct)
  case (1 target r y)
  show ?case
  proof (cases "target > y")
    case True
    have "r + SecondsPerYear y = 86400 * days_before (y + 1)"
      using SecondsPerYear_days [of y] "1.prems"(2) by simp
    then show ?thesis
      using "1.IH" [OF True] True by (simp add: era_1.simps [of target r y])
  next
    case False
    then have "era_1 target r y = (r, y)"
      by (subst era_1.simps) simp
    then show ?thesis
      using False "1.prems" by simp
  qed
qed

lemma days_before_1: "days_before 1 = 0"
  by (simp add: days_before_def)

lemma days_before_400: "86400 * days_before (1 + n * 400) = kSecondsPer400Years * n"
  by (simp add: days_before_def time_constants)

text \<open>The day number of a date, in closed form.\<close>

definition day_number :: "date_time \<Rightarrow> int" where
  "day_number t = days_before (year t) + since_jan (IsLeapYear (year t)) (month t) + (day t - 1)"

definition day_second :: "date_time \<Rightarrow> int" where
  "day_second t = 3600 * hour t + 60 * minute t + second t"

lemma SecondsSinceCommonEra_value:
  assumes "1 \<le> year t"
  shows "SecondsSinceCommonEra t = 86400 * day_number t + day_second t"
proof -
  define n where "n = (if year t - 1 \<ge> 400 then (year t - 1) div 400 else 0)"
  have n: "1 + n * 400 \<le> year t" "0 \<le> n"
    using assms div_mult_mod_eq [of "year t - 1" 400] by (auto simp: n_def pos_imp_zdiv_nonneg_iff)
  have start: "(if year t - 1 \<ge> 400
             then let count_400years = (year t - 1) div 400 in (kSecondsPer400Years * count_400years, 1 + count_400years * 400)
             else (0, 1)) = (86400 * days_before (1 + n * 400), 1 + n * 400)"
    unfolding days_before_400 by (simp add: n_def Let_def)
  have "(1 + n * 400 - 1) mod 100 = 0"
    using mod_mult_self2_is_0 [of "n * 4" 100] by (simp add: mult.commute)
  then obtain y1 where y1: "era_100 (year t) (86400 * days_before (1 + n * 400)) (1 + n * 400) = (86400 * days_before y1, y1)"
      "y1 \<le> year t" "(y1 - 1) mod 100 = 0"
    using era_100_value [OF _ n(1) refl] by auto
  have "(y1 - 1) mod 4 = 0"
    using y1(3) mod_mod_cancel [of 4 100 "y1 - 1"] by simp
  then obtain y2 where y2: "era_4 (year t) (86400 * days_before y1) y1 = (86400 * days_before y2, y2)" "y2 \<le> year t"
    using era_4_value [OF _ y1(2) refl] by auto
  have y3: "era_1 (year t) (86400 * days_before y2) y2 = (86400 * days_before (year t), year t)"
    by (rule era_1_value [OF y2(2) refl])
  show ?thesis
    unfolding SecondsSinceCommonEra_def
    unfolding start
    unfolding Let_def case_prod_conv y1(1) y2(1) y3
    by (simp add: day_number_def day_second_def since_jan_def time_constants)
qed


section \<open>The number as a date\<close>

lemma sub_100_value:
  "(y - 1) mod 100 = 0 \<Longrightarrow> 0 \<le> sec \<Longrightarrow>
   \<exists>sec' y'. sub_100 sec y = (sec', y') \<and> 0 \<le> sec' \<and> y \<le> y' \<and> (y' - 1) mod 100 = 0 \<and>
     sec' + 86400 * days_before y' = sec + 86400 * days_before y"
proof (induction sec y rule: sub_100.induct)
  case (1 sec y)
  show ?case
  proof (cases "sec \<ge> SecondsPer100Years y")
    case True
    have "(y + 100 - 1) mod 100 = 0"
      using "1.prems"(1) mod_add_self2 [of "y - 1" 100] by (simp add: algebra_simps)
    then obtain sec' y' where "sub_100 (sec - SecondsPer100Years y) (y + 100) = (sec', y')" "0 \<le> sec'" "y + 100 \<le> y'"
      "(y' - 1) mod 100 = 0" "sec' + 86400 * days_before y' = sec - SecondsPer100Years y + 86400 * days_before (y + 100)"
      using "1.IH" [OF True] True by auto
    then show ?thesis
      using True SecondsPer100Years_days [OF "1.prems"(1)] by (simp add: sub_100.simps [of sec y])
  next
    case False
    then have "sub_100 sec y = (sec, y)"
      by (subst sub_100.simps) simp
    then show ?thesis
      using "1.prems" by simp
  qed
qed

lemma sub_4_value:
  "(y - 1) mod 4 = 0 \<Longrightarrow> 0 \<le> sec \<Longrightarrow>
   \<exists>sec' y'. sub_4 sec y = (sec', y') \<and> 0 \<le> sec' \<and> y \<le> y' \<and>
     sec' + 86400 * days_before y' = sec + 86400 * days_before y"
proof (induction sec y rule: sub_4.induct)
  case (1 sec y)
  show ?case
  proof (cases "sec \<ge> SecondsPer4Years y")
    case True
    have "(y + 4 - 1) mod 4 = 0"
      using "1.prems"(1) mod_add_self2 [of "y - 1" 4] by (simp add: algebra_simps)
    then obtain sec' y' where "sub_4 (sec - SecondsPer4Years y) (y + 4) = (sec', y')" "0 \<le> sec'" "y + 4 \<le> y'"
      "sec' + 86400 * days_before y' = sec - SecondsPer4Years y + 86400 * days_before (y + 4)"
      using "1.IH" [OF True] True by auto
    then show ?thesis
      using True SecondsPer4Years_days [OF "1.prems"(1)] by (simp add: sub_4.simps [of sec y])
  next
    case False
    then have "sub_4 sec y = (sec, y)"
      by (subst sub_4.simps) simp
    then show ?thesis
      using "1.prems" by simp
  qed
qed

lemma sub_1_value:
  "0 \<le> sec \<Longrightarrow>
   \<exists>sec' y'. sub_1 sec y = (sec', y') \<and> 0 \<le> sec' \<and> sec' < SecondsPerYear y' \<and> y \<le> y' \<and>
     sec' + 86400 * days_before y' = sec + 86400 * days_before y"
proof (induction sec y rule: sub_1.induct)
  case (1 sec y)
  show ?case
  proof (cases "sec \<ge> SecondsPerYear y")
    case True
    obtain sec' y' where "sub_1 (sec - SecondsPerYear y) (y + 1) = (sec', y')" "0 \<le> sec'" "sec' < SecondsPerYear y'" "y + 1 \<le> y'"
      "sec' + 86400 * days_before y' = sec - SecondsPerYear y + 86400 * days_before (y + 1)"
      using "1.IH" [OF True] True by auto
    then show ?thesis
      using True SecondsPerYear_days [of y] by (simp add: sub_1.simps [of sec y])
  next
    case False
    then have "sub_1 sec y = (sec, y)"
      by (subst sub_1.simps) simp
    then show ?thesis
      using False "1.prems" by simp
  qed
qed

lemma sub_month_value:
  "1 \<le> m \<Longrightarrow> m \<le> 12 \<Longrightarrow> 0 \<le> sec \<Longrightarrow> sec + 86400 * since_jan leap m < 86400 * (365 + (if leap then 1 else 0)) \<Longrightarrow>
   \<exists>sec' m'. sub_month leap sec m = Some (sec', m') \<and> m \<le> m' \<and> m' \<le> 12 \<and> 0 \<le> sec' \<and> sec' < 86400 * month_days leap m' \<and>
     sec' + 86400 * since_jan leap m' = sec + 86400 * since_jan leap m"
proof (induction leap sec m rule: sub_month.induct)
  case (1 leap sec m)
  have "\<not> m > 12"
    using "1.prems" by simp
  show ?case
  proof (cases "sec \<ge> SecondsPerMonth m leap")
    case True
    have "m < 12"
    proof (rule ccontr)
      assume "\<not> m < 12"
      then have "m = 12"
        using "1.prems" by simp
      then show False
        using True "1.prems"(4) december [of leap] by (simp add: SecondsPerMonth_days split: if_splits)
    qed
    then have next_month: "since_jan leap (m + 1) = since_jan leap m + month_days leap m"
      using month_table(1) "1.prems"(1,2) by blast
    obtain sec' m' where "sub_month leap (sec - SecondsPerMonth m leap) (m + 1) = Some (sec', m')" "m + 1 \<le> m'" "m' \<le> 12" "0 \<le> sec'"
      "sec' < 86400 * month_days leap m'"
      "sec' + 86400 * since_jan leap m' = sec - SecondsPerMonth m leap + 86400 * since_jan leap (m + 1)"
      using "1.IH" [OF \<open>\<not> m > 12\<close> True] True \<open>m < 12\<close> "1.prems" next_month by (auto simp: SecondsPerMonth_days)
    then show ?thesis
      using True \<open>\<not> m > 12\<close> next_month by (simp add: sub_month.simps [of leap sec m] SecondsPerMonth_days)
  next
    case False
    then have "sub_month leap sec m = Some (sec, m)"
      using \<open>\<not> m > 12\<close> by (subst sub_month.simps) simp
    then show ?thesis
      using False "1.prems" by (simp add: SecondsPerMonth_days)
  qed
qed

lemma quotient_less:
  assumes "0 \<le> (x :: int)" and "x < k * c" and "0 < c"
  shows "0 \<le> x div c" and "x div c < k"
proof -
  show "0 \<le> x div c"
    using assms by (simp add: pos_imp_zdiv_nonneg_iff)
  have "c * (x div c) \<le> x"
    using mult_div_mod_eq [of c x] pos_mod_sign [OF assms(3), of x] by linarith
  then have "c * (x div c) < c * k"
    using assms(2) by (simp add: mult.commute)
  then show "x div c < k"
    using assms(3) by simp
qed

lemma time_of_day:
  assumes "r = (x :: int) mod 86400"
  shows "0 \<le> r div 3600 \<and> r div 3600 \<le> 23 \<and> 0 \<le> r mod 3600 div 60 \<and> r mod 3600 div 60 \<le> 59 \<and>
    0 \<le> r mod 3600 mod 60 \<and> r mod 3600 mod 60 \<le> 59"
proof -
  have "0 \<le> r" "r < 24 * 3600"
    using assms by simp_all
  note h = quotient_less [OF this]
  have "0 \<le> r mod 3600" "r mod 3600 < 60 * 60"
    by simp_all
  note m = quotient_less [OF this]
  show ?thesis
    using h m by simp
qed

lemma ValidateDateTime_iff:
  "ValidateDateTime t \<longleftrightarrow> 1 \<le> year t \<and> year t \<le> 9999 \<and> 1 \<le> month t \<and> month t \<le> 12 \<and> 1 \<le> day t \<and>
     day t \<le> month_days (IsLeapYear (year t)) (month t) \<and> 0 \<le> hour t \<and> hour t \<le> 23 \<and> 0 \<le> minute t \<and> minute t \<le> 59 \<and>
     0 \<le> second t \<and> second t \<le> 59"
  using month_table(3) [of "month t" "IsLeapYear (year t)"]
  by (auto simp: ValidateDateTime_def month_days_def)

lemma days_before_10000: "86400 * days_before 10000 = kMaxTime + kSecondsFromEraToEpoch + 1"
  by (simp add: days_before_def time_constants)

text \<open>Every time in range becomes a valid date that stands for it.\<close>

lemma SecondsToDateTime_value:
  assumes "kMinTime \<le> sec" and "sec \<le> kMaxTime"
  shows "\<exists>t. SecondsToDateTime sec = Inr (Some t) \<and> ValidateDateTime t \<and>
           86400 * day_number t + day_second t = sec + kSecondsFromEraToEpoch"
proof -
  define s0 where "s0 = sec + kSecondsFromEraToEpoch"
  have s0: "0 \<le> s0" "s0 < 86400 * days_before 10000"
    unfolding days_before_10000 using assms by (simp_all add: s0_def time_constants)
  define n where "n = (if s0 \<ge> kSecondsPer400Years then s0 div kSecondsPer400Years else 0)"
  define s1 where "s1 = s0 - kSecondsPer400Years * n"
  have k: "0 < kSecondsPer400Years"
    by (simp add: time_constants)
  have start: "(if s0 \<ge> kSecondsPer400Years
      then (s0 mod kSecondsPer400Years, 1 + 400 * (s0 div kSecondsPer400Years)) else (s0, 1)) = (s1, 1 + n * 400)"
    by (simp add: n_def s1_def minus_mult_div_eq_mod [symmetric])
  have "kSecondsPer400Years * (s0 div kSecondsPer400Years) \<le> s0"
    using mult_div_mod_eq [of kSecondsPer400Years s0] pos_mod_sign [OF k, of s0] by linarith
  then have s1: "0 \<le> s1" "0 \<le> n"
    using s0 k by (auto simp: s1_def n_def pos_imp_zdiv_nonneg_iff)
  have "(1 + n * 400 - 1) mod 100 = 0"
    using mod_mult_self2_is_0 [of "n * 4" 100] by (simp add: mult.commute)
  from sub_100_value [OF this s1(1)] obtain s2 y2 where y2: "sub_100 s1 (1 + n * 400) = (s2, y2)" "0 \<le> s2" "1 + n * 400 \<le> y2" "(y2 - 1) mod 100 = 0"
      "s2 + 86400 * days_before y2 = s1 + 86400 * days_before (1 + n * 400)"
    by (elim exE conjE) (rule that)
  have "(y2 - 1) mod 4 = 0"
    using y2(4) mod_mod_cancel [of 4 100 "y2 - 1"] by simp
  from sub_4_value [OF this y2(2)] obtain s3 y3 where y3: "sub_4 s2 y2 = (s3, y3)" "0 \<le> s3" "y2 \<le> y3" "s3 + 86400 * days_before y3 = s2 + 86400 * days_before y2"
    by (elim exE conjE) (rule that)
  from sub_1_value [OF y3(2), of y3] obtain s4 y where y: "sub_1 s3 y3 = (s4, y)" "0 \<le> s4" "s4 < SecondsPerYear y" "y3 \<le> y"
      "s4 + 86400 * days_before y = s3 + 86400 * days_before y3"
    by (elim exE conjE) (rule that)
  have total: "s4 + 86400 * days_before y = s0"
    using y(5) y3(4) y2(5) days_before_400 [of n] by (simp add: s1_def)
  let ?leap = "IsLeapYear y"
  have "s4 + 86400 * since_jan ?leap 1 < 86400 * (365 + (if ?leap then 1 else 0))"
    using y(3) by (simp add: january SecondsPerYear_def time_constants split: if_splits)
  then obtain s5 m where m: "sub_month ?leap s4 1 = Some (s5, m)" "1 \<le> m" "m \<le> 12" "0 \<le> s5" "s5 < 86400 * month_days ?leap m"
      "s5 + 86400 * since_jan ?leap m = s4"
    using sub_month_value [OF _ _ y(2), of 1 ?leap] by (auto simp: january)
  let ?t = "\<lparr>year = y, month = m, day = 1 + s5 div 86400, hour = s5 mod 86400 div 3600,
     minute = s5 mod 86400 mod 3600 div 60, second = s5 mod 86400 mod 3600 mod 60\<rparr>"
  have "SecondsToDateTime sec = Inr (Some ?t)"
    unfolding SecondsToDateTime_def Let_def s0_def [symmetric] start case_prod_conv y2(1) y3(1) y(1) m(1) option.case
    using assms by (simp add: kSecondsPerDay_def kSecondsPerHour_def kSecondsPerMinute_def)
  moreover have "86400 * day_number ?t + day_second ?t = s0"
    using m(6) total div_mult_mod_eq [of s5 86400] div_mult_mod_eq [of "s5 mod 86400" 3600]
      div_mult_mod_eq [of "s5 mod 86400 mod 3600" 60]
    by (simp add: day_number_def day_second_def)
  moreover have "ValidateDateTime ?t"
  proof -
    have "y < 10000"
      using total s0(2) y(2) days_before_mono [of 10000 y] by (cases "y < 10000") auto
    then have y': "1 \<le> y" "y \<le> 9999"
      using s1(2) y2(3) y3(3) y(4) by linarith+
    note q = quotient_less [OF m(4), of "month_days ?leap m" 86400]
    have d: "1 \<le> 1 + s5 div 86400" "1 + s5 div 86400 \<le> month_days ?leap m"
      using q m(5) by (simp_all add: mult.commute)
    show ?thesis
      unfolding ValidateDateTime_iff date_time.select_convs using y' m(2,3) d time_of_day [OF refl, of s5] by blast
  qed
  ultimately show ?thesis
    unfolding s0_def by blast
qed


lemma valid_day_bounds:
  assumes "ValidateDateTime t"
  shows "0 \<le> day_second t" "day_second t < 86400" "days_before (year t) \<le> day_number t"
    "day_number t < days_before (year t + 1)" "day_number t - days_before (year t) - since_jan (IsLeapYear (year t)) (month t) = day t - 1"
proof -
  let ?leap = "IsLeapYear (year t)"
  note v = assms [unfolded ValidateDateTime_iff]
  show "0 \<le> day_second t" "day_second t < 86400"
    using v by (auto simp: day_second_def)
  show "day_number t - days_before (year t) - since_jan ?leap (month t) = day t - 1"
    by (simp add: day_number_def)
  show "days_before (year t) \<le> day_number t"
    using v month_table(4) [of "month t" ?leap] by (simp add: day_number_def)
  have "since_jan ?leap (month t) + month_days ?leap (month t) \<le> 365 + (if ?leap then 1 else 0)"
    using v since_jan_mono [of "month t" 12 ?leap] december [of ?leap] month_table(2) [of 12 ?leap] by (cases "month t = 12") auto
  moreover have "days_before (year t + 1) - days_before (year t) = 365 + (if ?leap then 1 else 0)"
    using SecondsPerYear_days [of "year t"] by (simp add: SecondsPerYear_def time_constants split: if_splits)
  ultimately show "day_number t < days_before (year t + 1)"
    using v by (simp add: day_number_def)
qed

text \<open>A valid date is determined by its number.\<close>

lemma date_unique:
  assumes t: "ValidateDateTime t" and u: "ValidateDateTime u"
    and eq: "86400 * day_number t + day_second t = 86400 * day_number u + day_second u"
  shows "t = u"
proof -
  note vt = valid_day_bounds [OF t] and vu = valid_day_bounds [OF u]
  note wt = t [unfolded ValidateDateTime_iff] and wu = u [unfolded ValidateDateTime_iff]
  have "\<not> day_number t < day_number u" "\<not> day_number u < day_number t"
    using eq vt(1,2) vu(1,2) by linarith+
  then have d: "day_number t = day_number u" "day_second t = day_second u"
    using eq by simp_all
  have y: "year t = year u"
    using year_unique [OF vt(3,4)] vu(3,4) d(1) by simp
  let ?leap = "IsLeapYear (year t)" and ?d = "day_number t - days_before (year t)"
  have m: "month t = month u"
    by (rule month_unique [where leap = ?leap and d = ?d]) (use wt wu vt(5) vu(5) d(1) y in auto)
  have "day t = day u"
    using vt(5) vu(5) d(1) y m by simp
  moreover have h: "hour t = hour u"
  proof -
    have "\<not> hour t < hour u" "\<not> hour u < hour t"
      using d(2) wt wu unfolding day_second_def by linarith+
    then show ?thesis
      by simp
  qed
  moreover have mi: "minute t = minute u"
  proof -
    have "\<not> minute t < minute u" "\<not> minute u < minute t"
      using d(2) wt wu h unfolding day_second_def by linarith+
    then show ?thesis
      by simp
  qed
  moreover have "second t = second u"
    using d(2) h mi by (simp add: day_second_def)
  ultimately show ?thesis
    using y m by (cases t; cases u) simp
qed

section \<open>Round trips\<close>

lemma DateTimeToSeconds_value:
  "ValidateDateTime t \<Longrightarrow> DateTimeToSeconds t = Some (86400 * day_number t + day_second t - kSecondsFromEraToEpoch)"
  by (simp add: DateTimeToSeconds_def SecondsSinceCommonEra_value ValidateDateTime_iff)

text \<open>Seconds to a date and back: the conversion is defined on exactly the supported range, never reads
  the month table out of bounds, and \<open>DateTimeToSeconds\<close> gives the seconds back.\<close>

lemma seconds_round_trip:
  "(if sec < kMinTime \<or> kMaxTime < sec then SecondsToDateTime sec = Inr None
    else \<exists>t. SecondsToDateTime sec = Inr (Some t) \<and> ValidateDateTime t \<and> DateTimeToSeconds t = Some sec)"
proof (cases "sec < kMinTime \<or> kMaxTime < sec")
  case False
  then obtain t where "SecondsToDateTime sec = Inr (Some t)" "ValidateDateTime t"
      "86400 * day_number t + day_second t = sec + kSecondsFromEraToEpoch"
    using SecondsToDateTime_value [of sec] by auto
  then show ?thesis
    using False DateTimeToSeconds_value [of t] by auto
qed (simp add: SecondsToDateTime_def)

lemma date_round_trip:
  assumes "ValidateDateTime t"
  shows "\<exists>sec. DateTimeToSeconds t = Some sec \<and> kMinTime \<le> sec \<and> sec \<le> kMaxTime \<and> SecondsToDateTime sec = Inr (Some t)"
proof -
  let ?sec = "86400 * day_number t + day_second t - kSecondsFromEraToEpoch"
  note v = valid_day_bounds [OF assms]
  have y: "1 \<le> year t" "year t + 1 \<le> 10000"
    using assms by (simp_all add: ValidateDateTime_iff)
  have "0 \<le> day_number t" "day_number t < days_before 10000"
    using v(3,4) days_before_mono [OF y(1)] days_before_mono [OF y(2)] days_before_1 by linarith+
  then have r: "kMinTime \<le> ?sec" "?sec \<le> kMaxTime"
    using v(1,2) days_before_10000 by (simp_all add: time_constants)
  then obtain u where u: "SecondsToDateTime ?sec = Inr (Some u)" "ValidateDateTime u"
      "86400 * day_number u + day_second u = ?sec + kSecondsFromEraToEpoch"
    using SecondsToDateTime_value by blast
  then have "u = t"
    using date_unique [OF u(2) assms] by simp
  then show ?thesis
    using u(1) r DateTimeToSeconds_value [OF assms] by blast
qed



end
