(* ===== verification/Pb_Time_Text.thy ===== *)
theory Pb_Time_Text
  imports Pb_Time
begin

text \<open>
  The text form of a time in stubs/time.cc: \<open>FormatTime\<close>, \<open>ParseTime\<close> and what they call. A C string is
  the list of its characters; reading at its end gives the terminating zero. A parse function
  returns the value and the characters after it, or \<open>None\<close> for a null pointer.
\<close>

section \<open>Printing\<close>

definition digit_char :: "nat \<Rightarrow> char" where
  "digit_char d = char_of (48 + d)"

fun decimal :: "nat \<Rightarrow> string" where
  "decimal n = (if n < 10 then [digit_char n] else decimal (n div 10) @ [digit_char (n mod 10)])"

declare decimal.simps [simp del]

text \<open>\<open>StringPrintf ("%0wd", n)\<close>.\<close>

definition padded :: "nat \<Rightarrow> int \<Rightarrow> string" where
  "padded w n =
     (let sign = (if n < 0 then ''-'' else []); ds = decimal (nat \<bar>n\<bar>)
      in sign @ replicate (w - length sign - length ds) CHR ''0'' @ ds)"

definition FormatNanos :: "int \<Rightarrow> string" where
  "FormatNanos nanos =
     (if nanos mod kNanosPerMillisecond = 0 then padded 3 (nanos div kNanosPerMillisecond)
      else if nanos mod kNanosPerMicrosecond = 0 then padded 6 (nanos div kNanosPerMicrosecond)
      else padded 9 nanos)"

definition FormatTime :: "int \<Rightarrow> int \<Rightarrow> string outcome" where
  "FormatTime sec nanos =
     (if nanos < 0 \<or> nanos > 999999999 then Inr ''InvalidTime''
      else and_then (SecondsToDateTime sec) (\<lambda>r. case r of
          None \<Rightarrow> Inr ''InvalidTime''
        | Some t \<Rightarrow>
            Inr (padded 4 (year t) @ ''-'' @ padded 2 (month t) @ ''-'' @ padded 2 (day t) @ ''T'' @
                 padded 2 (hour t) @ '':'' @ padded 2 (minute t) @ '':'' @ padded 2 (second t) @
                 (if nanos \<noteq> 0 then ''.'' @ FormatNanos nanos else []) @ ''Z'')))"

section \<open>Parsing\<close>

definition peek :: "string \<Rightarrow> char" where
  "peek s = (case s of [] \<Rightarrow> CHR 0x00 | c # _ \<Rightarrow> c)"

definition ascii_isdigit :: "char \<Rightarrow> bool" where
  "ascii_isdigit c \<longleftrightarrow> 48 \<le> (of_char c :: nat) \<and> (of_char c :: nat) \<le> 57"

definition digit_value :: "char \<Rightarrow> int" where
  "digit_value c = int (of_char c) - 48"

fun int_loop :: "nat \<Rightarrow> int \<Rightarrow> string \<Rightarrow> int \<times> string" where
  "int_loop 0 value data = (value, data)"
| "int_loop (Suc w) value data =
     (if ascii_isdigit (peek data) then int_loop w (value * 10 + digit_value (peek data)) (tl data) else (value, data))"

definition ParseInt :: "string \<Rightarrow> nat \<Rightarrow> int \<Rightarrow> int \<Rightarrow> (int \<times> string) option" where
  "ParseInt data width min_value max_value =
     (if \<not> ascii_isdigit (peek data) then None
      else let (value, data) = int_loop width 0 data in
        if min_value \<le> value \<and> value \<le> max_value then Some (value, data) else None)"

fun nanos_loop :: "int \<Rightarrow> nat \<Rightarrow> string \<Rightarrow> int \<times> nat \<times> string" where
  "nanos_loop value len [] = (value, len, [])"
| "nanos_loop value len (c # cs) =
     (if ascii_isdigit c then nanos_loop (if len < 9 then value * 10 + digit_value c else value) (len + 1) cs
      else (value, len, c # cs))"

definition ParseNanos :: "string \<Rightarrow> (int \<times> string) option" where
  "ParseNanos data =
     (if \<not> ascii_isdigit (peek data) then None
      else let (value, len, data) = nanos_loop 0 0 data in Some (value * 10 ^ (9 - len), data))"

text \<open>\<open>*data++ != c\<close>\<close>

definition expect :: "char \<Rightarrow> string \<Rightarrow> string option" where
  "expect c data = (if peek data = c then Some (tl data) else None)"

definition ParseTimezoneOffset :: "string \<Rightarrow> (int \<times> string) option" where
  "ParseTimezoneOffset data =
     Option.bind (ParseInt data 2 0 23) (\<lambda>(hour, data).
     Option.bind (expect CHR '':'' data) (\<lambda>data.
     Option.bind (ParseInt data 2 0 59) (\<lambda>(minute, data).
       Some ((hour * 60 + minute) * 60, data))))"

definition parse_nanos_part :: "string \<Rightarrow> (int \<times> string) option" where
  "parse_nanos_part data = (if peek data = CHR ''.'' then ParseNanos (tl data) else Some (0, data))"

definition parse_offset_part :: "int \<Rightarrow> string \<Rightarrow> (int \<times> string) option" where
  "parse_offset_part sec data =
     (if peek data = CHR ''Z'' then Some (sec, tl data)
      else if peek data = CHR ''+'' then map_option (\<lambda>(offset, data). (sec - offset, data)) (ParseTimezoneOffset (tl data))
      else if peek data = CHR ''-'' then map_option (\<lambda>(offset, data). (sec + offset, data)) (ParseTimezoneOffset (tl data))
      else None)"

definition parse_date_part :: "string \<Rightarrow> (date_time \<times> string) option" where
  "parse_date_part data =
     Option.bind (ParseInt data 4 1 9999) (\<lambda>(y, data).
     Option.bind (expect CHR ''-'' data) (\<lambda>data.
     Option.bind (ParseInt data 2 1 12) (\<lambda>(m, data).
     Option.bind (expect CHR ''-'' data) (\<lambda>data.
     Option.bind (ParseInt data 2 1 31) (\<lambda>(d, data).
     Option.bind (expect CHR ''T'' data) (\<lambda>data.
     Option.bind (ParseInt data 2 0 23) (\<lambda>(h, data).
     Option.bind (expect CHR '':'' data) (\<lambda>data.
     Option.bind (ParseInt data 2 0 59) (\<lambda>(mi, data).
     Option.bind (expect CHR '':'' data) (\<lambda>data.
     Option.bind (ParseInt data 2 0 59) (\<lambda>(s, data).
       Some (\<lparr>year = y, month = m, day = d, hour = h, minute = mi, second = s\<rparr>, data))))))))))))"

definition ParseTime :: "string \<Rightarrow> (int \<times> int) option" where
  "ParseTime value =
     Option.bind (parse_date_part value) (\<lambda>(t, data).
     Option.bind (DateTimeToSeconds t) (\<lambda>sec.
     Option.bind (parse_nanos_part data) (\<lambda>(nanos, data).
     Option.bind (parse_offset_part sec data) (\<lambda>(sec, data).
       if peek data = CHR 0x00 then Some (sec, nanos) else None))))"

section \<open>Digits\<close>

lemma digit_char_props: "d < 10 \<Longrightarrow> ascii_isdigit (digit_char d)" "d < 10 \<Longrightarrow> digit_value (digit_char d) = int d"
  by (simp_all add: ascii_isdigit_def digit_char_def digit_value_def)

text \<open>The padded form of a number with at most \<open>w\<close> digits, digit by digit.\<close>

fun digits_of :: "nat \<Rightarrow> nat \<Rightarrow> string" where
  "digits_of 0 n = []"
| "digits_of (Suc w) n = digits_of w (n div 10) @ [digit_char (n mod 10)]"

lemma length_digits_of [simp]: "length (digits_of w n) = w"
  by (induction w arbitrary: n) simp_all

lemma digit_char_0: "digit_char 0 = CHR ''0''"
  by code_simp

lemma digits_of_0: "digits_of w 0 = replicate w CHR ''0''"
  by (induction w) (simp_all add: digit_char_0 replicate_append_same)

lemma digits_of_digit: "list_all ascii_isdigit (digits_of w n)"
  by (induction w arbitrary: n) (simp_all add: digit_char_props)

lemma padded_digits:
  "0 < w \<Longrightarrow> n < 10 ^ w \<Longrightarrow> length (decimal n) \<le> w \<and> replicate (w - length (decimal n)) CHR ''0'' @ decimal n = digits_of w n"
proof (induction w arbitrary: n)
  case (Suc w)
  show ?case
  proof (cases "n < 10")
    case True
    then show ?thesis
      by (simp add: decimal.simps [of n] digits_of_0)
  next
    case False
    then have "0 < w" "n div 10 < 10 ^ w"
      using Suc.prems by (cases w; simp add: less_mult_imp_div_less mult.commute)+
    then show ?thesis
      using Suc.IH [of "n div 10"] False by (simp add: decimal.simps [of n])
  qed
qed simp

lemma padded_eq: "0 < w \<Longrightarrow> 0 \<le> n \<Longrightarrow> n < 10 ^ w \<Longrightarrow> padded w n = digits_of w (nat n)"
  using padded_digits [of w "nat n"] by (simp add: padded_def nat_less_iff)

definition value_of :: "int \<Rightarrow> string \<Rightarrow> int" where
  "value_of v ds = foldl (\<lambda>v c. v * 10 + digit_value c) v ds"

lemma value_of_digits: "n < 10 ^ w \<Longrightarrow> value_of v (digits_of w n) = v * 10 ^ w + int n"
proof (induction w arbitrary: n)
  case (Suc w)
  then have "n div 10 < 10 ^ w"
    by (simp add: less_mult_imp_div_less mult.commute)
  from Suc.IH [OF this] show ?case
    by (simp add: value_of_def digit_char_props zdiv_int zmod_int algebra_simps)
qed (simp add: value_of_def)

lemma int_loop_digits: "list_all ascii_isdigit ds \<Longrightarrow> int_loop (length ds) v (ds @ rest) = (value_of v ds, rest)"
  by (induction ds arbitrary: v) (simp_all add: value_of_def peek_def)

lemma ParseInt_padded:
  assumes "0 < w" "0 \<le> n" "n < 10 ^ w" "lo \<le> n" "n \<le> hi"
  shows "ParseInt (padded w n @ rest) w lo hi = Some (n, rest)"
proof -
  let ?ds = "digits_of w (nat n)"
  have p: "padded w n = ?ds"
    by (rule padded_eq [OF assms(1-3)])
  have "int_loop w 0 (?ds @ rest) = (n, rest)"
    using int_loop_digits [OF digits_of_digit, of w "nat n" 0 rest] value_of_digits [of "nat n" w 0] assms
    by (simp add: nat_less_iff)
  moreover have "ascii_isdigit (peek (?ds @ rest))"
    using digits_of_digit [of w "nat n"] assms(1) by (cases ?ds) (auto simp: peek_def dest: arg_cong [of _ _ length])
  ultimately show ?thesis
    using assms by (simp add: p ParseInt_def)
qed

lemma expect_Cons [simp]: "expect c (c # rest) = Some rest"
  by (simp add: expect_def peek_def)

lemma nanos_loop_digits:
  "list_all ascii_isdigit ds \<Longrightarrow> len + length ds \<le> 9 \<Longrightarrow> \<not> ascii_isdigit c \<Longrightarrow>
   nanos_loop v len (ds @ c # rest) = (value_of v ds, len + length ds, c # rest)"
  by (induction ds arbitrary: v len) (simp_all add: value_of_def)


section \<open>The round trip\<close>

lemma FormatNanos_parses:
  assumes "0 < nanos" and "nanos < 1000000000" and "\<not> ascii_isdigit c"
  shows "ParseNanos (FormatNanos nanos @ c # rest) = Some (nanos, c # rest)"
proof -
  have parse: "ParseNanos (padded w n @ c # rest) = Some (n * 10 ^ (9 - w), c # rest)"
    if "0 < w" "w \<le> 9" "0 \<le> n" "n < 10 ^ w" for w n
  proof -
    have p: "padded w n = digits_of w (nat n)"
      by (rule padded_eq [OF that(1,3,4)])
    have "nanos_loop 0 0 (digits_of w (nat n) @ c # rest) = (n, w, c # rest)"
      using nanos_loop_digits [OF digits_of_digit, of 0 w "nat n" c 0 rest] value_of_digits [of "nat n" w 0] that assms(3)
      by (simp add: nat_less_iff)
    moreover have "ascii_isdigit (peek (digits_of w (nat n) @ c # rest))"
      using digits_of_digit [of w "nat n"] that(1) by (cases "digits_of w (nat n)") (auto simp: peek_def dest: arg_cong [of _ _ length])
    ultimately show ?thesis
      by (simp add: p ParseNanos_def)
  qed
  have m: "nanos div 1000000 * 1000000 = nanos" if "nanos mod 1000000 = 0"
    using that by (metis add.right_neutral div_mult_mod_eq)
  have u: "nanos div 1000 * 1000 = nanos" if "nanos mod 1000 = 0"
    using that by (metis add.right_neutral div_mult_mod_eq)
  have ranges: "0 \<le> nanos div 1000000" "nanos div 1000000 < 1000" "0 \<le> nanos div 1000" "nanos div 1000 < 1000000"
    using quotient_less [of nanos 1000 1000000] quotient_less [of nanos 1000000 1000] assms by simp_all
  consider "nanos mod 1000000 = 0" | "nanos mod 1000000 \<noteq> 0" "nanos mod 1000 = 0" | "nanos mod 1000000 \<noteq> 0" "nanos mod 1000 \<noteq> 0"
    by blast
  then show ?thesis
  proof cases
    case 1
    then have "FormatNanos nanos = padded 3 (nanos div 1000000)"
      by (simp add: FormatNanos_def time_constants)
    with parse [of 3 "nanos div 1000000"] ranges(1,2) m [OF 1] show ?thesis
      by simp
  next
    case 2
    then have "FormatNanos nanos = padded 6 (nanos div 1000)"
      by (simp add: FormatNanos_def time_constants)
    with parse [of 6 "nanos div 1000"] ranges(3,4) u [OF 2(2)] show ?thesis
      by simp
  next
    case 3
    then have "FormatNanos nanos = padded 9 nanos"
      by (simp add: FormatNanos_def time_constants)
    with parse [of 9 nanos] assms show ?thesis
      by simp
  qed
qed

lemma parse_date_part_padded:
  assumes "ValidateDateTime t"
  shows "parse_date_part (padded 4 (year t) @ ''-'' @ padded 2 (month t) @ ''-'' @ padded 2 (day t) @ ''T'' @
       padded 2 (hour t) @ '':'' @ padded 2 (minute t) @ '':'' @ padded 2 (second t) @ rest) = Some (t, rest)"
proof -
  have v: "1 \<le> year t" "year t \<le> 9999" "1 \<le> month t" "month t \<le> 12" "1 \<le> day t" "day t \<le> 31"
    "0 \<le> hour t" "hour t \<le> 23" "0 \<le> minute t" "minute t \<le> 59" "0 \<le> second t" "second t \<le> 59"
    using assms month_table(3) [of "month t" "IsLeapYear (year t)"] by (auto simp: ValidateDateTime_iff)
  show ?thesis
    using v by (simp add: parse_date_part_def ParseInt_padded)
qed

text \<open>C39. A time that is printed and parsed again is the same time: for all seconds of the supported range
  and all nanoseconds of a second, whichever of the three precisions was printed.\<close>

theorem ParseTime_FormatTime:
  assumes "kMinTime \<le> sec" "sec \<le> kMaxTime" "0 \<le> nanos" "nanos < 1000000000"
  shows "\<exists>text. FormatTime sec nanos = Inr text \<and> ParseTime text = Some (sec, nanos)"
proof -
  obtain t where t: "SecondsToDateTime sec = Inr (Some t)" "ValidateDateTime t" "DateTimeToSeconds t = Some sec"
    using seconds_round_trip [of sec] assms(1,2) by auto
  have z: "\<not> ascii_isdigit CHR ''Z''"
    by (simp add: ascii_isdigit_def)
  let ?rest = "(if nanos \<noteq> 0 then ''.'' @ FormatNanos nanos else []) @ ''Z''"
  have "parse_nanos_part ?rest = Some (nanos, ''Z'')"
    using FormatNanos_parses [OF _ assms(4) z, of "[]"] assms(3) by (auto simp: parse_nanos_part_def peek_def)
  then show ?thesis
    using assms t parse_date_part_padded [OF t(2), of ?rest]
    by (simp add: FormatTime_def ParseTime_def parse_offset_part_def peek_def)
qed

lemma ParseTime_FormatTime_witness:
  "\<exists>text. FormatTime 1432128575 120000000 = Inr text \<and> ParseTime text = Some (1432128575, 120000000)"
  using ParseTime_FormatTime [of 1432128575 120000000] by (simp add: time_constants)

end
