(* ===== verification/Pb_Stream.thy ===== *)
theory Pb_Stream
  imports Core_Prelude
begin

text \<open>
  Byte sources of the protobuf library
  (Headers/google/protobuf/io/zero_copy_stream.h, io/zero_copy_stream_impl_lite.cc). The
  abstract class \<open>ZeroCopyInputStream\<close> is the record of its virtual functions; its contract is
  the locale \<open>zero_copy_input\<close>, in which the unread bytes are the abstract state. The contract
  is proved for \<open>ArrayInputStream\<close> and, over every source that satisfies it, for
  \<open>LimitingInputStream\<close>. A failed \<open>GOOGLE_CHECK\<close> throws \<open>FatalException\<close>.
\<close>

section \<open>The interface\<close>

definition INT_MAX :: int where "INT_MAX = 2147483647"

text \<open>The result of a loop; one that does not end has no defined behaviour.\<close>

definition returns :: "'a outcome option \<Rightarrow> 'a outcome" where
  "returns r = (case r of None \<Rightarrow> Inl (Undefined ''the loop does not end'') | Some x \<Rightarrow> x)"

lemma returns_Some [simp]: "returns (Some x) = x"
  by (simp add: returns_def)

text \<open>\<open>Next\<close> returns the block behind \<open>data\<close> and \<open>size\<close>, or \<open>None\<close> for \<open>false\<close>.\<close>

record 's input_class =
  Next_of :: "'s \<Rightarrow> (u8 list option \<times> 's) outcome"
  BackUp_of :: "int \<Rightarrow> 's \<Rightarrow> 's outcome"
  Skip_of :: "int \<Rightarrow> 's \<Rightarrow> (bool \<times> 's) outcome"
  ByteCount_of :: "'s \<Rightarrow> int"

definition google_check :: "bool \<Rightarrow> unit outcome" where
  "google_check cond = (if cond then Inr () else Inl (StdException ''FatalException''))"

lemma google_check_True [simp]: "google_check True = Inr ()"
  by (simp add: google_check_def)

section \<open>ArrayInputStream\<close>

record array_input =
  array_data :: "u8 list"
  array_size :: int
  array_block :: int
  array_pos :: int
  array_last :: int

definition ArrayInputStream :: "u8 list \<Rightarrow> int \<Rightarrow> int \<Rightarrow> array_input" where
  "ArrayInputStream data n block_size =
     \<lparr>array_data = data, array_size = n, array_block = (if 0 < block_size then block_size else n),
      array_pos = 0, array_last = 0\<rparr>"

definition array_Next :: "array_input \<Rightarrow> (u8 list option \<times> array_input) outcome" where
  "array_Next s =
     (if array_pos s < array_size s
      then let n = min (array_block s) (array_size s - array_pos s) in
           Inr (Some (take (nat n) (drop (nat (array_pos s)) (array_data s))),
                s\<lparr>array_last := n, array_pos := array_pos s + n\<rparr>)
      else Inr (None, s\<lparr>array_last := 0\<rparr>))"

definition array_BackUp :: "int \<Rightarrow> array_input \<Rightarrow> array_input outcome" where
  "array_BackUp count s =
     and_then (google_check (0 < array_last s)) (\<lambda>_.
     and_then (google_check (count \<le> array_last s)) (\<lambda>_.
     and_then (google_check (0 \<le> count)) (\<lambda>_.
       Inr (s\<lparr>array_pos := array_pos s - count, array_last := 0\<rparr>))))"

definition array_Skip :: "int \<Rightarrow> array_input \<Rightarrow> (bool \<times> array_input) outcome" where
  "array_Skip count s =
     and_then (google_check (0 \<le> count)) (\<lambda>_.
       let s = s\<lparr>array_last := 0\<rparr> in
       if array_size s - array_pos s < count then Inr (False, s\<lparr>array_pos := array_size s\<rparr>)
       else Inr (True, s\<lparr>array_pos := array_pos s + count\<rparr>))"

definition array_ByteCount :: "array_input \<Rightarrow> int" where
  "array_ByteCount s = array_pos s"

definition array_class :: "array_input input_class" where
  "array_class = \<lparr>Next_of = array_Next, BackUp_of = array_BackUp, Skip_of = array_Skip, ByteCount_of = array_ByteCount\<rparr>"

section \<open>LimitingInputStream\<close>

record 's limiting_input =
  limited :: 's
  limit_left :: int
  prior_bytes_read :: int

definition LimitingInputStream :: "'s input_class \<Rightarrow> 's \<Rightarrow> int \<Rightarrow> 's limiting_input" where
  "LimitingInputStream vt inp limit = \<lparr>limited = inp, limit_left = limit, prior_bytes_read = ByteCount_of vt inp\<rparr>"

definition limiting_Next :: "'s input_class \<Rightarrow> 's limiting_input \<Rightarrow> (u8 list option \<times> 's limiting_input) outcome" where
  "limiting_Next vt s =
     (if limit_left s \<le> 0 then Inr (None, s)
      else and_then (Next_of vt (limited s)) (\<lambda>(r, i).
        case r of None \<Rightarrow> Inr (None, s\<lparr>limited := i\<rparr>)
        | Some blk \<Rightarrow>
            let s = s\<lparr>limited := i, limit_left := limit_left s - int (length blk)\<rparr> in
            if limit_left s < 0 then Inr (Some (take (nat (int (length blk) + limit_left s)) blk), s) else Inr (Some blk, s)))"

definition limiting_BackUp :: "'s input_class \<Rightarrow> int \<Rightarrow> 's limiting_input \<Rightarrow> 's limiting_input outcome" where
  "limiting_BackUp vt count s =
     (if limit_left s < 0
      then and_then (BackUp_of vt (count - limit_left s) (limited s)) (\<lambda>i. Inr (s\<lparr>limited := i, limit_left := count\<rparr>))
      else and_then (BackUp_of vt count (limited s)) (\<lambda>i. Inr (s\<lparr>limited := i, limit_left := limit_left s + count\<rparr>)))"

definition limiting_Skip :: "'s input_class \<Rightarrow> int \<Rightarrow> 's limiting_input \<Rightarrow> (bool \<times> 's limiting_input) outcome" where
  "limiting_Skip vt count s =
     (if limit_left s < count
      then if limit_left s < 0 then Inr (False, s)
           else and_then (Skip_of vt (limit_left s) (limited s)) (\<lambda>(_, i). Inr (False, s\<lparr>limited := i, limit_left := 0\<rparr>))
      else and_then (Skip_of vt count (limited s)) (\<lambda>(ok, i).
        if \<not> ok then Inr (False, s\<lparr>limited := i\<rparr>)
        else Inr (True, s\<lparr>limited := i, limit_left := limit_left s - count\<rparr>)))"

definition limiting_ByteCount :: "'s input_class \<Rightarrow> 's limiting_input \<Rightarrow> int" where
  "limiting_ByteCount vt s =
     (if limit_left s < 0 then ByteCount_of vt (limited s) + limit_left s - prior_bytes_read s
      else ByteCount_of vt (limited s) - prior_bytes_read s)"

definition limiting_class :: "'s input_class \<Rightarrow> 's limiting_input input_class" where
  "limiting_class vt =
     \<lparr>Next_of = limiting_Next vt, BackUp_of = limiting_BackUp vt, Skip_of = limiting_Skip vt, ByteCount_of = limiting_ByteCount vt\<rparr>"

text \<open>The destructor returns the bytes behind the limit to the source.\<close>

definition limiting_destroy :: "'s input_class \<Rightarrow> 's limiting_input \<Rightarrow> 's outcome" where
  "limiting_destroy vt s = (if limit_left s < 0 then BackUp_of vt (- limit_left s) (limited s) else Inr (limited s))"

section \<open>The contract\<close>

locale zero_copy_input =
  fixes vt :: "'s input_class" and ok :: "'s \<Rightarrow> bool" and rest :: "'s \<Rightarrow> u8 list"
  assumes next_block: "ok s \<Longrightarrow> rest s \<noteq> [] \<Longrightarrow>
      \<exists>blk s'. Next_of vt s = Inr (Some blk, s') \<and> blk \<noteq> [] \<and> ok s' \<and> rest s = blk @ rest s'"
    and next_end: "ok s \<Longrightarrow> rest s = [] \<Longrightarrow> \<exists>s'. Next_of vt s = Inr (None, s') \<and> ok s' \<and> rest s' = []"
    and skip: "ok s \<Longrightarrow> 0 \<le> n \<Longrightarrow>
      \<exists>r s'. Skip_of vt n s = Inr (r, s') \<and> (0 < n \<longrightarrow> r = (n \<le> int (length (rest s)))) \<and> ok s' \<and> rest s' = drop (nat n) (rest s)"
    and back_up: "ok s \<Longrightarrow> Next_of vt s = Inr (Some blk, s') \<Longrightarrow> 0 \<le> n \<Longrightarrow> n \<le> int (length blk) \<Longrightarrow>
      \<exists>s''. BackUp_of vt n s' = Inr s'' \<and> ok s'' \<and> rest s'' = drop (length blk - nat n) blk @ rest s'"

definition array_ok :: "array_input \<Rightarrow> bool" where
  "array_ok s \<longleftrightarrow> array_size s = int (length (array_data s)) \<and> 0 \<le> array_pos s \<and> array_pos s \<le> array_size s \<and>
     (0 < array_size s \<longrightarrow> 0 < array_block s)"

definition array_rest :: "array_input \<Rightarrow> u8 list" where
  "array_rest s = drop (nat (array_pos s)) (array_data s)"

lemma drop_nat_add: "0 \<le> a \<Longrightarrow> 0 \<le> b \<Longrightarrow> drop (nat (a + b)) xs = drop (nat b) (drop (nat a) xs)"
  by (simp add: nat_add_distrib add.commute)

lemma array_Next_block:
  assumes "array_ok s" and "array_rest s \<noteq> []"
  shows "\<exists>blk s'. array_Next s = Inr (Some blk, s') \<and> blk \<noteq> [] \<and> array_ok s' \<and> array_rest s = blk @ array_rest s' \<and>
    int (length blk) = array_last s' \<and> array_pos s' = array_pos s + array_last s' \<and> array_data s' = array_data s"
proof -
  let ?n = "min (array_block s) (array_size s - array_pos s)"
  from assms have p: "array_pos s < array_size s" and n: "0 < ?n" "0 \<le> array_pos s" "array_size s = int (length (array_data s))"
    by (auto simp: array_ok_def array_rest_def)
  let ?blk = "take (nat ?n) (drop (nat (array_pos s)) (array_data s))"
  let ?s' = "s\<lparr>array_last := ?n, array_pos := array_pos s + ?n\<rparr>"
  have "array_Next s = Inr (Some ?blk, ?s')"
    using p by (simp add: array_Next_def Let_def)
  moreover have "int (length ?blk) = ?n"
    using n by simp
  moreover have "array_rest s = ?blk @ array_rest ?s'"
    using n by (simp del: drop_drop add: array_rest_def drop_nat_add)
  moreover have "array_ok ?s'" and "?blk \<noteq> []"
    using assms p n by (auto simp: array_ok_def)
  ultimately show ?thesis
    by (intro exI [of _ ?blk] exI [of _ ?s']) simp
qed

interpretation array: zero_copy_input array_class array_ok array_rest
proof
  fix s :: array_input
  assume "array_ok s" and "array_rest s \<noteq> []"
  then show "\<exists>blk s'. Next_of array_class s = Inr (Some blk, s') \<and> blk \<noteq> [] \<and> array_ok s' \<and> array_rest s = blk @ array_rest s'"
    using array_Next_block [of s] by (auto simp: array_class_def)
next
  fix s :: array_input
  assume "array_ok s" and "array_rest s = []"
  then show "\<exists>s'. Next_of array_class s = Inr (None, s') \<and> array_ok s' \<and> array_rest s' = []"
    by (auto simp: array_class_def array_Next_def array_ok_def array_rest_def)
next
  fix s :: array_input and n :: int
  assume "array_ok s" and "0 \<le> n"
  then show "\<exists>r s'. Skip_of array_class n s = Inr (r, s') \<and> (0 < n \<longrightarrow> r = (n \<le> int (length (array_rest s)))) \<and> array_ok s' \<and>
      array_rest s' = drop (nat n) (array_rest s)"
    by (auto simp: array_class_def array_Skip_def array_ok_def array_rest_def Let_def nat_add_distrib add.commute)
next
  fix s s' :: array_input and blk n
  assume a: "array_ok s" "Next_of array_class s = Inr (Some blk, s')" "0 \<le> n" "n \<le> int (length blk)"
  then have "array_rest s \<noteq> []"
    by (auto simp: array_class_def array_Next_def array_ok_def array_rest_def split: if_splits)
  with a array_Next_block [of s] have b: "blk \<noteq> []" "array_ok s'" "array_rest s = blk @ array_rest s'"
    "int (length blk) = array_last s'" "array_pos s' = array_pos s + array_last s'" "array_data s' = array_data s"
    by (auto simp: array_class_def)
  let ?t = "s'\<lparr>array_pos := array_pos s' - n, array_last := 0\<rparr>"
  have k: "nat (int (length blk) - n) = length blk - nat n"
    using a by simp
  have "array_rest ?t = drop (nat (array_pos s + (int (length blk) - n))) (array_data s)"
    using b by (simp add: array_rest_def algebra_simps)
  also have "\<dots> = drop (length blk - nat n) (array_rest s)"
    using a by (subst drop_nat_add) (auto simp: array_ok_def array_rest_def k simp del: drop_drop)
  finally have "array_rest ?t = drop (length blk - nat n) (array_rest s)" .
  then have "array_rest ?t = drop (length blk - nat n) blk @ array_rest s'"
    using a b by simp
  moreover have last: "0 < array_last s'"
    using b by (metis length_greater_0_conv of_nat_0_less_iff)
  then have "array_BackUp n s' = Inr ?t"
    using a b by (simp add: array_BackUp_def)
  moreover have "array_ok ?t"
    using a b unfolding array_ok_def by simp
  ultimately show "\<exists>s''. BackUp_of array_class n s' = Inr s'' \<and> array_ok s'' \<and> array_rest s'' = drop (length blk - nat n) blk @ array_rest s'"
    by (auto simp: array_class_def)
qed


section \<open>Limiting a source\<close>

definition limiting_ok :: "('s \<Rightarrow> bool) \<Rightarrow> 's limiting_input \<Rightarrow> bool" where
  "limiting_ok ok s \<longleftrightarrow> ok (limited s)"

definition limiting_rest :: "('s \<Rightarrow> u8 list) \<Rightarrow> 's limiting_input \<Rightarrow> u8 list" where
  "limiting_rest rest s = take (nat (limit_left s)) (rest (limited s))"

context zero_copy_input
begin

lemma limiting_next:
  assumes "ok (limited s)" and "limiting_rest rest s \<noteq> []"
  obtains blk i where "Next_of vt (limited s) = Inr (Some blk, i)" "blk \<noteq> []" "ok i" "rest (limited s) = blk @ rest i" "0 < limit_left s"
proof -
  from assms(2) have "0 < limit_left s" "rest (limited s) \<noteq> []"
    by (auto simp: limiting_rest_def)
  with next_block [OF assms(1)] that show thesis
    by blast
qed

lemma limiting_Next_eq:
  assumes "Next_of vt (limited s) = Inr (Some blk, i)" and "0 < limit_left s"
  shows "limiting_Next vt s = Inr (Some (take (nat (limit_left s)) blk), s\<lparr>limited := i, limit_left := limit_left s - int (length blk)\<rparr>)"
  using assms by (auto simp: limiting_Next_def Let_def)

lemma limiting_is_zero_copy_input: "zero_copy_input (limiting_class vt) (limiting_ok ok) (limiting_rest rest)"
proof
  fix s :: "'s limiting_input"
  assume o: "limiting_ok ok s" and r: "limiting_rest rest s \<noteq> []"
  from o have "ok (limited s)"
    by (simp add: limiting_ok_def)
  from limiting_next [OF this r] obtain blk i where n: "Next_of vt (limited s) = Inr (Some blk, i)" "blk \<noteq> []" "ok i"
    "rest (limited s) = blk @ rest i" "0 < limit_left s" .
  then show "\<exists>blk s'. Next_of (limiting_class vt) s = Inr (Some blk, s') \<and> blk \<noteq> [] \<and> limiting_ok ok s' \<and>
      limiting_rest rest s = blk @ limiting_rest rest s'"
    by (intro exI [of _ "take (nat (limit_left s)) blk"] exI [of _ "s\<lparr>limited := i, limit_left := limit_left s - int (length blk)\<rparr>"])
       (simp add: limiting_class_def limiting_Next_eq limiting_ok_def limiting_rest_def nat_diff_distrib')
next
  fix s :: "'s limiting_input"
  assume o: "limiting_ok ok s" and r: "limiting_rest rest s = []"
  show "\<exists>s'. Next_of (limiting_class vt) s = Inr (None, s') \<and> limiting_ok ok s' \<and> limiting_rest rest s' = []"
  proof (cases "limit_left s \<le> 0")
    case True
    with o show ?thesis
      by (auto simp: limiting_class_def limiting_Next_def limiting_rest_def)
  next
    case False
    with r have "rest (limited s) = []"
      by (simp add: limiting_rest_def)
    with next_end [of "limited s"] o obtain i where "Next_of vt (limited s) = Inr (None, i)" "ok i" "rest i = []"
      by (auto simp: limiting_ok_def)
    with False show ?thesis
      by (auto simp: limiting_class_def limiting_Next_def limiting_rest_def limiting_ok_def)
  qed
next
  fix s :: "'s limiting_input" and n :: int
  assume o: "limiting_ok ok s" and n: "0 \<le> n"
  show "\<exists>r s'. Skip_of (limiting_class vt) n s = Inr (r, s') \<and> (0 < n \<longrightarrow> r = (n \<le> int (length (limiting_rest rest s)))) \<and>
      limiting_ok ok s' \<and>
      limiting_rest rest s' = drop (nat n) (limiting_rest rest s)"
  proof (cases "limit_left s < n")
    case True
    show ?thesis
    proof (cases "limit_left s < 0")
      case neg: True
      with o True n show ?thesis
        by (auto simp: limiting_class_def limiting_Skip_def limiting_rest_def)
    next
      case False
      with o skip [of "limited s" "limit_left s"] obtain r i where "Skip_of vt (limit_left s) (limited s) = Inr (r, i)" "ok i"
        by (auto simp: limiting_ok_def)
      with True False show ?thesis
        by (auto simp: limiting_class_def limiting_Skip_def limiting_rest_def limiting_ok_def)
    qed
  next
    case False
    from o n skip [of "limited s" n] obtain r i where i: "Skip_of vt n (limited s) = Inr (r, i)"
      "0 < n \<longrightarrow> r = (n \<le> int (length (rest (limited s))))" "ok i" "rest i = drop (nat n) (rest (limited s))"
      by (auto simp: limiting_ok_def)
    have rest': "drop (nat n) (limiting_rest rest s) = take (nat (limit_left s - n)) (rest i)"
      using False n i(4) by (simp add: limiting_rest_def drop_take nat_diff_distrib)
    have len: "length (limiting_rest rest s) = min (nat (limit_left s)) (length (rest (limited s)))"
      by (simp add: limiting_rest_def)
    show ?thesis
    proof (cases r)
      case True
      then have "Skip_of (limiting_class vt) n s = Inr (True, s\<lparr>limited := i, limit_left := limit_left s - n\<rparr>)"
        using False i(1) by (simp add: limiting_class_def limiting_Skip_def)
      moreover have "0 < n \<longrightarrow> n \<le> int (length (limiting_rest rest s))"
        using True False i(2) n unfolding len by linarith
      ultimately show ?thesis
        using i(3) rest' by (intro exI [of _ True]) (simp add: limiting_ok_def limiting_rest_def)
    next
      case r: False
      then have "Skip_of (limiting_class vt) n s = Inr (False, s\<lparr>limited := i\<rparr>)"
        using False i(1) by (simp add: limiting_class_def limiting_Skip_def)
      moreover have "0 < n \<longrightarrow> \<not> n \<le> int (length (limiting_rest rest s))"
        using r False i(2) n unfolding len by linarith
      moreover have "take (nat (limit_left s)) (rest i) = take (nat (limit_left s - n)) (rest i)"
        using r i(2,4) n by (cases "n = 0") auto
      ultimately show ?thesis
        using i(3) rest' by (intro exI [of _ False]) (simp add: limiting_ok_def limiting_rest_def)
    qed
  qed
next
  fix s s' :: "'s limiting_input" and blk n
  assume o: "limiting_ok ok s" and nx: "Next_of (limiting_class vt) s = Inr (Some blk, s')" and n: "0 \<le> n" "n \<le> int (length blk)"
  from nx have l: "0 < limit_left s"
    by (auto simp: limiting_class_def limiting_Next_def split: if_splits)
  with nx obtain b i where b: "Next_of vt (limited s) = Inr (Some b, i)"
    by (cases "Next_of vt (limited s)") (auto simp: limiting_class_def limiting_Next_def split: option.splits prod.splits)
  with nx l have s': "s' = s\<lparr>limited := i, limit_left := limit_left s - int (length b)\<rparr>" "blk = take (nat (limit_left s)) b"
    by (simp_all add: limiting_class_def limiting_Next_eq)
  let ?m = "if limit_left s' < 0 then n - limit_left s' else n"
  have m: "0 \<le> ?m" "?m \<le> int (length b)"
    using n s' l by (auto simp: min_def split: if_splits)
  with back_up [OF _ b] o obtain j where j: "BackUp_of vt ?m i = Inr j" "ok j" "rest j = drop (length b - nat ?m) b @ rest i"
    by (auto simp: limiting_ok_def)
  let ?t = "s\<lparr>limited := j, limit_left := (if limit_left s' < 0 then n else limit_left s' + n)\<rparr>"
  have "BackUp_of (limiting_class vt) n s' = Inr ?t"
    using j(1) s' by (auto simp: limiting_class_def limiting_BackUp_def)
  moreover have "limiting_ok ok ?t"
    using j by (simp add: limiting_ok_def)
  moreover have "limiting_rest rest ?t = drop (length blk - nat n) blk @ limiting_rest rest s'"
  proof -
    obtain N where N: "n = int N"
      using n(1) by (rule nonneg_int_cases)
    obtain K where K: "limit_left s = int K"
      using l by (cases "limit_left s" rule: int_cases) auto
    show ?thesis
    proof (cases "K < length b")
      case True
      then have "?m = int (N + length b - K)" and "N \<le> K"
        using n(2) s' N K by auto
      then have "length b - nat ?m = K - N"
        using True by simp
      with True j(3) s' N K \<open>N \<le> K\<close> show ?thesis
        by (simp add: limiting_rest_def drop_take)
    next
      case False
      then have "nat (limit_left s' + n) = K - length b + N" and "N \<le> length b" and "\<not> limit_left s' < 0"
        using n(2) s' N K by auto
      moreover have "nat (int K - int (length b)) = K - length b"
        by simp
      ultimately show ?thesis
        using False j(3) s' N K by (simp add: limiting_rest_def)
    qed
  qed
  ultimately show "\<exists>s''. BackUp_of (limiting_class vt) n s' = Inr s'' \<and> limiting_ok ok s'' \<and>
      limiting_rest rest s'' = drop (length blk - nat n) blk @ limiting_rest rest s'"
    by blast
qed

end

interpretation limited_array: zero_copy_input "limiting_class array_class" "limiting_ok array_ok" "limiting_rest array_rest"
  by (rule array.limiting_is_zero_copy_input)

end
