(* ===== verification/Pb_Varint.thy ===== *)
theory Pb_Varint
  imports Core_Prelude
begin

text \<open>
  Variable-length integers of the protobuf wire format
  (Headers/google/protobuf/io/coded_stream.h, io/coded_stream.cc, stubs/port.h and
  wire_format_lite.h): the three writers, the size computations, the two decoders that read
  straight from memory, and the zigzag mapping of signed integers. The bytes a writer stores
  through its pointer are the list of bytes it has written; the memory a decoder may read is a
  list, and a read behind its end has no defined behaviour. The reference is the little-endian
  base-128 expansion of a natural number.
\<close>

section \<open>Writers\<close>

text \<open>\<open>ptr[-1] |= 0x80\<close>\<close>

definition set_continuation :: "u8 list \<Rightarrow> u8 list" where
  "set_continuation out = butlast out @ [last out OR 0x80]"

lemma unat_drop_7: "unat (drop_bit 7 (v :: 'a::len word)) = unat v div 128"
proof -
  have "unat (drop_bit 7 v) = drop_bit 7 (unat v)"
    by (rule unat_drop_bit_eq)
  then show ?thesis
    by (simp only: drop_bit_eq_div) simp
qed

text \<open>The \<open>do\<close> loop of \<open>UnsafeVarint\<close>, whose template parameter is the word type.\<close>

function varint_loop :: "'a::len word \<Rightarrow> u8 list \<Rightarrow> u8 list" where
  "varint_loop value out =
     (let out = set_continuation out;
          value = drop_bit 7 value;
          out = out @ [ucast value]
      in if 0x80 \<le> unat value then varint_loop value out else out)"
  by auto
termination
  by (relation "measure (\<lambda>(v, _). unat v)") (auto simp only: in_measure prod.case unat_drop_7)

definition UnsafeVarint :: "'a::len word \<Rightarrow> u8 list" where
  "UnsafeVarint value =
     (let out = [ucast value] in
      if unat value < 0x80 then out
      else let out = set_continuation out;
               value = drop_bit 7 value;
               out = out @ [ucast value]
           in if unat value < 0x80 then out else varint_loop value out)"

function UnsafeWriteSize :: "u32 \<Rightarrow> u8 list" where
  "UnsafeWriteSize value =
     (if 0x80 \<le> unat value then ucast (value OR 0x80) # UnsafeWriteSize (drop_bit 7 value)
      else [ucast value])"
  by auto
termination
  by (relation "measure unat") (auto simp only: in_measure unat_drop_7)

text \<open>\<open>CodedOutputStream::WriteVarint32ToArrayOutOfLine\<close> and its helper, whose loop is the one of \<open>UnsafeVarint\<close>.\<close>

definition WriteVarint32ToArrayOutOfLineHelper :: "u32 \<Rightarrow> u8 list \<Rightarrow> u8 list" where
  "WriteVarint32ToArrayOutOfLineHelper value out =
     (let out = set_continuation out;
          value = drop_bit 7 value;
          out = out @ [ucast value]
      in if unat value < 0x80 then out else varint_loop value out)"

definition WriteVarint32ToArrayOutOfLine :: "u32 \<Rightarrow> u8 list" where
  "WriteVarint32ToArrayOutOfLine value =
     (let out = [ucast value] in
      if unat value < 0x80 then out else WriteVarint32ToArrayOutOfLineHelper value out)"

definition WriteVarint32SignExtendedToArray :: "32 word \<Rightarrow> u8 list" where
  "WriteVarint32SignExtendedToArray value = UnsafeVarint (scast value :: u64)"

section \<open>Sizes\<close>

text \<open>
  \<open>Log2FloorNonZero_Portable\<close> scans with shifts of 16, 8, 4, 2 and 1; \<open>bit_scan_reverse\<close> is
  the index of the highest set bit, which the compiler intrinsics return for a nonzero argument.
\<close>

definition log2_round :: "nat \<Rightarrow> u32 \<times> nat \<Rightarrow> u32 \<times> nat" where
  "log2_round i st =
     (let (value, log) = st; shift = 2 ^ i; x = drop_bit shift value
      in if x \<noteq> 0 then (x, log + shift) else (value, log))"

definition Log2FloorNonZero_Portable :: "u32 \<Rightarrow> int" where
  "Log2FloorNonZero_Portable n =
     (if n = 0 then - 1 else int (snd (fold log2_round [4, 3, 2, 1, 0] (n, 0))))"

function bit_scan_reverse :: "nat \<Rightarrow> nat" where
  "bit_scan_reverse n = (if n < 2 then 0 else Suc (bit_scan_reverse (n div 2)))"
  by auto
termination by (relation "measure id") auto

definition VarintSize32 :: "u32 \<Rightarrow> nat" where
  "VarintSize32 value =
     (let log2value = of_nat (bit_scan_reverse (unat (value OR 1))) :: u32
      in unat ((log2value * 9 + 73) div 64))"

definition VarintSize32PlusOne :: "u32 \<Rightarrow> nat" where
  "VarintSize32PlusOne value =
     (let log2value = of_nat (bit_scan_reverse (unat (value OR 1))) :: u32
      in unat ((log2value * 9 + 73 + 64) div 64))"

definition VarintSize64 :: "u64 \<Rightarrow> nat" where
  "VarintSize64 value =
     (let log2value = of_nat (bit_scan_reverse (unat (value OR 1))) :: u32
      in unat ((log2value * 9 + 73) div 64))"

definition VarintSize64PlusOne :: "u64 \<Rightarrow> nat" where
  "VarintSize64PlusOne value =
     (let log2value = of_nat (bit_scan_reverse (unat (value OR 1))) :: u32
      in unat ((log2value * 9 + 73 + 64) div 64))"

definition VarintSize32SignExtended :: "u32 \<Rightarrow> nat" where
  "VarintSize32SignExtended value = VarintSize64 (scast value)"

definition VarintSize32SignExtendedPlusOne :: "u32 \<Rightarrow> nat" where
  "VarintSize32SignExtendedPlusOne value = VarintSize64PlusOne (scast value)"

section \<open>Decoders\<close>

definition mem_at :: "u8 list \<Rightarrow> nat \<Rightarrow> u8 outcome" where
  "mem_at mem i = (if i < length mem then Inr (mem ! i) else Inl (Undefined ''read behind the buffer''))"

text \<open>The loop of \<open>DecodeVarint64KnownSize\<close> for \<open>N\<close> bytes.\<close>

fun known_size_loop :: "u8 list \<Rightarrow> nat \<Rightarrow> nat \<Rightarrow> nat \<Rightarrow> u64 \<Rightarrow> u64" where
  "known_size_loop buf 0 i ofs result = result"
| "known_size_loop buf (Suc k) i ofs result =
     known_size_loop buf k (Suc i) (ofs + 7) (result + push_bit ofs (ucast (buf ! i) - 0x80))"

definition DecodeVarint64KnownSize :: "nat \<Rightarrow> u8 list \<Rightarrow> u64" where
  "DecodeVarint64KnownSize N buf =
     known_size_loop buf (N - 1) 0 0 (push_bit (7 * (N - 1)) (ucast (buf ! (N - 1))))"

text \<open>The chain of tests \<open>buffer[1] < 128\<close>, \<open>buffer[2] < 128\<close>, ..., \<open>buffer[9] < 128\<close>.\<close>

fun first_terminator :: "u8 list \<Rightarrow> nat list \<Rightarrow> nat option outcome" where
  "first_terminator buf [] = Inr None"
| "first_terminator buf (i # is) =
     and_then (mem_at buf i) (\<lambda>b. if unat b < 128 then Inr (Some (i + 1)) else first_terminator buf is)"

definition ReadVarint64FromArray :: "u8 list \<Rightarrow> (u64 \<times> nat) option outcome" where
  "ReadVarint64FromArray buf =
     and_then (first_terminator buf [1, 2, 3, 4, 5, 6, 7, 8, 9]) (\<lambda>r.
       Inr (map_option (\<lambda>N. (DecodeVarint64KnownSize N buf, N)) r))"

text \<open>The loop that reads the bytes of a longer varint only to drop them.\<close>

fun discard_loop :: "u8 list \<Rightarrow> nat \<Rightarrow> nat \<Rightarrow> nat option outcome" where
  "discard_loop buf 0 ptr = Inr None"
| "discard_loop buf (Suc k) ptr =
     and_then (mem_at buf ptr) (\<lambda>b. if b AND 0x80 = 0 then Inr (Some (ptr + 1)) else discard_loop buf k (ptr + 1))"

definition kMaxVarintBytes :: nat where "kMaxVarintBytes = 10"
definition kMaxVarint32Bytes :: nat where "kMaxVarint32Bytes = 5"

definition ReadVarint32FromArray :: "u32 \<Rightarrow> u8 list \<Rightarrow> (u32 \<times> nat) option outcome" where
  "ReadVarint32FromArray first_byte buf =
     (let result = first_byte - 0x80 in
      and_then (mem_at buf 1) (\<lambda>b. let result = result + push_bit 7 (ucast b) in
      if b AND 0x80 = 0 then Inr (Some (result, 2)) else let result = result - push_bit 7 0x80 in
      and_then (mem_at buf 2) (\<lambda>b. let result = result + push_bit 14 (ucast b) in
      if b AND 0x80 = 0 then Inr (Some (result, 3)) else let result = result - push_bit 14 0x80 in
      and_then (mem_at buf 3) (\<lambda>b. let result = result + push_bit 21 (ucast b) in
      if b AND 0x80 = 0 then Inr (Some (result, 4)) else let result = result - push_bit 21 0x80 in
      and_then (mem_at buf 4) (\<lambda>b. let result = result + push_bit 28 (ucast b) in
      if b AND 0x80 = 0 then Inr (Some (result, 5)) else
      and_then (discard_loop buf (kMaxVarintBytes - kMaxVarint32Bytes) 5) (\<lambda>r.
        Inr (map_option (\<lambda>n. (result, n)) r)))))))"

section \<open>Fixed-width integers\<close>

definition little_endian :: "u8 list \<Rightarrow> 'a::len word" where
  "little_endian bytes = foldr (\<lambda>b acc. ucast b OR push_bit 8 acc) bytes 0"

section \<open>Zigzag\<close>

definition ZigZagEncode32 :: "u32 \<Rightarrow> u32" where
  "ZigZagEncode32 n = push_bit 1 n XOR signed_drop_bit 31 n"

definition ZigZagDecode32 :: "u32 \<Rightarrow> u32" where
  "ZigZagDecode32 n = drop_bit 1 n XOR (NOT (n AND 1) + 1)"

definition ZigZagEncode64 :: "u64 \<Rightarrow> u64" where
  "ZigZagEncode64 n = push_bit 1 n XOR signed_drop_bit 63 n"

definition ZigZagDecode64 :: "u64 \<Rightarrow> u64" where
  "ZigZagDecode64 n = drop_bit 1 n XOR (NOT (n AND 1) + 1)"

section \<open>Tags\<close>

definition kTagTypeBits :: nat where "kTagTypeBits = 3"
definition kTagTypeMask :: u32 where "kTagTypeMask = push_bit kTagTypeBits 1 - 1"

definition MakeTag :: "u32 \<Rightarrow> u32 \<Rightarrow> u32" where
  "MakeTag field_number wire_type = push_bit 3 field_number OR wire_type"

definition GetTagWireType :: "u32 \<Rightarrow> u32" where
  "GetTagWireType tag = tag AND kTagTypeMask"

definition GetTagFieldNumber :: "u32 \<Rightarrow> int" where
  "GetTagFieldNumber tag = sint (drop_bit kTagTypeBits tag)"

section \<open>The reference expansion\<close>

function varint_bytes :: "nat \<Rightarrow> u8 list" where
  "varint_bytes n = (if n < 128 then [of_nat n] else of_nat (n mod 128 + 128) # varint_bytes (n div 128))"
  by auto
termination by (relation "measure id") auto

declare varint_bytes.simps [simp del] varint_loop.simps [simp del] UnsafeWriteSize.simps [simp del] bit_scan_reverse.simps [simp del]

lemma bit_scan_reverse_small [simp]: "bit_scan_reverse 0 = 0" "bit_scan_reverse (Suc 0) = 0" "bit_scan_reverse 1 = 0"
  by (simp_all add: bit_scan_reverse.simps [of 0] bit_scan_reverse.simps [of "Suc 0"])

lemma varint_bytes_0 [simp]: "varint_bytes 0 = [0]"
  by (simp add: varint_bytes.simps [of 0])

text \<open>The bytes of the first varint of a byte sequence, at most \<open>k\<close>, and the number they denote.\<close>

fun varint_len :: "nat \<Rightarrow> u8 list \<Rightarrow> nat option" where
  "varint_len 0 bs = None"
| "varint_len (Suc k) [] = None"
| "varint_len (Suc k) (b # bs) = (if unat b < 128 then Some 1 else map_option Suc (varint_len k bs))"

fun varint_value :: "u8 list \<Rightarrow> nat" where
  "varint_value [] = 0"
| "varint_value (b # bs) = unat b mod 128 + 128 * varint_value bs"

definition varint_decode :: "u8 list \<Rightarrow> (nat \<times> nat) option" where
  "varint_decode bs = map_option (\<lambda>n. (varint_value (take n bs), n)) (varint_len 10 bs)"

section \<open>Writers produce the expansion\<close>

lemma or_80_all: "\<forall>n\<in>set [0..<256]. (of_nat n OR 0x80 :: u8) = of_nat (n mod 128 + 128)"
  by code_simp

lemma ucast_mod_256: "(of_nat (unat v mod 256) :: u8) = ucast (v :: 'a::len word)"
proof -
  have "(of_nat (unat v mod 256) :: u8) = of_nat (unat v)"
    by (simp only: word_of_nat_eq_iff take_bit_eq_mod) simp
  then show ?thesis
    by simp
qed

lemma or_80: "(ucast (v :: 'a::len word) OR 0x80 :: u8) = of_nat (unat v mod 128 + 128)"
proof -
  have "(of_nat (unat v mod 256) OR 0x80 :: u8) = of_nat (unat v mod 256 mod 128 + 128)"
    by (rule or_80_all [rule_format]) simp
  moreover have "unat v mod 256 mod 128 = unat v mod 128"
    by (rule mod_mod_cancel) simp
  ultimately show ?thesis
    by (simp only: ucast_mod_256)
qed

lemma varint_loop_bytes:
  "varint_loop v (pre @ [ucast v]) = pre @ of_nat (unat v mod 128 + 128) # varint_bytes (unat v div 128)"
proof (induction "unat v" arbitrary: v pre rule: less_induct)
  case less
  let ?w = "drop_bit 7 v"
  have w: "unat ?w = unat v div 128"
    by (rule unat_drop_7)
  let ?out = "pre @ [of_nat (unat v mod 128 + 128)]"
  have step: "varint_loop v (pre @ [ucast v]) =
      (if 0x80 \<le> unat ?w then varint_loop ?w (?out @ [ucast ?w]) else ?out @ [ucast ?w])"
    by (subst varint_loop.simps) (simp add: set_continuation_def or_80 Let_def)
  show ?case
  proof (cases "128 \<le> unat ?w")
    case True
    then have "varint_loop ?w (?out @ [ucast ?w]) = ?out @ of_nat (unat ?w mod 128 + 128) # varint_bytes (unat ?w div 128)"
      by (intro less) (simp add: w)
    then show ?thesis
      using True by (simp add: step w varint_bytes.simps [of "unat v div 128"])
  next
    case False
    then show ?thesis
      by (simp add: step varint_bytes.simps [of "unat ?w"] flip: w)
  qed
qed

lemma UnsafeVarint_bytes: "UnsafeVarint v = varint_bytes (unat v)"
proof (cases "unat v < 128")
  case True
  then show ?thesis
    by (simp add: UnsafeVarint_def varint_bytes.simps [of "unat v"])
next
  case False
  let ?w = "drop_bit 7 v" and ?b = "of_nat (unat v mod 128 + 128) :: u8"
  have sc: "set_continuation [ucast v] = [?b]"
    by (simp add: set_continuation_def or_80)
  have w: "unat ?w = unat v div 128"
    by (rule unat_drop_7)
  have "UnsafeVarint v = (if unat ?w < 128 then [?b, ucast ?w] else varint_loop ?w ([?b] @ [ucast ?w]))"
    using False by (simp add: UnsafeVarint_def Let_def sc)
  also have "\<dots> = ?b # varint_bytes (unat ?w)"
    unfolding varint_loop_bytes by (simp add: varint_bytes.simps [of "unat ?w"])
  also have "\<dots> = varint_bytes (unat v)"
    using False by (simp only: w varint_bytes.simps [of "unat v"] if_False)
  finally show ?thesis .
qed

lemma UnsafeWriteSize_bytes: "UnsafeWriteSize v = varint_bytes (unat v)"
proof (induction "unat v" arbitrary: v rule: less_induct)
  case less
  have or: "(ucast (v OR 0x80) :: u8) = of_nat (unat v mod 128 + 128)"
    unfolding or_80 [symmetric] by (simp add: unsigned_or_eq)
  show ?case
  proof (cases "unat v < 128")
    case True
    then show ?thesis
      by (simp add: UnsafeWriteSize.simps [of v] varint_bytes.simps [of "unat v"])
  next
    case False
    then have "unat (drop_bit 7 v) < unat v"
      by (simp only: unat_drop_7)
    then have "UnsafeWriteSize (drop_bit 7 v) = varint_bytes (unat v div 128)"
      by (simp only: less unat_drop_7)
    with False show ?thesis
      by (simp only: UnsafeWriteSize.simps [of v] varint_bytes.simps [of "unat v"] or if_True if_False linorder_not_less [symmetric] not_False_eq_True)
  qed
qed

lemma OutOfLine_bytes: "WriteVarint32ToArrayOutOfLine v = varint_bytes (unat v)"
  unfolding UnsafeVarint_bytes [of v, symmetric]
  by (simp only: WriteVarint32ToArrayOutOfLine_def WriteVarint32ToArrayOutOfLineHelper_def UnsafeVarint_def Let_def)

section \<open>Sizes\<close>

lemma bit_scan_reverse_bounds: "0 < n \<Longrightarrow> 2 ^ bit_scan_reverse n \<le> n \<and> n < 2 ^ Suc (bit_scan_reverse n)"
proof (induction n rule: bit_scan_reverse.induct)
  case (1 n)
  show ?case
  proof (cases "n < 2")
    case True
    with 1(2) show ?thesis
      by (simp add: bit_scan_reverse.simps [of n])
  next
    case False
    then have "2 ^ bit_scan_reverse (n div 2) \<le> n div 2 \<and> n div 2 < 2 ^ Suc (bit_scan_reverse (n div 2))"
      by (intro 1(1)) auto
    with False show ?thesis
      by (auto simp: bit_scan_reverse.simps [of n])
  qed
qed

lemma bit_scan_reverse_less: "0 < n \<Longrightarrow> n < 2 ^ w \<Longrightarrow> bit_scan_reverse n < w"
  using bit_scan_reverse_bounds [of n] power_less_imp_less_exp [of 2 "bit_scan_reverse n" w]
  by (metis le_less_trans one_less_numeral_iff semiring_norm(76))

lemma bit_scan_reverse_power: "2 ^ k \<le> n \<Longrightarrow> bit_scan_reverse n = k + bit_scan_reverse (n div 2 ^ k)"
proof (induction k arbitrary: n)
  case (Suc k)
  then have "2 ^ k \<le> n div 2" and "\<not> n < 2"
    by (auto simp: not_less order_trans [of 2 "2 * 2 ^ k" n])
  then have "bit_scan_reverse n = Suc (k + bit_scan_reverse (n div 2 div 2 ^ k))"
    using Suc.IH [of "n div 2"] by (simp only: bit_scan_reverse.simps [of n] if_False)
  then show ?case
    by (simp add: div_mult2_eq)
qed simp

lemma bit_scan_reverse_step: "128 \<le> n \<Longrightarrow> bit_scan_reverse n = bit_scan_reverse (n div 128) + 7"
  using bit_scan_reverse_power [of 7 n] by simp

lemma bit_scan_reverse_or_1: "bit_scan_reverse (n OR 1) = bit_scan_reverse n"
proof (cases "n < 2")
  case True
  then have "n = 0 \<or> n = 1"
    by auto
  then show ?thesis
    by auto
next
  case False
  have "(n OR 1) div 2 = n div 2"
    by (auto simp: or_Suc_0_eq elim!: evenE)
  moreover have "\<not> n OR 1 < 2"
    using False by (auto simp: or_Suc_0_eq)
  ultimately show ?thesis
    using False by (simp only: bit_scan_reverse.simps [of n] bit_scan_reverse.simps [of "n OR 1"] if_False)
qed

lemma length_varint_bytes: "0 < n \<Longrightarrow> length (varint_bytes n) = bit_scan_reverse n div 7 + 1"
proof (induction n rule: varint_bytes.induct)
  case (1 n)
  show ?case
  proof (cases "n < 128")
    case True
    then have "bit_scan_reverse n < 7"
      using bit_scan_reverse_less [of n 7] 1(2) by simp
    with True show ?thesis
      by (simp add: varint_bytes.simps [of n])
  next
    case False
    with 1(1) show ?thesis
      by (simp add: varint_bytes.simps [of n] bit_scan_reverse_step div_add_self2)
  qed
qed

lemma size_formula_all: "\<forall>k\<in>set [0..<64]. unat ((of_nat k * 9 + 73 :: u32) div 64) = k div 7 + 1"
  "\<forall>k\<in>set [0..<64]. unat ((of_nat k * 9 + 73 + 64 :: u32) div 64) = k div 7 + 2"
  by code_simp+


lemma length_varint_bytes_all: "length (varint_bytes n) = bit_scan_reverse n div 7 + 1"
proof (cases "n = 0")
  case True
  then show ?thesis
    by simp
qed (simp add: length_varint_bytes)

lemma bit_scan_reverse_width: "n < 2 ^ w \<Longrightarrow> 0 < w \<Longrightarrow> bit_scan_reverse n < w"
  using bit_scan_reverse_less [of n w] by (cases "n = 0") auto

lemma size_formula:
  "k < 64 \<Longrightarrow> unat ((of_nat k * 9 + 73 :: u32) div 64) = k div 7 + 1"
  "k < 64 \<Longrightarrow> unat ((of_nat k * 9 + 73 + 64 :: u32) div 64) = k div 7 + 2"
  using size_formula_all by auto

lemma VarintSize64_length: "VarintSize64 v = length (varint_bytes (unat v))"
proof -
  have "bit_scan_reverse (unat v) < 64"
    by (rule bit_scan_reverse_width) (use unsigned_less [of v] in simp_all)
  then show ?thesis
    by (simp only: VarintSize64_def Let_def unsigned_or_eq unsigned_1 bit_scan_reverse_or_1 size_formula length_varint_bytes_all)
qed


lemma VarintSize32_length: "VarintSize32 v = length (varint_bytes (unat v))"
proof -
  have "bit_scan_reverse (unat v) < 64"
    by (rule less_trans [OF bit_scan_reverse_width [of _ 32]]) (use unsigned_less [of v] in simp_all)
  then show ?thesis
    by (simp only: VarintSize32_def Let_def unsigned_or_eq unsigned_1 bit_scan_reverse_or_1 size_formula length_varint_bytes_all)
qed

text \<open>The portable scan halves the width of the remaining value and accounts for the bits it shifts out.\<close>

definition log2_inv :: "nat \<Rightarrow> nat \<Rightarrow> u32 \<times> nat \<Rightarrow> bool" where
  "log2_inv n i st \<longleftrightarrow> 0 < unat (fst st) \<and> unat (fst st) < 2 ^ (2 ^ i) \<and> snd st + bit_scan_reverse (unat (fst st)) = n"

lemma log2_inv_round:
  assumes inv: "log2_inv n k st" and k: "k = Suc i"
  shows "log2_inv n i (log2_round i st)"
proof -
  note assms = inv [unfolded k]
  obtain v log where st: "st = (v, log)"
    by (cases st)
  have "unat (drop_bit (2 ^ i) v) = drop_bit (2 ^ i) (unat v)"
    by (rule unat_drop_bit_eq)
  then have d: "unat (drop_bit (2 ^ i) v) = unat v div 2 ^ (2 ^ i)"
    by (simp only: drop_bit_eq_div)
  show ?thesis
  proof (cases "2 ^ (2 ^ i) \<le> unat v")
    case True
    then have pos: "0 < unat v div 2 ^ (2 ^ i)"
      by (simp add: div_greater_zero_iff)
    then have ne: "drop_bit (2 ^ i) v \<noteq> 0"
      unfolding d [symmetric] by auto
    have "unat v < 2 ^ (2 ^ i) * 2 ^ (2 ^ i)"
      using assms by (simp add: log2_inv_def st power_add [symmetric] mult_2)
    then have "unat v div 2 ^ (2 ^ i) < 2 ^ (2 ^ i)"
      by (rule less_mult_imp_div_less)
    moreover have "log + 2 ^ i + bit_scan_reverse (unat v div 2 ^ (2 ^ i)) = n"
      using assms bit_scan_reverse_power [OF True] by (simp add: log2_inv_def st)
    moreover have "log2_round i st = (drop_bit (2 ^ i) v, log + 2 ^ i)"
      using ne by (simp only: log2_round_def st Let_def prod.case if_True not_False_eq_True)
    ultimately show ?thesis
      using pos by (simp only: log2_inv_def fst_conv snd_conv d)
  next
    case False
    then have "unat (drop_bit (2 ^ i) v) = 0"
      unfolding d by simp
    then have "drop_bit (2 ^ i) v = 0"
      by (simp only: unsigned_eq_0_iff)
    then have "log2_round i st = st"
      by (simp only: log2_round_def st Let_def prod.case) simp
    with False assms show ?thesis
      by (simp add: log2_inv_def st)
  qed
qed

lemma Log2FloorNonZero_Portable_eq:
  assumes "v \<noteq> 0"
  shows "Log2FloorNonZero_Portable v = int (bit_scan_reverse (unat v))"
proof -
  let ?n = "bit_scan_reverse (unat v)"
  have "log2_inv ?n (Suc 4) (v, 0)"
    using assms unat_u32_less [of v] by (simp add: log2_inv_def unat_gt_0)
  then have "log2_inv ?n 4 (log2_round 4 (v, 0))"
    by (rule log2_inv_round) simp
  then have "log2_inv ?n 3 (log2_round 3 (log2_round 4 (v, 0)))"
    by (rule log2_inv_round) simp
  then have "log2_inv ?n 2 (log2_round 2 (log2_round 3 (log2_round 4 (v, 0))))"
    by (rule log2_inv_round) simp
  then have "log2_inv ?n 1 (log2_round 1 (log2_round 2 (log2_round 3 (log2_round 4 (v, 0)))))"
    by (rule log2_inv_round) simp
  then have "log2_inv ?n 0 (log2_round 0 (log2_round 1 (log2_round 2 (log2_round 3 (log2_round 4 (v, 0))))))"
    by (rule log2_inv_round) simp
  moreover have "log2_inv ?n 0 st \<Longrightarrow> snd st = ?n" for st
    by (cases "unat (fst st) = 1") (auto simp: log2_inv_def)
  ultimately show ?thesis
    using assms by (simp add: Log2FloorNonZero_Portable_def)
qed

section \<open>Decoders compute the reference value\<close>

lemma byte_continues: "(b :: u8) AND 0x80 = 0 \<longleftrightarrow> unat b < 128"
proof -
  have "\<forall>n\<in>set [0..<256]. ((of_nat n :: u8) AND 0x80 = 0) = (n < 128)"
    by code_simp
  moreover have "unat b < 256"
    using unsigned_less [of b] by simp
  ultimately have "((of_nat (unat b) :: u8) AND 0x80 = 0) = (unat b < 128)"
    by (simp only: set_upt atLeastLessThan_iff zero_le simp_thms)
  then show ?thesis
    by (simp only: of_nat_unat ucast_id)
qed

lemma varint_len_bounds: "varint_len k bs = Some n \<Longrightarrow> 0 < n \<and> n \<le> k \<and> n \<le> length bs"
  by (induction k bs arbitrary: n rule: varint_len.induct) (auto split: if_splits)

lemma varint_len_at: "varint_len k bs = Some n \<longleftrightarrow>
    0 < n \<and> n \<le> k \<and> n \<le> length bs \<and> (\<forall>i < n - 1. 128 \<le> unat (bs ! i)) \<and> unat (bs ! (n - 1)) < 128"
proof (induction k bs arbitrary: n rule: varint_len.induct)
  case (3 k b bs)
  show ?case
  proof (cases "unat b < 128")
    case True
    then have "n = 1" if "\<forall>i<n - 1. 128 \<le> unat ((b # bs) ! i)" "0 < n"
      using that by (cases "n = 1") (auto dest!: spec [of _ 0])
    with True show ?thesis
      by auto
  next
    case False
    show ?thesis
    proof (cases n)
      case (Suc m)
      with False 3 [OF False, of m] show ?thesis
        by (cases m) (auto simp: less_Suc_eq_0_disj)
    qed (use False in auto)
  qed
qed auto

lemma varint_len_prefix:
  assumes "10 \<le> length xs \<or> xs \<noteq> [] \<and> unat (last xs) < 128"
  shows "varint_len 10 (xs @ ys) = varint_len 10 (xs @ zs)"
proof -
  have "k \<le> length xs \<or> xs \<noteq> [] \<and> unat (last xs) < 128 \<Longrightarrow> varint_len k (xs @ ys) = varint_len k (xs @ zs)" for k
  proof (induction xs arbitrary: k)
    case (Cons x xs)
    then show ?case
      by (cases k) (auto split: if_splits)
  qed simp
  with assms show ?thesis
    by blast
qed

lemma varint_len_prefix_le:
  assumes "xs \<noteq> [] \<and> unat (last xs) < 128" and "varint_len k (xs @ ys) = Some n"
  shows "n \<le> length xs"
  using assms
proof (induction xs arbitrary: k n)
  case (Cons x xs)
  then show ?case
    by (cases k) (auto split: if_splits)
qed simp

lemma varint_len_None_length:
  assumes "10 \<le> length xs \<or> xs \<noteq> [] \<and> unat (last xs) < 128" and "varint_len 10 (xs @ ys) = None"
  shows "10 \<le> length xs"
proof -
  have "k \<le> length xs \<or> xs \<noteq> [] \<and> unat (last xs) < 128 \<Longrightarrow> varint_len k (xs @ ys) = None \<Longrightarrow> k \<le> length xs" for k
  proof (induction xs arbitrary: k)
    case (Cons x xs)
    then show ?case
      by (cases k) (auto split: if_splits)
  qed simp
  with assms show ?thesis
    by blast
qed

lemma unat_ucast_u8: "unat (ucast (b :: u8) :: u32) = unat b"
proof -
  have "unat b < 256"
    using unsigned_less [of b] by simp
  then have "unat b < 2 ^ 32"
    by simp
  then show ?thesis
    by (simp only: unsigned_ucast_eq) (simp add: take_bit_nat_eq_self)
qed

lemma varint_value_append: "varint_value (xs @ ys) = varint_value xs + 128 ^ length xs * varint_value ys"
  by (induction xs) (simp_all add: algebra_simps)


lemma ucast_continuing: "128 \<le> unat b \<Longrightarrow> (ucast (b :: u8) :: 'a::len word) = of_nat (unat b mod 128) + 128"
proof -
  assume "128 \<le> unat b"
  moreover have "unat b < 256"
    using unsigned_less [of b] by simp
  ultimately have "unat b = unat b mod 128 + 128"
    by (simp add: le_mod_geq)
  then have "(of_nat (unat b) :: 'a word) = of_nat (unat b mod 128 + 128)"
    by simp
  then show ?thesis
    by simp
qed

lemma ucast_final: "unat b < 128 \<Longrightarrow> (ucast (b :: u8) :: 'a::len word) = of_nat (unat b mod 128)"
  by simp

lemma known_size_loop_value:
  "i + k \<le> length buf \<Longrightarrow> \<forall>j. i \<le> j \<and> j < i + k \<longrightarrow> 128 \<le> unat (buf ! j) \<Longrightarrow>
   known_size_loop buf k i ofs r = r + of_nat (2 ^ ofs * varint_value (take k (drop i buf)))"
proof (induction k arbitrary: i ofs r)
  case (Suc k)
  have d: "drop i buf = buf ! i # drop (Suc i) buf"
    using Suc.prems(1) by (simp add: Cons_nth_drop_Suc)
  have "known_size_loop buf (Suc k) i ofs r =
      r + push_bit ofs (ucast (buf ! i) - 0x80) + of_nat (2 ^ (ofs + 7) * varint_value (take k (drop (Suc i) buf)))"
    using Suc.prems by (simp only: known_size_loop.simps) (subst Suc.IH, auto)
  moreover have "(ucast (buf ! i) :: u64) - 0x80 = of_nat (unat (buf ! i) mod 128)"
    using Suc.prems(2) by (subst ucast_continuing) auto
  ultimately show ?case
    by (simp add: d push_bit_eq_mult power_add algebra_simps)
qed simp

lemma DecodeVarint64KnownSize_value:
  assumes "varint_len 10 buf = Some n"
  shows "DecodeVarint64KnownSize n buf = of_nat (varint_value (take n buf))"
proof -
  from assms have n: "0 < n" "n \<le> length buf" "\<forall>i < n - 1. 128 \<le> unat (buf ! i)" "unat (buf ! (n - 1)) < 128"
    by (simp_all add: varint_len_at)
  then have t: "take n buf = take (n - 1) buf @ [buf ! (n - 1)]"
    by (metis One_nat_def Suc_pred less_le_trans diff_less take_Suc_conv_app_nth zero_less_one)
  have "known_size_loop buf (n - 1) 0 0 r = r + of_nat (varint_value (take (n - 1) buf))" for r
    using n by (subst known_size_loop_value) auto
  moreover have "(128 :: u64) ^ (n - 1) = 2 ^ (7 * (n - 1))"
    by (simp add: power_mult)
  ultimately show ?thesis
    using n by (simp add: DecodeVarint64KnownSize_def t varint_value_append push_bit_eq_mult)
qed

lemma first_terminator_Some:
  "i \<le> m \<Longrightarrow> m < j \<Longrightarrow> m < length buf \<Longrightarrow> \<forall>l. i \<le> l \<and> l < m \<longrightarrow> 128 \<le> unat (buf ! l) \<Longrightarrow> unat (buf ! m) < 128 \<Longrightarrow>
   first_terminator buf [i..<j] = Inr (Some (m + 1))"
proof (induction "m - i" arbitrary: i)
  case (Suc x)
  then have "first_terminator buf [Suc i..<j] = Inr (Some (m + 1))"
    by (intro Suc.hyps(1)) auto
  moreover have "i < m" and continues: "\<not> unat (buf ! i) < 128"
    using Suc.hyps(2) Suc.prems(4) by (auto simp: not_less)
  ultimately show ?case
    using Suc.prems(2,3) by (simp add: continues upt_conv_Cons [of i j] mem_at_def del: upt_Suc)
qed (simp add: upt_conv_Cons mem_at_def)

lemma first_terminator_None:
  "i \<le> j \<Longrightarrow> j \<le> length buf \<Longrightarrow> \<forall>l. i \<le> l \<and> l < j \<longrightarrow> 128 \<le> unat (buf ! l) \<Longrightarrow> first_terminator buf [i..<j] = Inr None"
  by (induction "j - i" arbitrary: i) (simp_all add: upt_conv_Cons mem_at_def not_less)

lemma ReadVarint64FromArray_Some:
  assumes "varint_len 10 buf = Some n" and "2 \<le> n"
  shows "ReadVarint64FromArray buf = Inr (Some (of_nat (varint_value (take n buf)), n))"
proof -
  have "first_terminator buf [1..<10] = Inr (Some (n - 1 + 1))"
    using assms by (intro first_terminator_Some) (auto simp: varint_len_at)
  moreover have "[1..<10] = [1, 2, 3, 4, 5, 6, 7, 8, 9 :: nat]"
    by (simp add: upt_rec)
  ultimately show ?thesis
    using assms by (simp add: ReadVarint64FromArray_def DecodeVarint64KnownSize_value)
qed


lemma varint_len_None: "k \<le> length bs \<Longrightarrow> varint_len k bs = None \<longleftrightarrow> (\<forall>i<k. 128 \<le> unat (bs ! i))"
  by (induction k bs rule: varint_len.induct) (auto simp: less_Suc_eq_0_disj not_less)

lemma ReadVarint64FromArray_None:
  assumes "varint_len 10 buf = None" and "10 \<le> length buf"
  shows "ReadVarint64FromArray buf = Inr None"
proof -
  have "first_terminator buf [1..<10] = Inr None"
    using assms by (intro first_terminator_None) (auto simp: varint_len_None)
  moreover have "[1..<10] = [1, 2, 3, 4, 5, 6, 7, 8, 9 :: nat]"
    by (simp add: upt_rec)
  ultimately show ?thesis
    by (simp add: ReadVarint64FromArray_def)
qed

lemma varint_value_take_Suc:
  "i < length buf \<Longrightarrow> varint_value (take (Suc i) buf) = varint_value (take i buf) + 128 ^ i * (unat (buf ! i) mod 128)"
  by (simp add: take_Suc_conv_app_nth varint_value_append)

lemma add_final_byte:
  assumes "i < length buf" and "unat (buf ! i) < 128"
  shows "of_nat (varint_value (take i buf)) + push_bit (7 * i) (ucast (buf ! i)) =
    (of_nat (varint_value (take (Suc i) buf)) :: 'a::len word)"
  using assms by (simp add: varint_value_take_Suc push_bit_eq_mult power_mult)

lemma add_continued_byte:
  assumes "i < length buf" and "128 \<le> unat (buf ! i)"
  shows "of_nat (varint_value (take i buf)) + push_bit (7 * i) (ucast (buf ! i)) =
    (of_nat (varint_value (take (Suc i) buf)) + push_bit (7 * i) 0x80 :: 'a::len word)"
proof -
  have "(2 :: 'a word) ^ (7 * i) = 128 ^ i"
    by (simp add: power_mult)
  with assms show ?thesis
    by (simp add: varint_value_take_Suc push_bit_eq_mult ucast_continuing algebra_simps)
qed

lemma discard_loop_Some:
  "ptr \<le> m \<Longrightarrow> m < ptr + k \<Longrightarrow> m < length buf \<Longrightarrow> \<forall>l. ptr \<le> l \<and> l < m \<longrightarrow> 128 \<le> unat (buf ! l) \<Longrightarrow>
   unat (buf ! m) < 128 \<Longrightarrow> discard_loop buf k ptr = Inr (Some (m + 1))"
proof (induction k arbitrary: ptr)
  case (Suc k)
  show ?case
  proof (cases "ptr = m")
    case False
    with Suc.prems have "discard_loop buf k (Suc ptr) = Inr (Some (m + 1))"
      by (intro Suc.IH) auto
    moreover have "\<not> unat (buf ! ptr) < 128"
      using False Suc.prems by (auto simp: not_less)
    ultimately show ?thesis
      using Suc.prems False by (simp add: mem_at_def byte_continues)
  qed (use Suc.prems in \<open>simp add: mem_at_def byte_continues\<close>)
qed simp

lemma discard_loop_None:
  "ptr + k \<le> length buf \<Longrightarrow> \<forall>l. ptr \<le> l \<and> l < ptr + k \<longrightarrow> 128 \<le> unat (buf ! l) \<Longrightarrow> discard_loop buf k ptr = Inr None"
proof (induction k arbitrary: ptr)
  case (Suc k)
  then have "discard_loop buf k (Suc ptr) = Inr None" and "\<not> unat (buf ! ptr) < 128"
    by (auto simp: not_less)
  with Suc.prems(1) show ?case
    by (simp add: mem_at_def byte_continues)
qed simp

lemma value_u32_take_5: "5 \<le> n \<Longrightarrow> (of_nat (varint_value (take n buf)) :: u32) = of_nat (varint_value (take 5 buf))"
proof (cases "5 \<le> length buf")
  case True
  assume "5 \<le> n"
  then have "take n buf = take 5 buf @ drop 5 (take n buf)"
    by (metis append_take_drop_id min.absorb1 take_take)
  then have "varint_value (take n buf) = varint_value (take 5 buf) + 128 ^ 5 * varint_value (drop 5 (take n buf))"
    using True by (metis length_take min.absorb2 varint_value_append)
  moreover have "(128 :: u32) ^ 5 = 0"
    by simp
  ultimately show ?thesis
    by (simp only: of_nat_add of_nat_mult of_nat_power of_nat_numeral mult_zero_left add_0_right)
qed simp

lemma first_byte_value:
  "0 < length buf \<Longrightarrow> 128 \<le> unat (buf ! 0) \<Longrightarrow> ucast (buf ! 0) - 0x80 = (of_nat (varint_value (take 1 buf)) :: 'a::len word)"
  using add_continued_byte [of 0 buf, where ?'a = 'a] by (simp add: diff_eq_eq)


lemma ReadVarint32FromArray_chain:
  assumes "5 \<le> length buf" and "\<forall>i<4. 128 \<le> unat (buf ! i)"
  shows "ReadVarint32FromArray (ucast (buf ! 0)) buf =
    (if unat (buf ! 4) < 128 then Inr (Some (of_nat (varint_value (take 5 buf)), 5))
     else and_then (discard_loop buf 5 5) (\<lambda>r.
       Inr (map_option (\<lambda>n. (of_nat (varint_value (take 5 buf)), n)) r)))"
proof -
  have c: "128 \<le> unat (buf ! 0)" "\<not> unat (buf ! 1) < 128" "\<not> unat (buf ! 2) < 128" "\<not> unat (buf ! 3) < 128"
    using assms(2) by (auto simp: not_less)
  have s0: "(ucast (buf ! 0) :: u32) - 0x80 = of_nat (varint_value (take 1 buf))"
    using assms c by (intro first_byte_value) auto
  have s1: "of_nat (varint_value (take 1 buf)) + push_bit 7 (ucast (buf ! 1)) - push_bit 7 0x80 = (of_nat (varint_value (take 2 buf)) :: u32)"
    using add_continued_byte [of 1 buf, where ?'a = 32] assms c by (simp add: not_less numeral_2_eq_2)
  have s2: "of_nat (varint_value (take 2 buf)) + push_bit 14 (ucast (buf ! 2)) - push_bit 14 0x80 = (of_nat (varint_value (take 3 buf)) :: u32)"
    using add_continued_byte [of 2 buf, where ?'a = 32] assms c by (simp add: not_less numeral_3_eq_3)
  have s3: "of_nat (varint_value (take 3 buf)) + push_bit 21 (ucast (buf ! 3)) - push_bit 21 0x80 = (of_nat (varint_value (take 4 buf)) :: u32)"
    using add_continued_byte [of 3 buf, where ?'a = 32] assms c by (simp add: not_less)
  have s4: "of_nat (varint_value (take 4 buf)) + push_bit 28 (ucast (buf ! 4)) = (of_nat (varint_value (take 5 buf)) :: u32)"
  proof (cases "unat (buf ! 4) < 128")
    case True
    then show ?thesis
      using add_final_byte [of 4 buf, where ?'a = 32] assms by simp
  next
    case False
    then show ?thesis
      using add_continued_byte [of 4 buf, where ?'a = 32] assms by simp
  qed
  show ?thesis
    unfolding ReadVarint32FromArray_def Let_def s0 
    using assms(1) c
    by (simp only: mem_at_def byte_continues kMaxVarintBytes_def kMaxVarint32Bytes_def)
       (simp del: push_bit_numeral add: s1 [unfolded One_nat_def] s2 s3 s4)
qed


lemma ReadVarint32FromArray_short:
  assumes "varint_len 10 buf = Some n" and "2 \<le> n" and "n \<le> 4"
  shows "ReadVarint32FromArray (ucast (buf ! 0)) buf = Inr (Some (of_nat (varint_value (take n buf)), n))"
proof -
  have l: "n \<le> length buf" and c: "\<And>i. i < n - 1 \<Longrightarrow> \<not> unat (buf ! i) < 128" and f: "unat (buf ! (n - 1)) < 128"
    using assms by (auto simp: varint_len_at not_less)
  have s0: "(ucast (buf ! 0) :: u32) - 0x80 = of_nat (varint_value (take 1 buf))"
    using assms l c [of 0] by (intro first_byte_value) auto
  have s1: "of_nat (varint_value (take 1 buf)) + push_bit 7 (ucast (buf ! 1)) - push_bit 7 0x80 = (of_nat (varint_value (take 2 buf)) :: u32)" if "3 \<le> n"
    using add_continued_byte [of 1 buf, where ?'a = 32] assms c [of 1] l that by (simp add: not_less numeral_2_eq_2)
  have s2: "of_nat (varint_value (take 2 buf)) + push_bit 14 (ucast (buf ! 2)) - push_bit 14 0x80 = (of_nat (varint_value (take 3 buf)) :: u32)" if "4 \<le> n"
    using add_continued_byte [of 2 buf, where ?'a = 32] assms c [of 2] l that by (simp add: not_less numeral_3_eq_3)
  have fin: "of_nat (varint_value (take (n - 1) buf)) + push_bit (7 * (n - 1)) (ucast (buf ! (n - 1))) = (of_nat (varint_value (take n buf)) :: u32)"
    using add_final_byte [of "n - 1" buf, where ?'a = 32] assms l f by simp
  consider "n = 2" | "n = 3" | "n = 4"
    using assms by linarith
  then show ?thesis
  proof cases
    case 1
    then show ?thesis
      unfolding ReadVarint32FromArray_def Let_def s0
      using l f fin by (simp add: mem_at_def byte_continues)
  next
    case 2
    then show ?thesis
      unfolding ReadVarint32FromArray_def Let_def s0
      using l f fin c [of 1] s1 by (simp add: mem_at_def byte_continues)
  next
    case 3
    then show ?thesis
      unfolding ReadVarint32FromArray_def Let_def s0
      using l f fin c [of 1] c [of 2] s1 s2 by (simp add: mem_at_def byte_continues)
  qed
qed

lemma ReadVarint32FromArray_Some:
  assumes "varint_len 10 buf = Some n" and "2 \<le> n"
  shows "ReadVarint32FromArray (ucast (buf ! 0)) buf = Inr (Some (of_nat (varint_value (take n buf)), n))"
proof (cases "n \<le> 4")
  case True
  with assms show ?thesis
    by (intro ReadVarint32FromArray_short)
next
  case False
  then have l: "n \<le> length buf" "n \<le> 10" and c: "\<forall>i < n - 1. 128 \<le> unat (buf ! i)" and f: "unat (buf ! (n - 1)) < 128"
    using assms by (auto simp: varint_len_at)
  have chain: "ReadVarint32FromArray (ucast (buf ! 0)) buf =
    (if unat (buf ! 4) < 128 then Inr (Some (of_nat (varint_value (take 5 buf)), 5))
     else and_then (discard_loop buf 5 5) (\<lambda>r.
       Inr (map_option (\<lambda>n. (of_nat (varint_value (take 5 buf)), n)) r)))"
    using False l c by (intro ReadVarint32FromArray_chain) auto
  show ?thesis
  proof (cases "n = 5")
    case True
    then show ?thesis
      using f chain by simp
  next
    case ne: False
    have "\<not> unat (buf ! 4) < 128"
      using c ne False by (auto simp: not_less)
    moreover have "discard_loop buf 5 5 = Inr (Some (n - 1 + 1))"
      using False ne l c f by (intro discard_loop_Some) auto
    ultimately show ?thesis
      using chain False value_u32_take_5 [of n buf] by simp
  qed
qed

lemma ReadVarint32FromArray_None:
  assumes "varint_len 10 buf = None" and "10 \<le> length buf"
  shows "ReadVarint32FromArray (ucast (buf ! 0)) buf = Inr None"
proof -
  have c: "\<forall>i<10. 128 \<le> unat (buf ! i)"
    using assms by (simp add: varint_len_None)
  then have "\<not> unat (buf ! 4) < 128" and "discard_loop buf 5 5 = Inr None"
    using assms by (auto simp: not_less intro!: discard_loop_None)
  with c assms show ?thesis
    by (subst ReadVarint32FromArray_chain) auto
qed

section \<open>What the writers write is read back\<close>

lemma varint_bytes_len: "n < 2 ^ (7 * k) \<Longrightarrow> 0 < k \<Longrightarrow>
    varint_len k (varint_bytes n @ rest) = Some (length (varint_bytes n)) \<and> varint_value (varint_bytes n) = n"
proof (induction k arbitrary: n)
  case (Suc k)
  show ?case
  proof (cases "n < 128")
    case True
    then show ?thesis
      by (simp add: varint_bytes.simps [of n] unat_of_nat take_bit_eq_mod unsigned_of_nat)
  next
    case False
    then have k: "0 < k"
      using Suc.prems(1) by (cases k) auto
    have "n div 128 < 2 ^ (7 * k)"
      using Suc.prems(1) by (simp add: less_mult_imp_div_less power_add mult.commute)
    from Suc.IH [OF this k] have ih: "varint_len k (varint_bytes (n div 128) @ rest) = Some (length (varint_bytes (n div 128)))"
      "varint_value (varint_bytes (n div 128)) = n div 128"
      by auto
    have b: "unat (of_nat (n mod 128 + 128) :: u8) = n mod 128 + 128"
      using mod_less_divisor [of 128 n] by (simp only: unat_of_nat) simp
    from False have "varint_bytes n = of_nat (n mod 128 + 128) # varint_bytes (n div 128)"
      by (simp only: varint_bytes.simps [of n] if_False)
    then show ?thesis
      by (simp del: of_nat_add add: ih b)
  qed
qed simp


section \<open>Zigzag and tags\<close>

lemma zigzag_mask: "NOT (n AND 1) + 1 = (if bit n 0 then - 1 else 0 :: 'a::len word)"
  by (simp add: and_one_eq bit_0 odd_iff_mod_2_eq_one even_iff_mod_2_eq_zero)

lemma bit_ZigZagEncode32: "i < 32 \<Longrightarrow> bit (ZigZagEncode32 n) i \<longleftrightarrow> (if i = 0 then bit n 31 else bit n (i - 1) \<noteq> bit n 31)"
  by (simp only: ZigZagEncode32_def bit_xor_iff bit_push_bit_iff bit_signed_drop_bit_iff) (auto simp: min_def not_le dest: bit_imp_le_length)

lemma bit_ZigZagDecode32: "i < 32 \<Longrightarrow> bit (ZigZagDecode32 m) i \<longleftrightarrow> (bit m (Suc i) \<noteq> bit m 0)"
  by (simp only: ZigZagDecode32_def zigzag_mask bit_xor_iff bit_drop_bit_eq comp_apply) auto

lemma bit_ZigZagEncode64: "i < 64 \<Longrightarrow> bit (ZigZagEncode64 n) i \<longleftrightarrow> (if i = 0 then bit n 63 else bit n (i - 1) \<noteq> bit n 63)"
  by (simp only: ZigZagEncode64_def bit_xor_iff bit_push_bit_iff bit_signed_drop_bit_iff) (auto simp: min_def not_le dest: bit_imp_le_length)

lemma bit_ZigZagDecode64: "i < 64 \<Longrightarrow> bit (ZigZagDecode64 m) i \<longleftrightarrow> (bit m (Suc i) \<noteq> bit m 0)"
  by (simp only: ZigZagDecode64_def zigzag_mask bit_xor_iff bit_drop_bit_eq comp_apply) auto

lemma bit_outside: "LENGTH('a) \<le> i \<Longrightarrow> \<not> bit (x :: 'a::len word) i"
  by (auto dest: bit_imp_le_length)

lemma word_bits_eqI: "(\<And>i. i < LENGTH('a) \<Longrightarrow> bit x i = bit y i) \<Longrightarrow> x = (y :: 'a::len word)"
  by (auto intro!: bit_word_eqI)

lemma zigzag_32: "ZigZagDecode32 (ZigZagEncode32 n) = n" "ZigZagEncode32 (ZigZagDecode32 m) = m"
proof -
  show "ZigZagDecode32 (ZigZagEncode32 n) = n"
  proof (rule word_bits_eqI)
    fix i assume "i < LENGTH(32)"
    then show "bit (ZigZagDecode32 (ZigZagEncode32 n)) i = bit n i"
      by (cases i "31 :: nat" rule: linorder_cases) (auto simp: bit_ZigZagDecode32 bit_ZigZagEncode32 bit_outside)
  qed
  show "ZigZagEncode32 (ZigZagDecode32 m) = m"
  proof (rule word_bits_eqI)
    fix i assume "i < LENGTH(32)"
    then show "bit (ZigZagEncode32 (ZigZagDecode32 m)) i = bit m i"
      by (cases i) (auto simp: bit_ZigZagDecode32 bit_ZigZagEncode32 bit_outside)
  qed
qed

lemma zigzag_64: "ZigZagDecode64 (ZigZagEncode64 n) = n" "ZigZagEncode64 (ZigZagDecode64 m) = m"
proof -
  show "ZigZagDecode64 (ZigZagEncode64 n) = n"
  proof (rule word_bits_eqI)
    fix i assume "i < LENGTH(64)"
    then show "bit (ZigZagDecode64 (ZigZagEncode64 n)) i = bit n i"
      by (cases i "63 :: nat" rule: linorder_cases) (auto simp: bit_ZigZagDecode64 bit_ZigZagEncode64 bit_outside)
  qed
  show "ZigZagEncode64 (ZigZagDecode64 m) = m"
  proof (rule word_bits_eqI)
    fix i assume "i < LENGTH(64)"
    then show "bit (ZigZagEncode64 (ZigZagDecode64 m)) i = bit m i"
      by (cases i) (auto simp: bit_ZigZagDecode64 bit_ZigZagEncode64 bit_outside)
  qed
qed

lemma ucast_of_nat_u64: "ucast (of_nat x :: u64) = (of_nat x :: u32)"
proof -
  have "(of_nat (take_bit 64 x) :: u32) = of_nat x"
    by (simp only: word_of_nat_eq_iff) simp
  moreover have "unat (of_nat x :: u64) = take_bit 64 x"
    by (simp add: unsigned_of_nat)
  ultimately show ?thesis
    using of_nat_unat [of "of_nat x :: u64", where ?'a = "32 word"] by simp
qed

section \<open>Properties\<close>

text \<open>All writers of varints produce the same bytes: the size writer and the out-of-line writer
  agree with \<open>UnsafeVarint\<close>, and the computed sizes are the numbers of bytes written, at most
  five for 32 and ten for 64 bits. The portable scan for the highest bit, with which the sizes are
  computed where the compiler has no instruction for it, finds that bit.\<close>

theorem varint_writers_agree:
  "UnsafeWriteSize v = UnsafeVarint v \<and> WriteVarint32ToArrayOutOfLine v = UnsafeVarint v \<and>
   VarintSize32 v = length (UnsafeVarint v) \<and> VarintSize32 v \<le> 5 \<and>
   VarintSize64 w = length (UnsafeVarint w) \<and> VarintSize64 w \<le> 10 \<and>
   Log2FloorNonZero_Portable (v OR 1) = int (bit_scan_reverse (unat (v OR 1)))"
proof -
  have "bit (v OR 1) 0"
    by (simp add: bit_or_iff)
  then have "v OR 1 \<noteq> 0"
    by (metis bit_0_eq bot_apply bot_bool_def)
  then have portable: "Log2FloorNonZero_Portable (v OR 1) = int (bit_scan_reverse (unat (v OR 1)))"
    by (rule Log2FloorNonZero_Portable_eq)
  have "bit_scan_reverse (unat v) < 32" "bit_scan_reverse (unat w) < 64"
    by (rule bit_scan_reverse_width, use unsigned_less [of v] in simp, simp,
        rule bit_scan_reverse_width, use unsigned_less [of w] in simp, simp)
  then have "bit_scan_reverse (unat v) div 7 \<le> 4" "bit_scan_reverse (unat w) div 7 \<le> 9"
    by linarith+
  with portable show ?thesis
    by (simp add: UnsafeVarint_bytes UnsafeWriteSize_bytes OutOfLine_bytes VarintSize32_length VarintSize64_length
        length_varint_bytes_all)
qed

text \<open>The unrolled 32-bit decoder and the 64-bit decoder take the same bytes of any memory that
  holds ten bytes and starts with a continued one, reject the same memory, and the 32-bit result
  is the lower half of the 64-bit one.\<close>

theorem decoders_agree:
  assumes "10 \<le> length buf" and "128 \<le> unat (buf ! 0)"
  shows "ReadVarint32FromArray (ucast (buf ! 0)) buf =
    and_then (ReadVarint64FromArray buf) (\<lambda>r. Inr (map_option (\<lambda>(value, n). (ucast value, n)) r))"
proof (cases "varint_len 10 buf")
  case None
  with assms show ?thesis
    by (simp add: ReadVarint32FromArray_None ReadVarint64FromArray_None)
next
  case (Some n)
  moreover have "n \<noteq> 1" "0 < n"
    using Some assms(2) by (auto simp: varint_len_at)
  ultimately show ?thesis
    by (simp add: ReadVarint32FromArray_Some ReadVarint64FromArray_Some ucast_of_nat_u64)
qed

lemma decoders_agree_witness:
  "let buf = [0xFF, 0xFF, 0xFF, 0xFF, 0xFF, 0x01, 0, 0, 0, 0] :: u8 list in
   10 \<le> length buf \<and> 128 \<le> unat (buf ! 0) \<and>
   and_then (ReadVarint64FromArray buf) (\<lambda>r. Inr (map_option (\<lambda>(value, n). (ucast value, n)) r)) =
   ReadVarint32FromArray (ucast (buf ! 0)) buf"
  using decoders_agree [of "[0xFF, 0xFF, 0xFF, 0xFF, 0xFF, 0x01, 0, 0, 0, 0]"] by (simp add: Let_def)

text \<open>Zigzag encoding and decoding are inverse to each other in both directions and widths.\<close>

theorem zigzag_inverse:
  "ZigZagDecode32 (ZigZagEncode32 n) = n \<and> ZigZagEncode32 (ZigZagDecode32 m) = m \<and>
   ZigZagDecode64 (ZigZagEncode64 p) = p \<and> ZigZagEncode64 (ZigZagDecode64 q) = q"
  by (simp add: zigzag_32 zigzag_64)

end
