(* ===== verification/Pb_Coded_Input.thy ===== *)
theory Pb_Coded_Input
  imports Pb_Stream Pb_Varint
begin

text \<open>
  \<open>CodedInputStream\<close> (Headers/google/protobuf/io/coded_stream.h, io/coded_stream.cc): the reader
  of the wire format over a \<open>ZeroCopyInputStream\<close> or over a flat array. Pointers into the
  current block are offsets into its bytes. The checks \<open>GOOGLE_DCHECK\<close> of debug builds of the
  library and the log messages are left out. A loop that would not end is a call without defined
  behaviour; that no loop does so is part of the theorems, whose abstract state is the sequence
  of bytes that may still be read before the closest limit.
\<close>

section \<open>State\<close>

record 's coded_input =
  block :: "u8 list"
  buffer :: int
  buffer_end :: int
  source :: "'s option"
  total_bytes_read :: int
  overflow_bytes :: int
  last_tag :: u32
  legitimate_message_end :: bool
  current_limit :: int
  buffer_size_after_limit :: int
  total_bytes_limit :: int
  recursion_budget :: int
  recursion_limit :: int

definition BufferSize :: "'s coded_input \<Rightarrow> int" where
  "BufferSize s = buffer_end s - buffer s"

definition CurrentPosition :: "'s coded_input \<Rightarrow> int" where
  "CurrentPosition s = total_bytes_read s - (BufferSize s + buffer_size_after_limit s)"

definition Advance :: "int \<Rightarrow> 's coded_input \<Rightarrow> 's coded_input" where
  "Advance amount s = s\<lparr>buffer := buffer s + amount\<rparr>"

definition closest_limit :: "'s coded_input \<Rightarrow> int" where
  "closest_limit s = min (current_limit s) (total_bytes_limit s)"

text \<open>The bytes between the two pointers, and a \<open>memcpy\<close> or a dereference at \<open>buffer_\<close>.\<close>

definition buffer_bytes :: "int \<Rightarrow> 's coded_input \<Rightarrow> u8 list outcome" where
  "buffer_bytes n s =
     (if 0 \<le> n \<and> 0 \<le> buffer s \<and> buffer s + n \<le> int (length (block s))
      then Inr (take (nat n) (drop (nat (buffer s)) (block s)))
      else Inl (Undefined ''read outside of the buffer''))"

definition byte_at :: "int \<Rightarrow> 's coded_input \<Rightarrow> u8 outcome" where
  "byte_at i s =
     (if 0 \<le> buffer s + i \<and> buffer s + i < int (length (block s)) then Inr (block s ! nat (buffer s + i))
      else Inl (Undefined ''read outside of the buffer''))"

section \<open>Limits\<close>

definition RecomputeBufferLimits :: "'s coded_input \<Rightarrow> 's coded_input" where
  "RecomputeBufferLimits s =
     (let s = s\<lparr>buffer_end := buffer_end s + buffer_size_after_limit s\<rparr> in
      if closest_limit s < total_bytes_read s
      then let after = total_bytes_read s - closest_limit s in
           s\<lparr>buffer_size_after_limit := after, buffer_end := buffer_end s - after\<rparr>
      else s\<lparr>buffer_size_after_limit := 0\<rparr>)"

definition PushLimit :: "int \<Rightarrow> 's coded_input \<Rightarrow> int \<times> 's coded_input" where
  "PushLimit byte_limit s =
     (let current_position = CurrentPosition s; old_limit = current_limit s in
      (old_limit,
       if 0 \<le> byte_limit \<and> byte_limit \<le> INT_MAX - current_position \<and> byte_limit < current_limit s - current_position
       then RecomputeBufferLimits (s\<lparr>current_limit := current_position + byte_limit\<rparr>) else s))"

definition PopLimit :: "int \<Rightarrow> 's coded_input \<Rightarrow> 's coded_input" where
  "PopLimit limit s =
     (RecomputeBufferLimits (s\<lparr>current_limit := limit\<rparr>))\<lparr>legitimate_message_end := False\<rparr>"

definition IncrementRecursionDepthAndPushLimit :: "int \<Rightarrow> 's coded_input \<Rightarrow> (int \<times> int) \<times> 's coded_input" where
  "IncrementRecursionDepthAndPushLimit byte_limit s =
     (let (old, s) = PushLimit byte_limit s; s = s\<lparr>recursion_budget := recursion_budget s - 1\<rparr> in
      ((old, recursion_budget s), s))"

definition ConsumedEntireMessage :: "'s coded_input \<Rightarrow> bool" where
  "ConsumedEntireMessage s = legitimate_message_end s"

definition DecrementRecursionDepthAndPopLimit :: "int \<Rightarrow> 's coded_input \<Rightarrow> bool \<times> 's coded_input" where
  "DecrementRecursionDepthAndPopLimit limit s =
     (let result = ConsumedEntireMessage s; s = PopLimit limit s in
      (result, s\<lparr>recursion_budget := recursion_budget s + 1\<rparr>))"

definition CheckEntireMessageConsumedAndPopLimit :: "int \<Rightarrow> 's coded_input \<Rightarrow> bool \<times> 's coded_input" where
  "CheckEntireMessageConsumedAndPopLimit limit s = (ConsumedEntireMessage s, PopLimit limit s)"

definition BytesUntilLimit :: "'s coded_input \<Rightarrow> int" where
  "BytesUntilLimit s = (if current_limit s = INT_MAX then - 1 else current_limit s - CurrentPosition s)"

definition SetTotalBytesLimit :: "int \<Rightarrow> 's coded_input \<Rightarrow> 's coded_input" where
  "SetTotalBytesLimit limit s = RecomputeBufferLimits (s\<lparr>total_bytes_limit := max (CurrentPosition s) limit\<rparr>)"

definition BytesUntilTotalBytesLimit :: "'s coded_input \<Rightarrow> int" where
  "BytesUntilTotalBytesLimit s = (if total_bytes_limit s = INT_MAX then - 1 else total_bytes_limit s - CurrentPosition s)"

definition SetRecursionLimit :: "int \<Rightarrow> 's coded_input \<Rightarrow> 's coded_input" where
  "SetRecursionLimit limit s =
     s\<lparr>recursion_budget := recursion_budget s + (limit - recursion_limit s), recursion_limit := limit\<rparr>"

definition IncrementRecursionDepth :: "'s coded_input \<Rightarrow> bool \<times> 's coded_input" where
  "IncrementRecursionDepth s =
     (let s = s\<lparr>recursion_budget := recursion_budget s - 1\<rparr> in (0 \<le> recursion_budget s, s))"

definition DecrementRecursionDepth :: "'s coded_input \<Rightarrow> 's coded_input" where
  "DecrementRecursionDepth s =
     (if recursion_budget s < recursion_limit s then s\<lparr>recursion_budget := recursion_budget s + 1\<rparr> else s)"

section \<open>Getting the next block\<close>

partial_function (option) NextNonEmpty :: "'s input_class \<Rightarrow> 's \<Rightarrow> (u8 list option \<times> 's) outcome option" where
  "NextNonEmpty vt i =
     (case Next_of vt i of
        Inl e \<Rightarrow> Some (Inl e)
      | Inr (r, i) \<Rightarrow> if r = Some [] then NextNonEmpty vt i else Some (Inr (r, i)))"

declare NextNonEmpty.simps [code]

definition Refresh :: "'s input_class \<Rightarrow> 's coded_input \<Rightarrow> (bool \<times> 's coded_input) outcome" where
  "Refresh vt s =
     (if 0 < buffer_size_after_limit s \<or> 0 < overflow_bytes s \<or> total_bytes_read s = current_limit s
      then Inr (False, s)
      else case source s of
        None \<Rightarrow> Inl (Undefined ''input_ is null'')
      | Some i \<Rightarrow>
          and_then (returns (NextNonEmpty vt i)) (\<lambda>(r, i). case r of
            Some blk \<Rightarrow>
              let n = int (length blk);
                  s = s\<lparr>source := Some i, block := blk, buffer := 0, buffer_end := n\<rparr>;
                  s = (if total_bytes_read s \<le> INT_MAX - n then s\<lparr>total_bytes_read := total_bytes_read s + n\<rparr>
                       else let overflow = total_bytes_read s - (INT_MAX - n) in
                            s\<lparr>overflow_bytes := overflow, buffer_end := buffer_end s - overflow, total_bytes_read := INT_MAX\<rparr>)
              in Inr (True, RecomputeBufferLimits s)
          | None \<Rightarrow> Inr (False, s\<lparr>source := Some i, block := [], buffer := 0, buffer_end := 0\<rparr>)))"

definition CodedInputStream :: "'s input_class \<Rightarrow> 's \<Rightarrow> 's coded_input outcome" where
  "CodedInputStream vt i =
     and_then (Refresh vt
       \<lparr>block = [], buffer = 0, buffer_end = 0, source = Some i, total_bytes_read = 0, overflow_bytes = 0,
        last_tag = 0, legitimate_message_end = False, current_limit = INT_MAX, buffer_size_after_limit = 0,
        total_bytes_limit = INT_MAX, recursion_budget = 100, recursion_limit = 100\<rparr>) (\<lambda>(_, s). Inr s)"

definition CodedInputStream_flat :: "u8 list \<Rightarrow> 's coded_input" where
  "CodedInputStream_flat bytes =
     \<lparr>block = bytes, buffer = 0, buffer_end = int (length bytes), source = None, total_bytes_read = int (length bytes),
      overflow_bytes = 0, last_tag = 0, legitimate_message_end = False, current_limit = int (length bytes),
      buffer_size_after_limit = 0, total_bytes_limit = INT_MAX, recursion_budget = 100, recursion_limit = 100\<rparr>"

definition BackUpInputToCurrentPosition :: "'s input_class \<Rightarrow> 's coded_input \<Rightarrow> 's coded_input outcome" where
  "BackUpInputToCurrentPosition vt s =
     (let backup_bytes = BufferSize s + buffer_size_after_limit s + overflow_bytes s in
      if 0 < backup_bytes then
        case source s of None \<Rightarrow> Inl (Undefined ''input_ is null'')
        | Some i \<Rightarrow> and_then (BackUp_of vt backup_bytes i) (\<lambda>i.
            Inr (s\<lparr>source := Some i, total_bytes_read := total_bytes_read s - (BufferSize s + buffer_size_after_limit s),
                   buffer_end := buffer s, buffer_size_after_limit := 0, overflow_bytes := 0\<rparr>))
      else Inr s)"

definition destroy :: "'s input_class \<Rightarrow> 's coded_input \<Rightarrow> 's coded_input outcome" where
  "destroy vt s = (if source s \<noteq> None then BackUpInputToCurrentPosition vt s else Inr s)"

section \<open>Raw bytes\<close>

text \<open>\<open>ReadRaw\<close>; \<open>out\<close> holds the bytes copied so far. The loop of \<open>ReadStringFallback\<close> is the same,
  with \<open>append\<close> for \<open>memcpy\<close>.\<close>

partial_function (option) ReadRaw_loop ::
  "'s input_class \<Rightarrow> int \<Rightarrow> u8 list \<Rightarrow> 's coded_input \<Rightarrow> ((bool \<times> u8 list) \<times> 's coded_input) outcome option" where
  "ReadRaw_loop vt n out s =
     (if BufferSize s < n
      then case buffer_bytes (BufferSize s) s of
             Inl e \<Rightarrow> Some (Inl e)
           | Inr bytes \<Rightarrow>
               (case Refresh vt (Advance (BufferSize s) s) of
                  Inl e \<Rightarrow> Some (Inl e)
                | Inr (ok, s') \<Rightarrow>
                    if ok then ReadRaw_loop vt (n - BufferSize s) (out @ bytes) s' else Some (Inr ((False, out @ bytes), s')))
      else case buffer_bytes n s of
             Inl e \<Rightarrow> Some (Inl e)
           | Inr bytes \<Rightarrow> Some (Inr ((True, out @ bytes), Advance n s)))"

declare ReadRaw_loop.simps [code]

definition ReadRaw :: "'s input_class \<Rightarrow> int \<Rightarrow> 's coded_input \<Rightarrow> ((bool \<times> u8 list) \<times> 's coded_input) outcome" where
  "ReadRaw vt n s = returns (ReadRaw_loop vt n [] s)"

definition ReadString :: "'s input_class \<Rightarrow> int \<Rightarrow> 's coded_input \<Rightarrow> ((bool \<times> u8 list) \<times> 's coded_input) outcome" where
  "ReadString vt n s =
     (if n < 0 then Inr ((False, []), s)
      else if n \<le> BufferSize s then and_then (buffer_bytes n s) (\<lambda>bytes. Inr ((True, bytes), Advance n s))
      else ReadRaw vt n s)"

definition GetDirectBufferPointer :: "'s input_class \<Rightarrow> 's coded_input \<Rightarrow> (u8 list option \<times> 's coded_input) outcome" where
  "GetDirectBufferPointer vt s =
     and_then (if BufferSize s = 0 then Refresh vt s else Inr (True, s)) (\<lambda>(ok, s).
       if \<not> ok then Inr (None, s)
       else and_then (buffer_bytes (BufferSize s) s) (\<lambda>bytes. Inr (Some bytes, s)))"

definition SkipFallback :: "'s input_class \<Rightarrow> int \<Rightarrow> int \<Rightarrow> 's coded_input \<Rightarrow> (bool \<times> 's coded_input) outcome" where
  "SkipFallback vt count original_buffer_size s =
     (if 0 < buffer_size_after_limit s then Inr (False, Advance original_buffer_size s)
      else
        let count = count - original_buffer_size;
            s = s\<lparr>block := [], buffer := 0, buffer_end := 0\<rparr>;
            bytes_until_limit = closest_limit s - total_bytes_read s
        in if bytes_until_limit < count
           then if 0 < bytes_until_limit
                then case source s of None \<Rightarrow> Inl (Undefined ''input_ is null'')
                     | Some i \<Rightarrow> and_then (Skip_of vt bytes_until_limit i) (\<lambda>(_, i).
                         Inr (False, s\<lparr>total_bytes_read := closest_limit s, source := Some i\<rparr>))
                else Inr (False, s)
           else case source s of None \<Rightarrow> Inl (Undefined ''input_ is null'')
                | Some i \<Rightarrow> and_then (Skip_of vt count i) (\<lambda>(ok, i).
                    if \<not> ok then Inr (False, s\<lparr>total_bytes_read := ByteCount_of vt i, source := Some i\<rparr>)
                    else Inr (True, s\<lparr>total_bytes_read := total_bytes_read s + count, source := Some i\<rparr>)))"

definition Skip :: "'s input_class \<Rightarrow> int \<Rightarrow> 's coded_input \<Rightarrow> (bool \<times> 's coded_input) outcome" where
  "Skip vt count s =
     (if count < 0 then Inr (False, s)
      else if count \<le> BufferSize s then Inr (True, Advance count s)
      else SkipFallback vt count (BufferSize s) s)"

definition ReadLittleEndian32 :: "'s input_class \<Rightarrow> 's coded_input \<Rightarrow> (u32 option \<times> 's coded_input) outcome" where
  "ReadLittleEndian32 vt s =
     (if 4 \<le> BufferSize s then and_then (buffer_bytes 4 s) (\<lambda>bytes. Inr (Some (little_endian bytes), Advance 4 s))
      else and_then (ReadRaw vt 4 s) (\<lambda>((ok, bytes), s). Inr (if ok then Some (little_endian bytes) else None, s)))"

definition ReadLittleEndian64 :: "'s input_class \<Rightarrow> 's coded_input \<Rightarrow> (u64 option \<times> 's coded_input) outcome" where
  "ReadLittleEndian64 vt s =
     (if 8 \<le> BufferSize s then and_then (buffer_bytes 8 s) (\<lambda>bytes. Inr (Some (little_endian bytes), Advance 8 s))
      else and_then (ReadRaw vt 8 s) (\<lambda>((ok, bytes), s). Inr (if ok then Some (little_endian bytes) else None, s)))"

section \<open>Varints\<close>

text \<open>The memory the array decoders may read, and the test for using them: ten bytes are there, or
  the last byte before \<open>buffer_end_\<close> ends a varint.\<close>

definition memory :: "'s coded_input \<Rightarrow> u8 list" where
  "memory s = (if 0 \<le> buffer s then drop (nat (buffer s)) (block s) else [])"

definition array_read_is_safe :: "'s coded_input \<Rightarrow> bool outcome" where
  "array_read_is_safe s =
     (if int kMaxVarintBytes \<le> BufferSize s then Inr True
      else if 0 < BufferSize s then and_then (byte_at (BufferSize s - 1) s) (\<lambda>b. Inr (b AND 0x80 = 0))
      else Inr False)"

text \<open>\<open>while (buffer_ == buffer_end_) if (!Refresh()) return false\<close>\<close>

partial_function (option) fill :: "'s input_class \<Rightarrow> 's coded_input \<Rightarrow> (bool \<times> 's coded_input) outcome option" where
  "fill vt s =
     (if buffer s = buffer_end s
      then case Refresh vt s of
             Inl e \<Rightarrow> Some (Inl e)
           | Inr (ok, s) \<Rightarrow> if ok then fill vt s else Some (Inr (False, s))
      else Some (Inr (True, s)))"

declare fill.simps [code]

text \<open>\<open>left\<close> is \<open>kMaxVarintBytes - count\<close>.\<close>

fun varint64_slow_loop :: "'s input_class \<Rightarrow> nat \<Rightarrow> nat \<Rightarrow> u64 \<Rightarrow> 's coded_input \<Rightarrow> (u64 option \<times> 's coded_input) outcome" where
  "varint64_slow_loop vt 0 count result s = Inr (None, s)"
| "varint64_slow_loop vt (Suc left) count result s =
     and_then (returns (fill vt s)) (\<lambda>(ok, s).
       if \<not> ok then Inr (None, s)
       else and_then (byte_at 0 s) (\<lambda>b.
         let result = result OR push_bit (7 * count) (ucast (b AND 0x7F));
             s = Advance 1 s
         in if b AND 0x80 \<noteq> 0 then varint64_slow_loop vt left (count + 1) result s else Inr (Some result, s)))"

definition ReadVarint64Slow :: "'s input_class \<Rightarrow> 's coded_input \<Rightarrow> (u64 option \<times> 's coded_input) outcome" where
  "ReadVarint64Slow vt s = varint64_slow_loop vt kMaxVarintBytes 0 0 s"

definition ReadVarint64Fallback :: "'s input_class \<Rightarrow> 's coded_input \<Rightarrow> (u64 option \<times> 's coded_input) outcome" where
  "ReadVarint64Fallback vt s =
     and_then (array_read_is_safe s) (\<lambda>safe.
       if safe then and_then (ReadVarint64FromArray (memory s)) (\<lambda>r. case r of
            None \<Rightarrow> Inr (None, s)
          | Some (value, n) \<Rightarrow> Inr (Some value, Advance (int n) s))
       else ReadVarint64Slow vt s)"

definition ReadVarint64 :: "'s input_class \<Rightarrow> 's coded_input \<Rightarrow> (u64 option \<times> 's coded_input) outcome" where
  "ReadVarint64 vt s =
     (if 0 < BufferSize s
      then and_then (byte_at 0 s) (\<lambda>b.
        if unat b < 0x80 then Inr (Some (ucast b), Advance 1 s) else ReadVarint64Fallback vt s)
      else ReadVarint64Fallback vt s)"

definition ReadVarint32Slow :: "'s input_class \<Rightarrow> 's coded_input \<Rightarrow> (u32 option \<times> 's coded_input) outcome" where
  "ReadVarint32Slow vt s = and_then (ReadVarint64Fallback vt s) (\<lambda>(r, s). Inr (map_option ucast r, s))"

definition ReadVarint32Fallback :: "'s input_class \<Rightarrow> u32 \<Rightarrow> 's coded_input \<Rightarrow> (u32 option \<times> 's coded_input) outcome" where
  "ReadVarint32Fallback vt first_byte_or_zero s =
     and_then (array_read_is_safe s) (\<lambda>safe.
       if safe then and_then (ReadVarint32FromArray first_byte_or_zero (memory s)) (\<lambda>r. case r of
            None \<Rightarrow> Inr (None, s)
          | Some (value, n) \<Rightarrow> Inr (Some value, Advance (int n) s))
       else ReadVarint32Slow vt s)"

definition ReadVarint32 :: "'s input_class \<Rightarrow> 's coded_input \<Rightarrow> (u32 option \<times> 's coded_input) outcome" where
  "ReadVarint32 vt s =
     (if 0 < BufferSize s
      then and_then (byte_at 0 s) (\<lambda>b.
        if unat b < 0x80 then Inr (Some (ucast b), Advance 1 s) else ReadVarint32Fallback vt (ucast b) s)
      else ReadVarint32Fallback vt 0 s)"

definition ReadVarintSizeAsIntSlow :: "'s input_class \<Rightarrow> 's coded_input \<Rightarrow> (int option \<times> 's coded_input) outcome" where
  "ReadVarintSizeAsIntSlow vt s =
     and_then (ReadVarint64Fallback vt s) (\<lambda>(r, s). case r of
         None \<Rightarrow> Inr (None, s)
       | Some v \<Rightarrow> Inr (if INT_MAX < uint v then None else Some (uint v), s))"

definition ReadVarintSizeAsIntFallback :: "'s input_class \<Rightarrow> 's coded_input \<Rightarrow> (int option \<times> 's coded_input) outcome" where
  "ReadVarintSizeAsIntFallback vt s =
     and_then (array_read_is_safe s) (\<lambda>safe.
       if safe then and_then (ReadVarint64FromArray (memory s)) (\<lambda>r. case r of
            None \<Rightarrow> Inr (None, s)
          | Some (value, n) \<Rightarrow>
              if INT_MAX < uint value then Inr (None, s) else Inr (Some (uint value), Advance (int n) s))
       else ReadVarintSizeAsIntSlow vt s)"

definition ReadVarintSizeAsInt :: "'s input_class \<Rightarrow> 's coded_input \<Rightarrow> (int option \<times> 's coded_input) outcome" where
  "ReadVarintSizeAsInt vt s =
     (if 0 < BufferSize s
      then and_then (byte_at 0 s) (\<lambda>b.
        if unat b < 0x80 then Inr (Some (uint b), Advance 1 s) else ReadVarintSizeAsIntFallback vt s)
      else ReadVarintSizeAsIntFallback vt s)"

definition ReadLengthAndPushLimit :: "'s input_class \<Rightarrow> 's coded_input \<Rightarrow> (int \<times> 's coded_input) outcome" where
  "ReadLengthAndPushLimit vt s =
     and_then (ReadVarint32 vt s) (\<lambda>(r, s).
       Inr (PushLimit (case r of None \<Rightarrow> 0 | Some len \<Rightarrow> sint len) s))"

section \<open>Tags\<close>

definition ReadTagSlow :: "'s input_class \<Rightarrow> 's coded_input \<Rightarrow> (u32 \<times> 's coded_input) outcome" where
  "ReadTagSlow vt s =
     and_then (if buffer s = buffer_end s then Refresh vt s else Inr (True, s)) (\<lambda>(ok, s).
       if \<not> ok
       then let current_position = total_bytes_read s - buffer_size_after_limit s in
            Inr (0, s\<lparr>legitimate_message_end :=
                       (if total_bytes_limit s \<le> current_position then current_limit s = total_bytes_limit s else True)\<rparr>)
       else and_then (ReadVarint64 vt s) (\<lambda>(r, s). Inr (case r of None \<Rightarrow> 0 | Some v \<Rightarrow> ucast v, s)))"

definition ReadTagFallback :: "'s input_class \<Rightarrow> u32 \<Rightarrow> 's coded_input \<Rightarrow> (u32 \<times> 's coded_input) outcome" where
  "ReadTagFallback vt first_byte_or_zero s =
     and_then (array_read_is_safe s) (\<lambda>safe.
       if safe then
         if first_byte_or_zero = 0 then Inr (0, Advance 1 s)
         else and_then (ReadVarint32FromArray first_byte_or_zero (memory s)) (\<lambda>r. case r of
            None \<Rightarrow> Inr (0, s)
          | Some (tag, n) \<Rightarrow> Inr (tag, Advance (int n) s))
       else if BufferSize s = 0 \<and> (0 < buffer_size_after_limit s \<or> total_bytes_read s = current_limit s) \<and>
               total_bytes_read s - buffer_size_after_limit s < total_bytes_limit s
       then Inr (0, s\<lparr>legitimate_message_end := True\<rparr>)
       else ReadTagSlow vt s)"

definition ReadTagNoLastTag :: "'s input_class \<Rightarrow> 's coded_input \<Rightarrow> (u32 \<times> 's coded_input) outcome" where
  "ReadTagNoLastTag vt s =
     (if 0 < BufferSize s
      then and_then (byte_at 0 s) (\<lambda>b.
        if unat b < 0x80 then Inr (ucast b, Advance 1 s) else ReadTagFallback vt (ucast b) s)
      else ReadTagFallback vt 0 s)"

definition ReadTag :: "'s input_class \<Rightarrow> 's coded_input \<Rightarrow> (u32 \<times> 's coded_input) outcome" where
  "ReadTag vt s = and_then (ReadTagNoLastTag vt s) (\<lambda>(tag, s). Inr (tag, s\<lparr>last_tag := tag\<rparr>))"

definition LastTagWas :: "u32 \<Rightarrow> 's coded_input \<Rightarrow> bool" where
  "LastTagWas expected s = (last_tag s = expected)"

definition ExpectTag :: "u32 \<Rightarrow> 's coded_input \<Rightarrow> (bool \<times> 's coded_input) outcome" where
  "ExpectTag expected s =
     (if unat expected < 2 ^ 7 then
        if 0 < BufferSize s then and_then (byte_at 0 s) (\<lambda>b.
          if ucast b = expected then Inr (True, Advance 1 s) else Inr (False, s))
        else Inr (False, s)
      else if unat expected < 2 ^ 14 then
        if 2 \<le> BufferSize s then and_then (byte_at 0 s) (\<lambda>b0. and_then (byte_at 1 s) (\<lambda>b1.
          if b0 = ucast (expected OR 0x80) \<and> b1 = ucast (drop_bit 7 expected) then Inr (True, Advance 2 s) else Inr (False, s)))
        else Inr (False, s)
      else Inr (False, s))"

definition ExpectAtEnd :: "'s coded_input \<Rightarrow> bool \<times> 's coded_input" where
  "ExpectAtEnd s =
     (if buffer s = buffer_end s \<and> (buffer_size_after_limit s \<noteq> 0 \<or> total_bytes_read s = current_limit s)
      then (True, s\<lparr>last_tag := 0, legitimate_message_end := True\<rparr>) else (False, s))"

section \<open>Invariant and abstract state\<close>

definition source_rest :: "('s \<Rightarrow> u8 list) \<Rightarrow> 's coded_input \<Rightarrow> u8 list" where
  "source_rest rest s = (case source s of None \<Rightarrow> [] | Some i \<Rightarrow> rest i)"

definition ci_ok :: "('s \<Rightarrow> bool) \<Rightarrow> 's coded_input \<Rightarrow> bool" where
  "ci_ok ok s \<longleftrightarrow>
     0 \<le> buffer s \<and> buffer s \<le> buffer_end s \<and>
     buffer_end s + buffer_size_after_limit s + overflow_bytes s = int (length (block s)) \<and>
     0 \<le> overflow_bytes s \<and> buffer_size_after_limit s = max 0 (total_bytes_read s - closest_limit s) \<and>
     buffer_end s + buffer_size_after_limit s \<le> total_bytes_read s \<and> total_bytes_read s \<le> INT_MAX \<and>
     total_bytes_limit s \<le> INT_MAX \<and> current_limit s \<le> INT_MAX \<and>
     (0 < overflow_bytes s \<longrightarrow> total_bytes_read s = INT_MAX) \<and>
     (source s = None \<longrightarrow> current_limit s \<le> total_bytes_read s \<and> overflow_bytes s = 0) \<and>
     (\<forall>i. source s = Some i \<longrightarrow> ok i)"

definition unread :: "('s \<Rightarrow> u8 list) \<Rightarrow> 's coded_input \<Rightarrow> u8 list" where
  "unread rest s = drop (nat (buffer s)) (block s) @ source_rest rest s"

definition available :: "('s \<Rightarrow> u8 list) \<Rightarrow> 's coded_input \<Rightarrow> u8 list" where
  "available rest s = take (nat (closest_limit s - CurrentPosition s)) (unread rest s)"

lemma ci_okD:
  assumes "ci_ok ok s"
  shows "0 \<le> buffer s" "buffer s \<le> buffer_end s" "buffer_end s \<le> int (length (block s))" "0 \<le> BufferSize s"
    "CurrentPosition s + BufferSize s \<le> closest_limit s" "0 \<le> CurrentPosition s" "0 \<le> buffer_size_after_limit s"
  using assms by (auto simp: ci_ok_def BufferSize_def CurrentPosition_def)

text \<open>The bytes in the buffer are the first available ones.\<close>

lemma available_buffer:
  assumes "ci_ok ok s" and "0 \<le> k" and "k \<le> BufferSize s"
  shows "take (nat k) (drop (nat (buffer s)) (block s)) = take (nat k) (available rest s)"
    and "nat k \<le> length (available rest s)"
    and "drop (nat k) (unread rest s) = unread rest (Advance k s)"
proof -
  let ?m = "nat (closest_limit s - CurrentPosition s)"
  note d = ci_okD [OF assms(1)]
  have k: "nat k \<le> ?m"
    using d(5) assms by linarith
  have len: "nat k \<le> length (drop (nat (buffer s)) (block s))"
    using d assms by (simp add: BufferSize_def)
  show "take (nat k) (drop (nat (buffer s)) (block s)) = take (nat k) (available rest s)"
    using k len by (simp add: available_def unread_def min_def)
  show "nat k \<le> length (available rest s)"
    using k len by (auto simp: available_def unread_def min_def)
  have "drop (nat k) (drop (nat (buffer s)) (block s)) = drop (nat (buffer (Advance k s))) (block (Advance k s))"
    using d(1) assms(2) by (simp add: Advance_def nat_add_distrib add.commute)
  then show "drop (nat k) (unread rest s) = unread rest (Advance k s)"
    using len by (simp add: unread_def source_rest_def Advance_def)
qed

lemma Advance_ok:
  assumes "ci_ok ok s" and "0 \<le> k" and "k \<le> BufferSize s"
  shows "ci_ok ok (Advance k s)" "CurrentPosition (Advance k s) = CurrentPosition s + k"
  using assms by (auto simp: ci_ok_def Advance_def BufferSize_def CurrentPosition_def closest_limit_def)

lemma buffer_bytes_available:
  assumes "ci_ok ok s" and "0 \<le> k" and "k \<le> BufferSize s"
  shows "buffer_bytes k s = Inr (take (nat k) (available rest s))"
  using available_buffer [OF assms, of rest] ci_okD [OF assms(1)] assms
  by (simp add: buffer_bytes_def BufferSize_def)

lemma byte_at_available:
  assumes "ci_ok ok s" and "0 \<le> i" and "i < BufferSize s"
  shows "byte_at i s = Inr (available rest s ! nat i)" "nat i < length (available rest s)"
proof -
  have e: "take (nat (i + 1)) (drop (nat (buffer s)) (block s)) = take (nat (i + 1)) (available rest s)"
    using assms by (intro available_buffer) auto
  show "nat i < length (available rest s)"
    using available_buffer(2) [OF assms(1), of "i + 1" rest] assms by simp
  have "available rest s ! nat i = take (nat (i + 1)) (available rest s) ! nat i"
    using assms(2) by simp
  also have "\<dots> = drop (nat (buffer s)) (block s) ! nat i"
    unfolding e [symmetric] using assms(2) by simp
  also have "\<dots> = block s ! nat (buffer s + i)"
    using ci_okD [OF assms(1)] assms by (simp add: BufferSize_def nat_add_distrib)
  finally show "byte_at i s = Inr (available rest s ! nat i)"
    using ci_okD [OF assms(1)] assms by (simp add: byte_at_def BufferSize_def)
qed

section \<open>Refreshing the buffer\<close>

definition stopped :: "'s coded_input \<Rightarrow> bool" where
  "stopped s \<longleftrightarrow> 0 < buffer_size_after_limit s \<or> 0 < overflow_bytes s \<or> total_bytes_read s = current_limit s"

text \<open>The fields no read changes.\<close>

definition same_limits :: "'s coded_input \<Rightarrow> 's coded_input \<Rightarrow> bool" where
  "same_limits s t \<longleftrightarrow> current_limit t = current_limit s \<and> total_bytes_limit t = total_bytes_limit s \<and>
     recursion_budget t = recursion_budget s \<and> recursion_limit t = recursion_limit s \<and> (source t = None) = (source s = None) \<and>
     (source s = None \<longrightarrow> total_bytes_read t = total_bytes_read s)"

lemma same_limits_refl [simp]: "same_limits s s"
  by (simp add: same_limits_def)

lemma same_limits_trans [trans]: "same_limits s t \<Longrightarrow> same_limits t u \<Longrightarrow> same_limits s u"
  by (simp add: same_limits_def)

lemma same_limits_Advance [simp]: "same_limits s (Advance k s)"
  by (simp add: same_limits_def Advance_def)

lemma available_stopped:
  assumes "ci_ok ok s" and "BufferSize s = 0" and "stopped s"
  shows "available rest s = []"
proof -
  have "closest_limit s \<le> CurrentPosition s"
    using assms by (auto simp: ci_ok_def stopped_def BufferSize_def CurrentPosition_def closest_limit_def)
  then show ?thesis
    by (simp add: available_def)
qed

definition with_block :: "u8 list \<Rightarrow> 's \<Rightarrow> 's coded_input \<Rightarrow> 's coded_input" where
  "with_block blk i s =
     (let n = int (length blk);
          s = s\<lparr>source := Some i, block := blk, buffer := 0, buffer_end := n\<rparr>
      in RecomputeBufferLimits
        (if total_bytes_read s \<le> INT_MAX - n then s\<lparr>total_bytes_read := total_bytes_read s + n\<rparr>
         else let overflow = total_bytes_read s - (INT_MAX - n) in
              s\<lparr>overflow_bytes := overflow, buffer_end := buffer_end s - overflow, total_bytes_read := INT_MAX\<rparr>))"

lemma with_block_fields:
  "block (with_block blk i s) = blk" "buffer (with_block blk i s) = 0" "source (with_block blk i s) = Some i"
  "closest_limit (with_block blk i s) = closest_limit s"
  "current_limit (with_block blk i s) = current_limit s" "total_bytes_limit (with_block blk i s) = total_bytes_limit s"
  "recursion_budget (with_block blk i s) = recursion_budget s" "recursion_limit (with_block blk i s) = recursion_limit s"
  by (simp_all add: with_block_def RecomputeBufferLimits_def closest_limit_def Let_def)

lemma not_stopped:
  assumes "ci_ok ok s" and "\<not> stopped s"
  shows "buffer_size_after_limit s = 0" "overflow_bytes s = 0" "total_bytes_read s < current_limit s" "total_bytes_read s \<le> total_bytes_limit s"
proof -
  have "total_bytes_read s \<le> closest_limit s"
    using assms by (auto simp: ci_ok_def stopped_def max_def split: if_splits)
  then show "buffer_size_after_limit s = 0" "overflow_bytes s = 0" "total_bytes_read s < current_limit s" "total_bytes_read s \<le> total_bytes_limit s"
    using assms by (auto simp: ci_ok_def stopped_def closest_limit_def)
qed

lemma with_block_values:
  assumes "ci_ok ok s" and "\<not> stopped s"
  shows "total_bytes_read (with_block blk i s) = min (total_bytes_read s + int (length blk)) INT_MAX"
    and "overflow_bytes (with_block blk i s) = max 0 (total_bytes_read s + int (length blk) - INT_MAX)"
    and "buffer_size_after_limit (with_block blk i s) = max 0 (total_bytes_read (with_block blk i s) - closest_limit s)"
    and "buffer_end (with_block blk i s) =
      int (length blk) - overflow_bytes (with_block blk i s) - buffer_size_after_limit (with_block blk i s)"
  using not_stopped [OF assms]
  by (simp_all add: with_block_def RecomputeBufferLimits_def closest_limit_def Let_def max_def [of 0])

lemma with_block_ok:
  assumes "ci_ok ok s" and "BufferSize s = 0" and "\<not> stopped s" and "ok i"
  shows "ci_ok ok (with_block blk i s)"
proof -
  note v = with_block_values [OF assms(1,3), of blk i] and f = with_block_fields [of blk i s] and n = not_stopped [OF assms(1,3)]
  have c: "total_bytes_read s \<le> closest_limit s" "closest_limit s \<le> INT_MAX" "0 \<le> total_bytes_read s" "current_limit s \<le> INT_MAX"
    "total_bytes_limit s \<le> INT_MAX"
    using assms(1) n by (auto simp: ci_ok_def closest_limit_def)
  have h: "0 \<le> buffer_end (with_block blk i s)" "0 \<le> overflow_bytes (with_block blk i s)"
    "buffer_end (with_block blk i s) + buffer_size_after_limit (with_block blk i s) \<le> total_bytes_read (with_block blk i s)"
    "total_bytes_read (with_block blk i s) \<le> INT_MAX"
    "0 < overflow_bytes (with_block blk i s) \<Longrightarrow> total_bytes_read (with_block blk i s) = INT_MAX"
    using c v by linarith+
  show ?thesis
    unfolding ci_ok_def f using v(3,4) h assms(4) c by simp
qed

lemma with_block_position:
  assumes "ci_ok ok s" and "BufferSize s = 0" and "\<not> stopped s"
  shows "CurrentPosition (with_block blk i s) = CurrentPosition s"
proof -
  have "total_bytes_read s \<le> INT_MAX"
    using assms(1) by (simp add: ci_ok_def)
  then show ?thesis
    using with_block_values [OF assms(1,3), of blk i] with_block_fields [of blk i s] not_stopped [OF assms(1,3)] assms(2)
    by (simp add: CurrentPosition_def BufferSize_def)
qed

lemma with_block_progress:
  assumes "ci_ok ok s" and "BufferSize s = 0" and "\<not> stopped s" and "ok i" and "blk \<noteq> []"
  shows "0 < BufferSize (with_block blk i s) \<or> stopped (with_block blk i s)"
proof -
  have "ci_ok ok (with_block blk i s)"
    using assms by (intro with_block_ok)
  then have "buffer_end (with_block blk i s) + buffer_size_after_limit (with_block blk i s) + overflow_bytes (with_block blk i s) =
      int (length blk)"
    by (simp add: ci_ok_def with_block_fields)
  moreover have "0 < int (length blk)"
    using assms(5) by simp
  ultimately show ?thesis
    unfolding stopped_def BufferSize_def with_block_fields by linarith
qed

text \<open>Reading \<open>n\<close> bytes, or all that are available when they are fewer: the invariant and the limits
  are kept, and the bytes behind are still unread.\<close>

definition reads :: "('s \<Rightarrow> bool) \<Rightarrow> ('s \<Rightarrow> u8 list) \<Rightarrow> 's coded_input \<Rightarrow> nat \<Rightarrow> 's coded_input \<Rightarrow> bool" where
  "reads ok rest s n t \<longleftrightarrow> ci_ok ok t \<and> same_limits s t \<and>
     unread rest t = drop (min n (length (available rest s))) (unread rest s) \<and>
     CurrentPosition t = CurrentPosition s + int (min n (length (available rest s)))"

lemma reads_available:
  assumes "ci_ok ok s" and "reads ok rest s n t"
  shows "available rest t = drop n (available rest s)"
proof -
  let ?m = "nat (closest_limit s - CurrentPosition s)" and ?k = "min n (length (available rest s))"
  have "closest_limit t = closest_limit s"
    using assms(2) by (simp add: reads_def same_limits_def closest_limit_def)
  then have m: "nat (closest_limit t - CurrentPosition t) = ?m - ?k"
    using assms(2) by (simp add: reads_def)
  have "available rest t = take (?m - ?k) (drop ?k (unread rest s))"
    using assms(2) m by (simp only: available_def reads_def)
  also have "\<dots> = drop ?k (available rest s)"
    by (simp only: available_def drop_take)
  also have "\<dots> = drop n (available rest s)"
    by (simp add: min_def)
  finally show ?thesis .
qed

text \<open>One round of the slow decoder in numbers.\<close>

lemma and_7F: "unat ((b :: u8) AND 0x7F) = unat b mod 128"
proof -
  have "(0x7F :: u8) = mask 7"
    by (simp add: mask_eq_exp_minus_1)
  then have "b AND 0x7F = take_bit 7 b"
    by (simp only: take_bit_eq_mask)
  then have "unat (b AND 0x7F) = take_bit 7 (unat b)"
    by (simp only: unsigned_take_bit_eq)
  then show ?thesis
    by (simp add: take_bit_eq_mod)
qed

lemma take_bit_and_push_bit: "take_bit k x AND push_bit k y = (0 :: 'a::len word)"
  by (rule bit_eqI) (auto simp: bit_and_iff bit_take_bit_iff bit_push_bit_iff)

lemma or_next_byte:
  assumes "V < 2 ^ k"
  shows "of_nat V OR push_bit k (ucast ((b :: u8) AND 0x7F)) = (of_nat (V + 2 ^ k * (unat b mod 128)) :: u64)"
proof -
  have "(of_nat V :: u64) = take_bit k (of_nat V)"
    using assms by (simp only: take_bit_of_nat take_bit_nat_eq_self)
  then have "(of_nat V :: u64) AND push_bit k (ucast (b AND 0x7F)) = 0"
    by (metis take_bit_and_push_bit)
  then have "of_nat V OR push_bit k (ucast (b AND 0x7F)) = of_nat V + push_bit k (ucast (b AND 0x7F) :: u64)"
    by (simp only: disjunctive_add_eq_or)
  moreover have "(ucast (b AND 0x7F) :: u64) = of_nat (unat b mod 128)"
    unfolding and_7F [symmetric] by simp
  ultimately show ?thesis
    by (simp add: push_bit_eq_mult mult.commute)
qed

lemma next_bound: "V < 2 ^ (7 * c) \<Longrightarrow> x < 128 \<Longrightarrow> V + 2 ^ (7 * c) * x < (2 :: nat) ^ (7 * (c + 1))"
proof -
  assume "V < 2 ^ (7 * c)" "x < 128"
  then have "V + 2 ^ (7 * c) * x < 2 ^ (7 * c) * Suc x"
    by simp
  also have "\<dots> \<le> 2 ^ (7 * c) * (128 :: nat)"
    using \<open>x < 128\<close> by (intro mult_le_mono) auto
  also have "\<dots> = 2 ^ (7 * (c + 1))"
    by (simp add: power_add)
  finally show ?thesis .
qed

context zero_copy_input
begin

lemma NextNonEmpty_end:
  assumes "ok i" and "rest i = []"
  obtains i' where "NextNonEmpty vt i = Some (Inr (None, i'))" "ok i'" "rest i' = []"
proof -
  from next_end [OF assms] obtain i' where "Next_of vt i = Inr (None, i')" "ok i'" "rest i' = []"
    by blast
  then show thesis
    by (intro that [of i']) (simp_all add: NextNonEmpty.simps)
qed

lemma NextNonEmpty_block:
  assumes "ok i" and "rest i \<noteq> []"
  obtains blk i' where "NextNonEmpty vt i = Some (Inr (Some blk, i'))" "blk \<noteq> []" "ok i'" "rest i = blk @ rest i'"
proof -
  from next_block [OF assms] obtain blk i' where "Next_of vt i = Inr (Some blk, i')" "blk \<noteq> []" "ok i'" "rest i = blk @ rest i'"
    by blast
  then show thesis
    by (intro that [of blk i']) (simp_all add: NextNonEmpty.simps [of vt i])
qed

lemma Refresh_ok:
  assumes "ci_ok ok s" and "BufferSize s = 0"
  obtains r s' where "Refresh vt s = Inr (r, s')" "ci_ok ok s'" "unread rest s' = unread rest s"
    "CurrentPosition s' = CurrentPosition s" "same_limits s s'" "\<not> r \<Longrightarrow> available rest s = [] \<and> BufferSize s' = 0"
    "r \<Longrightarrow> 0 < BufferSize s' \<or> stopped s'" "stopped s \<Longrightarrow> \<not> r"
proof (cases "stopped s")
  case True
  then have "Refresh vt s = Inr (False, s)"
    by (auto simp: Refresh_def stopped_def)
  with True assms show thesis
    by (intro that [of False s]) (simp_all add: available_stopped)
next
  case False
  have src: "\<exists>i. source s = Some i"
  proof (rule ccontr)
    assume "\<nexists>i. source s = Some i"
    with assms False show False
      by (auto simp: ci_ok_def stopped_def closest_limit_def max_def min_def split: if_splits)
  qed
  then obtain i where i: "source s = Some i" and oki: "ok i"
    using assms(1) by (auto simp: ci_ok_def)
  have flat: "buffer_end s = int (length (block s))" "buffer s = buffer_end s"
    using assms False by (auto simp: ci_ok_def stopped_def BufferSize_def)
  then have av: "unread rest s = rest i"
    by (simp add: unread_def source_rest_def i)
  show thesis
  proof (cases "rest i = []")
    case True
    from NextNonEmpty_end [OF oki this] obtain i' where n: "NextNonEmpty vt i = Some (Inr (None, i'))" "ok i'" "rest i' = []" .
    let ?t = "s\<lparr>source := Some i', block := [], buffer := 0, buffer_end := 0\<rparr>"
    have "Refresh vt s = Inr (False, ?t)"
      using False i n by (simp add: Refresh_def stopped_def)
    moreover have "ci_ok ok ?t" and "CurrentPosition ?t = CurrentPosition s"
      using assms False n(2) flat by (auto simp: ci_ok_def stopped_def BufferSize_def CurrentPosition_def closest_limit_def max_def)
    moreover have "unread rest ?t = []" and "unread rest s = []" and "available rest s = []"
      using n(3) True by (simp_all add: available_def av) (simp add: unread_def source_rest_def)
    ultimately show thesis
      using False i by (intro that [of False ?t]) (simp_all add: same_limits_def BufferSize_def)
  next
    case ne: False
    from NextNonEmpty_block [OF oki this] obtain blk i' where n: "NextNonEmpty vt i = Some (Inr (Some blk, i'))"
      "blk \<noteq> []" "ok i'" "rest i = blk @ rest i'" .
    have "Refresh vt s = Inr (True, with_block blk i' s)"
      using False i n(1) by (simp add: Refresh_def stopped_def with_block_def Let_def)
    moreover have "unread rest (with_block blk i' s) = unread rest s"
      unfolding av using n(4) by (simp add: unread_def with_block_fields source_rest_def)
    ultimately show thesis
      using assms False n i
      by (intro that [of True "with_block blk i' s"])
        (simp_all add: with_block_ok with_block_position with_block_progress same_limits_def with_block_fields)
  qed
qed


section \<open>Reading\<close>

lemma reads_Advance: "ci_ok ok s \<Longrightarrow> 0 \<le> k \<Longrightarrow> k \<le> BufferSize s \<Longrightarrow> reads ok rest s (nat k) (Advance k s)"
  using available_buffer(2,3) [of ok s k rest] Advance_ok [of ok s k] by (simp add: reads_def)

lemma reads_trans:
  assumes "ci_ok ok s" and "reads ok rest s m t" and "reads ok rest t n u"
  shows "reads ok rest s (m + n) u"
proof -
  have "min m (length (available rest s)) + min n (length (available rest s) - m) = min (m + n) (length (available rest s))"
    by linarith
  moreover have "length (available rest t) = length (available rest s) - m"
    using reads_available [OF assms(1,2)] by simp
  ultimately show ?thesis
    using assms(2,3) same_limits_trans [of s t u] by (simp add: reads_def add.commute)
qed

lemma reads_0: "ci_ok ok s \<Longrightarrow> reads ok rest s 0 s"
  by (simp add: reads_def)

lemma reads_ok: "reads ok rest s n t \<Longrightarrow> ci_ok ok t"
  by (simp add: reads_def)

lemma Refresh_reads:
  assumes "ci_ok ok s" and "BufferSize s = 0"
  obtains r s' where "Refresh vt s = Inr (r, s')" "reads ok rest s 0 s'" "\<not> r \<Longrightarrow> available rest s = [] \<and> BufferSize s' = 0"
    "r \<Longrightarrow> 0 < BufferSize s' \<or> stopped s'" "stopped s \<Longrightarrow> \<not> r"
proof -
  show thesis
  proof (rule Refresh_ok [OF assms])
    fix r s'
    assume "Refresh vt s = Inr (r, s')" "ci_ok ok s'" "unread rest s' = unread rest s"
      "CurrentPosition s' = CurrentPosition s" "same_limits s s'" "\<not> r \<Longrightarrow> available rest s = [] \<and> BufferSize s' = 0"
      "r \<Longrightarrow> 0 < BufferSize s' \<or> stopped s'" "stopped s \<Longrightarrow> \<not> r"
    then show thesis
      by (intro that [of r s']) (simp_all add: reads_def)
  qed
qed

lemma fill_reads:
  assumes "ci_ok ok s"
  obtains r s' where "fill vt s = Some (Inr (r, s'))" "reads ok rest s 0 s'" "r \<Longrightarrow> 0 < BufferSize s'" "\<not> r \<Longrightarrow> available rest s = []"
proof (cases "BufferSize s = 0")
  case False
  then have "buffer s \<noteq> buffer_end s" "0 < BufferSize s"
    using ci_okD(4) [OF assms] by (simp_all add: BufferSize_def)
  then show thesis
    using assms by (intro that [of True s]) (simp_all add: fill.simps [of vt s] reads_0)
next
  case True
  then have b: "buffer s = buffer_end s"
    by (simp add: BufferSize_def)
  from Refresh_reads [OF assms True] obtain r s' where r: "Refresh vt s = Inr (r, s')" "reads ok rest s 0 s'"
    "\<not> r \<Longrightarrow> available rest s = [] \<and> BufferSize s' = 0" "r \<Longrightarrow> 0 < BufferSize s' \<or> stopped s'" "stopped s \<Longrightarrow> \<not> r"
    by blast
  show thesis
  proof (cases "\<not> r \<or> 0 < BufferSize s'")
    case decided: True
    show thesis
    proof (cases r)
      case True
      with decided have "0 < BufferSize s'" "buffer s' \<noteq> buffer_end s'"
        by (simp_all add: BufferSize_def)
      with True r b show thesis
        by (intro that [of True s']) (simp_all add: fill.simps [of vt s] fill.simps [of vt s'])
    next
      case False
      with r b show thesis
        by (intro that [of False s']) (simp_all add: fill.simps [of vt s])
    qed
  next
    case False
    with r have s': "ci_ok ok s'" "BufferSize s' = 0" "stopped s'" r
      using ci_okD(4) [of ok s'] by (auto simp: reads_def)
    from Refresh_reads [OF s'(1,2)] s'(3) obtain s'' where r': "Refresh vt s' = Inr (False, s'')" "reads ok rest s' 0 s''" "available rest s' = []"
      by metis
    have "buffer s' = buffer_end s'"
      using s'(2) by (simp add: BufferSize_def)
    moreover have "reads ok rest s 0 s''"
      using reads_trans [OF assms r(2) r'(2)] by simp
    moreover have "available rest s = []"
      using reads_available [OF assms r(2)] r'(3) by simp
    ultimately show thesis
      using r(1) r'(1) b s'(4) by (intro that [of False s'']) (simp_all add: fill.simps [of vt s] fill.simps [of vt s'])
  qed
qed

definition raw_measure :: "int \<Rightarrow> 's coded_input \<Rightarrow> nat" where
  "raw_measure n s = 2 * nat n + (if BufferSize s = 0 \<and> \<not> stopped s then 1 else 0)"

lemma ReadRaw_loop_reads:
  assumes "ci_ok ok s" and "0 \<le> n"
  shows "\<exists>s'. ReadRaw_loop vt n out s =
      Some (Inr ((nat n \<le> length (available rest s), out @ take (nat n) (available rest s)), s')) \<and> reads ok rest s (nat n) s'"
  using assms
proof (induction "raw_measure n s" arbitrary: n s out rule: less_induct)
  case less
  note d = ci_okD [OF less.prems(1)]
  show ?case
  proof (cases "BufferSize s < n")
    case False
    then have "buffer_bytes n s = Inr (take (nat n) (available rest s))"
      using less.prems by (intro buffer_bytes_available [where ok = ok]) auto
    with False have "ReadRaw_loop vt n out s = Some (Inr ((True, out @ take (nat n) (available rest s)), Advance n s))"
      by (simp add: ReadRaw_loop.simps [of vt n])
    moreover have "nat n \<le> length (available rest s)"
      using False less.prems available_buffer(2) [of ok s n rest] by simp
    ultimately show ?thesis
      using reads_Advance [of s n] less.prems False by auto
  next
    case True
    let ?k = "BufferSize s" and ?t = "Advance (BufferSize s) s"
    have t: "ci_ok ok ?t" "BufferSize ?t = 0" "reads ok rest s (nat ?k) ?t" "available rest ?t = drop (nat ?k) (available rest s)"
      using d less.prems Advance_ok [of ok s ?k] reads_Advance [of s ?k]
      by (simp_all add: reads_available) (simp add: Advance_def BufferSize_def)
    from Refresh_reads [OF t(1,2)] obtain r s' where r: "Refresh vt ?t = Inr (r, s')" "reads ok rest ?t 0 s'"
      "\<not> r \<Longrightarrow> available rest ?t = [] \<and> BufferSize s' = 0" "r \<Longrightarrow> 0 < BufferSize s' \<or> stopped s'" "stopped ?t \<Longrightarrow> \<not> r"
      by blast
    have rs: "reads ok rest s (nat ?k) s'"
      using reads_trans [OF less.prems(1) t(3) r(2)] by simp
    have step: "ReadRaw_loop vt n out s =
        (if r then ReadRaw_loop vt (n - ?k) (out @ take (nat ?k) (available rest s)) s'
         else Some (Inr ((False, out @ take (nat ?k) (available rest s)), s')))"
      using True r(1) buffer_bytes_available [OF less.prems(1) d(4) order_refl, of rest]
      by (simp add: ReadRaw_loop.simps [of vt n])
    have k: "nat ?k \<le> length (available rest s)"
      using available_buffer(2) [of ok s ?k rest] d less.prems by simp
    show ?thesis
    proof (cases r)
      case False
      with r(3) t(4) have "length (available rest s) \<le> nat ?k"
        by simp
      with k have len: "length (available rest s) = nat ?k"
        by simp
      then have "reads ok rest s (nat n) s'"
        using rs True d by (simp add: reads_def)
      moreover have "\<not> nat n \<le> length (available rest s)"
        using len True d by simp
      ultimately show ?thesis
        using step False len True by auto
    next
      case r_True: True
      have "raw_measure (n - ?k) s' < raw_measure n s"
      proof (cases "?k = 0")
        case True
        then have "\<not> stopped s"
          using r(5) r_True by (auto simp: Advance_def)
        with True r(4) [OF r_True] show ?thesis
          by (auto simp: raw_measure_def)
      next
        case False
        then have less: "nat (n - ?k) < nat n"
          using d(4) True by simp
        have "raw_measure (n - ?k) s' \<le> 2 * nat (n - ?k) + 1"
          by (simp add: raw_measure_def)
        also have "\<dots> < 2 * nat n"
          using less by linarith
        also have "\<dots> \<le> raw_measure n s"
          by (simp add: raw_measure_def)
        finally show ?thesis .
      qed
      moreover have "ci_ok ok s'" "0 \<le> n - ?k"
        using rs True by (simp_all add: reads_def)
      ultimately obtain u where u: "ReadRaw_loop vt (n - ?k) (out @ take (nat ?k) (available rest s)) s' =
          Some (Inr ((nat (n - ?k) \<le> length (available rest s'),
            (out @ take (nat ?k) (available rest s)) @ take (nat (n - ?k)) (available rest s')), u))" "reads ok rest s' (nat (n - ?k)) u"
        using less.hyps by blast
      have n: "nat n = nat ?k + nat (n - ?k)"
        using True d(4) by simp
      have "available rest s' = drop (nat ?k) (available rest s)"
        using less.prems(1) rs by (rule reads_available)
      moreover have "take (nat ?k) (available rest s) @ take (nat (n - ?k)) (drop (nat ?k) (available rest s)) = take (nat n) (available rest s)"
        unfolding n by (simp add: take_add)
      moreover have "reads ok rest s (nat n) u"
        unfolding n using less.prems(1) rs u(2) by (rule reads_trans)
      moreover have "nat (n - ?k) \<le> length (available rest s) - nat ?k \<longleftrightarrow> nat n \<le> length (available rest s)"
        using n k by linarith
      ultimately show ?thesis
        using step r_True u(1) by auto
    qed
  qed
qed


section \<open>Reading varints\<close>

lemma fill_returns:
  assumes "ci_ok ok s"
  obtains r s' where "returns (fill vt s) = Inr (r, s')" "reads ok rest s 0 s'" "r \<Longrightarrow> 0 < BufferSize s'" "\<not> r \<Longrightarrow> available rest s = []"
  using fill_reads [OF assms] by (metis returns_Some)

lemma first_available:
  assumes "ci_ok ok s" and "0 < BufferSize s"
  obtains b bs where "available rest s = b # bs" "byte_at 0 s = Inr b" "reads ok rest s 1 (Advance 1 s)"
proof -
  have "byte_at 0 s = Inr (available rest s ! 0)" "0 < length (available rest s)"
    using byte_at_available [of ok s 0 rest] assms by simp_all
  moreover have "reads ok rest s 1 (Advance 1 s)"
    using reads_Advance [of s 1] assms by simp
  ultimately show thesis
    by (cases "available rest s") (auto intro: that)
qed

lemma varint64_slow_loop_reads:
  assumes "ci_ok ok s" and "k + c = 10" and "V < 2 ^ (7 * c)"
  shows "case varint_len k (available rest s) of
      Some n \<Rightarrow> \<exists>s'. varint64_slow_loop vt k c (of_nat V) s =
        Inr (Some (of_nat (V + 2 ^ (7 * c) * varint_value (take n (available rest s)))), s') \<and> reads ok rest s n s'
    | None \<Rightarrow> \<exists>s' m. varint64_slow_loop vt k c (of_nat V) s = Inr (None, s') \<and> reads ok rest s m s'"
  using assms
proof (induction k arbitrary: c V s)
  case 0
  then show ?case
    using reads_0 [of s] by auto
next
  case (Suc k)
  from fill_returns [OF Suc.prems(1)] obtain r s1 where f: "returns (fill vt s) = Inr (r, s1)" "reads ok rest s 0 s1"
    "r \<Longrightarrow> 0 < BufferSize s1" "\<not> r \<Longrightarrow> available rest s = []"
    by metis
  have same: "available rest s1 = available rest s"
    using reads_available [OF Suc.prems(1) f(2)] by simp
  show ?case
  proof (cases r)
    case False
    then show ?thesis
      using f by (auto intro!: exI [of _ "0 :: nat"])
  next
    case True
    with f have s1: "ci_ok ok s1" "0 < BufferSize s1"
      by (simp_all add: reads_ok)
    from first_available [OF this] obtain b bs where b: "available rest s1 = b # bs" "byte_at 0 s1 = Inr b" "reads ok rest s1 1 (Advance 1 s1)" .
    let ?s2 = "Advance 1 s1"
    have s2: "reads ok rest s 1 ?s2" "ci_ok ok ?s2" "available rest ?s2 = bs"
      using reads_trans [OF Suc.prems(1) f(2) b(3)] reads_available [OF s1(1) b(3)] reads_ok [OF b(3)] b(1) by simp_all
    let ?W = "V + 2 ^ (7 * c) * (unat b mod 128)"
    have W: "of_nat V OR push_bit (7 * c) (ucast (b AND 0x7F)) = (of_nat ?W :: u64)"
      using Suc.prems(3) by (rule or_next_byte)
    have step: "varint64_slow_loop vt (Suc k) c (of_nat V) s =
        (if 128 \<le> unat b then varint64_slow_loop vt k (c + 1) (of_nat ?W) ?s2 else Inr (Some (of_nat ?W), ?s2))"
      using f(1) True b(2) by (simp add: Let_def byte_continues not_less W del: of_nat_add of_nat_mult)
    show ?thesis
    proof (cases "unat b < 128")
      case final: True
      then have "varint_len (Suc k) (available rest s) = Some 1"
        by (simp add: b(1) flip: same)
      then show ?thesis
        using step final s2(1) by (simp add: b(1) flip: same)
    next
      case False
      have "?W < 2 ^ (7 * (c + 1))"
        using Suc.prems(3) by (rule next_bound) simp
      from Suc.IH [OF s2(2) _ this] Suc.prems(2) have ih: "case varint_len k bs of
          Some n \<Rightarrow> \<exists>s'. varint64_slow_loop vt k (c + 1) (of_nat ?W) ?s2 =
            Inr (Some (of_nat (?W + 2 ^ (7 * (c + 1)) * varint_value (take n bs))), s') \<and> reads ok rest ?s2 n s'
        | None \<Rightarrow> \<exists>s' m. varint64_slow_loop vt k (c + 1) (of_nat ?W) ?s2 = Inr (None, s') \<and> reads ok rest ?s2 m s'"
        unfolding s2(3) by simp
      show ?thesis
      proof (cases "varint_len k bs")
        case None
        with ih obtain s' m where "varint64_slow_loop vt k (c + 1) (of_nat ?W) ?s2 = Inr (None, s')" "reads ok rest ?s2 m s'"
          by auto
        with step False have "varint64_slow_loop vt (Suc k) c (of_nat V) s = Inr (None, s')" "reads ok rest s (1 + m) s'"
          using reads_trans [OF Suc.prems(1) s2(1)] by (simp_all only: not_less if_True)
        then have "\<exists>s' m. varint64_slow_loop vt (Suc k) c (of_nat V) s = Inr (None, s') \<and> reads ok rest s m s'"
          by blast
        with None False show ?thesis
          by (simp add: b(1) flip: same)
      next
        case (Some n)
        have e: "?W + 2 ^ (7 * (c + 1)) * varint_value (take n bs) = V + 2 ^ (7 * c) * varint_value (take (Suc n) (b # bs))"
          by (simp add: algebra_simps power_add)
        from ih [unfolded Some option.case e] obtain s' where "varint64_slow_loop vt k (c + 1) (of_nat ?W) ?s2 =
            Inr (Some (of_nat (V + 2 ^ (7 * c) * varint_value (take (Suc n) (b # bs)))), s')" "reads ok rest ?s2 n s'"
          by blast
        with step False reads_trans [OF Suc.prems(1) s2(1), of n s'] have "\<exists>s'. varint64_slow_loop vt (Suc k) c (of_nat V) s =
            Inr (Some (of_nat (V + 2 ^ (7 * c) * varint_value (take (Suc n) (b # bs)))), s') \<and> reads ok rest s (Suc n) s'"
          by (simp del: of_nat_add of_nat_mult take_Suc_Cons)
        moreover have "varint_len (Suc k) (b # bs) = Some (Suc n)"
          using Some False by simp
        ultimately show ?thesis
          by (simp add: b(1) flip: same del: of_nat_add of_nat_mult take_Suc_Cons varint_len.simps)
      qed
    qed
  qed
qed

end

end
