(* ===== verification/Pb_Coded_Read.thy ===== *)
theory Pb_Coded_Read
  imports Pb_Coded_Input
begin

text \<open>
  What the readers of \<open>CodedInputStream\<close> return, in terms of the bytes that may still be read:
  the array decoders and the byte-wise decoder give the same result wherever the blocks of the
  source end, raw reads return the next bytes, limits nest, and what the writers of varints wrote
  is read back.
\<close>

section \<open>The choice of the decoder\<close>

definition safe_to_decode :: "u8 list \<Rightarrow> bool" where
  "safe_to_decode xs \<longleftrightarrow> 10 \<le> length xs \<or> xs \<noteq> [] \<and> unat (last xs) < 128"

context zero_copy_input
begin

text \<open>The buffer is a prefix both of the memory the array decoders see and of the available bytes.\<close>

lemma buffer_prefix:
  assumes "ci_ok ok s"
  obtains xs ys zs where "memory s = xs @ ys" "available rest s = xs @ zs" "length xs = nat (BufferSize s)"
    "array_read_is_safe s = Inr (safe_to_decode xs)"
proof -
  let ?n = "nat (BufferSize s)"
  let ?xs = "take ?n (available rest s)"
  note d = ci_okD [OF assms]
  have e: "take ?n (drop (nat (buffer s)) (block s)) = ?xs" and len: "?n \<le> length (available rest s)"
    using available_buffer [OF assms d(4) order_refl, of rest] by auto
  have m: "memory s = ?xs @ drop ?n (memory s)"
    unfolding e [symmetric] using d(1) by (simp add: memory_def del: drop_drop)
  have l: "length ?xs = ?n"
    using len by simp
  have "array_read_is_safe s = Inr (safe_to_decode ?xs)"
  proof (cases "0 < BufferSize s \<and> BufferSize s < 10")
    case True
    then have "byte_at (BufferSize s - 1) s = Inr (available rest s ! nat (BufferSize s - 1))"
      using assms by (intro byte_at_available [where ok = ok]) auto
    moreover have "last ?xs = available rest s ! nat (BufferSize s - 1)"
      using True l by (subst last_conv_nth) (auto simp: nat_diff_distrib)
    moreover have "?xs \<noteq> []" "\<not> 10 \<le> length ?xs"
      using True l by auto
    ultimately show ?thesis
      using True by (auto simp: array_read_is_safe_def safe_to_decode_def kMaxVarintBytes_def byte_continues)
  next
    case False
    then show ?thesis
      using l d(4) by (auto simp: array_read_is_safe_def safe_to_decode_def kMaxVarintBytes_def)
  qed
  then show thesis
    using m l by (intro that [of ?xs "drop ?n (memory s)" "drop ?n (available rest s)"]) simp_all
qed

text \<open>A call that decodes the next varint of the available bytes, converting its value with \<open>f\<close>.\<close>

definition decodes :: "('a option \<times> 's coded_input) outcome \<Rightarrow> (nat \<Rightarrow> 'a) \<Rightarrow> 's coded_input \<Rightarrow> bool" where
  "decodes r f s \<longleftrightarrow> (case varint_len 10 (available rest s) of
      Some n \<Rightarrow> \<exists>s'. r = Inr (Some (f (varint_value (take n (available rest s)))), s') \<and> reads ok rest s n s'
    | None \<Rightarrow> \<exists>s' m. r = Inr (None, s') \<and> reads ok rest s m s')"

lemma ReadVarint64Slow_decodes: "ci_ok ok s \<Longrightarrow> decodes (ReadVarint64Slow vt s) of_nat s"
  using varint64_slow_loop_reads [of s 10 0 0]
  by (simp add: decodes_def ReadVarint64Slow_def kMaxVarintBytes_def split: option.splits)

text \<open>An array decoder that is right on every memory decodes the available bytes.\<close>

lemma array_decoder_decodes:
  assumes "ci_ok ok s" and "memory s = xs @ ys" and "available rest s = xs @ zs" and "length xs = nat (BufferSize s)"
    and "safe_to_decode xs" and "128 \<le> unat (hd xs)"
    and some: "\<And>n. varint_len 10 (memory s) = Some n \<Longrightarrow> 2 \<le> n \<Longrightarrow> dec = Inr (Some (f (varint_value (take n (memory s))), n))"
    and none: "varint_len 10 (memory s) = None \<Longrightarrow> 10 \<le> length (memory s) \<Longrightarrow> dec = Inr None"
  shows "decodes (and_then dec (\<lambda>r. case r of None \<Rightarrow> Inr (None, s) | Some (v, n) \<Rightarrow> Inr (Some v, Advance (int n) s))) f s"
proof -
  have p: "varint_len 10 (available rest s) = varint_len 10 (memory s)"
    unfolding assms(2,3) using assms(5) by (intro varint_len_prefix) (simp add: safe_to_decode_def)
  show ?thesis
  proof (cases "varint_len 10 (memory s)")
    case None
    then have "10 \<le> length xs"
      using varint_len_None_length [of xs ys] assms(2,5) by (simp add: safe_to_decode_def)
    with None none assms(2) have "dec = Inr None"
      by simp
    with None p reads_0 [OF assms(1)] show ?thesis
      by (auto simp: decodes_def)
  next
    case (Some n)
    have ne: "xs \<noteq> []"
      using assms(5) by (auto simp: safe_to_decode_def)
    have n: "n \<le> length xs"
      using assms(5) Some varint_len_bounds [OF Some] varint_len_prefix_le [of xs 10 ys n]
      by (auto simp: safe_to_decode_def assms(2))
    have "n \<noteq> 1"
      using Some assms(6) ne by (auto simp: varint_len_at assms(2) nth_append hd_conv_nth)
    then have "2 \<le> n"
      using varint_len_bounds [OF Some] by linarith
    then have "dec = Inr (Some (f (varint_value (take n (available rest s))), n))"
      using some [OF Some] n by (simp add: assms(2,3))
    moreover have "reads ok rest s n (Advance (int n) s)"
      using reads_Advance [OF assms(1), of "int n"] n assms(4) ci_okD(4) [OF assms(1)] by simp
    ultimately show ?thesis
      using p Some by (simp add: decodes_def)
  qed
qed

lemma ReadVarint64Fallback_decodes:
  assumes "ci_ok ok s" and first: "0 < BufferSize s \<Longrightarrow> 128 \<le> unat (hd (available rest s))"
  shows "decodes (ReadVarint64Fallback vt s) of_nat s"
proof -
  obtain xs ys zs where x: "memory s = xs @ ys" "available rest s = xs @ zs" "length xs = nat (BufferSize s)"
    "array_read_is_safe s = Inr (safe_to_decode xs)"
    using buffer_prefix [OF assms(1)] .
  show ?thesis
  proof (cases "safe_to_decode xs")
    case True
    then have "xs \<noteq> []"
      by (auto simp: safe_to_decode_def)
    then have "128 \<le> unat (hd xs)"
      using first x(2,3) by (cases xs) auto
    from array_decoder_decodes [OF assms(1) x(1-3) True this, of "ReadVarint64FromArray (memory s)" of_nat]
    show ?thesis
      using True x(4) by (simp add: ReadVarint64Fallback_def ReadVarint64FromArray_Some ReadVarint64FromArray_None)
  next
    case False
    with x(4) ReadVarint64Slow_decodes [OF assms(1)] show ?thesis
      by (simp add: ReadVarint64Fallback_def)
  qed
qed

text \<open>Every reader first looks for a varint of one byte.\<close>

lemma one_byte_decodes:
  assumes "ci_ok ok s" and "0 < BufferSize s" and "byte_at 0 s = Inr b" and "available rest s = b # bs" and "unat b < 128"
  shows "decodes (Inr (Some (f (unat b)), Advance 1 s)) f s"
proof -
  have "varint_len 10 (b # bs) = Some 1"
    using assms(5) by (simp add: varint_len_at)
  then show ?thesis
    using reads_Advance [of s 1] assms by (simp add: decodes_def)
qed

lemma ReadVarint64_decodes:
  assumes "ci_ok ok s"
  shows "decodes (ReadVarint64 vt s) of_nat s"
proof (cases "0 < BufferSize s")
  case True
  from first_available [OF assms True] obtain b bs where b: "available rest s = b # bs" "byte_at 0 s = Inr b" "reads ok rest s 1 (Advance 1 s)" .
  show ?thesis
  proof (cases "unat b < 128")
    case one: True
    have "ReadVarint64 vt s = Inr (Some (of_nat (unat b)), Advance 1 s)"
      using True one b(2) by (simp add: ReadVarint64_def)
    with one_byte_decodes [OF assms True b(2,1) one] show ?thesis
      by metis
  next
    case False
    with True b ReadVarint64Fallback_decodes [OF assms] show ?thesis
      by (simp add: ReadVarint64_def)
  qed
next
  case False
  with ReadVarint64Fallback_decodes [OF assms] show ?thesis
    by (simp add: ReadVarint64_def)
qed

lemma ReadVarint32Slow_decodes:
  assumes "ci_ok ok s" and "0 < BufferSize s \<Longrightarrow> 128 \<le> unat (hd (available rest s))"
  shows "decodes (ReadVarint32Slow vt s) of_nat s"
  using ReadVarint64Fallback_decodes [OF assms]
  by (auto simp: decodes_def ReadVarint32Slow_def ucast_of_nat_u64 split: option.splits)

lemma ReadVarint32_decodes:
  assumes "ci_ok ok s"
  shows "decodes (ReadVarint32 vt s) of_nat s"
proof -
  obtain xs ys zs where x: "memory s = xs @ ys" "available rest s = xs @ zs" "length xs = nat (BufferSize s)"
    "array_read_is_safe s = Inr (safe_to_decode xs)"
    using buffer_prefix [OF assms(1)] .
  have fallback: "decodes (ReadVarint32Fallback vt (ucast b) s) of_nat s"
    if "safe_to_decode xs \<Longrightarrow> hd xs = b" and "0 < BufferSize s \<Longrightarrow> 128 \<le> unat (hd (available rest s))" for b
  proof (cases "safe_to_decode xs")
    case True
    then have ne: "xs \<noteq> []"
      by (auto simp: safe_to_decode_def)
    then have h: "128 \<le> unat (hd xs)" "memory s ! 0 = b"
      using that True x(1-3) by (cases xs; auto)+
    from array_decoder_decodes [OF assms(1) x(1-3) True h(1), of "ReadVarint32FromArray (ucast b) (memory s)" of_nat]
    show ?thesis
      using True x(4) ReadVarint32FromArray_Some [of "memory s"] ReadVarint32FromArray_None [of "memory s"]
      by (simp add: ReadVarint32Fallback_def h(2))
  next
    case False
    with x(4) ReadVarint32Slow_decodes [OF assms(1) that(2)] show ?thesis
      by (simp add: ReadVarint32Fallback_def)
  qed
  show ?thesis
  proof (cases "0 < BufferSize s")
    case True
    from first_available [OF assms True] obtain b bs where b: "available rest s = b # bs" "byte_at 0 s = Inr b" "reads ok rest s 1 (Advance 1 s)" .
    show ?thesis
    proof (cases "unat b < 128")
      case one: True
      have "ReadVarint32 vt s = Inr (Some (of_nat (unat b)), Advance 1 s)"
        using True one b(2) by (simp add: ReadVarint32_def)
      with one_byte_decodes [OF assms True b(2,1) one] show ?thesis
        by metis
    next
      case False
      have "hd xs = b" if "safe_to_decode xs"
        using that b(1) x(2) by (cases xs) (auto simp: safe_to_decode_def)
      with True b False fallback [of b] show ?thesis
        by (simp add: ReadVarint32_def)
    qed
  next
    case False
    then have "\<not> safe_to_decode xs"
      using x(3) by (auto simp: safe_to_decode_def)
    with False fallback [of 0] show ?thesis
      by (simp add: ReadVarint32_def)
  qed
qed


section \<open>Tags\<close>

lemma reads_flags [simp]:
  "reads ok rest s n (t\<lparr>legitimate_message_end := e\<rparr>) = reads ok rest s n t"
  "reads ok rest s n (t\<lparr>last_tag := w\<rparr>) = reads ok rest s n t"
  by (simp_all add: reads_def ci_ok_def same_limits_def unread_def source_rest_def CurrentPosition_def BufferSize_def closest_limit_def)

text \<open>A call that returns the tag of the next varint, or 0 when there is none.\<close>

definition tag_decodes :: "(u32 \<times> 's coded_input) outcome \<Rightarrow> 's coded_input \<Rightarrow> bool" where
  "tag_decodes r s \<longleftrightarrow> (case varint_len 10 (available rest s) of
      Some n \<Rightarrow> \<exists>s'. r = Inr (of_nat (varint_value (take n (available rest s))), s') \<and> reads ok rest s n s'
    | None \<Rightarrow> \<exists>s' m. r = Inr (0, s') \<and> reads ok rest s m s')"

lemma decodes_tag:
  "decodes r f s \<Longrightarrow> (\<And>v. g (f v) = of_nat v) \<Longrightarrow>
   tag_decodes (and_then r (\<lambda>(x, s). Inr (case x of None \<Rightarrow> 0 | Some v \<Rightarrow> g v, s))) s"
  by (auto simp: decodes_def tag_decodes_def split: option.splits)

lemma tag_decodes_after:
  assumes "ci_ok ok s" and "reads ok rest s 0 t" and "tag_decodes r t"
  shows "tag_decodes r s"
proof -
  have "available rest t = available rest s"
    using reads_available [OF assms(1,2)] by simp
  moreover have "reads ok rest t n u \<Longrightarrow> reads ok rest s n u" for n u
    using reads_trans [OF assms(1,2), of n u] by simp
  ultimately show ?thesis
    using assms(3) by (auto simp: tag_decodes_def split: option.splits)
qed

lemma no_tag: "available rest s = [] \<Longrightarrow> reads ok rest s 0 t \<Longrightarrow> tag_decodes (Inr (0, t)) s"
  by (auto simp: tag_decodes_def numeral_eq_Suc)

lemma ReadTagSlow_decodes:
  assumes "ci_ok ok s"
  shows "tag_decodes (ReadTagSlow vt s) s"
proof (cases "buffer s = buffer_end s")
  case True
  then have "BufferSize s = 0"
    by (simp add: BufferSize_def)
  from Refresh_reads [OF assms this] obtain r t where r: "Refresh vt s = Inr (r, t)" "reads ok rest s 0 t"
    "\<not> r \<Longrightarrow> available rest s = []"
    by metis
  show ?thesis
  proof (cases r)
    case True
    have "tag_decodes (and_then (ReadVarint64 vt t) (\<lambda>(x, s). Inr (case x of None \<Rightarrow> 0 | Some v \<Rightarrow> ucast v, s))) t"
      using ReadVarint64_decodes [OF reads_ok [OF r(2)]] by (rule decodes_tag) (rule ucast_of_nat_u64)
    with tag_decodes_after [OF assms r(2)] True r(1) \<open>buffer s = buffer_end s\<close> show ?thesis
      by (simp add: ReadTagSlow_def)
  next
    case False
    with r \<open>buffer s = buffer_end s\<close> show ?thesis
      by (simp add: ReadTagSlow_def Let_def no_tag)
  qed
next
  case False
  have "tag_decodes (and_then (ReadVarint64 vt s) (\<lambda>(x, s). Inr (case x of None \<Rightarrow> 0 | Some v \<Rightarrow> ucast v, s))) s"
    using ReadVarint64_decodes [OF assms] by (rule decodes_tag) (rule ucast_of_nat_u64)
  with False show ?thesis
    by (simp add: ReadTagSlow_def)
qed

lemma ReadTagNoLastTag_decodes:
  assumes "ci_ok ok s"
  shows "tag_decodes (ReadTagNoLastTag vt s) s"
proof -
  obtain xs ys zs where x: "memory s = xs @ ys" "available rest s = xs @ zs" "length xs = nat (BufferSize s)"
    "array_read_is_safe s = Inr (safe_to_decode xs)"
    using buffer_prefix [OF assms(1)] .
  have fallback: "tag_decodes (ReadTagFallback vt (ucast b) s) s"
    if "safe_to_decode xs \<Longrightarrow> hd xs = b \<and> 128 \<le> unat b" for b
  proof (cases "safe_to_decode xs")
    case True
    then have "xs \<noteq> []"
      by (auto simp: safe_to_decode_def)
    then obtain c cs where "xs = c # cs"
      by (cases xs) auto
    with that True x(1) have h: "128 \<le> unat (hd xs)" "memory s ! 0 = b" "128 \<le> unat b"
      by auto
    then have ne: "(ucast b :: u32) \<noteq> 0"
      using unat_ucast_u8 [of b] by fastforce
    have "decodes (and_then (ReadVarint32FromArray (ucast b) (memory s))
        (\<lambda>r. case r of None \<Rightarrow> Inr (None, s) | Some (v, n) \<Rightarrow> Inr (Some v, Advance (int n) s))) of_nat s"
      using array_decoder_decodes [OF assms(1) x(1-3) True h(1), of "ReadVarint32FromArray (ucast b) (memory s)" of_nat]
        ReadVarint32FromArray_Some [of "memory s"] ReadVarint32FromArray_None [of "memory s"]
      by (simp add: h(2))
    from decodes_tag [OF this, of "\<lambda>v. v"] show ?thesis
      using True x(4) ne
      by (cases "ReadVarint32FromArray (ucast b) (memory s)") (auto simp: ReadTagFallback_def split: option.splits)
  next
    case False
    then show ?thesis
      using x(4) ReadTagSlow_decodes [OF assms] reads_0 [OF assms] available_stopped [OF assms, of rest]
      by (auto simp: ReadTagFallback_def stopped_def intro!: no_tag)
  qed
  show ?thesis
  proof (cases "0 < BufferSize s")
    case True
    from first_available [OF assms True] obtain b bs where b: "available rest s = b # bs" "byte_at 0 s = Inr b" "reads ok rest s 1 (Advance 1 s)" .
    show ?thesis
    proof (cases "unat b < 128")
      case one: True
      have "varint_len 10 (b # bs) = Some 1"
        using one by (simp add: varint_len_at)
      with True one b show ?thesis
        by (simp add: ReadTagNoLastTag_def tag_decodes_def)
    next
      case False
      have "hd xs = b" if "safe_to_decode xs"
        using that b(1) x(2) by (cases xs) (auto simp: safe_to_decode_def)
      with True b False fallback [of b] show ?thesis
        by (simp add: ReadTagNoLastTag_def)
    qed
  next
    case False
    then have "\<not> safe_to_decode xs"
      using x(3) by (auto simp: safe_to_decode_def)
    with False fallback [of 0] show ?thesis
      by (simp add: ReadTagNoLastTag_def)
  qed
qed

lemma ReadTag_decodes: "ci_ok ok s \<Longrightarrow> tag_decodes (ReadTag vt s) s"
  using ReadTagNoLastTag_decodes [of s] by (auto simp: tag_decodes_def ReadTag_def split: option.splits)

end

section \<open>Limits\<close>

definition with_limits :: "int \<Rightarrow> int \<Rightarrow> 's coded_input \<Rightarrow> 's coded_input" where
  "with_limits L M s = RecomputeBufferLimits (s\<lparr>current_limit := L, total_bytes_limit := M\<rparr>)"

lemma with_limits_ok:
  assumes "ci_ok ok s" and "CurrentPosition s \<le> L" "L \<le> INT_MAX" and "CurrentPosition s \<le> M" "M \<le> INT_MAX"
    and "source s = None \<Longrightarrow> L \<le> total_bytes_read s"
  shows "ci_ok ok (with_limits L M s)" "CurrentPosition (with_limits L M s) = CurrentPosition s"
    "unread rest (with_limits L M s) = unread rest s"
proof -
  let ?t = "with_limits L M s"
  have fields: "buffer ?t = buffer s" "block ?t = block s" "source ?t = source s" "overflow_bytes ?t = overflow_bytes s"
    "total_bytes_read ?t = total_bytes_read s" "closest_limit ?t = min L M" "current_limit ?t = L" "total_bytes_limit ?t = M"
    by (simp_all add: with_limits_def RecomputeBufferLimits_def Let_def closest_limit_def)
  have after: "buffer_size_after_limit ?t = max 0 (total_bytes_read s - min L M)"
    "buffer_end ?t = buffer_end s + buffer_size_after_limit s - buffer_size_after_limit ?t"
    by (simp_all add: with_limits_def RecomputeBufferLimits_def Let_def closest_limit_def max_def)
  have s: "0 \<le> buffer s" "buffer s \<le> buffer_end s" "0 \<le> buffer_size_after_limit s"
    using ci_okD [OF assms(1)] by auto
  have "CurrentPosition s = total_bytes_read s - (buffer_end s - buffer s + buffer_size_after_limit s)"
    by (simp add: CurrentPosition_def BufferSize_def)
  then have "buffer s \<le> buffer_end ?t"
    using after s assms(2,4) by linarith
  then show "ci_ok ok ?t"
    unfolding ci_ok_def fields using after assms by (auto simp: ci_ok_def)
  show "CurrentPosition ?t = CurrentPosition s"
    unfolding CurrentPosition_def BufferSize_def fields using after by simp
  show "unread rest ?t = unread rest s"
    by (simp add: unread_def source_rest_def fields)
qed

lemma PushLimit_eq:
  "PushLimit n s = (current_limit s,
     if 0 \<le> n \<and> n \<le> INT_MAX - CurrentPosition s \<and> n < current_limit s - CurrentPosition s
     then with_limits (CurrentPosition s + n) (total_bytes_limit s) s else s)"
  by (simp add: PushLimit_def with_limits_def Let_def)

lemma PopLimit_eq: "PopLimit limit s = (with_limits limit (total_bytes_limit s) s)\<lparr>legitimate_message_end := False\<rparr>"
  by (simp add: PopLimit_def with_limits_def)

lemma with_limits_closest: "closest_limit (with_limits L M s) = min L M"
  by (simp add: with_limits_def RecomputeBufferLimits_def Let_def closest_limit_def)

lemma with_limits_available:
  assumes "ci_ok ok s" and "CurrentPosition s \<le> L" "L \<le> INT_MAX" and "CurrentPosition s \<le> M" "M \<le> INT_MAX"
    and "source s = None \<Longrightarrow> L \<le> total_bytes_read s"
  shows "available rest (with_limits L M s) = take (nat (min L M - CurrentPosition s)) (unread rest s)"
  using with_limits_ok [OF assms] by (simp add: available_def with_limits_closest)

lemma position_below_limits:
  assumes "ci_ok ok s"
  shows "CurrentPosition s \<le> current_limit s" "CurrentPosition s \<le> total_bytes_limit s" "current_limit s \<le> INT_MAX"
    "total_bytes_limit s \<le> INT_MAX" "source s = None \<Longrightarrow> current_limit s \<le> total_bytes_read s"
  using ci_okD(4,5) [OF assms] assms by (auto simp: closest_limit_def ci_ok_def)

lemma PushLimit_available:
  assumes "ci_ok ok s" and "0 \<le> n"
  shows "ci_ok ok (snd (PushLimit n s))" "available rest (snd (PushLimit n s)) = take (nat n) (available rest s)"
    "CurrentPosition (snd (PushLimit n s)) = CurrentPosition s" "unread rest (snd (PushLimit n s)) = unread rest s"
proof -
  note p = position_below_limits [OF assms(1)] ci_okD(6) [OF assms(1)]
  show "ci_ok ok (snd (PushLimit n s))" "CurrentPosition (snd (PushLimit n s)) = CurrentPosition s"
    "unread rest (snd (PushLimit n s)) = unread rest s"
    using assms p by (auto simp: PushLimit_eq intro!: with_limits_ok)
  show "available rest (snd (PushLimit n s)) = take (nat n) (available rest s)"
  proof (cases "n \<le> INT_MAX - CurrentPosition s \<and> n < current_limit s - CurrentPosition s")
    case True
    then have "available rest (snd (PushLimit n s)) = take (nat (min (CurrentPosition s + n) (total_bytes_limit s) - CurrentPosition s)) (unread rest s)"
      using assms p by (simp add: PushLimit_eq) (intro with_limits_available, auto)
    moreover have "nat (min (CurrentPosition s + n) (total_bytes_limit s) - CurrentPosition s) =
        min (nat n) (nat (closest_limit s - CurrentPosition s))"
      using True by (auto simp: closest_limit_def min_def)
    ultimately show ?thesis
      by (simp add: available_def)
  next
    case False
    then have "closest_limit s - CurrentPosition s \<le> n"
      using p by (auto simp: closest_limit_def)
    then show ?thesis
      using False by (auto simp: PushLimit_eq available_def)
  qed
qed

lemma PushLimit_limits:
  "closest_limit s = min (fst (PushLimit n s)) (total_bytes_limit (snd (PushLimit n s)))"
  "source (snd (PushLimit n s)) = source s" "total_bytes_read (snd (PushLimit n s)) = total_bytes_read s"
  by (auto simp: PushLimit_eq closest_limit_def with_limits_def RecomputeBufferLimits_def Let_def)

text \<open>Popping the limit a push returned gives back the bytes that were hidden by it.\<close>

lemma PopLimit_available:
  assumes s: "ci_ok ok s" "0 \<le> n" and r: "reads ok rest (snd (PushLimit n s)) m u" and m: "m \<le> length (available rest (snd (PushLimit n s)))"
  shows "ci_ok ok (PopLimit (fst (PushLimit n s)) u)"
    and "available rest (PopLimit (fst (PushLimit n s)) u) = drop m (available rest s)"
proof -
  let ?t = "snd (PushLimit n s)" and ?L = "fst (PushLimit n s)"
  note t = PushLimit_available [OF s]
  have L: "?L = current_limit s"
    by (simp add: PushLimit_eq)
  have u: "ci_ok ok u" "unread rest u = drop m (unread rest s)" "CurrentPosition u = CurrentPosition s + int m"
    "total_bytes_limit u = total_bytes_limit ?t" "source u = None \<longleftrightarrow> source s = None"
    "source s = None \<Longrightarrow> total_bytes_read u = total_bytes_read s"
    using r m t PushLimit_limits(2,3) [of n s] by (auto simp: reads_def same_limits_def)
  have c: "closest_limit s = min ?L (total_bytes_limit u)"
    unfolding u(4) by (rule PushLimit_limits)
  have "int m \<le> closest_limit s - CurrentPosition s"
  proof -
    have "m \<le> length (available rest s)"
      using m unfolding t(2) by simp
    also have "\<dots> \<le> nat (closest_limit s - CurrentPosition s)"
      by (simp add: available_def)
    finally show ?thesis
      using ci_okD(4,5) [OF s(1)] by linarith
  qed
  then have "CurrentPosition u \<le> ?L"
    using u(3) c by linarith
  moreover have "?L \<le> INT_MAX" "source u = None \<Longrightarrow> ?L \<le> total_bytes_read u"
    using position_below_limits [OF s(1)] L u by auto
  ultimately have w: "ci_ok ok (with_limits ?L (total_bytes_limit u) u)"
    "available rest (with_limits ?L (total_bytes_limit u) u) = take (nat (min ?L (total_bytes_limit u) - CurrentPosition u)) (unread rest u)"
    using position_below_limits [OF u(1)] u(1) by (auto intro!: with_limits_ok with_limits_available)
  have flags: "ci_ok ok (x\<lparr>legitimate_message_end := False\<rparr>) = ci_ok ok x" "available rest (x\<lparr>legitimate_message_end := False\<rparr>) = available rest x"
    for x :: "'a coded_input"
    by (simp_all add: ci_ok_def available_def unread_def source_rest_def closest_limit_def CurrentPosition_def BufferSize_def)
  show "ci_ok ok (PopLimit ?L u)"
    unfolding PopLimit_eq flags by (rule w)
  have "nat (closest_limit s - CurrentPosition u) = nat (closest_limit s - CurrentPosition s) - m"
    using u(3) by simp
  then show "available rest (PopLimit ?L u) = drop m (available rest s)"
    unfolding PopLimit_eq flags w(2) c [symmetric] u(2) by (simp add: available_def drop_take)
qed

section \<open>Construction\<close>

definition fresh :: "'s \<Rightarrow> 's coded_input" where
  "fresh i = \<lparr>block = [], buffer = 0, buffer_end = 0, source = Some i, total_bytes_read = 0, overflow_bytes = 0,
     last_tag = 0, legitimate_message_end = False, current_limit = INT_MAX, buffer_size_after_limit = 0,
     total_bytes_limit = INT_MAX, recursion_budget = 100, recursion_limit = 100\<rparr>"

lemma fresh_ok: "ok i \<Longrightarrow> ci_ok ok (fresh i)" "available rest (fresh i) = take (nat INT_MAX) (rest i)" "BufferSize (fresh i) = 0"
  "unread rest (fresh i) = rest i" "CurrentPosition (fresh i) = 0"
  by (simp_all add: fresh_def ci_ok_def available_def unread_def source_rest_def closest_limit_def CurrentPosition_def BufferSize_def INT_MAX_def)

context zero_copy_input
begin

lemma CodedInputStream_ok:
  assumes "ok i"
  obtains s where "CodedInputStream vt i = Inr s" "ci_ok ok s" "available rest s = take (nat INT_MAX) (rest i)" "unread rest s = rest i"
proof -
  have f: "ci_ok ok (fresh i)"
    using assms by (rule fresh_ok)
  from Refresh_reads [OF f fresh_ok(3)] obtain r s where r: "Refresh vt (fresh i) = Inr (r, s)" "reads ok rest (fresh i) 0 s"
    by metis
  have "available rest s = take (nat INT_MAX) (rest i)"
    using reads_available [OF f r(2)] by (simp add: fresh_ok(2))
  moreover have "unread rest s = rest i"
    using r(2) fresh_ok(4) by (simp add: reads_def)
  ultimately show thesis
    using r by (intro that [of s]) (simp_all add: CodedInputStream_def fresh_def [symmetric] reads_ok)
qed

end

lemma CodedInputStream_flat_ok:
  assumes "int (length bytes) \<le> INT_MAX"
  shows "ci_ok ok (CodedInputStream_flat bytes)" "available rest (CodedInputStream_flat bytes) = bytes"
  using assms
  by (simp_all add: CodedInputStream_flat_def ci_ok_def available_def unread_def source_rest_def closest_limit_def CurrentPosition_def BufferSize_def)

section \<open>Properties\<close>

text \<open>C18. Reading a varint from a reader over an array, in blocks of any size, under any limits and from
  any position, returns the number the available bytes encode and leaves the bytes behind it; the
  32-bit reader returns its lower half. When the bytes hold no complete varint of at most ten
  bytes both readers fail. All calls return.\<close>

theorem ReadVarint_any_blocks:
  assumes "ci_ok array_ok s"
  shows "case varint_decode (available array_rest s) of
      None \<Rightarrow> (\<exists>t u. ReadVarint64 array_class s = Inr (None, t) \<and> ReadVarint32 array_class s = Inr (None, u))
    | Some (v, n) \<Rightarrow> (\<exists>t u. ReadVarint64 array_class s = Inr (Some (of_nat v), t) \<and> ReadVarint32 array_class s = Inr (Some (of_nat v), u) \<and>
        ci_ok array_ok t \<and> available array_rest t = drop n (available array_rest s) \<and>
        ci_ok array_ok u \<and> available array_rest u = drop n (available array_rest s))"
proof (cases "varint_len 10 (available array_rest s)")
  case None
  then show ?thesis
    using array.ReadVarint64_decodes [OF assms] array.ReadVarint32_decodes [OF assms]
    by (auto simp: varint_decode_def array.decodes_def)
next
  case (Some n)
  then show ?thesis
    using array.ReadVarint64_decodes [OF assms] array.ReadVarint32_decodes [OF assms] reads_available [OF assms, of array_rest n]
    by (auto simp: varint_decode_def array.decodes_def array.reads_ok)
qed

lemma ReadVarint_any_blocks_witness:
  "ci_ok array_ok (CodedInputStream_flat [0xAC, 0x02, 7]) \<and>
   varint_decode (available array_rest (CodedInputStream_flat [0xAC, 0x02, 7])) = Some (300, 2) \<and>
   (\<exists>t. ReadVarint64 array_class (CodedInputStream_flat [0xAC, 0x02, 7]) = Inr (Some 300, t) \<and> available array_rest t = [7])"
proof -
  let ?s = "CodedInputStream_flat [0xAC, 0x02, 7] :: array_input coded_input"
  have s: "ci_ok array_ok ?s" "available array_rest ?s = [0xAC, 0x02, 7]"
    by (rule CodedInputStream_flat_ok, simp add: INT_MAX_def)+
  have d: "varint_decode [0xAC, 0x02, 7] = Some (300, 2)"
    by code_simp
  obtain t where "ReadVarint64 array_class ?s = Inr (Some (of_nat 300), t)" "available array_rest t = drop 2 [0xAC, 0x02, 7]"
    using ReadVarint_any_blocks [OF s(1), unfolded s(2) d option.case prod.case] by blast
  with s d show ?thesis
    by simp
qed

text \<open>A 64-bit number written as a varint and followed by any bytes is read back by a reader over
  the array, for every block size, and the bytes behind it are what remains to be read.\<close>

theorem varint_round_trip:
  fixes v :: u64
  assumes "int (length (UnsafeVarint v @ tail)) \<le> INT_MAX"
  shows "\<exists>s t. CodedInputStream array_class (ArrayInputStream (UnsafeVarint v @ tail) (int (length (UnsafeVarint v @ tail))) block_size) = Inr s \<and>
    ReadVarint64 array_class s = Inr (Some v, t) \<and> available array_rest t = tail"
proof -
  let ?bytes = "UnsafeVarint v @ tail"
  let ?i = "ArrayInputStream ?bytes (int (length ?bytes)) block_size"
  have "array_ok ?i" "array_rest ?i = ?bytes"
    by (auto simp: array_ok_def array_rest_def ArrayInputStream_def)
  then obtain s where s: "CodedInputStream array_class ?i = Inr s" "ci_ok array_ok s" "available array_rest s = ?bytes"
    using assms array.CodedInputStream_ok [of ?i] by (metis nat_int nat_mono take_all)
  have "unat v < 2 ^ (7 * 10)"
    by (rule less_trans [of _ "2 ^ 64"]) (use unsigned_less [of v] in simp_all)
  then have "varint_len 10 ?bytes = Some (length (UnsafeVarint v))" "varint_value (UnsafeVarint v) = unat v"
    using varint_bytes_len [of "unat v" 10 tail] by (simp_all add: UnsafeVarint_bytes)
  with array.ReadVarint64_decodes [OF s(2)] obtain t where
    "ReadVarint64 array_class s = Inr (Some v, t)" "reads array_ok array_rest s (length (UnsafeVarint v)) t"
    by (auto simp: array.decodes_def s(3))
  then show ?thesis
    using s(1) reads_available [OF s(2)] s(3) by fastforce
qed

lemma varint_round_trip_witness:
  "\<exists>s t. CodedInputStream array_class (ArrayInputStream (UnsafeVarint (300 :: u64) @ [7]) (int (length (UnsafeVarint (300 :: u64) @ [7]))) 1) = Inr s \<and>
    ReadVarint64 array_class s = Inr (Some 300, t) \<and> available array_rest t = [7]"
proof (rule varint_round_trip)
  have "bit_scan_reverse 300 < 9"
    by (rule bit_scan_reverse_width) simp_all
  then have "length (UnsafeVarint (300 :: u64)) \<le> 10"
    by (simp add: UnsafeVarint_bytes length_varint_bytes_all)
  then show "int (length (UnsafeVarint (300 :: u64) @ [7])) \<le> INT_MAX"
    by (simp add: INT_MAX_def)
qed

text \<open>C31. A raw read through a limit on an array source returns the next bytes wherever the blocks end:
  exactly those asked for when that many are available, all available ones and failure otherwise.
  It always returns.\<close>

theorem ReadRaw_any_blocks:
  assumes "ci_ok (limiting_ok array_ok) s" and "0 \<le> n"
  shows "\<exists>t. ReadRaw (limiting_class array_class) n s =
      Inr ((nat n \<le> length (available (limiting_rest array_rest) s), take (nat n) (available (limiting_rest array_rest) s)), t) \<and>
    ci_ok (limiting_ok array_ok) t \<and> available (limiting_rest array_rest) t = drop (nat n) (available (limiting_rest array_rest) s)"
  using limited_array.ReadRaw_loop_reads [OF assms, of "[]"] reads_available [OF assms(1)]
  by (auto simp: ReadRaw_def limited_array.reads_ok)

lemma ReadRaw_any_blocks_witness:
  "let i = LimitingInputStream array_class (ArrayInputStream [1, 2, 3, 4, 5, 6] 6 2) 5 in
   \<exists>s t. CodedInputStream (limiting_class array_class) i = Inr s \<and> ci_ok (limiting_ok array_ok) s \<and>
     ReadRaw (limiting_class array_class) 4 s = Inr ((True, [1, 2, 3, 4]), t) \<and> available (limiting_rest array_rest) t = [5]"
proof -
  let ?i = "LimitingInputStream array_class (ArrayInputStream [1, 2, 3, 4, 5, 6] 6 2) 5"
  have "limiting_ok array_ok ?i" "limiting_rest array_rest ?i = [1, 2, 3, 4, 5]"
    by (simp_all add: limiting_ok_def array_ok_def limiting_rest_def array_rest_def LimitingInputStream_def ArrayInputStream_def eval_nat_numeral)
  then obtain s where s: "CodedInputStream (limiting_class array_class) ?i = Inr s" "ci_ok (limiting_ok array_ok) s"
    "available (limiting_rest array_rest) s = [1, 2, 3, 4, 5]"
    using limited_array.CodedInputStream_ok [of ?i] by (auto simp: INT_MAX_def)
  then show ?thesis
    using ReadRaw_any_blocks [OF s(2), of 4] by (auto simp: Let_def)
qed



end
