(* ===== verification/Pb_Parse_Varint.thy ===== *)
theory Pb_Parse_Varint
  imports Pb_Stream Pb_Varint
begin

text \<open>
  The number decoders of the message parser (Headers/google/protobuf/parse_context.h and
  parse_context.cc). They read from a pointer into memory without knowing where the message ends:
  the memory is a list of bytes, a read behind its end has no defined behaviour, and the result is
  the number with the count of bytes it took, or \<open>None\<close> for a null pointer. All of them add a byte
  less one, shifted, so that the one cancels the continuation bit of the byte before.
\<close>

section \<open>Decoders\<close>

text \<open>The loop \<open>res += (byte - 1) << (7 * i)\<close> over the indices it reads; \<open>Inl\<close> is its end without a
  final byte.\<close>

fun add_varint_bytes :: "u8 list \<Rightarrow> nat list \<Rightarrow> 'a::len word \<Rightarrow> ('a word + 'a word \<times> nat) outcome" where
  "add_varint_bytes p [] res = Inr (Inl res)"
| "add_varint_bytes p (i # is) res =
     and_then (mem_at p i) (\<lambda>byte.
       let res = res + push_bit (7 * i) (ucast byte - 1) in
       if unat byte < 128 then Inr (Inr (res, i + 1)) else add_varint_bytes p is res)"

definition VarintParseSlow32 :: "u8 list \<Rightarrow> u32 \<Rightarrow> (u32 \<times> nat) option outcome" where
  "VarintParseSlow32 p res =
     and_then (add_varint_bytes p [2, 3, 4] res) (\<lambda>r. case r of
         Inr (res, n) \<Rightarrow> Inr (Some (res, n))
       | Inl res \<Rightarrow> and_then (first_terminator p [5, 6, 7, 8, 9]) (\<lambda>t. Inr (map_option (\<lambda>n. (res, n)) t)))"

definition VarintParseSlow64 :: "u8 list \<Rightarrow> u32 \<Rightarrow> (u64 \<times> nat) option outcome" where
  "VarintParseSlow64 p res32 =
     and_then (add_varint_bytes p [2, 3, 4, 5, 6, 7, 8, 9] (ucast res32)) (\<lambda>r. case r of
         Inr (res, n) \<Rightarrow> Inr (Some (res, n))
       | Inl _ \<Rightarrow> Inr None)"

text \<open>\<open>VarintParse\<close> for its two result types.\<close>

definition VarintParse32 :: "u8 list \<Rightarrow> (u32 \<times> nat) option outcome" where
  "VarintParse32 p =
     and_then (mem_at p 0) (\<lambda>b. let res = ucast b :: u32 in
     if \<not> res AND 0x80 \<noteq> 0 then Inr (Some (res, 1)) else
     and_then (mem_at p 1) (\<lambda>b. let byte = ucast b :: u32; res = res + push_bit 7 (byte - 1) in
     if \<not> byte AND 0x80 \<noteq> 0 then Inr (Some (res, 2)) else VarintParseSlow32 p res))"

definition VarintParse64 :: "u8 list \<Rightarrow> (u64 \<times> nat) option outcome" where
  "VarintParse64 p =
     and_then (mem_at p 0) (\<lambda>b. let res = ucast b :: u32 in
     if \<not> res AND 0x80 \<noteq> 0 then Inr (Some (ucast res, 1)) else
     and_then (mem_at p 1) (\<lambda>b. let byte = ucast b :: u32; res = res + push_bit 7 (byte - 1) in
     if \<not> byte AND 0x80 \<noteq> 0 then Inr (Some (ucast res, 2)) else VarintParseSlow64 p res))"

definition ReadTagFallback :: "u8 list \<Rightarrow> u32 \<Rightarrow> (u32 \<times> nat) option outcome" where
  "ReadTagFallback p res =
     and_then (add_varint_bytes p [2, 3, 4] res) (\<lambda>r. case r of
         Inr (res, n) \<Rightarrow> Inr (Some (res, n))
       | Inl _ \<Rightarrow> Inr None)"

definition ReadTag :: "u8 list \<Rightarrow> (u32 \<times> nat) option outcome" where
  "ReadTag p =
     and_then (mem_at p 0) (\<lambda>b. let res = ucast b :: u32 in
     if unat res < 128 then Inr (Some (res, 1)) else
     and_then (mem_at p 1) (\<lambda>b. let second = ucast b :: u32; res = res + push_bit 7 (second - 1) in
     if unat second < 128 then Inr (Some (res, 2)) else ReadTagFallback p res))"

definition ReadSizeFallback :: "u8 list \<Rightarrow> u32 \<Rightarrow> (u32 \<times> nat) option outcome" where
  "ReadSizeFallback p res =
     and_then (add_varint_bytes p [1, 2, 3] res) (\<lambda>r. case r of
         Inr (res, n) \<Rightarrow> Inr (Some (res, n))
       | Inl res \<Rightarrow> and_then (mem_at p 4) (\<lambda>byte.
           if 8 \<le> unat byte then Inr None else
           let res = res + push_bit 28 (ucast byte - 1) in
           if INT_MAX - 16 < uint res then Inr None else Inr (Some (res, 5))))"

definition ReadSize :: "u8 list \<Rightarrow> (u32 \<times> nat) option outcome" where
  "ReadSize p =
     and_then (mem_at p 0) (\<lambda>b. let res = ucast b :: u32 in
     if unat res < 128 then Inr (Some (res, 1)) else ReadSizeFallback p res)"

section \<open>What they compute\<close>

text \<open>Behind \<open>i\<close> continued bytes the sum is their value and the one that is still to be cancelled.\<close>

definition partial_sum :: "u8 list \<Rightarrow> nat \<Rightarrow> 'a::len word" where
  "partial_sum p i = of_nat (varint_value (take i p)) + push_bit (7 * i) 1"

lemma partial_sum_first:
  assumes "p \<noteq> []" and "128 \<le> unat (p ! 0)"
  shows "ucast (p ! 0) = (partial_sum p 1 :: 'a::len word)"
proof -
  obtain b bs where p: "p = b # bs"
    using assms by (cases p) auto
  have "(ucast b :: 'a word) = of_nat (unat b mod 128) + 128"
    using assms p by (intro ucast_continuing) simp
  moreover have "varint_value (take 1 p) = unat b mod 128"
    by (simp add: p)
  ultimately show ?thesis
    by (simp only: partial_sum_def p nth_Cons_0) (simp add: push_bit_eq_mult)
qed

lemma partial_sum_next:
  assumes "i < length p"
  shows "partial_sum p i + push_bit (7 * i) (ucast (p ! i) - 1) =
    (if unat (p ! i) < 128 then of_nat (varint_value (take (Suc i) p)) else partial_sum p (Suc i) :: 'a::len word)"
proof -
  have e: "partial_sum p i + push_bit (7 * i) (ucast (p ! i) - 1) =
      of_nat (varint_value (take i p)) + push_bit (7 * i) (ucast (p ! i)) + (0 :: 'a word)"
    by (simp add: partial_sum_def push_bit_eq_mult algebra_simps)
  show ?thesis
  proof (cases "unat (p ! i) < 128")
    case True
    with assms show ?thesis
      using add_final_byte [of i p, where 'a = 'a] by (simp only: e) simp
  next
    case False
    moreover have "push_bit (7 * i) 0x80 = (push_bit (7 * Suc i) 1 :: 'a word)"
      by (simp add: push_bit_eq_mult power_add)
    ultimately show ?thesis
      using add_continued_byte [of i p, where 'a = 'a] assms by (simp only: e) (simp add: partial_sum_def not_less)
  qed
qed

lemma add_varint_bytes_value:
  assumes "i \<le> j" and "j \<le> length p" and "\<forall>l<i. 128 \<le> unat (p ! l)"
  shows "add_varint_bytes p [i..<j] (partial_sum p i) =
    Inr (case varint_len j p of Some n \<Rightarrow> Inr (of_nat (varint_value (take n p)), n) | None \<Rightarrow> Inl (partial_sum p j))"
  using assms
proof (induction "j - i" arbitrary: i)
  case 0
  then have "varint_len j p = None"
    by (simp add: varint_len_None)
  with 0 show ?case
    by simp
next
  case (Suc d)
  then have i: "i < j" "i < length p"
    by auto
  show ?case
  proof (cases "unat (p ! i) < 128")
    case True
    then have "varint_len j p = Some (Suc i)"
      using Suc.prems i by (simp add: varint_len_at)
    then show ?thesis
      using True i by (simp add: upt_conv_Cons mem_at_def partial_sum_next del: upt_Suc)
  next
    case False
    have step: "add_varint_bytes p [i..<j] (partial_sum p i) = add_varint_bytes p [Suc i..<j] (partial_sum p (Suc i))"
      using False i by (simp add: upt_conv_Cons mem_at_def partial_sum_next del: upt_Suc)
    have all: "\<forall>l<Suc i. 128 \<le> unat (p ! l)"
      using Suc.prems(3) False by (auto simp: less_Suc_eq not_less)
    have d: "d = j - Suc i" "Suc i \<le> j"
      using Suc.hyps(2) i by simp_all
    show ?thesis
      unfolding step by (rule Suc.hyps(1) [OF d Suc.prems(2) all])
  qed
qed

text \<open>The references, as functions of the bytes.\<close>

definition read_varint :: "u8 list \<Rightarrow> (u64 \<times> nat) option" where
  "read_varint bs = map_option (\<lambda>n. (of_nat (varint_value (take n bs)), n)) (varint_len 10 bs)"

definition read_varint32 :: "u8 list \<Rightarrow> (u32 \<times> nat) option" where
  "read_varint32 bs = map_option (\<lambda>n. (of_nat (varint_value (take n bs)), n)) (varint_len 10 bs)"

definition read_tag :: "u8 list \<Rightarrow> (u32 \<times> nat) option" where
  "read_tag bs = map_option (\<lambda>n. (of_nat (varint_value (take n bs)), n)) (varint_len 5 bs)"

definition read_size :: "u8 list \<Rightarrow> (nat \<times> nat) option" where
  "read_size bs = (case varint_len 5 bs of None \<Rightarrow> None
     | Some n \<Rightarrow> let v = varint_value (take n bs) in if int v \<le> INT_MAX - 16 then Some (v, n) else None)"

lemma upt_literals:
  "[Suc 0..<4] = [1, 2, 3]" "[2..<5] = [2, 3, 4]" "[2..<10] = [2, 3, 4, 5, 6, 7, 8, 9]" "[5..<10] = [5, 6, 7, 8, 9 :: nat]"
  by (simp_all add: upt_rec)

lemma varint_len_first: "p \<noteq> [] \<Longrightarrow> unat (p ! 0) < 128 \<Longrightarrow> 0 < k \<Longrightarrow> varint_len k p = Some 1"
  by (simp add: varint_len_at Suc_le_eq)

lemma varint_len_second:
  "1 < length p \<Longrightarrow> 128 \<le> unat (p ! 0) \<Longrightarrow> unat (p ! 1) < 128 \<Longrightarrow> 1 < k \<Longrightarrow> varint_len k p = Some 2"
  by (simp add: varint_len_at)

lemma high_bit_u32: "(ucast (b :: u8) :: u32) AND 0x80 = 0 \<longleftrightarrow> unat b < 128"
proof -
  have "(ucast b AND 0x80 :: u32) = ucast (b AND 0x80)"
    by (simp add: unsigned_and_eq)
  moreover have "(ucast (b AND 0x80) :: u32) = 0 \<longleftrightarrow> b AND 0x80 = 0"
    using unat_ucast_u8 [of "b AND 0x80"] by (metis unat_eq_zero unsigned_0)
  ultimately show ?thesis
    by (simp add: byte_continues)
qed

lemma second_byte:
  fixes p :: "u8 list"
  assumes "1 < length p" and "128 \<le> unat (p ! 0)"
  shows "(ucast (p ! 0) + push_bit 7 (ucast (p ! 1) - 1) :: 'a::len word) =
    (if unat (p ! 1) < 128 then of_nat (varint_value (take 2 p)) else partial_sum p 2)"
proof -
  have "ucast (p ! 0) = (partial_sum p 1 :: 'a word)"
    using assms by (intro partial_sum_first) auto
  moreover have "partial_sum p 1 + push_bit 7 (ucast (p ! 1) - 1) =
      (if unat (p ! 1) < 128 then of_nat (varint_value (take 2 p)) else partial_sum p 2 :: 'a word)"
    using partial_sum_next [of 1 p, where 'a = 'a] assms(1) by (simp add: numeral_2_eq_2)
  ultimately show ?thesis
    by simp
qed

declare add_varint_bytes.simps [simp del] first_terminator.simps [simp del]

lemmas decoder_simps = Let_def mem_at_def high_bit_u32 second_byte [unfolded One_nat_def] unat_ucast_u8

lemma slow_loop:
  fixes p :: "u8 list"
  assumes "2 \<le> j" and "j \<le> length p" and "128 \<le> unat (p ! 0)" and "128 \<le> unat (p ! 1)"
  shows "add_varint_bytes p [2..<j] (partial_sum p 2) =
    Inr (case varint_len j p of Some n \<Rightarrow> Inr (of_nat (varint_value (take n p)), n) | None \<Rightarrow> Inl (partial_sum p j))"
  using assms by (intro add_varint_bytes_value) (auto simp: less_2_cases_iff)

text \<open>The three ways the first bytes of a number can look.\<close>

lemma first_bytes_cases:
  assumes "k \<le> length p" and "2 \<le> k"
  obtains (one) b bs where "p = b # bs" "unat b < 128" "varint_len k p = Some 1"
  | (two) "p \<noteq> []" "128 \<le> unat (p ! 0)" "unat (p ! Suc 0) < 128" "varint_len k p = Some 2"
  | (more) "p \<noteq> []" "128 \<le> unat (p ! 0)" "128 \<le> unat (p ! Suc 0)"
proof -
  have p: "p \<noteq> []" "1 < length p" "0 < k" "1 < k"
    using assms by auto
  then obtain b bs where b: "p = b # bs"
    by (cases p) auto
  consider "unat (p ! 0) < 128" | "128 \<le> unat (p ! 0)" "unat (p ! 1) < 128" | "128 \<le> unat (p ! 0)" "128 \<le> unat (p ! 1)"
    by linarith
  then show thesis
  proof cases
    case 1
    then show thesis
      using one [OF b] varint_len_first [OF p(1) 1 p(3)] b by simp
  next
    case 2
    then show thesis
      using two varint_len_second [OF p(2) 2 p(4)] p by simp
  next
    case 3
    then show thesis
      using more p by simp
  qed
qed

lemma ReadTag_value:
  assumes "5 \<le> length p"
  shows "ReadTag p = Inr (read_tag p)"
proof (rule first_bytes_cases [OF assms], goal_cases)
  case (4)
  then show ?case
    using assms slow_loop [of 5 p, where 'a = 32]
    by (simp add: ReadTag_def ReadTagFallback_def read_tag_def decoder_simps upt_literals split: option.split)
qed (use assms in \<open>simp_all add: ReadTag_def read_tag_def decoder_simps\<close>)

lemma varint_value_bound: "varint_value bs < 128 ^ length bs"
proof (induction bs)
  case (Cons b bs)
  have "unat b mod 128 < 128"
    by simp
  with Cons have "unat b mod 128 + 128 * varint_value bs < 128 * 128 ^ length bs"
    by linarith
  then show ?case
    by simp
qed simp

lemma ucast_of_nat_u32: "x < 2 ^ 32 \<Longrightarrow> (ucast (of_nat x :: u32) :: u64) = of_nat x"
  by (simp add: unsigned_of_nat take_bit_nat_eq_self)

lemma ucast_one_byte: "(ucast (ucast (b :: u8) :: u32) :: u64) = ucast b"
proof -
  have "unat b < 256"
    using unsigned_less [of b] by simp
  then have "unat b < 2 ^ 32"
    by simp
  from ucast_of_nat_u32 [OF this] show ?thesis
    by simp
qed

lemma ucast_two_bytes:
  assumes "2 \<le> length p"
  shows "(ucast (of_nat (varint_value (take 2 p)) :: u32) :: u64) = of_nat (varint_value (take 2 p))"
    and "(ucast (partial_sum p 2 :: u32) :: u64) = partial_sum p 2"
proof -
  have b: "varint_value (take 2 p) < 16384"
    using varint_value_bound [of "take 2 p"] assms by simp
  then show "(ucast (of_nat (varint_value (take 2 p)) :: u32) :: u64) = of_nat (varint_value (take 2 p))"
    by (intro ucast_of_nat_u32) simp
  have sum: "partial_sum p 2 = (of_nat (varint_value (take 2 p) + 16384) :: 'a::len word)"
    by (simp add: partial_sum_def push_bit_eq_mult)
  show "(ucast (partial_sum p 2 :: u32) :: u64) = partial_sum p 2"
    unfolding sum by (intro ucast_of_nat_u32) (use b in simp)
qed

lemma VarintParse64_value:
  assumes "10 \<le> length p"
  shows "VarintParse64 p = Inr (read_varint p)"
proof (rule first_bytes_cases [OF assms], goal_cases)
  case (4)
  then show ?case
    using assms slow_loop [of 10 p, where 'a = 64] ucast_two_bytes [of p]
    by (simp add: VarintParse64_def VarintParseSlow64_def read_varint_def decoder_simps upt_literals split: option.split)
qed (use assms ucast_two_bytes [of p] in \<open>simp_all add: VarintParse64_def read_varint_def decoder_simps ucast_one_byte\<close>)

lemma VarintParse32_value:
  assumes "10 \<le> length p"
  shows "VarintParse32 p = Inr (read_varint32 p)"
proof (rule first_bytes_cases [OF assms], goal_cases)
  case (4)
  show ?case
  proof (cases "varint_len 5 p")
    case (Some n)
    then have "varint_len 10 p = Some n"
      by (auto simp: varint_len_at)
    then show ?thesis
      using 4 Some assms slow_loop [of 5 p, where 'a = 32]
      by (simp add: VarintParse32_def VarintParseSlow32_def read_varint32_def decoder_simps upt_literals)
  next
    case None
    then have c: "\<forall>l<5. 128 \<le> unat (p ! l)"
      using assms by (simp add: varint_len_None)
    have loop: "add_varint_bytes p [2, 3, 4] (partial_sum p 2) = Inr (Inl (partial_sum p 5 :: u32))"
      using 4 None assms slow_loop [of 5 p, where 'a = 32] by (simp add: upt_literals)
    have t: "first_terminator p [5..<10] = Inr (varint_len 10 p)"
    proof (cases "varint_len 10 p")
      case (Some n)
      then have "5 \<le> n - 1" "n - 1 < 10" "n - 1 < length p" "\<forall>l. 5 \<le> l \<and> l < n - 1 \<longrightarrow> 128 \<le> unat (p ! l)"
          "unat (p ! (n - 1)) < 128" "0 < n"
        using c by (auto simp: varint_len_at not_less [symmetric])
      then show ?thesis
        using Some first_terminator_Some [of 5 "n - 1" 10 p] by simp
    next
      case None
      then have "\<forall>l<10. 128 \<le> unat (p ! l)"
        using assms by (simp add: varint_len_None)
      then show ?thesis
        using None assms first_terminator_None [of 5 10 p] by simp
    qed
    have "partial_sum p 5 = (of_nat (varint_value (take 5 p)) :: u32)"
      by (simp add: partial_sum_def push_bit_eq_mult)
    moreover have "(of_nat (varint_value (take n p)) :: u32) = of_nat (varint_value (take 5 p))"
      if "varint_len 10 p = Some n" for n
      using c that by (intro value_u32_take_5) (auto simp: varint_len_at not_less [symmetric])
    ultimately have "map_option (\<lambda>n. (partial_sum p 5 :: u32, n)) (varint_len 10 p) = read_varint32 p"
      by (cases "varint_len 10 p") (simp_all add: read_varint32_def)
    then show ?thesis
      using 4 assms loop t by (simp add: VarintParse32_def VarintParseSlow32_def decoder_simps upt_literals)
  qed
qed (use assms in \<open>simp_all add: VarintParse32_def read_varint32_def decoder_simps\<close>)

lemma ReadSize_value:
  assumes "5 \<le> length p"
  shows "ReadSize p = Inr (map_option (\<lambda>(v, n). (of_nat v, n)) (read_size p))"
proof (cases "unat (p ! 0) < 128")
  case True
  moreover obtain b bs where b: "p = b # bs"
    using assms by (cases p) auto
  ultimately have v: "varint_len 5 p = Some 1" "varint_value (take 1 p) = unat b"
    using varint_len_first [of p 5] by simp_all
  have "unat b \<le> 127"
    using True b by simp
  then have "int (unat b) \<le> INT_MAX - 16"
    unfolding INT_MAX_def by linarith
  then have "read_size p = Some (unat b, 1)"
    using v by (simp add: read_size_def)
  moreover have "mem_at p 0 = Inr b"
    by (simp add: mem_at_def b)
  ultimately show ?thesis
    using True by (simp add: ReadSize_def unat_ucast_u8 b)
next
  case False
  then have c0: "128 \<le> unat (p ! 0)" "p \<noteq> []" "\<forall>l<1. 128 \<le> unat (p ! l)"
    using assms by auto
  then have first: "ucast (p ! 0) = (partial_sum p 1 :: u32)"
    by (intro partial_sum_first)
  have loop: "add_varint_bytes p [1, 2, 3] (partial_sum p 1 :: u32) =
      Inr (case varint_len 4 p of Some n \<Rightarrow> Inr (of_nat (varint_value (take n p)), n) | None \<Rightarrow> Inl (partial_sum p 4))"
    using add_varint_bytes_value [of 1 4 p, where 'a = 32] c0 assms by (simp add: upt_literals)
  show ?thesis
  proof (cases "varint_len 4 p")
    case (Some n)
    then have l5: "varint_len 5 p = Some n" and n: "n \<le> 4"
      by (auto simp: varint_len_at)
    have "varint_value (take n p) < 128 ^ length (take n p)"
      by (rule varint_value_bound)
    also have "(128 :: nat) ^ length (take n p) \<le> 128 ^ 4"
      using n by (intro power_increasing) auto
    finally have "int (varint_value (take n p)) \<le> INT_MAX - 16"
      by (simp add: INT_MAX_def)
    then show ?thesis
      using False c0 loop Some l5 by (simp add: ReadSize_def ReadSizeFallback_def read_size_def decoder_simps first)
  next
    case None
    then have c: "\<forall>l<4. 128 \<le> unat (p ! l)"
      using assms by (simp add: varint_len_None)
    let ?v = "varint_value (take 5 p)"
    have fifth: "varint_len 5 p = (if unat (p ! 4) < 128 then Some 5 else None)"
    proof (cases "unat (p ! 4) < 128")
      case True
      then show ?thesis
        using c assms by (simp add: varint_len_at)
    next
      case False
      have "\<forall>l<5. 128 \<le> unat (p ! l)"
      proof (intro allI impI)
        fix l :: nat
        assume "l < 5"
        then have "l < 4 \<or> l = 4"
          by linarith
        then show "128 \<le> unat (p ! l)"
          using c False by auto
      qed
      then show ?thesis
        using False assms varint_len_None [of 5 p] by simp
    qed
    have split: "?v = varint_value (take 4 p) + 128 ^ 4 * (unat (p ! 4) mod 128)"
      using varint_value_take_Suc [of 4 p] assms by simp
    have low: "varint_value (take 4 p) < 128 ^ 4"
      using varint_value_bound [of "take 4 p"] assms by simp
    have sum: "partial_sum p 4 + push_bit 28 (ucast (p ! 4) - 1) = (of_nat ?v :: u32)" if "unat (p ! 4) < 128"
      using partial_sum_next [of 4 p, where 'a = 32] that assms by simp
    show ?thesis
    proof (cases "8 \<le> unat (p ! 4)")
      case True
      have "INT_MAX - 16 < int ?v" if "unat (p ! 4) < 128"
      proof -
        have "2147483648 \<le> ?v"
          using that True by (simp add: split)
        then show ?thesis
          unfolding INT_MAX_def by linarith
      qed
      then have "read_size p = None"
        by (auto simp: read_size_def fifth Let_def)
      then show ?thesis
        using False c0 loop None True assms by (simp add: ReadSize_def ReadSizeFallback_def decoder_simps first)
    next
      case small: False
      then have v: "?v < 2147483648"
        using low by (simp add: split)
      then have "uint (of_nat ?v :: u32) = int ?v"
        by (simp add: unsigned_of_nat take_bit_nat_eq_self)
      then show ?thesis
        using False c0 loop None small assms sum
        by (simp add: ReadSize_def ReadSizeFallback_def read_size_def decoder_simps first fifth)
    qed
  qed
qed

section \<open>Prefix readers\<close>

text \<open>
  What all of them share: the result depends only on the bytes they take, of which there are at most
  \<open>k\<close>. So it does not matter what follows, and cutting the input off at a limit only removes results.
\<close>

locale prefix_reader =
  fixes R :: "u8 list \<Rightarrow> ('v \<times> nat) option" and k :: nat
  assumes taken: "R bs = Some (v, n) \<Longrightarrow> 0 < n \<and> n \<le> k \<and> n \<le> length bs"
    and only_taken: "R bs = Some (v, n) \<Longrightarrow> take n bs = take n cs \<Longrightarrow> n \<le> length cs \<Longrightarrow> R cs = Some (v, n)"
begin

lemma limited: "R (take L U) = (case R U of Some (v, n) \<Rightarrow> if n \<le> L then Some (v, n) else None | None \<Rightarrow> None)"
proof (cases "R (take L U)")
  case (Some r)
  obtain v n where r: "r = (v, n)"
    by (cases r)
  then have "n \<le> length (take L U)"
    using Some taken by blast
  moreover from this have "R U = Some (v, n)"
    using only_taken [of "take L U" v n U] Some r by simp
  ultimately show ?thesis
    using Some r by simp
next
  case None
  have "\<not> n \<le> L" if "R U = Some (v, n)" for v n
    using only_taken [OF that, of "take L U"] taken [OF that] None by auto
  then show ?thesis
    using None by (auto split: option.split)
qed

text \<open>Reading from memory that continues with other bytes than the stream does.\<close>

lemma from_memory:
  assumes "k \<le> length xs \<or> zs = []"
  shows "R (xs @ zs) = (case R (xs @ ys) of Some (v, n) \<Rightarrow> if n \<le> length (xs @ zs) then Some (v, n) else None | None \<Rightarrow> None)"
proof (cases "R (xs @ zs)")
  case (Some r)
  obtain v n where r: "r = (v, n)"
    by (cases r)
  then have n: "0 < n" "n \<le> k" "n \<le> length (xs @ zs)"
    using Some taken [of "xs @ zs" v n] by auto
  then have "n \<le> length xs"
    using assms by auto
  then have "R (xs @ ys) = Some (v, n)"
    using only_taken [of "xs @ zs" v n "xs @ ys"] Some r by simp
  then show ?thesis
    using Some r n by simp
next
  case None
  have "\<not> n \<le> length (xs @ zs)" if m: "R (xs @ ys) = Some (v, n)" for v n
  proof
    assume "n \<le> length (xs @ zs)"
    moreover from this have "n \<le> length xs"
      using assms taken [OF m] by auto
    ultimately show False
      using only_taken [OF m, of "xs @ zs"] None by simp
  qed
  then show ?thesis
    using None by (auto split: option.split)
qed

end

lemma varint_len_taken:
  assumes "varint_len k bs = Some n" and "take n bs = take n cs" and "n \<le> length cs"
  shows "varint_len k cs = Some n"
proof -
  have "bs ! i = cs ! i" if "i < n" for i
    using assms(2) that by (metis nth_take)
  with assms show ?thesis
    by (auto simp: varint_len_at)
qed

interpretation read_varint: prefix_reader read_varint 10
proof
  show "read_varint bs = Some (v, n) \<Longrightarrow> 0 < n \<and> n \<le> 10 \<and> n \<le> length bs" for bs v n
    by (auto simp: read_varint_def dest: varint_len_bounds)
  show "read_varint bs = Some (v, n) \<Longrightarrow> take n bs = take n cs \<Longrightarrow> n \<le> length cs \<Longrightarrow> read_varint cs = Some (v, n)" for bs v n cs
    by (auto simp: read_varint_def dest: varint_len_taken [of _ bs _ cs])
qed

interpretation read_varint32: prefix_reader read_varint32 10
proof
  show "read_varint32 bs = Some (v, n) \<Longrightarrow> 0 < n \<and> n \<le> 10 \<and> n \<le> length bs" for bs v n
    by (auto simp: read_varint32_def dest: varint_len_bounds)
  show "read_varint32 bs = Some (v, n) \<Longrightarrow> take n bs = take n cs \<Longrightarrow> n \<le> length cs \<Longrightarrow> read_varint32 cs = Some (v, n)" for bs v n cs
    by (auto simp: read_varint32_def dest: varint_len_taken [of _ bs _ cs])
qed

interpretation read_tag: prefix_reader read_tag 5
proof
  show "read_tag bs = Some (v, n) \<Longrightarrow> 0 < n \<and> n \<le> 5 \<and> n \<le> length bs" for bs v n
    by (auto simp: read_tag_def dest: varint_len_bounds)
  show "read_tag bs = Some (v, n) \<Longrightarrow> take n bs = take n cs \<Longrightarrow> n \<le> length cs \<Longrightarrow> read_tag cs = Some (v, n)" for bs v n cs
    by (auto simp: read_tag_def dest: varint_len_taken [of _ bs _ cs])
qed

interpretation read_size: prefix_reader read_size 5
proof
  show "read_size bs = Some (v, n) \<Longrightarrow> 0 < n \<and> n \<le> 5 \<and> n \<le> length bs" for bs v n
    by (auto simp: read_size_def Let_def dest: varint_len_bounds split: option.splits if_splits)
  show "read_size bs = Some (v, n) \<Longrightarrow> take n bs = take n cs \<Longrightarrow> n \<le> length cs \<Longrightarrow> read_size cs = Some (v, n)" for bs v n cs
    by (auto simp: read_size_def Let_def split: option.splits if_splits dest: varint_len_taken [of _ bs _ cs])
qed

end
