(* ===== verification/Pb_Eps_Input.thy ===== *)
theory Pb_Eps_Input
  imports Pb_Parse_Varint
begin

text \<open>
  \<open>EpsCopyInputStream\<close> (Headers/google/protobuf/parse_context.h, parse_context.cc): the input of the
  message parsers. It presents the bytes of an array or of a \<open>ZeroCopyInputStream\<close> in regions, each
  with sixteen more bytes that may be read behind its end: these are the first bytes of the next
  region or, at the end of the input, left-over bytes. A parser reads a tag and a number without a
  check and finds out at the next \<open>Done\<close> whether it has gone too far.

  A pointer is an offset into \<open>region\<close>, the memory the current pointer points into: the array, a
  block of the source, or the patch buffer that joins the end of one block to the start of the
  next. Aliasing of string views, \<open>reserve\<close> and the \<open>GOOGLE_DCHECK\<close>s of debug builds of the library
  are left out.
\<close>

section \<open>State\<close>

definition kSlopBytes :: int where "kSlopBytes = 16"

text \<open>\<open>next_chunk_\<close> is null, the patch buffer or the block that comes after it.\<close>

datatype chunk_ptr = NullChunk | PatchBuffer | Chunk "u8 list"

record 's eps_input =
  region :: "u8 list"
  limit_end :: int
  buffer_end :: int
  next_chunk :: chunk_ptr
  last_size :: int
  limit :: int
  zcis :: "'s option"
  patch_buffer :: "u8 list"
  last_tag_minus_1 :: u32
  overall_limit :: int
  group_depth :: int

text \<open>Before \<open>InitFrom\<close>; the fields without an initialiser are all set there before they are used.\<close>

definition new_input :: "'s option \<Rightarrow> 's eps_input" where
  "new_input z =
     \<lparr>region = [], limit_end = 0, buffer_end = 0, next_chunk = NullChunk, last_size = 0, limit = 0, zcis = z,
      patch_buffer = replicate 32 0, last_tag_minus_1 = 0, overall_limit = INT_MAX, group_depth = - 2147483648\<rparr>"

text \<open>The memory behind a pointer, and \<open>n\<close> bytes of it.\<close>

definition mem_from :: "u8 list \<Rightarrow> int \<Rightarrow> u8 list" where
  "mem_from mem p = (if 0 \<le> p then drop (nat p) mem else [])"

definition load :: "u8 list \<Rightarrow> int \<Rightarrow> int \<Rightarrow> u8 list outcome" where
  "load mem p n =
     (if 0 \<le> p \<and> 0 \<le> n \<and> p + n \<le> int (length mem) then Inr (take (nat n) (drop (nat p) mem))
      else Inl (Undefined ''read outside of the region''))"

section \<open>Construction\<close>

definition InitFrom :: "u8 list \<Rightarrow> 's eps_input \<Rightarrow> int \<times> 's eps_input" where
  "InitFrom flat s =
     (let s = s\<lparr>overall_limit := 0\<rparr>; n = int (length flat) in
      if kSlopBytes < n
      then (0, s\<lparr>region := flat, limit := kSlopBytes, limit_end := n - kSlopBytes, buffer_end := n - kSlopBytes,
                 next_chunk := PatchBuffer\<rparr>)
      else let patch = overwrite (patch_buffer s) 0 flat in
           (0, s\<lparr>region := patch, patch_buffer := patch, limit := 0, limit_end := n, buffer_end := n,
                 next_chunk := NullChunk\<rparr>))"

definition InitFrom_stream :: "'s input_class \<Rightarrow> 's \<Rightarrow> 's eps_input \<Rightarrow> (int \<times> 's eps_input) outcome" where
  "InitFrom_stream vt z s =
     and_then (Next_of vt z) (\<lambda>(r, z).
       let s = s\<lparr>zcis := Some z, limit := INT_MAX\<rparr> in
       case r of
         Some data \<Rightarrow>
           let n = int (length data); s = s\<lparr>overall_limit := overall_limit s - n\<rparr> in
           if kSlopBytes < n
           then Inr (0, s\<lparr>region := data, limit := limit s - (n - kSlopBytes), limit_end := n - kSlopBytes,
                          buffer_end := n - kSlopBytes, next_chunk := PatchBuffer\<rparr>)
           else let ptr = 2 * kSlopBytes - n; patch = overwrite (patch_buffer s) (nat ptr) data in
                Inr (ptr, s\<lparr>region := patch, patch_buffer := patch, limit_end := kSlopBytes, buffer_end := kSlopBytes,
                            next_chunk := PatchBuffer\<rparr>)
       | None \<Rightarrow>
           Inr (0, s\<lparr>region := patch_buffer s, overall_limit := 0, next_chunk := NullChunk, last_size := 0,
                     limit_end := 0, buffer_end := 0\<rparr>))"

definition InitFrom_bounded :: "'s input_class \<Rightarrow> 's \<Rightarrow> int \<Rightarrow> 's eps_input \<Rightarrow> (int \<times> 's eps_input) outcome" where
  "InitFrom_bounded vt z bound s =
     (if bound = - 1 then InitFrom_stream vt z s
      else and_then (InitFrom_stream vt z (s\<lparr>overall_limit := bound\<rparr>)) (\<lambda>(res, s).
        let s = s\<lparr>limit := bound - (buffer_end s - res)\<rparr> in
        Inr (res, s\<lparr>limit_end := buffer_end s + min 0 (limit s)\<rparr>)))"

section \<open>Ends and limits\<close>

definition LastTag :: "'s eps_input \<Rightarrow> u32" where "LastTag s = last_tag_minus_1 s + 1"

definition ConsumeEndGroup :: "u32 \<Rightarrow> 's eps_input \<Rightarrow> bool \<times> 's eps_input" where
  "ConsumeEndGroup start_tag s = (last_tag_minus_1 s = start_tag, s\<lparr>last_tag_minus_1 := 0\<rparr>)"

definition EndedAtLimit :: "'s eps_input \<Rightarrow> bool" where "EndedAtLimit s \<longleftrightarrow> last_tag_minus_1 s = 0"
definition EndedAtEndOfStream :: "'s eps_input \<Rightarrow> bool" where "EndedAtEndOfStream s \<longleftrightarrow> last_tag_minus_1 s = 1"
definition SetLastTag :: "u32 \<Rightarrow> 's eps_input \<Rightarrow> 's eps_input" where "SetLastTag tag s = s\<lparr>last_tag_minus_1 := tag - 1\<rparr>"
definition SetEndOfStream :: "'s eps_input \<Rightarrow> 's eps_input" where "SetEndOfStream s = s\<lparr>last_tag_minus_1 := 1\<rparr>"

definition PushLimit :: "int \<Rightarrow> int \<Rightarrow> 's eps_input \<Rightarrow> int \<times> 's eps_input" where
  "PushLimit ptr n s =
     (let n = n + (ptr - buffer_end s); old_limit = limit s in
      (old_limit - n, s\<lparr>limit_end := buffer_end s + min 0 n, limit := n\<rparr>))"

definition PopLimit :: "int \<Rightarrow> 's eps_input \<Rightarrow> bool \<times> 's eps_input" where
  "PopLimit delta s =
     (if \<not> EndedAtLimit s then (False, s)
      else let s = s\<lparr>limit := limit s + delta\<rparr> in (True, s\<lparr>limit_end := buffer_end s + min 0 (limit s)\<rparr>))"

definition IsExceedingLimit :: "int \<Rightarrow> 's eps_input \<Rightarrow> bool" where
  "IsExceedingLimit ptr s \<longleftrightarrow> limit_end s < ptr \<and> (next_chunk s = NullChunk \<or> limit s < ptr - buffer_end s)"

definition BytesUntilLimit :: "int \<Rightarrow> 's eps_input \<Rightarrow> int" where
  "BytesUntilLimit ptr s = limit s + (buffer_end s - ptr)"

definition DataAvailable :: "int \<Rightarrow> 's eps_input \<Rightarrow> bool" where
  "DataAvailable ptr s \<longleftrightarrow> ptr < limit_end s"

section \<open>Going to the next region\<close>

text \<open>\<open>ParseEndsInSlopRegion\<close>: does the parse end with a zero or end-group tag before the slop bytes
  are used up? One turn of its loop yields the result or the next position and depth.\<close>

definition slop_step :: "u8 list \<Rightarrow> int \<Rightarrow> int \<Rightarrow> (bool + int \<times> int) outcome" where
  "slop_step mem ptr depth =
     and_then (ReadTag (mem_from mem ptr)) (\<lambda>r. case r of
         None \<Rightarrow> Inr (Inl False)
       | Some (tag, n) \<Rightarrow>
           let ptr = ptr + int n; wt = tag AND 7 in
           if kSlopBytes < ptr then Inr (Inl False)
           else if tag = 0 then Inr (Inl True)
           else if wt = 0 then and_then (VarintParse64 (mem_from mem ptr)) (\<lambda>v. case v of
                None \<Rightarrow> Inr (Inl False) | Some (_, n) \<Rightarrow> Inr (Inr (ptr + int n, depth)))
           else if wt = 1 then Inr (Inr (ptr + 8, depth))
           else if wt = 2 then and_then (ReadSize (mem_from mem ptr)) (\<lambda>v. case v of
                None \<Rightarrow> Inr (Inl False)
              | Some (len, n) \<Rightarrow> let ptr = ptr + int n in
                  if kSlopBytes - ptr < sint len then Inr (Inl False) else Inr (Inr (ptr + sint len, depth)))
           else if wt = 3 then Inr (Inr (ptr, depth + 1))
           else if wt = 4 then if depth - 1 < 0 then Inr (Inl True) else Inr (Inr (ptr, depth - 1))
           else if wt = 5 then Inr (Inr (ptr + 4, depth))
           else Inr (Inl False))"

partial_function (option) slop_loop :: "u8 list \<Rightarrow> int \<Rightarrow> int \<Rightarrow> bool outcome option" where
  "slop_loop mem ptr depth =
     (if kSlopBytes \<le> ptr then Some (Inr False)
      else case slop_step mem ptr depth of
             Inl e \<Rightarrow> Some (Inl e)
           | Inr (Inl b) \<Rightarrow> Some (Inr b)
           | Inr (Inr (ptr, depth)) \<Rightarrow> slop_loop mem ptr depth)"

declare slop_loop.simps [code]

definition ParseEndsInSlopRegion :: "u8 list \<Rightarrow> int \<Rightarrow> int \<Rightarrow> bool outcome" where
  "ParseEndsInSlopRegion mem overrun depth = returns (slop_loop mem overrun depth)"

definition StreamNext :: "'s input_class \<Rightarrow> 's eps_input \<Rightarrow> (u8 list option \<times> 's eps_input) outcome" where
  "StreamNext vt s =
     (case zcis s of
        None \<Rightarrow> Inl (Undefined ''zcis_ is null'')
      | Some z \<Rightarrow> and_then (Next_of vt z) (\<lambda>(r, z). case r of
            Some data \<Rightarrow> let n = int (length data) in
              Inr (Some data, s\<lparr>zcis := Some z, last_size := n, overall_limit := overall_limit s - n\<rparr>)
          | None \<Rightarrow> Inr (None, s\<lparr>zcis := Some z\<rparr>)))"

text \<open>\<open>while (StreamNext(&data))\<close>, which skips empty blocks.\<close>

partial_function (option) next_data :: "'s input_class \<Rightarrow> 's eps_input \<Rightarrow> (u8 list option \<times> 's eps_input) outcome option" where
  "next_data vt s =
     (case StreamNext vt s of
        Inl e \<Rightarrow> Some (Inl e)
      | Inr (None, s) \<Rightarrow> Some (Inr (None, s))
      | Inr (Some data, s) \<Rightarrow> if data = [] then next_data vt s else Some (Inr (Some data, s)))"

declare next_data.simps [code]

definition end_of_input :: "'s eps_input \<Rightarrow> int option \<times> 's eps_input" where
  "end_of_input s = (Some 0, s\<lparr>region := patch_buffer s, next_chunk := NullChunk, buffer_end := kSlopBytes, last_size := 0\<rparr>)"

definition NextBuffer :: "'s input_class \<Rightarrow> int \<Rightarrow> int \<Rightarrow> 's eps_input \<Rightarrow> (int option \<times> 's eps_input) outcome" where
  "NextBuffer vt overrun depth s =
     (case next_chunk s of
        NullChunk \<Rightarrow> Inr (None, s)
      | Chunk c \<Rightarrow> Inr (Some 0, s\<lparr>region := c, buffer_end := last_size s - kSlopBytes, next_chunk := PatchBuffer\<rparr>)
      | PatchBuffer \<Rightarrow>
          and_then (load (region s) (buffer_end s) kSlopBytes) (\<lambda>slop.
          let s = s\<lparr>patch_buffer := overwrite (patch_buffer s) 0 slop\<rparr> in
          and_then (if 0 < overall_limit s
                    then if depth < 0 then Inr True
                         else and_then (ParseEndsInSlopRegion (patch_buffer s) overrun depth) (\<lambda>ends. Inr (\<not> ends))
                    else Inr False) (\<lambda>go_on.
          if \<not> go_on then Inr (end_of_input s)
          else and_then (returns (next_data vt s)) (\<lambda>(r, s). case r of
              Some data \<Rightarrow>
                if kSlopBytes < last_size s
                then let patch = overwrite (patch_buffer s) 16 (take 16 data) in
                     Inr (Some 0, s\<lparr>patch_buffer := patch, region := patch, next_chunk := Chunk data, buffer_end := kSlopBytes\<rparr>)
                else let patch = overwrite (patch_buffer s) 16 data in
                     Inr (Some 0, s\<lparr>patch_buffer := patch, region := patch, next_chunk := PatchBuffer, buffer_end := last_size s\<rparr>)
            | None \<Rightarrow> Inr (end_of_input (s\<lparr>overall_limit := 0\<rparr>))))))"

definition Next :: "'s input_class \<Rightarrow> 's eps_input \<Rightarrow> (int option \<times> 's eps_input) outcome" where
  "Next vt s =
     and_then (NextBuffer vt 0 (- 1) s) (\<lambda>(r, s). case r of
         None \<Rightarrow> Inr (None, SetEndOfStream (s\<lparr>limit_end := buffer_end s\<rparr>))
       | Some p \<Rightarrow>
           let s = s\<lparr>limit := limit s - (buffer_end s - p)\<rparr> in
           Inr (Some p, s\<lparr>limit_end := buffer_end s + min 0 (limit s)\<rparr>))"

partial_function (option) done_loop ::
  "'s input_class \<Rightarrow> int \<Rightarrow> int \<Rightarrow> 's eps_input \<Rightarrow> ((int option \<times> bool) \<times> 's eps_input) outcome option" where
  "done_loop vt overrun depth s =
     (case NextBuffer vt overrun depth s of
        Inl e \<Rightarrow> Some (Inl e)
      | Inr (None, s) \<Rightarrow>
          if overrun \<noteq> 0 then Some (Inr ((None, True), s))
          else Some (Inr ((Some (buffer_end s), True), SetEndOfStream (s\<lparr>limit_end := buffer_end s\<rparr>)))
      | Inr (Some p, s) \<Rightarrow>
          let s = s\<lparr>limit := limit s - (buffer_end s - p)\<rparr>;
              p = p + overrun;
              overrun = p - buffer_end s
          in if 0 \<le> overrun then done_loop vt overrun depth s
             else Some (Inr ((Some p, False), s\<lparr>limit_end := buffer_end s + min 0 (limit s)\<rparr>)))"

declare done_loop.simps [code]

definition DoneFallback ::
  "'s input_class \<Rightarrow> int \<Rightarrow> int \<Rightarrow> 's eps_input \<Rightarrow> ((int option \<times> bool) \<times> 's eps_input) outcome" where
  "DoneFallback vt overrun depth s =
     (if limit s < overrun then Inr ((None, True), s) else returns (done_loop vt overrun depth s))"

definition DoneWithCheck ::
  "'s input_class \<Rightarrow> int \<Rightarrow> int \<Rightarrow> 's eps_input \<Rightarrow> ((int option \<times> bool) \<times> 's eps_input) outcome" where
  "DoneWithCheck vt ptr d s =
     (if ptr < limit_end s then Inr ((Some ptr, False), s)
      else let overrun = ptr - buffer_end s in
        if overrun = limit s
        then Inr ((if 0 < overrun \<and> next_chunk s = NullChunk then None else Some ptr, True), s)
        else DoneFallback vt overrun d s)"

text \<open>\<open>ParseContext::Done\<close>\<close>

definition Done :: "'s input_class \<Rightarrow> int \<Rightarrow> 's eps_input \<Rightarrow> ((int option \<times> bool) \<times> 's eps_input) outcome" where
  "Done vt ptr s = DoneWithCheck vt ptr (group_depth s) s"

definition StreamBackUp :: "'s input_class \<Rightarrow> int \<Rightarrow> 's eps_input \<Rightarrow> 's eps_input outcome" where
  "StreamBackUp vt count s =
     (case zcis s of
        None \<Rightarrow> Inl (Undefined ''zcis_ is null'')
      | Some z \<Rightarrow> and_then (BackUp_of vt count z) (\<lambda>z. Inr (s\<lparr>zcis := Some z, overall_limit := overall_limit s + count\<rparr>)))"

definition BackUp :: "'s input_class \<Rightarrow> int \<Rightarrow> 's eps_input \<Rightarrow> 's eps_input outcome" where
  "BackUp vt ptr s =
     (let count = (if next_chunk s = PatchBuffer then buffer_end s + kSlopBytes - ptr
                   else last_size s + (buffer_end s - ptr))
      in if 0 < count then StreamBackUp vt count s else Inr s)"

section \<open>Strings and packed fields\<close>

text \<open>\<open>AppendSize\<close>: the bytes up to the end of the slop of this region, then those of the next ones;
  \<open>out\<close> is what has been appended.\<close>

partial_function (option) AppendSize ::
  "'s input_class \<Rightarrow> int \<Rightarrow> int \<Rightarrow> u8 list \<Rightarrow> 's eps_input \<Rightarrow> ((int \<times> u8 list) option \<times> 's eps_input) outcome option" where
  "AppendSize vt ptr n out s =
     (let size_here = buffer_end s + kSlopBytes - ptr in
      if next_chunk s = NullChunk then Some (Inr (None, s))
      else case load (region s) ptr size_here of
             Inl e \<Rightarrow> Some (Inl e)
           | Inr bytes \<Rightarrow>
               let n = n - size_here; out = out @ bytes in
               if limit s \<le> kSlopBytes then Some (Inr (None, s))
               else case Next vt s of
                      Inl e \<Rightarrow> Some (Inl e)
                    | Inr (None, s) \<Rightarrow> Some (Inr (None, s))
                    | Inr (Some ptr, s) \<Rightarrow>
                        let ptr = ptr + kSlopBytes in
                        if buffer_end s + kSlopBytes - ptr < n then AppendSize vt ptr n out s
                        else case load (region s) ptr n of
                               Inl e \<Rightarrow> Some (Inl e)
                             | Inr bytes \<Rightarrow> Some (Inr (Some (ptr + n, out @ bytes), s)))"

declare AppendSize.simps [code]

definition ReadStringFallback ::
  "'s input_class \<Rightarrow> int \<Rightarrow> int \<Rightarrow> 's eps_input \<Rightarrow> ((int \<times> u8 list) option \<times> 's eps_input) outcome" where
  "ReadStringFallback vt ptr n s = returns (AppendSize vt ptr n [] s)"

definition ReadString ::
  "'s input_class \<Rightarrow> int \<Rightarrow> int \<Rightarrow> 's eps_input \<Rightarrow> ((int \<times> u8 list) option \<times> 's eps_input) outcome" where
  "ReadString vt ptr n s =
     (if n \<le> buffer_end s + kSlopBytes - ptr
      then and_then (load (region s) ptr n) (\<lambda>bytes. Inr (Some (ptr + n, bytes), s))
      else ReadStringFallback vt ptr n s)"

definition AppendStringFallback ::
  "'s input_class \<Rightarrow> int \<Rightarrow> int \<Rightarrow> u8 list \<Rightarrow> 's eps_input \<Rightarrow> ((int \<times> u8 list) option \<times> 's eps_input) outcome" where
  "AppendStringFallback vt ptr n str s = returns (AppendSize vt ptr n str s)"

definition AppendString ::
  "'s input_class \<Rightarrow> int \<Rightarrow> int \<Rightarrow> u8 list \<Rightarrow> 's eps_input \<Rightarrow> ((int \<times> u8 list) option \<times> 's eps_input) outcome" where
  "AppendString vt ptr n str s =
     (if n \<le> buffer_end s + kSlopBytes - ptr
      then and_then (load (region s) ptr n) (\<lambda>bytes. Inr (Some (ptr + n, str @ bytes), s))
      else AppendStringFallback vt ptr n str s)"

text \<open>\<open>Skip\<close> is the same with an \<open>append\<close> that does nothing.\<close>

definition SkipFallback :: "'s input_class \<Rightarrow> int \<Rightarrow> int \<Rightarrow> 's eps_input \<Rightarrow> (int option \<times> 's eps_input) outcome" where
  "SkipFallback vt ptr n s = and_then (returns (AppendSize vt ptr n [] s)) (\<lambda>(r, s). Inr (map_option fst r, s))"

definition Skip :: "'s input_class \<Rightarrow> int \<Rightarrow> int \<Rightarrow> 's eps_input \<Rightarrow> (int option \<times> 's eps_input) outcome" where
  "Skip vt ptr n s =
     (if n \<le> buffer_end s + kSlopBytes - ptr then Inr (Some (ptr + n), s) else SkipFallback vt ptr n s)"

partial_function (option) ReadPackedVarintArray ::
  "u8 list \<Rightarrow> int \<Rightarrow> int \<Rightarrow> u64 list \<Rightarrow> (int \<times> u64 list) option outcome option" where
  "ReadPackedVarintArray mem ptr stop vs =
     (if ptr < stop
      then case VarintParse64 (mem_from mem ptr) of
             Inl e \<Rightarrow> Some (Inl e)
           | Inr None \<Rightarrow> Some (Inr None)
           | Inr (Some (v, n)) \<Rightarrow> ReadPackedVarintArray mem (ptr + int n) stop (vs @ [v])
      else Some (Inr (Some (ptr, vs))))"

declare ReadPackedVarintArray.simps [code]

text \<open>One turn of the loop of \<open>ReadPackedVarint\<close>: the result, or the pointer, the size that is left and
  the numbers for the next turn.\<close>

definition packed_step ::
  "'s input_class \<Rightarrow> int \<Rightarrow> int \<Rightarrow> u64 list \<Rightarrow> 's eps_input \<Rightarrow>
   (((int \<times> u64 list) option + int \<times> int \<times> u64 list) \<times> 's eps_input) outcome" where
  "packed_step vt ptr n vs s =
     (let size_here = buffer_end s - ptr in
      if size_here < n then
        and_then (returns (ReadPackedVarintArray (region s) ptr (buffer_end s) vs)) (\<lambda>r. case r of
            None \<Rightarrow> Inr (Inl None, s)
          | Some (ptr, vs) \<Rightarrow>
              let overrun = ptr - buffer_end s in
              if n - size_here \<le> kSlopBytes
              then and_then (load (region s) (buffer_end s) kSlopBytes) (\<lambda>slop.
                   let buf = overwrite (replicate 26 0) 0 slop; stop = n - size_here in
                   and_then (returns (ReadPackedVarintArray buf overrun stop vs)) (\<lambda>r. case r of
                       None \<Rightarrow> Inr (Inl None, s)
                     | Some (res, vs) \<Rightarrow>
                         Inr (Inl (if res \<noteq> stop then None else Some (buffer_end s + res, vs)), s)))
              else
                let n = n - (overrun + size_here) in
                if limit s \<le> kSlopBytes then Inr (Inl None, s)
                else and_then (Next vt s) (\<lambda>(q, s). case q of
                         None \<Rightarrow> Inr (Inl None, s)
                       | Some q \<Rightarrow> Inr (Inr (q + overrun, n, vs), s)))
      else let stop = ptr + n in
        and_then (returns (ReadPackedVarintArray (region s) ptr stop vs)) (\<lambda>r. case r of
            None \<Rightarrow> Inr (Inl None, s)
          | Some (ptr, vs) \<Rightarrow> Inr (Inl (if stop = ptr then Some (ptr, vs) else None), s)))"

partial_function (option) packed_loop ::
  "'s input_class \<Rightarrow> int \<Rightarrow> int \<Rightarrow> u64 list \<Rightarrow> 's eps_input \<Rightarrow> ((int \<times> u64 list) option \<times> 's eps_input) outcome option" where
  "packed_loop vt ptr n vs s =
     (case packed_step vt ptr n vs s of
        Inl e \<Rightarrow> Some (Inl e)
      | Inr (Inl r, s) \<Rightarrow> Some (Inr (r, s))
      | Inr (Inr (ptr, n, vs), s) \<Rightarrow> packed_loop vt ptr n vs s)"

declare packed_loop.simps [code]

definition ReadPackedVarint ::
  "'s input_class \<Rightarrow> int \<Rightarrow> 's eps_input \<Rightarrow> ((int \<times> u64 list) option \<times> 's eps_input) outcome" where
  "ReadPackedVarint vt ptr s =
     and_then (ReadSize (mem_from (region s) ptr)) (\<lambda>r. case r of
         None \<Rightarrow> Inr (None, s)
       | Some (len, k) \<Rightarrow> returns (packed_loop vt (ptr + int k) (sint len) [] s))"

end
