(* ===== verification/Pb_Eps_View.thy ===== *)
theory Pb_Eps_View
  imports Pb_Eps_Input
begin

text \<open>
  What a pointer of an \<open>EpsCopyInputStream\<close> stands for: the bytes of the input from there on and the
  number of bytes up to the limit in force, whatever regions the bytes lie in. A pointer that has gone
  past either end stands for nothing. Every operation is a function of that view.
\<close>

section \<open>Invariant and view\<close>

definition source_rest :: "('s \<Rightarrow> u8 list) \<Rightarrow> 's eps_input \<Rightarrow> u8 list" where
  "source_rest rest s = (case zcis s of None \<Rightarrow> [] | Some z \<Rightarrow> rest z)"

text \<open>The source still delivers everything: the count of \<open>overall_limit_\<close> does not run out.\<close>

definition source_ok :: "('s \<Rightarrow> bool) \<Rightarrow> ('s \<Rightarrow> u8 list) \<Rightarrow> 's eps_input \<Rightarrow> bool" where
  "source_ok ok rest s \<longleftrightarrow>
     (case zcis s of None \<Rightarrow> overall_limit s \<le> 0 | Some z \<Rightarrow> ok z \<and> int (length (rest z)) < overall_limit s)"

definition eps_core :: "('s \<Rightarrow> bool) \<Rightarrow> ('s \<Rightarrow> u8 list) \<Rightarrow> 's eps_input \<Rightarrow> bool" where
  "eps_core ok rest s \<longleftrightarrow>
     length (patch_buffer s) = 32 \<and> 0 \<le> buffer_end s \<and> buffer_end s + 16 \<le> int (length (region s)) \<and>
     group_depth s < 0 \<and>
     (case next_chunk s of
        NullChunk \<Rightarrow> True
      | PatchBuffer \<Rightarrow> source_ok ok rest s
      | Chunk c \<Rightarrow> source_ok ok rest s \<and> buffer_end s = 16 \<and> last_size s = int (length c) \<and> 16 < length c \<and>
          take 16 (drop 16 (region s)) = take 16 c)"

definition eps_ok :: "('s \<Rightarrow> bool) \<Rightarrow> ('s \<Rightarrow> u8 list) \<Rightarrow> 's eps_input \<Rightarrow> bool" where
  "eps_ok ok rest s \<longleftrightarrow> eps_core ok rest s \<and> limit_end s = buffer_end s + min 0 (limit s)"

definition ptr_ok :: "'s eps_input \<Rightarrow> int \<Rightarrow> bool" where
  "ptr_ok s p \<longleftrightarrow> 0 \<le> p \<and> p \<le> buffer_end s + 16"

text \<open>What reading leaves alone.\<close>

abbreviation kept :: "'s eps_input \<Rightarrow> 's eps_input \<Rightarrow> bool" where
  "kept s t \<equiv> last_tag_minus_1 t = last_tag_minus_1 s \<and> group_depth t = group_depth s"

text \<open>The input from the start of the region, and behind its slop bytes.\<close>

definition ahead :: "('s \<Rightarrow> u8 list) \<Rightarrow> 's eps_input \<Rightarrow> u8 list" where
  "ahead rest s =
     (case next_chunk s of
        NullChunk \<Rightarrow> take (nat (buffer_end s)) (region s)
      | PatchBuffer \<Rightarrow> take (nat (buffer_end s + 16)) (region s) @ source_rest rest s
      | Chunk c \<Rightarrow> take (nat (buffer_end s)) (region s) @ c @ source_rest rest s)"

type_synonym view = "(u8 list \<times> nat) option"

definition view_at :: "('s \<Rightarrow> u8 list) \<Rightarrow> 's eps_input \<Rightarrow> int \<Rightarrow> view" where
  "view_at rest s p =
     (if int (length (ahead rest s)) < p \<or> BytesUntilLimit p s < 0 then None
      else Some (drop (nat p) (ahead rest s), nat (BytesUntilLimit p s)))"

text \<open>Going \<open>n\<close> bytes on, and what a reader of bytes makes of a view.\<close>

definition shift :: "nat \<Rightarrow> view \<Rightarrow> view" where
  "shift n V = (case V of None \<Rightarrow> None
     | Some (U, L) \<Rightarrow> if n \<le> length U \<and> n \<le> L then Some (drop n U, L - n) else None)"

definition on_view :: "(u8 list \<Rightarrow> ('v \<times> nat) option) \<Rightarrow> view \<Rightarrow> ('v \<times> (u8 list \<times> nat)) option" where
  "on_view R V = (case V of None \<Rightarrow> None
     | Some (U, L) \<Rightarrow> (case R (take L U) of None \<Rightarrow> None | Some (v, n) \<Rightarrow> Some (v, (drop n U, L - n))))"

lemma shift_0 [simp]: "shift 0 V = V"
  by (cases V) (auto simp: shift_def)

lemma shift_None [simp]: "shift n None = None"
  by (simp add: shift_def)

lemma shift_shift: "shift n (shift m V) = shift (m + n) V"
  by (cases V) (auto simp: shift_def add.commute)

lemma view_at_advance:
  assumes "0 \<le> p"
  shows "view_at rest s (p + int n) = shift n (view_at rest s p)"
proof -
  have "nat (p + int n) = n + nat p"
    using assms by simp
  moreover have "nat (BytesUntilLimit (p + int n) s) = nat (BytesUntilLimit p s) - n"
    by (simp add: BytesUntilLimit_def)
  ultimately show ?thesis
    using assms by (auto simp: view_at_def shift_def BytesUntilLimit_def)
qed

lemma view_at_fields:
  assumes "region t = region s" "next_chunk t = next_chunk s" "buffer_end t = buffer_end s" "zcis t = zcis s" "limit t = limit s"
  shows "view_at rest t p = view_at rest s p"
proof -
  have "ahead rest t = ahead rest s"
    using assms by (simp add: ahead_def source_rest_def split: chunk_ptr.split)
  then show ?thesis
    using assms by (simp add: view_at_def BytesUntilLimit_def)
qed

lemma eps_okD:
  assumes "eps_ok ok rest s"
  shows "0 \<le> buffer_end s" "buffer_end s + 16 \<le> int (length (region s))" "limit_end s \<le> buffer_end s"
    "limit_end s = buffer_end s + min 0 (limit s)" "group_depth s < 0" "eps_core ok rest s"
  using assms by (auto simp: eps_ok_def eps_core_def)

text \<open>Behind its slop bytes the region is continued by these bytes, unless it is the last one.\<close>

definition beyond :: "('s \<Rightarrow> u8 list) \<Rightarrow> 's eps_input \<Rightarrow> u8 list" where
  "beyond rest s = (case next_chunk s of Chunk c \<Rightarrow> drop 16 c @ source_rest rest s | _ \<Rightarrow> source_rest rest s)"

lemma ahead_beyond:
  assumes "eps_core ok rest s" and "next_chunk s \<noteq> NullChunk"
  shows "ahead rest s = take (nat (buffer_end s + 16)) (region s) @ beyond rest s"
proof (cases "next_chunk s")
  case (Chunk c)
  with assms have e: "buffer_end s = 16" "take 16 (drop 16 (region s)) = take 16 c"
    by (auto simp: eps_core_def)
  have "take 32 (region s) = take 16 (region s) @ take 16 (drop 16 (region s))"
    using take_add [of 16 16 "region s"] by simp
  then show ?thesis
    using Chunk e by (simp add: ahead_def beyond_def)
qed (use assms in \<open>simp_all add: ahead_def beyond_def\<close>)

lemma memory_split:
  assumes "eps_core ok rest s" and "ptr_ok s p"
  obtains xs ys zs where "mem_from (region s) p = xs @ ys"
    "p \<le> int (length (ahead rest s)) \<Longrightarrow> drop (nat p) (ahead rest s) = xs @ zs"
    "nat (buffer_end s + 16 - p) \<le> length xs \<or> zs = []"
    "int (length (ahead rest s)) < p \<Longrightarrow> xs = []"
proof (cases "next_chunk s = NullChunk")
  case True
  let ?b = "nat (buffer_end s)" and ?p = "nat p"
  have a: "ahead rest s = take ?b (region s)"
    using True by (simp add: ahead_def)
  have len: "length (take ?b (region s)) = ?b"
    using assms(1) by (auto simp: eps_core_def)
  have "mem_from (region s) p = drop ?p (take ?b (region s)) @ drop (?p - length (take ?b (region s))) (drop ?b (region s))"
    using assms(2) drop_append [of ?p "take ?b (region s)" "drop ?b (region s)"] by (simp add: mem_from_def ptr_ok_def)
  then show thesis
    by (rule that [where zs = "[]"]) (use a in auto)
next
  case False
  let ?b = "nat (buffer_end s + 16)" and ?p = "nat p"
  have a: "ahead rest s = take ?b (region s) @ beyond rest s"
    by (rule ahead_beyond [OF assms(1) False])
  have p: "?p \<le> ?b" "?b \<le> length (region s)" "nat (buffer_end s + 16 - p) = ?b - ?p"
    using assms by (auto simp: eps_core_def ptr_ok_def nat_diff_distrib)
  have "mem_from (region s) p = drop ?p (take ?b (region s)) @ drop ?b (region s)"
    using assms(2) p drop_append [of ?p "take ?b (region s)" "drop ?b (region s)"] by (simp add: mem_from_def ptr_ok_def)
  moreover have "drop ?p (ahead rest s) = drop ?p (take ?b (region s)) @ beyond rest s"
    using a p by simp
  moreover have "length (drop ?p (take ?b (region s))) = ?b - ?p"
    using p by simp
  moreover have "p \<le> int (length (ahead rest s))"
    using a p assms(2) by (simp add: ptr_ok_def)
  ultimately show thesis
    by (intro that [of "drop ?p (take ?b (region s))" "drop ?b (region s)" "beyond rest s"]) (use p in auto)
qed

text \<open>A decoder that finds enough memory behind the pointer computes its function of the view.\<close>

context prefix_reader
begin

lemma reads_view:
  assumes "eps_core ok rest s" and "ptr_ok s p" and "p + int k \<le> buffer_end s + 16"
  shows "case R (mem_from (region s) p) of
      None \<Rightarrow> on_view R (view_at rest s p) = None
    | Some (v, n) \<Rightarrow> 0 < n \<and> n \<le> k \<and> on_view R (view_at rest s p) = map_option (Pair v) (view_at rest s (p + int n))"
proof (cases "R (mem_from (region s) p)")
  case None
  have "on_view R (view_at rest s p) = None"
  proof (cases "view_at rest s p")
    case (Some V)
    obtain U L where V: "V = (U, L)"
      by (cases V)
    then have U: "U = drop (nat p) (ahead rest s)" "p \<le> int (length (ahead rest s))"
      using Some by (auto simp: view_at_def split: if_splits)
    from memory_split [OF assms(1,2)] obtain xs ys zs where m: "mem_from (region s) p = xs @ ys" "U = xs @ zs"
        "nat (buffer_end s + 16 - p) \<le> length xs \<or> zs = []"
      using U by metis
    then have "k \<le> length xs \<or> zs = []"
      using assms(3) by linarith
    then have "R U = None"
      using from_memory [of xs zs ys] None m by simp
    then show ?thesis
      using Some V by (simp add: on_view_def limited)
  qed (simp add: on_view_def)
  then show ?thesis
    using None by simp
next
  case (Some r)
  obtain v n where r: "r = (v, n)"
    by (cases r)
  then have n: "0 < n" "n \<le> k"
    using Some taken by blast+
  have a: "view_at rest s (p + int n) = shift n (view_at rest s p)"
    using assms(2) by (intro view_at_advance) (simp add: ptr_ok_def)
  have "on_view R (view_at rest s p) = map_option (Pair v) (shift n (view_at rest s p))"
  proof (cases "view_at rest s p")
    case (Some V)
    obtain U L where V: "V = (U, L)"
      by (cases V)
    then have U: "U = drop (nat p) (ahead rest s)" "p \<le> int (length (ahead rest s))"
      using Some by (auto simp: view_at_def split: if_splits)
    from memory_split [OF assms(1,2)] obtain xs ys zs where m: "mem_from (region s) p = xs @ ys" "U = xs @ zs"
        "nat (buffer_end s + 16 - p) \<le> length xs \<or> zs = []"
      using U by metis
    then have "k \<le> length xs \<or> zs = []"
      using assms(3) by linarith
    then have "R U = (if n \<le> length U then Some (v, n) else None)"
      using from_memory [of xs zs ys] \<open>R (mem_from (region s) p) = Some r\<close> m r by simp
    then show ?thesis
      using Some V by (simp add: on_view_def limited shift_def)
  qed (simp add: on_view_def)
  then show ?thesis
    using Some r n a by simp
qed

end

end
