(* ===== verification/Pb_Eps_Read.thy ===== *)
theory Pb_Eps_Read
  imports Pb_Eps_View
begin

text \<open>
  The operations of \<open>EpsCopyInputStream\<close> as functions of the view, over every source that keeps the
  contract of \<open>ZeroCopyInputStream\<close>: going to the next region does not change what a pointer stands
  for, \<open>Done\<close> tells exactly whether the view is at its end, and strings and packed fields are read
  across any number of regions.
\<close>

section \<open>The next region\<close>

text \<open>A bound on the number of regions that are still to come.\<close>

definition flips :: "('s \<Rightarrow> u8 list) \<Rightarrow> 's eps_input \<Rightarrow> nat" where
  "flips rest s = (case next_chunk s of
      NullChunk \<Rightarrow> 0
    | PatchBuffer \<Rightarrow> Suc (length (source_rest rest s))
    | Chunk c \<Rightarrow> Suc (Suc (length (source_rest rest s))))"

text \<open>The next region starts where the one before ends.\<close>

definition flipped :: "('s \<Rightarrow> bool) \<Rightarrow> ('s \<Rightarrow> u8 list) \<Rightarrow> 's eps_input \<Rightarrow> 's eps_input \<Rightarrow> bool" where
  "flipped ok rest s t \<longleftrightarrow>
     eps_core ok rest t \<and> ahead rest t = drop (nat (buffer_end s)) (ahead rest s) \<and> flips rest t < flips rest s \<and>
     limit t = limit s \<and> kept s t"

lemma end_of_input_flipped:
  assumes "eps_core ok rest s" and "next_chunk s = PatchBuffer" and "source_rest rest s = []"
    and "patch_buffer t = overwrite (patch_buffer s) 0 (take 16 (drop (nat (buffer_end s)) (region s)))"
    and "limit t = limit s" "kept s t"
  shows "fst (end_of_input t) = Some 0 \<and> flipped ok rest s (snd (end_of_input t))"
proof -
  let ?slop = "take 16 (drop (nat (buffer_end s)) (region s))"
  have len: "length (patch_buffer s) = 32" "length ?slop = 16" "0 \<le> buffer_end s" "group_depth s < 0"
    using assms(1) by (auto simp: eps_core_def)
  then have p: "take 16 (patch_buffer t) = ?slop" "length (patch_buffer t) = 32"
    using assms(4) by (simp_all add: overwrite_def)
  have a: "ahead rest s = take (nat (buffer_end s) + 16) (region s)"
    using assms(2,3) len(3) by (simp add: ahead_def nat_add_distrib)
  then have "drop (nat (buffer_end s)) (ahead rest s) = ?slop"
    by (simp add: drop_take)
  then show ?thesis
    using assms p len by (simp add: flipped_def end_of_input_def eps_core_def ahead_def flips_def kSlopBytes_def)
qed

lemma Chunk_flipped:
  assumes "eps_core ok rest s" and "next_chunk s = Chunk c"
  shows "flipped ok rest s (s\<lparr>region := c, buffer_end := last_size s - kSlopBytes, next_chunk := PatchBuffer\<rparr>)"
proof -
  have c: "buffer_end s = 16" "last_size s = int (length c)" "16 < length c" "32 \<le> length (region s)"
    using assms by (auto simp: eps_core_def)
  moreover have "source_ok ok rest (s\<lparr>region := c, buffer_end := last_size s - kSlopBytes, next_chunk := PatchBuffer\<rparr>)"
    using assms by (simp add: eps_core_def source_ok_def split: option.splits)
  ultimately show ?thesis
    using assms by (simp add: flipped_def eps_core_def ahead_def flips_def source_rest_def kSlopBytes_def)
qed

lemma data_flipped:
  assumes "eps_core ok rest s" and "next_chunk s = PatchBuffer" and "data \<noteq> []"
    and "zcis s = Some z" "rest z = data @ rest z'" "ok z'"
    and t: "t = s\<lparr>patch_buffer := overwrite (patch_buffer s) 0 (take 16 (drop (nat (buffer_end s)) (region s))),
      zcis := Some z', last_size := int (length data), overall_limit := overall_limit s - int (length data)\<rparr>"
  shows "16 < length data \<Longrightarrow> flipped ok rest s
      (t\<lparr>patch_buffer := overwrite (patch_buffer t) 16 (take 16 data), region := overwrite (patch_buffer t) 16 (take 16 data),
         next_chunk := Chunk data, buffer_end := 16\<rparr>)"
    and "length data \<le> 16 \<Longrightarrow> flipped ok rest s
      (t\<lparr>patch_buffer := overwrite (patch_buffer t) 16 data, region := overwrite (patch_buffer t) 16 data,
         next_chunk := PatchBuffer, buffer_end := last_size t\<rparr>)"
proof -
  let ?slop = "take 16 (drop (nat (buffer_end s)) (region s))"
  have len: "length (patch_buffer s) = 32" "length ?slop = 16" "0 \<le> buffer_end s" "group_depth s < 0"
    using assms(1) by (auto simp: eps_core_def)
  have over: "int (length (rest z')) < overall_limit s - int (length data)"
    using assms by (auto simp: eps_core_def source_ok_def)
  have p: "take 16 (patch_buffer t) = ?slop" "length (patch_buffer t) = 32"
    using t len by (simp_all add: overwrite_def)
  have n: "nat (buffer_end s) + 16 \<le> length (region s)"
    using assms(1) by (auto simp: eps_core_def)
  have "ahead rest s = take (nat (buffer_end s) + 16) (region s) @ rest z"
    using assms len(3) by (simp add: ahead_def nat_add_distrib source_rest_def)
  then have a: "drop (nat (buffer_end s)) (ahead rest s) = ?slop @ data @ rest z'"
    using assms n by (simp add: drop_take)
  have ow: "overwrite (patch_buffer t) 16 xs = ?slop @ xs @ drop (16 + length xs) (patch_buffer t)" for xs
    by (simp add: overwrite_def p(1))
  show "flipped ok rest s
      (t\<lparr>patch_buffer := overwrite (patch_buffer t) 16 (take 16 data), region := overwrite (patch_buffer t) 16 (take 16 data),
         next_chunk := Chunk data, buffer_end := 16\<rparr>)" if l: "16 < length data"
  proof -
    have "length (overwrite (patch_buffer t) 16 (take 16 data)) = 32"
      using p l by simp
    moreover have "take 16 (overwrite (patch_buffer t) 16 (take 16 data)) = ?slop"
      "take 16 (drop 16 (overwrite (patch_buffer t) 16 (take 16 data))) = take 16 data"
      using len l by (simp_all add: ow)
    ultimately show ?thesis
      using a assms over len l unfolding t
      by (simp add: flipped_def eps_core_def ahead_def flips_def source_rest_def source_ok_def)
  qed
  show "flipped ok rest s
      (t\<lparr>patch_buffer := overwrite (patch_buffer t) 16 data, region := overwrite (patch_buffer t) 16 data,
         next_chunk := PatchBuffer, buffer_end := last_size t\<rparr>)" if l: "length data \<le> 16"
  proof -
    have "length (overwrite (patch_buffer t) 16 data) = 32"
      using p l by simp
    moreover have "take (length data + 16) (overwrite (patch_buffer t) 16 data) = ?slop @ data"
      using len l by (simp add: ow)
    moreover have "nat (int (length data) + 16) = length data + 16"
      by simp
    ultimately show ?thesis
      using a assms over len l unfolding t
      by (simp add: flipped_def eps_core_def ahead_def flips_def source_rest_def source_ok_def)
  qed
qed

lemma ahead_length:
  assumes "eps_core ok rest s"
  shows "nat (buffer_end s) \<le> length (ahead rest s)"
    and "next_chunk s \<noteq> NullChunk \<Longrightarrow> nat (buffer_end s + 16) \<le> length (ahead rest s)"
    and "next_chunk s = NullChunk \<Longrightarrow> length (ahead rest s) = nat (buffer_end s)"
proof -
  have "nat (buffer_end s + 16) \<le> length (region s)" "nat (buffer_end s) \<le> nat (buffer_end s + 16)"
    using assms by (auto simp: eps_core_def)
  moreover from this show "next_chunk s \<noteq> NullChunk \<Longrightarrow> nat (buffer_end s + 16) \<le> length (ahead rest s)"
    using ahead_beyond [OF assms] by simp
  moreover from calculation show "next_chunk s = NullChunk \<Longrightarrow> length (ahead rest s) = nat (buffer_end s)"
    by (simp add: ahead_def)
  ultimately show "nat (buffer_end s) \<le> length (ahead rest s)"
    by (cases "next_chunk s = NullChunk") auto
qed

abbreviation anchored :: "'s eps_input \<Rightarrow> 's eps_input" where
  "anchored t \<equiv> t\<lparr>limit := limit t - buffer_end t\<rparr>"

lemma ahead_limit [simp]: "ahead rest (s\<lparr>limit := l\<rparr>) = ahead rest s"
  by (simp add: ahead_def source_rest_def split: chunk_ptr.split)

text \<open>With the limit counted from the new anchor a pointer keeps its view.\<close>

lemma flipped_view:
  assumes "flipped ok rest s t" and "eps_core ok rest s" and "buffer_end s \<le> p"
  shows "view_at rest (anchored t) (p - buffer_end s) = view_at rest s p"
proof -
  have a: "ahead rest (anchored t) = drop (nat (buffer_end s)) (ahead rest s)"
    using assms(1) by (simp add: flipped_def)
  have b: "0 \<le> buffer_end s" "nat (buffer_end s) \<le> length (ahead rest s)"
    using assms(2) ahead_length(1) by (auto simp: eps_core_def)
  then have "nat (p - buffer_end s) + nat (buffer_end s) = nat p"
    using assms(3) by simp
  moreover have "BytesUntilLimit (p - buffer_end s) (anchored t) = BytesUntilLimit p s"
    using assms(1) by (simp add: flipped_def BytesUntilLimit_def)
  ultimately show ?thesis
    using a b by (auto simp: view_at_def)
qed

lemma anchored_core [simp]: "eps_core ok rest (s\<lparr>limit := l\<rparr>) = eps_core ok rest s"
  by (simp add: eps_core_def source_ok_def split: chunk_ptr.split option.split)

lemma eps_core_limit_end [simp]: "eps_core ok rest (s\<lparr>limit_end := l\<rparr>) = eps_core ok rest s"
  by (simp add: eps_core_def source_ok_def split: chunk_ptr.split option.split)

lemma flips_anchored [simp]: "flips rest (s\<lparr>limit := l\<rparr>) = flips rest s"
  by (simp add: flips_def source_rest_def split: chunk_ptr.split)

lemma flips_limit_end [simp]: "flips rest (s\<lparr>limit_end := l\<rparr>) = flips rest s"
  by (simp add: flips_def source_rest_def split: chunk_ptr.split)

lemma view_at_limit_end [simp]: "view_at rest (s\<lparr>limit_end := l\<rparr>) p = view_at rest s p"
  by (rule view_at_fields) simp_all

context zero_copy_input
begin

lemma NextBuffer_flips:
  assumes core: "eps_core ok rest s" and "next_chunk s \<noteq> NullChunk" and "depth < 0"
  obtains t where "NextBuffer vt overrun depth s = Inr (Some 0, t)" "flipped ok rest s t"
proof (cases "next_chunk s")
  case (Chunk c)
  then show thesis
    by (intro that [OF _ Chunk_flipped [OF core Chunk]]) (simp add: NextBuffer_def)
next
  case PatchBuffer
  let ?slop = "take 16 (drop (nat (buffer_end s)) (region s))"
  let ?s = "s\<lparr>patch_buffer := overwrite (patch_buffer s) 0 ?slop\<rparr>"
  have load: "load (region s) (buffer_end s) kSlopBytes = Inr ?slop"
    using core by (simp add: load_def kSlopBytes_def eps_core_def)
  have so: "source_ok ok rest s"
    using core PatchBuffer by (simp add: eps_core_def)
  show thesis
  proof (cases "zcis s")
    case None
    then have "NextBuffer vt overrun depth s = Inr (end_of_input ?s)"
      using so PatchBuffer load by (simp add: NextBuffer_def source_ok_def)
    moreover have "fst (end_of_input ?s) = Some 0 \<and> flipped ok rest s (snd (end_of_input ?s))"
      using None by (intro end_of_input_flipped [OF core PatchBuffer]) (simp_all add: source_rest_def)
    ultimately show thesis
      by (intro that [of "snd (end_of_input ?s)"]) (auto simp: prod_eq_iff)
  next
    case (Some z)
    then have z: "ok z" "0 < overall_limit s"
      using so by (auto simp: source_ok_def)
    have nb: "NextBuffer vt overrun depth s =
      and_then (returns (next_data vt ?s)) (\<lambda>(r, s). case r of
              Some data \<Rightarrow>
                if kSlopBytes < last_size s
                then let patch = overwrite (patch_buffer s) 16 (take 16 data) in
                     Inr (Some 0, s\<lparr>patch_buffer := patch, region := patch, next_chunk := Chunk data, buffer_end := kSlopBytes\<rparr>)
                else let patch = overwrite (patch_buffer s) 16 data in
                     Inr (Some 0, s\<lparr>patch_buffer := patch, region := patch, next_chunk := PatchBuffer, buffer_end := last_size s\<rparr>)
            | None \<Rightarrow> Inr (end_of_input (s\<lparr>overall_limit := 0\<rparr>)))"
      using z PatchBuffer load assms(3) by (simp add: NextBuffer_def)
    show thesis
    proof (cases "rest z = []")
      case True
      then obtain z' where z': "Next_of vt z = Inr (None, z')" "ok z'" "rest z' = []"
        using next_end [OF z(1)] by blast
      let ?t = "?s\<lparr>zcis := Some z', overall_limit := 0\<rparr>"
      have "next_data vt ?s = Some (Inr (None, ?s\<lparr>zcis := Some z'\<rparr>))"
        by (subst next_data.simps) (simp add: StreamNext_def Some z')
      then have "NextBuffer vt overrun depth s = Inr (end_of_input ?t)"
        by (simp add: nb)
      moreover have "fst (end_of_input ?t) = Some 0 \<and> flipped ok rest s (snd (end_of_input ?t))"
        using Some True by (intro end_of_input_flipped [OF core PatchBuffer]) (simp_all add: source_rest_def)
      ultimately show thesis
        by (intro that [of "snd (end_of_input ?t)"]) (auto simp: prod_eq_iff)
    next
      case False
      then obtain data z' where d: "Next_of vt z = Inr (Some data, z')" "data \<noteq> []" "ok z'" "rest z = data @ rest z'"
        using next_block [OF z(1)] by blast
      let ?t = "?s\<lparr>zcis := Some z', last_size := int (length data), overall_limit := overall_limit s - int (length data)\<rparr>"
      have nd: "next_data vt ?s = Some (Inr (Some data, ?t))"
        using d by (subst next_data.simps) (simp add: StreamNext_def Some Let_def)
      note fl = data_flipped [OF core PatchBuffer d(2) Some d(4,3) refl]
      show thesis
      proof (cases "16 < length data")
        case True
        show thesis
          by (rule that [OF _ fl(1) [OF True]]) (simp add: nb nd True kSlopBytes_def Let_def)
      next
        case False
        then show thesis
          by (intro that [OF _ fl(2)]) (simp_all add: nb nd kSlopBytes_def Let_def)
      qed
    qed
  qed
qed (use assms in simp)

text \<open>\<open>Done\<close> from the view \<open>V\<close> of a pointer \<open>p\<close>.\<close>

definition done_result :: "view \<Rightarrow> int \<Rightarrow> 's eps_input \<Rightarrow> ((int option \<times> bool) \<times> 's eps_input) outcome \<Rightarrow> bool" where
  "done_result V p s r \<longleftrightarrow>
     (case V of
        None \<Rightarrow> \<exists>t. r = Inr ((None, True), t)
      | Some (U, L) \<Rightarrow>
          if L = 0 then r = Inr ((Some p, True), s)
          else if U = [] then \<exists>q t. r = Inr ((Some q, True), t) \<and> EndedAtEndOfStream t
          else \<exists>q t. r = Inr ((Some q, False), t) \<and> eps_ok ok rest t \<and> 0 \<le> q \<and> q < limit_end t \<and>
            view_at rest t q = V \<and> kept s t)"

lemma done_loop_result:
  assumes "eps_core ok rest s" and "overrun = p - buffer_end s" and "0 \<le> overrun" and "overrun \<le> 16" and "overrun < limit s"
    and "depth < 0"
  shows "done_result (view_at rest s p) p' s (returns (done_loop vt overrun depth s))"
  using assms
proof (induction "flips rest s" arbitrary: s overrun p rule: less_induct)
  case less
  show ?case
  proof (cases "next_chunk s = NullChunk")
    case True
    have len: "length (ahead rest s) = nat (buffer_end s)" "0 \<le> buffer_end s"
      using ahead_length(3) [OF less.prems(1) True] less.prems(1) by (auto simp: eps_core_def)
    have "done_loop vt overrun depth s =
        (if overrun \<noteq> 0 then Some (Inr ((None, True), s))
         else Some (Inr ((Some (buffer_end s), True), SetEndOfStream (s\<lparr>limit_end := buffer_end s\<rparr>))))"
      by (subst done_loop.simps) (simp add: NextBuffer_def True)
    moreover have "view_at rest s p = (if overrun \<noteq> 0 then None else Some ([], nat (limit s)))" "0 < nat (limit s)"
      using len less.prems by (auto simp: view_at_def BytesUntilLimit_def)
    ultimately show ?thesis
      by (simp add: done_result_def SetEndOfStream_def EndedAtEndOfStream_def)
  next
    case False
    then obtain t where t: "NextBuffer vt overrun depth s = Inr (Some 0, t)" "flipped ok rest s t"
      using NextBuffer_flips less.prems(1,6) by metis
    have v: "view_at rest (anchored t) overrun = view_at rest s p"
      using flipped_view [OF t(2) less.prems(1), of p] less.prems by simp
    have core_t: "eps_core ok rest t"
      using t(2) by (simp add: flipped_def)
    then have c: "eps_core ok rest (anchored t)" "0 \<le> buffer_end t"
      by (simp, simp add: eps_core_def)
    have unfold: "done_loop vt overrun depth s =
        (if 0 \<le> overrun - buffer_end t then done_loop vt (overrun - buffer_end t) depth (anchored t)
         else Some (Inr ((Some overrun, False), (anchored t)\<lparr>limit_end := buffer_end t + min 0 (limit t - buffer_end t)\<rparr>)))"
      by (subst done_loop.simps) (simp add: t(1) Let_def)
    have lim: "limit t = limit s" "kept s t" "flips rest (anchored t) < flips rest s"
      using t(2) by (auto simp: flipped_def)
    show ?thesis
    proof (cases "0 \<le> overrun - buffer_end t")
      case True
      have "done_result (view_at rest (anchored t) overrun) p' (anchored t)
          (returns (done_loop vt (overrun - buffer_end t) depth (anchored t)))"
        using True less.prems c lim by (intro less.hyps) auto
      moreover have "view_at rest s p \<noteq> Some (U, 0)" for U
        using less.prems by (auto simp: view_at_def BytesUntilLimit_def)
      ultimately show ?thesis
        using True unfold v lim by (auto simp: done_result_def split: option.splits)
    next
      case False
      let ?t = "(anchored t)\<lparr>limit_end := buffer_end t + min 0 (limit t - buffer_end t)\<rparr>"
      have ok: "eps_ok ok rest ?t"
        using c by (simp add: eps_ok_def)
      have vt: "view_at rest ?t overrun = view_at rest s p"
        using v by simp
      have "int (length (ahead rest (anchored t))) \<ge> buffer_end t"
        using ahead_length(1) [OF c(1)] c(2) by simp
      then obtain U L where "view_at rest (anchored t) overrun = Some (U, L)" and UL: "U \<noteq> []" "L \<noteq> 0"
        using False less.prems lim by (auto simp: view_at_def BytesUntilLimit_def)
      then have "view_at rest s p = Some (U, L)"
        using v by simp
      moreover have "overrun < limit_end ?t" "0 \<le> overrun"
        using False less.prems lim by auto
      ultimately show ?thesis
        using False unfold UL vt ok lim by (auto simp: done_result_def)
    qed
  qed
qed

lemma Done_result:
  assumes "eps_ok ok rest s" and "ptr_ok s p"
  shows "done_result (view_at rest s p) p s (Done vt p s)"
proof -
  note d = eps_okD [OF assms(1)]
  let ?A = "length (ahead rest s)"
  have a: "buffer_end s \<le> int ?A" "next_chunk s \<noteq> NullChunk \<Longrightarrow> p \<le> int ?A"
      "next_chunk s = NullChunk \<Longrightarrow> int ?A = buffer_end s"
    using ahead_length [OF d(6)] d(1) assms(2) by (auto simp: ptr_ok_def)
  consider (inside) "p < limit_end s" | (at_limit) "\<not> p < limit_end s" "p - buffer_end s = limit s"
    | (behind) "\<not> p < limit_end s" "limit s < p - buffer_end s" | (fallback) "\<not> p < limit_end s" "p - buffer_end s < limit s"
    by linarith
  then show ?thesis
  proof cases
    case inside
    then have "p < int ?A" "0 < BytesUntilLimit p s" "0 \<le> p"
      using a d assms(2) by (auto simp: BytesUntilLimit_def ptr_ok_def)
    then show ?thesis
      using inside assms by (auto simp: done_result_def view_at_def Done_def DoneWithCheck_def)
  next
    case at_limit
    then have "BytesUntilLimit p s = 0"
      by (simp add: BytesUntilLimit_def)
    moreover have "int ?A < p \<longleftrightarrow> 0 < p - buffer_end s \<and> next_chunk s = NullChunk"
      using a by (cases "next_chunk s = NullChunk") auto
    ultimately show ?thesis
      using at_limit by (auto simp: done_result_def view_at_def Done_def DoneWithCheck_def)
  next
    case behind
    then show ?thesis
      by (simp add: done_result_def view_at_def BytesUntilLimit_def Done_def DoneWithCheck_def DoneFallback_def)
  next
    case fallback
    have "0 \<le> p - buffer_end s" "p - buffer_end s \<le> 16"
      using fallback d(4) assms(2) by (auto simp: ptr_ok_def min_def split: if_splits)
    with fallback show ?thesis
      using done_loop_result [OF d(6), of "p - buffer_end s" p "group_depth s" p] d(5)
      by (simp add: Done_def DoneWithCheck_def DoneFallback_def)
  qed
qed

end

section \<open>Strings\<close>

definition string_view :: "nat \<Rightarrow> view \<Rightarrow> (u8 list \<times> (u8 list \<times> nat)) option" where
  "string_view n V = (case V of None \<Rightarrow> None
     | Some (U, L) \<Rightarrow> if n \<le> length U \<and> n \<le> L then Some (take n U, (drop n U, L - n)) else None)"

lemma string_view_shift: "string_view n V = map_option (Pair (take n (fst (the V)))) (shift n V)"
  by (cases V) (auto simp: string_view_def shift_def)

lemma string_view_append:
  assumes "V = Some (bs @ U, L) \<or> V = None"
  shows "string_view (length bs + n) V = map_option (\<lambda>(cs, W). (bs @ cs, W)) (string_view n (shift (length bs) V))"
  using assms by (auto simp: string_view_def shift_def add.commute)

lemma load_view:
  assumes "eps_core ok rest s" and "ptr_ok s p" and "p + int n \<le> buffer_end s + 16"
  obtains bytes where "load (region s) p (int n) = Inr bytes" "length bytes = n"
    "string_view n (view_at rest s p) = map_option (Pair bytes) (view_at rest s (p + int n))"
proof -
  let ?bytes = "take n (mem_from (region s) p)"
  have b: "buffer_end s + 16 \<le> int (length (region s))" "0 \<le> p"
    using assms(1,2) by (auto simp: eps_core_def ptr_ok_def)
  have "load (region s) p (int n) = Inr ?bytes" "length ?bytes = n"
    using assms(3) b by (auto simp: load_def mem_from_def)
  moreover have "string_view n (view_at rest s p) = map_option (Pair ?bytes) (shift n (view_at rest s p))"
  proof (cases "view_at rest s p")
    case (Some V)
    obtain U L where V: "V = (U, L)"
      by (cases V)
    then have U: "U = drop (nat p) (ahead rest s)" "p \<le> int (length (ahead rest s))"
      using Some by (auto simp: view_at_def split: if_splits)
    from memory_split [OF assms(1,2)] obtain xs ys zs where m: "mem_from (region s) p = xs @ ys" "U = xs @ zs"
        "nat (buffer_end s + 16 - p) \<le> length xs \<or> zs = []"
      using U by metis
    then have "n \<le> length U \<Longrightarrow> n \<le> length xs"
      using assms(3) by auto
    then have "n \<le> length U \<Longrightarrow> take n U = ?bytes"
      by (simp add: m(1,2))
    then show ?thesis
      using Some V by (simp add: string_view_def shift_def)
  qed (simp add: string_view_def)
  ultimately show thesis
    using that [of ?bytes] view_at_advance [OF b(2), of rest s n] by simp
qed

lemma slop_view:
  assumes "eps_core ok rest s" and "ptr_ok s p" and "next_chunk s \<noteq> NullChunk"
  shows "\<exists>U L. view_at rest s p = Some (take (nat (buffer_end s + 16 - p)) (mem_from (region s) p) @ U, L) \<or> view_at rest s p = None"
proof (cases "view_at rest s p")
  case (Some V)
  obtain U L where V: "V = (U, L)"
    by (cases V)
  have b: "nat p \<le> nat (buffer_end s + 16)" "nat (buffer_end s + 16) \<le> length (region s)" "0 \<le> p"
      "nat (buffer_end s + 16 - p) = nat (buffer_end s + 16) - nat p"
    using assms(1,2) by (auto simp: eps_core_def ptr_ok_def nat_diff_distrib)
  have "U = drop (nat p) (take (nat (buffer_end s + 16)) (region s) @ beyond rest s)"
    using Some V ahead_beyond [OF assms(1,3)] by (auto simp: view_at_def split: if_splits)
  also have "\<dots> = take (nat (buffer_end s + 16 - p)) (mem_from (region s) p) @ beyond rest s"
    using b by (simp add: drop_take mem_from_def)
  finally show ?thesis
    using Some V by auto
qed simp

context zero_copy_input
begin

text \<open>A call that returns a value follows a function of the view.\<close>

definition follows :: "('v \<times> (u8 list \<times> nat)) option \<Rightarrow> 's eps_input \<Rightarrow> ((int \<times> 'v) option \<times> 's eps_input) outcome \<Rightarrow> bool" where
  "follows A s r \<longleftrightarrow> (\<exists>t. r = Inr (None, t) \<and> A = None) \<or>
     (\<exists>q v t. r = Inr (Some (q, v), t) \<and> eps_ok ok rest t \<and> ptr_ok t q \<and> kept s t \<and>
       A = map_option (Pair v) (view_at rest t q))"

lemma follows_None: "A = None \<Longrightarrow> follows A s (Inr (None, t))"
  by (simp add: follows_def)

lemma follows_Some:
  "eps_ok ok rest t \<Longrightarrow> ptr_ok t q \<Longrightarrow> kept s t \<Longrightarrow>
   A = map_option (Pair v) (view_at rest t q) \<Longrightarrow> follows A s (Inr (Some (q, v), t))"
  by (auto simp: follows_def)

lemma Next_flips:
  assumes "eps_core ok rest s" and "next_chunk s \<noteq> NullChunk"
  obtains t where "Next vt s = Inr (Some 0, t)" "eps_ok ok rest t" "flips rest t < flips rest s"
    "kept s t"
    "\<And>p. buffer_end s \<le> p \<Longrightarrow> view_at rest t (p - buffer_end s) = view_at rest s p"
proof -
  obtain t where t: "NextBuffer vt 0 (- 1) s = Inr (Some 0, t)" "flipped ok rest s t"
    using NextBuffer_flips [OF assms, of "- 1" 0] by auto
  let ?t = "(anchored t)\<lparr>limit_end := buffer_end t + min 0 (limit t - buffer_end t)\<rparr>"
  have "eps_core ok rest t" "flips rest t < flips rest s" "kept s t"
    using t(2) by (auto simp: flipped_def)
  then have "eps_ok ok rest ?t" "flips rest ?t < flips rest s" "kept s ?t"
    by (simp_all add: eps_ok_def)
  moreover have "Next vt s = Inr (Some 0, ?t)"
    by (simp add: Next_def t(1) Let_def)
  ultimately show thesis
    using that [of ?t] flipped_view [OF t(2) assms(1)] by simp
qed

lemma AppendSize_follows:
  assumes "eps_core ok rest s" and "ptr_ok s p" and "buffer_end s + 16 - p < int n"
  shows "follows (map_option (\<lambda>(bs, W). (out @ bs, W)) (string_view n (view_at rest s p))) s
    (returns (AppendSize vt p (int n) out s))"
  using assms
proof (induction "flips rest s" arbitrary: s p n out rule: less_induct)
  case less
  let ?V = "view_at rest s p" and ?k = "nat (buffer_end s + 16 - p)"
  have k: "int ?k = buffer_end s + 16 - p" "?k \<le> n" "0 \<le> p"
    using less.prems by (auto simp: ptr_ok_def)
  show ?case
  proof (cases "next_chunk s = NullChunk")
    case True
    have "string_view n ?V = None"
      using ahead_length(3) [OF less.prems(1) True] less.prems(1,3) k(3)
      by (auto simp: view_at_def string_view_def eps_core_def)
    then show ?thesis
      by (subst AppendSize.simps) (simp add: True follows_def)
  next
    case False
    obtain bytes where b: "load (region s) p (int ?k) = Inr bytes" "length bytes = ?k"
      using load_view [OF less.prems(1,2), of ?k] k by auto
    then have bytes: "bytes = take ?k (mem_from (region s) p)"
      by (simp add: load_def mem_from_def split: if_splits)
    have V: "\<exists>U L. ?V = Some (bytes @ U, L) \<or> ?V = None"
      using slop_view [OF less.prems(1,2) False] bytes by simp
    have load: "load (region s) p (buffer_end s + kSlopBytes - p) = Inr bytes"
      using b k by (simp add: kSlopBytes_def)
    have split: "string_view n ?V = map_option (\<lambda>(cs, W). (bytes @ cs, W)) (string_view (n - ?k) (shift ?k ?V))"
      using V string_view_append [of ?V bytes _ _ "n - ?k"] b(2) k(2) by auto
    show ?thesis
    proof (cases "limit s \<le> 16")
      case True
      then have "string_view n ?V = None"
        using less.prems(3) by (auto simp: view_at_def string_view_def BytesUntilLimit_def)
      then show ?thesis
        using False load True by (subst AppendSize.simps) (simp add: kSlopBytes_def Let_def follows_def)
    next
      case lim: False
      obtain t where t: "Next vt s = Inr (Some 0, t)" "eps_ok ok rest t" "flips rest t < flips rest s"
          "kept s t"
          "\<And>p. buffer_end s \<le> p \<Longrightarrow> view_at rest t (p - buffer_end s) = view_at rest s p"
        using Next_flips [OF less.prems(1) False] by metis
      have v: "view_at rest t 16 = shift ?k ?V"
        using t(5) [of "buffer_end s + 16"] view_at_advance [OF k(3), of rest s ?k] k(1) by simp
      have core: "eps_core ok rest t" "ptr_ok t 16" "0 \<le> buffer_end t"
        using t(2) by (auto simp: eps_ok_def ptr_ok_def eps_core_def)
      have n: "int n - (buffer_end s + kSlopBytes - p) = int (n - ?k)"
        using k by (simp add: kSlopBytes_def)
      have unfold: "AppendSize vt p (int n) out s =
          (if buffer_end t < int (n - ?k) then AppendSize vt 16 (int (n - ?k)) (out @ bytes) t
           else case load (region t) 16 (int (n - ?k)) of
                  Inl e \<Rightarrow> Some (Inl e)
                | Inr bs \<Rightarrow> Some (Inr (Some (16 + int (n - ?k), (out @ bytes) @ bs), t)))"
        using False load lim by (subst AppendSize.simps) (simp only: Let_def n t(1), simp add: kSlopBytes_def split: sum.split)
      show ?thesis
      proof (cases "buffer_end t < int (n - ?k)")
        case True
        have "follows (map_option (\<lambda>(bs, W). ((out @ bytes) @ bs, W)) (string_view (n - ?k) (view_at rest t 16))) t
            (returns (AppendSize vt 16 (int (n - ?k)) (out @ bytes) t))"
          using True core by (intro less.hyps [OF t(3)]) auto
        then show ?thesis
          using t(4) by (simp add: unfold True split v option.map_comp comp_def case_prod_unfold follows_def)
      next
        case False
        obtain bs where bs: "load (region t) 16 (int (n - ?k)) = Inr bs"
            "string_view (n - ?k) (view_at rest t 16) = map_option (Pair bs) (view_at rest t (16 + int (n - ?k)))"
          using load_view [OF core(1,2), of "n - ?k"] False by (auto simp: not_less)
        have "string_view n ?V = map_option (Pair (bytes @ bs)) (view_at rest t (16 + int (n - ?k)))"
          using bs(2) by (simp add: split v option.map_comp comp_def)
        then show ?thesis
          using False bs(1) t core by (simp add: unfold, intro follows_Some) (auto simp: ptr_ok_def option.map_comp comp_def)
      qed
    qed
  qed
qed

lemma ReadString_follows:
  assumes "eps_ok ok rest s" and "ptr_ok s p"
  shows "follows (string_view n (view_at rest s p)) s (ReadString vt p (int n) s)"
proof (cases "int n \<le> buffer_end s + 16 - p")
  case True
  then obtain bytes where "load (region s) p (int n) = Inr bytes"
      "string_view n (view_at rest s p) = map_option (Pair bytes) (view_at rest s (p + int n))"
    using load_view [OF eps_okD(6) [OF assms(1)] assms(2), of n] by auto
  then show ?thesis
    using True assms by (simp add: ReadString_def kSlopBytes_def, intro follows_Some) (auto simp: ptr_ok_def)
next
  case False
  then show ?thesis
    using AppendSize_follows [OF eps_okD(6) [OF assms(1)] assms(2), of n "[]"]
    by (simp add: ReadString_def ReadStringFallback_def kSlopBytes_def option.map_id)
qed

end

end
