(* ===== verification/Pb_Packed.thy ===== *)
theory Pb_Packed
  imports Pb_Eps_Read
begin

text \<open>
  Packed repeated fields: \<open>ReadPackedVarint\<close> of parse_context.h reads a size and then numbers until
  that many bytes are used up. It decodes without a check up to the end of a region, continues in a
  copy of the slop bytes or in the next region, and demands that the last number ends exactly at the
  end of the field. The result is the list of the numbers, wherever the regions end.
\<close>

section \<open>Sequences of numbers\<close>

text \<open>Numbers one after another until at least \<open>e\<close> bytes are used up.\<close>

function varints_to :: "nat \<Rightarrow> u8 list \<Rightarrow> (u64 list \<times> nat) option" where
  "varints_to e bs =
     (if e = 0 then Some ([], 0)
      else case read_varint bs of
             None \<Rightarrow> None
           | Some (v, n) \<Rightarrow> map_option (\<lambda>(vs, k). (v # vs, n + k)) (varints_to (e - n) (drop n bs)))"
  by auto
termination
  by (relation "measure fst") (auto dest: read_varint.taken)

declare varints_to.simps [simp del]

lemma varints_to_0 [simp]: "varints_to 0 bs = Some ([], 0)"
  by (simp add: varints_to.simps [of 0])

lemma varints_to_taken: "varints_to e bs = Some (vs, n) \<Longrightarrow> e \<le> n \<and> n \<le> (if e = 0 then 0 else e + 9) \<and> n \<le> length bs"
proof (induction e bs arbitrary: vs n rule: varints_to.induct)
  case (1 e bs)
  show ?case
  proof (cases "e = 0")
    case False
    with 1(2) obtain v m ws k where r: "read_varint bs = Some (v, m)" "varints_to (e - m) (drop m bs) = Some (ws, k)" "n = m + k"
      by (auto simp: varints_to.simps [of e] split: option.splits)
    then have m: "0 < m" "m \<le> 10" "m \<le> length bs"
      using read_varint.taken by blast+
    have "e - m \<le> k \<and> k \<le> (if e - m = 0 then 0 else e - m + 9) \<and> k \<le> length (drop m bs)"
      by (rule 1(1) [OF False r(1) refl r(2)])
    then show ?thesis
      using False m r(3) by (auto split: if_splits)
  qed (use 1 in simp)
qed

lemma varints_to_only_taken:
  "varints_to e bs = Some (vs, n) \<Longrightarrow> take n bs = take n cs \<Longrightarrow> n \<le> length cs \<Longrightarrow> varints_to e cs = Some (vs, n)"
proof (induction e bs arbitrary: vs n cs rule: varints_to.induct)
  case (1 e bs)
  show ?case
  proof (cases "e = 0")
    case False
    with 1(2) obtain v m ws k where r: "read_varint bs = Some (v, m)" "varints_to (e - m) (drop m bs) = Some (ws, k)"
        "n = m + k" "vs = v # ws"
      by (auto simp: varints_to.simps [of e] split: option.splits)
    have "take m bs = take m cs" "take k (drop m bs) = take k (drop m cs)"
      using 1(3) r(3) by (metis take_take min.absorb1 le_add1, metis drop_take diff_add_inverse)
    moreover from this have "read_varint cs = Some (v, m)"
      using read_varint.only_taken [OF r(1)] 1(4) r(3) by simp
    moreover have "varints_to (e - m) (drop m cs) = Some (ws, k)"
      using 1(1) [OF False r(1) refl r(2), of "drop m cs"] calculation(2) 1(4) r(3) by simp
    ultimately show ?thesis
      using False r by (simp add: varints_to.simps [of e])
  qed (use 1 in simp)
qed

interpretation varints_to: prefix_reader "varints_to (Suc e)" "Suc e + 9" for e
proof
  show "varints_to (Suc e) bs = Some (v, n) \<Longrightarrow> 0 < n \<and> n \<le> Suc e + 9 \<and> n \<le> length bs" for bs v n
    using varints_to_taken by fastforce
  show "varints_to (Suc e) bs = Some (v, n) \<Longrightarrow> take n bs = take n cs \<Longrightarrow> n \<le> length cs \<Longrightarrow> varints_to (Suc e) cs = Some (v, n)" for bs v n cs
    by (rule varints_to_only_taken)
qed

lemma varints_to_add:
  "varints_to (e + f) bs = (case varints_to e bs of None \<Rightarrow> None
     | Some (vs, k) \<Rightarrow> map_option (\<lambda>(ws, l). (vs @ ws, k + l)) (varints_to (e + f - k) (drop k bs)))"
proof (induction e bs rule: varints_to.induct)
  case (1 e bs)
  show ?case
  proof (cases "e = 0")
    case False
    show ?thesis
    proof (cases "read_varint bs")
      case (Some r)
      obtain v n where r: "r = (v, n)"
        by (cases r)
      then have n: "0 < n"
        using Some read_varint.taken by blast
      have IH: "varints_to (e - n + f) (drop n bs) = (case varints_to (e - n) (drop n bs) of None \<Rightarrow> None
         | Some (vs, k) \<Rightarrow> map_option (\<lambda>(ws, l). (vs @ ws, k + l)) (varints_to (e - n + f - k) (drop k (drop n bs))))"
        by (rule 1 [OF False Some r [symmetric]])
      show ?thesis
      proof (cases "n \<le> e")
        case True
        then have "e + f - n = e - n + f"
          by simp
        then show ?thesis
          using False Some r IH True
          by (simp add: varints_to.simps [of "e + f"] varints_to.simps [of e] option.map_comp comp_def case_prod_unfold
              add.commute add.left_commute diff_diff_left split: option.split)
      next
        case over: False
        then show ?thesis
          using False Some r
          by (simp add: varints_to.simps [of "e + f"] varints_to.simps [of e] option.map_comp comp_def case_prod_unfold)
      qed
    qed (use False in \<open>simp add: varints_to.simps [of "e + f"] varints_to.simps [of e]\<close>)
  next
    case True
    then show ?thesis
      by (cases "varints_to f bs") simp_all
  qed
qed

section \<open>The array loop\<close>

text \<open>With room for one more number behind its end the loop computes \<open>varints_to\<close>.\<close>

lemma ReadPackedVarintArray_value:
  assumes "0 \<le> p" and "stop + 9 \<le> int (length mem)"
  shows "ReadPackedVarintArray mem p stop vs =
    Some (Inr (map_option (\<lambda>(ws, k). (p + int k, vs @ ws)) (varints_to (nat (stop - p)) (mem_from mem p))))"
  using assms
proof (induction "nat (stop - p)" arbitrary: p vs rule: less_induct)
  case less
  show ?case
  proof (cases "p < stop")
    case False
    then show ?thesis
      by (subst ReadPackedVarintArray.simps) simp
  next
    case True
    have len: "10 \<le> length (mem_from mem p)"
      using True less.prems by (simp add: mem_from_def)
    show ?thesis
    proof (cases "read_varint (mem_from mem p)")
      case None
      then show ?thesis
        using True VarintParse64_value [OF len]
        by (subst ReadPackedVarintArray.simps) (simp add: varints_to.simps [of "nat (stop - p)"])
    next
      case (Some r)
      obtain v n where r: "r = (v, n)"
        by (cases r)
      then have n: "0 < n"
        using Some read_varint.taken by blast
      have "ReadPackedVarintArray mem (p + int n) stop (vs @ [v]) =
          Some (Inr (map_option (\<lambda>(ws, k). (p + int n + int k, (vs @ [v]) @ ws))
            (varints_to (nat (stop - (p + int n))) (mem_from mem (p + int n)))))"
        using n True less.prems by (intro less.hyps) auto
      moreover have "nat (stop - (p + int n)) = nat (stop - p) - n" "mem_from mem (p + int n) = drop n (mem_from mem p)"
        using less.prems True by (auto simp: mem_from_def nat_add_distrib add.commute)
      ultimately show ?thesis
        using True Some r VarintParse64_value [OF len]
        by (subst ReadPackedVarintArray.simps)
          (simp add: varints_to.simps [of "nat (stop - p)"] option.map_comp comp_def case_prod_unfold algebra_simps)
    qed
  qed
qed

section \<open>Packed fields\<close>

text \<open>The numbers of the next \<open>m\<close> bytes behind those already read.\<close>

definition packed_view :: "nat \<Rightarrow> u64 list \<Rightarrow> view \<Rightarrow> (u64 list \<times> (u8 list \<times> nat)) option" where
  "packed_view m vs V = (case V of None \<Rightarrow> None
     | Some (U, L) \<Rightarrow>
         if m \<le> length U \<and> m \<le> L
         then (case varints_to m U of None \<Rightarrow> None | Some (ws, k) \<Rightarrow> if k = m then Some (vs @ ws, (drop m U, L - m)) else None)
         else None)"

lemma packed_view_None [simp]: "packed_view m vs None = None"
  by (simp add: packed_view_def)

lemma packed_view_Some:
  "packed_view m vs V = Some r \<longleftrightarrow> (\<exists>U L ws. V = Some (U, L) \<and> m \<le> length U \<and> m \<le> L \<and> varints_to m U = Some (ws, m) \<and>
     r = (vs @ ws, (drop m U, L - m)))"
  by (auto simp: packed_view_def split: option.splits if_splits)

text \<open>What has been decoded up to some point in between.\<close>

lemma packed_view_split:
  assumes "e \<le> m" and "0 < e"
  shows "on_view (varints_to e) V = None \<Longrightarrow> packed_view m vs V = None"
    and "on_view (varints_to e) V = map_option (Pair ws) (shift k V) \<Longrightarrow>
      packed_view m vs V = (if k \<le> m then packed_view (m - k) (vs @ ws) (shift k V) else None)"
proof -
  obtain f where f: "m = e + f"
    using assms(1) le_Suc_ex by blast
  obtain e' where e': "e = Suc e'"
    using assms(2) gr0_implies_Suc by blast
  have inner: "varints_to e (take L U) = Some (xs, l) \<and> l \<le> m \<and> map_option (\<lambda>(ys, k). (xs @ ys, l + k)) (varints_to (m - l) (drop l U)) = Some (ws, m)"
    if "varints_to m U = Some (ws, m)" "m \<le> L" "varints_to e U = Some (xs, l)" for U L ws xs l
  proof -
    have "map_option (\<lambda>(ys, k). (xs @ ys, l + k)) (varints_to (m - l) (drop l U)) = Some (ws, m)"
      using that varints_to_add [of e f U] by (simp add: f)
    moreover from this have "l \<le> m"
      by (auto simp: map_option_case split: option.splits)
    ultimately show ?thesis
      using that varints_to.limited [of e' L U] by (simp add: e')
  qed
  have some: "varints_to e U \<noteq> None" if "varints_to m U = Some (ws, m)" for U ws
    using that varints_to_add [of e f U] by (auto simp: f split: option.splits)
  show "packed_view m vs V = None" if "on_view (varints_to e) V = None"
  proof (rule ccontr)
    assume "packed_view m vs V \<noteq> None"
    then obtain U L ws where p: "V = Some (U, L)" "m \<le> L" "varints_to m U = Some (ws, m)"
      by (auto simp: packed_view_Some)
    then obtain xs l where "varints_to e U = Some (xs, l)"
      using some by fastforce
    then show False
      using inner [OF p(3,2)] that p(1) by (auto simp: on_view_def)
  qed
  show "packed_view m vs V = (if k \<le> m then packed_view (m - k) (vs @ ws) (shift k V) else None)"
    if v: "on_view (varints_to e) V = map_option (Pair ws) (shift k V)"
  proof (cases "shift k V")
    case None
    then show ?thesis
      using v \<open>on_view (varints_to e) V = None \<Longrightarrow> packed_view m vs V = None\<close> by simp
  next
    case (Some W)
    then obtain U L where V: "V = Some (U, L)" "k \<le> length U" "k \<le> L" "W = (drop k U, L - k)"
      by (auto simp: shift_def split: option.splits if_splits)
    then obtain l where "varints_to e (take L U) = Some (ws, l)" "drop l U = drop k U" "L - l = L - k"
      using v Some by (auto simp: on_view_def split: option.splits)
    moreover from this have "l \<le> L" "l \<le> length U"
      using varints_to.taken [of e' "take L U" ws l] by (auto simp: e')
    ultimately have "varints_to e (take L U) = Some (ws, k)"
      using V by (metis diff_diff_cancel)
    then have e: "varints_to e U = Some (ws, k)"
      using varints_to.limited [of e' L U] by (auto simp: e' split: option.splits if_splits)
    have "packed_view m vs V = Some (xs, X) \<longleftrightarrow> k \<le> m \<and> packed_view (m - k) (vs @ ws) (shift k V) = Some (xs, X)" for xs X
    proof
      assume "packed_view m vs V = Some (xs, X)"
      then obtain ys where p: "m \<le> length U" "m \<le> L" "varints_to m U = Some (ys, m)" "xs = vs @ ys" "X = (drop m U, L - m)"
        using V by (auto simp: packed_view_Some)
      from inner [OF p(3,2) e] obtain zs where "k \<le> m" "varints_to (m - k) (drop k U) = Some (zs, m - k)" "ys = ws @ zs"
        by (auto simp: map_option_case split: option.splits)
      then show "k \<le> m \<and> packed_view (m - k) (vs @ ws) (shift k V) = Some (xs, X)"
        using p V by (auto simp: packed_view_Some shift_def)
    next
      assume "k \<le> m \<and> packed_view (m - k) (vs @ ws) (shift k V) = Some (xs, X)"
      then obtain zs where p: "k \<le> m" "m - k \<le> length U - k" "m - k \<le> L - k" "varints_to (m - k) (drop k U) = Some (zs, m - k)"
          "xs = (vs @ ws) @ zs" "X = (drop (m - k) (drop k U), L - k - (m - k))"
        using V by (auto simp: packed_view_Some shift_def)
      moreover have "varints_to m U = Some (ws @ zs, m)"
        using p e varints_to_add [of e f U] by (simp add: f)
      ultimately show "packed_view m vs V = Some (xs, X)"
        using V by (auto simp: packed_view_Some)
    qed
    then show ?thesis
      by (cases "packed_view m vs V"; cases "packed_view (m - k) (vs @ ws) (shift k V)") auto
  qed
qed

text \<open>A run of the array loop inside a region, up to \<open>e\<close> bytes on.\<close>

lemma packed_in_region:
  assumes core: "eps_core ok rest s" and ptr: "ptr_ok s p" and "p + int e \<le> buffer_end s" and "0 < e" and "e \<le> m"
  shows "case varints_to e (mem_from (region s) p) of
      None \<Rightarrow> packed_view m vs (view_at rest s p) = None
    | Some (ws, k) \<Rightarrow> e \<le> k \<and> k \<le> e + 9 \<and> packed_view m vs (view_at rest s p) =
        (if k \<le> m then packed_view (m - k) (vs @ ws) (view_at rest s (p + int k)) else None)"
proof -
  obtain e' where e': "e = Suc e'"
    using assms(4) gr0_implies_Suc by blast
  have "p + int (Suc e' + 9) \<le> buffer_end s + 16"
    using assms(3) e' by simp
  note r = varints_to.reads_view [OF core ptr this]
  show ?thesis
  proof (cases "varints_to e (mem_from (region s) p)")
    case None
    then have "on_view (varints_to e) (view_at rest s p) = None"
      using r e' by simp
    then show ?thesis
      using None packed_view_split(1) [OF assms(5,4)] by simp
  next
    case (Some x)
    obtain ws k where x: "x = (ws, k)"
      by (cases x)
    have "on_view (varints_to e) (view_at rest s p) = map_option (Pair ws) (view_at rest s (p + int k))"
      using r e' Some x by simp
    moreover have "view_at rest s (p + int k) = shift k (view_at rest s p)"
      using ptr by (intro view_at_advance) (simp add: ptr_ok_def)
    ultimately show ?thesis
      using Some x packed_view_split(2) [OF assms(5,4), of "view_at rest s p" ws k vs]
        varints_to_taken [of e "mem_from (region s) p" ws k] assms(4) by (simp split: if_splits)
  qed
qed

text \<open>The last bytes, read from a copy of the slop bytes with zeros behind it.\<close>

lemma packed_in_slop:
  assumes core: "eps_core ok rest s" and ptr: "ptr_ok s p" and "buffer_end s \<le> p" and "p + int m \<le> buffer_end s + 16"
  shows "packed_view m vs (view_at rest s p) =
    (case varints_to m (take (nat (buffer_end s + 16 - p)) (mem_from (region s) p) @ replicate 10 0) of
       None \<Rightarrow> None
     | Some (ws, k) \<Rightarrow> if k = m then map_option (Pair (vs @ ws)) (view_at rest s (p + int m)) else None)"
proof (cases "view_at rest s p")
  case (Some V)
  let ?r = "nat (buffer_end s + 16 - p)" and ?mem = "mem_from (region s) p"
  obtain U L where V: "V = (U, L)"
    by (cases V)
  then have U: "U = drop (nat p) (ahead rest s)" "p \<le> int (length (ahead rest s))"
    using Some by (auto simp: view_at_def split: if_splits)
  from memory_split [OF core ptr] obtain xs ys zs where mem: "?mem = xs @ ys" "U = xs @ zs" "?r \<le> length xs \<or> zs = []"
    using U by metis
  have len: "?r \<le> length ?mem" "m \<le> ?r"
    using core assms(4) ptr by (auto simp: mem_from_def eps_core_def ptr_ok_def)
  have same: "take m U = take m (take ?r ?mem @ replicate 10 (0 :: u8))" if "m \<le> length U"
  proof -
    have "m \<le> length xs"
      using mem that len by auto
    then show ?thesis
      using mem len by (simp add: min_def)
  qed
  have a: "view_at rest s (p + int m) = (if m \<le> length U \<and> m \<le> L then Some (drop m U, L - m) else None)"
    using view_at_advance [of p rest s m] ptr Some V by (simp add: ptr_ok_def shift_def)
  show ?thesis
  proof (cases "m \<le> length U \<and> m \<le> L")
    case True
    have "\<forall>ws. varints_to m U = Some (ws, m) \<longleftrightarrow> varints_to m (take ?r ?mem @ replicate 10 0) = Some (ws, m)"
    proof (intro allI iffI)
      fix ws
      have "m \<le> length (take ?r ?mem @ replicate 10 (0 :: u8))"
        using len by simp
      then show "varints_to m (take ?r ?mem @ replicate 10 0) = Some (ws, m)" if "varints_to m U = Some (ws, m)"
        using varints_to_only_taken [OF that same] True by blast
      show "varints_to m U = Some (ws, m)" if "varints_to m (take ?r ?mem @ replicate 10 0) = Some (ws, m)"
        using varints_to_only_taken [OF that same [symmetric]] True by blast
    qed
    then show ?thesis
      using Some V True a by (auto simp: packed_view_def split: option.split)
  next
    case False
    then show ?thesis
      using Some V a by (auto simp: packed_view_def split: option.split)
  qed
next
  case None
  then have "view_at rest s (p + int m) = None"
    using view_at_advance [of p rest s m] ptr by (simp add: ptr_ok_def)
  with None show ?thesis
    by (auto split: option.split)
qed

context zero_copy_input
begin

lemma packed_loop_follows:
  assumes "eps_ok ok rest s" and "ptr_ok s p"
  shows "follows (packed_view m vs (view_at rest s p)) s (returns (packed_loop vt p (int m) vs s))"
  using assms
proof (induction "flips rest s" arbitrary: s p m vs rule: less_induct)
  case less
  let ?V = "view_at rest s p"
  note core = eps_okD(6) [OF less.prems(1)]
  have b: "0 \<le> p" "p \<le> buffer_end s + 16" "buffer_end s + 16 \<le> int (length (region s))" "0 \<le> buffer_end s"
    using less.prems(2) eps_okD(1,2) [OF less.prems(1)] by (auto simp: ptr_ok_def)
  have array: "ReadPackedVarintArray (region s) p q vs =
      Some (Inr (map_option (\<lambda>(ws, k). (p + int k, vs @ ws)) (varints_to (nat (q - p)) (mem_from (region s) p))))"
    if "q \<le> buffer_end s" for q
    using that b by (intro ReadPackedVarintArray_value) auto
  show ?case
  proof (cases "buffer_end s - p < int m")
    case False
    then have e: "p + int m \<le> buffer_end s"
      by simp
    have step: "packed_loop vt p (int m) vs s = Some (Inr (case varints_to m (mem_from (region s) p) of
        None \<Rightarrow> (None, s) | Some (ws, k) \<Rightarrow> (if k = m then Some (p + int k, vs @ ws) else None, s)))"
      using False array [OF e] by (subst packed_loop.simps) (auto simp: packed_step_def Let_def split: option.split)
    show ?thesis
    proof (cases "m = 0")
      case True
      have "packed_view 0 vs ?V = map_option (Pair vs) ?V"
        by (cases ?V) (auto simp: packed_view_def)
      then show ?thesis
        using less.prems step True by (auto intro!: follows_Some)
    next
      case nonzero: False
      show ?thesis
      proof (cases "varints_to m (mem_from (region s) p)")
        case None
        then show ?thesis
          using packed_in_region [OF core less.prems(2) e, of m vs] nonzero step by (simp add: follows_def)
      next
        case (Some x)
        obtain ws k where x: "x = (ws, k)"
          by (cases x)
        then have pv: "m \<le> k" "packed_view m vs ?V = (if k \<le> m then packed_view (m - k) (vs @ ws) (view_at rest s (p + int k)) else None)"
          using packed_in_region [OF core less.prems(2) e, of m vs] nonzero Some by auto
        show ?thesis
        proof (cases "k = m")
          case True
          then have "packed_view m vs ?V = map_option (Pair (vs @ ws)) (view_at rest s (p + int k))"
            using pv by (cases "view_at rest s (p + int m)") (auto simp: packed_view_def)
          moreover have "ptr_ok s (p + int k)"
            using e b True by (simp add: ptr_ok_def)
          ultimately show ?thesis
            using less.prems(1) step Some x True by (auto intro!: follows_Some)
        next
          case False
          then show ?thesis
            using pv step Some x by (simp add: follows_def)
        qed
      qed
    qed
  next
    case True
    let ?e = "nat (buffer_end s - p)"
    have e: "?e \<le> m"
      using True by simp
    show ?thesis
    proof (cases "varints_to ?e (mem_from (region s) p)")
      case None
      then have "0 < ?e"
        using gr0I by fastforce
      then have "packed_view m vs ?V = None"
        using packed_in_region [OF core less.prems(2) _ _ e, of vs] None by simp
      moreover have "packed_loop vt p (int m) vs s = Some (Inr (None, s))"
        using True None array [OF order_refl] by (subst packed_loop.simps) (simp add: packed_step_def Let_def)
      ultimately show ?thesis
        by (simp add: follows_def)
    next
      case (Some x)
      obtain ws k where x: "x = (ws, k)"
        by (cases x)
      let ?q = "p + int k"
      have k: "buffer_end s \<le> ?q" "?q \<le> buffer_end s + 16" "0 < ?e \<Longrightarrow> k \<le> ?e + 9" "?e = 0 \<Longrightarrow> k = 0"
        using varints_to_taken [of ?e "mem_from (region s) p" ws k] Some x b(2) by (auto split: if_splits)
      have pv: "packed_view m vs ?V = (if k \<le> m then packed_view (m - k) (vs @ ws) (view_at rest s ?q) else None)"
      proof (cases "?e = 0")
        case True
        then show ?thesis
          using Some x by simp
      next
        case False
        then show ?thesis
          using packed_in_region [OF core less.prems(2) _ _ e, of vs] Some x by simp
      qed
      have q: "ptr_ok s ?q"
        using k b by (simp add: ptr_ok_def)
      show ?thesis
      proof (cases "int m - (buffer_end s - p) \<le> 16")
        case in_slop: True
        let ?slop = "take 16 (drop (nat (buffer_end s)) (region s))" and ?o = "?q - buffer_end s"
          and ?stop = "int m - (buffer_end s - p)"
        let ?buf = "?slop @ replicate 10 0"
        have slop: "length ?slop = 16" "load (region s) (buffer_end s) kSlopBytes = Inr ?slop"
          using b by (auto simp: load_def kSlopBytes_def)
        then have buf: "overwrite (replicate 26 0) 0 ?slop = ?buf"
          by (simp add: overwrite_def replicate_add [symmetric])
        have mem: "mem_from ?buf ?o = take (nat (buffer_end s + 16 - ?q)) (mem_from (region s) ?q) @ replicate 10 0"
        proof -
          have "nat ?o + nat (buffer_end s) = nat ?q" "nat (buffer_end s + 16 - ?q) = 16 - nat ?o" "nat ?o \<le> 16"
            using k b by auto
          then show ?thesis
            using slop(1) k b by (simp add: mem_from_def drop_take)
        qed
        have rest_m: "nat (?stop - ?o) = m - k"
          by simp
        have loop: "ReadPackedVarintArray ?buf ?o ?stop (vs @ ws) =
            Some (Inr (map_option (\<lambda>(xs, l). (?o + int l, (vs @ ws) @ xs)) (varints_to (m - k) (mem_from ?buf ?o))))"
          using in_slop slop(1) k(1) rest_m ReadPackedVarintArray_value [of ?o ?stop ?buf "vs @ ws"] by simp
        have step: "packed_loop vt p (int m) vs s = Some (Inr (case varints_to (m - k) (mem_from ?buf ?o) of
            None \<Rightarrow> (None, s)
          | Some (xs, l) \<Rightarrow> (if ?o + int l \<noteq> ?stop then None else Some (buffer_end s + (?o + int l), (vs @ ws) @ xs), s)))"
          using True in_slop Some x array [OF order_refl] loop buf slop(2)
          by (subst packed_loop.simps) (simp add: packed_step_def kSlopBytes_def Let_def split: option.split)
        show ?thesis
        proof (cases "k \<le> m")
          case True
          have "?q + int (m - k) \<le> buffer_end s + 16"
            using True in_slop by simp
          note ps = packed_in_slop [OF core q k(1) this, of "vs @ ws"]
          show ?thesis
          proof (cases "varints_to (m - k) (mem_from ?buf ?o)")
            case None
            then show ?thesis
              using pv True ps step mem by (simp add: follows_def)
          next
            case (Some y)
            obtain xs l where y: "y = (xs, l)"
              by (cases y)
            show ?thesis
            proof (cases "l = m - k")
              case hit: True
              have "packed_view m vs ?V = map_option (Pair ((vs @ ws) @ xs)) (view_at rest s (?q + int (m - k)))"
                using pv True ps Some y hit mem by simp
              moreover have "buffer_end s + (?o + int l) = ?q + int (m - k)" "?o + int l = ?stop"
                using True hit by auto
              moreover have "ptr_ok s (?q + int (m - k))"
                using True in_slop b by (simp add: ptr_ok_def)
              ultimately show ?thesis
                using less.prems(1) step Some y by (auto intro!: follows_Some)
            next
              case miss: False
              then have "?o + int l \<noteq> ?stop"
                using True by auto
              then show ?thesis
                using pv True ps step Some y miss mem by (simp add: follows_def)
            qed
          qed
        next
          case False
          then have "?o + int l \<noteq> ?stop" for l
            by auto
          then show ?thesis
            using pv False step by (auto simp: follows_def split: option.split)
        qed
      next
        case flip: False
        have km: "k \<le> m"
          using flip k(3,4) by (cases "?e = 0") auto
        then have n: "int m - (?q - buffer_end s + (buffer_end s - p)) = int (m - k)"
          by simp
        have arr: "ReadPackedVarintArray (region s) p (buffer_end s) vs = Some (Inr (Some (?q, vs @ ws)))"
          using array [OF order_refl] Some x by simp
        have step: "packed_step vt p (int m) vs s =
          (if limit s \<le> kSlopBytes then Inr (Inl None, s)
           else and_then (Next vt s) (\<lambda>(a, t). case a of
               None \<Rightarrow> Inr (Inl None, t) | Some a \<Rightarrow> Inr (Inr (a + (?q - buffer_end s), int (m - k), vs @ ws), t)))"
          using True flip by (simp only: packed_step_def Let_def arr returns_Some and_then.simps option.case prod.case n
            kSlopBytes_def if_True if_False)
        have unfold: "packed_loop vt p (int m) vs s =
          (if limit s \<le> 16 then Some (Inr (None, s))
           else case Next vt s of Inl e \<Rightarrow> Some (Inl e)
             | Inr (None, t) \<Rightarrow> Some (Inr (None, t))
             | Inr (Some a, t) \<Rightarrow> packed_loop vt (a + (?q - buffer_end s)) (int (m - k)) (vs @ ws) t)"
          unfolding packed_loop.simps [of vt p] step by (cases "Next vt s") (auto simp: kSlopBytes_def split: option.split)
        show ?thesis
        proof (cases "limit s \<le> 16 \<or> next_chunk s = NullChunk")
          case True
          have "packed_view m vs ?V = None"
          proof (rule ccontr)
            assume "packed_view m vs ?V \<noteq> None"
            then obtain U L where v: "?V = Some (U, L)" "m \<le> length U" "m \<le> L"
              by (auto simp: packed_view_Some)
            then have "int L = limit s + (buffer_end s - p)" "int (length U) = int (length (ahead rest s)) - p"
              using b by (auto simp: view_at_def BytesUntilLimit_def split: if_splits)
            then show False
              using v flip True ahead_length(3) [OF core] b(4) by auto
          qed
          moreover have "\<exists>t. packed_loop vt p (int m) vs s = Some (Inr (None, t))"
            using True by (auto simp: unfold Next_def NextBuffer_def)
          ultimately show ?thesis
            by (auto simp: follows_def)
        next
          case False
          then obtain t where t: "Next vt s = Inr (Some 0, t)" "eps_ok ok rest t" "flips rest t < flips rest s"
              "kept s t"
              "\<And>p. buffer_end s \<le> p \<Longrightarrow> view_at rest t (p - buffer_end s) = view_at rest s p"
            using Next_flips [OF core] by metis
          have "follows (packed_view (m - k) (vs @ ws) (view_at rest t (?q - buffer_end s))) t
              (returns (packed_loop vt (?q - buffer_end s) (int (m - k)) (vs @ ws) t))"
            using t k eps_okD(1) [OF t(2)] by (intro less.hyps) (auto simp: ptr_ok_def)
          then show ?thesis
            using False pv km t k by (simp add: unfold follows_def)
        qed
      qed
    qed
  qed
qed

end

end
