(* ===== verification/Pb_Fields.thy ===== *)
theory Pb_Fields
  imports Pb_Packed
begin

text \<open>
  The loop of a message parser and the fields it does not know (parse_context.h, parse_context.cc,
  unknown_field_set.h, unknown_field_set.cc). The reference is a reader of byte lists: a function
  that takes a value off the front of a list and says how many bytes it took. The loop over an
  \<open>EpsCopyInputStream\<close> computes the reader of the bytes its pointer stands for, for every source and
  wherever its blocks end.
\<close>

section \<open>Readers\<close>

type_synonym 'v reader = "u8 list \<Rightarrow> ('v \<times> nat) option"

definition read_then :: "'a reader \<Rightarrow> ('a \<Rightarrow> 'b reader) \<Rightarrow> 'b reader" where
  "read_then R F bs = (case R bs of None \<Rightarrow> None | Some (v, n) \<Rightarrow> map_option (\<lambda>(w, k). (w, n + k)) (F v (drop n bs)))"

definition read_map :: "('a \<Rightarrow> 'b) \<Rightarrow> 'a reader \<Rightarrow> 'b reader" where
  "read_map f R bs = map_option (\<lambda>(v, n). (f v, n)) (R bs)"

definition read_bytes :: "nat \<Rightarrow> u8 list reader" where
  "read_bytes n bs = (if n \<le> length bs then Some (take n bs, n) else None)"

definition read_numbers :: "nat \<Rightarrow> u64 list reader" where
  "read_numbers m bs =
     (if m \<le> length bs
      then case varints_to m bs of None \<Rightarrow> None | Some (ws, k) \<Rightarrow> if k = m then Some (ws, m) else None
      else None)"

lemma on_view_None [simp]: "on_view R None = None"
  by (simp add: on_view_def)

lemma on_view_then:
  "on_view (read_then R F) V = (case on_view R V of None \<Rightarrow> None | Some (v, W) \<Rightarrow> on_view (F v) (Some W))"
  by (cases V) (auto simp: on_view_def read_then_def drop_take add.commute split: option.splits)

lemma on_view_map: "on_view (read_map f R) V = map_option (\<lambda>(v, W). (f v, W)) (on_view R V)"
  by (cases V) (auto simp: on_view_def read_map_def split: option.splits)

lemma on_view_bytes: "on_view (read_bytes n) V = string_view n V"
  by (cases V) (auto simp: on_view_def read_bytes_def string_view_def min_def)

lemma on_view_numbers: "on_view (read_numbers m) V = packed_view m [] V"
proof (cases V)
  case (Some W)
  obtain U L where V: "V = Some (U, L)"
    using Some by (cases W) auto
  show ?thesis
  proof (cases "m \<le> length U \<and> m \<le> L \<and> 0 < m")
    case True
    then obtain e where e: "m = Suc e"
      using gr0_implies_Suc by blast
    show ?thesis
      using True V by (auto simp: on_view_def read_numbers_def packed_view_def e varints_to.limited split: option.splits)
  next
    case False
    then show ?thesis
      using V by (auto simp: on_view_def read_numbers_def packed_view_def)
  qed
qed simp

text \<open>The bytes a view still offers; a reader leaves no more of them.\<close>

definition view_reach :: "view \<Rightarrow> nat" where
  "view_reach V = (case V of None \<Rightarrow> 0 | Some (U, L) \<Rightarrow> Suc (length U))"

lemma on_view_reach: "on_view R V = Some (v, W) \<Longrightarrow> view_reach (Some W) \<le> view_reach V"
  by (auto simp: on_view_def view_reach_def split: option.splits)

section \<open>Unknown fields\<close>

datatype unknown_field =
    TYPE_VARINT u32 u64
  | TYPE_FIXED32 u32 u32
  | TYPE_FIXED64 u32 u64
  | TYPE_LENGTH_DELIMITED u32 "u8 list"
  | TYPE_GROUP u32 "unknown_field list"

definition AddVarint :: "u32 \<Rightarrow> u64 \<Rightarrow> unknown_field list \<Rightarrow> unknown_field list" where
  "AddVarint number value unknown = unknown @ [TYPE_VARINT number value]"

definition AddFixed32 :: "u32 \<Rightarrow> u32 \<Rightarrow> unknown_field list \<Rightarrow> unknown_field list" where
  "AddFixed32 number value unknown = unknown @ [TYPE_FIXED32 number value]"

definition AddFixed64 :: "u32 \<Rightarrow> u64 \<Rightarrow> unknown_field list \<Rightarrow> unknown_field list" where
  "AddFixed64 number value unknown = unknown @ [TYPE_FIXED64 number value]"

text \<open>These two return a pointer to what the caller fills in; here they take the filled value.\<close>

definition AddLengthDelimited :: "u32 \<Rightarrow> u8 list \<Rightarrow> unknown_field list \<Rightarrow> unknown_field list" where
  "AddLengthDelimited number value unknown = unknown @ [TYPE_LENGTH_DELIMITED number value]"

definition AddGroup :: "u32 \<Rightarrow> unknown_field list \<Rightarrow> unknown_field list \<Rightarrow> unknown_field list" where
  "AddGroup number child unknown = unknown @ [TYPE_GROUP number child]"

section \<open>The loop of a parser\<close>

text \<open>One turn of a loop fails with a null pointer, goes on, or ends the message; the message so far is
  passed along. A parse that fails carries no message.\<close>

datatype 'm turn = Failed | Continue int 'm | Message_done int 'm

text \<open>When \<open>ReadTag\<close> returns a null pointer it sets the tag to zero, and the loops of both the library
  and the generated code fail.\<close>

partial_function (option) parse_loop ::
  "'s input_class \<Rightarrow> (u32 \<Rightarrow> int \<Rightarrow> 'm \<Rightarrow> 's eps_input \<Rightarrow> ('m turn \<times> 's eps_input) outcome) \<Rightarrow> int \<Rightarrow> 'm \<Rightarrow>
   's eps_input \<Rightarrow> ((int \<times> 'm) option \<times> 's eps_input) outcome option" where
  "parse_loop vt field ptr m s =
     (case Done vt ptr s of
        Inl e \<Rightarrow> Some (Inl e)
      | Inr ((None, _), s) \<Rightarrow> Some (Inr (None, s))
      | Inr ((Some ptr, is_done), s) \<Rightarrow>
          if is_done then Some (Inr (Some (ptr, m), s))
          else (case ReadTag (mem_from (region s) ptr) of
             Inl e \<Rightarrow> Some (Inl e)
           | Inr None \<Rightarrow> Some (Inr (None, s))
           | Inr (Some (tag, n)) \<Rightarrow>
               (case field tag (ptr + int n) m s of
                  Inl e \<Rightarrow> Some (Inl e)
                | Inr (Failed, s) \<Rightarrow> Some (Inr (None, s))
                | Inr (Continue ptr m, s) \<Rightarrow> parse_loop vt field ptr m s
                | Inr (Message_done ptr m, s) \<Rightarrow> Some (Inr (Some (ptr, m), s)))))"

declare parse_loop.simps [code]

definition proceed ::
  "('v \<Rightarrow> 'm) \<Rightarrow> ((int \<times> 'v) option \<times> 's eps_input) outcome \<Rightarrow> ('m turn \<times> 's eps_input) outcome" where
  "proceed f r = and_then r (\<lambda>(x, s). Inr (case x of None \<Rightarrow> Failed | Some (ptr, v) \<Rightarrow> Continue ptr (f v), s))"

section \<open>The parser of unknown fields\<close>

definition UnalignedLoad :: "u8 list \<Rightarrow> int \<Rightarrow> 'a::len word outcome" where
  "UnalignedLoad mem ptr = and_then (load mem ptr (int (LENGTH('a) div 8))) (\<lambda>bytes. Inr (little_endian bytes))"

definition ReadVarint64_field ::
  "int \<Rightarrow> 's eps_input \<Rightarrow> ((int \<times> u64) option \<times> 's eps_input) outcome" where
  "ReadVarint64_field ptr s =
     and_then (VarintParse64 (mem_from (region s) ptr)) (\<lambda>r. Inr (map_option (\<lambda>(v, n). (ptr + int n, v)) r, s))"

text \<open>\<open>InlineGreedyStringParser\<close>, which is also \<open>UnknownFieldParserHelper::ParseLengthDelimited\<close>.\<close>

definition InlineGreedyStringParser ::
  "'s input_class \<Rightarrow> int \<Rightarrow> 's eps_input \<Rightarrow> ((int \<times> u8 list) option \<times> 's eps_input) outcome" where
  "InlineGreedyStringParser vt ptr s =
     and_then (ReadSize (mem_from (region s) ptr)) (\<lambda>r. case r of
         None \<Rightarrow> Inr (None, s)
       | Some (len, n) \<Rightarrow> ReadString vt (ptr + int n) (sint len) s)"

text \<open>What is done with the value of a field.\<close>

definition with_value ::
  "('v \<Rightarrow> 'm) \<Rightarrow> ((int \<times> 'v) option \<times> 's eps_input) outcome \<Rightarrow> ((int \<times> 'm) option \<times> 's eps_input) outcome" where
  "with_value f r = and_then r (\<lambda>(x, s). Inr (map_option (\<lambda>(ptr, v). (ptr, f v)) x, s))"

definition FieldParser ::
  "'s input_class \<Rightarrow> (u32 \<Rightarrow> int \<Rightarrow> 's eps_input \<Rightarrow> ((int \<times> unknown_field list) option \<times> 's eps_input) outcome) \<Rightarrow>
   u32 \<Rightarrow> int \<Rightarrow> unknown_field list \<Rightarrow> 's eps_input \<Rightarrow> ((int \<times> unknown_field list) option \<times> 's eps_input) outcome" where
  "FieldParser vt parse_group tag ptr unknown s =
     (let number = drop_bit 3 tag; wire_type = tag AND 7 in
      if number = 0 then Inr (None, s)
      else if wire_type = 0 then with_value (\<lambda>v. AddVarint number v unknown) (ReadVarint64_field ptr s)
      else if wire_type = 1 then
        and_then (UnalignedLoad (region s) ptr) (\<lambda>v. Inr (Some (ptr + 8, AddFixed64 number v unknown), s))
      else if wire_type = 2 then with_value (\<lambda>v. AddLengthDelimited number v unknown) (InlineGreedyStringParser vt ptr s)
      else if wire_type = 3 then with_value (\<lambda>v. AddGroup number v unknown) (parse_group (number * 8 + 3) ptr s)
      else if wire_type = 4 then Inl (StdException ''FatalException'')
      else if wire_type = 5 then
        and_then (UnalignedLoad (region s) ptr) (\<lambda>v. Inr (Some (ptr + 4, AddFixed32 number v unknown), s))
      else Inr (None, s))"

definition WireFormat_turn ::
  "'s input_class \<Rightarrow> (u32 \<Rightarrow> int \<Rightarrow> 's eps_input \<Rightarrow> ((int \<times> unknown_field list) option \<times> 's eps_input) outcome) \<Rightarrow>
   u32 \<Rightarrow> int \<Rightarrow> unknown_field list \<Rightarrow> 's eps_input \<Rightarrow> (unknown_field list turn \<times> 's eps_input) outcome" where
  "WireFormat_turn vt parse_group tag ptr unknown s =
     (if tag = 0 \<or> tag AND 7 = 4 then Inr (Message_done ptr unknown, SetLastTag tag s)
      else proceed (\<lambda>unknown. unknown) (FieldParser vt parse_group tag ptr unknown s))"

definition WireFormatParser ::
  "'s input_class \<Rightarrow> (u32 \<Rightarrow> int \<Rightarrow> 's eps_input \<Rightarrow> ((int \<times> unknown_field list) option \<times> 's eps_input) outcome) \<Rightarrow>
   int \<Rightarrow> unknown_field list \<Rightarrow> 's eps_input \<Rightarrow> ((int \<times> unknown_field list) option \<times> 's eps_input) outcome" where
  "WireFormatParser vt parse_group ptr unknown s = returns (parse_loop vt (WireFormat_turn vt parse_group) ptr unknown s)"

text \<open>\<open>ParseContext::ParseGroup\<close> on a new group, with \<open>depth_\<close> as an argument.\<close>

primrec ParseGroup ::
  "'s input_class \<Rightarrow> nat \<Rightarrow> u32 \<Rightarrow> int \<Rightarrow> 's eps_input \<Rightarrow> ((int \<times> unknown_field list) option \<times> 's eps_input) outcome" where
  "ParseGroup vt 0 = (\<lambda>tag ptr s. Inr (None, s))"
| "ParseGroup vt (Suc depth) = (\<lambda>tag ptr s.
     and_then (WireFormatParser vt (ParseGroup vt depth) ptr [] (s\<lparr>group_depth := group_depth s + 1\<rparr>)) (\<lambda>(r, s).
     let (same, s) = ConsumeEndGroup tag (s\<lparr>group_depth := group_depth s - 1\<rparr>) in
     Inr (if same then r else None, s)))"

definition UnknownFieldParse ::
  "'s input_class \<Rightarrow> nat \<Rightarrow> u32 \<Rightarrow> int \<Rightarrow> unknown_field list \<Rightarrow> 's eps_input \<Rightarrow>
   ((int \<times> unknown_field list) option \<times> 's eps_input) outcome" where
  "UnknownFieldParse vt depth tag ptr unknown s = FieldParser vt (ParseGroup vt depth) tag ptr unknown s"

end
