(* ===== verification/Pb_Field_Loop.thy ===== *)
theory Pb_Field_Loop
  imports Pb_Fields
begin

text \<open>
  What the loop of a parser computes. \<open>message_loop\<close> is the loop on a list of bytes; a message whose
  turns agree with a reader of its fields (\<open>message_fields\<close>) is parsed from any source to what
  \<open>message_loop\<close> makes of the bytes ahead, and every parse returns. The parser of unknown fields is
  such a message, at every depth of groups.
\<close>

section \<open>The loop on a list of bytes\<close>

definition ends_message :: "u32 \<Rightarrow> bool" where
  "ends_message tag \<longleftrightarrow> tag = 0 \<or> tag AND 7 = 4"

text \<open>The loop ends at the end of the bytes or at a tag that ends the message.\<close>

function message_loop :: "(u32 \<Rightarrow> 'm \<Rightarrow> 'm reader) \<Rightarrow> 'm \<Rightarrow> ('m \<times> u32 option) reader" where
  "message_loop F m bs =
     (if bs = [] then Some ((m, None), 0)
      else case read_tag bs of
             None \<Rightarrow> None
           | Some (tag, n) \<Rightarrow>
               if ends_message tag then Some ((m, Some tag), n)
               else (case F tag m (drop n bs) of
                       None \<Rightarrow> None
                     | Some (m', k) \<Rightarrow> map_option (\<lambda>(x, l). (x, n + k + l)) (message_loop F m' (drop (n + k) bs))))"
  by auto
termination
  by (relation "measure (\<lambda>(F, m, bs). length bs)") (auto dest!: read_tag.taken)

declare message_loop.simps [simp del]

lemma message_loop_Nil [simp]: "message_loop F m [] = Some ((m, None), 0)"
  by (simp add: message_loop.simps)

text \<open>What comes behind a tag.\<close>

definition after_tag :: "(u32 \<Rightarrow> 'm \<Rightarrow> 'm reader) \<Rightarrow> u32 \<Rightarrow> 'm \<Rightarrow> ('m \<times> u32 option) reader" where
  "after_tag F tag m =
     (if ends_message tag then (\<lambda>bs. Some ((m, Some tag), 0)) else read_then (F tag m) (message_loop F))"

lemma message_loop_tag: "bs \<noteq> [] \<Longrightarrow> message_loop F m bs = read_then read_tag (\<lambda>tag. after_tag F tag m) bs"
  by (auto simp: message_loop.simps [of F m bs] read_then_def after_tag_def option.map_comp comp_def case_prod_unfold
      add.assoc add.commute add.left_commute split: option.split)

lemma on_view_loop:
  "on_view (message_loop F m) (Some (U, L)) =
    (if U = [] \<or> L = 0 then Some ((m, None), (U, L)) else on_view (read_then read_tag (\<lambda>tag. after_tag F tag m)) (Some (U, L)))"
  by (simp add: on_view_def message_loop_tag)

lemma message_loop_taken:
  assumes "\<And>tag m bs m' n. F tag m bs = Some (m', n) \<Longrightarrow> n \<le> length bs" and "message_loop F m bs = Some ((m', e), n)"
  shows "n \<le> length bs \<and> (e = None \<longrightarrow> n = length bs)"
  using assms(2)
proof (induction "length bs" arbitrary: m bs n rule: less_induct)
  case less
  show ?case
  proof (cases "bs = []")
    case False
    from less.prems False obtain tag k where t: "read_tag bs = Some (tag, k)"
      by (auto simp: message_loop.simps [of F m bs] split: option.splits)
    then have k: "0 < k" "k \<le> length bs"
      using read_tag.taken by blast+
    show ?thesis
    proof (cases "ends_message tag")
      case True
      then show ?thesis
        using less.prems False t k by (auto simp: message_loop.simps [of F m bs])
    next
      case go_on: False
      then obtain m1 j l where f: "F tag m (drop k bs) = Some (m1, j)" "message_loop F m1 (drop (k + j) bs) = Some ((m', e), l)"
          "n = k + j + l"
        using less.prems False t by (auto simp: message_loop.simps [of F m bs] split: option.splits)
      have "j \<le> length bs - k"
        using assms(1) [OF f(1)] by simp
      moreover have "l \<le> length (drop (k + j) bs) \<and> (e = None \<longrightarrow> l = length (drop (k + j) bs))"
        by (rule less.hyps [OF _ f(2)]) (use k False in simp)
      ultimately show ?thesis
        using f(3) k by auto
    qed
  qed (use less.prems in simp)
qed

section \<open>Results of a turn and of a loop\<close>

context zero_copy_input
begin

lemma reader_follows:
  assumes "prefix_reader R k" and "eps_ok ok rest s" and "ptr_ok s p" and "p + int k \<le> buffer_end s + 16"
  shows "follows (on_view R (view_at rest s p)) s
    (Inr (map_option (\<lambda>(v, n). (p + int n, v)) (R (mem_from (region s) p)), s))"
proof (cases "R (mem_from (region s) p)")
  case None
  then show ?thesis
    using prefix_reader.reads_view [OF assms(1) eps_okD(6) [OF assms(2)] assms(3,4)] by (simp add: follows_def)
next
  case (Some x)
  obtain v n where x: "x = (v, n)"
    by (cases x)
  then have n: "n \<le> k" "on_view R (view_at rest s p) = map_option (Pair v) (view_at rest s (p + int n))"
    using Some prefix_reader.reads_view [OF assms(1) eps_okD(6) [OF assms(2)] assms(3,4)] by auto
  moreover have "ptr_ok s (p + int n)"
    using n(1) assms(3,4) by (simp add: ptr_ok_def)
  ultimately show ?thesis
    using Some x assms(2) by (auto intro!: follows_Some)
qed

lemma size_follows:
  assumes "eps_ok ok rest s" and "ptr_ok s p" and "p + 5 \<le> buffer_end s + 16"
    and "\<And>m n. read_size (mem_from (region s) p) = Some (m, n) \<Longrightarrow> n \<le> 5 \<Longrightarrow> int m \<le> INT_MAX - 16 \<Longrightarrow> ptr_ok s (p + int n) \<Longrightarrow>
      follows (on_view (F m) (view_at rest s (p + int n))) s (f (of_nat m) (p + int n))"
  shows "follows (on_view (read_then read_size F) (view_at rest s p)) s
    (and_then (ReadSize (mem_from (region s) p)) (\<lambda>r. case r of None \<Rightarrow> Inr (None, t) | Some (len, n) \<Rightarrow> f len (p + int n)))"
proof -
  have b: "0 \<le> p" "buffer_end s + 16 \<le> int (length (region s))"
    using assms(1,2) by (auto simp: ptr_ok_def dest: eps_okD)
  then have len: "5 \<le> length (mem_from (region s) p)"
    using assms(3) by (simp add: mem_from_def)
  have rv: "p + int 5 \<le> buffer_end s + 16"
    using assms(3) by simp
  note rv = read_size.reads_view [OF eps_okD(6) [OF assms(1)] assms(2) rv]
  show ?thesis
  proof (cases "read_size (mem_from (region s) p)")
    case None
    then show ?thesis
      using rv ReadSize_value [OF len] by (simp add: on_view_then follows_def)
  next
    case (Some x)
    obtain m n where x: "x = (m, n)"
      by (cases x)
    have m: "int m \<le> INT_MAX - 16"
      using Some x by (auto simp: read_size_def Let_def split: option.splits if_splits)
    have n: "n \<le> 5" "on_view read_size (view_at rest s p) = map_option (Pair m) (view_at rest s (p + int n))"
      using rv Some x by auto
    then have "ptr_ok s (p + int n)"
      using assms(3) b by (simp add: ptr_ok_def)
    then have "follows (on_view (F m) (view_at rest s (p + int n))) s (f (of_nat m) (p + int n))"
      using assms(4) Some x n m by blast
    moreover have "on_view (read_then read_size F) (view_at rest s p) = on_view (F m) (view_at rest s (p + int n))"
      using n(2) by (cases "view_at rest s (p + int n)") (simp_all add: on_view_then)
    ultimately show ?thesis
      using Some x ReadSize_value [OF len] by simp
  qed
qed

text \<open>One turn, when the message behind the tag is \<open>after_tag\<close>; the loop goes on with less.\<close>

definition turn_follows ::
  "(u32 \<Rightarrow> 'm \<Rightarrow> 'm reader) \<Rightarrow> (('m \<times> u32 option) \<times> (u8 list \<times> nat)) option \<Rightarrow> int \<Rightarrow> 's eps_input \<Rightarrow>
   ('m turn \<times> 's eps_input) outcome \<Rightarrow> bool" where
  "turn_follows F A p s r \<longleftrightarrow>
     (\<exists>t. r = Inr (Failed, t) \<and> A = None) \<or>
     (\<exists>q m t. r = Inr (Continue q m, t) \<and> eps_ok ok rest t \<and> ptr_ok t q \<and> kept s t \<and>
       view_reach (view_at rest t q) \<le> view_reach (view_at rest s p) \<and> A = on_view (message_loop F m) (view_at rest t q))"

lemma with_value_follows: "follows (on_view R V) s r \<Longrightarrow> follows (on_view (read_map f R) V) s (with_value f r)"
  by (auto simp: follows_def with_value_def on_view_map option.map_comp comp_def)

lemma proceed_follows:
  assumes "follows (on_view R (view_at rest s p)) s r" and "F tag m = read_map f R" and "\<not> ends_message tag"
  shows "turn_follows F (on_view (after_tag F tag m) (view_at rest s p)) p s (proceed f r)"
proof -
  have a: "on_view (after_tag F tag m) (view_at rest s p) =
      (case on_view R (view_at rest s p) of None \<Rightarrow> None | Some (v, W) \<Rightarrow> on_view (message_loop F (f v)) (Some W))"
    using assms(2,3) by (simp add: after_tag_def on_view_then on_view_map split: option.split)
  from assms(1) consider t where "r = Inr (None, t)" "on_view R (view_at rest s p) = None"
    | q v t where "r = Inr (Some (q, v), t)" "eps_ok ok rest t" "ptr_ok t q" "kept s t"
      "on_view R (view_at rest s p) = map_option (Pair v) (view_at rest t q)"
    unfolding follows_def by blast
  then show ?thesis
  proof cases
    case 1
    then show ?thesis
      by (simp add: turn_follows_def proceed_def a)
  next
    case 2
    have "view_reach (view_at rest t q) \<le> view_reach (view_at rest s p)"
      using 2(5) on_view_reach [of R "view_at rest s p" v] by (cases "view_at rest t q") (auto simp: view_reach_def)
    moreover have "on_view (after_tag F tag m) (view_at rest s p) = on_view (message_loop F (f v)) (view_at rest t q)"
      using 2(5) by (cases "view_at rest t q") (auto simp: a)
    ultimately show ?thesis
      using 2 by (simp add: turn_follows_def proceed_def)
  qed
qed

text \<open>How a loop ends: with a null pointer, at the end of the source in front of its limit, at the limit,
  or behind a tag.\<close>

definition loop_result ::
  "(('m \<times> u32 option) \<times> (u8 list \<times> nat)) option \<Rightarrow> 's eps_input \<Rightarrow> ((int \<times> 'm) option \<times> 's eps_input) outcome \<Rightarrow> bool" where
  "loop_result A s r \<longleftrightarrow>
     (\<exists>t. r = Inr (None, t) \<and> A = None) \<or>
     (\<exists>q m t L. r = Inr (Some (q, m), t) \<and> EndedAtEndOfStream t \<and> 0 < L \<and> A = Some ((m, None), ([], L))) \<or>
     (\<exists>q m t U. r = Inr (Some (q, m), t) \<and> eps_ok ok rest t \<and> ptr_ok t q \<and> kept s t \<and>
        view_at rest t q = Some (U, 0) \<and> A = Some ((m, None), (U, 0))) \<or>
     (\<exists>q m t tag. r = Inr (Some (q, m), t) \<and> ends_message tag \<and> eps_ok ok rest t \<and> ptr_ok t q \<and>
        last_tag_minus_1 t = tag - 1 \<and> group_depth t = group_depth s \<and>
        A = map_option (Pair (m, Some tag)) (view_at rest t q))"

end

section \<open>Messages\<close>

text \<open>\<open>turn\<close> is the body of the message's loop behind a tag and \<open>F\<close> the reader of its fields; the first
  law is the end of a message, the second a field. There is room for the longest number behind the tag.\<close>

locale message_fields = zero_copy_input vt ok rest
  for vt :: "'s input_class" and ok :: "'s \<Rightarrow> bool" and rest :: "'s \<Rightarrow> u8 list" +
  fixes turn :: "u32 \<Rightarrow> int \<Rightarrow> 'm \<Rightarrow> 's eps_input \<Rightarrow> ('m turn \<times> 's eps_input) outcome"
    and F :: "u32 \<Rightarrow> 'm \<Rightarrow> 'm reader" and depth :: nat
  assumes turn_end: "ends_message tag \<Longrightarrow> turn tag p m s = Inr (Message_done p m, SetLastTag tag s)"
    and turn_field: "\<not> ends_message tag \<Longrightarrow> eps_ok ok rest s \<Longrightarrow> ptr_ok s p \<Longrightarrow> p + 12 \<le> buffer_end s + 16 \<Longrightarrow>
      last_tag_minus_1 s = 0 \<Longrightarrow> group_depth s + int depth < 0 \<Longrightarrow>
      turn_follows F (on_view (after_tag F tag m) (view_at rest s p)) p s (turn tag p m s)"
    and taken_field: "F tag m bs = Some (m', n) \<Longrightarrow> n \<le> length bs"
begin

lemma loop_taken: "message_loop F m bs = Some ((m', e), n) \<Longrightarrow> n \<le> length bs \<and> (e = None \<longrightarrow> n = length bs)"
  by (rule message_loop_taken) (rule taken_field)

lemma parse_loop_result:
  assumes "eps_ok ok rest s" and "ptr_ok s p" and "last_tag_minus_1 s = 0" and "group_depth s + int depth < 0"
  shows "loop_result (on_view (message_loop F m) (view_at rest s p)) s (returns (parse_loop vt turn p m s))"
  using assms
proof (induction "view_reach (view_at rest s p)" arbitrary: s p m rule: less_induct)
  case less
  note d = Done_result [OF less.prems(1,2)]
  show ?case
  proof (cases "view_at rest s p")
    case None
    then obtain t where "Done vt p s = Inr ((None, True), t)"
      using d by (auto simp: done_result_def)
    then have "parse_loop vt turn p m s = Some (Inr (None, t))"
      by (subst parse_loop.simps) simp
    then show ?thesis
      using None by (simp add: loop_result_def)
  next
    case (Some V)
    obtain U L where V: "V = (U, L)"
      by (cases V)
    consider (limit) "L = 0" | (eos) "L \<noteq> 0" "U = []" | (more) "L \<noteq> 0" "U \<noteq> []"
      by blast
    then show ?thesis
    proof cases
      case limit
      then have "parse_loop vt turn p m s = Some (Inr (Some (p, m), s))"
        using d Some V by (subst parse_loop.simps) (simp add: done_result_def)
      then show ?thesis
        using Some V limit less.prems by (auto simp: loop_result_def on_view_loop)
    next
      case eos
      then obtain q t where t: "Done vt p s = Inr ((Some q, True), t)" "EndedAtEndOfStream t"
        using d Some V by (auto simp: done_result_def)
      from t(1) have "parse_loop vt turn p m s = Some (Inr (Some (q, m), t))"
        by (subst parse_loop.simps) simp
      with t(2) show ?thesis
        using Some V eos by (auto simp: loop_result_def on_view_loop)
    next
      case more
      then obtain q t where t: "Done vt p s = Inr ((Some q, False), t)" "eps_ok ok rest t" "0 \<le> q" "q < limit_end t"
          "view_at rest t q = Some (U, L)" "kept s t"
        using d Some V by (auto simp: done_result_def)
      have q: "ptr_ok t q" "q + int 5 \<le> buffer_end t + 16" "q < buffer_end t"
        using t(3,4) eps_okD(3) [OF t(2)] by (auto simp: ptr_ok_def)
      have "5 \<le> length (mem_from (region t) q)"
        using q(2,3) t(3) eps_okD(2) [OF t(2)] by (simp add: mem_from_def)
      note rt = ReadTag_value [OF this]
      note rv = read_tag.reads_view [OF eps_okD(6) [OF t(2)] q(1,2)]
      have A: "on_view (message_loop F m) (view_at rest s p) =
          on_view (read_then read_tag (\<lambda>tag. after_tag F tag m)) (view_at rest t q)"
        using Some V more t(5) by (simp add: on_view_loop)
      show ?thesis
      proof (cases "read_tag (mem_from (region t) q)")
        case None
        then have "parse_loop vt turn p m s = Some (Inr (None, t))"
          using t(1) rt by (subst parse_loop.simps) simp
        then show ?thesis
          using A rv None by (simp add: loop_result_def on_view_then)
      next
        case read: (Some x)
        obtain tag n where x: "x = (tag, n)"
          by (cases x)
        let ?q = "q + int n"
        have n: "0 < n" "n \<le> 5" and v: "on_view read_tag (view_at rest t q) = map_option (Pair tag) (view_at rest t ?q)"
          using rv read x by auto
        have A': "on_view (message_loop F m) (view_at rest s p) = on_view (after_tag F tag m) (view_at rest t ?q)"
          using A v by (cases "view_at rest t ?q") (simp_all add: on_view_then)
        have pq: "ptr_ok t ?q" "?q + 12 \<le> buffer_end t + 16"
          using n q t(3) by (auto simp: ptr_ok_def)
        have smaller: "view_reach (view_at rest t ?q) < view_reach (view_at rest s p)"
          using view_at_advance [OF t(3), of rest t n] t(5) n(1) more(2) Some V by (auto simp: shift_def view_reach_def)
        show ?thesis
        proof (cases "ends_message tag")
          case True
          have "parse_loop vt turn p m s = Some (Inr (Some (?q, m), SetLastTag tag t))"
            using t(1) rt read x turn_end [OF True] by (subst parse_loop.simps) simp
          moreover have "on_view (after_tag F tag m) (view_at rest t ?q) = map_option (Pair (m, Some tag)) (view_at rest t ?q)"
            using True by (cases "view_at rest t ?q") (auto simp: after_tag_def on_view_def)
          moreover have "eps_ok ok rest (SetLastTag tag t)" "ptr_ok (SetLastTag tag t) ?q"
              "view_at rest (SetLastTag tag t) ?q = view_at rest t ?q"
            using t(2) pq(1) by (auto simp: SetLastTag_def eps_ok_def eps_core_def source_ok_def ptr_ok_def
                intro: view_at_fields split: chunk_ptr.split option.split)
          ultimately show ?thesis
            using A' True t(6) by (auto simp: loop_result_def SetLastTag_def)
        next
          case False
          have unfold: "parse_loop vt turn p m s =
              (case turn tag ?q m t of Inl e \<Rightarrow> Some (Inl e)
               | Inr (Failed, t) \<Rightarrow> Some (Inr (None, t))
               | Inr (Continue p m, t) \<Rightarrow> parse_loop vt turn p m t
               | Inr (Message_done p m, t) \<Rightarrow> Some (Inr (Some (p, m), t)))"
            using t(1) rt read x by (subst parse_loop.simps) simp
          have "turn_follows F (on_view (after_tag F tag m) (view_at rest t ?q)) ?q t (turn tag ?q m t)"
            using t(6) less.prems(3,4) by (intro turn_field [OF False t(2) pq]) auto
          then consider u where "turn tag ?q m t = Inr (Failed, u)" "on_view (after_tag F tag m) (view_at rest t ?q) = None"
            | q' m' u where "turn tag ?q m t = Inr (Continue q' m', u)" "eps_ok ok rest u" "ptr_ok u q'" "kept t u"
              "view_reach (view_at rest u q') \<le> view_reach (view_at rest t ?q)"
              "on_view (after_tag F tag m) (view_at rest t ?q) = on_view (message_loop F m') (view_at rest u q')"
            unfolding turn_follows_def by blast
          then show ?thesis
          proof cases
            case 1
            then show ?thesis
              using unfold A' by (simp add: loop_result_def)
          next
            case 2
            have "loop_result (on_view (message_loop F m') (view_at rest u q')) u (returns (parse_loop vt turn q' m' u))"
              using 2 smaller t(6) less.prems(3,4) by (intro less.hyps) auto
            then show ?thesis
              using unfold A' 2 t(6) by (simp add: loop_result_def)
          qed
        qed
      qed
    qed
  qed
qed

end

end
