(* ===== verification/Pb_Unknown.thy ===== *)
theory Pb_Unknown
  imports Pb_Field_Loop
begin

text \<open>
  Unknown fields on a list of bytes, and that the parser of unknown fields computes them at every
  depth of groups it is allowed.
\<close>

section \<open>The readers\<close>

definition unknown_reader :: "(u32 \<Rightarrow> unknown_field list reader) \<Rightarrow> u32 \<Rightarrow> unknown_field list \<Rightarrow> unknown_field list reader" where
  "unknown_reader read_group tag unknown =
     (let number = drop_bit 3 tag; wire_type = tag AND 7 in
      if number = 0 then (\<lambda>bs. None)
      else if wire_type = 0 then read_map (\<lambda>v. AddVarint number v unknown) read_varint
      else if wire_type = 1 then read_map (\<lambda>v. AddFixed64 number (little_endian v) unknown) (read_bytes 8)
      else if wire_type = 2 then read_map (\<lambda>v. AddLengthDelimited number v unknown) (read_then read_size read_bytes)
      else if wire_type = 3 then read_map (\<lambda>v. AddGroup number v unknown) (read_group tag)
      else if wire_type = 5 then read_map (\<lambda>v. AddFixed32 number (little_endian v) unknown) (read_bytes 4)
      else (\<lambda>bs. None))"

text \<open>A group ends behind the tag that is one more than the tag it starts with.\<close>

primrec group_reader :: "nat \<Rightarrow> u32 \<Rightarrow> unknown_field list reader" where
  "group_reader 0 = (\<lambda>tag bs. None)"
| "group_reader (Suc depth) = (\<lambda>tag bs.
     case message_loop (unknown_reader (group_reader depth)) [] bs of
       Some ((child, Some t), n) \<Rightarrow> if t = tag + 1 then Some (child, n) else None
     | _ \<Rightarrow> None)"

abbreviation unknown_fields :: "nat \<Rightarrow> u32 \<Rightarrow> unknown_field list \<Rightarrow> unknown_field list reader" where
  "unknown_fields depth \<equiv> unknown_reader (group_reader depth)"

text \<open>What a reader takes is there.\<close>

lemma read_bytes_taken: "read_bytes n bs = Some (v, k) \<Longrightarrow> k \<le> length bs"
  by (simp add: read_bytes_def split: if_splits)

lemma read_map_taken:
  assumes "read_map f R bs = Some (v, n)" and "\<And>v n. R bs = Some (v, n) \<Longrightarrow> n \<le> length bs"
  shows "n \<le> length bs"
  using assms by (auto simp: read_map_def)

lemma read_then_taken:
  assumes "read_then R F bs = Some (v, n)" and "\<And>v n. R bs = Some (v, n) \<Longrightarrow> n \<le> length bs"
    and "\<And>u v n bs. F u bs = Some (v, n) \<Longrightarrow> n \<le> length bs"
  shows "n \<le> length bs"
proof -
  from assms(1) obtain u k w j where "R bs = Some (u, k)" "F u (drop k bs) = Some (w, j)" "n = k + j"
    by (auto simp: read_then_def split: option.splits)
  with assms(2) [of u k] assms(3) [of u "drop k bs" w j] show ?thesis
    by simp
qed

lemma unknown_reader_taken:
  assumes "\<And>tag bs v n. read_group tag bs = Some (v, n) \<Longrightarrow> n \<le> length bs" and "unknown_reader read_group tag unknown bs = Some (v, n)"
  shows "n \<le> length bs"
proof -
  have s: "read_then read_size read_bytes bs = Some (v, n) \<Longrightarrow> n \<le> length bs" for v n
    by (erule read_then_taken) (auto dest: read_size.taken read_bytes_taken)
  show ?thesis
    using assms(2)
    by (auto simp: unknown_reader_def Let_def split: if_splits elim!: read_map_taken
        dest: read_varint.taken read_bytes_taken s assms(1))
qed

lemma group_reader_taken: "group_reader depth tag bs = Some (v, n) \<Longrightarrow> n \<le> length bs"
proof (induction depth arbitrary: tag bs v n)
  case (Suc depth)
  then obtain e where "message_loop (unknown_fields depth) [] bs = Some ((v, e), n)"
    by (auto split: option.splits if_splits)
  then show ?case
    using message_loop_taken [of "unknown_fields depth"] unknown_reader_taken Suc.IH by blast
qed simp

lemma unknown_fields_taken: "unknown_fields depth tag unknown bs = Some (v, n) \<Longrightarrow> n \<le> length bs"
  by (erule unknown_reader_taken [rotated]) (rule group_reader_taken)

declare group_reader.simps [simp del]

lemma on_view_fails [simp]: "on_view (\<lambda>bs. None) V = None"
  by (simp add: on_view_def split: option.split)

section \<open>The parser\<close>

lemma sint_size: "int m \<le> INT_MAX - 16 \<Longrightarrow> sint (of_nat m :: u32) = int m"
  by (simp add: INT_MAX_def signed_of_nat signed_take_bit_int_eq_self)

lemma tag_parts: "drop_bit 3 tag * 8 + (tag AND 7) = (tag :: u32)"
proof -
  have "push_bit 3 (drop_bit 3 tag) + take_bit 3 tag = tag"
    by (rule bits_ident)
  moreover have "take_bit 3 tag = tag AND 7"
    by (simp add: take_bit_eq_mask mask_numeral)
  ultimately show ?thesis
    by (simp add: push_bit_eq_mult)
qed

lemma view_at_status [simp]:
  "view_at rest (s\<lparr>group_depth := g\<rparr>) p = view_at rest s p"
  "view_at rest (s\<lparr>last_tag_minus_1 := l\<rparr>) p = view_at rest s p"
  by (rule view_at_fields, simp_all)+

lemma ptr_ok_status [simp]:
  "ptr_ok (s\<lparr>group_depth := g\<rparr>) p = ptr_ok s p" "ptr_ok (s\<lparr>last_tag_minus_1 := l\<rparr>) p = ptr_ok s p"
  by (simp_all add: ptr_ok_def)

lemma eps_ok_status:
  "eps_ok ok rest s \<Longrightarrow> g < 0 \<Longrightarrow> eps_ok ok rest (s\<lparr>group_depth := g\<rparr>)"
  "eps_ok ok rest s \<Longrightarrow> eps_ok ok rest (s\<lparr>last_tag_minus_1 := l\<rparr>)"
  by (auto simp: eps_ok_def eps_core_def source_ok_def split: chunk_ptr.splits option.splits)

context zero_copy_input
begin

lemma load_follows:
  assumes "eps_ok ok rest s" and "ptr_ok s p" and "p + int n \<le> buffer_end s + 16"
  obtains bytes where "load (region s) p (int n) = Inr bytes" "length bytes = n"
    "follows (on_view (read_bytes n) (view_at rest s p)) s (Inr (Some (p + int n, bytes), s))"
proof -
  obtain bytes where b: "load (region s) p (int n) = Inr bytes" "length bytes = n"
      "string_view n (view_at rest s p) = map_option (Pair bytes) (view_at rest s (p + int n))"
    using load_view [OF eps_okD(6) [OF assms(1)] assms(2,3)] by blast
  moreover have "ptr_ok s (p + int n)"
    using assms(2,3) by (simp add: ptr_ok_def)
  ultimately show thesis
    using assms(1) by (intro that) (auto intro!: follows_Some simp: on_view_bytes)
qed

lemma varint64_follows:
  assumes "eps_ok ok rest s" and "ptr_ok s p" and "p + 10 \<le> buffer_end s + 16"
  shows "follows (on_view read_varint (view_at rest s p)) s (ReadVarint64_field p s)"
proof -
  have "10 \<le> length (mem_from (region s) p)"
    using assms(2,3) eps_okD(2) [OF assms(1)] by (simp add: mem_from_def ptr_ok_def)
  then show ?thesis
    using reader_follows [OF read_varint.prefix_reader_axioms assms(1,2)] assms(3)
    by (simp add: ReadVarint64_field_def VarintParse64_value)
qed

lemma string_follows:
  assumes "eps_ok ok rest s" and "ptr_ok s p" and "p + 5 \<le> buffer_end s + 16"
  shows "follows (on_view (read_then read_size read_bytes) (view_at rest s p)) s (InlineGreedyStringParser vt p s)"
  unfolding InlineGreedyStringParser_def
proof (rule size_follows [OF assms])
  fix m n
  assume m: "int m \<le> INT_MAX - 16" and p: "ptr_ok s (p + int n)"
  show "follows (on_view (read_bytes m) (view_at rest s (p + int n))) s (ReadString vt (p + int n) (sint (of_nat m :: u32)) s)"
    using ReadString_follows [OF assms(1) p, of m] by (simp add: on_view_bytes sint_size [OF m])
qed

lemma FieldParser_follows:
  assumes "eps_ok ok rest s" and "ptr_ok s p" and "p + 12 \<le> buffer_end s + 16" and "\<not> ends_message tag"
    and group: "tag AND 7 = 3 \<Longrightarrow> follows (on_view (read_group tag) (view_at rest s p)) s (parse_group tag p s)"
  shows "follows (on_view (unknown_reader read_group tag unknown) (view_at rest s p)) s (FieldParser vt parse_group tag p unknown s)"
proof -
  let ?number = "drop_bit 3 tag"
  consider "?number = 0" | "?number \<noteq> 0" "tag AND 7 = 0" | "?number \<noteq> 0" "tag AND 7 = 1" | "?number \<noteq> 0" "tag AND 7 = 2"
    | "?number \<noteq> 0" "tag AND 7 = 3" | "?number \<noteq> 0" "tag AND 7 = 5" | "?number \<noteq> 0" "tag AND 7 \<notin> {0, 1, 2, 3, 4, 5}"
    using assms(4) by (auto simp: ends_message_def)
  then show ?thesis
  proof cases
    case 2
    then show ?thesis
      using with_value_follows [OF varint64_follows [OF assms(1,2)]] assms(3)
      by (simp add: FieldParser_def unknown_reader_def Let_def)
  next
    case 3
    obtain bytes where "load (region s) p (int 8) = Inr bytes" "length bytes = 8"
        "follows (on_view (read_bytes 8) (view_at rest s p)) s (Inr (Some (p + int 8, bytes), s))"
      using assms(3) by (elim load_follows [OF assms(1,2), of 8, rotated]) simp
    then show ?thesis
      using 3 with_value_follows [of "read_bytes 8" "view_at rest s p" s "Inr (Some (p + int 8, bytes), s)"
          "\<lambda>v. AddFixed64 ?number (little_endian v) unknown"]
      by (simp add: FieldParser_def UnalignedLoad_def with_value_def unknown_reader_def Let_def)
  next
    case 4
    then show ?thesis
      using with_value_follows [OF string_follows [OF assms(1,2)]] assms(3)
      by (simp add: FieldParser_def unknown_reader_def Let_def)
  next
    case 5
    moreover from this have "?number * 8 + 3 = tag"
      using tag_parts [of tag] by simp
    ultimately show ?thesis
      using with_value_follows [OF group] by (simp add: FieldParser_def unknown_reader_def Let_def)
  next
    case 6
    obtain bytes where "load (region s) p (int 4) = Inr bytes" "length bytes = 4"
        "follows (on_view (read_bytes 4) (view_at rest s p)) s (Inr (Some (p + int 4, bytes), s))"
      using assms(3) by (elim load_follows [OF assms(1,2), of 4, rotated]) simp
    then show ?thesis
      using 6 with_value_follows [of "read_bytes 4" "view_at rest s p" s "Inr (Some (p + int 4, bytes), s)"
          "\<lambda>v. AddFixed32 ?number (little_endian v) unknown"]
      by (simp add: FieldParser_def UnalignedLoad_def with_value_def unknown_reader_def Let_def)
  qed (simp_all add: FieldParser_def unknown_reader_def follows_def Let_def)
qed

lemma group_follows:
  assumes loop: "message_fields vt ok rest (WireFormat_turn vt (ParseGroup vt depth)) (unknown_fields depth) depth"
    and "eps_ok ok rest s" and "ptr_ok s p" and "last_tag_minus_1 s = 0" and "group_depth s + int (Suc depth) < 0"
    and tag: "tag \<noteq> 0" "tag \<noteq> 1"
  shows "follows (on_view (group_reader (Suc depth) tag) (view_at rest s p)) s (ParseGroup vt (Suc depth) tag p s)"
proof -
  let ?s = "s\<lparr>group_depth := group_depth s + 1\<rparr>"
  let ?r = "WireFormatParser vt (ParseGroup vt depth) p [] ?s" and ?A = "on_view (message_loop (unknown_fields depth) []) (view_at rest s p)"
  have g: "on_view (group_reader (Suc depth) tag) (view_at rest s p) =
      (case ?A of Some ((child, Some t), W) \<Rightarrow> if t = tag + 1 then Some (child, W) else None | _ \<Rightarrow> None)"
    by (cases "view_at rest s p") (auto simp: on_view_def group_reader.simps split: option.splits)
  have "loop_result (on_view (message_loop (unknown_fields depth) []) (view_at rest ?s p)) ?s ?r"
    unfolding WireFormatParser_def
    using assms(2-5) by (intro message_fields.parse_loop_result [OF loop] eps_ok_status(1)) auto
  then have "loop_result ?A ?s ?r"
    by simp
  then consider t where "?r = Inr (None, t)" "?A = None"
    | q m t L where "?r = Inr (Some (q, m), t)" "EndedAtEndOfStream t" "?A = Some ((m, None), ([], L))"
    | q m t U where "?r = Inr (Some (q, m), t)" "kept ?s t" "?A = Some ((m, None), (U, 0))"
    | q m t e where "?r = Inr (Some (q, m), t)" "eps_ok ok rest t" "ptr_ok t q" "last_tag_minus_1 t = e - 1"
      "group_depth t = group_depth ?s" "?A = map_option (Pair (m, Some e)) (view_at rest t q)"
    unfolding loop_result_def by blast
  then show ?thesis
  proof cases
    case 1
    then show ?thesis
      by (simp add: g ConsumeEndGroup_def follows_def)
  next
    case 2
    then show ?thesis
      using tag by (simp add: g ConsumeEndGroup_def EndedAtEndOfStream_def follows_def)
  next
    case 3
    then show ?thesis
      using tag assms(4) by (simp add: g ConsumeEndGroup_def follows_def)
  next
    case 4
    have e: "e - 1 = tag \<longleftrightarrow> e = tag + 1"
      by (auto simp: algebra_simps)
    let ?t = "t\<lparr>group_depth := group_depth t - 1, last_tag_minus_1 := 0\<rparr>"
    have r: "ParseGroup vt (Suc depth) tag p s = Inr (if e = tag + 1 then Some (q, m) else None, ?t)"
      using 4(1,4) e by (simp add: ConsumeEndGroup_def)
    show ?thesis
    proof (cases "e = tag + 1")
      case True
      have "eps_ok ok rest ?t"
        using 4(2,5) assms(5) by (intro eps_ok_status) auto
      moreover have "kept s ?t"
        using 4(5) assms(4) by simp
      moreover have "on_view (group_reader (Suc depth) tag) (view_at rest s p) = map_option (Pair m) (view_at rest ?t q)"
        unfolding g 4(6) using True by (cases "view_at rest t q") auto
      ultimately show ?thesis
        unfolding r using True 4(3) by (auto intro!: follows_Some)
    next
      case False
      then have "on_view (group_reader (Suc depth) tag) (view_at rest s p) = None"
        unfolding g 4(6) by (cases "view_at rest t q") auto
      then show ?thesis
        unfolding r using False by (simp add: follows_None)
    qed
  qed
qed

text \<open>With \<open>depth\<close> left, unknown fields are read as \<open>unknown_fields depth\<close> does.\<close>

lemma unknown_message_step:
  assumes "\<And>tag p s. tag AND 7 = 3 \<Longrightarrow> eps_ok ok rest s \<Longrightarrow> ptr_ok s p \<Longrightarrow> last_tag_minus_1 s = 0 \<Longrightarrow>
    group_depth s + int depth < 0 \<Longrightarrow> follows (on_view (group_reader depth tag) (view_at rest s p)) s (ParseGroup vt depth tag p s)"
  shows "message_fields vt ok rest (WireFormat_turn vt (ParseGroup vt depth)) (unknown_fields depth) depth"
proof
  fix tag p s unknown bs m n
  show "ends_message tag \<Longrightarrow> WireFormat_turn vt (ParseGroup vt depth) tag p unknown s = Inr (Message_done p unknown, SetLastTag tag s)"
    by (simp add: WireFormat_turn_def ends_message_def)
  show "unknown_fields depth tag unknown bs = Some (m, n) \<Longrightarrow> n \<le> length bs"
    by (rule unknown_fields_taken)
  assume a: "\<not> ends_message tag" "eps_ok ok rest s" "ptr_ok s p" "p + 12 \<le> buffer_end s + 16"
    and b: "last_tag_minus_1 s = 0" "group_depth s + int depth < 0"
  have f: "follows (on_view (unknown_fields depth tag unknown) (view_at rest s p)) s (FieldParser vt (ParseGroup vt depth) tag p unknown s)"
    using a b by (intro FieldParser_follows assms) auto
  have "unknown_fields depth tag unknown = read_map (\<lambda>u. u) (unknown_fields depth tag unknown)"
    by (rule ext) (simp add: read_map_def option.map_ident case_prod_unfold)
  from proceed_follows [where F = "unknown_fields depth", OF f this a(1)]
  show "turn_follows (unknown_fields depth) (on_view (after_tag (unknown_fields depth) tag unknown) (view_at rest s p)) p s
      (WireFormat_turn vt (ParseGroup vt depth) tag p unknown s)"
    using a(1) by (simp add: WireFormat_turn_def ends_message_def)
qed

lemma ParseGroup_follows:
  "tag AND 7 = 3 \<Longrightarrow> eps_ok ok rest s \<Longrightarrow> ptr_ok s p \<Longrightarrow> last_tag_minus_1 s = 0 \<Longrightarrow> group_depth s + int depth < 0 \<Longrightarrow>
   follows (on_view (group_reader depth tag) (view_at rest s p)) s (ParseGroup vt depth tag p s)"
proof (induction depth arbitrary: tag s p)
  case (Suc depth)
  have "message_fields vt ok rest (WireFormat_turn vt (ParseGroup vt depth)) (unknown_fields depth) depth"
    by (rule unknown_message_step) (rule Suc.IH)
  then show ?case
    using Suc.prems by (intro group_follows) auto
qed (simp add: follows_def group_reader.simps)

lemma unknown_message: "message_fields vt ok rest (WireFormat_turn vt (ParseGroup vt depth)) (unknown_fields depth) depth"
  by (rule unknown_message_step) (rule ParseGroup_follows)

text \<open>An unknown field of any message.\<close>

lemma UnknownFieldParse_follows:
  assumes "eps_ok ok rest s" and "ptr_ok s p" and "p + 12 \<le> buffer_end s + 16" and "\<not> ends_message tag"
    and "last_tag_minus_1 s = 0" and "group_depth s + int depth < 0"
  shows "follows (on_view (unknown_fields depth tag unknown) (view_at rest s p)) s (UnknownFieldParse vt depth tag p unknown s)"
  unfolding UnknownFieldParse_def using assms by (intro FieldParser_follows ParseGroup_follows) auto

end

interpretation array_unknown: message_fields array_class array_ok array_rest
  "WireFormat_turn array_class (ParseGroup array_class depth)" "unknown_fields depth" depth for depth
  by (rule array.unknown_message)

end
