(* ===== verification/Pb_Messages.thy ===== *)
theory Pb_Messages
  imports Pb_Unknown Pb_Utf8
begin

text \<open>
  The messages of the program, \<open>BuffData\<close> and \<open>TEST_MSG\<close>
  (Common/ProtobufSource/Protocol.pb.cc, Protocol.pb.h): their fields, \<open>Clear\<close>, \<open>MergeFrom\<close>,
  \<open>CopyFrom\<close> and \<open>InternalSwap\<close>, and how they are parsed, from \<open>_InternalParse\<close> up to
  \<open>ParseFromArray\<close> and \<open>ParseFromZeroCopyStream\<close> of message_lite.cc.

  A float is kept as its bits. A repeated field hands out cleared objects again; here each element
  starts as a new one, which differs only in cached sizes that are computed anew before they are
  read. Arenas, reflection and the copy-on-write of the empty default string are left out.
\<close>

section \<open>The messages\<close>

record buff_data =
  buffid :: u64
  remaintime :: u32
  victims :: "u64 list"
  victims_cached_byte_size :: int
  buff_cached_size :: int
  buff_unknown :: "unknown_field list"

record test_msg =
  test_id :: u64
  hp :: u32
  attack :: u32
  buffs :: "buff_data list"
  msg :: "u8 list"
  test_cached_size :: int
  test_unknown :: "unknown_field list"

definition BuffData :: buff_data where
  "BuffData = \<lparr>buffid = 0, remaintime = 0, victims = [], victims_cached_byte_size = 0, buff_cached_size = 0, buff_unknown = []\<rparr>"

definition TEST_MSG :: test_msg where
  "TEST_MSG = \<lparr>test_id = 0, hp = 0, attack = 0, buffs = [], msg = [], test_cached_size = 0, test_unknown = []\<rparr>"

definition BuffData_Clear :: "buff_data \<Rightarrow> buff_data" where
  "BuffData_Clear m = m\<lparr>victims := [], buffid := 0, remaintime := 0, buff_unknown := []\<rparr>"

definition TEST_MSG_Clear :: "test_msg \<Rightarrow> test_msg" where
  "TEST_MSG_Clear m = m\<lparr>buffs := [], msg := [], test_id := 0, hp := 0, attack := 0, test_unknown := []\<rparr>"

definition BuffData_MergeFrom :: "buff_data \<Rightarrow> buff_data \<Rightarrow> buff_data" where
  "BuffData_MergeFrom m from_msg =
     (let m = m\<lparr>victims := victims m @ victims from_msg\<rparr>;
          m = (if buffid from_msg \<noteq> 0 then m\<lparr>buffid := buffid from_msg\<rparr> else m);
          m = (if remaintime from_msg \<noteq> 0 then m\<lparr>remaintime := remaintime from_msg\<rparr> else m)
      in m\<lparr>buff_unknown := buff_unknown m @ buff_unknown from_msg\<rparr>)"

definition TEST_MSG_MergeFrom :: "test_msg \<Rightarrow> test_msg \<Rightarrow> test_msg" where
  "TEST_MSG_MergeFrom m from_msg =
     (let m = m\<lparr>buffs := buffs m @ map (BuffData_MergeFrom BuffData) (buffs from_msg)\<rparr>;
          m = (if msg from_msg \<noteq> [] then m\<lparr>msg := msg from_msg\<rparr> else m);
          m = (if test_id from_msg \<noteq> 0 then m\<lparr>test_id := test_id from_msg\<rparr> else m);
          m = (if hp from_msg \<noteq> 0 then m\<lparr>hp := hp from_msg\<rparr> else m);
          m = (if attack from_msg \<noteq> 0 then m\<lparr>attack := attack from_msg\<rparr> else m)
      in m\<lparr>test_unknown := test_unknown m @ test_unknown from_msg\<rparr>)"

text \<open>\<open>same\<close> is the test \<open>&from == this\<close>.\<close>

definition BuffData_CopyFrom :: "bool \<Rightarrow> buff_data \<Rightarrow> buff_data \<Rightarrow> buff_data" where
  "BuffData_CopyFrom same m from_msg = (if same then m else BuffData_MergeFrom (BuffData_Clear m) from_msg)"

definition TEST_MSG_CopyFrom :: "bool \<Rightarrow> test_msg \<Rightarrow> test_msg \<Rightarrow> test_msg" where
  "TEST_MSG_CopyFrom same m from_msg = (if same then m else TEST_MSG_MergeFrom (TEST_MSG_Clear m) from_msg)"

definition BuffData_InternalSwap :: "buff_data \<Rightarrow> buff_data \<Rightarrow> buff_data \<times> buff_data" where
  "BuffData_InternalSwap m other =
     (m\<lparr>buff_unknown := buff_unknown other, victims := victims other, buffid := buffid other, remaintime := remaintime other\<rparr>,
      other\<lparr>buff_unknown := buff_unknown m, victims := victims m, buffid := buffid m, remaintime := remaintime m\<rparr>)"

definition TEST_MSG_InternalSwap :: "test_msg \<Rightarrow> test_msg \<Rightarrow> test_msg \<times> test_msg" where
  "TEST_MSG_InternalSwap m other =
     (m\<lparr>test_unknown := test_unknown other, buffs := buffs other, msg := msg other, test_id := test_id other,
        hp := hp other, attack := attack other\<rparr>,
      other\<lparr>test_unknown := test_unknown m, buffs := buffs m, msg := msg m, test_id := test_id m, hp := hp m, attack := attack m\<rparr>)"

section \<open>Parts of the generated parsers\<close>

definition PackedUInt64Parser ::
  "'s input_class \<Rightarrow> int \<Rightarrow> 's eps_input \<Rightarrow> ((int \<times> u64 list) option \<times> 's eps_input) outcome" where
  "PackedUInt64Parser vt ptr s = ReadPackedVarint vt ptr s"

definition ReadVarint32_field :: "int \<Rightarrow> 's eps_input \<Rightarrow> ((int \<times> u32) option \<times> 's eps_input) outcome" where
  "ReadVarint32_field ptr s =
     and_then (VarintParse32 (mem_from (region s) ptr)) (\<lambda>r. Inr (map_option (\<lambda>(v, n). (ptr + int n, v)) r, s))"

definition ExpectTag :: "nat \<Rightarrow> u8 list \<Rightarrow> int \<Rightarrow> bool outcome" where
  "ExpectTag tag mem ptr =
     (if tag < 128 then and_then (load mem ptr 1) (\<lambda>bytes. Inr (bytes = [of_nat tag]))
      else and_then (load mem ptr 2) (\<lambda>bytes. Inr (bytes = [of_nat tag OR 0x80, of_nat (tag div 128)])))"

text \<open>\<open>address\<close> tells where the bytes of a string lie.\<close>

definition VerifyUTF8 :: "(u8 list \<Rightarrow> nat) \<Rightarrow> u8 list \<Rightarrow> bool outcome" where
  "VerifyUTF8 address str =
     returns (map_option Inr (IsStructurallyValidUTF8 True (address str) str))"

text \<open>The part behind the label \<open>handle_unusual\<close>; \<open>store\<close> puts the unknown fields back into the message.\<close>

definition handle_unusual ::
  "'s input_class \<Rightarrow> nat \<Rightarrow> u32 \<Rightarrow> int \<Rightarrow> 'm \<Rightarrow> unknown_field list \<Rightarrow> (unknown_field list \<Rightarrow> 'm) \<Rightarrow> 's eps_input \<Rightarrow>
   ('m turn \<times> 's eps_input) outcome" where
  "handle_unusual vt depth tag ptr m unknown store s =
     (if tag = 0 \<or> tag AND 7 = 4 then Inr (Message_done ptr m, SetLastTag tag s)
      else proceed store (UnknownFieldParse vt depth tag ptr unknown s))"

definition ReadSizeAndPushLimitAndDepth ::
  "nat \<Rightarrow> int \<Rightarrow> 's eps_input \<Rightarrow> ((int option \<times> int) \<times> 's eps_input) outcome" where
  "ReadSizeAndPushLimitAndDepth depth ptr s =
     and_then (ReadSize (mem_from (region s) ptr)) (\<lambda>r. case r of
         None \<Rightarrow> Inr ((None, 0), s)
       | Some (len, n) \<Rightarrow>
           let ptr = ptr + int n; (old_limit, s) = PushLimit ptr (sint len) s in
           Inr ((if depth = 0 then None else Some ptr, old_limit), s))"

text \<open>\<open>ParseContext::ParseMessage\<close>; \<open>parse\<close> is the \<open>_InternalParse\<close> of a new message at the depth less one.\<close>

definition ParseMessage ::
  "(int \<Rightarrow> 's eps_input \<Rightarrow> ((int \<times> 'm) option \<times> 's eps_input) outcome) \<Rightarrow> nat \<Rightarrow> int \<Rightarrow> 's eps_input \<Rightarrow>
   ((int \<times> 'm) option \<times> 's eps_input) outcome" where
  "ParseMessage parse depth ptr s =
     and_then (ReadSizeAndPushLimitAndDepth depth ptr s) (\<lambda>((p, old), s).
     and_then (case p of None \<Rightarrow> Inr (None, s) | Some p \<Rightarrow> parse p s) (\<lambda>(r, s).
     let (popped, s) = PopLimit old s in Inr (if popped then r else None, s)))"

section \<open>BuffData\<close>

definition BuffData_turn ::
  "'s input_class \<Rightarrow> nat \<Rightarrow> u32 \<Rightarrow> int \<Rightarrow> buff_data \<Rightarrow> 's eps_input \<Rightarrow> (buff_data turn \<times> 's eps_input) outcome" where
  "BuffData_turn vt depth tag ptr m s =
     (let field = drop_bit 3 tag; low = ucast tag :: u8 in
      if field = 1 \<and> low = 8 then proceed (\<lambda>v. m\<lparr>buffid := v\<rparr>) (ReadVarint64_field ptr s)
      else if field = 2 \<and> low = 21 then
        and_then (UnalignedLoad (region s) ptr) (\<lambda>v. Inr (Continue (ptr + 4) (m\<lparr>remaintime := v\<rparr>), s))
      else if field = 3 \<and> low = 26 then proceed (\<lambda>vs. m\<lparr>victims := victims m @ vs\<rparr>) (PackedUInt64Parser vt ptr s)
      else if field = 3 \<and> low = 24 then proceed (\<lambda>v. m\<lparr>victims := victims m @ [v]\<rparr>) (ReadVarint64_field ptr s)
      else handle_unusual vt depth tag ptr m (buff_unknown m) (\<lambda>u. m\<lparr>buff_unknown := u\<rparr>) s)"

definition BuffData_InternalParse ::
  "'s input_class \<Rightarrow> nat \<Rightarrow> buff_data \<Rightarrow> int \<Rightarrow> 's eps_input \<Rightarrow> ((int \<times> buff_data) option \<times> 's eps_input) outcome" where
  "BuffData_InternalParse vt depth m ptr s = returns (parse_loop vt (BuffData_turn vt depth) ptr m s)"

section \<open>TEST_MSG\<close>

text \<open>The \<open>do\<close> loop over messages that follow each other, from the pointer behind a tag.\<close>

partial_function (option) buffs_loop ::
  "'s input_class \<Rightarrow> nat \<Rightarrow> int \<Rightarrow> test_msg \<Rightarrow> 's eps_input \<Rightarrow> (test_msg turn \<times> 's eps_input) outcome option" where
  "buffs_loop vt depth ptr m s =
     (case ParseMessage (BuffData_InternalParse vt (depth - 1) BuffData) depth ptr s of
        Inl e \<Rightarrow> Some (Inl e)
      | Inr (None, s) \<Rightarrow> Some (Inr (Failed, s))
      | Inr (Some (ptr, b), s) \<Rightarrow>
          let m = m\<lparr>buffs := buffs m @ [b]\<rparr> in
          if \<not> DataAvailable ptr s then Some (Inr (Continue ptr m, s))
          else (case ExpectTag 34 (region s) ptr of
                  Inl e \<Rightarrow> Some (Inl e)
                | Inr again \<Rightarrow>
                    if again then buffs_loop vt depth (ptr + 1) m s else Some (Inr (Continue ptr m, s))))"

declare buffs_loop.simps [code]

definition TEST_MSG_turn ::
  "'s input_class \<Rightarrow> (u8 list \<Rightarrow> nat) \<Rightarrow> nat \<Rightarrow> u32 \<Rightarrow> int \<Rightarrow> test_msg \<Rightarrow> 's eps_input \<Rightarrow>
   (test_msg turn \<times> 's eps_input) outcome" where
  "TEST_MSG_turn vt address depth tag ptr m s =
     (let field = drop_bit 3 tag; low = ucast tag :: u8 in
      if field = 1 \<and> low = 8 then proceed (\<lambda>v. m\<lparr>test_id := v\<rparr>) (ReadVarint64_field ptr s)
      else if field = 2 \<and> low = 16 then proceed (\<lambda>v. m\<lparr>hp := v\<rparr>) (ReadVarint32_field ptr s)
      else if field = 3 \<and> low = 24 then proceed (\<lambda>v. m\<lparr>attack := v\<rparr>) (ReadVarint32_field ptr s)
      else if field = 4 \<and> low = 34 then returns (buffs_loop vt depth ptr m s)
      else if field = 5 \<and> low = 42 then
        and_then (InlineGreedyStringParser vt ptr s) (\<lambda>(r, s). case r of
            None \<Rightarrow> Inr (Failed, s)
          | Some (ptr, str) \<Rightarrow> and_then (VerifyUTF8 address str) (\<lambda>valid.
              Inr (if valid then Continue ptr (m\<lparr>msg := str\<rparr>) else Failed, s)))
      else handle_unusual vt depth tag ptr m (test_unknown m) (\<lambda>u. m\<lparr>test_unknown := u\<rparr>) s)"

definition TEST_MSG_InternalParse ::
  "'s input_class \<Rightarrow> (u8 list \<Rightarrow> nat) \<Rightarrow> nat \<Rightarrow> test_msg \<Rightarrow> int \<Rightarrow> 's eps_input \<Rightarrow>
   ((int \<times> test_msg) option \<times> 's eps_input) outcome" where
  "TEST_MSG_InternalParse vt address depth m ptr s = returns (parse_loop vt (TEST_MSG_turn vt address depth) ptr m s)"

section \<open>Parsing a whole message\<close>

text \<open>\<open>MergeFromImpl\<close> from memory and from a source. \<open>parse\<close> is the \<open>_InternalParse\<close> of the message with
  the depth; no message of this program has required fields. \<open>None\<close> is the result \<open>false\<close>.\<close>

definition default_recursion_limit :: nat where "default_recursion_limit = 100"

definition MergeFromImpl ::
  "(nat \<Rightarrow> 'm \<Rightarrow> int \<Rightarrow> array_input eps_input \<Rightarrow> ((int \<times> 'm) option \<times> array_input eps_input) outcome) \<Rightarrow>
   u8 list \<Rightarrow> 'm \<Rightarrow> 'm option outcome" where
  "MergeFromImpl parse flat m =
     (let (ptr, ctx) = InitFrom flat (new_input None) in
      and_then (parse default_recursion_limit m ptr ctx) (\<lambda>(r, ctx). Inr (case r of
          None \<Rightarrow> None
        | Some (ptr, m) \<Rightarrow> if EndedAtLimit ctx then Some m else None)))"

definition MergeFromImpl_stream ::
  "'s input_class \<Rightarrow> (nat \<Rightarrow> 'm \<Rightarrow> int \<Rightarrow> 's eps_input \<Rightarrow> ((int \<times> 'm) option \<times> 's eps_input) outcome) \<Rightarrow>
   's \<Rightarrow> 'm \<Rightarrow> 'm option outcome" where
  "MergeFromImpl_stream vt parse z m =
     and_then (InitFrom_stream vt z (new_input None)) (\<lambda>(ptr, ctx).
     and_then (parse default_recursion_limit m ptr ctx) (\<lambda>(r, ctx). Inr (case r of
         None \<Rightarrow> None
       | Some (ptr, m) \<Rightarrow> if EndedAtEndOfStream ctx then Some m else None)))"

definition TEST_MSG_ParseFromArray :: "(u8 list \<Rightarrow> nat) \<Rightarrow> u8 list \<Rightarrow> test_msg \<Rightarrow> test_msg option outcome" where
  "TEST_MSG_ParseFromArray address data m =
     MergeFromImpl (TEST_MSG_InternalParse array_class address) data (TEST_MSG_Clear m)"

definition TEST_MSG_ParseFromZeroCopyStream ::
  "'s input_class \<Rightarrow> (u8 list \<Rightarrow> nat) \<Rightarrow> 's \<Rightarrow> test_msg \<Rightarrow> test_msg option outcome" where
  "TEST_MSG_ParseFromZeroCopyStream vt address z m =
     MergeFromImpl_stream vt (TEST_MSG_InternalParse vt address) z (TEST_MSG_Clear m)"

definition BuffData_ParseFromArray :: "u8 list \<Rightarrow> buff_data \<Rightarrow> buff_data option outcome" where
  "BuffData_ParseFromArray data m = MergeFromImpl (BuffData_InternalParse array_class) data (BuffData_Clear m)"

definition BuffData_ParseFromZeroCopyStream ::
  "'s input_class \<Rightarrow> 's \<Rightarrow> buff_data \<Rightarrow> buff_data option outcome" where
  "BuffData_ParseFromZeroCopyStream vt z m = MergeFromImpl_stream vt (BuffData_InternalParse vt) z (BuffData_Clear m)"

end
