(* ===== verification/Pb_Message_Parse.thy ===== *)
theory Pb_Message_Parse
  imports Pb_Messages
begin

text \<open>
  What the parsers of the messages compute. \<open>buff_reader\<close> and \<open>test_reader\<close> say what each tag stands
  for, on a list of bytes; \<open>whole\<close> is the message a list of bytes stands for. Every parse, from memory
  or from a source, returns exactly that.
\<close>

section \<open>Reference\<close>

definition whole :: "(u32 \<Rightarrow> 'm \<Rightarrow> 'm reader) \<Rightarrow> 'm \<Rightarrow> u8 list \<Rightarrow> 'm option" where
  "whole F m bs = (case message_loop F m bs of Some ((m', None), _) \<Rightarrow> Some m' | _ \<Rightarrow> None)"

definition read_part :: "(u8 list \<Rightarrow> 'm option) \<Rightarrow> nat \<Rightarrow> 'm reader" where
  "read_part P n bs = (if n \<le> length bs then map_option (\<lambda>m. (m, n)) (P (take n bs)) else None)"

definition read_if :: "('v \<Rightarrow> bool) \<Rightarrow> 'v reader \<Rightarrow> 'v reader" where
  "read_if P R bs = (case R bs of None \<Rightarrow> None | Some (v, n) \<Rightarrow> if P v then Some (v, n) else None)"

definition valid_utf8 :: "u8 list \<Rightarrow> bool" where
  "valid_utf8 str \<longleftrightarrow> span str = length str"

definition buff_reader :: "nat \<Rightarrow> u32 \<Rightarrow> buff_data \<Rightarrow> buff_data reader" where
  "buff_reader depth tag m =
     (if tag = 8 then read_map (\<lambda>v. m\<lparr>buffid := v\<rparr>) read_varint
      else if tag = 21 then read_map (\<lambda>v. m\<lparr>remaintime := little_endian v\<rparr>) (read_bytes 4)
      else if tag = 26 then read_map (\<lambda>vs. m\<lparr>victims := victims m @ vs\<rparr>) (read_then read_size read_numbers)
      else if tag = 24 then read_map (\<lambda>v. m\<lparr>victims := victims m @ [v]\<rparr>) read_varint
      else read_map (\<lambda>u. m\<lparr>buff_unknown := u\<rparr>) (unknown_fields depth tag (buff_unknown m)))"

definition read_buff :: "nat \<Rightarrow> buff_data reader" where
  "read_buff depth =
     (if depth = 0 then (\<lambda>bs. None) else read_then read_size (read_part (whole (buff_reader (depth - 1)) BuffData)))"

definition test_reader :: "nat \<Rightarrow> u32 \<Rightarrow> test_msg \<Rightarrow> test_msg reader" where
  "test_reader depth tag m =
     (if tag = 8 then read_map (\<lambda>v. m\<lparr>test_id := v\<rparr>) read_varint
      else if tag = 16 then read_map (\<lambda>v. m\<lparr>hp := v\<rparr>) read_varint32
      else if tag = 24 then read_map (\<lambda>v. m\<lparr>attack := v\<rparr>) read_varint32
      else if tag = 34 then read_map (\<lambda>b. m\<lparr>buffs := buffs m @ [b]\<rparr>) (read_buff depth)
      else if tag = 42 then read_map (\<lambda>v. m\<lparr>msg := v\<rparr>) (read_if valid_utf8 (read_then read_size read_bytes))
      else read_map (\<lambda>u. m\<lparr>test_unknown := u\<rparr>) (unknown_fields depth tag (test_unknown m)))"

text \<open>What the readers take is there.\<close>

lemma read_numbers_taken: "read_numbers n bs = Some (v, k) \<Longrightarrow> k \<le> length bs"
  by (auto simp: read_numbers_def split: if_splits option.splits)

lemma read_part_taken: "read_part P n bs = Some (v, k) \<Longrightarrow> k \<le> length bs"
  by (auto simp: read_part_def split: if_splits)

lemma read_sized_taken:
  "(\<And>m bs v n. F m bs = Some (v, n) \<Longrightarrow> n \<le> length bs) \<Longrightarrow> read_then read_size F bs = Some (v, n) \<Longrightarrow> n \<le> length bs"
  by (erule read_then_taken) (auto dest: read_size.taken)

lemma buff_reader_taken: "buff_reader depth tag m bs = Some (v, n) \<Longrightarrow> n \<le> length bs"
  unfolding buff_reader_def
  by (auto split: if_splits elim!: read_map_taken intro: unknown_fields_taken read_bytes_taken
      dest: read_varint.taken read_sized_taken [of read_numbers, rotated] intro: read_numbers_taken)

lemma read_string_taken: "read_then read_size read_bytes bs = Some (v, n) \<Longrightarrow> n \<le> length bs"
  by (erule read_sized_taken [rotated]) (rule read_bytes_taken)

lemma read_buff_taken: "read_buff depth bs = Some (v, n) \<Longrightarrow> n \<le> length bs"
  by (auto simp: read_buff_def split: if_splits elim!: read_sized_taken [rotated] intro: read_part_taken)

lemma test_reader_taken: "test_reader depth tag m bs = Some (v, n) \<Longrightarrow> n \<le> length bs"
  unfolding test_reader_def
  by (auto split: if_splits option.splits elim!: read_map_taken intro: unknown_fields_taken read_buff_taken
      dest: read_varint.taken read_varint32.taken simp: read_if_def) (rule read_string_taken)

text \<open>Field number and low byte determine a tag of this program.\<close>

lemma known_tag:
  fixes tag :: u32
  assumes "drop_bit 3 tag = drop_bit 3 t" and "(ucast tag :: u8) = ucast t"
  shows "tag = t"
proof (rule bit_eqI)
  fix n
  show "bit tag n \<longleftrightarrow> bit t n"
  proof (cases "n < 8")
    case True
    then show ?thesis
      using arg_cong [OF assms(2), of "\<lambda>w. bit w n"] by (simp add: bit_ucast_iff)
  next
    case False
    then obtain k where "n = 3 + k"
      using le_Suc_ex [of 3 n] by auto
    then show ?thesis
      using arg_cong [OF assms(1), of "\<lambda>w. bit w k"] by (simp add: bit_drop_bit_eq add.commute)
  qed
qed

lemma known_tags:
  fixes tag :: u32
  shows "drop_bit 3 tag = 1 \<and> (ucast tag :: u8) = 8 \<longleftrightarrow> tag = 8"
    and "drop_bit 3 tag = 2 \<and> (ucast tag :: u8) = 16 \<longleftrightarrow> tag = 16"
    and "drop_bit 3 tag = 2 \<and> (ucast tag :: u8) = 21 \<longleftrightarrow> tag = 21"
    and "drop_bit 3 tag = 3 \<and> (ucast tag :: u8) = 24 \<longleftrightarrow> tag = 24"
    and "drop_bit 3 tag = 3 \<and> (ucast tag :: u8) = 26 \<longleftrightarrow> tag = 26"
    and "drop_bit 3 tag = 4 \<and> (ucast tag :: u8) = 34 \<longleftrightarrow> tag = 34"
    and "drop_bit 3 tag = 5 \<and> (ucast tag :: u8) = 42 \<longleftrightarrow> tag = 42"
  using known_tag [of tag 8] known_tag [of tag 16] known_tag [of tag 21] known_tag [of tag 24] known_tag [of tag 26]
    known_tag [of tag 34] known_tag [of tag 42] by (simp_all, safe; simp)+

section \<open>Parts of the parsers\<close>

context zero_copy_input
begin

lemma ReadPackedVarint_follows:
  assumes "eps_ok ok rest s" and "ptr_ok s p" and "p + 5 \<le> buffer_end s + 16"
  shows "follows (on_view (read_then read_size read_numbers) (view_at rest s p)) s (PackedUInt64Parser vt p s)"
  unfolding PackedUInt64Parser_def ReadPackedVarint_def
proof (rule size_follows [OF assms])
  fix m n
  assume m: "int m \<le> INT_MAX - 16" and p: "ptr_ok s (p + int n)"
  show "follows (on_view (read_numbers m) (view_at rest s (p + int n))) s
      (returns (packed_loop vt (p + int n) (sint (of_nat m :: u32)) [] s))"
    using packed_loop_follows [OF assms(1) p, of m "[]"] by (simp add: on_view_numbers sint_size [OF m])
qed

lemma varint32_follows:
  assumes "eps_ok ok rest s" and "ptr_ok s p" and "p + 10 \<le> buffer_end s + 16"
  shows "follows (on_view read_varint32 (view_at rest s p)) s (ReadVarint32_field p s)"
proof -
  have "10 \<le> length (mem_from (region s) p)"
    using assms(2,3) eps_okD(2) [OF assms(1)] by (simp add: mem_from_def ptr_ok_def)
  then show ?thesis
    using reader_follows [OF read_varint32.prefix_reader_axioms assms(1,2)] assms(3)
    by (simp add: ReadVarint32_field_def VarintParse32_value)
qed

lemma fixed32_follows:
  assumes "eps_ok ok rest s" and "ptr_ok s p" and "p + 4 \<le> buffer_end s + 16"
  shows "\<exists>v. UnalignedLoad (region s) p = Inr (v :: u32) \<and>
    follows (on_view (read_map little_endian (read_bytes 4)) (view_at rest s p)) s (Inr (Some (p + 4, v), s))"
proof -
  obtain bytes where b: "load (region s) p (int 4) = Inr bytes" "length bytes = 4"
      "follows (on_view (read_bytes 4) (view_at rest s p)) s (Inr (Some (p + int 4, bytes), s))"
    using assms(3) by (elim load_follows [OF assms(1,2), of 4, rotated]) simp
  then show ?thesis
    using with_value_follows [OF b(3), of little_endian] by (auto simp: UnalignedLoad_def with_value_def)
qed

lemma handle_unusual_follows:
  assumes "eps_ok ok rest s" and "ptr_ok s p" and "p + 12 \<le> buffer_end s + 16" and "\<not> ends_message tag"
    and "last_tag_minus_1 s = 0" and "group_depth s + int depth < 0"
    and "F tag m = read_map store (unknown_fields depth tag unknown)"
  shows "turn_follows F (on_view (after_tag F tag m) (view_at rest s p)) p s (handle_unusual vt depth tag p m unknown store s)"
  using proceed_follows [where F = F and tag = tag and m = m, OF UnknownFieldParse_follows [OF assms(1-6)] assms(7) assms(4)]
    assms(4) by (simp add: handle_unusual_def ends_message_def)

lemma turn_follows_trans:
  "turn_follows F A q t r \<Longrightarrow> kept s t \<Longrightarrow> view_reach (view_at rest t q) \<le> view_reach (view_at rest s p) \<Longrightarrow> turn_follows F A p s r"
  unfolding turn_follows_def by fastforce

end

section \<open>Messages inside of messages\<close>

context message_fields
begin

text \<open>A message of \<open>n\<close> bytes: the limit is put behind it and taken away again.\<close>

lemma limited_message:
  fixes n :: nat and q :: int and m :: 'm
  assumes "eps_ok ok rest s" and "ptr_ok s q" and "last_tag_minus_1 s = 0" and "group_depth s + int depth < 0"
  defines "pushed \<equiv> PushLimit q (int n) s"
  shows "follows (on_view (read_part (whole F m) n) (view_at rest s q)) s
    (and_then (returns (parse_loop vt turn q m (snd pushed))) (\<lambda>(r, t).
       let (popped, t) = PopLimit (fst pushed) t in Inr (if popped then r else None, t)))"
proof -
  let ?t = "snd pushed" and ?r = "returns (parse_loop vt turn q m (snd pushed))"
    and ?T = "on_view (read_part (whole F m) n) (view_at rest s q)"
  have t: "?t = s\<lparr>limit_end := buffer_end s + min 0 (int n + (q - buffer_end s)), limit := int n + (q - buffer_end s)\<rparr>"
      "fst pushed = BytesUntilLimit q s - int n"
    by (simp_all add: pushed_def PushLimit_def BytesUntilLimit_def Let_def)
  have ok_t: "eps_ok ok rest ?t" "ptr_ok ?t q" "last_tag_minus_1 ?t = 0" "group_depth ?t = group_depth s"
    using assms(1-3) by (simp_all add: t eps_ok_def ptr_ok_def)
  have ahead: "ahead rest ?t = ahead rest s"
    by (simp add: t(1) ahead_def source_rest_def split: chunk_ptr.split)
  have view: "view_at rest ?t q = (if int (length (ahead rest s)) < q then None else Some (drop (nat q) (ahead rest s), n))"
    unfolding view_at_def ahead by (simp add: t(1) BytesUntilLimit_def)
  have target: "on_view (message_loop F m) (view_at rest ?t q) = Some ((m', None), (drop n U, 0)) \<and> n \<le> length U"
    if "?T = Some (m', (X, l))" "view_at rest s q = Some (U, L)" for m' X l U L
  proof -
    have n: "n \<le> length U" "n \<le> L" "whole F m (take n U) = Some m'"
      using that by (auto simp: on_view_def read_part_def min_def split: option.splits if_splits)
    then obtain k where k: "message_loop F m (take n U) = Some ((m', None), k)"
      by (auto simp: whole_def split: option.splits)
    with loop_taken [OF k] n(1) have "k = n"
      by simp
    moreover have "\<not> int (length (ahead rest s)) < q" "U = drop (nat q) (ahead rest s)"
      using that(2) by (auto simp: view_at_def split: if_splits)
    then have "view_at rest ?t q = Some (U, n)"
      by (simp add: view)
    ultimately show ?thesis
      using n k by (simp add: on_view_def)
  qed
  have none: "?T = None" if "\<And>m' U. on_view (message_loop F m) (view_at rest ?t q) \<noteq> Some ((m', None), (U, 0))"
  proof (rule ccontr)
    assume "?T \<noteq> None"
    then obtain m' X l where T: "?T = Some (m', (X, l))"
      by auto
    then obtain U L where "view_at rest s q = Some (U, L)"
      by (auto simp: on_view_def split: option.splits)
    from target [OF T this] that show False
      by blast
  qed
  have "loop_result (on_view (message_loop F m) (view_at rest ?t q)) ?t ?r"
    using assms(4) ok_t by (intro parse_loop_result) simp_all
  then consider u where "?r = Inr (None, u)" "on_view (message_loop F m) (view_at rest ?t q) = None"
    | q' m' u L where "?r = Inr (Some (q', m'), u)" "EndedAtEndOfStream u" "0 < L"
      "on_view (message_loop F m) (view_at rest ?t q) = Some ((m', None), ([], L))"
    | q' m' u U where "?r = Inr (Some (q', m'), u)" "eps_ok ok rest u" "ptr_ok u q'" "kept ?t u" "view_at rest u q' = Some (U, 0)"
      "on_view (message_loop F m) (view_at rest ?t q) = Some ((m', None), (U, 0))"
    | q' m' u e where "?r = Inr (Some (q', m'), u)" "ends_message e" "last_tag_minus_1 u = e - 1"
      "on_view (message_loop F m) (view_at rest ?t q) = map_option (Pair (m', Some e)) (view_at rest u q')"
    unfolding loop_result_def by blast
  then show ?thesis
  proof cases
    case 1
    then have "?T = None"
      using none by simp
    then show ?thesis
      using 1 by (auto simp: follows_def split: prod.split)
  next
    case 2
    then have "?T = None"
      using none by auto
    then show ?thesis
      using 2 by (simp add: follows_def PopLimit_def EndedAtLimit_def EndedAtEndOfStream_def)
  next
    case 3
    let ?u = "u\<lparr>limit := limit u + fst pushed, limit_end := buffer_end u + min 0 (limit u + fst pushed)\<rparr>"
    have ended: "EndedAtLimit u"
      using 3(4) ok_t(3) by (simp add: EndedAtLimit_def)
    have u: "eps_ok ok rest ?u" "ptr_ok ?u q'" "kept s ?u"
      using 3(2-4) ok_t assms(3) by (simp_all add: eps_ok_def ptr_ok_def)
    have e: "BytesUntilLimit q' u = 0" "\<not> int (length (ahead rest u)) < q'" "U = drop (nat q') (ahead rest u)"
      using 3(5) by (auto simp: view_at_def split: if_splits)
    have a: "ahead rest ?u = ahead rest u"
      by (simp add: ahead_def source_rest_def split: chunk_ptr.split)
    have "BytesUntilLimit q' ?u = BytesUntilLimit q s - int n"
      using e(1) by (simp add: BytesUntilLimit_def t(2))
    then have "view_at rest ?u q' =
        (if BytesUntilLimit q s - int n < 0 then None else Some (U, nat (BytesUntilLimit q s - int n)))"
      unfolding view_at_def a using e by simp
    note vu = this [unfolded view_at_limit_end]
    obtain V k where V: "view_at rest ?t q = Some (V, n)" "message_loop F m (take n V) = Some ((m', None), k)" "U = drop k V" "n \<le> k"
      using 3(6) view by (auto simp: on_view_def split: option.splits if_splits)
    with loop_taken [OF V(2)] have k: "k = n" "n \<le> length V"
      by auto
    have T: "?T = map_option (Pair m') (view_at rest ?u q')"
    proof (cases "BytesUntilLimit q s < int n")
      case True
      then have "view_at rest ?u q' = None"
        by (simp add: vu)
      moreover have "?T = None"
        using True by (auto simp: on_view_def view_at_def read_part_def)
      ultimately show ?thesis
        by simp
    next
      case False
      then have "view_at rest s q = Some (V, nat (BytesUntilLimit q s))"
        using V(1) view by (simp add: view_at_def split: if_splits)
      moreover have "n \<le> nat (BytesUntilLimit q s)"
        using False by simp
      ultimately have "?T = Some (m', (drop n V, nat (BytesUntilLimit q s) - n))"
        using k V(2) by (simp add: on_view_def read_part_def whole_def min_def)
      then show ?thesis
        using False vu V(3) k by (simp add: nat_diff_distrib)
    qed
    then show ?thesis
      using 3(1) ended u by (simp add: PopLimit_def Let_def, intro follows_Some) simp_all
  next
    case 4
    have "e \<noteq> 1"
      using 4(2) by (auto simp: ends_message_def)
    then have "\<not> EndedAtLimit u"
      using 4(3) by (simp add: EndedAtLimit_def)
    moreover have "?T = None"
      using 4(4) by (intro none) (cases "view_at rest u q'"; simp)
    ultimately show ?thesis
      using 4(1) by (simp add: follows_def PopLimit_def)
  qed
qed

lemma ParseMessage_follows:
  assumes "eps_ok ok rest s" and "ptr_ok s p" and "p + 5 \<le> buffer_end s + 16" and "last_tag_minus_1 s = 0"
    and "group_depth s + int depth < 0" and "0 < d"
  shows "follows (on_view (read_then read_size (read_part (whole F m))) (view_at rest s p)) s
    (ParseMessage (\<lambda>p s. returns (parse_loop vt turn p m s)) d p s)"
proof -
  let ?f = "\<lambda>len q. and_then (returns (parse_loop vt turn q m (snd (PushLimit q (sint (len :: u32)) s)))) (\<lambda>(r, t).
       let (popped, t) = PopLimit (fst (PushLimit q (sint len) s)) t in Inr (if popped then r else None, t))"
  have "ParseMessage (\<lambda>p s. returns (parse_loop vt turn p m s)) d p s =
      and_then (ReadSize (mem_from (region s) p)) (\<lambda>r. case r of
          None \<Rightarrow> Inr (None, snd (PopLimit 0 s)) | Some (len, n) \<Rightarrow> ?f len (p + int n))"
    using assms(6) by (cases "ReadSize (mem_from (region s) p)")
      (auto simp: ParseMessage_def ReadSizeAndPushLimitAndDepth_def Let_def case_prod_unfold split: option.split)
  also have "follows (on_view (read_then read_size (read_part (whole F m))) (view_at rest s p)) s \<dots>"
    by (rule size_follows [OF assms(1-3)]) (use assms(1,4,5) limited_message in \<open>simp add: sint_size\<close>)
  finally show ?thesis .
qed

end

end
