(* ===== verification/Pb_Message_Exact.thy ===== *)
theory Pb_Message_Exact
  imports Pb_Message_Parse
begin

text \<open>
  The two messages satisfy the contract \<open>message_fields\<close>, so a parse of either, from memory or from any
  source that keeps its contract, returns and is exactly \<open>whole\<close> of its bytes.
\<close>

section \<open>BuffData\<close>

lemma ends_message_known [simp]:
  "\<not> ends_message 8" "\<not> ends_message 16" "\<not> ends_message 21" "\<not> ends_message 24" "\<not> ends_message 26" "\<not> ends_message 34"
  "\<not> ends_message 42"
  by (simp_all add: ends_message_def)

lemma read_map_comp: "read_map f (read_map g R) = read_map (\<lambda>v. f (g v)) R"
  by (rule ext) (simp add: read_map_def option.map_comp comp_def case_prod_unfold)

lemma BuffData_turn_tags:
  "BuffData_turn vt depth tag p m s =
     (if tag = 8 then proceed (\<lambda>v. m\<lparr>buffid := v\<rparr>) (ReadVarint64_field p s)
      else if tag = 21 then and_then (UnalignedLoad (region s) p) (\<lambda>v. Inr (Continue (p + 4) (m\<lparr>remaintime := v\<rparr>), s))
      else if tag = 26 then proceed (\<lambda>vs. m\<lparr>victims := victims m @ vs\<rparr>) (PackedUInt64Parser vt p s)
      else if tag = 24 then proceed (\<lambda>v. m\<lparr>victims := victims m @ [v]\<rparr>) (ReadVarint64_field p s)
      else handle_unusual vt depth tag p m (buff_unknown m) (\<lambda>u. m\<lparr>buff_unknown := u\<rparr>) s)"
  by (simp add: BuffData_turn_def Let_def known_tags)

lemma TEST_MSG_turn_tags:
  "TEST_MSG_turn vt address depth tag p m s =
     (if tag = 8 then proceed (\<lambda>v. m\<lparr>test_id := v\<rparr>) (ReadVarint64_field p s)
      else if tag = 16 then proceed (\<lambda>v. m\<lparr>hp := v\<rparr>) (ReadVarint32_field p s)
      else if tag = 24 then proceed (\<lambda>v. m\<lparr>attack := v\<rparr>) (ReadVarint32_field p s)
      else if tag = 34 then returns (buffs_loop vt depth p m s)
      else if tag = 42 then
        and_then (InlineGreedyStringParser vt p s) (\<lambda>(r, s). case r of
            None \<Rightarrow> Inr (Failed, s)
          | Some (p, str) \<Rightarrow> and_then (VerifyUTF8 address str) (\<lambda>valid.
              Inr (if valid then Continue p (m\<lparr>msg := str\<rparr>) else Failed, s)))
      else handle_unusual vt depth tag p m (test_unknown m) (\<lambda>u. m\<lparr>test_unknown := u\<rparr>) s)"
  by (simp add: TEST_MSG_turn_def Let_def known_tags)

context zero_copy_input
begin

lemma BuffData_turn_follows:
  assumes "\<not> ends_message tag" and "eps_ok ok rest s" and "ptr_ok s p" and "p + 12 \<le> buffer_end s + 16"
    and "last_tag_minus_1 s = 0" and "group_depth s + int depth < 0"
  shows "turn_follows (buff_reader depth) (on_view (after_tag (buff_reader depth) tag m) (view_at rest s p)) p s
    (BuffData_turn vt depth tag p m s)"
proof -
  let ?F = "buff_reader depth"
  have room: "p + 10 \<le> buffer_end s + 16" "p + 5 \<le> buffer_end s + 16" "p + 4 \<le> buffer_end s + 16"
    using assms(4) by auto
  consider "tag = 8" | "tag = 21" | "tag = 26" | "tag = 24" | "tag \<notin> {8, 21, 26, 24}"
    by blast
  then show ?thesis
  proof cases
    case 1
    then show ?thesis
      using proceed_follows [where F = ?F and tag = tag and m = m, OF varint64_follows [OF assms(2,3) room(1)] _ assms(1)]
      by (simp add: BuffData_turn_tags buff_reader_def)
  next
    case 2
    obtain v where v: "UnalignedLoad (region s) p = Inr (v :: u32)"
        "follows (on_view (read_map little_endian (read_bytes 4)) (view_at rest s p)) s (Inr (Some (p + 4, v), s))"
      using fixed32_follows [OF assms(2,3) room(3)] by blast
    have "?F tag m = read_map (\<lambda>v. m\<lparr>remaintime := v\<rparr>) (read_map little_endian (read_bytes 4))"
      using 2 by (simp add: buff_reader_def read_map_comp)
    from proceed_follows [where F = ?F and tag = tag and m = m, OF v(2) this assms(1)] show ?thesis
      using 2 v(1) by (simp add: BuffData_turn_tags proceed_def)
  next
    case 3
    then show ?thesis
      using proceed_follows [where F = ?F and tag = tag and m = m, OF ReadPackedVarint_follows [OF assms(2,3) room(2)] _ assms(1)]
      by (simp add: BuffData_turn_tags buff_reader_def)
  next
    case 4
    then show ?thesis
      using proceed_follows [where F = ?F and tag = tag and m = m, OF varint64_follows [OF assms(2,3) room(1)] _ assms(1)]
      by (simp add: BuffData_turn_tags buff_reader_def)
  next
    case 5
    then show ?thesis
      using handle_unusual_follows [where F = ?F, OF assms(2,3,4,1,5,6)] by (simp add: BuffData_turn_tags buff_reader_def)
  qed
qed

lemma buff_message: "message_fields vt ok rest (BuffData_turn vt depth) (buff_reader depth) depth"
proof
  fix tag p s m bs m' n
  show "ends_message tag \<Longrightarrow> BuffData_turn vt depth tag p m s = Inr (Message_done p m, SetLastTag tag s)"
    by (auto simp: BuffData_turn_tags handle_unusual_def) (auto simp: ends_message_def)
qed (rule BuffData_turn_follows buff_reader_taken; assumption)+

section \<open>TEST_MSG\<close>

lemma read_buff_follows:
  assumes "eps_ok ok rest s" and "ptr_ok s p" and "p + 5 \<le> buffer_end s + 16" and "last_tag_minus_1 s = 0"
    and "group_depth s + int depth < 0"
  shows "follows (on_view (read_buff depth) (view_at rest s p)) s
    (ParseMessage (BuffData_InternalParse vt (depth - 1) BuffData) depth p s)"
proof (cases "depth = 0")
  case False
  then have "group_depth s + int (depth - 1) < 0"
    using assms(5) by simp
  from message_fields.ParseMessage_follows [OF buff_message assms(1-4) this, of depth BuffData] False show ?thesis
    by (simp add: read_buff_def BuffData_InternalParse_def [abs_def])
next
  case True
  have "5 \<le> length (mem_from (region s) p)"
    using assms(2,3) eps_okD(2) [OF assms(1)] by (simp add: mem_from_def ptr_ok_def)
  then have "\<exists>t. ParseMessage (BuffData_InternalParse vt (depth - 1) BuffData) depth p s = Inr (None, t)"
    using True by (simp add: ParseMessage_def ReadSizeAndPushLimitAndDepth_def ReadSize_value Let_def case_prod_unfold split: option.split)
  then show ?thesis
    using True by (auto simp: follows_def read_buff_def)
qed

lemma buffs_loop_follows:
  assumes "eps_ok ok rest s" and "ptr_ok s p" and "p + 12 \<le> buffer_end s + 16" and "last_tag_minus_1 s = 0"
    and "group_depth s + int depth < 0"
  shows "turn_follows (test_reader depth) (on_view (after_tag (test_reader depth) 34 m) (view_at rest s p)) p s
    (returns (buffs_loop vt depth p m s))"
  using assms
proof (induction "view_reach (view_at rest s p)" arbitrary: s p m rule: less_induct)
  case less
  let ?F = "test_reader depth"
  have A: "on_view (after_tag ?F 34 m) (view_at rest s p) =
      (case on_view (read_buff depth) (view_at rest s p) of None \<Rightarrow> None
       | Some (b, W) \<Rightarrow> on_view (message_loop ?F (m\<lparr>buffs := buffs m @ [b]\<rparr>)) (Some W))"
    by (simp add: after_tag_def on_view_then test_reader_def on_view_map split: option.split)
  have "p + 5 \<le> buffer_end s + 16"
    using less.prems(3) by simp
  from read_buff_follows [OF less.prems(1,2) this less.prems(4,5)]
  consider t where "ParseMessage (BuffData_InternalParse vt (depth - 1) BuffData) depth p s = Inr (None, t)"
      "on_view (read_buff depth) (view_at rest s p) = None"
    | q b t where "ParseMessage (BuffData_InternalParse vt (depth - 1) BuffData) depth p s = Inr (Some (q, b), t)"
      "eps_ok ok rest t" "ptr_ok t q" "kept s t" "on_view (read_buff depth) (view_at rest s p) = map_option (Pair b) (view_at rest t q)"
    unfolding follows_def by blast
  then show ?case
  proof cases
    case 1
    then show ?thesis
      by (subst buffs_loop.simps) (simp add: A turn_follows_def)
  next
    case 2
    let ?m = "m\<lparr>buffs := buffs m @ [b]\<rparr>"
    have A': "on_view (after_tag ?F 34 m) (view_at rest s p) = on_view (message_loop ?F ?m) (view_at rest t q)"
      using 2(5) by (cases "view_at rest t q") (auto simp: A)
    have smaller: "view_reach (view_at rest t q) \<le> view_reach (view_at rest s p)"
      using 2(5) on_view_reach [of "read_buff depth" "view_at rest s p" b] by (cases "view_at rest t q") (auto simp: view_reach_def)
    have go_on: "turn_follows ?F (on_view (after_tag ?F 34 m) (view_at rest s p)) p s (Inr (Continue q ?m, t))"
      using 2 A' smaller by (simp add: turn_follows_def)
    show ?thesis
    proof (cases "DataAvailable q t")
      case False
      then show ?thesis
        using 2(1) go_on by (subst buffs_loop.simps) (simp add: Let_def)
    next
      case True
      then have q: "q < limit_end t" "limit_end t \<le> buffer_end t" "0 \<le> q"
        using eps_okD(3) [OF 2(2)] 2(3) by (auto simp: DataAvailable_def ptr_ok_def)
      obtain bytes where b: "load (region t) q (int 1) = Inr bytes" "length bytes = 1"
          "string_view 1 (view_at rest t q) = map_option (Pair bytes) (view_at rest t (q + int 1))"
        using load_view [OF eps_okD(6) [OF 2(2)] 2(3), of 1] q by auto
      show ?thesis
      proof (cases "bytes = [34]")
        case False
        then show ?thesis
          using 2(1) b(1) True go_on by (subst buffs_loop.simps) (simp add: Let_def ExpectTag_def)
      next
        case more: True
        have UL: "int (length (ahead rest t)) \<ge> buffer_end t" "0 < BytesUntilLimit q t"
          using ahead_length(1) [OF eps_okD(6) [OF 2(2)]] eps_okD(4) [OF 2(2)] q by (auto simp: BytesUntilLimit_def)
        then obtain U L where V: "view_at rest t q = Some (U, L)" "U \<noteq> []" "0 < L"
          using q by (auto simp: view_at_def)
        then obtain U' where U: "U = 34 # U'"
          using b(3) more by (cases U; cases "view_at rest t (q + 1)") (auto simp: string_view_def)
        have t: "on_view read_tag (view_at rest t q) = map_option (Pair 34) (view_at rest t (q + 1))"
        proof -
          have "read_tag (take L U) = Some (34, 1)"
            using U V(3) by (cases L) (simp_all add: read_tag_def varint_len_at)
          then show ?thesis
            using V U b(3) by (cases "view_at rest t (q + 1)") (simp_all add: on_view_def string_view_def split: if_splits)
        qed
        have "on_view (message_loop ?F ?m) (view_at rest t q) = on_view (after_tag ?F 34 ?m) (view_at rest t (q + 1))"
          using V t by (cases "view_at rest t (q + 1)") (simp_all add: on_view_loop on_view_then)
        moreover have less': "view_reach (view_at rest t (q + 1)) < view_reach (view_at rest t q)"
          using view_at_advance [OF q(3), of rest t 1] V U by (auto simp: shift_def view_reach_def)
        moreover have "turn_follows ?F (on_view (after_tag ?F 34 ?m) (view_at rest t (q + 1))) (q + 1) t
            (returns (buffs_loop vt depth (q + 1) ?m t))"
          using less' smaller q 2(2-4) less.prems(4,5) by (intro less.hyps) (auto simp: ptr_ok_def)
        ultimately have "turn_follows ?F (on_view (after_tag ?F 34 m) (view_at rest s p)) p s
            (returns (buffs_loop vt depth (q + 1) ?m t))"
          using A' smaller 2(4) turn_follows_trans by fastforce
        then show ?thesis
          using 2(1) b(1) True more by (subst buffs_loop.simps) (simp add: Let_def ExpectTag_def)
      qed
    qed
  qed
qed

lemma VerifyUTF8_value: "VerifyUTF8 address str = Inr (valid_utf8 str)"
  by (simp add: VerifyUTF8_def IsStructurallyValidUTF8_span valid_utf8_def)

lemma text_follows:
  assumes "eps_ok ok rest s" and "ptr_ok s p" and "p + 5 \<le> buffer_end s + 16"
  shows "follows (on_view (read_if valid_utf8 (read_then read_size read_bytes)) (view_at rest s p)) s
    (and_then (InlineGreedyStringParser vt p s) (\<lambda>(r, t). case r of
        None \<Rightarrow> Inr (None, t)
      | Some (q, str) \<Rightarrow> and_then (VerifyUTF8 address str) (\<lambda>valid. Inr (if valid then Some (q, str) else None, t))))"
proof -
  have v: "on_view (read_if P R) V = (case on_view R V of None \<Rightarrow> None | Some (v, W) \<Rightarrow> if P v then Some (v, W) else None)"
    for P and R :: "u8 list reader" and V
    by (cases V) (auto simp: on_view_def read_if_def split: option.splits)
  from string_follows [OF assms] consider t where "InlineGreedyStringParser vt p s = Inr (None, t)"
      "on_view (read_then read_size read_bytes) (view_at rest s p) = None"
    | q str t where "InlineGreedyStringParser vt p s = Inr (Some (q, str), t)" "eps_ok ok rest t" "ptr_ok t q" "kept s t"
      "on_view (read_then read_size read_bytes) (view_at rest s p) = map_option (Pair str) (view_at rest t q)"
    unfolding follows_def by blast
  then show ?thesis
  proof cases
    case 2
    then show ?thesis
      by (cases "view_at rest t q") (auto simp: follows_def v VerifyUTF8_value)
  qed (simp add: follows_def v)
qed

lemma TEST_MSG_turn_follows:
  assumes "\<not> ends_message tag" and "eps_ok ok rest s" and "ptr_ok s p" and "p + 12 \<le> buffer_end s + 16"
    and "last_tag_minus_1 s = 0" and "group_depth s + int depth < 0"
  shows "turn_follows (test_reader depth) (on_view (after_tag (test_reader depth) tag m) (view_at rest s p)) p s
    (TEST_MSG_turn vt address depth tag p m s)"
proof -
  let ?F = "test_reader depth"
  have room: "p + 10 \<le> buffer_end s + 16" "p + 5 \<le> buffer_end s + 16"
    using assms(4) by auto
  consider "tag = 8" | "tag = 16" | "tag = 24" | "tag = 34" | "tag = 42" | "tag \<notin> {8, 16, 24, 34, 42}"
    by blast
  then show ?thesis
  proof cases
    case 1
    then show ?thesis
      using proceed_follows [where F = ?F and tag = tag and m = m, OF varint64_follows [OF assms(2,3) room(1)] _ assms(1)]
      by (simp add: TEST_MSG_turn_tags test_reader_def)
  next
    case 2
    then show ?thesis
      using proceed_follows [where F = ?F and tag = tag and m = m, OF varint32_follows [OF assms(2,3) room(1)] _ assms(1)]
      by (simp add: TEST_MSG_turn_tags test_reader_def)
  next
    case 3
    then show ?thesis
      using proceed_follows [where F = ?F and tag = tag and m = m, OF varint32_follows [OF assms(2,3) room(1)] _ assms(1)]
      by (simp add: TEST_MSG_turn_tags test_reader_def)
  next
    case 4
    then show ?thesis
      using buffs_loop_follows [OF assms(2-6)] by (simp add: TEST_MSG_turn_tags)
  next
    case 5
    have "?F tag m = read_map (\<lambda>v. m\<lparr>msg := v\<rparr>) (read_if valid_utf8 (read_then read_size read_bytes))"
      using 5 by (simp add: test_reader_def)
    from proceed_follows [where F = ?F and tag = tag and m = m, OF text_follows [OF assms(2,3) room(2), of address] this assms(1)]
    show ?thesis
      using 5 by (cases "InlineGreedyStringParser vt p s")
        (auto simp: TEST_MSG_turn_tags proceed_def VerifyUTF8_value split: option.splits)
  next
    case 6
    then show ?thesis
      using handle_unusual_follows [where F = ?F, OF assms(2,3,4,1,5,6)] by (simp add: TEST_MSG_turn_tags test_reader_def)
  qed
qed

lemma test_message: "message_fields vt ok rest (TEST_MSG_turn vt address depth) (test_reader depth) depth"
proof
  fix tag p s m bs m' n
  show "ends_message tag \<Longrightarrow> TEST_MSG_turn vt address depth tag p m s = Inr (Message_done p m, SetLastTag tag s)"
    by (auto simp: TEST_MSG_turn_tags handle_unusual_def) (auto simp: ends_message_def)
qed (rule TEST_MSG_turn_follows test_reader_taken; assumption)+

section \<open>Whole messages from a source\<close>

lemma InitFrom_stream_view:
  assumes "ok z" and "int (length (rest z)) < INT_MAX - 16"
  shows "\<exists>p s L. InitFrom_stream vt z (new_input None) = Inr (p, s) \<and> eps_ok ok rest s \<and> ptr_ok s p \<and>
    last_tag_minus_1 s = 0 \<and> group_depth s = - 2147483648 \<and> view_at rest s p = Some (rest z, L) \<and> length (rest z) < L"
proof (cases "rest z = []")
  case True
  then obtain z' where "Next_of vt z = Inr (None, z')"
    using next_end [OF assms(1)] by blast
  then show ?thesis
    using True by (simp add: InitFrom_stream_def new_input_def eps_ok_def eps_core_def ptr_ok_def view_at_def ahead_def
        BytesUntilLimit_def INT_MAX_def Let_def)
next
  case False
  then obtain data z' where d: "Next_of vt z = Inr (Some data, z')" "data \<noteq> []" "ok z'" "rest z = data @ rest z'"
    using next_block [OF assms(1)] by blast
  show ?thesis
  proof (cases "16 < length data")
    case True
    then show ?thesis
      using d assms(2) by (simp add: InitFrom_stream_def new_input_def eps_ok_def eps_core_def source_ok_def ptr_ok_def
          view_at_def ahead_def source_rest_def BytesUntilLimit_def INT_MAX_def kSlopBytes_def Let_def min_def)
  next
    case small: False
    let ?p = "32 - int (length data)"
    have p: "nat ?p = 32 - length data"
      using small by simp
    have patch: "overwrite (replicate 32 0) (32 - length data) data = replicate (32 - length data) 0 @ data"
      using small by (simp add: overwrite_def min_def)
    show ?thesis
      using small d assms(2) by (simp add: InitFrom_stream_def new_input_def eps_ok_def eps_core_def source_ok_def ptr_ok_def
          view_at_def ahead_def source_rest_def BytesUntilLimit_def INT_MAX_def kSlopBytes_def Let_def p patch)
  qed
qed

end

context message_fields
begin

lemma parse_stream:
  assumes "ok z" and "int (length (rest z)) < INT_MAX - 16" and "depth = default_recursion_limit"
    and "\<And>m p s. parse default_recursion_limit m p s = returns (parse_loop vt turn p m s)"
  shows "MergeFromImpl_stream vt parse z m = Inr (whole F m (rest z))"
proof -
  obtain p s L where i: "InitFrom_stream vt z (new_input None) = Inr (p, s)" "eps_ok ok rest s" "ptr_ok s p"
      "last_tag_minus_1 s = 0" "group_depth s = - 2147483648" "view_at rest s p = Some (rest z, L)" "length (rest z) < L"
    using InitFrom_stream_view [OF assms(1,2)] by blast
  let ?r = "returns (parse_loop vt turn p m s)" and ?A = "on_view (message_loop F m) (view_at rest s p)"
  have A: "?A = (case message_loop F m (rest z) of None \<Rightarrow> None | Some (v, n) \<Rightarrow> Some (v, (drop n (rest z), L - n)))"
    using i(6,7) by (simp add: on_view_def)
  have "loop_result ?A s ?r"
    using i(5) assms(3) by (intro parse_loop_result i(2-4)) (simp add: default_recursion_limit_def)
  then consider u where "?r = Inr (None, u)" "?A = None"
    | q m' u l where "?r = Inr (Some (q, m'), u)" "EndedAtEndOfStream u" "?A = Some ((m', None), ([], l))"
    | q m' u U where "?r = Inr (Some (q, m'), u)" "?A = Some ((m', None), (U, 0))"
    | q m' u e where "?r = Inr (Some (q, m'), u)" "ends_message e" "last_tag_minus_1 u = e - 1"
      "?A = map_option (Pair (m', Some e)) (view_at rest u q)"
    unfolding loop_result_def by blast
  then show ?thesis
  proof cases
    case 1
    then show ?thesis
      using i(1) by (auto simp: MergeFromImpl_stream_def assms(4) whole_def A split: option.splits)
  next
    case 2
    then show ?thesis
      using i(1) by (auto simp: MergeFromImpl_stream_def assms(4) whole_def A split: option.splits)
  next
    case 3
    then obtain n where "message_loop F m (rest z) = Some ((m', None), n)" "L \<le> n"
      by (auto simp: A split: option.splits)
    then show ?thesis
      using loop_taken i(7) by fastforce
  next
    case 4
    have "e \<noteq> 2"
      using 4(2) by (auto simp: ends_message_def)
    then have "\<not> EndedAtEndOfStream u"
      using 4(3) by (auto simp: EndedAtEndOfStream_def algebra_simps)
    moreover have "whole F m (rest z) = None"
      using 4(4) by (cases "view_at rest u q") (auto simp: A whole_def split: option.splits)
    ultimately show ?thesis
      using i(1) 4(1) by (simp add: MergeFromImpl_stream_def assms(4))
  qed
qed

end

section \<open>Whole messages from memory\<close>

lemma InitFrom_view:
  "\<exists>p s. InitFrom flat (new_input None :: 's eps_input) = (p, s) \<and> eps_ok ok rest s \<and> ptr_ok s p \<and> last_tag_minus_1 s = 0 \<and>
    group_depth s = - 2147483648 \<and> view_at rest s p = Some (flat, length flat)"
proof (cases "16 < length flat")
  case True
  then show ?thesis
    by (simp add: InitFrom_def new_input_def eps_ok_def eps_core_def source_ok_def ptr_ok_def view_at_def ahead_def
        source_rest_def BytesUntilLimit_def kSlopBytes_def Let_def)
next
  case False
  then have "take (length flat) (overwrite (replicate 32 0) 0 flat) = flat"
    by (simp add: overwrite_def)
  then show ?thesis
    using False by (simp add: InitFrom_def new_input_def eps_ok_def eps_core_def ptr_ok_def view_at_def ahead_def
        BytesUntilLimit_def kSlopBytes_def Let_def)
qed

lemma parse_array:
  assumes "message_fields array_class array_ok array_rest turn F default_recursion_limit"
    and "\<And>m p s. parse default_recursion_limit m p s = returns (parse_loop array_class turn p m s)"
  shows "MergeFromImpl parse flat m = Inr (whole F m flat)"
proof -
  let ?vt = array_class and ?ok = array_ok and ?rest = array_rest
  obtain p s where i: "InitFrom flat (new_input None) = (p, s)" "eps_ok ?ok ?rest s" "ptr_ok s p"
      "last_tag_minus_1 s = 0" "group_depth s = - 2147483648" "view_at ?rest s p = Some (flat, length flat)"
    using InitFrom_view by blast
  let ?r = "returns (parse_loop ?vt turn p m s)" and ?A = "on_view (message_loop F m) (view_at ?rest s p)"
  have A: "?A = (case message_loop F m flat of None \<Rightarrow> None | Some (v, n) \<Rightarrow> Some (v, (drop n flat, length flat - n)))"
    using i(6) by (simp add: on_view_def)
  have "array.loop_result ?A s ?r"
    using i(5) by (intro message_fields.parse_loop_result [OF assms(1) i(2-4)]) (simp add: default_recursion_limit_def)
  then consider u where "?r = Inr (None, u)" "?A = None"
    | q m' u l where "?r = Inr (Some (q, m'), u)" "0 < l" "?A = Some ((m', None), ([], l))"
    | q m' u U where "?r = Inr (Some (q, m'), u)" "kept s u" "?A = Some ((m', None), (U, 0))"
    | q m' u e where "?r = Inr (Some (q, m'), u)" "ends_message e" "last_tag_minus_1 u = e - 1"
      "?A = map_option (Pair (m', Some e)) (view_at ?rest u q)"
    unfolding array.loop_result_def by blast
  then show ?thesis
  proof cases
    case 1
    then show ?thesis
      using i(1) by (auto simp: MergeFromImpl_def assms(2) whole_def A split: option.splits)
  next
    case 2
    then show ?thesis
      by (auto simp: A split: option.splits)
  next
    case 3
    then have "EndedAtLimit u"
      using i(4) by (simp add: EndedAtLimit_def)
    then show ?thesis
      using i(1) 3 by (auto simp: MergeFromImpl_def assms(2) whole_def A split: option.splits)
  next
    case 4
    have "e \<noteq> 1"
      using 4(2) by (auto simp: ends_message_def)
    then have "\<not> EndedAtLimit u"
      using 4(3) by (simp add: EndedAtLimit_def)
    moreover have "whole F m flat = None"
      using 4(4) by (cases "view_at ?rest u q") (auto simp: A whole_def split: option.splits)
    ultimately show ?thesis
      using i(1) 4(1) by (simp add: MergeFromImpl_def assms(2))
  qed
qed

lemma TEST_MSG_ParseFromArray_whole:
  "TEST_MSG_ParseFromArray address data m = Inr (whole (test_reader default_recursion_limit) (TEST_MSG_Clear m) data)"
  unfolding TEST_MSG_ParseFromArray_def
  by (rule parse_array [OF array.test_message [of address default_recursion_limit]]) (simp add: TEST_MSG_InternalParse_def)

lemma BuffData_ParseFromArray_whole:
  "BuffData_ParseFromArray data m = Inr (whole (buff_reader default_recursion_limit) (BuffData_Clear m) data)"
  unfolding BuffData_ParseFromArray_def
  by (rule parse_array [OF array.buff_message [of default_recursion_limit]]) (simp add: BuffData_InternalParse_def)

text \<open>C4. Parsing a TEST_MSG from memory returns for every input, without undefined behaviour: the result
  is the message the bytes stand for, or failure when they stand for none.\<close>

theorem TEST_MSG_parse_exact:
  "TEST_MSG_ParseFromArray address data m = Inr (whole (test_reader default_recursion_limit) (TEST_MSG_Clear m) data)"
  by (rule TEST_MSG_ParseFromArray_whole)

context zero_copy_input
begin

lemma TEST_MSG_stream:
  assumes "ok z" and "int (length (rest z)) < INT_MAX - 16"
  shows "TEST_MSG_ParseFromZeroCopyStream vt address z m = Inr (whole (test_reader default_recursion_limit) (TEST_MSG_Clear m) (rest z))"
  unfolding TEST_MSG_ParseFromZeroCopyStream_def
  by (rule message_fields.parse_stream [OF test_message [of address default_recursion_limit] assms refl])
    (simp add: TEST_MSG_InternalParse_def)

end

end
