(* ===== verification/Pb_Message_Props.thy ===== *)
theory Pb_Message_Props
  imports Pb_Message_Exact
begin

text \<open>
  What the exact result says about the program's messages: the blocks of a source do not matter, every
  string that comes out is valid UTF-8, and groups may be nested as deep as the recursion limit.
\<close>

section \<open>The source does not matter\<close>

lemma ArrayInputStream_ok:
  "array_ok (ArrayInputStream data (int (length data)) block_size)"
  "array_rest (ArrayInputStream data (int (length data)) block_size) = data"
  by (simp_all add: array_ok_def array_rest_def ArrayInputStream_def)

text \<open>C5. A message is parsed from a stream, cut into blocks of any size, to exactly what it is parsed to
  from one array, failures included.\<close>

theorem TEST_MSG_blocks_do_not_matter:
  assumes "int (length data) < INT_MAX - 16"
  shows "TEST_MSG_ParseFromZeroCopyStream array_class address (ArrayInputStream data (int (length data)) block_size) m =
    TEST_MSG_ParseFromArray address' data m"
proof -
  have "TEST_MSG_ParseFromArray address' data m = Inr (whole (test_reader default_recursion_limit) (TEST_MSG_Clear m) data)"
    by (simp add: TEST_MSG_ParseFromArray_whole)
  then show ?thesis
    using array.TEST_MSG_stream [OF ArrayInputStream_ok(1), of data block_size address m] assms by (simp add: ArrayInputStream_ok(2))
qed

theorem TEST_MSG_blocks_do_not_matter_witness:
  "TEST_MSG_ParseFromZeroCopyStream array_class (\<lambda>s. 0) (ArrayInputStream [8, 150, 1, 42, 1, 65] 6 1) TEST_MSG =
    TEST_MSG_ParseFromArray (\<lambda>s. 0) [8, 150, 1, 42, 1, 65] TEST_MSG"
  using TEST_MSG_blocks_do_not_matter [of "[8, 150, 1, 42, 1, 65]" "\<lambda>s. 0" 1 TEST_MSG "\<lambda>s. 0"] by (simp add: INT_MAX_def)

section \<open>Strings\<close>

lemma message_loop_invariant:
  assumes "\<And>tag m bs m' n. P m \<Longrightarrow> F tag m bs = Some (m', n) \<Longrightarrow> P m'"
    and "message_loop F m bs = Some ((m', e), n)" and "P m"
  shows "P m'"
  using assms(2,3)
proof (induction "length bs" arbitrary: m bs n rule: less_induct)
  case less
  show ?case
  proof (cases "bs = []")
    case False
    then obtain tag k where t: "read_tag bs = Some (tag, k)"
      using less.prems by (auto simp: message_loop.simps [of F m bs] split: option.splits)
    then have k: "0 < k" "k \<le> length bs"
      using read_tag.taken by blast+
    show ?thesis
    proof (cases "ends_message tag")
      case True
      then show ?thesis
        using less.prems False t by (simp add: message_loop.simps [of F m bs])
    next
      case go_on: False
      then obtain m1 j l where f: "F tag m (drop k bs) = Some (m1, j)" "message_loop F m1 (drop (k + j) bs) = Some ((m', e), l)"
        using less.prems False t by (auto simp: message_loop.simps [of F m bs] split: option.splits)
      show ?thesis
        by (rule less.hyps [OF _ f(2) assms(1) [OF less.prems(2) f(1)]]) (use k False in simp)
    qed
  qed (use less.prems in simp)
qed

lemma test_reader_valid:
  "valid_utf8 (msg m) \<Longrightarrow> test_reader depth tag m bs = Some (m', n) \<Longrightarrow> valid_utf8 (msg m')"
  by (auto simp: test_reader_def read_map_def read_if_def split: if_splits option.splits)

text \<open>A message that is parsed has a valid string: \<open>msg\<close> is a sequence of encoded Unicode scalar values.\<close>

theorem TEST_MSG_parsed_string_valid:
  assumes "TEST_MSG_ParseFromArray address data m = Inr (Some m')"
  shows "\<exists>cps. list_all scalar cps \<and> msg m' = concat (map EncodeAsUTF8Char cps)"
proof -
  obtain n where n: "message_loop (test_reader default_recursion_limit) (TEST_MSG_Clear m) data = Some ((m', None), n)"
    using assms by (auto simp: TEST_MSG_ParseFromArray_whole whole_def split: option.splits)
  have "valid_utf8 (msg m')"
    by (rule message_loop_invariant [where P = "\<lambda>m. valid_utf8 (msg m)", OF _ n])
      (auto simp: valid_utf8_def TEST_MSG_Clear_def dest: test_reader_valid [unfolded valid_utf8_def])
  then show ?thesis
    by (simp add: valid_utf8_def span_exact)
qed

theorem TEST_MSG_parsed_string_valid_witness:
  "\<exists>cps. list_all scalar cps \<and> [65] = concat (map EncodeAsUTF8Char cps)"
proof -
  have "TEST_MSG_ParseFromArray (\<lambda>s. 0) [42, 1, 65] TEST_MSG = Inr (Some (TEST_MSG\<lparr>msg := [65]\<rparr>))"
    by code_simp
  from TEST_MSG_parsed_string_valid [OF this] show ?thesis
    by simp
qed

section \<open>Depth\<close>

lemma read_tag_small: "unat b < 128 \<Longrightarrow> read_tag (b # bs) = Some (ucast b, 1)"
  by (simp add: read_tag_def varint_len_at unsigned_ucast_eq)

fun nest :: "nat \<Rightarrow> unknown_field list" where
  "nest 0 = []"
| "nest (Suc n) = [TYPE_GROUP 6 (nest n)]"

lemma nested_loop:
  "message_loop (unknown_fields depth) [] (replicate n 0x33 @ replicate n 0x34 @ 0x34 # bs) =
    (if n \<le> depth then Some ((nest n, Some 0x34), 2 * n + 1) else None)"
proof (induction n arbitrary: depth bs)
  case 0
  then show ?case
    by (simp add: message_loop.simps read_tag_small ends_message_def)
next
  case (Suc n)
  have e: "replicate (Suc n) (0x34 :: u8) @ 0x34 # bs = replicate n 0x34 @ 0x34 # 0x34 # bs"
    by (simp add: replicate_app_Cons_same)
  have d: "drop (Suc (2 * n + 1)) (0x33 # replicate n (0x33 :: u8) @ replicate n 0x34 @ 0x34 # 0x34 # bs) = 0x34 # bs"
    by simp
  have u: "unknown_reader r 0x33 [] = read_map (\<lambda>v. AddGroup 6 v []) (r 0x33)" for r
    by (simp add: unknown_reader_def Let_def)
  have g: "group_reader depth 0x33 (replicate n 0x33 @ replicate n 0x34 @ 0x34 # 0x34 # bs) =
      (if Suc n \<le> depth then Some (nest n, 2 * n + 1) else None)"
    using Suc.IH by (cases depth) (auto simp: group_reader.simps)
  have f: "message_loop (unknown_fields depth) [TYPE_GROUP 6 (nest n)] (0x34 # bs) = Some (([TYPE_GROUP 6 (nest n)], Some 0x34), 1)"
    by (simp add: message_loop.simps read_tag_small ends_message_def)
  show ?case
    unfolding e using d f
    by (simp add: message_loop.simps [of _ _ "0x33 # _"] read_tag_small ends_message_def u read_map_def g AddGroup_def)
qed


end
