(* ===== verification/Pb_Output.thy ===== *)
theory Pb_Output
  imports Pb_Stream
begin

text \<open>
  Byte sinks of the protobuf library (Headers/google/protobuf/io/zero_copy_stream.h,
  io/zero_copy_stream_impl_lite.cc). The abstract class \<open>ZeroCopyOutputStream\<close> is the record of its
  virtual functions; its contract is the locale \<open>zero_copy_output\<close>, in which the bytes the sink holds
  are the abstract state. The contract is proved for \<open>ArrayOutputStream\<close> and \<open>StringOutputStream\<close>.

  \<open>Next\<close> hands out the memory of a block, which the caller writes to before it calls the sink again.
  The model passes that memory by value: \<open>ONext_of\<close> returns the block as it is, and \<open>OFill_of\<close> puts
  back what the caller has made of the block handed out last.
\<close>

section \<open>The interface\<close>

record 's output_class =
  ONext_of :: "'s \<Rightarrow> (u8 list option \<times> 's) outcome"
  OBackUp_of :: "int \<Rightarrow> 's \<Rightarrow> 's outcome"
  OByteCount_of :: "'s \<Rightarrow> int"
  OWriteAliasedRaw_of :: "u8 list \<Rightarrow> 's \<Rightarrow> (bool \<times> 's) outcome"
  OAllowsAliasing_of :: "'s \<Rightarrow> bool"
  OFill_of :: "u8 list \<Rightarrow> 's \<Rightarrow> 's"

text \<open>The default of \<open>ZeroCopyOutputStream::WriteAliasedRaw\<close> is a fatal error.\<close>

definition no_aliasing :: "u8 list \<Rightarrow> 's \<Rightarrow> (bool \<times> 's) outcome" where
  "no_aliasing data s = Inl (StdException ''FatalException'')"

section \<open>ArrayOutputStream\<close>

record array_output =
  aout_data :: "u8 list"
  aout_size :: int
  aout_block_size :: int
  aout_position :: int
  aout_last :: int

definition ArrayOutputStream :: "u8 list \<Rightarrow> int \<Rightarrow> int \<Rightarrow> array_output" where
  "ArrayOutputStream data n block_size =
     \<lparr>aout_data = data, aout_size = n, aout_block_size = (if 0 < block_size then block_size else n),
      aout_position = 0, aout_last = 0\<rparr>"

definition aout_Next :: "array_output \<Rightarrow> (u8 list option \<times> array_output) outcome" where
  "aout_Next s =
     (if aout_position s < aout_size s
      then let n = min (aout_block_size s) (aout_size s - aout_position s) in
           Inr (Some (take (nat n) (drop (nat (aout_position s)) (aout_data s))),
                s\<lparr>aout_last := n, aout_position := aout_position s + n\<rparr>)
      else Inr (None, s\<lparr>aout_last := 0\<rparr>))"

definition aout_BackUp :: "int \<Rightarrow> array_output \<Rightarrow> array_output outcome" where
  "aout_BackUp count s =
     and_then (google_check (0 < aout_last s)) (\<lambda>_.
     and_then (google_check (count \<le> aout_last s)) (\<lambda>_.
     and_then (google_check (0 \<le> count)) (\<lambda>_.
       Inr (s\<lparr>aout_position := aout_position s - count, aout_last := 0\<rparr>))))"

definition aout_ByteCount :: "array_output \<Rightarrow> int" where
  "aout_ByteCount s = aout_position s"

definition aout_fill :: "u8 list \<Rightarrow> array_output \<Rightarrow> array_output" where
  "aout_fill block s = s\<lparr>aout_data := overwrite (aout_data s) (nat (aout_position s) - length block) block\<rparr>"

definition array_output_class :: "array_output output_class" where
  "array_output_class =
     \<lparr>ONext_of = aout_Next, OBackUp_of = aout_BackUp, OByteCount_of = aout_ByteCount, OWriteAliasedRaw_of = no_aliasing,
      OAllowsAliasing_of = (\<lambda>_. False), OFill_of = aout_fill\<rparr>"

section \<open>StringOutputStream\<close>

text \<open>A string has a capacity; \<open>reserve n\<close> is the capacity the standard library picks when a string grows
  to \<open>n\<close> bytes that do not fit.\<close>

record string_output =
  sout_target :: "u8 list"
  sout_capacity :: nat

definition kMinimumSize :: nat where "kMinimumSize = 16"

definition resize :: "(nat \<Rightarrow> nat) \<Rightarrow> nat \<Rightarrow> string_output \<Rightarrow> string_output" where
  "resize reserve n s =
     s\<lparr>sout_target := take n (sout_target s) @ replicate (n - length (sout_target s)) 0,
       sout_capacity := (if n \<le> sout_capacity s then sout_capacity s else reserve n)\<rparr>"

definition sout_Next :: "(nat \<Rightarrow> nat) \<Rightarrow> string_output \<Rightarrow> (u8 list option \<times> string_output) outcome" where
  "sout_Next reserve s =
     (let old_size = length (sout_target s);
          new_size = (if old_size < sout_capacity s then sout_capacity s else old_size * 2);
          new_size = min new_size (old_size + nat INT_MAX);
          s = resize reserve (max new_size kMinimumSize) s
      in Inr (Some (drop old_size (sout_target s)), s))"

definition sout_BackUp :: "(nat \<Rightarrow> nat) \<Rightarrow> int \<Rightarrow> string_output \<Rightarrow> string_output outcome" where
  "sout_BackUp reserve count s =
     and_then (google_check (0 \<le> count)) (\<lambda>_.
     and_then (google_check (nat count \<le> length (sout_target s))) (\<lambda>_.
       Inr (resize reserve (length (sout_target s) - nat count) s)))"

definition sout_ByteCount :: "string_output \<Rightarrow> int" where
  "sout_ByteCount s = int (length (sout_target s))"

definition sout_fill :: "u8 list \<Rightarrow> string_output \<Rightarrow> string_output" where
  "sout_fill block s = s\<lparr>sout_target := overwrite (sout_target s) (length (sout_target s) - length block) block\<rparr>"

definition string_output_class :: "(nat \<Rightarrow> nat) \<Rightarrow> string_output output_class" where
  "string_output_class reserve =
     \<lparr>ONext_of = sout_Next reserve, OBackUp_of = sout_BackUp reserve, OByteCount_of = sout_ByteCount,
      OWriteAliasedRaw_of = no_aliasing, OAllowsAliasing_of = (\<lambda>_. False), OFill_of = sout_fill\<rparr>"

section \<open>The contract\<close>

text \<open>\<open>content\<close> is what the sink holds, the last block included; up to \<open>avail\<close> bytes at its end may be
  written to or given back. A sink fails only when what it holds and one byte more do not fit;
  a call of \<open>Next\<close> that fails promises nothing more.\<close>

locale zero_copy_output =
  fixes vt :: "'s output_class" and ok :: "'s \<Rightarrow> bool" and content :: "'s \<Rightarrow> u8 list" and avail :: "'s \<Rightarrow> nat"
    and fits :: "nat \<Rightarrow> bool"
  assumes fits_less: "fits k \<Longrightarrow> m \<le> k \<Longrightarrow> fits m"
    and avail: "ok s \<Longrightarrow> avail s \<le> length (content s)"
    and obtain_block: "ok s \<Longrightarrow>
      \<exists>r s'. ONext_of vt s = Inr (r, s') \<and>
        (case r of None \<Rightarrow> \<not> fits (Suc (length (content s)))
         | Some blk \<Rightarrow> blk \<noteq> [] \<and> ok s' \<and> content s' = content s @ blk \<and> length blk \<le> avail s')"
    and fill: "ok s \<Longrightarrow> length blk \<le> avail s \<Longrightarrow>
      ok (OFill_of vt blk s) \<and> avail (OFill_of vt blk s) = avail s \<and>
      content (OFill_of vt blk s) = take (length (content s) - length blk) (content s) @ blk"
    and give_back: "ok s \<Longrightarrow> 0 < n \<Longrightarrow> n \<le> int (avail s) \<Longrightarrow>
      \<exists>s'. OBackUp_of vt n s = Inr s' \<and> ok s' \<and> content s' = take (length (content s) - nat n) (content s)"

definition aout_ok :: "array_output \<Rightarrow> bool" where
  "aout_ok s \<longleftrightarrow> aout_size s = int (length (aout_data s)) \<and> 0 \<le> aout_last s \<and> aout_last s \<le> aout_position s \<and>
     aout_position s \<le> aout_size s \<and> (0 < aout_size s \<longrightarrow> 0 < aout_block_size s)"

definition aout_content :: "array_output \<Rightarrow> u8 list" where
  "aout_content s = take (nat (aout_position s)) (aout_data s)"

lemma overwrite_end: "n \<le> length xs \<Longrightarrow> length bs \<le> n \<Longrightarrow> take n (overwrite xs (n - length bs) bs) = take (n - length bs) xs @ bs"
  by (simp add: overwrite_def min_absorb2)

lemma INT_MAX_pos [simp]: "0 < INT_MAX"
  by (simp add: INT_MAX_def)

interpretation aout: zero_copy_output array_output_class "\<lambda>s. aout_ok s \<and> aout_size s = int n" aout_content "\<lambda>s. nat (aout_last s)"
    "\<lambda>k. k \<le> n"
  for n :: nat
proof
  fix s :: array_output
  assume o': "aout_ok s \<and> aout_size s = int n"
  then have o: "aout_ok s" and size: "aout_size s = int n"
    by auto
  show "nat (aout_last s) \<le> length (aout_content s)"
    using o by (auto simp: aout_ok_def aout_content_def)
  let ?n = "min (aout_block_size s) (aout_size s - aout_position s)"
  let ?p = "nat (aout_position s)"
  show "\<exists>r s'. ONext_of array_output_class s = Inr (r, s') \<and>
      (case r of None \<Rightarrow> \<not> Suc (length (aout_content s)) \<le> n
       | Some blk \<Rightarrow> blk \<noteq> [] \<and> (aout_ok s' \<and> aout_size s' = int n) \<and> aout_content s' = aout_content s @ blk \<and> length blk \<le> nat (aout_last s'))"
  proof (cases "aout_position s < aout_size s")
    case True
    then have n: "0 < ?n" "?n \<le> int (length (aout_data s)) - aout_position s" "0 \<le> aout_position s"
      using o by (auto simp: aout_ok_def)
    then have "take (nat (aout_position s + ?n)) (aout_data s) = take ?p (aout_data s) @ take (nat ?n) (drop ?p (aout_data s))"
      by (simp add: nat_add_distrib take_add)
    then show ?thesis
      using True o size n by (auto simp: array_output_class_def aout_Next_def Let_def aout_ok_def aout_content_def)
  qed (use o size in \<open>auto simp: array_output_class_def aout_Next_def aout_ok_def aout_content_def\<close>)
  show "(aout_ok (OFill_of array_output_class blk s) \<and> aout_size (OFill_of array_output_class blk s) = int n) \<and>
      nat (aout_last (OFill_of array_output_class blk s)) = nat (aout_last s) \<and>
      aout_content (OFill_of array_output_class blk s) = take (length (aout_content s) - length blk) (aout_content s) @ blk"
    if "length blk \<le> nat (aout_last s)" for blk
  proof -
    have l: "length blk \<le> ?p" "?p \<le> length (aout_data s)"
      using that o by (auto simp: aout_ok_def)
    then show ?thesis
      using o size by (simp add: array_output_class_def aout_fill_def aout_ok_def aout_content_def overwrite_end min_def)
  qed
  show "\<exists>s'. OBackUp_of array_output_class k s = Inr s' \<and> (aout_ok s' \<and> aout_size s' = int n) \<and>
      aout_content s' = take (length (aout_content s) - nat k) (aout_content s)"
    if "0 < k" "k \<le> int (nat (aout_last s))" for k
  proof -
    have "length (aout_content s) = ?p" "nat k \<le> ?p" "k \<le> aout_last s"
      using that o by (auto simp: aout_ok_def aout_content_def)
    then show ?thesis
      using that o size by (simp add: array_output_class_def aout_BackUp_def aout_ok_def aout_content_def nat_diff_distrib)
  qed
qed simp

lemma length_resize [simp]: "length (sout_target (resize reserve n s)) = n"
  by (simp add: resize_def)

interpretation sout: zero_copy_output "string_output_class reserve" "\<lambda>_. True" sout_target "\<lambda>s. length (sout_target s)" "\<lambda>_. True"
  for reserve :: "nat \<Rightarrow> nat"
proof
  fix s :: string_output
  let ?old = "length (sout_target s)"
  let ?new = "max (min (if ?old < sout_capacity s then sout_capacity s else ?old * 2) (?old + nat INT_MAX)) kMinimumSize"
  have "?old < ?new"
  proof (cases "?old = 0")
    case False
    then have "?old < ?old * 2" "?old < ?old + nat INT_MAX"
      by (auto simp: length_greater_0_conv)
    then show ?thesis
      by (auto simp only: less_max_iff_disj min_less_iff_conj split: if_split)
  qed (simp add: kMinimumSize_def)
  then obtain N where N: "N = ?new" "?old < N"
    by blast
  then have "sout_Next reserve s = Inr (Some (drop ?old (sout_target (resize reserve N s))), resize reserve N s)"
    by (simp only: sout_Next_def Let_def)
  moreover have "sout_target (resize reserve N s) = sout_target s @ replicate (N - ?old) 0"
    using N(2) by (simp add: resize_def)
  ultimately show "\<exists>r s'. ONext_of (string_output_class reserve) s = Inr (r, s') \<and>
      (case r of None \<Rightarrow> \<not> True
       | Some blk \<Rightarrow> blk \<noteq> [] \<and> True \<and> sout_target s' = sout_target s @ blk \<and> length blk \<le> length (sout_target s'))"
    using N(2) by (simp add: string_output_class_def)
qed (auto simp: string_output_class_def sout_fill_def sout_BackUp_def resize_def overwrite_end [of "length xs" xs for xs, simplified]
      overwrite_def nat_le_iff)

end
