(* ===== verification/Pb_Eps_Output.thy ===== *)
theory Pb_Eps_Output
  imports Pb_Output Pb_Eps_Input
begin

text \<open>
  \<open>EpsCopyOutputStream\<close> (Headers/google/protobuf/io/coded_stream.h, io/coded_stream.cc): the output of the
  serializers. Its user keeps the pointer to write to; behind \<open>end_\<close> there are always sixteen more bytes
  of memory, so that a field can be written after one check. The memory is an array, a block of a
  \<open>ZeroCopyOutputStream\<close>, or the patch buffer that stands for the last bytes of a block and the
  first sixteen of the next.

  A pointer is an offset into the memory it points into: \<open>buffer_\<close> when \<open>in_patch\<close> holds, otherwise
  the array or the block handed out last. \<open>buffer_end_\<close> points into the block, or it is null. A write or
  read outside of the memory is \<open>Undefined\<close>. Where the code has \<open>buffer_end_ = buffer_\<close>, with no bytes
  to copy there, the block is empty and \<open>buffer_end_\<close> is its start. The flag for deterministic
  serialization, which only maps look at, and the \<open>GOOGLE_DCHECK\<close>s are left out.
\<close>

section \<open>State\<close>

record 's eps_output =
  out_patch :: "u8 list"
  out_block :: "u8 list"
  in_patch :: bool
  out_end :: int
  out_buffer_end :: "int option"
  out_stream :: "'s option"
  had_error :: bool
  out_aliasing :: bool

definition EpsCopyOutputStream :: "u8 list \<Rightarrow> 's \<Rightarrow> int \<times> 's eps_output" where
  "EpsCopyOutputStream buffer stream =
     (0, \<lparr>out_patch = buffer, out_block = [], in_patch = True, out_end = 0, out_buffer_end = Some 0,
          out_stream = Some stream, had_error = False, out_aliasing = False\<rparr>)"

definition EpsCopyOutputStream_array :: "u8 list \<Rightarrow> u8 list \<Rightarrow> int \<Rightarrow> 's eps_output" where
  "EpsCopyOutputStream_array buffer data n =
     \<lparr>out_patch = buffer, out_block = data, in_patch = False, out_end = n, out_buffer_end = None,
      out_stream = None, had_error = False, out_aliasing = False\<rparr>"

definition SetInitialBuffer :: "int \<Rightarrow> int \<Rightarrow> 's eps_output \<Rightarrow> int \<times> 's eps_output" where
  "SetInitialBuffer data n s =
     (if kSlopBytes < n then (data, s\<lparr>in_patch := False, out_end := data + n - kSlopBytes, out_buffer_end := None\<rparr>)
      else (0, s\<lparr>in_patch := True, out_end := n, out_buffer_end := Some data\<rparr>))"

section \<open>Memory\<close>

definition put_at :: "int \<Rightarrow> u8 list \<Rightarrow> u8 list \<Rightarrow> u8 list outcome" where
  "put_at p bytes mem =
     (if 0 \<le> p \<and> p + int (length bytes) \<le> int (length mem) then Inr (overwrite mem (nat p) bytes)
      else Inl (Undefined ''write outside of the memory''))"

definition put :: "int \<Rightarrow> u8 list \<Rightarrow> 's eps_output \<Rightarrow> 's eps_output outcome" where
  "put ptr bytes s =
     (if in_patch s then and_then (put_at ptr bytes (out_patch s)) (\<lambda>m. Inr (s\<lparr>out_patch := m\<rparr>))
      else and_then (put_at ptr bytes (out_block s)) (\<lambda>m. Inr (s\<lparr>out_block := m\<rparr>)))"

text \<open>A writer that puts bytes at the pointer and returns the pointer behind them.\<close>

definition emit :: "u8 list \<Rightarrow> int \<Rightarrow> 's eps_output \<Rightarrow> (int \<times> 's eps_output) outcome" where
  "emit bytes ptr s = and_then (put ptr bytes s) (\<lambda>s. Inr (ptr + int (length bytes), s))"

text \<open>What has been written to the block is handed to the stream before it is called again.\<close>

definition handed :: "'s output_class \<Rightarrow> 's eps_output \<Rightarrow> 's \<Rightarrow> 's" where
  "handed vt s z = (if out_block s = [] then z else OFill_of vt (out_block s) z)"

section \<open>The next block\<close>

definition out_Error :: "'s eps_output \<Rightarrow> int \<times> 's eps_output" where
  "out_Error s = (0, s\<lparr>had_error := True, in_patch := True, out_end := kSlopBytes\<rparr>)"

partial_function (option) next_block :: "'s output_class \<Rightarrow> 's \<Rightarrow> (u8 list option \<times> 's) outcome option" where
  "next_block vt z =
     (case ONext_of vt z of
        Inl e \<Rightarrow> Some (Inl e)
      | Inr (None, z) \<Rightarrow> Some (Inr (None, z))
      | Inr (Some blk, z) \<Rightarrow> if blk = [] then next_block vt z else Some (Inr (Some blk, z)))"

declare next_block.simps [code]

definition out_Next :: "'s output_class \<Rightarrow> 's eps_output \<Rightarrow> (int \<times> 's eps_output) outcome" where
  "out_Next vt s =
     (case out_stream s of
        None \<Rightarrow> Inr (out_Error s)
      | Some z \<Rightarrow>
        (case out_buffer_end s of
           Some k \<Rightarrow>
             and_then (load (out_patch s) 0 (out_end s)) (\<lambda>bytes.
             and_then (put_at k bytes (out_block s)) (\<lambda>block.
             let s = s\<lparr>out_block := block\<rparr> in
             and_then (returns (next_block vt (handed vt s z))) (\<lambda>(r, z).
             let s = s\<lparr>out_stream := Some z\<rparr> in
             case r of
               None \<Rightarrow> Inr (out_Error (s\<lparr>out_block := []\<rparr>))
             | Some blk \<Rightarrow>
                 and_then (load (out_patch s) (out_end s) kSlopBytes) (\<lambda>slop.
                 let n = int (length blk) in
                 if kSlopBytes < n
                 then Inr (0, s\<lparr>out_block := overwrite blk 0 slop, in_patch := False, out_end := n - kSlopBytes,
                                out_buffer_end := None\<rparr>)
                 else Inr (0, s\<lparr>out_patch := overwrite (out_patch s) 0 slop, out_block := blk, out_buffer_end := Some 0,
                                out_end := n\<rparr>)))))
         | None \<Rightarrow>
             and_then (load (out_block s) (out_end s) kSlopBytes) (\<lambda>slop.
               Inr (0, s\<lparr>out_patch := overwrite (out_patch s) 0 slop, in_patch := True,
                         out_buffer_end := Some (out_end s), out_end := kSlopBytes\<rparr>))))"

partial_function (option) EnsureSpaceFallback ::
  "'s output_class \<Rightarrow> int \<Rightarrow> 's eps_output \<Rightarrow> (int \<times> 's eps_output) outcome option" where
  "EnsureSpaceFallback vt ptr s =
     (if had_error s then Some (Inr (0, s\<lparr>in_patch := True\<rparr>))
      else case out_Next vt s of
             Inl e \<Rightarrow> Some (Inl e)
           | Inr (q, t) \<Rightarrow>
               let ptr = q + (ptr - out_end s) in
               if out_end t \<le> ptr then EnsureSpaceFallback vt ptr t else Some (Inr (ptr, t)))"

declare EnsureSpaceFallback.simps [code]

definition EnsureSpace :: "'s output_class \<Rightarrow> int \<Rightarrow> 's eps_output \<Rightarrow> (int \<times> 's eps_output) outcome" where
  "EnsureSpace vt ptr s = (if out_end s \<le> ptr then returns (EnsureSpaceFallback vt ptr s) else Inr (ptr, s))"

section \<open>Raw bytes\<close>

definition GetSize :: "int \<Rightarrow> 's eps_output \<Rightarrow> int" where
  "GetSize ptr s = out_end s + kSlopBytes - ptr"

text \<open>\<open>memcpy\<close> of the first \<open>n\<close> bytes at \<open>data\<close>.\<close>

definition copy_in :: "u8 list \<Rightarrow> int \<Rightarrow> int \<Rightarrow> 's eps_output \<Rightarrow> (int \<times> 's eps_output) outcome" where
  "copy_in data n ptr s = and_then (load data 0 n) (\<lambda>bytes. emit bytes ptr s)"

partial_function (option) WriteRawFallback ::
  "'s output_class \<Rightarrow> u8 list \<Rightarrow> int \<Rightarrow> int \<Rightarrow> 's eps_output \<Rightarrow> (int \<times> 's eps_output) outcome option" where
  "WriteRawFallback vt data n ptr s =
     (let room = GetSize ptr s in
      if room < n
      then (case copy_in data room ptr s of
              Inl e \<Rightarrow> Some (Inl e)
            | Inr (p, s) \<Rightarrow>
                (case returns (EnsureSpaceFallback vt p s) of
                   Inl e \<Rightarrow> Some (Inl e)
                 | Inr (p, s) \<Rightarrow> WriteRawFallback vt (drop (nat room) data) (n - room) p s))
      else Some (copy_in data n ptr s))"

declare WriteRawFallback.simps [code]

definition out_WriteRaw :: "'s output_class \<Rightarrow> u8 list \<Rightarrow> int \<Rightarrow> int \<Rightarrow> 's eps_output \<Rightarrow> (int \<times> 's eps_output) outcome" where
  "out_WriteRaw vt data n ptr s =
     (if out_end s - ptr < n then returns (WriteRawFallback vt data n ptr s) else copy_in data n ptr s)"

section \<open>Giving back what is not used\<close>

text \<open>\<open>Flush\<close> returns the size of the rest of the block, which starts at the new \<open>buffer_end_\<close>.\<close>

partial_function (option) flush_loop ::
  "'s output_class \<Rightarrow> int \<Rightarrow> 's eps_output \<Rightarrow> (int option \<times> 's eps_output) outcome option" where
  "flush_loop vt ptr s =
     (if out_buffer_end s \<noteq> None \<and> out_end s < ptr
      then (case out_Next vt s of
              Inl e \<Rightarrow> Some (Inl e)
            | Inr (q, t) \<Rightarrow> if had_error t then Some (Inr (None, t)) else flush_loop vt (q + (ptr - out_end s)) t)
      else Some (Inr (Some ptr, s)))"

declare flush_loop.simps [code]

definition out_Flush :: "'s output_class \<Rightarrow> int \<Rightarrow> 's eps_output \<Rightarrow> (int \<times> 's eps_output) outcome" where
  "out_Flush vt ptr s =
     and_then (returns (flush_loop vt ptr s)) (\<lambda>(r, s). case r of
         None \<Rightarrow> Inr (0, s)
       | Some ptr \<Rightarrow>
           (case out_buffer_end s of
              Some k \<Rightarrow>
                and_then (load (out_patch s) 0 ptr) (\<lambda>bytes.
                and_then (put_at k bytes (out_block s)) (\<lambda>block.
                  Inr (out_end s - ptr, s\<lparr>out_block := block, out_buffer_end := Some (k + ptr)\<rparr>)))
            | None \<Rightarrow> Inr (out_end s + kSlopBytes - ptr, s\<lparr>out_buffer_end := Some ptr\<rparr>)))"

definition Trim :: "'s output_class \<Rightarrow> int \<Rightarrow> 's eps_output \<Rightarrow> (int \<times> 's eps_output) outcome" where
  "Trim vt ptr s =
     (if had_error s then Inr (ptr, s)
      else and_then (out_Flush vt ptr s) (\<lambda>(n, s).
           and_then (case out_stream s of
                       None \<Rightarrow> if n = 0 then Inr None else Inl (Undefined ''null stream'')
                     | Some z \<Rightarrow>
                         if n = 0 then Inr (Some (handed vt s z))
                         else and_then (OBackUp_of vt n (handed vt s z)) (\<lambda>z. Inr (Some z)))
             (\<lambda>z. Inr (0, s\<lparr>out_stream := z, out_block := [], in_patch := True, out_end := 0, out_buffer_end := Some 0\<rparr>))))"

end
