(* ===== verification/Pb_Eps_Write.thy ===== *)
theory Pb_Eps_Write
  imports Pb_Eps_Output
begin

text \<open>
  What \<open>EpsCopyOutputStream\<close> guarantees. In the locale \<open>eps_writer\<close> a state with a pointer stands for the
  bytes written so far, and the operations append to them; the serializers are proved over it.
  It holds for the array of \<open>SerializeToArray\<close>, whose size must be enough, and for every
  \<open>ZeroCopyOutputStream\<close>, wherever its blocks end and whether it fails or not.
\<close>

section \<open>The contract\<close>

locale eps_writer =
  fixes vt :: "'s output_class" and wrote :: "u8 list \<Rightarrow> 's eps_output \<Rightarrow> int \<Rightarrow> bool" and fits :: "nat \<Rightarrow> bool"
  assumes fits_less: "fits n \<Longrightarrow> m \<le> n \<Longrightarrow> fits m"
    and ensure: "wrote W s p \<Longrightarrow> fits (Suc (length W)) \<Longrightarrow>
      \<exists>q t. EnsureSpace vt p s = Inr (q, t) \<and> wrote W t q \<and> q \<le> out_end t"
    and emit: "wrote W s p \<Longrightarrow> fits (length W + length bs) \<Longrightarrow> p + int (length bs) \<le> out_end s + 16 \<Longrightarrow>
      \<exists>t. emit bs p s = Inr (p + int (length bs), t) \<and> wrote (W @ bs) t (p + int (length bs)) \<and> out_end t = out_end s"
    and raw: "wrote W s p \<Longrightarrow> fits (length W + length bs) \<Longrightarrow>
      \<exists>q t. out_WriteRaw vt bs (int (length bs)) p s = Inr (q, t) \<and> wrote (W @ bs) t q"
    and plain: "wrote W s p \<Longrightarrow> \<not> out_aliasing s"

section \<open>An array\<close>

definition array_writer :: "u8 list \<Rightarrow> nat \<Rightarrow> u8 list \<Rightarrow> 's eps_output \<Rightarrow> int \<Rightarrow> bool" where
  "array_writer data n W s p \<longleftrightarrow>
     \<not> had_error s \<and> \<not> out_aliasing s \<and> \<not> in_patch s \<and> out_stream s = None \<and> out_buffer_end s = None \<and>
     out_end s = int n \<and> n \<le> length data \<and> length W \<le> n \<and> p = int (length W) \<and> out_block s = W @ drop (length W) data"

lemma array_writer_emit:
  assumes "array_writer data n W s p" and "length W + length bs \<le> n"
  shows "\<exists>t. emit bs p s = Inr (p + int (length bs), t) \<and> array_writer data n (W @ bs) t (p + int (length bs)) \<and> out_end t = out_end s"
  using assms by (auto simp: array_writer_def emit_def put_def put_at_def overwrite_def add.commute)

lemma load_all [simp]: "load bs 0 (int (length bs)) = Inr bs"
  by (simp add: load_def)

interpretation array_writer: eps_writer vt "array_writer data n" "\<lambda>k. k \<le> n"
  for vt :: "'s output_class" and data n
proof
  fix W bs :: "u8 list" and s :: "'s eps_output" and p
  assume w: "array_writer data n W s p"
  show "\<exists>q t. EnsureSpace vt p s = Inr (q, t) \<and> array_writer data n W t q \<and> q \<le> out_end t" if "Suc (length W) \<le> n"
    using w that by (auto simp: EnsureSpace_def array_writer_def)
  show "\<exists>t. emit bs p s = Inr (p + int (length bs), t) \<and> array_writer data n (W @ bs) t (p + int (length bs)) \<and> out_end t = out_end s"
    if "length W + length bs \<le> n"
    using array_writer_emit [OF w that] .
  show "\<exists>q t. out_WriteRaw vt bs (int (length bs)) p s = Inr (q, t) \<and> array_writer data n (W @ bs) t q"
    if "length W + length bs \<le> n"
    using array_writer_emit [OF w that] w that by (auto simp: out_WriteRaw_def array_writer_def copy_in_def)
  show "\<not> out_aliasing s"
    using w by (simp add: array_writer_def)
qed simp

section \<open>A stream\<close>

definition out_written :: "('s \<Rightarrow> u8 list) \<Rightarrow> 's eps_output \<Rightarrow> 's \<Rightarrow> int \<Rightarrow> u8 list" where
  "out_written content s z p =
     take (length (content z) - length (out_block s)) (content z) @
     (case out_buffer_end s of
        None \<Rightarrow> take (nat p) (out_block s)
      | Some k \<Rightarrow> take (nat k) (out_block s) @ take (nat p) (out_patch s))"

definition out_shape :: "'s eps_output \<Rightarrow> int \<Rightarrow> bool" where
  "out_shape s p \<longleftrightarrow>
     0 \<le> out_end s \<and> 0 \<le> p \<and> p \<le> out_end s + 16 \<and>
     (case out_buffer_end s of
        None \<Rightarrow> \<not> in_patch s \<and> out_end s + 16 = int (length (out_block s))
      | Some k \<Rightarrow> in_patch s \<and> 0 \<le> k \<and> out_end s \<le> 16 \<and> k + out_end s = int (length (out_block s)))"

text \<open>After an error the bytes go nowhere; the sink had no room for one byte more.\<close>

definition stream_writer ::
  "('s \<Rightarrow> bool) \<Rightarrow> ('s \<Rightarrow> u8 list) \<Rightarrow> ('s \<Rightarrow> nat) \<Rightarrow> (nat \<Rightarrow> bool) \<Rightarrow> u8 list \<Rightarrow> 's eps_output \<Rightarrow> int \<Rightarrow> bool" where
  "stream_writer ok content avail fits W s p \<longleftrightarrow>
     \<not> out_aliasing s \<and> length (out_patch s) = 32 \<and>
     (if had_error s then \<not> fits (Suc (length W)) \<and> in_patch s \<and> 0 \<le> out_end s \<and> out_end s \<le> 16 \<and> 0 \<le> p \<and> p \<le> out_end s + 16
      else \<exists>z. out_stream s = Some z \<and> ok z \<and> length (out_block s) \<le> avail z \<and> out_shape s p \<and>
             W = out_written content s z p)"

context zero_copy_output
begin

abbreviation "writer \<equiv> stream_writer ok content avail fits"

lemma not_fits: "\<not> fits m \<Longrightarrow> m \<le> k \<Longrightarrow> \<not> fits k"
  using fits_less by blast

text \<open>An error between two states has the reason that the bytes written do not fit.\<close>

abbreviation "no_room s t V \<equiv> had_error t \<longrightarrow> had_error s \<or> \<not> fits (length V)"

lemma handed_ok:
  assumes "ok z" and "length (out_block s) \<le> avail z"
  shows "ok (handed vt s z)" "avail (handed vt s z) = avail z"
    "content (handed vt s z) = take (length (content z) - length (out_block s)) (content z) @ out_block s"
  using assms fill [OF assms] by (auto simp: handed_def)

lemma next_block_once:
  assumes "ok z"
  obtains z' where "next_block vt z = Some (Inr (None, z'))" "\<not> fits (Suc (length (content z)))"
  | blk z' where "next_block vt z = Some (Inr (Some blk, z'))" "blk \<noteq> []" "ok z'" "content z' = content z @ blk" "length blk \<le> avail z'"
proof -
  obtain r z' where n: "ONext_of vt z = Inr (r, z')"
      "case r of None \<Rightarrow> \<not> fits (Suc (length (content z)))
       | Some blk \<Rightarrow> blk \<noteq> [] \<and> ok z' \<and> content z' = content z @ blk \<and> length blk \<le> avail z'"
    using obtain_block [OF assms] by blast
  then have "next_block vt z = Some (Inr (r, z'))"
    by (subst next_block.simps) (auto split: option.splits)
  with n that show thesis
    by (cases r) auto
qed

lemma writer_emit:
  assumes "writer W s p" and "p + int (length bs) \<le> out_end s + 16"
  shows "\<exists>t. emit bs p s = Inr (p + int (length bs), t) \<and> writer (W @ bs) t (p + int (length bs)) \<and> out_end t = out_end s \<and>
    had_error t = had_error s"
proof (cases "had_error s")
  case True
  then show ?thesis
    using assms not_fits [of "Suc (length W)" "Suc (length W + length bs)"] by (auto simp: stream_writer_def emit_def put_def put_at_def)
next
  case False
  then obtain z where z: "out_stream s = Some z" "ok z" "length (out_block s) \<le> avail z" "out_shape s p"
      "W = out_written content s z p" "\<not> out_aliasing s" "length (out_patch s) = 32"
    using assms(1) by (auto simp: stream_writer_def)
  show ?thesis
  proof (cases "out_buffer_end s")
    case None
    then show ?thesis
      using z False assms(2)
      by (auto simp: emit_def put_def put_at_def out_shape_def stream_writer_def out_written_def nat_add_distrib overwrite_def)
  next
    case (Some k)
    then show ?thesis
      using z False assms(2)
      by (auto simp: emit_def put_def put_at_def out_shape_def stream_writer_def out_written_def nat_add_distrib overwrite_def)
  qed
qed


lemma load_slop: "0 \<le> p \<Longrightarrow> p + 16 \<le> int (length m) \<Longrightarrow> load m p kSlopBytes = Inr (take 16 (drop (nat p) m))"
  by (simp add: load_def kSlopBytes_def)

text \<open>The next block takes over what lies behind the end of the one before.\<close>

lemma writer_Next:
  assumes w: "writer W s p" and e: "\<not> had_error s" and p: "out_end s \<le> p"
  obtains t where "out_Next vt s = Inr (0, t)" "writer W t (p - out_end s)" "0 < out_end t"
    "had_error t \<Longrightarrow> out_end s < p \<Longrightarrow> \<not> fits (length W)"
proof -
  from w e obtain z where z: "out_stream s = Some z" "ok z" "length (out_block s) \<le> avail z" "out_shape s p"
      "W = out_written content s z p" "\<not> out_aliasing s" "length (out_patch s) = 32"
    by (auto simp: stream_writer_def)
  have b: "0 \<le> p - out_end s" "p - out_end s \<le> 16" "0 \<le> out_end s"
    using z(4) p by (auto simp: out_shape_def)
  show thesis
  proof (cases "out_buffer_end s")
    case None
    let ?slop = "take 16 (drop (nat (out_end s)) (out_block s))"
    let ?t = "s\<lparr>out_patch := overwrite (out_patch s) 0 ?slop, in_patch := True, out_buffer_end := Some (out_end s), out_end := kSlopBytes\<rparr>"
    have len: "out_end s + 16 = int (length (out_block s))"
      using z(4) None by (simp add: out_shape_def)
    then have n: "out_Next vt s = Inr (0, ?t)"
      using z(1) b by (simp add: out_Next_def None load_slop)
    have "take (nat (out_end s)) (out_block s) @ take (nat (p - out_end s)) ?slop = take (nat p) (out_block s)"
      using b by (simp add: take_add [symmetric] nat_add_distrib [symmetric])
    moreover have "length ?slop = 16"
      using len b by simp
    ultimately have "writer W ?t (p - out_end s)"
      using z None b e len by (auto simp: stream_writer_def out_written_def out_shape_def overwrite_def kSlopBytes_def)
    with n that e show thesis
      by (simp add: kSlopBytes_def)
  next
    case (Some k)
    let ?held = "take (length (content z) - length (out_block s)) (content z)"
    let ?bytes = "take (nat (out_end s)) (out_patch s)" and ?slop = "take 16 (drop (nat (out_end s)) (out_patch s))"
    let ?block = "take (nat k) (out_block s) @ ?bytes"
    let ?s = "s\<lparr>out_block := ?block\<rparr>"
    have k: "in_patch s" "0 \<le> k" "out_end s \<le> 16" "k + out_end s = int (length (out_block s))"
      using z(4) Some by (simp_all add: out_shape_def)
    then have lens: "length ?bytes = nat (out_end s)" "length ?slop = 16" "length ?block = length (out_block s)"
      using z(7) b by auto
    have put: "put_at k ?bytes (out_block s) = Inr ?block"
      using k lens(1) b by (simp add: put_at_def overwrite_def)
    have W: "W = (?held @ ?block) @ take (nat (p - out_end s)) ?slop"
    proof -
      have "take (nat p) (out_patch s) = ?bytes @ take (nat (p - out_end s)) ?slop"
        using b by (simp add: take_add [symmetric] nat_add_distrib [symmetric])
      then show ?thesis
        using z(5) Some by (simp add: out_written_def)
    qed
    have h: "ok (handed vt ?s z)" "content (handed vt ?s z) = ?held @ ?block"
      using handed_ok [of z ?s] z(2,3) lens(3) by auto
    show thesis
    proof (cases rule: next_block_once [OF h(1)])
      case (1 z')
      then have "out_Next vt s = Inr (out_Error (s\<lparr>out_stream := Some z', out_block := []\<rparr>))"
        using z(1,7) Some b k put by (simp add: out_Next_def load_def)
      moreover have "length W = length (content (handed vt ?s z)) + nat (p - out_end s)"
        using W lens(2) b by (simp add: h(2))
      moreover have "\<not> fits (Suc (length W))"
        by (rule not_fits [OF 1(2)]) (simp add: calculation(2))
      moreover have "\<not> fits (length W)" if "out_end s < p"
        by (rule not_fits [OF 1(2)]) (use that in \<open>simp add: calculation(2)\<close>)
      ultimately show thesis
        using that z(6,7) b by (simp add: out_Error_def stream_writer_def kSlopBytes_def)
    next
      case (2 blk z')
      let ?t = "if 16 < length blk
         then s\<lparr>out_block := overwrite blk 0 ?slop, out_stream := Some z', in_patch := False, out_end := int (length blk) - 16,
                out_buffer_end := None\<rparr>
         else s\<lparr>out_block := blk, out_stream := Some z', out_patch := overwrite (out_patch s) 0 ?slop, out_buffer_end := Some 0,
                out_end := int (length blk)\<rparr>"
      have n: "out_Next vt s = Inr (0, ?t)"
        using 2(1) z(1,7) Some b k put by (simp add: out_Next_def load_def kSlopBytes_def)
      have "writer W ?t (p - out_end s)"
        using 2(3-5) z(6,7) b k e lens(2) W h(2)
        by (simp add: stream_writer_def out_written_def out_shape_def overwrite_def)
      with n 2(2) that e show thesis
        by (simp split: if_splits)
    qed
  qed
qed

lemma writer_error: "writer W s p \<Longrightarrow> had_error s \<Longrightarrow> writer W (s\<lparr>in_patch := True\<rparr>) 0 \<and> 0 \<le> out_end s"
  by (auto simp: stream_writer_def)

lemma writer_overrun: "writer W s p \<Longrightarrow> p \<le> out_end s + 16 \<and> 0 \<le> p \<and> 0 \<le> out_end s"
  by (auto simp: stream_writer_def out_shape_def split: if_splits)

lemma writer_Fallback:
  assumes "writer W s p" and "out_end s \<le> p"
  shows "\<exists>q t. EnsureSpaceFallback vt p s = Some (Inr (q, t)) \<and> writer W t q \<and> q \<le> out_end t"
  using assms
proof (induction "nat (p - out_end s)" arbitrary: s p rule: less_induct)
  case less
  show ?case
  proof (cases "had_error s")
    case True
    then show ?thesis
      using writer_error [OF less.prems(1) True] by (subst EnsureSpaceFallback.simps) simp
  next
    case False
    obtain t where t: "out_Next vt s = Inr (0, t)" "writer W t (p - out_end s)" "0 < out_end t"
      by (rule writer_Next [OF less.prems(1) False less.prems(2)])
    show ?thesis
    proof (cases "out_end t \<le> p - out_end s")
      case True
      have "\<exists>q t'. EnsureSpaceFallback vt (p - out_end s) t = Some (Inr (q, t')) \<and> writer W t' q \<and> q \<le> out_end t'"
        by (rule less.hyps [OF _ t(2) True]) (use True t(3) in simp)
      then show ?thesis
        using False t(1) True by (subst EnsureSpaceFallback.simps) simp
    next
      case again: False
      then show ?thesis
        using False t by (subst EnsureSpaceFallback.simps) simp
    qed
  qed
qed

lemma writer_ensure:
  assumes "writer W s p"
  shows "\<exists>q t. EnsureSpace vt p s = Inr (q, t) \<and> writer W t q \<and> q \<le> out_end t"
  using assms writer_Fallback [OF assms] by (auto simp: EnsureSpace_def)

lemma room_for_one: "writer W s p \<Longrightarrow> length W < n \<Longrightarrow> had_error s \<Longrightarrow> \<not> fits n"
  using not_fits [of "Suc (length W)" n] by (auto simp: stream_writer_def)

lemma load_front: "0 \<le> n \<Longrightarrow> n \<le> int (length bs) \<Longrightarrow> load bs 0 n = Inr (take (nat n) bs)"
  by (simp add: load_def)

lemma writer_copy_in:
  assumes "writer W s p" and "0 \<le> n" and "n \<le> int (length bs)" and "p + n \<le> out_end s + 16"
  shows "\<exists>t. copy_in bs n p s = Inr (p + n, t) \<and> writer (W @ take (nat n) bs) t (p + n) \<and> out_end t = out_end s \<and>
    had_error t = had_error s"
  using writer_emit [OF assms(1), of "take (nat n) bs"] assms(2-4) by (simp add: copy_in_def load_front)

lemma writer_raw_inside:
  assumes "writer W s p" and "p \<le> out_end s"
  shows "\<exists>q t. WriteRawFallback vt bs (int (length bs)) p s = Some (Inr (q, t)) \<and> writer (W @ bs) t q \<and>
    no_room s t (W @ bs)"
  using assms
proof (induction "length bs" arbitrary: W s p bs rule: less_induct)
  case less
  let ?room = "GetSize p s"
  have room: "GetSize p s = out_end s + 16 - p" "0 < ?room"
    using less.prems(2) by (simp_all add: GetSize_def kSlopBytes_def)
  show ?case
  proof (cases "?room < int (length bs)")
    case True
    obtain t where t: "copy_in bs ?room p s = Inr (p + ?room, t)" "writer (W @ take (nat ?room) bs) t (p + ?room)" "out_end t = out_end s"
      using writer_copy_in [OF less.prems(1), of ?room bs] True room by auto
    obtain q u where u: "EnsureSpaceFallback vt (p + ?room) t = Some (Inr (q, u))" "writer (W @ take (nat ?room) bs) u q" "q \<le> out_end u"
      using writer_Fallback [OF t(2)] t(3) room by auto
    have shorter: "length (drop (nat ?room) bs) < length bs"
      using True room(2) by (cases bs) auto
    have "\<exists>r t. WriteRawFallback vt (drop (nat ?room) bs) (int (length (drop (nat ?room) bs))) q u = Some (Inr (r, t)) \<and>
        writer ((W @ take (nat ?room) bs) @ drop (nat ?room) bs) t r \<and>
        no_room u t ((W @ take (nat ?room) bs) @ drop (nat ?room) bs)"
      by (rule less.hyps [OF shorter u(2,3)])
    moreover have "no_room s u (W @ bs)"
      using room_for_one [OF u(2), of "length (W @ bs)"] True room(2) by auto
    moreover have "int (length (drop (nat ?room) bs)) = int (length bs) - ?room"
      using True room(2) by simp
    ultimately show ?thesis
      using t u True by (subst WriteRawFallback.simps) (auto simp: Let_def)
  next
    case False
    then show ?thesis
      using writer_copy_in [OF less.prems(1), of "int (length bs)" bs] room
      by (subst WriteRawFallback.simps) (auto simp: Let_def)
  qed
qed

lemma writer_raw:
  assumes w: "writer W s p"
  shows "\<exists>q t. out_WriteRaw vt bs (int (length bs)) p s = Inr (q, t) \<and> writer (W @ bs) t q \<and> no_room s t (W @ bs)"
proof (cases "out_end s - p < int (length bs)")
  case True
  let ?room = "GetSize p s"
  have room: "GetSize p s = out_end s + 16 - p" "0 \<le> ?room"
    using writer_overrun [OF w] by (simp_all add: GetSize_def kSlopBytes_def)
  show ?thesis
  proof (cases "?room < int (length bs)")
    case short: True
    obtain t where t: "copy_in bs ?room p s = Inr (p + ?room, t)" "writer (W @ take (nat ?room) bs) t (p + ?room)" "out_end t = out_end s"
      using writer_copy_in [OF w, of ?room bs] short room by auto
    obtain q u where u: "EnsureSpaceFallback vt (p + ?room) t = Some (Inr (q, u))" "writer (W @ take (nat ?room) bs) u q" "q \<le> out_end u"
      using writer_Fallback [OF t(2)] t(3) room by auto
    have "\<exists>r t. WriteRawFallback vt (drop (nat ?room) bs) (int (length (drop (nat ?room) bs))) q u = Some (Inr (r, t)) \<and>
        writer ((W @ take (nat ?room) bs) @ drop (nat ?room) bs) t r \<and>
        no_room u t ((W @ take (nat ?room) bs) @ drop (nat ?room) bs)"
      by (rule writer_raw_inside [OF u(2,3)])
    moreover have "no_room s u (W @ bs)"
      using room_for_one [OF u(2), of "length (W @ bs)"] short room(2) by auto
    moreover have "int (length (drop (nat ?room) bs)) = int (length bs) - ?room"
      using short room(2) by simp
    ultimately show ?thesis
      using t u short True by (auto simp: out_WriteRaw_def WriteRawFallback.simps [of vt bs "int (length bs)" p s] Let_def)
  next
    case False
    then show ?thesis
      using writer_copy_in [OF w, of "int (length bs)" bs] room True
      by (auto simp: out_WriteRaw_def WriteRawFallback.simps [of vt bs "int (length bs)" p s] Let_def)
  qed
next
  case False
  then show ?thesis
    using writer_copy_in [OF w, of "int (length bs)" bs] by (auto simp: out_WriteRaw_def)
qed

lemma writer_plain: "writer W s p \<Longrightarrow> \<not> out_aliasing s"
  by (simp add: stream_writer_def)

lemma is_eps_writer: "eps_writer vt writer (\<lambda>_. True)"
  by unfold_locales (use writer_ensure writer_emit writer_raw writer_plain in fastforce)+

text \<open>As long as everything fits there is no error.\<close>

definition sure_writer :: "u8 list \<Rightarrow> 's eps_output \<Rightarrow> int \<Rightarrow> bool" where
  "sure_writer W s p \<longleftrightarrow> writer W s p \<and> \<not> had_error s"

lemma sure_is_eps_writer: "eps_writer vt sure_writer fits"
proof
  fix W bs :: "u8 list" and s :: "'s eps_output" and p
  assume w: "sure_writer W s p"
  show "\<exists>q t. EnsureSpace vt p s = Inr (q, t) \<and> sure_writer W t q \<and> q \<le> out_end t" if "fits (Suc (length W))"
    using writer_ensure [of W s p] w that by (auto simp: sure_writer_def dest: room_for_one)
  show "\<exists>t. emit bs p s = Inr (p + int (length bs), t) \<and> sure_writer (W @ bs) t (p + int (length bs)) \<and> out_end t = out_end s"
    if "p + int (length bs) \<le> out_end s + 16"
    using writer_emit [OF _ that] w by (auto simp: sure_writer_def)
  show "\<exists>q t. out_WriteRaw vt bs (int (length bs)) p s = Inr (q, t) \<and> sure_writer (W @ bs) t q" if "fits (length W + length bs)"
    using writer_raw [of W s p bs] w that by (auto simp: sure_writer_def)
  show "\<not> out_aliasing s"
    using w by (auto simp: sure_writer_def dest: writer_plain)
qed (rule fits_less)

section \<open>The end of the output\<close>

lemma writer_flush_loop:
  assumes "writer W s p" and "\<not> had_error s"
  shows "\<exists>r t. flush_loop vt p s = Some (Inr (r, t)) \<and>
    (case r of None \<Rightarrow> had_error t \<and> writer W t 0 \<and> \<not> fits (length W)
     | Some q \<Rightarrow> \<not> had_error t \<and> writer W t q \<and> (out_buffer_end t \<noteq> None \<longrightarrow> q \<le> out_end t))"
  using assms
proof (induction "nat (p - out_end s)" arbitrary: s p rule: less_induct)
  case less
  show ?case
  proof (cases "out_buffer_end s \<noteq> None \<and> out_end s < p")
    case True
    obtain t where t: "out_Next vt s = Inr (0, t)" "writer W t (p - out_end s)" "0 < out_end t"
        "had_error t \<Longrightarrow> out_end s < p \<Longrightarrow> \<not> fits (length W)"
      by (rule writer_Next [OF less.prems]) (use True in simp_all)
    show ?thesis
    proof (cases "had_error t")
      case err: True
      then have "writer W t 0"
        using t(2) by (simp add: stream_writer_def)
      then show ?thesis
        using True t(1,4) err by (subst flush_loop.simps) (auto simp: Let_def)
    next
      case False
      have "nat (p - out_end s - out_end t) < nat (p - out_end s)"
        using t(3) True by simp
      from less.hyps [OF this t(2) False] show ?thesis
        using True t(1) False by (subst flush_loop.simps) (simp add: Let_def)
    qed
  next
    case False
    then show ?thesis
      using less.prems by (subst flush_loop.simps) (auto simp: split: if_splits)
  qed
qed

text \<open>After \<open>Trim\<close> the stream holds what was written, and nothing else.\<close>

lemma writer_Trim:
  assumes w: "writer W s p"
  obtains q t where "Trim vt p s = Inr (q, t)" "writer W t q"
    "\<not> had_error t \<Longrightarrow> \<exists>z. out_stream t = Some z \<and> ok z \<and> content z = W" "no_room s t W"
proof (cases "had_error s")
  case True
  with w that show thesis
    by (simp add: Trim_def)
next
  case False
  obtain r u where u: "flush_loop vt p s = Some (Inr (r, u))"
    "case r of None \<Rightarrow> had_error u \<and> writer W u 0 \<and> \<not> fits (length W)
     | Some q \<Rightarrow> \<not> had_error u \<and> writer W u q \<and> (out_buffer_end u \<noteq> None \<longrightarrow> q \<le> out_end u)"
    using writer_flush_loop [OF w False] by blast
  let ?reset = "\<lambda>s z. s\<lparr>out_stream := z, out_block := [], in_patch := True, out_end := 0, out_buffer_end := Some 0\<rparr>"
  show thesis
  proof (cases r)
    case None
    then have e: "had_error u" "writer W u 0" "\<not> fits (length W)"
      using u(2) by auto
    then have "writer W (?reset u z) 0" for z
      by (auto simp: stream_writer_def)
    moreover have "\<exists>z. Trim vt p s = Inr (0, ?reset u z)"
      using False None u(1) by (cases "out_stream u") (auto simp: Trim_def out_Flush_def)
    ultimately show thesis
      using e(1,3) that by fastforce
  next
    case (Some q)
    then have no_err: "\<not> had_error u" and wu: "writer W u q" and q: "out_buffer_end u \<noteq> None \<longrightarrow> q \<le> out_end u"
      using u(2) by auto
    then obtain z where z: "out_stream u = Some z" "ok z" "length (out_block u) \<le> avail z" "out_shape u q"
        "W = out_written content u z q" "\<not> out_aliasing u" "length (out_patch u) = 32"
      by (auto simp: stream_writer_def)
    obtain n v where v: "out_Flush vt p s = Inr (n, v)" "out_stream v = Some z" "length (out_block v) = length (out_block u)"
        "0 \<le> n" "n \<le> int (length (out_block u))" "had_error v = had_error u" "out_aliasing v = out_aliasing u" "out_patch v = out_patch u"
        "W = take (length (content z) - length (out_block u)) (content z) @ take (length (out_block u) - nat n) (out_block v)"
    proof (cases "out_buffer_end u")
      case None
      then have "out_end u + 16 = int (length (out_block u))" "0 \<le> q" "q \<le> out_end u + 16"
        using z(4) by (simp_all add: out_shape_def)
      moreover from this have "length (out_block u) - nat (out_end u + 16 - q) = nat q"
        by linarith
      ultimately show ?thesis
        using that [of "out_end u + 16 - q" "u\<lparr>out_buffer_end := Some q\<rparr>"] u(1) Some None z(1,5)
        by (simp add: out_Flush_def out_written_def kSlopBytes_def)
    next
      case k: (Some k)
      then have sh: "0 \<le> k" "out_end u \<le> 16" "k + out_end u = int (length (out_block u))" "0 \<le> q" "q \<le> out_end u"
        using z(4) q by (simp_all add: out_shape_def)
      let ?block = "overwrite (out_block u) (nat k) (take (nat q) (out_patch u))"
      have l: "length (take (nat q) (out_patch u)) = nat q"
        using sh z(7) by simp
      have "load (out_patch u) 0 q = Inr (take (nat q) (out_patch u))" "put_at k (take (nat q) (out_patch u)) (out_block u) = Inr ?block"
        using sh z(7) by (simp_all add: load_def put_at_def)
      moreover have "length ?block = length (out_block u)"
        using sh l by simp
      moreover have "length (out_block u) - nat (out_end u - q) = nat k + nat q"
        using sh by linarith
      moreover have "take (nat k + nat q) ?block = take (nat k) (out_block u) @ take (nat q) (out_patch u)"
      proof -
        have "length (take (nat k) (out_block u)) = nat k"
          using sh by simp
        then show ?thesis
          using l by (simp add: overwrite_def)
      qed
      ultimately show ?thesis
        using that [of "out_end u - q" "u\<lparr>out_block := ?block, out_buffer_end := Some (k + q)\<rparr>"] u(1) Some k z(1,5) sh
        by (simp add: out_Flush_def out_written_def)
    qed
    have h: "ok (handed vt v z)" "avail (handed vt v z) = avail z"
        "content (handed vt v z) = take (length (content z) - length (out_block u)) (content z) @ out_block v"
      using handed_ok [of z v] z(2,3) v(3) by simp_all
    obtain z' where z': "Trim vt p s = Inr (0, ?reset v (Some z'))" "ok z'" "content z' = W"
    proof (cases "n = 0")
      case True
      then show ?thesis
        using that [of "handed vt v z"] h v False by (simp add: Trim_def)
    next
      case nz: False
      then have "0 < n" "n \<le> int (avail (handed vt v z))"
        using v(4,5) z(3) h(2) by auto
      from give_back [OF h(1) this] obtain z' where "OBackUp_of vt n (handed vt v z) = Inr z'" "ok z'"
          "content z' = take (length (content (handed vt v z)) - nat n) (content (handed vt v z))"
        by blast
      moreover have "content z' = W"
        using calculation(3) v(3,4,5,9) h(3) by (simp add: nat_le_iff)
      ultimately show ?thesis
        using that [of z'] nz v False by (simp add: Trim_def)
    qed
    moreover have "writer W (?reset v (Some z')) 0"
      using z' no_err v z by (simp add: stream_writer_def out_written_def out_shape_def)
    ultimately show thesis
      using that v(6) no_err by fastforce
  qed
qed

end

interpretation array_stream: eps_writer array_output_class "aout.sure_writer n" "\<lambda>k. k \<le> n" for n
  by (rule aout.sure_is_eps_writer)

interpretation string_stream: eps_writer "string_output_class reserve" "sout.sure_writer" "\<lambda>_. True" for reserve
  by (rule sout.sure_is_eps_writer)

end
