(* ===== verification/Pb_Serialize.thy ===== *)
theory Pb_Serialize
  imports Pb_Eps_Write Pb_Messages
begin

text \<open>
  Serialization: the writers of fields of \<open>EpsCopyOutputStream\<close> and \<open>WireFormatLite\<close>, of unknown fields
  (wire_format.cc) and of the messages of the program (Protocol.pb.cc), the sizes they rely on, and the
  entry points of message_lite.cc. A function that writes to a pointer with no check is the list
  of the bytes it writes. Sizes are natural numbers: a \<open>size_t\<close> holds the size of anything in memory.
\<close>

section \<open>Tags and numbers\<close>

definition WriteTagToArray :: "u32 \<Rightarrow> u32 \<Rightarrow> u8 list" where
  "WriteTagToArray number wire_type = UnsafeVarint (MakeTag number wire_type)"

definition WriteLittleEndianToArray :: "'a::len word \<Rightarrow> u8 list" where
  "WriteLittleEndianToArray v = map (\<lambda>i. ucast (drop_bit (8 * i) v)) [0..<LENGTH('a) div 8]"

definition WriteUInt32ToArray :: "u32 \<Rightarrow> u32 \<Rightarrow> u8 list" where
  "WriteUInt32ToArray number value = WriteTagToArray number 0 @ UnsafeVarint value"

definition WriteUInt64ToArray :: "u32 \<Rightarrow> u64 \<Rightarrow> u8 list" where
  "WriteUInt64ToArray number value = WriteTagToArray number 0 @ UnsafeVarint value"

definition WriteFixed32ToArray :: "u32 \<Rightarrow> u32 \<Rightarrow> u8 list" where
  "WriteFixed32ToArray number value = WriteTagToArray number 5 @ WriteLittleEndianToArray value"

definition WriteFixed64ToArray :: "u32 \<Rightarrow> u64 \<Rightarrow> u8 list" where
  "WriteFixed64ToArray number value = WriteTagToArray number 1 @ WriteLittleEndianToArray value"

text \<open>A float is kept as its bits, which \<open>EncodeFloat\<close> returns.\<close>

definition WriteFloatToArray :: "u32 \<Rightarrow> u32 \<Rightarrow> u8 list" where
  "WriteFloatToArray number value = WriteTagToArray number 5 @ WriteLittleEndianToArray value"

section \<open>Length-delimited fields\<close>

definition TagSize :: "u32 \<Rightarrow> int" where
  "TagSize tag =
     (if tag < push_bit 7 1 then 1
      else if tag < push_bit 14 1 then 2
      else if tag < push_bit 21 1 then 3
      else if tag < push_bit 28 1 then 4
      else 5)"

definition WriteTag :: "u32 \<Rightarrow> u32 \<Rightarrow> int \<Rightarrow> 's eps_output \<Rightarrow> (int \<times> 's eps_output) outcome" where
  "WriteTag num wt ptr s = emit (UnsafeVarint (push_bit 3 num OR wt)) ptr s"

definition WriteLengthDelim :: "u32 \<Rightarrow> u32 \<Rightarrow> int \<Rightarrow> 's eps_output \<Rightarrow> (int \<times> 's eps_output) outcome" where
  "WriteLengthDelim num n ptr s = and_then (WriteTag num 2 ptr s) (\<lambda>(ptr, s). emit (UnsafeWriteSize n) ptr s)"

definition WriteAliasedRaw ::
  "'s output_class \<Rightarrow> u8 list \<Rightarrow> int \<Rightarrow> int \<Rightarrow> 's eps_output \<Rightarrow> (int \<times> 's eps_output) outcome" where
  "WriteAliasedRaw vt data n ptr s =
     (if n < GetSize ptr s then out_WriteRaw vt data n ptr s
      else and_then (Trim vt ptr s) (\<lambda>(ptr, s). case out_stream s of
             None \<Rightarrow> Inl (Undefined ''null stream'')
           | Some z \<Rightarrow>
               and_then (load data 0 n) (\<lambda>bytes.
               and_then (OWriteAliasedRaw_of vt bytes (handed vt s z)) (\<lambda>(written, z).
                 let s = s\<lparr>out_stream := Some z\<rparr> in Inr (if written then (ptr, s) else out_Error s)))))"

definition WriteRawMaybeAliased ::
  "'s output_class \<Rightarrow> u8 list \<Rightarrow> int \<Rightarrow> int \<Rightarrow> 's eps_output \<Rightarrow> (int \<times> 's eps_output) outcome" where
  "WriteRawMaybeAliased vt data n ptr s =
     (if out_aliasing s then WriteAliasedRaw vt data n ptr s else out_WriteRaw vt data n ptr s)"

definition WriteStringOutline ::
  "'s output_class \<Rightarrow> u32 \<Rightarrow> u8 list \<Rightarrow> int \<Rightarrow> 's eps_output \<Rightarrow> (int \<times> 's eps_output) outcome" where
  "WriteStringOutline vt num str ptr s =
     and_then (EnsureSpace vt ptr s) (\<lambda>(ptr, s).
     let n = of_nat (length str) :: u32 in
     and_then (WriteLengthDelim num n ptr s) (\<lambda>(ptr, s). out_WriteRaw vt str (sint n) ptr s))"

definition WriteStringMaybeAliasedOutline ::
  "'s output_class \<Rightarrow> u32 \<Rightarrow> u8 list \<Rightarrow> int \<Rightarrow> 's eps_output \<Rightarrow> (int \<times> 's eps_output) outcome" where
  "WriteStringMaybeAliasedOutline vt num str ptr s =
     and_then (EnsureSpace vt ptr s) (\<lambda>(ptr, s).
     let n = of_nat (length str) :: u32 in
     and_then (WriteLengthDelim num n ptr s) (\<lambda>(ptr, s). WriteRawMaybeAliased vt str (sint n) ptr s))"

definition WriteString ::
  "'s output_class \<Rightarrow> u32 \<Rightarrow> u8 list \<Rightarrow> int \<Rightarrow> 's eps_output \<Rightarrow> (int \<times> 's eps_output) outcome" where
  "WriteString vt num str ptr s =
     (let n = int (length str) in
      if 128 \<le> n \<or> out_end s - ptr + 16 - TagSize (push_bit 3 num) - 1 < n
      then WriteStringOutline vt num str ptr s
      else and_then (emit (UnsafeVarint (push_bit 3 num OR 2)) ptr s) (\<lambda>(ptr, s).
           and_then (emit [of_int n] ptr s) (\<lambda>(ptr, s). emit str ptr s)))"

definition WriteStringMaybeAliased ::
  "'s output_class \<Rightarrow> u32 \<Rightarrow> u8 list \<Rightarrow> int \<Rightarrow> 's eps_output \<Rightarrow> (int \<times> 's eps_output) outcome" where
  "WriteStringMaybeAliased vt num str ptr s =
     (let n = int (length str) in
      if 128 \<le> n \<or> out_end s - ptr + 16 - TagSize (push_bit 3 num) - 1 < n
      then WriteStringMaybeAliasedOutline vt num str ptr s
      else and_then (emit (UnsafeVarint (push_bit 3 num OR 2)) ptr s) (\<lambda>(ptr, s).
           and_then (emit [of_int n] ptr s) (\<lambda>(ptr, s). emit str ptr s)))"

text \<open>The \<open>do\<close> loop reads the first element even when there is none.\<close>

fun packed_elements ::
  "'s output_class \<Rightarrow> ('v \<Rightarrow> 'w::len word) \<Rightarrow> 'v list \<Rightarrow> int \<Rightarrow> 's eps_output \<Rightarrow> (int \<times> 's eps_output) outcome" where
  "packed_elements vt encode [] ptr s = Inl (Undefined ''read behind the elements'')"
| "packed_elements vt encode (v # vs) ptr s =
     and_then (EnsureSpace vt ptr s) (\<lambda>(ptr, s).
     and_then (emit (UnsafeVarint (encode v)) ptr s) (\<lambda>(ptr, s).
       if vs = [] then Inr (ptr, s) else packed_elements vt encode vs ptr s))"

definition WriteVarintPacked ::
  "'s output_class \<Rightarrow> u32 \<Rightarrow> 'v list \<Rightarrow> int \<Rightarrow> ('v \<Rightarrow> 'w::len word) \<Rightarrow> int \<Rightarrow> 's eps_output \<Rightarrow> (int \<times> 's eps_output) outcome" where
  "WriteVarintPacked vt num r n encode ptr s =
     and_then (EnsureSpace vt ptr s) (\<lambda>(ptr, s).
     and_then (WriteLengthDelim num (of_int n) ptr s) (\<lambda>(ptr, s). packed_elements vt encode r ptr s))"

definition Encode64 :: "u64 \<Rightarrow> u64" where "Encode64 v = v"

definition WriteUInt64Packed ::
  "'s output_class \<Rightarrow> u32 \<Rightarrow> u64 list \<Rightarrow> int \<Rightarrow> int \<Rightarrow> 's eps_output \<Rightarrow> (int \<times> 's eps_output) outcome" where
  "WriteUInt64Packed vt num r n ptr s = WriteVarintPacked vt num r n Encode64 ptr s"

section \<open>Unknown fields\<close>

fun InternalSerializeUnknownFieldsToArray ::
  "'s output_class \<Rightarrow> unknown_field list \<Rightarrow> int \<Rightarrow> 's eps_output \<Rightarrow> (int \<times> 's eps_output) outcome" where
  "InternalSerializeUnknownFieldsToArray vt [] target s = Inr (target, s)"
| "InternalSerializeUnknownFieldsToArray vt (field # rest) target s =
     and_then (EnsureSpace vt target s) (\<lambda>(target, s).
     and_then
       (case field of
          TYPE_VARINT number v \<Rightarrow> emit (WriteUInt64ToArray number v) target s
        | TYPE_FIXED32 number v \<Rightarrow> emit (WriteFixed32ToArray number v) target s
        | TYPE_FIXED64 number v \<Rightarrow> emit (WriteFixed64ToArray number v) target s
        | TYPE_LENGTH_DELIMITED number v \<Rightarrow> WriteString vt number v target s
        | TYPE_GROUP number child \<Rightarrow>
            and_then (emit (WriteTagToArray number 3) target s) (\<lambda>(target, s).
            and_then (InternalSerializeUnknownFieldsToArray vt child target s) (\<lambda>(target, s).
            and_then (EnsureSpace vt target s) (\<lambda>(target, s). emit (WriteTagToArray number 4) target s))))
     (\<lambda>(target, s). InternalSerializeUnknownFieldsToArray vt rest target s))"

primrec unknown_field_size :: "unknown_field \<Rightarrow> nat" where
  "unknown_field_size (TYPE_VARINT number v) = VarintSize32 (MakeTag number 0) + VarintSize64 v"
| "unknown_field_size (TYPE_FIXED32 number v) = VarintSize32 (MakeTag number 5) + 4"
| "unknown_field_size (TYPE_FIXED64 number v) = VarintSize32 (MakeTag number 1) + 8"
| "unknown_field_size (TYPE_LENGTH_DELIMITED number v) =
     VarintSize32 (MakeTag number 2) + VarintSize32 (of_nat (length v)) + length v"
| "unknown_field_size (TYPE_GROUP number child) =
     VarintSize32 (MakeTag number 3) + sum_list (map unknown_field_size child) + VarintSize32 (MakeTag number 4)"

definition ComputeUnknownFieldsSize :: "unknown_field list \<Rightarrow> nat" where
  "ComputeUnknownFieldsSize unknown = sum_list (map unknown_field_size unknown)"

text \<open>\<open>ToCachedSize\<close> converts to \<open>int\<close>. The result is the size and the cached size. A set of unknown
  fields that has been allocated but is empty is treated as one that has not.\<close>

definition ToCachedSize :: "nat \<Rightarrow> int" where
  "ToCachedSize n = sint (of_nat n :: u32)"

definition MaybeComputeUnknownFieldsSize :: "nat \<Rightarrow> unknown_field list \<Rightarrow> nat \<times> int" where
  "MaybeComputeUnknownFieldsSize total_size unknown =
     (let total_size = (if unknown \<noteq> [] then total_size + ComputeUnknownFieldsSize unknown else total_size)
      in (total_size, ToCachedSize total_size))"

section \<open>Sizes of fields\<close>

definition UInt64Size :: "u64 list \<Rightarrow> nat" where
  "UInt64Size value = sum_list (map VarintSize64 value)"

definition Int32Size :: "u32 \<Rightarrow> nat" where
  "Int32Size value = VarintSize32SignExtended value"

definition LengthDelimitedSize :: "nat \<Rightarrow> nat" where
  "LengthDelimitedSize n = n + VarintSize32 (of_nat n)"

section \<open>BuffData\<close>

text \<open>\<open>ByteSizeLong\<close> returns the size and the message, whose cached sizes it sets.\<close>

definition BuffData_ByteSizeLong :: "buff_data \<Rightarrow> nat \<times> buff_data" where
  "BuffData_ByteSizeLong m =
     (let data_size = UInt64Size (victims m);
          total_size = (if 0 < data_size then 1 + Int32Size (of_nat data_size) else 0);
          m = m\<lparr>victims_cached_byte_size := ToCachedSize data_size\<rparr>;
          total_size = total_size + data_size;
          total_size = (if buffid m \<noteq> 0 then total_size + VarintSize64PlusOne (buffid m) else total_size);
          total_size = (if remaintime m \<noteq> 0 then total_size + (1 + 4) else total_size);
          (total_size, cached) = MaybeComputeUnknownFieldsSize total_size (buff_unknown m)
      in (total_size, m\<lparr>buff_cached_size := cached\<rparr>))"

definition BuffData_InternalSerialize ::
  "'s output_class \<Rightarrow> buff_data \<Rightarrow> int \<Rightarrow> 's eps_output \<Rightarrow> (int \<times> 's eps_output) outcome" where
  "BuffData_InternalSerialize vt m target s =
     and_then
       (if buffid m \<noteq> 0
        then and_then (EnsureSpace vt target s) (\<lambda>(target, s). emit (WriteUInt64ToArray 1 (buffid m)) target s)
        else Inr (target, s)) (\<lambda>(target, s).
     and_then
       (if remaintime m \<noteq> 0
        then and_then (EnsureSpace vt target s) (\<lambda>(target, s). emit (WriteFloatToArray 2 (remaintime m)) target s)
        else Inr (target, s)) (\<lambda>(target, s).
     and_then
       (if 0 < victims_cached_byte_size m
        then WriteUInt64Packed vt 3 (victims m) (victims_cached_byte_size m) target s
        else Inr (target, s)) (\<lambda>(target, s).
     if buff_unknown m \<noteq> [] then InternalSerializeUnknownFieldsToArray vt (buff_unknown m) target s else Inr (target, s))))"

section \<open>TEST_MSG\<close>

text \<open>\<open>InternalWriteMessage\<close> with the cached size of the message and its \<open>_InternalSerialize\<close>.\<close>

definition InternalWriteMessage ::
  "u32 \<Rightarrow> int \<Rightarrow> (int \<Rightarrow> 's eps_output \<Rightarrow> (int \<times> 's eps_output) outcome) \<Rightarrow> int \<Rightarrow> 's eps_output \<Rightarrow>
   (int \<times> 's eps_output) outcome" where
  "InternalWriteMessage number cached serialize target s =
     and_then (emit (WriteTagToArray number 2) target s) (\<lambda>(target, s).
     and_then (emit (WriteVarint32ToArrayOutOfLine (of_int cached)) target s) (\<lambda>(target, s). serialize target s))"

primrec write_buffs ::
  "'s output_class \<Rightarrow> buff_data list \<Rightarrow> int \<Rightarrow> 's eps_output \<Rightarrow> (int \<times> 's eps_output) outcome" where
  "write_buffs vt [] target s = Inr (target, s)"
| "write_buffs vt (b # bs) target s =
     and_then (EnsureSpace vt target s) (\<lambda>(target, s).
     and_then (InternalWriteMessage 4 (buff_cached_size b) (BuffData_InternalSerialize vt b) target s) (\<lambda>(target, s).
       write_buffs vt bs target s))"

definition TEST_MSG_ByteSizeLong :: "test_msg \<Rightarrow> nat \<times> test_msg" where
  "TEST_MSG_ByteSizeLong m =
     (let sized = map BuffData_ByteSizeLong (buffs m);
          m = m\<lparr>buffs := map snd sized\<rparr>;
          total_size = length sized + sum_list (map (\<lambda>(n, b). LengthDelimitedSize n) sized);
          total_size = (if msg m \<noteq> [] then total_size + (1 + LengthDelimitedSize (length (msg m))) else total_size);
          total_size = (if test_id m \<noteq> 0 then total_size + VarintSize64PlusOne (test_id m) else total_size);
          total_size = (if hp m \<noteq> 0 then total_size + VarintSize32PlusOne (hp m) else total_size);
          total_size = (if attack m \<noteq> 0 then total_size + VarintSize32PlusOne (attack m) else total_size);
          (total_size, cached) = MaybeComputeUnknownFieldsSize total_size (test_unknown m)
      in (total_size, m\<lparr>test_cached_size := cached\<rparr>))"

text \<open>\<open>VerifyUtf8String\<close> on a string to be serialized only logs, so it has no part here.\<close>

definition TEST_MSG_InternalSerialize ::
  "'s output_class \<Rightarrow> test_msg \<Rightarrow> int \<Rightarrow> 's eps_output \<Rightarrow> (int \<times> 's eps_output) outcome" where
  "TEST_MSG_InternalSerialize vt m target s =
     and_then
       (if test_id m \<noteq> 0
        then and_then (EnsureSpace vt target s) (\<lambda>(target, s). emit (WriteUInt64ToArray 1 (test_id m)) target s)
        else Inr (target, s)) (\<lambda>(target, s).
     and_then
       (if hp m \<noteq> 0
        then and_then (EnsureSpace vt target s) (\<lambda>(target, s). emit (WriteUInt32ToArray 2 (hp m)) target s)
        else Inr (target, s)) (\<lambda>(target, s).
     and_then
       (if attack m \<noteq> 0
        then and_then (EnsureSpace vt target s) (\<lambda>(target, s). emit (WriteUInt32ToArray 3 (attack m)) target s)
        else Inr (target, s)) (\<lambda>(target, s).
     and_then (write_buffs vt (buffs m) target s) (\<lambda>(target, s).
     and_then (if msg m \<noteq> [] then WriteStringMaybeAliased vt 5 (msg m) target s else Inr (target, s)) (\<lambda>(target, s).
     if test_unknown m \<noteq> [] then InternalSerializeUnknownFieldsToArray vt (test_unknown m) target s
     else Inr (target, s))))))"

section \<open>Entry points\<close>

text \<open>
  A message is given by its \<open>ByteSizeLong\<close>, which returns the message to serialize, and its
  \<open>_InternalSerialize\<close>. \<open>junk\<close> is what \<open>buffer_\<close>, which is not initialised, holds. The array is
  handed over as \<open>memory\<close> and returned as it is afterwards; the class of the stream, which an
  array does not have, is never used.
\<close>

definition SerializeToArrayImpl ::
  "u8 list \<Rightarrow> (int \<Rightarrow> 's eps_output \<Rightarrow> (int \<times> 's eps_output) outcome) \<Rightarrow> u8 list \<Rightarrow> int \<Rightarrow>
   (int \<times> u8 list) outcome" where
  "SerializeToArrayImpl junk serialize memory n =
     and_then (serialize 0 (EpsCopyOutputStream_array junk memory n)) (\<lambda>(res, s). Inr (res, out_block s))"

definition SerializePartialToArray ::
  "u8 list \<Rightarrow> nat \<Rightarrow> (int \<Rightarrow> 's eps_output \<Rightarrow> (int \<times> 's eps_output) outcome) \<Rightarrow> u8 list \<Rightarrow> int \<Rightarrow> (bool \<times> u8 list) outcome" where
  "SerializePartialToArray junk byte_size serialize memory n =
     (if INT_MAX < int byte_size then Inr (False, memory)
      else if n < int byte_size then Inr (False, memory)
      else and_then (SerializeToArrayImpl junk serialize memory (int byte_size)) (\<lambda>(res, memory). Inr (True, memory)))"

text \<open>The string grows by \<open>byte_size\<close> bytes, here zeros, before they are written.\<close>

definition AppendPartialToString ::
  "u8 list \<Rightarrow> nat \<Rightarrow> (int \<Rightarrow> 's eps_output \<Rightarrow> (int \<times> 's eps_output) outcome) \<Rightarrow> u8 list \<Rightarrow> (bool \<times> u8 list) outcome" where
  "AppendPartialToString junk byte_size serialize str =
     (if INT_MAX < int byte_size then Inr (False, str)
      else and_then (SerializeToArrayImpl junk serialize (replicate byte_size 0) (int byte_size)) (\<lambda>(res, memory).
        Inr (True, str @ memory)))"

definition SerializePartialToZeroCopyStream ::
  "'s output_class \<Rightarrow> u8 list \<Rightarrow> nat \<Rightarrow> (int \<Rightarrow> 's eps_output \<Rightarrow> (int \<times> 's eps_output) outcome) \<Rightarrow> 's \<Rightarrow>
   (bool \<times> 's option) outcome" where
  "SerializePartialToZeroCopyStream vt junk byte_size serialize z =
     (if INT_MAX < int byte_size then Inr (False, Some z)
      else let (target, s) = EpsCopyOutputStream junk z in
        and_then (serialize target s) (\<lambda>(target, s).
        and_then (Trim vt target s) (\<lambda>(target, s). Inr (\<not> had_error s, out_stream s))))"

text \<open>The methods of \<open>TEST_MSG\<close>; each returns the message with its cached sizes as well. They have no
  required fields, so the partial methods are the whole ones.\<close>

definition TEST_MSG_SerializeToArray ::
  "u8 list \<Rightarrow> test_msg \<Rightarrow> u8 list \<Rightarrow> int \<Rightarrow> ((bool \<times> u8 list) \<times> test_msg) outcome" where
  "TEST_MSG_SerializeToArray junk m memory n =
     (let (byte_size, m) = TEST_MSG_ByteSizeLong m in
      and_then (SerializePartialToArray junk byte_size (TEST_MSG_InternalSerialize array_output_class m) memory n) (\<lambda>r. Inr (r, m)))"

definition TEST_MSG_SerializeAsString :: "u8 list \<Rightarrow> test_msg \<Rightarrow> (u8 list \<times> test_msg) outcome" where
  "TEST_MSG_SerializeAsString junk m =
     (let (byte_size, m) = TEST_MSG_ByteSizeLong m in
      and_then (AppendPartialToString junk byte_size (TEST_MSG_InternalSerialize array_output_class m) []) (\<lambda>(appended, output).
        Inr (if appended then output else [], m)))"

definition TEST_MSG_SerializeToZeroCopyStream ::
  "'s output_class \<Rightarrow> u8 list \<Rightarrow> test_msg \<Rightarrow> 's \<Rightarrow> ((bool \<times> 's option) \<times> test_msg) outcome" where
  "TEST_MSG_SerializeToZeroCopyStream vt junk m z =
     (let (byte_size, m) = TEST_MSG_ByteSizeLong m in
      and_then (SerializePartialToZeroCopyStream vt junk byte_size (TEST_MSG_InternalSerialize vt m) z) (\<lambda>r. Inr (r, m)))"

end
