(* ===== verification/Pb_Serialize_Exact.thy ===== *)
theory Pb_Serialize_Exact
  imports Pb_Serialize
begin

text \<open>
  What the serializers write. \<open>encode_unknown\<close>, \<open>encode_buff\<close> and \<open>encode_test\<close> say which bytes a value
  stands for; the computed sizes are the lengths of these, and every output that satisfies
  \<open>eps_writer\<close> ends with exactly these bytes, however its memory is divided.
\<close>

section \<open>Reference\<close>

definition tag_bytes :: "u32 \<Rightarrow> u32 \<Rightarrow> u8 list" where
  "tag_bytes number wire_type = varint_bytes (unat (MakeTag number wire_type))"

primrec encode_unknown :: "unknown_field \<Rightarrow> u8 list" where
  "encode_unknown (TYPE_VARINT number v) = tag_bytes number 0 @ varint_bytes (unat v)"
| "encode_unknown (TYPE_FIXED32 number v) = tag_bytes number 5 @ WriteLittleEndianToArray v"
| "encode_unknown (TYPE_FIXED64 number v) = tag_bytes number 1 @ WriteLittleEndianToArray v"
| "encode_unknown (TYPE_LENGTH_DELIMITED number v) = tag_bytes number 2 @ varint_bytes (length v) @ v"
| "encode_unknown (TYPE_GROUP number child) = tag_bytes number 3 @ concat (map encode_unknown child) @ tag_bytes number 4"

definition encode_unknowns :: "unknown_field list \<Rightarrow> u8 list" where
  "encode_unknowns us = concat (map encode_unknown us)"

definition encode_numbers :: "u64 list \<Rightarrow> u8 list" where
  "encode_numbers vs = concat (map (\<lambda>v. varint_bytes (unat v)) vs)"

definition encode_buff :: "buff_data \<Rightarrow> u8 list" where
  "encode_buff m =
     (if buffid m \<noteq> 0 then tag_bytes 1 0 @ varint_bytes (unat (buffid m)) else []) @
     (if remaintime m \<noteq> 0 then tag_bytes 2 5 @ WriteLittleEndianToArray (remaintime m) else []) @
     (if victims m \<noteq> [] then tag_bytes 3 2 @ varint_bytes (length (encode_numbers (victims m))) @ encode_numbers (victims m) else []) @
     encode_unknowns (buff_unknown m)"

definition encode_buffs :: "buff_data list \<Rightarrow> u8 list" where
  "encode_buffs bs = concat (map (\<lambda>b. tag_bytes 4 2 @ varint_bytes (length (encode_buff b)) @ encode_buff b) bs)"

definition encode_test :: "test_msg \<Rightarrow> u8 list" where
  "encode_test m =
     (if test_id m \<noteq> 0 then tag_bytes 1 0 @ varint_bytes (unat (test_id m)) else []) @
     (if hp m \<noteq> 0 then tag_bytes 2 0 @ varint_bytes (unat (hp m)) else []) @
     (if attack m \<noteq> 0 then tag_bytes 3 0 @ varint_bytes (unat (attack m)) else []) @
     encode_buffs (buffs m) @
     (if msg m \<noteq> [] then tag_bytes 5 2 @ varint_bytes (length (msg m)) @ msg m else []) @
     encode_unknowns (test_unknown m)"

section \<open>Lengths\<close>

lemma varint_bytes_nonempty [simp]: "varint_bytes n \<noteq> []"
  by (simp add: varint_bytes.simps [of n])

lemma varint_bytes_length_le: "n < 2 ^ (7 * k) \<Longrightarrow> 0 < k \<Longrightarrow> length (varint_bytes n) \<le> k"
  using varint_bytes_len [of n k "[]"] varint_len_bounds [of k "varint_bytes n"] by auto

lemma length_varint_u32: "length (varint_bytes (unat (v :: u32))) \<le> 5"
  by (rule varint_bytes_length_le, rule order_less_trans [OF unsigned_less]) simp_all

lemma length_varint_u64: "length (varint_bytes (unat (v :: u64))) \<le> 10"
  by (rule varint_bytes_length_le, rule order_less_trans [OF unsigned_less]) simp_all

lemma length_tag_bytes: "length (tag_bytes number wt) \<le> 5" "tag_bytes number wt \<noteq> []"
  by (simp_all add: tag_bytes_def length_varint_u32)

lemma length_LittleEndian [simp]: "length (WriteLittleEndianToArray (v :: 'a::len word)) = LENGTH('a) div 8"
  by (simp add: WriteLittleEndianToArray_def)

lemma WriteTagToArray_bytes: "WriteTagToArray number wt = tag_bytes number wt"
  by (simp add: WriteTagToArray_def tag_bytes_def UnsafeVarint_bytes)

lemmas writer_bytes = WriteUInt32ToArray_def WriteUInt64ToArray_def WriteFixed32ToArray_def WriteFixed64ToArray_def
  WriteFloatToArray_def WriteTagToArray_bytes UnsafeVarint_bytes

lemma shifted_or:
  assumes "unat (wt :: u32) < 8"
  shows "unat (push_bit 3 number OR wt) = unat (push_bit 3 number) + unat wt"
proof -
  have "unat (push_bit 3 number OR wt) = or (unat (push_bit 3 number)) (unat wt)"
    by (simp add: unsigned_or_eq)
  also have "\<dots> = unat (push_bit 3 number) + unat wt"
  proof (rule disjunctive_add [symmetric])
    fix n
    show "\<not> bit (unat (push_bit 3 number)) n \<or> \<not> bit (unat wt) n"
    proof (cases "n < 3")
      case True
      then show ?thesis
        by (simp add: bit_unsigned_iff bit_push_bit_iff)
    next
      case False
      then have "(2 :: nat) ^ 3 \<le> 2 ^ n"
        by (intro power_increasing) auto
      then show ?thesis
        using assms by (simp add: bit_iff_odd)
    qed
  qed
  finally show ?thesis .
qed

lemma TagSize_length: "int (length (tag_bytes number 2)) \<le> TagSize (push_bit 3 number)"
proof -
  let ?t = "push_bit 3 number"
  have e: "unat (MakeTag number 2) = unat ?t + 2"
    unfolding MakeTag_def by (subst shifted_or) simp_all
  have "unat ?t = take_bit 32 (push_bit 3 (unat number))"
    by (simp add: unsigned_push_bit_eq)
  also have "\<dots> = 8 * take_bit 29 (unat number)"
    by (simp only: take_bit_push_bit) (simp add: push_bit_eq_mult)
  finally obtain q where q: "unat ?t = 8 * q" ..
  have "length (varint_bytes (8 * q + 2)) \<le> k" if "8 * q + 2 < 2 ^ (7 * k)" "0 < k" for k
    using varint_bytes_length_le [OF that] .
  from this [of 1] this [of 2] this [of 3] this [of 4] show ?thesis
    using length_tag_bytes(1) [of number 2] unfolding tag_bytes_def e TagSize_def word_less_nat_alt q
    by (simp add: push_bit_eq_mult)
qed

section \<open>Sizes\<close>

text \<open>A computed size agrees with a length when they are equal or both above \<open>INT_MAX\<close>: beyond that the sizes
  of lengths are computed from truncated values.\<close>

definition agrees :: "nat \<Rightarrow> nat \<Rightarrow> bool" where
  "agrees n l \<longleftrightarrow> n = l \<or> (INT_MAX < int n \<and> INT_MAX < int l)"

lemma agrees_refl [simp]: "agrees n n"
  by (simp add: agrees_def)

lemma agrees_add: "agrees a b \<Longrightarrow> agrees c d \<Longrightarrow> agrees (a + c) (b + d)"
  by (auto simp: agrees_def)

lemma agrees_sum: "list_all2 agrees xs ys \<Longrightarrow> agrees (sum_list xs) (sum_list ys)"
  by (induction rule: list_all2_induct) (auto intro: agrees_add)

lemma agrees_Suc: "agrees a b \<Longrightarrow> agrees (Suc a) (Suc b)"
  by (auto simp: agrees_def)

lemma VarintSize32_nat: "int n \<le> INT_MAX \<Longrightarrow> VarintSize32 (of_nat n) = length (varint_bytes n)"
  by (simp add: VarintSize32_length unat_of_nat INT_MAX_def)

lemma VarintSize64_nat: "VarintSize64 v = length (varint_bytes (unat v))"
  by (rule VarintSize64_length)

lemma VarintSize32PlusOne_length: "VarintSize32PlusOne v = Suc (length (varint_bytes (unat v)))"
proof -
  have "bit_scan_reverse (unat v) < 64"
    by (rule less_trans [OF bit_scan_reverse_width [of _ 32]]) (use unsigned_less [of v] in simp_all)
  then show ?thesis
    by (simp only: VarintSize32PlusOne_def Let_def unsigned_or_eq unsigned_1 bit_scan_reverse_or_1 size_formula length_varint_bytes_all)
qed

lemma VarintSize64PlusOne_length: "VarintSize64PlusOne v = Suc (length (varint_bytes (unat v)))"
proof -
  have "bit_scan_reverse (unat v) < 64"
    by (rule bit_scan_reverse_width) (use unsigned_less [of v] in simp_all)
  then show ?thesis
    by (simp only: VarintSize64PlusOne_def Let_def unsigned_or_eq unsigned_1 bit_scan_reverse_or_1 size_formula length_varint_bytes_all)
qed

lemma tag_size: "VarintSize32 (MakeTag number wt) = length (tag_bytes number wt)"
  by (simp add: tag_bytes_def VarintSize32_length)

lemma agrees_sized: "agrees (VarintSize32 (of_nat n) + n) (length (varint_bytes n) + n)"
  by (cases "int n \<le> INT_MAX") (auto simp: agrees_def VarintSize32_nat)

lemma unknown_field_size_length: "agrees (unknown_field_size u) (length (encode_unknown u))"
proof (induction u)
  case (TYPE_LENGTH_DELIMITED number v)
  then show ?case
    using agrees_add [OF agrees_refl agrees_sized, of "length (tag_bytes number 2)" "length v"] by (simp add: tag_size add.assoc)
next
  case (TYPE_GROUP number child)
  have "list_all2 agrees (map unknown_field_size child) (map (length \<circ> encode_unknown) child)"
    using TYPE_GROUP.IH by (auto simp: list_all2_conv_all_nth)
  then have "agrees (sum_list (map unknown_field_size child)) (length (concat (map encode_unknown child)))"
    by (simp add: length_concat agrees_sum)
  then show ?case
    by (simp add: tag_size add.assoc agrees_add)
qed (simp_all add: tag_size VarintSize64_nat)

lemma ComputeUnknownFieldsSize_length: "agrees (ComputeUnknownFieldsSize us) (length (encode_unknowns us))"
  unfolding ComputeUnknownFieldsSize_def encode_unknowns_def length_concat
  by (rule agrees_sum) (simp add: list_all2_conv_all_nth unknown_field_size_length)

lemma sint_nat: "int n \<le> INT_MAX \<Longrightarrow> sint (of_nat n :: u32) = int n"
  by (simp add: INT_MAX_def signed_of_nat signed_take_bit_int_eq_self)

lemma ToCachedSize_nat: "int n \<le> INT_MAX \<Longrightarrow> ToCachedSize n = int n"
  by (simp add: ToCachedSize_def sint_nat)

lemma Int32Size_nat: "int n \<le> INT_MAX \<Longrightarrow> Int32Size (of_nat n) = length (varint_bytes n)"
proof -
  assume n: "int n \<le> INT_MAX"
  then have "(scast (of_nat n :: u32) :: u64) = of_nat n"
    by (metis n of_int_of_nat_eq sint_nat scast_eq)
  moreover have "unat (of_nat n :: u64) = n"
    using n by (simp add: unat_of_nat INT_MAX_def)
  ultimately show ?thesis
    by (simp add: Int32Size_def VarintSize32SignExtended_def VarintSize64_length)
qed

lemma agrees_packed: "agrees (Int32Size (of_nat n) + n) (length (varint_bytes n) + n)"
  by (cases "int n \<le> INT_MAX") (auto simp: agrees_def Int32Size_nat)

lemma UInt64Size_length: "UInt64Size vs = length (encode_numbers vs)"
  by (induction vs) (simp_all add: UInt64Size_def encode_numbers_def VarintSize64_length)

definition buff_sized :: "buff_data \<Rightarrow> buff_data" where
  "buff_sized m = m\<lparr>victims_cached_byte_size := int (length (encode_numbers (victims m))), buff_cached_size := int (length (encode_buff m))\<rparr>"

definition test_sized :: "test_msg \<Rightarrow> test_msg" where
  "test_sized m = m\<lparr>buffs := map buff_sized (buffs m), test_cached_size := int (length (encode_test m))\<rparr>"

lemma encode_numbers_Nil [simp]: "encode_numbers [] = []"
  by (simp add: encode_numbers_def)

lemma encode_numbers_empty [simp]: "encode_numbers vs = [] \<longleftrightarrow> vs = []"
  by (cases vs) (simp_all add: encode_numbers_def)

lemma encode_unknowns_Nil [simp]: "encode_unknowns [] = []"
  by (simp add: encode_unknowns_def)

lemma MaybeComputeUnknownFieldsSize_eq:
  "MaybeComputeUnknownFieldsSize n us = (n + ComputeUnknownFieldsSize us, ToCachedSize (n + ComputeUnknownFieldsSize us))"
  by (simp add: MaybeComputeUnknownFieldsSize_def ComputeUnknownFieldsSize_def Let_def)

lemma tag_one: "length (tag_bytes 1 0) = 1" "length (tag_bytes 2 5) = 1" "length (tag_bytes 3 2) = 1" "length (tag_bytes 2 0) = 1"
  "length (tag_bytes 3 0) = 1" "length (tag_bytes 4 2) = 1" "length (tag_bytes 5 2) = 1"
  by (code_simp+)

definition buff_size :: "buff_data \<Rightarrow> nat" where
  "buff_size m =
     (if buffid m \<noteq> 0 then 1 + length (varint_bytes (unat (buffid m))) else 0) +
     ((if remaintime m \<noteq> 0 then 5 else 0) +
     ((if victims m \<noteq> []
       then 1 + (Int32Size (of_nat (length (encode_numbers (victims m)))) + length (encode_numbers (victims m))) else 0) +
     ComputeUnknownFieldsSize (buff_unknown m)))"

lemma BuffData_ByteSizeLong_eq:
  "BuffData_ByteSizeLong m =
    (buff_size m, m\<lparr>victims_cached_byte_size := ToCachedSize (length (encode_numbers (victims m))), buff_cached_size := ToCachedSize (buff_size m)\<rparr>)"
  by (simp add: BuffData_ByteSizeLong_def buff_size_def UInt64Size_length MaybeComputeUnknownFieldsSize_eq VarintSize64PlusOne_length
      Let_def ac_simps)

lemma buff_size_length: "agrees (buff_size m) (length (encode_buff m))"
proof -
  have "agrees (if victims m \<noteq> [] then 1 + (Int32Size (of_nat (length (encode_numbers (victims m)))) + length (encode_numbers (victims m))) else 0)
     (length (if victims m \<noteq> [] then tag_bytes 3 2 @ varint_bytes (length (encode_numbers (victims m))) @ encode_numbers (victims m) else []))"
    using agrees_Suc [OF agrees_packed] by (simp add: tag_one)
  then show ?thesis
    unfolding buff_size_def encode_buff_def length_append
    by (intro agrees_add ComputeUnknownFieldsSize_length) (simp_all add: tag_one)
qed

text \<open>Within the limit the caches are exact.\<close>

lemma agrees_small: "agrees n l \<Longrightarrow> int l \<le> INT_MAX \<Longrightarrow> n = l"
  by (auto simp: agrees_def)

lemma BuffData_ByteSizeLong_exact:
  assumes "int (length (encode_buff m)) \<le> INT_MAX"
  shows "BuffData_ByteSizeLong m = (length (encode_buff m), buff_sized m)"
proof -
  have "length (encode_numbers (victims m)) \<le> length (encode_buff m)"
    by (simp add: encode_buff_def)
  with assms agrees_small [OF buff_size_length assms] show ?thesis
    by (simp add: BuffData_ByteSizeLong_eq buff_sized_def ToCachedSize_nat)
qed

definition test_size :: "test_msg \<Rightarrow> nat" where
  "test_size m =
     (if test_id m \<noteq> 0 then 1 + length (varint_bytes (unat (test_id m))) else 0) +
     ((if hp m \<noteq> 0 then 1 + length (varint_bytes (unat (hp m))) else 0) +
     ((if attack m \<noteq> 0 then 1 + length (varint_bytes (unat (attack m))) else 0) +
     (sum_list (map (\<lambda>b. 1 + LengthDelimitedSize (buff_size b)) (buffs m)) +
     ((if msg m \<noteq> [] then 1 + LengthDelimitedSize (length (msg m)) else 0) +
     ComputeUnknownFieldsSize (test_unknown m)))))"

lemma TEST_MSG_ByteSizeLong_eq:
  "TEST_MSG_ByteSizeLong m =
    (test_size m, m\<lparr>buffs := map (snd \<circ> BuffData_ByteSizeLong) (buffs m), test_cached_size := ToCachedSize (test_size m)\<rparr>)"
proof -
  have "sum_list (map (\<lambda>b. Suc (f b)) bs) = length bs + sum_list (map f bs)" for f :: "buff_data \<Rightarrow> nat" and bs
    by (induction bs) simp_all
  then show ?thesis
    by (simp add: TEST_MSG_ByteSizeLong_def test_size_def MaybeComputeUnknownFieldsSize_eq VarintSize64PlusOne_length
        VarintSize32PlusOne_length BuffData_ByteSizeLong_eq Let_def comp_def ac_simps)
qed

lemma agrees_delimited: "agrees n l \<Longrightarrow> agrees (LengthDelimitedSize n) (length (varint_bytes l) + l)"
  by (cases "int n \<le> INT_MAX") (auto simp: agrees_def LengthDelimitedSize_def VarintSize32_nat)

lemma test_size_length: "agrees (test_size m) (length (encode_test m))"
proof -
  have "agrees (sum_list (map (\<lambda>b. 1 + LengthDelimitedSize (buff_size b)) (buffs m))) (length (encode_buffs (buffs m)))"
    unfolding encode_buffs_def length_concat
    by (rule agrees_sum)
       (use agrees_Suc [OF agrees_delimited [OF buff_size_length]] in \<open>simp add: list_all2_conv_all_nth tag_one\<close>)
  moreover have "agrees (if msg m \<noteq> [] then 1 + LengthDelimitedSize (length (msg m)) else 0)
      (length (if msg m \<noteq> [] then tag_bytes 5 2 @ varint_bytes (length (msg m)) @ msg m else []))"
    using agrees_Suc [OF agrees_delimited [OF agrees_refl]] by (simp add: tag_one)
  ultimately show ?thesis
    unfolding test_size_def encode_test_def length_append
    by (intro agrees_add ComputeUnknownFieldsSize_length) (simp_all add: tag_one)
qed

lemma encode_buffs_part: "b \<in> set bs \<Longrightarrow> length (encode_buff b) \<le> length (encode_buffs bs)"
  unfolding encode_buffs_def by (induction bs) auto

lemma encode_test_parts:
  "length (encode_buffs (buffs m)) \<le> length (encode_test m)" "length (msg m) \<le> length (encode_test m)"
  "length (encode_unknowns (test_unknown m)) \<le> length (encode_test m)"
  by (simp_all add: encode_test_def)

lemma TEST_MSG_ByteSizeLong_exact:
  assumes "int (length (encode_test m)) \<le> INT_MAX"
  shows "TEST_MSG_ByteSizeLong m = (length (encode_test m), test_sized m)"
proof -
  have "BuffData_ByteSizeLong b = (length (encode_buff b), buff_sized b)" if "b \<in> set (buffs m)" for b
    by (rule BuffData_ByteSizeLong_exact) (use encode_buffs_part [OF that] encode_test_parts(1) [of m] assms in linarith)
  then show ?thesis
    using agrees_small [OF test_size_length assms] assms
    by (simp add: TEST_MSG_ByteSizeLong_eq test_sized_def ToCachedSize_nat cong: map_cong)
qed

end
