(* ===== verification/Pb_Serialize_Write.thy ===== *)
theory Pb_Serialize_Write
  imports Pb_Serialize_Exact
begin

text \<open>
  Every output that satisfies \<open>eps_writer\<close> receives exactly the reference encoding from the serializers:
  first the fields, then the unknown fields at any depth, then the messages.
\<close>

lemma unknown_fields_induct:
  assumes "P []" and "\<And>u us. P us \<Longrightarrow> (\<And>number child. u = TYPE_GROUP number child \<Longrightarrow> P child) \<Longrightarrow> P (u # us)"
  shows "P us"
proof (induction "size_list size us" arbitrary: us rule: less_induct)
  case less
  show ?case
  proof (cases us)
    case (Cons u rest)
    show ?thesis
      unfolding Cons
    proof (rule assms(2))
      show "P rest"
        by (rule less.hyps) (simp add: Cons)
      show "P child" if "u = TYPE_GROUP number child" for number child
        by (rule less.hyps) (simp add: Cons that)
    qed
  qed (use assms(1) in simp)
qed

lemma encode_unknowns_Cons: "encode_unknowns (u # us) = encode_unknown u @ encode_unknowns us"
  by (simp add: encode_unknowns_def)

lemma encode_buffs_Cons: "encode_buffs (b # bs) = tag_bytes 4 2 @ varint_bytes (length (encode_buff b)) @ encode_buff b @ encode_buffs bs"
  by (simp add: encode_buffs_def)

lemma encode_buffs_Nil [simp]: "encode_buffs [] = []"
  by (simp add: encode_buffs_def)

context eps_writer
begin

abbreviation yields :: "u8 list \<Rightarrow> (int \<times> 's eps_output) outcome \<Rightarrow> bool" where
  "yields W r \<equiv> \<exists>q t. r = Inr (q, t) \<and> wrote W t q"

lemma yields_then:
  assumes "yields W r" and "\<And>p s. wrote W s p \<Longrightarrow> yields W' (f p s)"
  shows "yields W' (and_then r (\<lambda>(p, s). f p s))"
  using assms by auto

lemma yields_if:
  assumes "wrote W s p" and "c \<Longrightarrow> yields (W @ bs) r"
  shows "yields (W @ (if c then bs else [])) (if c then r else Inr (p, s))"
  using assms by auto

lemma ensure_emit:
  assumes "wrote W s p" and "fits (length W + length bs)" and "bs \<noteq> []" "length bs \<le> 16"
  shows "\<exists>q t. and_then (EnsureSpace vt p s) (\<lambda>(p, s). emit bs p s) = Inr (q, t) \<and> wrote (W @ bs) t q \<and>
    q \<le> out_end t + int (length bs)"
proof -
  have "fits (Suc (length W))"
    by (rule fits_less [OF assms(2)]) (use assms(3) in \<open>cases bs; simp\<close>)
  from ensure [OF assms(1) this] obtain q t where t: "EnsureSpace vt p s = Inr (q, t)" "wrote W t q" "q \<le> out_end t"
    by blast
  with emit [OF t(2) assms(2)] assms(4) show ?thesis
    by auto
qed

lemma ensure_emit_yields:
  assumes "wrote W s p" and "fits (length W + length bs)" and "bs \<noteq> []" "length bs \<le> 16"
  shows "yields (W @ bs) (and_then (EnsureSpace vt p s) (\<lambda>(p, s). emit bs p s))"
  using ensure_emit [OF assms] by auto

section \<open>Strings and packed numbers\<close>

lemma WriteLengthDelim_yields:
  assumes "wrote W s p" and "p \<le> out_end s" and "fits (length W + length (tag_bytes num 2 @ varint_bytes (unat n)))"
  shows "yields (W @ tag_bytes num 2 @ varint_bytes (unat n)) (WriteLengthDelim num n p s)"
proof -
  have f: "fits (length W + length (tag_bytes num 2))"
    by (rule fits_less [OF assms(3)]) simp
  have "p + int (length (tag_bytes num 2)) \<le> out_end s + 16"
    using assms(2) length_tag_bytes(1) [of num 2] by simp
  from emit [OF assms(1) f this] obtain t where t: "emit (tag_bytes num 2) p s = Inr (p + int (length (tag_bytes num 2)), t)"
      "wrote (W @ tag_bytes num 2) t (p + int (length (tag_bytes num 2)))" "out_end t = out_end s"
    by blast
  have "p + int (length (tag_bytes num 2)) + int (length (varint_bytes (unat n))) \<le> out_end t + 16"
    using assms(2) t(3) length_tag_bytes(1) [of num 2] length_varint_u32 [of n] by simp
  from emit [OF t(2) _ this] assms(3) t(1) show ?thesis
    by (auto simp: WriteLengthDelim_def WriteTag_def UnsafeVarint_bytes UnsafeWriteSize_bytes tag_bytes_def MakeTag_def add.assoc)
qed

lemma unat_size: "int n \<le> INT_MAX \<Longrightarrow> unat (of_nat n :: u32) = n"
  by (simp add: unat_of_nat INT_MAX_def)

lemma WriteStringOutline_yields:
  assumes w: "wrote W s p" and i: "int (length str) \<le> INT_MAX"
    and f: "fits (length W + length (tag_bytes num 2 @ varint_bytes (length str) @ str))"
  shows "yields (W @ tag_bytes num 2 @ varint_bytes (length str) @ str) (WriteStringOutline vt num str p s) \<and>
    WriteStringMaybeAliasedOutline vt num str p s = WriteStringOutline vt num str p s"
proof -
  have "fits (Suc (length W))"
    by (rule fits_less [OF f]) (use length_tag_bytes(2) [of num 2] in \<open>cases "tag_bytes num 2"; simp\<close>)
  from ensure [OF w this] obtain q t where t: "EnsureSpace vt p s = Inr (q, t)" "wrote W t q" "q \<le> out_end t"
    by blast
  have "fits (length W + length (tag_bytes num 2 @ varint_bytes (unat (of_nat (length str) :: u32))))"
    by (rule fits_less [OF f]) (simp add: unat_size [OF i])
  from WriteLengthDelim_yields [OF t(2,3) this] obtain r u where u: "WriteLengthDelim num (of_nat (length str)) q t = Inr (r, u)"
      "wrote (W @ tag_bytes num 2 @ varint_bytes (length str)) u r"
    by (auto simp: unat_size [OF i])
  from raw [OF u(2), of str] f show ?thesis
    using t(1) u(1) plain [OF u(2)]
    by (simp add: WriteStringOutline_def WriteStringMaybeAliasedOutline_def WriteRawMaybeAliased_def Let_def sint_nat [OF i] add.assoc)
qed

lemma WriteString_yields:
  assumes w: "wrote W s p" and i: "int (length str) \<le> INT_MAX"
    and f: "fits (length W + length (tag_bytes num 2 @ varint_bytes (length str) @ str))"
  shows "yields (W @ tag_bytes num 2 @ varint_bytes (length str) @ str) (WriteString vt num str p s)"
proof (cases "128 \<le> int (length str) \<or> out_end s - p + 16 - TagSize (push_bit 3 num) - 1 < int (length str)")
  case True
  then show ?thesis
    using WriteStringOutline_yields [OF assms] by (simp add: WriteString_def)
next
  case False
  then have n: "length str < 128" "p + int (length (tag_bytes num 2)) + 1 + int (length str) \<le> out_end s + 16"
    using TagSize_length [of num] by auto
  then have v: "varint_bytes (length str) = [of_nat (length str)]"
    by (simp add: varint_bytes.simps)
  have f1: "fits (length W + length (tag_bytes num 2))" and f2: "fits (length (W @ tag_bytes num 2) + length [of_nat (length str) :: u8])"
    by (rule fits_less [OF f], simp add: v)+
  from emit [OF w f1] n(2) obtain t where t: "emit (tag_bytes num 2) p s = Inr (p + int (length (tag_bytes num 2)), t)"
      "wrote (W @ tag_bytes num 2) t (p + int (length (tag_bytes num 2)))" "out_end t = out_end s"
    by auto
  from emit [OF t(2) f2] t(3) n(2) obtain u where u: "emit [of_nat (length str)] (p + int (length (tag_bytes num 2))) t =
      Inr (p + int (length (tag_bytes num 2)) + 1, u)"
      "wrote (W @ tag_bytes num 2 @ [of_nat (length str)]) u (p + int (length (tag_bytes num 2)) + 1)" "out_end u = out_end s"
    by auto
  from emit [OF u(2), of str] u(3) n(2) f False t(1) u(1) v show ?thesis
    by (auto simp: WriteString_def UnsafeVarint_bytes tag_bytes_def MakeTag_def add.assoc)
qed

lemma WriteStringMaybeAliased_yields:
  assumes "wrote W s p" and "int (length str) \<le> INT_MAX"
    and "fits (length W + length (tag_bytes num 2 @ varint_bytes (length str) @ str))"
  shows "yields (W @ tag_bytes num 2 @ varint_bytes (length str) @ str) (WriteStringMaybeAliased vt num str p s)"
proof -
  have "WriteStringMaybeAliased vt num str p s = WriteString vt num str p s"
    using WriteStringOutline_yields [OF assms] by (simp only: WriteStringMaybeAliased_def WriteString_def)
  then show ?thesis
    using WriteString_yields [OF assms] by simp
qed

lemma packed_elements_yields:
  assumes "wrote W s p" and "vs \<noteq> []" and "fits (length W + length (encode_numbers vs))"
  shows "yields (W @ encode_numbers vs) (packed_elements vt Encode64 vs p s)"
  using assms
proof (induction vs arbitrary: W s p)
  case (Cons v vs)
  let ?v = "varint_bytes (unat v)"
  have e: "encode_numbers (v # vs) = ?v @ encode_numbers vs"
    by (simp add: encode_numbers_def)
  have "fits (length W + length ?v)"
    by (rule fits_less [OF Cons.prems(3)]) (simp add: e)
  from ensure_emit [OF Cons.prems(1) this] length_varint_u64 [of v] obtain q t where
      t: "and_then (EnsureSpace vt p s) (\<lambda>(p, s). emit ?v p s) = Inr (q, t)" "wrote (W @ ?v) t q"
    by fastforce
  have p: "packed_elements vt Encode64 (v # vs) p s = and_then (and_then (EnsureSpace vt p s) (\<lambda>(p, s). emit ?v p s))
      (\<lambda>(p, s). if vs = [] then Inr (p, s) else packed_elements vt Encode64 vs p s)"
    by (cases "EnsureSpace vt p s") (auto simp: UnsafeVarint_bytes Encode64_def)
  show ?case
  proof (cases "vs = []")
    case False
    have "fits (length (W @ ?v) + length (encode_numbers vs))"
      by (rule fits_less [OF Cons.prems(3)]) (simp add: e)
    from Cons.IH [OF t(2) False this] show ?thesis
      using t(1) False unfolding p e by simp
  next
    case True
    show ?thesis
      using t True unfolding p e by simp
  qed
qed simp

lemma WriteUInt64Packed_yields:
  assumes w: "wrote W s p" and "vs \<noteq> []" and i: "int (length (encode_numbers vs)) \<le> INT_MAX"
    and f: "fits (length W + length (tag_bytes num 2 @ varint_bytes (length (encode_numbers vs)) @ encode_numbers vs))"
  shows "yields (W @ tag_bytes num 2 @ varint_bytes (length (encode_numbers vs)) @ encode_numbers vs)
    (WriteUInt64Packed vt num vs (int (length (encode_numbers vs))) p s)"
proof -
  let ?n = "length (encode_numbers vs)"
  have "fits (Suc (length W))"
    by (rule fits_less [OF f]) (use length_tag_bytes(2) [of num 2] in \<open>cases "tag_bytes num 2"; simp\<close>)
  from ensure [OF w this] obtain q t where t: "EnsureSpace vt p s = Inr (q, t)" "wrote W t q" "q \<le> out_end t"
    by blast
  have "fits (length W + length (tag_bytes num 2 @ varint_bytes (unat (of_nat ?n :: u32))))"
    by (rule fits_less [OF f]) (simp add: unat_size [OF i])
  from WriteLengthDelim_yields [OF t(2,3) this] obtain r u where u: "WriteLengthDelim num (of_nat ?n) q t = Inr (r, u)"
      "wrote (W @ tag_bytes num 2 @ varint_bytes ?n) u r"
    by (auto simp: unat_size [OF i])
  from packed_elements_yields [OF u(2) assms(2)] f show ?thesis
    using t(1) u(1) by (simp add: WriteUInt64Packed_def WriteVarintPacked_def add.assoc)
qed

section \<open>Unknown fields\<close>

lemma unknown_fields_yields:
  assumes "wrote W s p" and "int (length (encode_unknowns us)) \<le> INT_MAX" and "fits (length W + length (encode_unknowns us))"
  shows "yields (W @ encode_unknowns us) (InternalSerializeUnknownFieldsToArray vt us p s)"
  using assms
proof (induction us arbitrary: W s p rule: unknown_fields_induct)
  case 1
  then show ?case
    by simp
next
  case (2 u us)
  let ?E = "encode_unknown u"
  let ?field = "and_then (EnsureSpace vt p s) (\<lambda>(target, s).
       case u of
          TYPE_VARINT number v \<Rightarrow> emit (WriteUInt64ToArray number v) target s
        | TYPE_FIXED32 number v \<Rightarrow> emit (WriteFixed32ToArray number v) target s
        | TYPE_FIXED64 number v \<Rightarrow> emit (WriteFixed64ToArray number v) target s
        | TYPE_LENGTH_DELIMITED number v \<Rightarrow> WriteString vt number v target s
        | TYPE_GROUP number child \<Rightarrow>
            and_then (emit (WriteTagToArray number 3) target s) (\<lambda>(target, s).
            and_then (InternalSerializeUnknownFieldsToArray vt child target s) (\<lambda>(target, s).
            and_then (EnsureSpace vt target s) (\<lambda>(target, s). emit (WriteTagToArray number 4) target s))))"
  have e: "int (length ?E) \<le> INT_MAX" "fits (length W + length ?E)"
    using 2(4) by (simp add: encode_unknowns_Cons) (rule fits_less [OF 2(5)], simp add: encode_unknowns_Cons)
  have "yields (W @ ?E) ?field"
  proof (cases u)
    case (TYPE_VARINT number v)
    then show ?thesis
      using ensure_emit_yields [OF 2(3) e(2)] length_tag_bytes [of number 0] length_varint_u64 [of v] by (simp add: writer_bytes)
  next
    case (TYPE_FIXED32 number v)
    then show ?thesis
      using ensure_emit_yields [OF 2(3) e(2)] length_tag_bytes [of number 5] by (simp add: writer_bytes)
  next
    case (TYPE_FIXED64 number v)
    then show ?thesis
      using ensure_emit_yields [OF 2(3) e(2)] length_tag_bytes [of number 1] by (simp add: writer_bytes)
  next
    case (TYPE_LENGTH_DELIMITED number v)
    have "fits (Suc (length W))"
      by (rule fits_less [OF e(2)]) (use length_tag_bytes(2) [of number 2] TYPE_LENGTH_DELIMITED in \<open>cases "tag_bytes number 2"; simp\<close>)
    from ensure [OF 2(3) this] obtain q t where t: "EnsureSpace vt p s = Inr (q, t)" "wrote W t q"
      by blast
    then show ?thesis
      using WriteString_yields [OF t(2), of v number] e TYPE_LENGTH_DELIMITED by simp
  next
    case (TYPE_GROUP number child)
    let ?a = "tag_bytes number 3" and ?c = "encode_unknowns child" and ?b = "tag_bytes number 4"
    have E: "?E = ?a @ ?c @ ?b"
      by (simp add: TYPE_GROUP encode_unknowns_def)
    have fa: "fits (length W + length ?a)" and fc: "fits (length (W @ ?a) + length ?c)" and fb: "fits (length (W @ ?a @ ?c) + length ?b)"
      by (rule fits_less [OF e(2)], simp add: E)+
    have c: "int (length ?c) \<le> INT_MAX"
      using e(1) by (simp add: E)
    have "yields (W @ ?a) (and_then (EnsureSpace vt p s) (\<lambda>(p, s). emit ?a p s))"
      by (rule ensure_emit_yields [OF 2(3) fa]) (use length_tag_bytes [of number 3] in simp_all)
    then obtain q t where t: "and_then (EnsureSpace vt p s) (\<lambda>(p, s). emit ?a p s) = Inr (q, t)" "wrote (W @ ?a) t q"
      by blast
    from 2(2) [OF TYPE_GROUP t(2) c fc] obtain r u' where u: "InternalSerializeUnknownFieldsToArray vt child q t = Inr (r, u')"
        "wrote (W @ ?a @ ?c) u' r"
      by auto
    have "yields ((W @ ?a @ ?c) @ ?b) (and_then (EnsureSpace vt r u') (\<lambda>(p, s). emit ?b p s))"
      by (rule ensure_emit_yields [OF u(2) fb]) (use length_tag_bytes [of number 4] in simp_all)
    then show ?thesis
      using t(1) u(1) E by (cases "EnsureSpace vt p s") (auto simp: TYPE_GROUP WriteTagToArray_bytes)
  qed
  then have "yields (W @ ?E @ encode_unknowns us) (and_then ?field (\<lambda>(p, s). InternalSerializeUnknownFieldsToArray vt us p s))"
  proof (rule yields_then)
    fix p' s'
    assume "wrote (W @ ?E) s' p'"
    then show "yields (W @ ?E @ encode_unknowns us) (InternalSerializeUnknownFieldsToArray vt us p' s')"
      using 2(1) [of "W @ ?E" s' p'] 2(4,5) by (simp add: encode_unknowns_Cons add.assoc)
  qed
  moreover have "InternalSerializeUnknownFieldsToArray vt (u # us) p s =
      and_then ?field (\<lambda>(p, s). InternalSerializeUnknownFieldsToArray vt us p s)"
    by (cases "EnsureSpace vt p s") (auto split: unknown_field.split)
  ultimately show ?case
    by (simp only: encode_unknowns_Cons)
qed

section \<open>Messages\<close>

lemma optional_field_yields:
  assumes "wrote W s p" and "fits (length W + length (if c then bs else []))" and "bs \<noteq> []" and "length bs \<le> 16"
  shows "yields (W @ (if c then bs else []))
    (if c then and_then (EnsureSpace vt p s) (\<lambda>(target, s). emit bs target s) else Inr (p, s))"
  using assms ensure_emit_yields [OF assms(1) _ assms(3,4)] by (cases c) auto

lemma BuffData_yields:
  assumes w: "wrote W s p" and c: "victims_cached_byte_size m = int (length (encode_numbers (victims m)))"
    and i: "int (length (encode_buff m)) \<le> INT_MAX" and f: "fits (length W + length (encode_buff m))"
  shows "yields (W @ encode_buff m) (BuffData_InternalSerialize vt m p s)"
proof -
  let ?a = "if buffid m \<noteq> 0 then tag_bytes 1 0 @ varint_bytes (unat (buffid m)) else []"
  let ?b = "if remaintime m \<noteq> 0 then tag_bytes 2 5 @ WriteLittleEndianToArray (remaintime m) else []"
  let ?vs = "tag_bytes 3 2 @ varint_bytes (length (encode_numbers (victims m))) @ encode_numbers (victims m)"
  let ?v = "if victims m \<noteq> [] then ?vs else []"
  let ?u = "encode_unknowns (buff_unknown m)"
  have E: "encode_buff m = ?a @ ?b @ ?v @ ?u"
    by (simp add: encode_buff_def)
  have fits: "fits k" if "k \<le> length W + length (?a @ ?b @ ?v @ ?u)" for k
    by (rule fits_less [OF f]) (use that E in simp)
  have small: "length (encode_numbers (victims m)) \<le> length (encode_buff m)" "length ?u \<le> length (encode_buff m)"
    by (simp_all add: E)
  have 1: "yields (W @ ?a) (if buffid m \<noteq> 0
      then and_then (EnsureSpace vt p s) (\<lambda>(target, s). emit (WriteUInt64ToArray 1 (buffid m)) target s) else Inr (p, s))"
    unfolding writer_bytes using length_tag_bytes [of 1 0] length_varint_u64 [of "buffid m"]
    by (intro optional_field_yields [OF w] fits) simp_all
  have 2: "yields ((W @ ?a) @ ?b) (if remaintime m \<noteq> 0
      then and_then (EnsureSpace vt p s) (\<lambda>(target, s). emit (WriteFloatToArray 2 (remaintime m)) target s) else Inr (p, s))"
    if "wrote (W @ ?a) s p" for p s
    unfolding writer_bytes using length_tag_bytes [of 2 5]
    by (intro optional_field_yields [OF that] fits) simp_all
  have 3: "yields ((W @ ?a @ ?b) @ ?v) (if 0 < victims_cached_byte_size m
      then WriteUInt64Packed vt 3 (victims m) (victims_cached_byte_size m) p s else Inr (p, s))"
    if "wrote (W @ ?a @ ?b) s p" for p s
  proof (cases "victims m = []")
    case False
    then show ?thesis
      using WriteUInt64Packed_yields [OF that False, of 3] i small fits [of "length (W @ ?a @ ?b) + length ?v"]
      by (simp add: c)
  qed (use that c in simp)
  have 4: "yields ((W @ ?a @ ?b @ ?v) @ ?u)
      (if buff_unknown m \<noteq> [] then InternalSerializeUnknownFieldsToArray vt (buff_unknown m) p s else Inr (p, s))"
    if "wrote (W @ ?a @ ?b @ ?v) s p" for p s
    using unknown_fields_yields [OF that, of "buff_unknown m"] that i small fits [of "length (W @ ?a @ ?b @ ?v) + length ?u"]
    by auto
  show ?thesis
    unfolding BuffData_InternalSerialize_def E
    by (rule yields_then [OF 1], rule yields_then [OF 2], assumption, rule yields_then [OF 3], simp,
        use 4 in simp)
qed

text \<open>The serializer reads the caches that \<open>ByteSizeLong\<close> has set.\<close>

lemma encode_buff_sized [simp]: "encode_buff (buff_sized b) = encode_buff b"
  by (simp add: encode_buff_def buff_sized_def)

lemma buff_sized_fields: "victims_cached_byte_size (buff_sized b) = int (length (encode_numbers (victims b)))" "victims (buff_sized b) = victims b"
  by (simp_all add: buff_sized_def)

lemma write_buffs_yields:
  assumes "wrote W s p" and "int (length (encode_buffs bs)) \<le> INT_MAX" and "fits (length W + length (encode_buffs bs))"
  shows "yields (W @ encode_buffs bs) (write_buffs vt (map buff_sized bs) p s)"
  using assms
proof (induction bs arbitrary: W s p)
  case (Cons b bs)
  let ?t = "tag_bytes 4 2" and ?n = "varint_bytes (length (encode_buff b))" and ?e = "encode_buff b"
  have E: "encode_buffs (b # bs) = ?t @ ?n @ ?e @ encode_buffs bs"
    by (rule encode_buffs_Cons)
  have fits: "fits k" if "k \<le> length W + length (?t @ ?n @ ?e @ encode_buffs bs)" for k
    by (rule fits_less [OF Cons.prems(3)]) (use that E in simp)
  have i: "int (length ?e) \<le> INT_MAX" "int (length (encode_buffs bs)) \<le> INT_MAX"
    using Cons.prems(2) by (simp_all add: E)
  have "fits (length W + length ?t)"
    by (rule fits) simp
  from ensure_emit [OF Cons.prems(1) this] length_tag_bytes [of 4 2] obtain q t where
      t: "and_then (EnsureSpace vt p s) (\<lambda>(p, s). emit ?t p s) = Inr (q, t)" "wrote (W @ ?t) t q" "q \<le> out_end t + 5"
    by fastforce
  have n: "WriteVarint32ToArrayOutOfLine (of_int (buff_cached_size (buff_sized b))) = ?n"
    by (simp add: OutOfLine_bytes buff_sized_def unat_size [OF i(1)])
  have "q + int (length ?n) \<le> out_end t + 16"
    using t(3) length_varint_u32 [of "of_nat (length ?e)"] by (simp add: unat_size [OF i(1)])
  from emit [OF t(2) _ this] obtain u where u: "emit ?n q t = Inr (q + int (length ?n), u)" "wrote (W @ ?t @ ?n) u (q + int (length ?n))"
    using fits [of "length (W @ ?t) + length ?n"] by auto
  from BuffData_yields [OF u(2), of "buff_sized b"] i(1) fits [of "length (W @ ?t @ ?n) + length ?e"] obtain r v where
      v: "BuffData_InternalSerialize vt (buff_sized b) (q + int (length ?n)) u = Inr (r, v)" "wrote (W @ ?t @ ?n @ ?e) v r"
    by (auto simp: buff_sized_fields)
  from Cons.IH [OF v(2) i(2)] fits [of "length (W @ ?t @ ?n @ ?e) + length (encode_buffs bs)"] have
      "yields (W @ encode_buffs (b # bs)) (write_buffs vt (map buff_sized bs) r v)"
    by (simp add: E)
  moreover have "write_buffs vt (map buff_sized (b # bs)) p s = write_buffs vt (map buff_sized bs) r v"
    using t(1) u(1) v(1) n by (cases "EnsureSpace vt p s") (auto simp: InternalWriteMessage_def WriteTagToArray_bytes)
  ultimately show ?case
    by simp
qed simp

lemma encode_test_sized [simp]: "encode_test (test_sized m) = encode_test m"
  by (simp add: encode_test_def test_sized_def encode_buffs_def comp_def)

lemma TEST_MSG_yields:
  assumes w: "wrote W s p" and i: "int (length (encode_test m)) \<le> INT_MAX" and f: "fits (length W + length (encode_test m))"
  shows "yields (W @ encode_test m) (TEST_MSG_InternalSerialize vt (test_sized m) p s)"
proof -
  let ?a = "if test_id m \<noteq> 0 then tag_bytes 1 0 @ varint_bytes (unat (test_id m)) else []"
  let ?b = "if hp m \<noteq> 0 then tag_bytes 2 0 @ varint_bytes (unat (hp m)) else []"
  let ?c = "if attack m \<noteq> 0 then tag_bytes 3 0 @ varint_bytes (unat (attack m)) else []"
  let ?d = "encode_buffs (buffs m)"
  let ?s = "if msg m \<noteq> [] then tag_bytes 5 2 @ varint_bytes (length (msg m)) @ msg m else []"
  let ?u = "encode_unknowns (test_unknown m)"
  have E: "encode_test m = ?a @ ?b @ ?c @ ?d @ ?s @ ?u"
    by (simp add: encode_test_def)
  have fits: "fits k" if "k \<le> length W + length (?a @ ?b @ ?c @ ?d @ ?s @ ?u)" for k
    by (rule fits_less [OF f]) (use that E in simp)
  have small: "int (length ?d) \<le> INT_MAX" "int (length (msg m)) \<le> INT_MAX" "int (length ?u) \<le> INT_MAX"
    using encode_test_parts [of m] i by linarith+
  have 1: "yields (W @ ?a) (if test_id m \<noteq> 0
      then and_then (EnsureSpace vt p s) (\<lambda>(target, s). emit (WriteUInt64ToArray 1 (test_id m)) target s) else Inr (p, s))"
    unfolding writer_bytes using length_tag_bytes [of 1 0] length_varint_u64 [of "test_id m"]
    by (intro optional_field_yields [OF w] fits) simp_all
  have 2: "yields ((W @ ?a) @ ?b) (if hp m \<noteq> 0
      then and_then (EnsureSpace vt p s) (\<lambda>(target, s). emit (WriteUInt32ToArray 2 (hp m)) target s) else Inr (p, s))"
    if "wrote (W @ ?a) s p" for p s
    unfolding writer_bytes using length_tag_bytes [of 2 0] length_varint_u32 [of "hp m"]
    by (intro optional_field_yields [OF that] fits) simp_all
  have 3: "yields ((W @ ?a @ ?b) @ ?c) (if attack m \<noteq> 0
      then and_then (EnsureSpace vt p s) (\<lambda>(target, s). emit (WriteUInt32ToArray 3 (attack m)) target s) else Inr (p, s))"
    if "wrote (W @ ?a @ ?b) s p" for p s
    unfolding writer_bytes using length_tag_bytes [of 3 0] length_varint_u32 [of "attack m"]
    by (intro optional_field_yields [OF that] fits) simp_all
  have 4: "yields ((W @ ?a @ ?b @ ?c) @ ?d) (write_buffs vt (map buff_sized (buffs m)) p s)"
    if "wrote (W @ ?a @ ?b @ ?c) s p" for p s
    by (rule write_buffs_yields [OF that small(1) fits]) simp
  have 5: "yields ((W @ ?a @ ?b @ ?c @ ?d) @ ?s) (if msg m \<noteq> [] then WriteStringMaybeAliased vt 5 (msg m) p s else Inr (p, s))"
    if "wrote (W @ ?a @ ?b @ ?c @ ?d) s p" for p s
    using WriteStringMaybeAliased_yields [OF that small(2), of 5] that fits [of "length (W @ ?a @ ?b @ ?c @ ?d) + length ?s"]
    by auto
  have 6: "yields ((W @ ?a @ ?b @ ?c @ ?d @ ?s) @ ?u)
      (if test_unknown m \<noteq> [] then InternalSerializeUnknownFieldsToArray vt (test_unknown m) p s else Inr (p, s))"
    if "wrote (W @ ?a @ ?b @ ?c @ ?d @ ?s) s p" for p s
    using unknown_fields_yields [OF that small(3)] that fits [of "length (W @ ?a @ ?b @ ?c @ ?d @ ?s) + length ?u"] by auto
  have sized: "test_id (test_sized m) = test_id m" "hp (test_sized m) = hp m" "attack (test_sized m) = attack m"
      "buffs (test_sized m) = map buff_sized (buffs m)" "msg (test_sized m) = msg m" "test_unknown (test_sized m) = test_unknown m"
    by (simp_all add: test_sized_def)
  show ?thesis
    unfolding TEST_MSG_InternalSerialize_def E sized
    by (rule yields_then [OF 1], rule yields_then [OF 2], assumption, rule yields_then [OF 3], simp,
        rule yields_then [OF 4], simp, rule yields_then [OF 5], simp, use 6 in simp)
qed

end

end
