(* ===== verification/Pb_Serialize_Props.thy ===== *)
theory Pb_Serialize_Props
  imports Pb_Serialize_Write
begin

text \<open>
  What the entry points of serialization guarantee: the bytes that \<open>SerializeToArray\<close>,
  \<open>SerializeAsString\<close> and \<open>SerializeToZeroCopyStream\<close> produce are the reference encoding, whatever the
  cached sizes were before and wherever the blocks of a stream end, and nothing outside of
  the memory handed over is written.
\<close>

section \<open>Arrays and strings\<close>

lemma SerializeToArrayImpl_exact:
  assumes "int (length (encode_test m)) \<le> INT_MAX" and "length (encode_test m) \<le> length memory"
  shows "SerializeToArrayImpl junk (TEST_MSG_InternalSerialize (vt :: 's output_class) (test_sized m)) memory (int (length (encode_test m))) =
    Inr (int (length (encode_test m)), encode_test m @ drop (length (encode_test m)) memory)"
proof -
  let ?n = "length (encode_test m)" and ?s = "EpsCopyOutputStream_array junk memory (int (length (encode_test m))) :: 's eps_output"
  have "array_writer memory ?n [] ?s 0"
    using assms(2) by (simp add: array_writer_def EpsCopyOutputStream_array_def)
  from array_writer.TEST_MSG_yields [OF this assms(1), of vt] show ?thesis
    by (auto simp: SerializeToArrayImpl_def array_writer_def)
qed

lemma ByteSizeLong_fits: "int (fst (TEST_MSG_ByteSizeLong m)) \<le> INT_MAX \<longleftrightarrow> int (length (encode_test m)) \<le> INT_MAX"
  using test_size_length [of m] by (auto simp: TEST_MSG_ByteSizeLong_eq agrees_def)

lemma array_exact:
  assumes "n \<le> int (length memory)"
  shows "TEST_MSG_SerializeToArray junk m memory n =
    Inr (if int (length (encode_test m)) \<le> min INT_MAX n
         then (True, encode_test m @ drop (length (encode_test m)) memory) else (False, memory), snd (TEST_MSG_ByteSizeLong m))"
proof (cases "int (length (encode_test m)) \<le> INT_MAX")
  case True
  then show ?thesis
    using assms SerializeToArrayImpl_exact [OF True, of memory junk array_output_class]
    by (auto simp: TEST_MSG_SerializeToArray_def SerializePartialToArray_def TEST_MSG_ByteSizeLong_exact)
next
  case False
  then show ?thesis
    using ByteSizeLong_fits [of m] by (auto simp: TEST_MSG_SerializeToArray_def SerializePartialToArray_def split: prod.split)
qed

text \<open>C8. \<open>SerializeToArray\<close> writes exactly the encoding to the front of the memory and leaves the rest as it is;
  it writes nothing and returns false when the encoding is longer than the array or than two
  gigabytes. This holds whatever the cached sizes of the message were.\<close>

theorem TEST_MSG_SerializeToArray_exact:
  assumes "n \<le> int (length memory)"
  shows "TEST_MSG_SerializeToArray junk m memory n =
    Inr (if int (length (encode_test m)) \<le> min INT_MAX n
         then (True, encode_test m @ drop (length (encode_test m)) memory) else (False, memory), snd (TEST_MSG_ByteSizeLong m))"
  by (rule array_exact [OF assms])

theorem TEST_MSG_SerializeToArray_exact_witness:
  "TEST_MSG_SerializeToArray (replicate 32 0) (TEST_MSG\<lparr>hp := 300, msg := [65]\<rparr>) [1, 2, 3, 4, 5, 6, 7, 8] 8 =
    Inr ((True, [16, 172, 2, 42, 1, 65, 7, 8]), snd (TEST_MSG_ByteSizeLong (TEST_MSG\<lparr>hp := 300, msg := [65]\<rparr>)))"
proof -
  have "encode_test (TEST_MSG\<lparr>hp := 300, msg := [65]\<rparr>) = [16, 172, 2, 42, 1, 65]"
    by code_simp
  then show ?thesis
    using TEST_MSG_SerializeToArray_exact [of 8 "[1, 2, 3, 4, 5, 6, 7, 8]" "replicate 32 0" "TEST_MSG\<lparr>hp := 300, msg := [65]\<rparr>"]
    by (simp add: INT_MAX_def)
qed

lemma TEST_MSG_SerializeAsString_bytes:
  "TEST_MSG_SerializeAsString junk m = Inr (if int (length (encode_test m)) \<le> INT_MAX then encode_test m else [], snd (TEST_MSG_ByteSizeLong m))"
proof (cases "int (length (encode_test m)) \<le> INT_MAX")
  case True
  then show ?thesis
    using SerializeToArrayImpl_exact [OF True, of "replicate (length (encode_test m)) 0" junk array_output_class]
    by (simp add: TEST_MSG_SerializeAsString_def AppendPartialToString_def TEST_MSG_ByteSizeLong_exact)
next
  case False
  then show ?thesis
    using ByteSizeLong_fits [of m]
    by (auto simp: TEST_MSG_SerializeAsString_def AppendPartialToString_def split: prod.split)
qed

section \<open>Streams\<close>

context zero_copy_output
begin

lemma new_writer:
  assumes "ok z" and "length junk = 32"
  shows "stream_writer ok content avail fits (content z) (snd (EpsCopyOutputStream junk z)) 0"
  using assms by (simp add: stream_writer_def EpsCopyOutputStream_def out_shape_def out_written_def)

text \<open>The result is exact when the message fits; when it does not, an error is reported or the message is there.\<close>

lemma TEST_MSG_to_stream:
  assumes "ok z" and "length junk = 32" and i: "int (length (encode_test m)) \<le> INT_MAX"
  shows "\<exists>r z'. TEST_MSG_SerializeToZeroCopyStream vt junk m z = Inr ((r, z'), test_sized m) \<and>
    (fits (length (content z) + length (encode_test m)) \<longrightarrow> r) \<and>
    (r \<longrightarrow> (\<exists>z''. z' = Some z'' \<and> ok z'' \<and> content z'' = content z @ encode_test m))"
proof -
  let ?W = "content z @ encode_test m" and ?s = "snd (EpsCopyOutputStream junk z)"
  have w: "writer (content z) ?s 0"
    by (rule new_writer [OF assms(1,2)])
  from eps_writer.TEST_MSG_yields [OF is_eps_writer w i] obtain q t where
      t: "TEST_MSG_InternalSerialize vt (test_sized m) 0 ?s = Inr (q, t)" "writer ?W t q"
    by auto
  have sure: "\<not> had_error t" if "fits (length ?W)"
  proof -
    have "sure_writer (content z) ?s 0"
      using w by (simp add: sure_writer_def EpsCopyOutputStream_def)
    from eps_writer.TEST_MSG_yields [OF sure_is_eps_writer this i] that t(1) show ?thesis
      by (auto simp: sure_writer_def)
  qed
  obtain p u where u: "Trim vt q t = Inr (p, u)" "\<not> had_error u \<longrightarrow> (\<exists>z. out_stream u = Some z \<and> ok z \<and> content z = ?W)"
      "no_room t u ?W"
    by (rule writer_Trim [OF t(2)]) auto
  have "TEST_MSG_SerializeToZeroCopyStream vt junk m z = Inr ((\<not> had_error u, out_stream u), test_sized m)"
    using t(1) u(1) i
    by (simp add: TEST_MSG_SerializeToZeroCopyStream_def SerializePartialToZeroCopyStream_def TEST_MSG_ByteSizeLong_exact
        EpsCopyOutputStream_def)
  with u(2,3) sure show ?thesis
    by (intro exI [of _ "\<not> had_error u"] exI [of _ "out_stream u"]) auto
qed

end

lemma TEST_MSG_too_large:
  assumes "\<not> int (length (encode_test m)) \<le> INT_MAX"
  shows "TEST_MSG_SerializeToZeroCopyStream vt junk m z = Inr ((False, Some z), snd (TEST_MSG_ByteSizeLong m))"
  using assms ByteSizeLong_fits [of m]
  by (auto simp: TEST_MSG_SerializeToZeroCopyStream_def SerializePartialToZeroCopyStream_def split: prod.split)

lemma ArrayOutputStream_ok:
  "aout_ok (ArrayOutputStream memory (int (length memory)) block_size)"
  "aout_size (ArrayOutputStream memory (int (length memory)) block_size) = int (length memory)"
  "aout_content (ArrayOutputStream memory (int (length memory)) block_size) = []"
  by (simp_all add: ArrayOutputStream_def aout_ok_def aout_content_def)

text \<open>C9. Serializing to an \<open>ArrayOutputStream\<close> with blocks of any size, which is what \<open>SerializeToArrayImpl\<close> does when it
  is compiled for debugging, succeeds exactly when \<open>SerializeToArray\<close> does and gives the same bytes.\<close>

theorem TEST_MSG_stream_equals_array:
  assumes "length junk = 32"
  shows "\<exists>r z memory' m'.
    TEST_MSG_SerializeToZeroCopyStream array_output_class junk m (ArrayOutputStream memory (int (length memory)) block_size) = Inr ((r, z), m') \<and>
    TEST_MSG_SerializeToArray junk m memory (int (length memory)) = Inr ((r, memory'), m') \<and>
    (r \<longrightarrow> map_option aout_content z = Some (take (fst (TEST_MSG_ByteSizeLong m)) memory'))"
proof -
  let ?s = "ArrayOutputStream memory (int (length memory)) block_size" and ?n = "length (encode_test m)"
  have a: "TEST_MSG_SerializeToArray junk m memory (int (length memory)) =
      Inr (if int ?n \<le> INT_MAX \<and> ?n \<le> length memory then (True, encode_test m @ drop ?n memory) else (False, memory), snd (TEST_MSG_ByteSizeLong m))"
    by (simp add: array_exact min_le_iff_disj)
  show ?thesis
  proof (cases "int ?n \<le> INT_MAX")
    case True
    have "aout_ok ?s \<and> aout_size ?s = int (length memory)"
      by (simp add: ArrayOutputStream_ok)
    from aout.TEST_MSG_to_stream [OF this assms True] obtain r z where
        z: "TEST_MSG_SerializeToZeroCopyStream array_output_class junk m ?s = Inr ((r, z), test_sized m)" "?n \<le> length memory \<longrightarrow> r"
        "r \<longrightarrow> (\<exists>t. z = Some t \<and> (aout_ok t \<and> aout_size t = int (length memory)) \<and> aout_content t = encode_test m)"
      by (auto simp: ArrayOutputStream_ok)
    have "r \<longrightarrow> ?n \<le> length memory"
      using z(3) by (auto simp: aout_ok_def aout_content_def dest!: arg_cong [where f = length])
    with z a True show ?thesis
      by (auto simp: TEST_MSG_ByteSizeLong_exact)
  next
    case False
    with a TEST_MSG_too_large [OF False, of array_output_class junk ?s] show ?thesis
      by auto
  qed
qed

theorem TEST_MSG_stream_equals_array_witness:
  "\<exists>r z memory' m'.
    TEST_MSG_SerializeToZeroCopyStream array_output_class (replicate 32 0) TEST_MSG (ArrayOutputStream [1, 2] 2 1) = Inr ((r, z), m') \<and>
    TEST_MSG_SerializeToArray (replicate 32 0) TEST_MSG [1, 2] 2 = Inr ((r, memory'), m') \<and>
    (r \<longrightarrow> map_option aout_content z = Some (take (fst (TEST_MSG_ByteSizeLong TEST_MSG)) memory'))"
  using TEST_MSG_stream_equals_array [of "replicate 32 0" TEST_MSG "[1, 2]" 1] by simp

text \<open>C10. Serializing to a \<open>StringOutputStream\<close> appends to the string what \<open>SerializeAsString\<close> returns, however the
  string grows; it fails only for messages of more than two gigabytes.\<close>

theorem TEST_MSG_string_stream:
  assumes "length junk = 32"
  shows "\<exists>r z data m'.
    TEST_MSG_SerializeToZeroCopyStream (string_output_class reserve) junk m s = Inr ((r, Some z), m') \<and>
    TEST_MSG_SerializeAsString junk m = Inr (data, m') \<and> sout_target z = sout_target s @ data \<and>
    r = (int (fst (TEST_MSG_ByteSizeLong m)) \<le> INT_MAX)"
proof (cases "int (length (encode_test m)) \<le> INT_MAX")
  case True
  with sout.TEST_MSG_to_stream [OF TrueI assms True, of reserve s] show ?thesis
    by (auto simp: TEST_MSG_SerializeAsString_bytes TEST_MSG_ByteSizeLong_exact)
next
  case False
  with ByteSizeLong_fits [of m] show ?thesis
    by (auto simp: TEST_MSG_SerializeAsString_bytes TEST_MSG_too_large)
qed

theorem TEST_MSG_string_stream_witness:
  "\<exists>r z data m'.
    TEST_MSG_SerializeToZeroCopyStream (string_output_class (\<lambda>n. 2 * n)) (replicate 32 0) TEST_MSG \<lparr>sout_target = [1], sout_capacity = 3\<rparr> =
      Inr ((r, Some z), m') \<and>
    TEST_MSG_SerializeAsString (replicate 32 0) TEST_MSG = Inr (data, m') \<and> sout_target z = [1] @ data \<and>
    r = (int (fst (TEST_MSG_ByteSizeLong TEST_MSG)) \<le> INT_MAX)"
  using TEST_MSG_string_stream [of "replicate 32 0" "\<lambda>n. 2 * n" TEST_MSG "\<lparr>sout_target = [1], sout_capacity = 3\<rparr>"] by simp

end
