(* ===== verification/Pb_Roundtrip.thy ===== *)
theory Pb_Roundtrip
  imports Pb_Serialize_Props Pb_Message_Exact
begin

text \<open>
  What is serialized is parsed back. The encoding of each field is taken off the front of a list of
  bytes by the reader of its tag, so the loop over the fields rebuilds the message.
\<close>

section \<open>Values\<close>

lemma read_varint_bytes: "read_varint (varint_bytes (unat v) @ rest) = Some (v, length (varint_bytes (unat v)))"
proof -
  have "unat v < 2 ^ (7 * 10)"
    by (rule order_less_trans [OF unsigned_less]) simp
  from varint_bytes_len [OF this, of rest] show ?thesis
    by (simp add: read_varint_def)
qed

lemma read_varint32_bytes: "read_varint32 (varint_bytes (unat v) @ rest) = Some (v, length (varint_bytes (unat v)))"
proof -
  have "unat v < 2 ^ (7 * 10)"
    by (rule order_less_trans [OF unsigned_less]) simp
  from varint_bytes_len [OF this, of rest] show ?thesis
    by (simp add: read_varint32_def)
qed

lemma read_tag_bytes: "read_tag (tag_bytes number wt @ rest) = Some (MakeTag number wt, length (tag_bytes number wt))"
proof -
  have "unat (MakeTag number wt) < 2 ^ (7 * 5)"
    by (rule order_less_trans [OF unsigned_less]) simp
  from varint_bytes_len [OF this, of rest] show ?thesis
    by (simp add: read_tag_def tag_bytes_def)
qed

lemma read_size_bytes:
  assumes "int n \<le> INT_MAX - 16"
  shows "read_size (varint_bytes n @ rest) = Some (n, length (varint_bytes n))"
proof -
  have "n < 2 ^ (7 * 5)"
    using assms by (simp add: INT_MAX_def)
  from varint_bytes_len [OF this, of rest] assms show ?thesis
    by (simp add: read_size_def)
qed

lemma read_bytes_append: "read_bytes (length bs) (bs @ rest) = Some (bs, length bs)"
  by (simp add: read_bytes_def)

lemma read_sized_bytes:
  assumes "int (length str) \<le> INT_MAX - 16"
  shows "read_then read_size read_bytes (varint_bytes (length str) @ str @ rest) =
    Some (str, length (varint_bytes (length str)) + length str)"
  using read_size_bytes [OF assms, of "str @ rest"] by (simp add: read_then_def read_bytes_append)

lemma varints_to_numbers: "varints_to (length (encode_numbers vs)) (encode_numbers vs @ rest) = Some (vs, length (encode_numbers vs))"
proof (induction vs)
  case (Cons v vs)
  then show ?case
    using read_varint_bytes [of v "encode_numbers vs @ rest"]
    by (subst varints_to.simps) (simp add: encode_numbers_def)
qed simp

lemma read_packed_numbers:
  assumes "int (length (encode_numbers vs)) \<le> INT_MAX - 16"
  shows "read_then read_size read_numbers (varint_bytes (length (encode_numbers vs)) @ encode_numbers vs @ rest) =
    Some (vs, length (varint_bytes (length (encode_numbers vs))) + length (encode_numbers vs))"
  using read_size_bytes [OF assms, of "encode_numbers vs @ rest"] varints_to_numbers [of vs rest]
  by (simp add: read_then_def read_numbers_def)

lemma little_endian_Cons: "little_endian (b # bs) = (ucast b OR push_bit 8 (little_endian bs) :: 'a::len word)"
  by (simp add: little_endian_def)

lemma bit_little_endian:
  "bit (little_endian bs :: 'a::len word) i \<longleftrightarrow> i < LENGTH('a) \<and> i div 8 < length bs \<and> bit (bs ! (i div 8)) (i mod 8)"
proof (induction bs arbitrary: i)
  case Nil
  then show ?case
    by (simp add: little_endian_def)
next
  case (Cons b bs)
  show ?case
  proof (cases "i < 8")
    case True
    then show ?thesis
      by (auto simp: little_endian_Cons bit_or_iff bit_push_bit_iff bit_ucast_iff)
  next
    case False
    then have i: "i div 8 = Suc ((i - 8) div 8)" "i mod 8 = (i - 8) mod 8" "\<not> bit b i"
      by (simp_all add: le_div_geq le_mod_geq bit_outside)
    show ?thesis
      using False by (auto simp: little_endian_Cons bit_or_iff bit_push_bit_iff bit_ucast_iff Cons.IH i)
  qed
qed

lemma little_endian_bytes:
  assumes "8 dvd LENGTH('a)"
  shows "little_endian (WriteLittleEndianToArray (v :: 'a::len word)) = v"
proof (rule bit_word_eqI)
  fix i
  assume i: "i < LENGTH('a)"
  then have d: "i div 8 < LENGTH('a) div 8"
    using assms by (auto simp: div_less_dividend elim!: dvdE)
  then have "WriteLittleEndianToArray v ! (i div 8) = ucast (drop_bit (8 * (i div 8)) v)"
    by (simp add: WriteLittleEndianToArray_def)
  then show "bit (little_endian (WriteLittleEndianToArray v) :: 'a word) i \<longleftrightarrow> bit v i"
    using i d by (simp add: bit_little_endian bit_ucast_iff bit_drop_bit_eq)
qed

section \<open>The loop over fields\<close>

definition rebuilds :: "(u32 \<Rightarrow> 'm \<Rightarrow> 'm reader) \<Rightarrow> 'm \<Rightarrow> u8 list \<Rightarrow> 'm \<Rightarrow> bool" where
  "rebuilds F m bs m' \<longleftrightarrow> (\<forall>rest. message_loop F m (bs @ rest) = map_option (\<lambda>(x, l). (x, length bs + l)) (message_loop F m' rest))"

lemma rebuilds_Nil: "rebuilds F m [] m"
  by (simp add: rebuilds_def case_prod_unfold option.map_ident)

lemma rebuilds_append: "rebuilds F m as m1 \<Longrightarrow> rebuilds F m1 bs m2 \<Longrightarrow> rebuilds F m (as @ bs) m2"
  by (simp add: rebuilds_def option.map_comp comp_def case_prod_unfold add.assoc)

lemma rebuilds_field:
  assumes "\<not> ends_message (MakeTag number wt)"
    and "\<And>rest. F (MakeTag number wt) m (bs @ rest) = Some (m', length bs)"
  shows "rebuilds F m (tag_bytes number wt @ bs) m'"
  unfolding rebuilds_def
proof
  fix rest
  have "message_loop F m (tag_bytes number wt @ bs @ rest) =
      read_then read_tag (\<lambda>tag. after_tag F tag m) (tag_bytes number wt @ bs @ rest)"
    by (rule message_loop_tag) (simp add: length_tag_bytes)
  also have "\<dots> = map_option (\<lambda>(x, l). (x, length (tag_bytes number wt @ bs) + l)) (message_loop F m' rest)"
    using assms by (simp add: read_then_def read_tag_bytes after_tag_def option.map_comp comp_def case_prod_unfold add.assoc)
  finally show "message_loop F m ((tag_bytes number wt @ bs) @ rest) = \<dots>"
    by simp
qed

lemma rebuilds_whole: "rebuilds F m bs m' \<Longrightarrow> whole F m bs = Some m'"
  unfolding rebuilds_def by (erule allE [of _ "[]"]) (simp add: whole_def)

section \<open>Tags\<close>

definition valid_number :: "u32 \<Rightarrow> bool" where
  "valid_number number \<longleftrightarrow> number \<noteq> 0 \<and> unat number < 2 ^ 29"

lemma unat_MakeTag:
  assumes "unat number < 2 ^ 29" and "unat wt < 8"
  shows "unat (MakeTag number wt) = 8 * unat number + unat wt"
proof -
  have "unat (push_bit 3 number) = take_bit 32 (8 * unat number)"
    by (simp only: unsigned_push_bit_eq) (simp add: push_bit_eq_mult mult.commute)
  also have "\<dots> = 8 * unat number"
    using assms(1) by (simp add: take_bit_nat_eq_self)
  finally show ?thesis
    unfolding MakeTag_def shifted_or [OF assms(2)] by simp
qed

lemma tag_parts_MakeTag:
  assumes "valid_number number" and "unat wt < 8"
  shows "drop_bit 3 (MakeTag number wt) = number" "MakeTag number wt AND 7 = wt" "MakeTag number wt \<noteq> 0"
proof -
  have n: "unat number < 2 ^ 29" "unat number \<noteq> 0"
    using assms(1) by (auto simp: valid_number_def unat_eq_zero)
  note t = unat_MakeTag [OF n(1) assms(2)]
  have "unat (drop_bit 3 (MakeTag number wt)) = unat number"
    using assms(2) by (simp only: unat_drop_bit_eq t) (simp add: drop_bit_eq_div)
  then show "drop_bit 3 (MakeTag number wt) = number"
    by (rule unsigned_word_eqI)
  have "MakeTag number wt AND 7 = take_bit 3 (MakeTag number wt)"
    by (simp add: take_bit_eq_mask mask_numeral)
  moreover have "unat (take_bit 3 (MakeTag number wt)) = unat wt"
    using assms(2) by (simp only: unsigned_take_bit_eq t) (simp add: take_bit_eq_mod)
  ultimately show "MakeTag number wt AND 7 = wt"
    by (metis unsigned_word_eqI)
  show "MakeTag number wt \<noteq> 0"
    using t n(2) by auto
qed

lemma ends_message_MakeTag:
  assumes "valid_number number" and "unat wt < 8"
  shows "ends_message (MakeTag number wt) \<longleftrightarrow> wt = 4"
  using tag_parts_MakeTag [OF assms] by (simp add: ends_message_def)

lemma MakeTag_end: "valid_number number \<Longrightarrow> MakeTag number 4 = MakeTag number 3 + 1"
proof -
  assume "valid_number number"
  then have n: "unat number < 2 ^ 29"
    by (simp add: valid_number_def)
  then have "unat (MakeTag number 3) = 8 * unat number + 3" "unat (MakeTag number 4) = 8 * unat number + 4"
    by (simp_all add: unat_MakeTag)
  then have "unat (MakeTag number 4) = unat (MakeTag number 3 + 1)"
    using n by (simp add: unat_word_ariths)
  then show ?thesis
    by (rule unsigned_word_eqI)
qed

section \<open>Unknown fields\<close>

primrec tag_of :: "unknown_field \<Rightarrow> u32" where
  "tag_of (TYPE_VARINT number v) = MakeTag number 0"
| "tag_of (TYPE_FIXED32 number v) = MakeTag number 5"
| "tag_of (TYPE_FIXED64 number v) = MakeTag number 1"
| "tag_of (TYPE_LENGTH_DELIMITED number v) = MakeTag number 2"
| "tag_of (TYPE_GROUP number child) = MakeTag number 3"

text \<open>Fields with a number the wire format allows, in groups of at most the given depth.\<close>

primrec unknown_ok :: "unknown_field \<Rightarrow> nat \<Rightarrow> bool" where
  "unknown_ok (TYPE_VARINT number v) = (\<lambda>depth. valid_number number)"
| "unknown_ok (TYPE_FIXED32 number v) = (\<lambda>depth. valid_number number)"
| "unknown_ok (TYPE_FIXED64 number v) = (\<lambda>depth. valid_number number)"
| "unknown_ok (TYPE_LENGTH_DELIMITED number v) = (\<lambda>depth. valid_number number)"
| "unknown_ok (TYPE_GROUP number child) =
     (\<lambda>depth. valid_number number \<and> 0 < depth \<and> list_all (\<lambda>ok. ok (depth - 1)) (map unknown_ok child))"

lemma unknown_reader_parts:
  assumes "valid_number number" and "unat wt < 8"
  shows "unknown_reader G (MakeTag number wt) us =
     (if wt = 0 then read_map (\<lambda>v. AddVarint number v us) read_varint
      else if wt = 1 then read_map (\<lambda>v. AddFixed64 number (little_endian v) us) (read_bytes 8)
      else if wt = 2 then read_map (\<lambda>v. AddLengthDelimited number v us) (read_then read_size read_bytes)
      else if wt = 3 then read_map (\<lambda>v. AddGroup number v us) (G (MakeTag number 3))
      else if wt = 5 then read_map (\<lambda>v. AddFixed32 number (little_endian v) us) (read_bytes 4)
      else (\<lambda>bs. None))"
  using tag_parts_MakeTag [OF assms] assms(1) by (simp add: unknown_reader_def Let_def valid_number_def)

lemma read_fixed:
  "read_bytes 4 (WriteLittleEndianToArray (v :: u32) @ rest) = Some (WriteLittleEndianToArray v, 4)"
  "read_bytes 8 (WriteLittleEndianToArray (w :: u64) @ rest) = Some (WriteLittleEndianToArray w, 8)"
  by (simp_all add: read_bytes_def)

text \<open>One unknown field, with the readers of its tag; a group is a loop of its own.\<close>

lemma unknown_field_read:
  assumes "unknown_ok u depth" and "int (length (encode_unknown u)) \<le> INT_MAX - 16"
    and "\<And>number child. u = TYPE_GROUP number child \<Longrightarrow> rebuilds (unknown_fields (depth - 1)) [] (encode_unknowns child) child"
  shows "\<exists>number wt payload. encode_unknown u = tag_bytes number wt @ payload \<and> tag_of u = MakeTag number wt \<and>
    \<not> ends_message (MakeTag number wt) \<and>
    (\<forall>us rest. unknown_fields depth (tag_of u) us (payload @ rest) = Some (us @ [u], length payload))"
proof (cases u)
  case (TYPE_VARINT number v)
  then have "valid_number number"
    using assms(1) by simp
  then show ?thesis
    by (intro exI [of _ number] exI [of _ 0] exI [of _ "varint_bytes (unat v)"])
       (simp add: TYPE_VARINT unknown_reader_parts ends_message_MakeTag read_map_def read_varint_bytes AddVarint_def)
next
  case (TYPE_FIXED32 number v)
  then have "valid_number number"
    using assms(1) by simp
  then show ?thesis
    by (intro exI [of _ number] exI [of _ 5] exI [of _ "WriteLittleEndianToArray v"])
       (simp add: TYPE_FIXED32 unknown_reader_parts ends_message_MakeTag read_map_def read_fixed little_endian_bytes AddFixed32_def)
next
  case (TYPE_FIXED64 number v)
  then have "valid_number number"
    using assms(1) by simp
  then show ?thesis
    by (intro exI [of _ number] exI [of _ 1] exI [of _ "WriteLittleEndianToArray v"])
       (simp add: TYPE_FIXED64 unknown_reader_parts ends_message_MakeTag read_map_def read_fixed little_endian_bytes AddFixed64_def)
next
  case (TYPE_LENGTH_DELIMITED number v)
  then have "valid_number number" "int (length v) \<le> INT_MAX - 16"
    using assms(1,2) by simp_all
  then show ?thesis
    by (intro exI [of _ number] exI [of _ 2] exI [of _ "varint_bytes (length v) @ v"])
       (simp add: TYPE_LENGTH_DELIMITED unknown_reader_parts ends_message_MakeTag read_map_def read_sized_bytes AddLengthDelimited_def)
next
  case (TYPE_GROUP number child)
  then have n: "valid_number number" and d: "depth = Suc (depth - 1)"
    using assms(1) by simp_all
  let ?c = "encode_unknowns child"
  have "message_loop (unknown_fields (depth - 1)) [] (?c @ tag_bytes number 4 @ rest) =
      Some ((child, Some (MakeTag number 4)), length ?c + length (tag_bytes number 4))" for rest
  proof -
    have "message_loop (unknown_fields (depth - 1)) child (tag_bytes number 4 @ rest) =
        Some ((child, Some (MakeTag number 4)), length (tag_bytes number 4))"
      by (subst message_loop_tag)
         (simp_all add: length_tag_bytes read_then_def read_tag_bytes after_tag_def ends_message_MakeTag [OF n])
    then show ?thesis
      using assms(3) [OF TYPE_GROUP] by (simp add: rebuilds_def)
  qed
  then have "group_reader depth (MakeTag number 3) (?c @ tag_bytes number 4 @ rest) =
      Some (child, length ?c + length (tag_bytes number 4))" for rest
    by (subst d, subst group_reader.simps) (simp add: MakeTag_end [OF n])
  then show ?thesis
    using n by (intro exI [of _ number] exI [of _ 3] exI [of _ "?c @ tag_bytes number 4"])
       (simp add: TYPE_GROUP unknown_reader_parts ends_message_MakeTag read_map_def AddGroup_def encode_unknowns_def)
qed

lemma unknown_field_rebuilt:
  assumes "unknown_ok u depth" and "int (length (encode_unknown u)) \<le> INT_MAX - 16"
    and "\<And>number child. u = TYPE_GROUP number child \<Longrightarrow> rebuilds (unknown_fields (depth - 1)) [] (encode_unknowns child) child"
    and "\<And>bs. F (tag_of u) (store before) bs = read_map store (unknown_fields depth (tag_of u) before) bs"
  shows "rebuilds F (store before) (encode_unknown u) (store (before @ [u]))"
proof -
  have "\<exists>number wt payload. encode_unknown u = tag_bytes number wt @ payload \<and> tag_of u = MakeTag number wt \<and>
      \<not> ends_message (MakeTag number wt) \<and>
      (\<forall>us rest. unknown_fields depth (tag_of u) us (payload @ rest) = Some (us @ [u], length payload))"
    by (rule unknown_field_read [OF assms(1,2)]) (rule assms(3))
  then obtain number wt payload where
      e: "encode_unknown u = tag_bytes number wt @ payload" "tag_of u = MakeTag number wt" "\<not> ends_message (MakeTag number wt)"
      "\<And>us rest. unknown_fields depth (tag_of u) us (payload @ rest) = Some (us @ [u], length payload)"
    by blast
  show ?thesis
    unfolding e(1) by (rule rebuilds_field [OF e(3)]) (simp add: assms(4) read_map_def e(4) flip: e(2))
qed

lemma unknown_fields_loop:
  assumes "list_all (\<lambda>u. unknown_ok u depth) us" and "int (length (encode_unknowns us)) \<le> INT_MAX - 16"
  shows "rebuilds (unknown_fields depth) before (encode_unknowns us) (before @ us)"
  using assms
proof (induction us arbitrary: depth before rule: unknown_fields_induct)
  case 1
  then show ?case
    by (simp add: rebuilds_Nil)
next
  case (2 u us)
  have small: "int (length (encode_unknown u)) \<le> INT_MAX - 16" "int (length (encode_unknowns us)) \<le> INT_MAX - 16"
    using 2(4) by (simp_all add: encode_unknowns_Cons)
  have ok: "unknown_ok u depth" "list_all (\<lambda>u. unknown_ok u depth) us"
    using 2(3) by simp_all
  have "rebuilds (unknown_fields (depth - 1)) [] (encode_unknowns child) child" if u: "u = TYPE_GROUP number child" for number child
  proof -
    have "int (length (encode_unknowns child)) \<le> INT_MAX - 16"
      using small(1) by (simp add: u encode_unknowns_def)
    moreover have "list_all (\<lambda>u. unknown_ok u (depth - 1)) child"
      using ok(1) by (simp add: u list.pred_map comp_def)
    ultimately show ?thesis
      using 2(2) [OF u, of "depth - 1" "[]"] by simp
  qed
  then have "rebuilds (unknown_fields depth) before (encode_unknown u) (before @ [u])"
    by (rule unknown_field_rebuilt [where store = "\<lambda>us. us", OF ok(1) small(1)])
       (simp_all add: read_map_def case_prod_unfold option.map_ident)
  then show ?case
    using 2(1) [OF ok(2) small(2), of "before @ [u]"] by (simp add: encode_unknowns_Cons rebuilds_append)
qed

text \<open>\<open>F\<close> stands for the reader of a message that keeps its unknown fields with \<open>store\<close>.\<close>

lemma unknown_fields_rebuilt:
  assumes "list_all (\<lambda>u. unknown_ok u depth) us" and "int (length (encode_unknowns us)) \<le> INT_MAX - 16"
    and "\<And>u before bs. u \<in> set us \<Longrightarrow> F (tag_of u) (store before) bs = read_map store (unknown_fields depth (tag_of u) before) bs"
  shows "rebuilds F (store before) (encode_unknowns us) (store (before @ us))"
  using assms
proof (induction us arbitrary: before)
  case Nil
  then show ?case
    by (simp add: rebuilds_Nil)
next
  case (Cons u us)
  have small: "int (length (encode_unknown u)) \<le> INT_MAX - 16" "int (length (encode_unknowns us)) \<le> INT_MAX - 16"
    using Cons.prems(2) by (simp_all add: encode_unknowns_Cons)
  have "rebuilds (unknown_fields (depth - 1)) [] (encode_unknowns child) child" if u: "u = TYPE_GROUP number child" for number child
    using unknown_fields_loop [of "depth - 1" child "[]"] Cons.prems(1) small(1)
    by (simp add: u list.pred_map comp_def encode_unknowns_def)
  then have "rebuilds F (store before) (encode_unknown u) (store (before @ [u]))"
    using Cons.prems(1,3) small(1) by (intro unknown_field_rebuilt [where depth = depth]) simp_all
  moreover have "rebuilds F (store (before @ [u])) (encode_unknowns us) (store ((before @ [u]) @ us))"
    using Cons.IH [of "before @ [u]"] Cons.prems(1,3) small(2) by simp
  ultimately show ?case
    by (simp add: encode_unknowns_Cons rebuilds_append)
qed

section \<open>Messages\<close>

definition buff_ok :: "nat \<Rightarrow> buff_data \<Rightarrow> bool" where
  "buff_ok depth b \<longleftrightarrow> list_all (\<lambda>u. unknown_ok u depth \<and> tag_of u \<notin> {8, 21, 24, 26}) (buff_unknown b)"

definition test_ok :: "nat \<Rightarrow> test_msg \<Rightarrow> bool" where
  "test_ok depth m \<longleftrightarrow>
     valid_utf8 (msg m) \<and> list_all (\<lambda>u. unknown_ok u depth \<and> tag_of u \<notin> {8, 16, 24, 34, 42}) (test_unknown m) \<and>
     list_all (\<lambda>b. 0 < depth \<and> buff_ok (depth - 1) b) (buffs m)"

text \<open>A parsed message has no cached sizes yet.\<close>

definition buff_plain :: "buff_data \<Rightarrow> buff_data" where
  "buff_plain b = b\<lparr>victims_cached_byte_size := 0, buff_cached_size := 0\<rparr>"

definition test_plain :: "test_msg \<Rightarrow> test_msg" where
  "test_plain m = m\<lparr>buffs := map buff_plain (buffs m), test_cached_size := 0\<rparr>"

lemma known_tag_values:
  "MakeTag 1 0 = 8" "MakeTag 2 0 = 16" "MakeTag 2 5 = 21" "MakeTag 3 0 = 24" "MakeTag 3 2 = 26" "MakeTag 4 2 = 34" "MakeTag 5 2 = 42"
  by code_simp+

lemma rebuilds_if:
  "(c \<Longrightarrow> rebuilds F m bs m') \<Longrightarrow> (\<not> c \<Longrightarrow> m' = m) \<Longrightarrow> rebuilds F m (if c then bs else []) m'"
  by (simp add: rebuilds_Nil)

lemma BuffData_rebuilt:
  assumes "buff_ok depth b" and "int (length (encode_buff b)) \<le> INT_MAX - 16"
  shows "rebuilds (buff_reader depth) BuffData (encode_buff b) (buff_plain b)"
proof -
  let ?F = "buff_reader depth"
  let ?m1 = "BuffData\<lparr>buffid := buffid b\<rparr>"
  let ?m2 = "?m1\<lparr>remaintime := remaintime b\<rparr>"
  let ?m3 = "?m2\<lparr>victims := victims b\<rparr>"
  have small: "int (length (encode_numbers (victims b))) \<le> INT_MAX - 16" "int (length (encode_unknowns (buff_unknown b))) \<le> INT_MAX - 16"
    using assms(2) by (cases "victims b = []"; simp add: encode_buff_def)+
  have 1: "rebuilds ?F BuffData (if buffid b \<noteq> 0 then tag_bytes 1 0 @ varint_bytes (unat (buffid b)) else []) ?m1"
    by (intro rebuilds_if rebuilds_field)
       (simp_all add: known_tag_values ends_message_def buff_reader_def read_map_def read_varint_bytes, simp add: BuffData_def)
  have 2: "rebuilds ?F ?m1 (if remaintime b \<noteq> 0 then tag_bytes 2 5 @ WriteLittleEndianToArray (remaintime b) else []) ?m2"
    by (intro rebuilds_if rebuilds_field)
       (simp_all add: known_tag_values ends_message_def buff_reader_def read_map_def read_fixed little_endian_bytes, simp add: BuffData_def)
  have 3: "rebuilds ?F ?m2 (if victims b \<noteq> []
      then tag_bytes 3 2 @ varint_bytes (length (encode_numbers (victims b))) @ encode_numbers (victims b) else []) ?m3"
    by (intro rebuilds_if rebuilds_field)
       (simp_all add: known_tag_values ends_message_def buff_reader_def read_map_def read_packed_numbers [OF small(1)] BuffData_def)
  have "rebuilds ?F (?m3\<lparr>buff_unknown := []\<rparr>) (encode_unknowns (buff_unknown b)) (?m3\<lparr>buff_unknown := [] @ buff_unknown b\<rparr>)"
  proof (rule unknown_fields_rebuilt [where store = "\<lambda>u. ?m3\<lparr>buff_unknown := u\<rparr>" and depth = depth, OF _ small(2)])
    show "list_all (\<lambda>u. unknown_ok u depth) (buff_unknown b)"
      using assms(1) by (auto simp: buff_ok_def list_all_iff)
    show "?F (tag_of u) (?m3\<lparr>buff_unknown := before\<rparr>) bs =
        read_map (\<lambda>u. ?m3\<lparr>buff_unknown := u\<rparr>) (unknown_fields depth (tag_of u) before) bs"
      if "u \<in> set (buff_unknown b)" for u before bs
      using assms(1) that by (auto simp: buff_ok_def list_all_iff buff_reader_def)
  qed
  moreover have "?m3\<lparr>buff_unknown := []\<rparr> = ?m3" "?m3\<lparr>buff_unknown := [] @ buff_unknown b\<rparr> = buff_plain b"
    by (cases b, simp add: BuffData_def buff_plain_def)+
  ultimately have 4: "rebuilds ?F ?m3 (encode_unknowns (buff_unknown b)) (buff_plain b)"
    by (simp only:)
  show ?thesis
    unfolding encode_buff_def by (rule rebuilds_append [OF 1 rebuilds_append [OF 2 rebuilds_append [OF 3 4]]])
qed

lemma buffs_rebuilt:
  assumes "list_all (\<lambda>b. 0 < depth \<and> buff_ok (depth - 1) b) bs" and "int (length (encode_buffs bs)) \<le> INT_MAX - 16"
  shows "rebuilds (test_reader depth) m (encode_buffs bs) (m\<lparr>buffs := buffs m @ map buff_plain bs\<rparr>)"
  using assms
proof (induction bs arbitrary: m)
  case (Cons b bs)
  let ?e = "encode_buff b"
  have b: "0 < depth" "buff_ok (depth - 1) b" "int (length ?e) \<le> INT_MAX - 16" "int (length (encode_buffs bs)) \<le> INT_MAX - 16"
    using Cons.prems by (simp_all add: encode_buffs_Cons)
  have "read_buff depth (varint_bytes (length ?e) @ ?e @ rest) = Some (buff_plain b, length (varint_bytes (length ?e)) + length ?e)" for rest
    using b(1) read_size_bytes [OF b(3), of "?e @ rest"] rebuilds_whole [OF BuffData_rebuilt [OF b(2,3)]]
    by (simp add: read_buff_def read_then_def read_part_def)
  then have one: "rebuilds (test_reader depth) m (tag_bytes 4 2 @ varint_bytes (length ?e) @ ?e) (m\<lparr>buffs := buffs m @ [buff_plain b]\<rparr>)"
    by (intro rebuilds_field) (simp_all add: known_tag_values ends_message_def test_reader_def read_map_def)
  have "list_all (\<lambda>b. 0 < depth \<and> buff_ok (depth - 1) b) bs"
    using Cons.prems(1) unfolding list.pred_inject(2) by (rule conjunct2)
  from rebuilds_append [OF one Cons.IH [OF this b(4)]] show ?case
    by (simp add: encode_buffs_Cons)
qed (simp add: rebuilds_Nil)

lemma TEST_MSG_rebuilt:
  assumes "test_ok depth m" and "int (length (encode_test m)) \<le> INT_MAX - 16"
  shows "rebuilds (test_reader depth) (TEST_MSG_Clear m0) (encode_test m) ((test_plain m)\<lparr>test_cached_size := test_cached_size m0\<rparr>)"
proof -
  let ?F = "test_reader depth"
  let ?m0 = "TEST_MSG_Clear m0"
  let ?m1 = "?m0\<lparr>test_id := test_id m\<rparr>"
  let ?m2 = "?m1\<lparr>hp := hp m\<rparr>"
  let ?m3 = "?m2\<lparr>attack := attack m\<rparr>"
  let ?m4 = "?m3\<lparr>buffs := map buff_plain (buffs m)\<rparr>"
  let ?m5 = "?m4\<lparr>msg := msg m\<rparr>"
  have small: "int (length (encode_buffs (buffs m))) \<le> INT_MAX - 16" "int (length (msg m)) \<le> INT_MAX - 16"
      "int (length (encode_unknowns (test_unknown m))) \<le> INT_MAX - 16"
    using encode_test_parts [of m] assms(2) by linarith+
  have 1: "rebuilds ?F ?m0 (if test_id m \<noteq> 0 then tag_bytes 1 0 @ varint_bytes (unat (test_id m)) else []) ?m1"
    by (intro rebuilds_if rebuilds_field)
       (simp_all add: known_tag_values ends_message_def test_reader_def read_map_def read_varint_bytes, simp add: TEST_MSG_Clear_def)
  have 2: "rebuilds ?F ?m1 (if hp m \<noteq> 0 then tag_bytes 2 0 @ varint_bytes (unat (hp m)) else []) ?m2"
    by (intro rebuilds_if rebuilds_field)
       (simp_all add: known_tag_values ends_message_def test_reader_def read_map_def read_varint32_bytes, simp add: TEST_MSG_Clear_def)
  have 3: "rebuilds ?F ?m2 (if attack m \<noteq> 0 then tag_bytes 3 0 @ varint_bytes (unat (attack m)) else []) ?m3"
    by (intro rebuilds_if rebuilds_field)
       (simp_all add: known_tag_values ends_message_def test_reader_def read_map_def read_varint32_bytes, simp add: TEST_MSG_Clear_def)
  have 4: "rebuilds ?F ?m3 (encode_buffs (buffs m)) ?m4"
    using buffs_rebuilt [of depth "buffs m" ?m3] assms(1) small(1) by (simp add: test_ok_def TEST_MSG_Clear_def)
  have 5: "rebuilds ?F ?m4 (if msg m \<noteq> [] then tag_bytes 5 2 @ varint_bytes (length (msg m)) @ msg m else []) ?m5"
    using assms(1)
    by (intro rebuilds_if rebuilds_field)
       (simp_all add: known_tag_values ends_message_def test_reader_def read_map_def read_if_def read_sized_bytes [OF small(2)]
          test_ok_def TEST_MSG_Clear_def)
  have "rebuilds ?F (?m5\<lparr>test_unknown := []\<rparr>) (encode_unknowns (test_unknown m)) (?m5\<lparr>test_unknown := [] @ test_unknown m\<rparr>)"
  proof (rule unknown_fields_rebuilt [where store = "\<lambda>u. ?m5\<lparr>test_unknown := u\<rparr>" and depth = depth, OF _ small(3)])
    show "list_all (\<lambda>u. unknown_ok u depth) (test_unknown m)"
      using assms(1) by (auto simp: test_ok_def list_all_iff)
    show "?F (tag_of u) (?m5\<lparr>test_unknown := before\<rparr>) bs =
        read_map (\<lambda>u. ?m5\<lparr>test_unknown := u\<rparr>) (unknown_fields depth (tag_of u) before) bs"
      if "u \<in> set (test_unknown m)" for u before bs
      using assms(1) that by (auto simp: test_ok_def list_all_iff test_reader_def)
  qed
  moreover have "?m5\<lparr>test_unknown := []\<rparr> = ?m5"
      "?m5\<lparr>test_unknown := [] @ test_unknown m\<rparr> = (test_plain m)\<lparr>test_cached_size := test_cached_size m0\<rparr>"
    by (cases m, cases m0, simp add: TEST_MSG_Clear_def test_plain_def)+
  ultimately have 6: "rebuilds ?F ?m5 (encode_unknowns (test_unknown m)) ((test_plain m)\<lparr>test_cached_size := test_cached_size m0\<rparr>)"
    by (simp only:)
  show ?thesis
    unfolding encode_test_def
    by (rule rebuilds_append [OF 1 rebuilds_append [OF 2 rebuilds_append [OF 3 rebuilds_append [OF 4 rebuilds_append [OF 5 6]]]]])
qed

end
