(* ===== verification/Pb_Roundtrip_Props.thy ===== *)
theory Pb_Roundtrip_Props
  imports Pb_Roundtrip Pb_Message_Props
begin

text \<open>
  Serializing and parsing are inverse: every message whose unknown fields the wire format allows comes
  back as it was, and every message that has been parsed is of this kind, so the server relays what
  it has received without a change.
\<close>

section \<open>What is parsed can be sent\<close>

lemma make_parts: "MakeTag (drop_bit 3 tag) (tag AND 7) = tag"
proof (rule bit_eqI)
  fix n
  have "tag AND 7 = take_bit 3 tag"
    by (simp add: take_bit_eq_mask mask_numeral)
  then show "bit (MakeTag (drop_bit 3 tag) (tag AND 7)) n \<longleftrightarrow> bit tag n"
    by (auto simp: MakeTag_def bit_or_iff bit_push_bit_iff bit_drop_bit_eq bit_take_bit_iff dest: bit_imp_le_length)
qed

lemma unknown_reader_ok:
  assumes "unknown_reader G tag us bs = Some (us', n)"
    and "\<And>tag bs child n. G tag bs = Some (child, n) \<Longrightarrow> 0 < depth \<and> list_all (\<lambda>u. unknown_ok u (depth - 1)) child"
  shows "\<exists>u. us' = us @ [u] \<and> unknown_ok u depth \<and> tag_of u = tag"
proof -
  have "unat tag < 2 ^ 32"
    by (rule order_less_le_trans [OF unsigned_less]) simp
  then have "unat (drop_bit 3 tag) < 2 ^ 29"
    by (simp only: unat_drop_bit_eq) (simp add: drop_bit_eq_div)
  then have n: "valid_number (drop_bit 3 tag)" if "drop_bit 3 tag \<noteq> 0"
    using that by (simp add: valid_number_def)
  have t: "tag AND 7 = wt \<Longrightarrow> MakeTag (drop_bit 3 tag) wt = tag" for wt
    using make_parts [of tag] by simp
  show ?thesis
    using assms(1)
    by (auto simp: unknown_reader_def Let_def read_map_def AddVarint_def AddFixed64_def AddFixed32_def AddLengthDelimited_def AddGroup_def
        list.pred_map comp_def split: if_splits dest!: assms(2) intro!: n t)
qed

lemma group_reader_ok:
  "group_reader depth tag bs = Some (child, n) \<Longrightarrow> 0 < depth \<and> list_all (\<lambda>u. unknown_ok u (depth - 1)) child"
proof (induction depth arbitrary: tag bs child n)
  case 0
  then show ?case
    by (simp add: group_reader.simps)
next
  case (Suc depth)
  then obtain e n' where l: "message_loop (unknown_fields depth) [] bs = Some ((child, e), n')"
    by (auto simp: group_reader.simps split: option.splits if_splits)
  have "list_all (\<lambda>u. unknown_ok u depth) child"
    by (rule message_loop_invariant [where P = "list_all (\<lambda>u. unknown_ok u depth)", OF _ l])
       (auto dest!: unknown_reader_ok [where depth = depth] Suc.IH)
  then show ?case
    by simp
qed

lemma unknown_fields_ok:
  "unknown_fields depth tag us bs = Some (us', n) \<Longrightarrow> \<exists>u. us' = us @ [u] \<and> unknown_ok u depth \<and> tag_of u = tag"
  by (rule unknown_reader_ok) (auto dest: group_reader_ok)

lemma buff_reader_ok: "buff_ok depth b \<Longrightarrow> buff_reader depth tag b bs = Some (b', n) \<Longrightarrow> buff_ok depth b'"
  by (auto simp: buff_reader_def read_map_def buff_ok_def split: if_splits dest!: unknown_fields_ok)

lemma read_buff_ok: "read_buff depth bs = Some (b, n) \<Longrightarrow> 0 < depth \<and> buff_ok (depth - 1) b"
proof -
  assume r: "read_buff depth bs = Some (b, n)"
  then have d: "0 < depth"
    by (auto simp: read_buff_def split: if_splits)
  with r obtain part k where "message_loop (buff_reader (depth - 1)) BuffData part = Some ((b, None), k)"
    by (auto simp: read_buff_def read_then_def read_part_def whole_def split: option.splits if_splits)
  from message_loop_invariant [where P = "buff_ok (depth - 1)", OF buff_reader_ok this] d show ?thesis
    by (auto simp: buff_ok_def BuffData_def)
qed

lemma test_reader_ok: "test_ok depth m \<Longrightarrow> test_reader depth tag m bs = Some (m', n) \<Longrightarrow> test_ok depth m'"
  by (auto simp: test_reader_def read_map_def read_if_def test_ok_def split: if_splits option.splits
      dest!: unknown_fields_ok read_buff_ok)

lemma parsed_ok:
  assumes "TEST_MSG_ParseFromArray address data m0 = Inr (Some m)"
  shows "test_ok 100 m"
proof -
  obtain n where n: "message_loop (test_reader 100) (TEST_MSG_Clear m0) data = Some ((m, None), n)"
    using assms by (auto simp: TEST_MSG_ParseFromArray_whole whole_def default_recursion_limit_def split: option.splits)
  show ?thesis
    by (rule message_loop_invariant [where P = "test_ok 100", OF test_reader_ok n])
       (simp_all add: test_ok_def TEST_MSG_Clear_def valid_utf8_def)
qed

lemma parse_serialized:
  assumes "test_ok 100 m" and "int (length (encode_test m)) \<le> INT_MAX - 16"
  shows "TEST_MSG_SerializeAsString junk m = Inr (encode_test m, snd (TEST_MSG_ByteSizeLong m)) \<and>
    TEST_MSG_ParseFromArray address (encode_test m) m0 = Inr (Some ((test_plain m)\<lparr>test_cached_size := test_cached_size m0\<rparr>))"
proof
  show "TEST_MSG_SerializeAsString junk m = Inr (encode_test m, snd (TEST_MSG_ByteSizeLong m))"
    using assms(2) by (simp add: TEST_MSG_SerializeAsString_bytes)
  show "TEST_MSG_ParseFromArray address (encode_test m) m0 = Inr (Some ((test_plain m)\<lparr>test_cached_size := test_cached_size m0\<rparr>))"
    using rebuilds_whole [OF TEST_MSG_rebuilt [OF assms]] by (simp add: TEST_MSG_ParseFromArray_whole default_recursion_limit_def)
qed

text \<open>An example with an unknown field.\<close>

lemma parse_example:
  "TEST_MSG_ParseFromArray (\<lambda>s. 0) [8, 150, 1, 48, 1] TEST_MSG = Inr (Some (TEST_MSG\<lparr>test_id := 150, test_unknown := [TYPE_VARINT 6 1]\<rparr>))"
  "length (encode_test (TEST_MSG\<lparr>test_id := 150, test_unknown := [TYPE_VARINT 6 1]\<rparr>)) = 5"
  "(test_plain (TEST_MSG\<lparr>test_id := 150, test_unknown := [TYPE_VARINT 6 1]\<rparr>))\<lparr>test_cached_size := test_cached_size TEST_MSG\<rparr> =
    TEST_MSG\<lparr>test_id := 150, test_unknown := [TYPE_VARINT 6 1]\<rparr>"
proof -
  let ?m = "TEST_MSG\<lparr>test_id := 150, test_unknown := [TYPE_VARINT 6 1]\<rparr>"
  have e: "encode_test ?m = [8, 150, 1, 48, 1]"
    by code_simp
  have "MakeTag 6 0 = 48"
    by code_simp
  then have "test_ok 100 ?m"
    by (simp add: test_ok_def TEST_MSG_def valid_utf8_def valid_number_def)
  moreover show p: "(test_plain ?m)\<lparr>test_cached_size := test_cached_size TEST_MSG\<rparr> = ?m"
    by (simp add: test_plain_def TEST_MSG_def)
  ultimately show "TEST_MSG_ParseFromArray (\<lambda>s. 0) [8, 150, 1, 48, 1] TEST_MSG = Inr (Some ?m)"
    using parse_serialized [of ?m junk "\<lambda>s. 0" TEST_MSG] unfolding e p by (simp add: INT_MAX_def)
  show "length (encode_test ?m) = 5"
    by (simp add: e)
qed

text \<open>C11. A message that is parsed has a valid string, its unknown fields have numbers and tags of their own
  that the wire format allows, and groups are at most as deep as the recursion limit.\<close>

theorem TEST_MSG_parsed_well_formed:
  assumes "TEST_MSG_ParseFromArray address data m0 = Inr (Some m)"
  shows "test_ok 100 m"
  by (rule parsed_ok [OF assms])

theorem TEST_MSG_parsed_well_formed_witness: "test_ok 100 (TEST_MSG\<lparr>test_id := 150, test_unknown := [TYPE_VARINT 6 1]\<rparr>)"
  by (rule TEST_MSG_parsed_well_formed [OF parse_example(1)])

section \<open>Round trips\<close>

text \<open>C6. What \<open>SerializeAsString\<close> makes of a well-formed message, \<open>ParseFromArray\<close> turns back into that
  message, into whatever message object it is parsed.\<close>

theorem TEST_MSG_roundtrip:
  assumes "test_ok 100 m" and "int (length (encode_test m)) \<le> INT_MAX - 16"
  shows "\<exists>data m'. TEST_MSG_SerializeAsString junk m = Inr (data, m') \<and>
    TEST_MSG_ParseFromArray address data m0 = Inr (Some ((test_plain m)\<lparr>test_cached_size := test_cached_size m0\<rparr>))"
  using parse_serialized [OF assms] by blast

theorem TEST_MSG_roundtrip_witness:
  "\<exists>data m'. TEST_MSG_SerializeAsString (replicate 32 0) (TEST_MSG\<lparr>hp := 300, msg := [65]\<rparr>) = Inr (data, m') \<and>
    TEST_MSG_ParseFromArray (\<lambda>s. 0) data TEST_MSG = Inr (Some (TEST_MSG\<lparr>hp := 300, msg := [65]\<rparr>))"
proof -
  have "test_ok 100 (TEST_MSG\<lparr>hp := 300, msg := [65]\<rparr>)"
    by code_simp
  moreover have "length (encode_test (TEST_MSG\<lparr>hp := 300, msg := [65]\<rparr>)) = 6"
    by code_simp
  ultimately show ?thesis
    using TEST_MSG_roundtrip [of "TEST_MSG\<lparr>hp := 300, msg := [65]\<rparr>" "replicate 32 0" "\<lambda>s. 0" TEST_MSG]
    by (simp add: INT_MAX_def test_plain_def TEST_MSG_def)
qed

text \<open>C7. Whatever bytes a message was parsed from, serializing it and parsing the result gives the same
  message again, unknown fields included.\<close>

theorem TEST_MSG_relayed_unchanged:
  assumes "TEST_MSG_ParseFromArray address data m0 = Inr (Some m)" and "int (length (encode_test m)) \<le> INT_MAX - 16"
  shows "\<exists>data' m'. TEST_MSG_SerializeAsString junk m = Inr (data', m') \<and>
    TEST_MSG_ParseFromArray address' data' m1 = Inr (Some ((test_plain m)\<lparr>test_cached_size := test_cached_size m1\<rparr>))"
  using parse_serialized [OF parsed_ok [OF assms(1)] assms(2)] by blast

theorem TEST_MSG_relayed_unchanged_witness:
  "\<exists>data' m'. TEST_MSG_SerializeAsString (replicate 32 0) (TEST_MSG\<lparr>test_id := 150, test_unknown := [TYPE_VARINT 6 1]\<rparr>) = Inr (data', m') \<and>
    TEST_MSG_ParseFromArray (\<lambda>s. 0) data' TEST_MSG = Inr (Some (TEST_MSG\<lparr>test_id := 150, test_unknown := [TYPE_VARINT 6 1]\<rparr>))"
  using TEST_MSG_relayed_unchanged [OF parse_example(1), of "replicate 32 0" "\<lambda>s. 0" TEST_MSG] parse_example(2)
  unfolding parse_example(3) by (simp add: INT_MAX_def)

end
