(* ===== verification/Pb_Digits.thy ===== *)
theory Pb_Digits
  imports Core_Prelude
begin

text \<open>
  Numbers as strings of digits: the reference the printing and parsing functions of the protobuf
  library are proved against. \<open>digits_in\<close> is the shortest representation in a base,
  \<open>number_of_digits\<close> the number a string of decimal digits stands for.
\<close>

lemma unat_u64_less: "unat (v :: u64) < 2 ^ 64"
  using unsigned_less [of v] by simp

definition digit_in :: "bool \<Rightarrow> nat \<Rightarrow> char" where
  "digit_in upper d = char_of (if d < 10 then 48 + d else if upper then 55 + d else 87 + d)"

fun digits_in :: "nat \<Rightarrow> bool \<Rightarrow> nat \<Rightarrow> string" where
  "digits_in radix upper n =
     (if n < radix \<or> radix < 2 then [digit_in upper n]
      else digits_in radix upper (n div radix) @ [digit_in upper (n mod radix)])"

declare digits_in.simps [simp del]

definition zero_padded :: "nat \<Rightarrow> string \<Rightarrow> string" where
  "zero_padded w s = replicate (w - length s) (CHR ''0'') @ s"

lemma digits_in_append:
  assumes "2 \<le> radix" and "0 < q" and "0 < k" and "r < radix ^ k"
  shows "digits_in radix u (q * radix ^ k + r) = digits_in radix u q @ zero_padded k (digits_in radix u r)"
  using assms(3,4)
proof (induction k arbitrary: r)
  case 0
  then show ?case
    by simp
next
  case (Suc k)
  let ?n = "q * radix ^ Suc k + r"
  have zero: "digit_in u 0 = CHR ''0''"
    by (simp add: digit_in_def char_of_def bit_0)
  have n: "?n = (q * radix ^ k) * radix + r"
    by simp
  have "1 \<le> q * radix ^ k"
    using assms(1,2) by (cases "q * radix ^ k") auto
  then have "1 * radix \<le> q * radix ^ k * radix"
    by (rule mult_le_mono1)
  then have big: "\<not> ?n < radix"
    unfolding n not_less by (simp only: mult_1 trans_le_add1)
  have div_n: "?n div radix = q * radix ^ k + r div radix" "?n mod radix = r mod radix"
    unfolding n using assms(1) by simp_all
  have step: "digits_in radix u ?n = digits_in radix u (q * radix ^ k + r div radix) @ [digit_in u (r mod radix)]"
    using big assms(1) digits_in.simps [of radix u ?n] unfolding div_n by simp
  show ?case
  proof (cases "k = 0")
    case True
    then show ?thesis
      using Suc.prems step assms(1) by (simp add: digits_in.simps [of radix u r] zero_padded_def)
  next
    case False
    then have k: "0 < k"
      by simp
    have "r div radix < radix ^ k"
      using Suc.prems by (simp add: less_mult_imp_div_less mult.commute)
    note IH = Suc.IH [OF k this]
    show ?thesis
    proof (cases "r < radix")
      case True
      then show ?thesis
        using k assms(1) unfolding step IH
        by (simp add: digits_in.simps [of radix u 0] digits_in.simps [of radix u r] zero_padded_def zero
            replicate_append_same flip: replicate_Suc)
    next
      case r: False
      then show ?thesis
        using assms(1) unfolding step IH
        by (simp add: digits_in.simps [of radix u r] zero_padded_def)
    qed
  qed
qed

section \<open>Decimal digits\<close>

definition is_digit :: "char \<Rightarrow> bool" where
  "is_digit c \<longleftrightarrow> 48 \<le> (of_char c :: nat) \<and> (of_char c :: nat) \<le> 57"

definition digit_of :: "char \<Rightarrow> nat" where
  "digit_of c = of_char c - 48"

definition number_of_digits :: "string \<Rightarrow> nat" where
  "number_of_digits = foldl (\<lambda>v c. 10 * v + digit_of c) 0"

abbreviation decimal_digits :: "nat \<Rightarrow> string" where
  "decimal_digits \<equiv> digits_in 10 False"

lemma digit_in_10:
  assumes "d < 10"
  shows "digit_in u d = char_of (48 + d)" "is_digit (digit_in u d)" "digit_of (digit_in u d) = d" "digit_in u d \<noteq> CHR 0x00"
  using assms by (auto simp: digit_in_def is_digit_def digit_of_def char_of_eq_iff take_bit_nat_eq_self)

lemma number_of_digits_snoc: "number_of_digits (ds @ [c]) = 10 * number_of_digits ds + digit_of c"
  by (simp add: number_of_digits_def)

lemma decimal_digits: "number_of_digits (decimal_digits n) = n \<and> (\<forall>c \<in> set (decimal_digits n). is_digit c) \<and> decimal_digits n \<noteq> []"
proof (induction n rule: less_induct)
  case (less n)
  show ?case
  proof (cases "n < 10")
    case True
    then show ?thesis
      by (simp add: digits_in.simps [of 10 False n] number_of_digits_def digit_in_10(2,3))
  next
    case False
    then show ?thesis
      using less.IH [of "n div 10"]
      by (simp add: digits_in.simps [of 10 False n] number_of_digits_snoc digit_in_10(2,3))
  qed
qed

lemma length_decimal_digits: "n < 10 ^ k \<Longrightarrow> 0 < k \<Longrightarrow> length (decimal_digits n) \<le> k"
proof (induction k arbitrary: n)
  case 0
  then show ?case
    by simp
next
  case (Suc k)
  show ?case
  proof (cases "n < 10")
    case True
    then show ?thesis
      by (simp add: digits_in.simps [of 10 False n])
  next
    case False
    then have "0 < k"
      using Suc.prems by (cases k) auto
    then show ?thesis
      using Suc.IH [of "n div 10"] Suc.prems False by (simp add: digits_in.simps [of 10 False n] less_mult_imp_div_less)
  qed
qed

lemma digits_in_small: "n < radix \<Longrightarrow> digits_in radix u n = [digit_in u n]"
  by (simp add: digits_in.simps [of radix u n])

lemma digits_in_nonempty: "digits_in radix u n \<noteq> []"
  by (simp add: digits_in.simps [of radix u n])

lemma zero_padded_length: "length s \<le> w \<Longrightarrow> length (zero_padded w s) = w"
  by (simp add: zero_padded_def)

text \<open>A number whose lower \<open>b\<close> digits are padded is printed part by part.\<close>

lemma zero_padded_parts:
  assumes "0 < a" and "0 < b" and "n < 10 ^ (a + b)"
  shows "zero_padded (a + b) (decimal_digits n) = zero_padded a (decimal_digits (n div 10 ^ b)) @ zero_padded b (decimal_digits (n mod 10 ^ b))"
proof (cases "n div 10 ^ b = 0")
  case True
  then have "n < 10 ^ b"
    by (simp add: div_eq_0_iff)
  moreover have "digit_in False 0 = CHR ''0''"
    by (simp add: digit_in_def char_of_def bit_0)
  moreover have "length (decimal_digits n) \<le> b"
    by (rule length_decimal_digits) fact+
  moreover obtain a' where a: "a = Suc a'"
    using assms(1) by (cases a) auto
  moreover have "replicate (Suc a' + b - length (decimal_digits n)) (CHR ''0'') =
      replicate (Suc a') (CHR ''0'') @ replicate (b - length (decimal_digits n)) (CHR ''0'')"
    using \<open>length (decimal_digits n) \<le> b\<close> by (simp add: Suc_diff_le flip: replicate_add)
  ultimately show ?thesis
    using True by (simp add: digits_in_small zero_padded_def replicate_app_Cons_same)
next
  case False
  have "n div 10 ^ b < 10 ^ a"
    using assms(3) by (simp add: less_mult_imp_div_less power_add)
  then have "length (decimal_digits (n div 10 ^ b)) \<le> a"
    by (rule length_decimal_digits) fact
  moreover have "decimal_digits n = decimal_digits (n div 10 ^ b) @ zero_padded b (decimal_digits (n mod 10 ^ b))"
    using digits_in_append [of 10 "n div 10 ^ b" b "n mod 10 ^ b" False] False assms(2) unfolding div_mult_mod_eq by simp
  moreover have "length (zero_padded b (decimal_digits (n mod 10 ^ b))) = b"
    using assms(2) by (intro zero_padded_length length_decimal_digits) simp_all
  ultimately show ?thesis
    by (simp add: zero_padded_def [of "a + b"] zero_padded_def [of a])
qed

lemma decimal_digits_parts:
  assumes "0 < b" and "10 ^ b \<le> n"
  shows "decimal_digits n = decimal_digits (n div 10 ^ b) @ zero_padded b (decimal_digits (n mod 10 ^ b))"
  using digits_in_append [of 10 "n div 10 ^ b" b "n mod 10 ^ b" False] assms
  unfolding div_mult_mod_eq by (simp add: div_greater_zero_iff)

lemma length_decimal_digits_ge: "10 ^ k \<le> n \<Longrightarrow> k < length (decimal_digits n)"
proof (induction k arbitrary: n)
  case 0
  then show ?case
    by (simp add: digits_in_nonempty)
next
  case (Suc k)
  then have "10 ^ k \<le> n div 10" and "\<not> n < 10"
    by (simp_all add: less_eq_div_iff_mult_less_eq mult.commute not_less order_trans [of 10 "10 ^ Suc k"])
  then show ?case
    using Suc.IH by (simp add: digits_in.simps [of 10 False n])
qed

lemma zero_padded_full: "10 ^ k \<le> n \<Longrightarrow> zero_padded (Suc k) (decimal_digits n) = decimal_digits n"
  using length_decimal_digits_ge [of k n] by (simp add: zero_padded_def)

lemma zero_padded_snoc:
  assumes "2 \<le> radix" and "0 < k"
  shows "zero_padded (Suc k) (digits_in radix u n) = zero_padded k (digits_in radix u (n div radix)) @ [digit_in u (n mod radix)]"
proof (cases "n < radix")
  case True
  have "digit_in u 0 = CHR ''0''"
    by (simp add: digit_in_def char_of_def bit_0)
  moreover obtain k' where "k = Suc k'"
    using assms(2) by (cases k) auto
  ultimately show ?thesis
    using True assms(1) by (simp add: digits_in_small zero_padded_def replicate_append_same)
next
  case False
  then show ?thesis
    using assms(1) by (simp add: digits_in.simps [of radix u n] zero_padded_def)
qed

text \<open>A signed number, and the number a signed string stands for.\<close>

definition signed_digits :: "int \<Rightarrow> string" where
  "signed_digits i = (if i < 0 then CHR ''-'' # decimal_digits (nat (- i)) else decimal_digits (nat i))"

end
