(* ===== verification/Pb_Uint128.thy ===== *)
theory Pb_Uint128
  imports Pb_Digits
begin

text \<open>
  The 128-bit unsigned integers of stubs/int128.h and stubs/int128.cc: two 64-bit halves, the
  operators that work on them with the carries written out, and the long division.
  \<open>word128\<close> is the number a pair of halves stands for, a word of 128 bits; every operator is
  proved to be the operation of that type. The \<open>GOOGLE_DCHECK\<close>s of debug builds are left out, and
  the shift counts, which are undefined when negative, are natural numbers.
\<close>

section \<open>The code\<close>

datatype uint128 = Uint128 (Uint128High64: u64) (Uint128Low64: u64)

definition uint128_of_uint64 :: "u64 \<Rightarrow> uint128" where
  "uint128_of_uint64 bottom = Uint128 0 bottom"

definition uint128_of_int :: "32 word \<Rightarrow> uint128" where
  "uint128_of_int bottom = Uint128 (if bottom <s 0 then - 1 else 0) (scast bottom)"

definition kuint128max :: uint128 where
  "kuint128max = Uint128 0xFFFFFFFFFFFFFFFF 0xFFFFFFFFFFFFFFFF"

definition uint128_eq :: "uint128 \<Rightarrow> uint128 \<Rightarrow> bool" where
  "uint128_eq lhs rhs \<longleftrightarrow> Uint128Low64 lhs = Uint128Low64 rhs \<and> Uint128High64 lhs = Uint128High64 rhs"

definition uint128_less :: "uint128 \<Rightarrow> uint128 \<Rightarrow> bool" where
  "uint128_less lhs rhs \<longleftrightarrow> (if Uint128High64 lhs = Uint128High64 rhs then Uint128Low64 lhs < Uint128Low64 rhs
                             else Uint128High64 lhs < Uint128High64 rhs)"

definition uint128_less_eq :: "uint128 \<Rightarrow> uint128 \<Rightarrow> bool" where
  "uint128_less_eq lhs rhs \<longleftrightarrow> (if Uint128High64 lhs = Uint128High64 rhs then Uint128Low64 lhs \<le> Uint128Low64 rhs
                                else Uint128High64 lhs \<le> Uint128High64 rhs)"

definition uint128_negate :: "uint128 \<Rightarrow> uint128" where
  "uint128_negate val =
     (let hi_flip = NOT (Uint128High64 val); lo_flip = NOT (Uint128Low64 val); lo_add = lo_flip + 1
      in if lo_add < lo_flip then Uint128 (hi_flip + 1) lo_add else Uint128 hi_flip lo_add)"

definition uint128_is_zero :: "uint128 \<Rightarrow> bool" where
  "uint128_is_zero val \<longleftrightarrow> Uint128High64 val = 0 \<and> Uint128Low64 val = 0"

definition uint128_not :: "uint128 \<Rightarrow> uint128" where
  "uint128_not val = Uint128 (NOT (Uint128High64 val)) (NOT (Uint128Low64 val))"

definition uint128_logic :: "(u64 \<Rightarrow> u64 \<Rightarrow> u64) \<Rightarrow> uint128 \<Rightarrow> uint128 \<Rightarrow> uint128" where
  "uint128_logic f lhs rhs =
     Uint128 (f (Uint128High64 lhs) (Uint128High64 rhs)) (f (Uint128Low64 lhs) (Uint128Low64 rhs))"

definition uint128_shl :: "uint128 \<Rightarrow> nat \<Rightarrow> uint128" where
  "uint128_shl val amount =
     (if amount < 64 then
        if amount = 0 then val
        else Uint128 (push_bit amount (Uint128High64 val) OR drop_bit (64 - amount) (Uint128Low64 val))
                     (push_bit amount (Uint128Low64 val))
      else if amount < 128 then Uint128 (push_bit (amount - 64) (Uint128Low64 val)) 0
      else Uint128 0 0)"

definition uint128_shr :: "uint128 \<Rightarrow> nat \<Rightarrow> uint128" where
  "uint128_shr val amount =
     (if amount < 64 then
        if amount = 0 then val
        else Uint128 (drop_bit amount (Uint128High64 val))
                     (drop_bit amount (Uint128Low64 val) OR push_bit (64 - amount) (Uint128High64 val))
      else if amount < 128 then Uint128 0 (drop_bit (amount - 64) (Uint128High64 val))
      else Uint128 0 0)"

definition uint128_add :: "uint128 \<Rightarrow> uint128 \<Rightarrow> uint128" where
  "uint128_add a b =
     (let h = Uint128High64 a + Uint128High64 b; lolo = Uint128Low64 a + Uint128Low64 b
      in Uint128 (if lolo < Uint128Low64 a then h + 1 else h) lolo)"

definition uint128_sub :: "uint128 \<Rightarrow> uint128 \<Rightarrow> uint128" where
  "uint128_sub a b =
     (let h = Uint128High64 a - Uint128High64 b
      in Uint128 (if Uint128Low64 b > Uint128Low64 a then h - 1 else h) (Uint128Low64 a - Uint128Low64 b))"

text \<open>The product of four digits of 32 bits each; what would be the digits above the fourth is lost.\<close>

definition uint128_mul :: "uint128 \<Rightarrow> uint128 \<Rightarrow> uint128" where
  "uint128_mul a b =
     (let a96 = drop_bit 32 (Uint128High64 a);
          a64 = Uint128High64 a AND 0xffffffff;
          a32 = drop_bit 32 (Uint128Low64 a);
          a00 = Uint128Low64 a AND 0xffffffff;
          b96 = drop_bit 32 (Uint128High64 b);
          b64 = Uint128High64 b AND 0xffffffff;
          b32 = drop_bit 32 (Uint128Low64 b);
          b00 = Uint128Low64 b AND 0xffffffff;
          c96 = a96 * b00 + a64 * b32 + a32 * b64 + a00 * b96;
          c64 = a64 * b00 + a32 * b32 + a00 * b64;
          r = Uint128 (push_bit 32 c96 + c64) 0;
          r = uint128_add r (uint128_shl (uint128_of_uint64 (a32 * b00)) 32);
          r = uint128_add r (uint128_shl (uint128_of_uint64 (a00 * b32)) 32)
      in uint128_add r (uint128_of_uint64 (a00 * b00)))"

text \<open>The position of the highest bit, by bisection down to four bits and a table of sixteen
  entries of four bits for the rest.\<close>

definition STEP :: "nat \<Rightarrow> ('a::len) word \<times> nat \<Rightarrow> 'a word \<times> nat" where
  "STEP sh = (\<lambda>(n, pos). if push_bit sh 1 \<le> n then (drop_bit sh n, pos OR sh) else (n, pos))"

definition Fls64 :: "u64 \<Rightarrow> nat" where
  "Fls64 n =
     (let (n, pos) = STEP 0x20 (n, 0);
          (n32, pos) = STEP 0x04 (STEP 0x08 (STEP 0x10 (ucast n :: u32, pos)))
      in pos + unat (drop_bit (unat (push_bit 2 n32)) (0x3333333322221100 :: u64) AND 0x3))"

definition Fls128 :: "uint128 \<Rightarrow> nat" where
  "Fls128 n = (if Uint128High64 n \<noteq> 0 then Fls64 (Uint128High64 n) + 64 else Fls64 (Uint128Low64 n))"

text \<open>The \<open>while\<close> loop: the first argument is \<open>difference + 1\<close>, so the loop ends when it is 0.\<close>

fun divmod_loop :: "nat \<Rightarrow> uint128 \<Rightarrow> uint128 \<Rightarrow> uint128 \<Rightarrow> uint128 \<times> uint128" where
  "divmod_loop 0 divisor quot dividend = (quot, dividend)"
| "divmod_loop (Suc difference) divisor quot dividend =
     (let quot = uint128_shl quot 1;
          shifted_divisor = uint128_shl divisor difference
      in if uint128_less_eq shifted_divisor dividend
         then divmod_loop difference divisor (uint128_add quot (uint128_of_int 1)) (uint128_sub dividend shifted_divisor)
         else divmod_loop difference divisor quot dividend)"

text \<open>The quotient and the remainder; dividing by zero logs a fatal error, which throws.\<close>

definition DivModImpl :: "uint128 \<Rightarrow> uint128 \<Rightarrow> (uint128 \<times> uint128) outcome" where
  "DivModImpl dividend divisor =
     (if uint128_eq divisor (uint128_of_int 0) then Inl (StdException ''FatalException'')
      else if uint128_less dividend divisor then Inr (uint128_of_int 0, dividend)
      else Inr (divmod_loop (nat (int (Fls128 dividend) - int (Fls128 divisor) + 1)) divisor (uint128_of_int 0) dividend))"

definition uint128_div :: "uint128 \<Rightarrow> uint128 \<Rightarrow> uint128 outcome" where
  "uint128_div a b = and_then (DivModImpl a b) (\<lambda>(quot, remainder). Inr quot)"

definition uint128_mod :: "uint128 \<Rightarrow> uint128 \<Rightarrow> uint128 outcome" where
  "uint128_mod a b = and_then (DivModImpl a b) (\<lambda>(quot, remainder). Inr remainder)"

text \<open>The increments and decrements: what the expression is, and the new value of the variable.\<close>

definition post_increment :: "uint128 \<Rightarrow> uint128 \<times> uint128" where
  "post_increment x = (x, uint128_add x (uint128_of_int 1))"

definition post_decrement :: "uint128 \<Rightarrow> uint128 \<times> uint128" where
  "post_decrement x = (x, uint128_sub x (uint128_of_int 1))"

definition pre_increment :: "uint128 \<Rightarrow> uint128 \<times> uint128" where
  "pre_increment x = (let x = uint128_add x (uint128_of_int 1) in (x, x))"

definition pre_decrement :: "uint128 \<Rightarrow> uint128 \<times> uint128" where
  "pre_decrement x = (let x = uint128_sub x (uint128_of_int 1) in (x, x))"

text \<open>Printing. A stream has the flags the operator looks at; what the standard library does with
  them for a number of 64 bits is written out. Every setting of \<open>basefield\<close> other than \<open>hex\<close> and \<open>oct\<close>
  prints decimal numbers.\<close>

datatype basefield = Dec | Oct | Hex

record ostream =
  os_base :: basefield
  os_showbase :: bool
  os_uppercase :: bool
  os_left :: bool
  os_width :: nat
  os_fill :: char
  os_text :: string

definition radix_of :: "basefield \<Rightarrow> nat" where
  "radix_of base = (case base of Dec \<Rightarrow> 10 | Oct \<Rightarrow> 8 | Hex \<Rightarrow> 16)"

definition base_prefix :: "ostream \<Rightarrow> nat \<Rightarrow> string" where
  "base_prefix os n =
     (if os_showbase os \<and> n \<noteq> 0
      then case os_base os of Dec \<Rightarrow> [] | Oct \<Rightarrow> ''0'' | Hex \<Rightarrow> (if os_uppercase os then ''0X'' else ''0x'') else [])"

definition put_uint64 :: "ostream \<Rightarrow> u64 \<Rightarrow> string" where
  "put_uint64 os n = base_prefix os (unat n) @ digits_in (radix_of (os_base os)) (os_uppercase os) (unat n)"

text \<open>The divisor and its number of digits, the three chunks, and the padding to the width of the stream.\<close>

definition div_of_base :: "basefield \<Rightarrow> u64 \<times> nat" where
  "div_of_base base =
     (case base of Hex \<Rightarrow> (0x1000000000000000, 15) | Oct \<Rightarrow> (8 ^ 21, 21)
      | Dec \<Rightarrow> (10000000000000000000, 19))"

definition uint128_rep :: "ostream \<Rightarrow> uint128 \<Rightarrow> string outcome" where
  "uint128_rep os b =
     (let (div_word, div_base_log) = div_of_base (os_base os);
          chunk = (\<lambda>x. zero_padded div_base_log (put_uint64 (os\<lparr>os_showbase := False\<rparr>) (Uint128Low64 x)))
      in and_then (DivModImpl b (uint128_of_uint64 div_word)) (\<lambda>(high, low).
         and_then (DivModImpl high (uint128_of_uint64 div_word)) (\<lambda>(high, mid).
           Inr (if Uint128Low64 high \<noteq> 0 then put_uint64 os (Uint128Low64 high) @ chunk mid @ chunk low
                else if Uint128Low64 mid \<noteq> 0 then put_uint64 os (Uint128Low64 mid) @ chunk low
                else put_uint64 os (Uint128Low64 low)))))"

definition uint128_print :: "ostream \<Rightarrow> uint128 \<Rightarrow> ostream outcome" where
  "uint128_print os b =
     and_then (uint128_rep os b) (\<lambda>rep.
       let padding = replicate (os_width os - length rep) (os_fill os);
           rep = (if os_left os then rep @ padding else padding @ rep)
       in Inr (os\<lparr>os_width := 0, os_text := os_text os @ rep\<rparr>))"

section \<open>The number two halves stand for\<close>

definition word128 :: "uint128 \<Rightarrow> 128 word" where
  "word128 x = 2 ^ 64 * ucast (Uint128High64 x) + ucast (Uint128Low64 x)"

lemma uint_u64_less: "uint (a :: u64) < 2 ^ 64"
  using uint_lt2p [of a] by (simp del: power_numeral)

lemma uint_u64_nonneg: "0 \<le> uint (a :: u64)"
  by simp

lemma word128_of_int: "word128 x = word_of_int (2 ^ 64 * uint (Uint128High64 x) + uint (Uint128Low64 x))"
  unfolding word128_def ucast_eq by (simp only: of_int_add of_int_mult of_int_power of_int_numeral)

lemma uint_word128: "uint (word128 x) = 2 ^ 64 * uint (Uint128High64 x) + uint (Uint128Low64 x)"
proof -
  have "2 ^ 64 * uint (Uint128High64 x) + uint (Uint128Low64 x) < 2 ^ 128"
    using uint_u64_less [of "Uint128High64 x"] uint_u64_less [of "Uint128Low64 x"] by simp
  moreover have "0 \<le> 2 ^ 64 * uint (Uint128High64 x) + uint (Uint128Low64 x)"
    by simp
  ultimately show ?thesis
    unfolding word128_of_int unsigned_of_int by (simp add: take_bit_int_eq_self)
qed

lemma halves_unique:
  fixes a :: int
  assumes "2 ^ 64 * a + b = 2 ^ 64 * c + d" and "0 \<le> b" "b < 2 ^ 64" "0 \<le> d" "d < 2 ^ 64"
  shows "a = c \<and> b = d"
proof -
  have "a = (2 ^ 64 * a + b) div 2 ^ 64" and "c = (2 ^ 64 * c + d) div 2 ^ 64"
    using assms(2-5) by simp_all
  with assms(1) show ?thesis
    by simp
qed

lemma word128_inject [simp]: "word128 x = word128 y \<longleftrightarrow> x = y"
proof
  assume "word128 x = word128 y"
  then have "2 ^ 64 * uint (Uint128High64 x) + uint (Uint128Low64 x) = 2 ^ 64 * uint (Uint128High64 y) + uint (Uint128Low64 y)"
    by (simp only: flip: uint_word128)
  then have "uint (Uint128High64 x) = uint (Uint128High64 y) \<and> uint (Uint128Low64 x) = uint (Uint128Low64 y)"
    by (rule halves_unique) (simp_all add: uint_u64_less [simplified])
  then show "x = y"
    by (auto simp: word_uint_eq_iff intro: uint128.expand)
qed simp

text \<open>Shifted to the upper half, 64-bit arithmetic that wraps around is arithmetic of 128 bits.\<close>

abbreviation high :: "u64 \<Rightarrow> 128 word" where
  "high a \<equiv> 2 ^ 64 * ucast a"

lemma high_of_int: "high (word_of_int k) = 2 ^ 64 * word_of_int k"
proof -
  have "(2 ^ 64 :: 128 word) * word_of_int k = 2 ^ 64 * word_of_int (2 ^ 64 * (k div 2 ^ 64) + k mod 2 ^ 64)"
    by (simp only: mult_div_mod_eq)
  also have "\<dots> = (2 ^ 64 * 2 ^ 64) * word_of_int (k div 2 ^ 64) + 2 ^ 64 * word_of_int (k mod 2 ^ 64)"
    by (simp only: of_int_add of_int_mult of_int_power of_int_numeral ring_distribs mult.assoc)
  also have "(2 ^ 64 :: 128 word) * 2 ^ 64 = 0"
    by simp
  finally show ?thesis
    by (simp add: ucast_eq unsigned_of_int take_bit_eq_mod)
qed

lemma high_add: "high (a + b) = high a + high b"
proof -
  have "high (a + b) = high (word_of_int (uint a + uint b))"
    by simp
  also have "\<dots> = high a + high b"
    unfolding high_of_int by (simp only: of_int_add ring_distribs ucast_eq)
  finally show ?thesis .
qed

lemma high_diff: "high (a - b) = high a - high b"
  using high_add [of "a - b" b] by simp

lemma high_mult: "high (a * b) = 2 ^ 64 * (ucast a * ucast b)"
proof -
  have "high (a * b) = high (word_of_int (uint a * uint b))"
    by simp
  also have "\<dots> = 2 ^ 64 * (ucast a * ucast b)"
    unfolding high_of_int by (simp only: of_int_mult ucast_eq)
  finally show ?thesis .
qed

lemma high_1: "high 1 = 2 ^ 64"
  by simp

lemma ucast_add_carry:
  fixes a b :: u64
  shows "(ucast (a + b) :: 128 word) = ucast a + ucast b - (if a + b < a then 2 ^ 64 else 0)"
proof -
  have "uint (a + b) = uint a + uint b - (if a + b < a then 2 ^ 64 else 0)"
    using uint_u64_less [of a] uint_u64_less [of b] unsigned_greater_eq [of b]
    by (auto simp: uint_plus_if' word_less_def)
  then show ?thesis
    unfolding ucast_eq by (cases "a + b < a") (simp_all only: if_True if_False of_int_add of_int_diff of_int_power of_int_numeral of_int_0)
qed

lemma ucast_sub_borrow:
  fixes a b :: u64
  shows "(ucast (a - b) :: 128 word) = ucast a - ucast b + (if a < b then 2 ^ 64 else 0)"
proof -
  have "uint (a - b) = uint a - uint b + (if a < b then 2 ^ 64 else 0)"
    by (auto simp: uint_sub_if' word_less_def)
  then show ?thesis
    unfolding ucast_eq by (cases "a < b") (simp_all only: if_True if_False of_int_add of_int_diff of_int_power of_int_numeral of_int_0)
qed

lemma word128_add: "word128 (uint128_add x y) = word128 x + word128 y"
  by (simp add: word128_def uint128_add_def Let_def high_add high_1
      ucast_add_carry [of "Uint128Low64 x"] del: power_numeral unsigned_1)

lemma word128_sub: "word128 (uint128_sub x y) = word128 x - word128 y"
  by (cases "Uint128Low64 x < Uint128Low64 y")
    (simp_all add: word128_def uint128_sub_def Let_def high_diff high_1
      ucast_sub_borrow [of "Uint128Low64 x"] right_diff_distrib del: power_numeral unsigned_1)

lemma less_minus_one: "x < x - 1 \<longleftrightarrow> x = 0" for x :: u64
proof -
  have "1 \<le> uint x" if "uint x \<noteq> 0"
    using that uint_u64_nonneg [of x] by linarith
  then show ?thesis
    by (cases "uint x = 0") (simp_all add: word_less_def uint_sub_if' word_uint_eq_iff)
qed

lemma word128_negate: "word128 (uint128_negate x) = - word128 x"
proof -
  have "uint128_negate x = uint128_sub (Uint128 0 0) x"
    using less_minus_one [of "- Uint128Low64 x"]
    by (auto simp: uint128_negate_def uint128_sub_def Let_def not_eq_complement word_neq_0_conv)
  then show ?thesis
    by (simp add: word128_sub) (simp add: word128_def)
qed

lemma halves_less:
  fixes a :: int
  assumes "0 \<le> b" "b < 2 ^ 64" "0 \<le> d" "d < 2 ^ 64"
  shows "2 ^ 64 * a + b < 2 ^ 64 * c + d \<longleftrightarrow> (if a = c then b < d else a < c)"
proof -
  have "2 ^ 64 * a + 2 ^ 64 \<le> 2 ^ 64 * c" if "a < c" for a c :: int
    using that by (simp add: ring_distribs [symmetric])
  from this [of a c] this [of c a] assms show ?thesis
    by (cases a c rule: linorder_cases) auto
qed

lemma word128_less: "uint128_less x y \<longleftrightarrow> word128 x < word128 y"
  using halves_less [OF unsigned_greater_eq uint_u64_less unsigned_greater_eq uint_u64_less]
  by (simp add: uint128_less_def word_less_def uint_word128 word_uint_eq_iff del: power_numeral)

lemma word128_less_eq: "uint128_less_eq x y \<longleftrightarrow> word128 x \<le> word128 y"
proof -
  have "uint128_less_eq x y \<longleftrightarrow> \<not> uint128_less y x"
    by (auto simp: uint128_less_eq_def uint128_less_def)
  then show ?thesis
    by (simp add: word128_less not_less)
qed

lemma word128_eq: "uint128_eq x y \<longleftrightarrow> x = y"
  by (auto simp: uint128_eq_def intro: uint128.expand)

lemma bit_u64: "bit (a :: u64) i \<Longrightarrow> i < 64"
  using bit_imp_le_length [of a i] by simp

lemma bit_word128: "bit (word128 x) i = (if i < 64 then bit (Uint128Low64 x) i else bit (Uint128High64 x) (i - 64))"
proof -
  have "high (Uint128High64 x) = push_bit 64 (ucast (Uint128High64 x))"
    by (simp add: push_bit_eq_mult)
  moreover have "push_bit 64 (ucast (Uint128High64 x)) + ucast (Uint128Low64 x)
      = (push_bit 64 (ucast (Uint128High64 x)) OR ucast (Uint128Low64 x) :: 128 word)"
    by (rule disjunctive_add) (auto simp: bit_simps dest: bit_u64)
  ultimately show ?thesis
    by (auto simp: word128_def bit_simps dest: bit_u64)
qed

lemma word128_shl: "word128 (uint128_shl x n) = push_bit n (word128 x)"
  by (rule bit_eqI) (auto simp: uint128_shl_def bit_word128 bit_simps add.commute [of n] dest: bit_u64)

lemma word128_shr: "word128 (uint128_shr x n) = drop_bit n (word128 x)"
  by (rule bit_eqI) (auto simp: uint128_shr_def bit_word128 bit_simps add.commute [of n] dest: bit_u64)

lemma word128_not: "word128 (uint128_not x) = NOT (word128 x)"
  by (rule bit_eqI) (auto simp: uint128_not_def bit_word128 bit_simps)

lemma word128_logic:
  "word128 (uint128_logic (AND) x y) = word128 x AND word128 y"
  "word128 (uint128_logic (OR) x y) = word128 x OR word128 y"
  "word128 (uint128_logic (XOR) x y) = word128 x XOR word128 y"
  by (rule bit_eqI, auto simp: uint128_logic_def bit_word128 bit_simps)+

text \<open>Multiplication: a half is two digits of 32 bits, products of digits fit into 64 bits, and what
  the code leaves out is a multiple of \<open>2 ^ 128\<close>.\<close>

lemma uint_digits:
  fixes a :: u64
  shows "uint (drop_bit 32 a) = uint a div 2 ^ 32" "uint (a AND 0xffffffff) = uint a mod 2 ^ 32"
proof -
  show "uint (drop_bit 32 a) = uint a div 2 ^ 32"
    by (simp add: drop_bit_eq_div uint_div)
  have "a AND 0xffffffff = take_bit 32 a"
    by (simp add: take_bit_eq_mask mask_eq_exp_minus_1)
  then show "uint (a AND 0xffffffff) = uint a mod 2 ^ 32"
    by (simp add: take_bit_eq_mod uint_mod)
qed

lemma digits_less: "uint (drop_bit 32 (a :: u64)) < 2 ^ 32" "uint (a AND 0xffffffff) < 2 ^ 32"
  using uint_u64_less [of a] unfolding uint_digits by simp_all

lemma digits_of_half: "(ucast (a :: u64) :: 128 word) = 2 ^ 32 * ucast (drop_bit 32 a) + ucast (a AND 0xffffffff)"
proof -
  have "uint a = 2 ^ 32 * uint (drop_bit 32 a) + uint (a AND 0xffffffff)"
    unfolding uint_digits by (simp only: mult_div_mod_eq)
  then show ?thesis
    unfolding ucast_eq by (subst \<open>uint a = _\<close>) (simp only: of_int_add of_int_mult of_int_power of_int_numeral)
qed

lemma ucast_mult_digits:
  fixes a b :: u64
  assumes "uint a < 2 ^ 32" "uint b < 2 ^ 32"
  shows "(ucast (a * b) :: 128 word) = ucast a * ucast b"
proof -
  have "uint a * uint b < 2 ^ 32 * 2 ^ 32"
    using assms by (intro mult_strict_mono) auto
  then have "uint (a * b) = uint a * uint b"
    by (simp add: uint_word_arith_bintrs take_bit_int_eq_self)
  then show ?thesis
    unfolding ucast_eq by (simp only: of_int_mult)
qed

lemma word128_half: "word128 (uint128_of_uint64 a) = ucast a"
  by (simp add: word128_def uint128_of_uint64_def)

lemma high_push_bit: "high (push_bit 32 a) = 2 ^ 32 * high a"
proof -
  have "(ucast (2 ^ 32 :: u64) :: 128 word) = 2 ^ 32"
    by simp
  then show ?thesis
    unfolding push_bit_eq_mult high_mult by (simp only: mult_ac)
qed

lemma product_of_digits:
  fixes X :: "'a :: comm_ring_1"
  assumes "X * X * X * X = 0"
  shows "X * X * (X * (a3 * b0 + a2 * b1 + a1 * b2 + a0 * b3) + (a2 * b0 + a1 * b1 + a0 * b2)) + X * (a1 * b0) + X * (a0 * b1) + a0 * b0
    = (X * X * (X * a3 + a2) + (X * a1 + a0)) * (X * X * (X * b3 + b2) + (X * b1 + b0))" (is "?l = ?r")
proof -
  have "?r = ?l + X * X * X * X * (X * X * (a3 * b3) + X * (a3 * b2 + a2 * b3) + (a3 * b1 + a2 * b2 + a1 * b3))"
    by (simp add: algebra_simps)
  with assms show ?thesis
    by simp
qed

lemma word128_mul: "word128 (uint128_mul x y) = word128 x * word128 y"
proof -
  let ?X = "2 ^ 32 :: 128 word"
  let ?c = "\<lambda>a :: u64. ucast a :: 128 word"
  have X: "?X * ?X * ?X * ?X = 0" "2 ^ 64 = ?X * ?X"
    by simp_all
  have high: "high (a * 2 ^ 32 + b) = ?X * high a + high b" for a b
    by (simp only: high_add high_push_bit flip: push_bit_eq_mult)
  have "word128 (uint128_mul x y) = ?X * ?X *
      (?X * (?c a3 * ?c b0 + ?c a2 * ?c b1 + ?c a1 * ?c b2 + ?c a0 * ?c b3) + (?c a2 * ?c b0 + ?c a1 * ?c b1 + ?c a0 * ?c b2)) +
      ?X * (?c a1 * ?c b0) + ?X * (?c a0 * ?c b1) + ?c a0 * ?c b0"
    if "a3 = drop_bit 32 (Uint128High64 x)" "a2 = Uint128High64 x AND 0xffffffff"
      "a1 = drop_bit 32 (Uint128Low64 x)" "a0 = Uint128Low64 x AND 0xffffffff"
      "b3 = drop_bit 32 (Uint128High64 y)" "b2 = Uint128High64 y AND 0xffffffff"
      "b1 = drop_bit 32 (Uint128Low64 y)" "b0 = Uint128Low64 y AND 0xffffffff" for a3 a2 a1 a0 b3 b2 b1 b0
  proof -
    have low: "?c (a1 * b0) = ?c a1 * ?c b0" "?c (a0 * b1) = ?c a0 * ?c b1" "?c (a0 * b0) = ?c a0 * ?c b0"
      by (rule ucast_mult_digits; simp only: that digits_less)+
    have "word128 (uint128_mul x y) = high ((a3 * b0 + a2 * b1 + a1 * b2 + a0 * b3) * 2 ^ 32 + (a2 * b0 + a1 * b1 + a0 * b2)) +
        ?c (a1 * b0) * ?X + ?c (a0 * b1) * ?X + ?c (a0 * b0)"
      unfolding uint128_mul_def Let_def word128_add word128_shl word128_half push_bit_eq_mult that
      by (simp only: word128_def uint128.sel unsigned_0 add_0_right)
    also have "\<dots> = 2 ^ 64 * (?X * (?c a3 * ?c b0 + ?c a2 * ?c b1 + ?c a1 * ?c b2 + ?c a0 * ?c b3) + (?c a2 * ?c b0 + ?c a1 * ?c b1 + ?c a0 * ?c b2)) +
        ?X * (?c a1 * ?c b0) + ?X * (?c a0 * ?c b1) + ?c a0 * ?c b0"
      unfolding high unfolding low high_add high_mult by (simp only: ring_distribs mult_ac)
    finally show ?thesis
      unfolding X(2) .
  qed
  note this [OF refl refl refl refl refl refl refl refl]
  also note product_of_digits [OF X(1)]
  finally show ?thesis
    unfolding digits_of_half [symmetric] X(2) [symmetric] by (simp only: word128_def)
qed

section \<open>Bit lengths and the long division\<close>

text \<open>A step that skips bits adds their number to the position; what is left is half as long and
  not zero.\<close>

lemma or_is_add:
  assumes "2 ^ Suc k dvd pos"
  shows "pos OR 2 ^ k = pos + (2 ^ k :: nat)"
proof -
  obtain q where "pos = push_bit (Suc k) q"
    using assms by (auto simp: push_bit_eq_mult)
  then have "pos + 2 ^ k = pos OR 2 ^ k"
    by (intro disjunctive_add) (auto simp: bit_simps bit_0)
  then show ?thesis
    by simp
qed

lemma unat_push_bit_1: "n < LENGTH('a) \<Longrightarrow> unat (push_bit n (1 :: 'a :: len word)) = 2 ^ n"
  unfolding unsigned_push_bit_eq by (simp add: push_bit_eq_mult take_bit_nat_eq_self)

lemma unat_u128_less: "unat (v :: 128 word) < 2 ^ 128"
  using unsigned_less [of v] by simp

lemma STEP_skips:
  fixes n :: "'a :: len word"
  assumes "n \<noteq> 0" and "unat n < 2 ^ (2 ^ Suc k)" and "2 ^ k < LENGTH('a)" and "2 ^ Suc k dvd pos"
  shows "\<exists>n' e. STEP (2 ^ k) (n, pos) = (n', pos + e) \<and> unat n' = unat n div 2 ^ e \<and> unat n' < 2 ^ (2 ^ k) \<and> n' \<noteq> 0 \<and>
    2 ^ k dvd pos + e"
proof (cases "push_bit (2 ^ k) 1 \<le> n")
  case True
  have "unat (push_bit (2 ^ k) (1 :: 'a word)) = 2 ^ (2 ^ k)"
    using assms(3) by (rule unat_push_bit_1)
  with True have le: "2 ^ (2 ^ k) \<le> unat n"
    by (simp add: word_le_nat_alt)
  have d: "unat (drop_bit (2 ^ k) n) = unat n div 2 ^ (2 ^ k)"
    unfolding unsigned_drop_bit_eq by (simp add: drop_bit_eq_div take_bit_nat_eq_self)
  moreover have "unat n div 2 ^ (2 ^ k) < 2 ^ (2 ^ k)"
    using assms(2) by (intro less_mult_imp_div_less) (simp add: power_Suc mult_2 power_add)
  moreover have "0 < unat n div 2 ^ (2 ^ k)"
    using le by (simp add: div_greater_zero_iff)
  moreover have "drop_bit (2 ^ k) n \<noteq> 0"
    using calculation by (metis unat_0 less_numeral_extra(3))
  moreover have "2 ^ k dvd pos + 2 ^ k"
    using assms(4) by (auto intro: dvd_mult_right)
  ultimately show ?thesis
    using True or_is_add [OF assms(4)] by (intro exI [of _ "drop_bit (2 ^ k) n"] exI [of _ "2 ^ k"]) (simp add: STEP_def)
next
  case False
  have "unat (push_bit (2 ^ k) (1 :: 'a word)) = 2 ^ (2 ^ k)"
    using assms(3) by (rule unat_push_bit_1)
  with False have "unat n < 2 ^ (2 ^ k)"
    by (simp add: word_le_nat_alt)
  moreover have "2 ^ k dvd pos"
    using assms(4) by (auto intro: dvd_mult_right)
  ultimately show ?thesis
    using False assms(1) by (intro exI [of _ n] exI [of _ 0]) (simp add: STEP_def)
qed

text \<open>The table has two bits for every value of four bits.\<close>

lemma table_of_16:
  assumes "0 < m" and "m < 16"
  shows "2 ^ unat (drop_bit (4 * m) (0x3333333322221100 :: u64) AND 0x3) \<le> m \<and>
    m < 2 * 2 ^ unat (drop_bit (4 * m) (0x3333333322221100 :: u64) AND 0x3)"
proof -
  have "m \<in> set [1..<16]"
    using assms by auto
  moreover have "\<forall>m \<in> set [1..<16]. 2 ^ unat (drop_bit (4 * m) (0x3333333322221100 :: u64) AND 0x3) \<le> m \<and>
      m < 2 * 2 ^ unat (drop_bit (4 * m) (0x3333333322221100 :: u64) AND 0x3)"
    by code_simp
  ultimately show ?thesis
    by blast
qed

lemma Fls64_bounds:
  assumes "n \<noteq> 0"
  shows "2 ^ Fls64 n \<le> unat n \<and> unat n < 2 * 2 ^ Fls64 n"
proof -
  have "unat n < 2 ^ (2 ^ Suc 5)"
    using unsigned_less [of n] by simp
  from STEP_skips [OF assms this, of 0] obtain n1 e1 where 1: "STEP 32 (n, 0) = (n1, e1)" "unat n1 = unat n div 2 ^ e1"
      "unat n1 < 2 ^ 32" "n1 \<noteq> 0" "32 dvd e1"
    by auto
  let ?m = "ucast n1 :: u32"
  have m: "unat ?m = unat n1" "?m \<noteq> 0"
    using 1(3,4) by (simp_all add: unsigned_ucast_eq take_bit_nat_eq_self flip: unat_eq_zero)
  from STEP_skips [of ?m 4 e1] obtain n2 e2 where 2: "STEP 16 (?m, e1) = (n2, e1 + e2)" "unat n2 = unat n1 div 2 ^ e2"
      "unat n2 < 2 ^ 16" "n2 \<noteq> 0" "16 dvd e1 + e2"
    using 1(3-5) m by auto
  from STEP_skips [of n2 3 "e1 + e2"] obtain n3 e3 where 3: "STEP 8 (n2, e1 + e2) = (n3, e1 + e2 + e3)" "unat n3 = unat n2 div 2 ^ e3"
      "unat n3 < 2 ^ 8" "n3 \<noteq> 0" "8 dvd e1 + e2 + e3"
    using 2(3-5) by auto
  from STEP_skips [of n3 2 "e1 + e2 + e3"] obtain n4 e4 where 4: "STEP 4 (n3, e1 + e2 + e3) = (n4, e1 + e2 + e3 + e4)"
      "unat n4 = unat n3 div 2 ^ e4" "unat n4 < 16" "n4 \<noteq> 0"
    using 3(3-5) by auto
  let ?e = "e1 + e2 + e3 + e4" and ?t = "unat (drop_bit (4 * unat n4) (0x3333333322221100 :: u64) AND 0x3)"
  have "unat (push_bit 2 n4) = 4 * unat n4"
    using 4(3) unfolding unsigned_push_bit_eq by (simp add: push_bit_eq_mult take_bit_nat_eq_self)
  then have f: "Fls64 n = ?e + ?t"
    by (simp add: Fls64_def Let_def 1(1) 2(1) 3(1) 4(1))
  have n4: "unat n4 = unat n div 2 ^ ?e"
    by (simp add: 4(2) 3(2) 2(2) 1(2) div_mult2_eq power_add)
  have t: "2 ^ ?t \<le> unat n4" "unat n4 < 2 * 2 ^ ?t"
    using table_of_16 [of "unat n4"] 4(3,4) by (simp_all add: unat_gt_0)
  have "2 ^ ?e * 2 ^ ?t \<le> 2 ^ ?e * unat n4"
    using t(1) by simp
  also have "\<dots> \<le> unat n"
    unfolding n4 by (simp add: times_div_less_eq_dividend)
  finally have "2 ^ ?e * 2 ^ ?t \<le> unat n" .
  moreover have "unat n < 2 ^ ?e * (2 * 2 ^ ?t)"
    using t(2) unfolding n4 by (simp add: div_less_iff_less_mult mult.commute)
  ultimately show ?thesis
    unfolding f power_add by (simp only: mult_ac)
qed

text \<open>The same for 128 bits.\<close>

lemma unat_word128: "unat (word128 x) = 2 ^ 64 * unat (Uint128High64 x) + unat (Uint128Low64 x)"
  using uint_word128 [of x] unfolding uint_nat
  by (metis (mono_tags, lifting) of_nat_add of_nat_eq_iff of_nat_mult of_nat_numeral of_nat_power)

lemma Fls128_bounds:
  assumes "word128 x \<noteq> 0"
  shows "2 ^ Fls128 x \<le> unat (word128 x) \<and> unat (word128 x) < 2 * 2 ^ Fls128 x"
proof (cases "Uint128High64 x = 0")
  case True
  then have "unat (word128 x) = unat (Uint128Low64 x)"
    by (simp add: unat_word128)
  moreover have "Uint128Low64 x \<noteq> 0"
    using calculation assms unat_0_iff by fastforce
  ultimately show ?thesis
    using Fls64_bounds [of "Uint128Low64 x"] True by (simp add: Fls128_def)
next
  case False
  let ?h = "unat (Uint128High64 x)" and ?l = "unat (Uint128Low64 x)"
  have "?l < 2 ^ 64"
    using unsigned_less [of "Uint128Low64 x"] by simp
  have "2 ^ 64 * 2 ^ Fls64 (Uint128High64 x) \<le> 2 ^ 64 * ?h + ?l"
    using Fls64_bounds [OF False] by (simp add: trans_le_add1)
  moreover have "2 ^ 64 * (?h + 1) \<le> 2 ^ 64 * (2 * 2 ^ Fls64 (Uint128High64 x))"
    using Fls64_bounds [OF False] by (intro mult_le_mono2) simp
  then have "2 ^ 64 * ?h + ?l < 2 ^ 64 * (2 * 2 ^ Fls64 (Uint128High64 x))"
    using \<open>?l < 2 ^ 64\<close> by simp
  ultimately show ?thesis
    unfolding unat_word128 using False by (simp add: Fls128_def power_add mult_ac)
qed

lemma Fls128_less: "word128 x \<noteq> 0 \<Longrightarrow> Fls128 x < 128"
proof -
  assume "word128 x \<noteq> 0"
  then have "2 ^ Fls128 x \<le> unat (word128 x)"
    using Fls128_bounds by blast
  also have "\<dots> < 2 ^ 128"
    using unsigned_less [of "word128 x"] by simp
  finally show ?thesis
    by (rule power_less_imp_less_exp [rotated]) simp
qed

lemma word128_one: "word128 (uint128_of_int 1) = 1"
  by (simp add: word128_def uint128_of_int_def word_sless_alt)

lemma divmod_loop_exact:
  assumes "0 < unat (word128 divisor)" and "k \<noteq> 0 \<Longrightarrow> unat (word128 divisor) * 2 ^ (k - 1) < 2 ^ 128"
    and "(unat (word128 quot) + 1) * 2 ^ k \<le> 2 ^ 128" and "unat (word128 dividend) < unat (word128 divisor) * 2 ^ k"
    and "divmod_loop k divisor quot dividend = (q, r)"
  shows "unat (word128 q) = unat (word128 quot) * 2 ^ k + unat (word128 dividend) div unat (word128 divisor) \<and>
    unat (word128 r) = unat (word128 dividend) mod unat (word128 divisor)"
  using assms
proof (induction k arbitrary: quot dividend)
  case 0
  then show ?case
    by simp
next
  case (Suc d)
  let ?D = "unat (word128 divisor)" and ?v = "unat (word128 dividend)" and ?q = "unat (word128 quot)"
  let ?s = "uint128_shl divisor d" and ?q2 = "uint128_shl quot 1"
  have s: "unat (word128 ?s) = ?D * 2 ^ d"
    using Suc.prems(2) unfolding word128_shl unsigned_push_bit_eq by (simp add: push_bit_eq_mult take_bit_nat_eq_self)
  have big: "(2 * ?q + 2) * 2 ^ d \<le> 2 ^ 128"
    using Suc.prems(3) by (simp add: ring_distribs mult_ac)
  then have fit: "2 * ?q + 2 \<le> 2 ^ 128"
    using mult_le_mono2 [of 1 "2 ^ d" "2 * ?q + 2"] by simp
  have q2: "unat (word128 ?q2) = 2 * ?q"
    using fit unfolding word128_shl unsigned_push_bit_eq by (simp add: push_bit_eq_mult take_bit_nat_eq_self)
  have D: "d \<noteq> 0 \<Longrightarrow> ?D * 2 ^ (d - 1) < 2 ^ 128"
    using Suc.prems(2) by (rule le_less_trans [rotated]) (simp_all add: power_increasing)
  show ?case
  proof (cases "uint128_less_eq ?s dividend")
    case True
    then have le: "?D * 2 ^ d \<le> ?v"
      unfolding word128_less_eq word_le_nat_alt s .
    let ?q3 = "uint128_add ?q2 (uint128_of_int 1)" and ?v2 = "uint128_sub dividend ?s"
    note one = word128_one
    have q3: "unat (word128 ?q3) = 2 * ?q + 1"
      using fit unfolding word128_add one by (simp add: unat_word_ariths q2 del: One_nat_def)
    have v2: "unat (word128 ?v2) = ?v - ?D * 2 ^ d"
      using True unfolding word128_sub word128_less_eq by (simp add: unat_sub s)
    have "unat (word128 q) = (2 * ?q + 1) * 2 ^ d + (?v - ?D * 2 ^ d) div ?D \<and> unat (word128 r) = (?v - ?D * 2 ^ d) mod ?D"
      using Suc.IH [of ?q3 ?v2, OF Suc.prems(1) D] Suc.prems(4,5) True big le unfolding q3 v2
      by (simp add: less_diff_conv mult_ac)
    moreover obtain w where "?v = ?D * 2 ^ d + w"
      using le le_Suc_ex by blast
    ultimately show ?thesis
      using Suc.prems(1) by (simp add: ring_distribs)
  next
    case False
    then have "?v < ?D * 2 ^ d"
      unfolding word128_less_eq word_le_nat_alt s by simp
    then show ?thesis
      using Suc.IH [of ?q2 dividend, OF Suc.prems(1) D] Suc.prems(5) False big unfolding q2
      by (simp add: mult_ac)
  qed
qed

lemma word128_zero: "word128 (uint128_of_int 0) = 0" "word128 (Uint128 0 0) = 0" "uint128_of_int 0 = Uint128 0 0"
  by (simp_all add: word128_def uint128_of_int_def)

lemma DivModImpl_cases:
  "DivModImpl x y = Inl (StdException ''FatalException'') \<and> word128 y = 0 \<or>
   (\<exists>q r. DivModImpl x y = Inr (q, r) \<and> word128 y \<noteq> 0 \<and> word128 q = word128 x div word128 y \<and> word128 r = word128 x mod word128 y)"
proof (cases "word128 y = 0")
  case True
  then have "y = Uint128 0 0"
    by (simp flip: word128_zero(2))
  then show ?thesis
    by (simp add: DivModImpl_def word128_eq word128_zero)
next
  case False
  then have y0: "y \<noteq> Uint128 0 0"
    using word128_zero(2) by auto
  show ?thesis
  proof (cases "uint128_less x y")
    case True
    then have "word128 x div word128 y = 0" "word128 x mod word128 y = word128 x"
      unfolding word128_less by (simp_all add: div_word_less mod_word_less)
    then show ?thesis
      using True y0 False by (simp add: DivModImpl_def word128_eq word128_zero)
  next
    case le: False
    let ?x = "unat (word128 x)" and ?y = "unat (word128 y)" and ?k = "nat (int (Fls128 x) - int (Fls128 y) + 1)"
    have pos: "0 < ?y" and xy: "?y \<le> ?x"
      using False le unfolding word128_less by (simp_all add: unat_gt_0 not_less flip: word_le_nat_alt)
    then have x0: "word128 x \<noteq> 0"
      by auto
    note bx = Fls128_bounds [OF x0] and b_y = Fls128_bounds [OF False]
    have "2 ^ Fls128 y < (2 :: nat) ^ Suc (Fls128 x)"
      using bx b_y xy by simp
    then have ord: "Fls128 y \<le> Fls128 x"
      by (metis less_Suc_eq_le one_less_numeral_iff power_less_imp_less_exp semiring_norm(76))
    then have k: "?k = Suc (Fls128 x - Fls128 y)"
      by simp
    have e: "Fls128 y + (Fls128 x - Fls128 y) = Fls128 x"
      using ord by simp
    have "?y * 2 ^ (?k - 1) < 2 * 2 ^ Fls128 y * 2 ^ (Fls128 x - Fls128 y)"
      unfolding k using b_y by simp
    also have "\<dots> = 2 ^ Suc (Fls128 x)"
      by (simp add: e flip: power_add)
    also have "\<dots> \<le> 2 ^ 128"
      using Fls128_less [OF x0] by (intro power_increasing) simp_all
    finally have p2: "?y * 2 ^ (?k - 1) < 2 ^ 128" .
    have p3: "(unat (word128 (Uint128 0 0)) + 1) * 2 ^ ?k \<le> (2 :: nat) ^ 128"
    proof -
      have "2 ^ ?k \<le> (2 :: nat) ^ 128"
        using Fls128_less [OF x0] unfolding k by (intro power_increasing) simp_all
      then show ?thesis
        by (simp add: word128_zero)
    qed
    have "2 ^ Fls128 y * 2 ^ ?k = (2 :: nat) * 2 ^ Fls128 x"
      unfolding k power_Suc mult.left_commute [of "2 ^ Fls128 y"] by (simp add: e flip: power_add)
    then have "?x < 2 ^ Fls128 y * 2 ^ ?k"
      using bx by simp
    also have "\<dots> \<le> ?y * 2 ^ ?k"
      using b_y by simp
    finally have p4: "?x < ?y * 2 ^ ?k" .
    obtain q r where loop: "divmod_loop ?k y (Uint128 0 0) x = (q, r)"
      by (cases "divmod_loop ?k y (Uint128 0 0) x")
    then have "unat (word128 q) = ?x div ?y \<and> unat (word128 r) = ?x mod ?y"
      using divmod_loop_exact [OF pos p2 p3 p4 loop] by (simp add: word128_zero)
    then have "word128 q = word128 x div word128 y \<and> word128 r = word128 x mod word128 y"
      by (simp add: word_unat_eq_iff unat_div unat_mod)
    then show ?thesis
      using loop le y0 False by (simp add: DivModImpl_def word128_eq word128_zero)
  qed
qed

section \<open>Printing\<close>

lemma div_of_base:
  assumes "div_of_base base = (v, k)"
  shows "unat v = radix_of base ^ k \<and> 0 < k \<and> 2 \<le> radix_of base \<and> radix_of base \<le> 16 \<and> 2 ^ 128 \<le> radix_of base ^ k * radix_of base ^ k * radix_of base ^ k"
  using assms by (cases base) (auto simp: div_of_base_def radix_of_def)

lemma small_uint128: "unat (word128 x) < 2 ^ 64 \<Longrightarrow> unat (Uint128Low64 x) = unat (word128 x)"
  using unat_word128 [of x] by (cases "unat (Uint128High64 x)") auto

lemma DivModImpl_uint64:
  assumes "v \<noteq> 0"
  obtains q r where "DivModImpl x (uint128_of_uint64 v) = Inr (q, r)"
    "unat (word128 q) = unat (word128 x) div unat v" "unat (word128 r) = unat (word128 x) mod unat v"
    "unat (Uint128Low64 r) = unat (word128 x) mod unat v"
proof -
  have v: "unat (word128 (uint128_of_uint64 v)) = unat v"
    by (simp add: unat_word128 uint128_of_uint64_def)
  with assms have "word128 (uint128_of_uint64 v) \<noteq> 0"
    by (metis unat_0 unat_eq_zero)
  with DivModImpl_cases [of x "uint128_of_uint64 v"] obtain q r where
    d: "DivModImpl x (uint128_of_uint64 v) = Inr (q, r)" "word128 q = word128 x div word128 (uint128_of_uint64 v)"
      "word128 r = word128 x mod word128 (uint128_of_uint64 v)"
    by auto
  then have u: "unat (word128 q) = unat (word128 x) div unat v" "unat (word128 r) = unat (word128 x) mod unat v"
    by (simp_all add: unat_div unat_mod v)
  moreover have "unat (word128 r) < 2 ^ 64"
  proof -
    have "unat (word128 r) < unat v"
      using assms unfolding u(2) by (simp add: unat_gt_0)
    then show ?thesis
      using unat_u64_less [of v] by simp
  qed
  then have "unat (Uint128Low64 r) = unat (word128 x) mod unat v"
    using small_uint128 u(2) by simp
  ultimately show ?thesis
    using that d(1) by blast
qed

lemma uint128_rep_exact:
  "uint128_rep os b = Inr (base_prefix os (unat (word128 b)) @ digits_in (radix_of (os_base os)) (os_uppercase os) (unat (word128 b)))"
proof -
  obtain v k where vk: "div_of_base (os_base os) = (v, k)"
    by (cases "div_of_base (os_base os)")
  let ?b = "radix_of (os_base os)" and ?n = "unat (word128 b)" and ?u = "os_uppercase os"
  note d = div_of_base [OF vk]
  let ?D = "?b ^ k"
  have D: "0 < ?D"
    using d by simp
  then have v0: "v \<noteq> 0"
    using d by auto
  obtain h l where 1: "DivModImpl b (uint128_of_uint64 v) = Inr (h, l)" "unat (word128 h) = ?n div ?D" "unat (Uint128Low64 l) = ?n mod ?D"
    using DivModImpl_uint64 [OF v0, of b] d by metis
  obtain h2 m where 2: "DivModImpl h (uint128_of_uint64 v) = Inr (h2, m)" "unat (word128 h2) = ?n div ?D div ?D"
      "unat (Uint128Low64 m) = ?n div ?D mod ?D"
    using DivModImpl_uint64 [OF v0, of h] d 1 by metis
  have "?n < ?D * ?D * ?D"
    using unat_u128_less [of "word128 b"] d by (simp add: order_less_le_trans)
  then have "?n div ?D div ?D < ?D"
    by (simp add: less_mult_imp_div_less)
  then have "unat (word128 h2) < 2 ^ 64"
    using 2(2) d unat_u64_less [of v] by simp
  note h2 = small_uint128 [OF this, unfolded 2(2)]
  have chunk: "zero_padded k (put_uint64 (os\<lparr>os_showbase := False\<rparr>) (Uint128Low64 x)) = zero_padded k (digits_in ?b ?u (unat (Uint128Low64 x)))" for x
    by (simp add: put_uint64_def base_prefix_def)
  have split: "digits_in ?b ?u n = digits_in ?b ?u (n div ?D) @ zero_padded k (digits_in ?b ?u (n mod ?D))" if "0 < n div ?D" for n
    using digits_in_append [of ?b "n div ?D" k "n mod ?D" ?u] that d D unfolding div_mult_mod_eq by simp
  have rep: "uint128_rep os b = Inr (if ?n div ?D div ?D \<noteq> 0
      then base_prefix os (?n div ?D div ?D) @ digits_in ?b ?u (?n div ?D div ?D) @ zero_padded k (digits_in ?b ?u (?n div ?D mod ?D)) @ zero_padded k (digits_in ?b ?u (?n mod ?D))
      else if ?n div ?D mod ?D \<noteq> 0 then base_prefix os (?n div ?D mod ?D) @ digits_in ?b ?u (?n div ?D mod ?D) @ zero_padded k (digits_in ?b ?u (?n mod ?D))
      else base_prefix os (?n mod ?D) @ digits_in ?b ?u (?n mod ?D))"
    unfolding uint128_rep_def vk by (simp add: 1(1) 2(1) chunk) (simp add: put_uint64_def 1(3) 2(3) h2 flip: unat_eq_zero)
  have prefix: "base_prefix os n = base_prefix os ?n" if "n \<noteq> 0" "?n \<noteq> 0" for n
    using that by (simp add: base_prefix_def)
  consider (a) "0 < ?n div ?D div ?D" | (b) "?n div ?D div ?D = 0" "0 < ?n div ?D" | (c) "?n div ?D = 0"
    by blast
  then show ?thesis
  proof cases
    case a
    then have b: "0 < ?n div ?D"
      by (metis div_0 gr0I)
    then have n: "?n \<noteq> 0"
      by (metis div_0 less_numeral_extra(3))
    have a': "?n div ?D div ?D \<noteq> 0"
      using a by (simp only: neq0_conv)
    show ?thesis
      unfolding rep split [OF b] split [OF a] prefix [OF a' n] using a' by (simp only: not_False_eq_True if_True append_assoc)
  next
    case b
    have b': "?n div ?D mod ?D = ?n div ?D"
      using b(1) D by (metis div_eq_0_iff mod_less not_gr0)
    have n: "?n \<noteq> 0" "?n div ?D \<noteq> 0"
      using b(2) by (metis div_0 less_numeral_extra(3), simp only: neq0_conv)
    show ?thesis
      unfolding rep b' b(1) split [OF b(2)] prefix [OF n(2,1)] using n(2)
      by (simp only: not_False_eq_True if_True if_False simp_thms append_assoc)
  next
    case c
    then have c': "?n mod ?D = ?n" and c0: "?n div ?D div ?D = 0" "?n div ?D mod ?D = 0"
      using D by (metis div_eq_0_iff mod_less not_gr0) (simp_all only: c div_0 mod_0)
    show ?thesis
      unfolding rep c0 c' by (simp only: simp_thms if_False)
  qed
qed

section \<open>A ring and an order\<close>

text \<open>The operators under their names: \<open>uint128\<close> is a commutative ring and a linear order.\<close>

instantiation uint128 :: "{comm_ring_1, linorder}"
begin

definition "zero_uint128 = uint128_of_int 0"
definition "one_uint128 = uint128_of_int 1"
definition "plus_uint128 = uint128_add"
definition "minus_uint128 = uint128_sub"
definition "times_uint128 = uint128_mul"
definition "uminus_uint128 = uint128_negate"
definition "less_uint128 = uint128_less"
definition "less_eq_uint128 = uint128_less_eq"

lemmas word128_ops = zero_uint128_def one_uint128_def plus_uint128_def minus_uint128_def times_uint128_def uminus_uint128_def
  less_uint128_def less_eq_uint128_def word128_zero(1) word128_one word128_add word128_sub word128_mul word128_negate word128_less word128_less_eq

instance
proof
  fix a b c :: uint128
  show "a + b + c = a + (b + c)" "a + b = b + a" "0 + a = a" "- a + a = 0" "a - b = a + - b"
      "a * b * c = a * (b * c)" "a * b = b * a" "1 * a = a" "(a + b) * c = a * c + b * c"
    by (simp_all add: word128_ops algebra_simps flip: word128_inject)
  show "(0 :: uint128) \<noteq> 1"
    by (simp add: word128_ops flip: word128_inject)
  show "a < b \<longleftrightarrow> a \<le> b \<and> \<not> b \<le> a" "a \<le> a" "a \<le> b \<or> b \<le> a"
    by (simp_all add: word128_ops less_le_not_le linear)
  show "a \<le> b \<Longrightarrow> b \<le> c \<Longrightarrow> a \<le> c" "a \<le> b \<Longrightarrow> b \<le> a \<Longrightarrow> a = b"
    by (simp_all add: word128_ops flip: word128_inject)
qed

end

section \<open>Properties\<close>

definition of_word128 :: "128 word \<Rightarrow> uint128" where
  "of_word128 w = Uint128 (ucast (drop_bit 64 w)) (ucast w)"

lemma word128_of_word128 [simp]: "word128 (of_word128 w) = w"
  by (rule bit_eqI) (auto simp: bit_word128 of_word128_def bit_simps)

lemma of_word128_eqI: "word128 x = w \<Longrightarrow> x = of_word128 w"
  by (simp flip: word128_inject)

text \<open>C32. The operators on two halves with carries between them are the operations of 128-bit words.\<close>

theorem uint128_implements_word128:
  "word128 (x + y) = word128 x + word128 y \<and> word128 (x - y) = word128 x - word128 y \<and> word128 (- x) = - word128 x \<and>
   word128 (x * y) = word128 x * word128 y \<and> word128 (uint128_shl x n) = push_bit n (word128 x) \<and>
   word128 (uint128_shr x n) = drop_bit n (word128 x) \<and> word128 (uint128_not x) = NOT (word128 x) \<and>
   (x < y \<longleftrightarrow> word128 x < word128 y) \<and> (x \<le> y \<longleftrightarrow> word128 x \<le> word128 y) \<and> (uint128_eq x y \<longleftrightarrow> word128 x = word128 y)"
  by (simp add: word128_ops word128_shl word128_shr word128_not word128_eq)

text \<open>C33. The shift-and-subtract division returns the quotient and the remainder for every dividend and every
  divisor but zero, which is a fatal error.\<close>

theorem DivModImpl_exact:
  "DivModImpl x y =
     (if word128 y = 0 then Inl (StdException ''FatalException'')
      else Inr (of_word128 (word128 x div word128 y), of_word128 (word128 x mod word128 y)))"
  using DivModImpl_cases [of x y] by (auto intro: of_word128_eqI simp del: word128_inject)

text \<open>Printing in three chunks gives the digits of the number without leading zeros, in each base, after
  the prefix of the base where the stream asks for one, padded to the width of the stream.\<close>

theorem uint128_print_exact:
  "uint128_print os b =
     Inr (let n = unat (word128 b); rep = base_prefix os n @ digits_in (radix_of (os_base os)) (os_uppercase os) n;
              padding = replicate (os_width os - length rep) (os_fill os)
          in os\<lparr>os_width := 0, os_text := os_text os @ (if os_left os then rep @ padding else padding @ rep)\<rparr>)"
  by (simp add: uint128_print_def uint128_rep_exact Let_def)

end
