(* ===== verification/Pb_Number_Print.thy ===== *)
theory Pb_Number_Print
  imports Pb_Digits
begin

text \<open>
  How stubs/strutil.cc prints integers. The functions write into a buffer of the caller: a state is
  the buffer and the position of the pointer; writing outside of the buffer, looking past the end
  of a table and a signed result that does not fit are undefined. The functions whose name ends in
  \<open>Left\<close> write forwards, two digits at a time, with jumps between the lengths; the others write
  backwards from the end of their part of the buffer.
\<close>

section \<open>Writing characters\<close>

type_synonym writer = "string \<times> nat"

definition put_char :: "char \<Rightarrow> writer \<Rightarrow> writer outcome" where
  "put_char c = (\<lambda>(buffer, p). if p < length buffer then Inr (buffer[p := c], p + 1) else Inl (Undefined ''write past the buffer''))"

fun puts :: "string \<Rightarrow> writer \<Rightarrow> writer outcome" where
  "puts [] w = Inr w"
| "puts (c # cs) w = and_then (put_char c w) (puts cs)"

text \<open>\<open>*buffer = 0; return buffer;\<close>\<close>

definition buffer_done :: "writer \<Rightarrow> writer outcome" where
  "buffer_done = (\<lambda>(buffer, p). if p < length buffer then Inr (buffer[p := CHR 0x00], p) else Inl (Undefined ''write past the buffer''))"

definition signed_result :: "nat \<Rightarrow> int \<Rightarrow> int outcome" where
  "signed_result bits x = (if - (2 ^ (bits - 1)) \<le> x \<and> x < 2 ^ (bits - 1) then Inr x else Inl (Undefined ''signed overflow''))"

section \<open>Left-aligned numbers\<close>

definition two_ASCII_digits :: "(char \<times> char) list" where
  "two_ASCII_digits = [
   (CHR ''0'', CHR ''0''), (CHR ''0'', CHR ''1''), (CHR ''0'', CHR ''2''), (CHR ''0'', CHR ''3''), (CHR ''0'', CHR ''4''),
   (CHR ''0'', CHR ''5''), (CHR ''0'', CHR ''6''), (CHR ''0'', CHR ''7''), (CHR ''0'', CHR ''8''), (CHR ''0'', CHR ''9''),
   (CHR ''1'', CHR ''0''), (CHR ''1'', CHR ''1''), (CHR ''1'', CHR ''2''), (CHR ''1'', CHR ''3''), (CHR ''1'', CHR ''4''),
   (CHR ''1'', CHR ''5''), (CHR ''1'', CHR ''6''), (CHR ''1'', CHR ''7''), (CHR ''1'', CHR ''8''), (CHR ''1'', CHR ''9''),
   (CHR ''2'', CHR ''0''), (CHR ''2'', CHR ''1''), (CHR ''2'', CHR ''2''), (CHR ''2'', CHR ''3''), (CHR ''2'', CHR ''4''),
   (CHR ''2'', CHR ''5''), (CHR ''2'', CHR ''6''), (CHR ''2'', CHR ''7''), (CHR ''2'', CHR ''8''), (CHR ''2'', CHR ''9''),
   (CHR ''3'', CHR ''0''), (CHR ''3'', CHR ''1''), (CHR ''3'', CHR ''2''), (CHR ''3'', CHR ''3''), (CHR ''3'', CHR ''4''),
   (CHR ''3'', CHR ''5''), (CHR ''3'', CHR ''6''), (CHR ''3'', CHR ''7''), (CHR ''3'', CHR ''8''), (CHR ''3'', CHR ''9''),
   (CHR ''4'', CHR ''0''), (CHR ''4'', CHR ''1''), (CHR ''4'', CHR ''2''), (CHR ''4'', CHR ''3''), (CHR ''4'', CHR ''4''),
   (CHR ''4'', CHR ''5''), (CHR ''4'', CHR ''6''), (CHR ''4'', CHR ''7''), (CHR ''4'', CHR ''8''), (CHR ''4'', CHR ''9''),
   (CHR ''5'', CHR ''0''), (CHR ''5'', CHR ''1''), (CHR ''5'', CHR ''2''), (CHR ''5'', CHR ''3''), (CHR ''5'', CHR ''4''),
   (CHR ''5'', CHR ''5''), (CHR ''5'', CHR ''6''), (CHR ''5'', CHR ''7''), (CHR ''5'', CHR ''8''), (CHR ''5'', CHR ''9''),
   (CHR ''6'', CHR ''0''), (CHR ''6'', CHR ''1''), (CHR ''6'', CHR ''2''), (CHR ''6'', CHR ''3''), (CHR ''6'', CHR ''4''),
   (CHR ''6'', CHR ''5''), (CHR ''6'', CHR ''6''), (CHR ''6'', CHR ''7''), (CHR ''6'', CHR ''8''), (CHR ''6'', CHR ''9''),
   (CHR ''7'', CHR ''0''), (CHR ''7'', CHR ''1''), (CHR ''7'', CHR ''2''), (CHR ''7'', CHR ''3''), (CHR ''7'', CHR ''4''),
   (CHR ''7'', CHR ''5''), (CHR ''7'', CHR ''6''), (CHR ''7'', CHR ''7''), (CHR ''7'', CHR ''8''), (CHR ''7'', CHR ''9''),
   (CHR ''8'', CHR ''0''), (CHR ''8'', CHR ''1''), (CHR ''8'', CHR ''2''), (CHR ''8'', CHR ''3''), (CHR ''8'', CHR ''4''),
   (CHR ''8'', CHR ''5''), (CHR ''8'', CHR ''6''), (CHR ''8'', CHR ''7''), (CHR ''8'', CHR ''8''), (CHR ''8'', CHR ''9''),
   (CHR ''9'', CHR ''0''), (CHR ''9'', CHR ''1''), (CHR ''9'', CHR ''2''), (CHR ''9'', CHR ''3''), (CHR ''9'', CHR ''4''),
   (CHR ''9'', CHR ''5''), (CHR ''9'', CHR ''6''), (CHR ''9'', CHR ''7''), (CHR ''9'', CHR ''8''), (CHR ''9'', CHR ''9'')]"

definition put_two :: "u32 \<Rightarrow> writer \<Rightarrow> writer outcome" where
  "put_two digits w =
     (if unat digits < length two_ASCII_digits
      then and_then (put_char (fst (two_ASCII_digits ! unat digits)) w) (put_char (snd (two_ASCII_digits ! unat digits)))
      else Inl (Undefined ''index out of range''))"

definition put_digit :: "u32 \<Rightarrow> writer \<Rightarrow> writer outcome" where
  "put_digit digits = put_char (char_of (48 + unat digits))"

text \<open>The labels of \<open>FastUInt32ToBufferLeft\<close>, last first. A label whose name starts with \<open>sub\<close> takes away what
  is printed already.\<close>

definition lt100 :: "u32 \<Rightarrow> writer \<Rightarrow> writer outcome" where
  "lt100 u w = and_then (put_two u w) buffer_done"

definition sublt100 :: "u32 \<Rightarrow> u32 \<Rightarrow> writer \<Rightarrow> writer outcome" where
  "sublt100 digits u = lt100 (u - digits * 100)"

definition lt10_000 :: "u32 \<Rightarrow> writer \<Rightarrow> writer outcome" where
  "lt10_000 u w = (let digits = u div 100 in and_then (put_two digits w) (sublt100 digits u))"

definition sublt10_000 :: "u32 \<Rightarrow> u32 \<Rightarrow> writer \<Rightarrow> writer outcome" where
  "sublt10_000 digits u = lt10_000 (u - digits * 10000)"

definition lt1_000_000 :: "u32 \<Rightarrow> writer \<Rightarrow> writer outcome" where
  "lt1_000_000 u w = (let digits = u div 10000 in and_then (put_two digits w) (sublt10_000 digits u))"

definition sublt1_000_000 :: "u32 \<Rightarrow> u32 \<Rightarrow> writer \<Rightarrow> writer outcome" where
  "sublt1_000_000 digits u = lt1_000_000 (u - digits * 1000000)"

definition lt100_000_000 :: "u32 \<Rightarrow> writer \<Rightarrow> writer outcome" where
  "lt100_000_000 u w = (let digits = u div 1000000 in and_then (put_two digits w) (sublt1_000_000 digits u))"

definition sublt100_000_000 :: "u32 \<Rightarrow> u32 \<Rightarrow> writer \<Rightarrow> writer outcome" where
  "sublt100_000_000 digits u = lt100_000_000 (u - digits * 100000000)"

definition FastUInt32ToBufferLeft :: "u32 \<Rightarrow> writer \<Rightarrow> writer outcome" where
  "FastUInt32ToBufferLeft u w =
     (if 1000000000 \<le> u then
        let digits = u div 100000000 in and_then (put_two digits w) (sublt100_000_000 digits u)
      else if u < 100 then
        if 10 \<le> u then lt100 u w else and_then (put_digit u w) buffer_done
      else if u < 10000 then
        if 1000 \<le> u then lt10_000 u w
        else let digits = u div 100 in and_then (put_digit digits w) (sublt100 digits u)
      else if u < 1000000 then
        if 100000 \<le> u then lt1_000_000 u w
        else let digits = u div 10000 in and_then (put_digit digits w) (sublt10_000 digits u)
      else if u < 100000000 then
        if 10000000 \<le> u then lt100_000_000 u w
        else let digits = u div 1000000 in and_then (put_digit digits w) (sublt1_000_000 digits u)
      else
        let digits = u div 100000000 in and_then (put_digit digits w) (sublt100_000_000 digits u))"

definition FastInt32ToBufferLeft :: "32 word \<Rightarrow> writer \<Rightarrow> writer outcome" where
  "FastInt32ToBufferLeft i w =
     (if i <s 0 then and_then (put_char (CHR ''-'') w) (FastUInt32ToBufferLeft (0 - i)) else FastUInt32ToBufferLeft i w)"

lemma not_small_u64: "ucast (ucast n :: u32) \<noteq> (n :: u64) \<Longrightarrow> 2 ^ 32 \<le> unat n"
proof (rule ccontr)
  assume "ucast (ucast n :: u32) \<noteq> n" and "\<not> 2 ^ 32 \<le> unat n"
  then have "unat (ucast (ucast n :: u32) :: u64) = unat n"
    by (simp add: unsigned_ucast_eq unsigned_take_bit_eq take_bit_nat_eq_self)
  with \<open>ucast (ucast n :: u32) \<noteq> n\<close> show False
    by (simp add: unsigned_word_eqI)
qed

function FastUInt64ToBufferLeft :: "u64 \<Rightarrow> writer \<Rightarrow> writer outcome" where
  "FastUInt64ToBufferLeft n w =
     (let u = ucast n :: u32 in
      if ucast u = n then FastUInt32ToBufferLeft u w
      else
        let top_11_digits = n div 1000000000 in
        and_then (FastUInt64ToBufferLeft top_11_digits w) (\<lambda>w.
        let u = ucast (n - top_11_digits * 1000000000) :: u32; digits = u div 10000000 in
        and_then (put_two digits w) (\<lambda>w.
        let u = u - digits * 10000000; digits = u div 100000 in
        and_then (put_two digits w) (\<lambda>w.
        let u = u - digits * 100000; digits = u div 1000 in
        and_then (put_two digits w) (\<lambda>w.
        let u = u - digits * 1000; digits = u div 10 in
        and_then (put_two digits w) (\<lambda>w.
        and_then (put_digit (u - digits * 10) w) buffer_done))))))"
  by auto

termination
  by (relation "measure (\<lambda>(n, w). unat n)") (auto dest!: not_small_u64 simp: unat_div)

declare FastUInt64ToBufferLeft.simps [simp del]

definition FastInt64ToBufferLeft :: "64 word \<Rightarrow> writer \<Rightarrow> writer outcome" where
  "FastInt64ToBufferLeft i w =
     (if i <s 0 then and_then (put_char (CHR ''-'') w) (FastUInt64ToBufferLeft (0 - i)) else FastUInt64ToBufferLeft i w)"

section \<open>Right-aligned numbers\<close>

text \<open>\<open>*p-- = c;\<close> with \<open>p\<close> an offset into the buffer, and \<open>*p = '-'; return p;\<close>.\<close>

definition put_back :: "char \<Rightarrow> string \<times> int \<Rightarrow> (string \<times> int) outcome" where
  "put_back c = (\<lambda>(buffer, p). if 0 \<le> p \<and> p < int (length buffer) then Inr (buffer[nat p := c], p - 1)
                            else Inl (Undefined ''write past the buffer''))"

definition put_minus :: "string \<times> int \<Rightarrow> (string \<times> int) outcome" where
  "put_minus w = and_then (put_back (CHR ''-'') w) (\<lambda>(buffer, p). Inr (buffer, p + 1))"

function back_digits :: "int \<Rightarrow> string \<times> int \<Rightarrow> (string \<times> int) outcome" where
  "back_digits i w =
     and_then (put_back (char_of (48 + nat (i mod 10))) w) (\<lambda>w.
       let i = i div 10 in if 0 < i then back_digits i w else Inr w)"
  by auto

termination
  by (relation "measure (\<lambda>(i, w). nat i)") auto

declare back_digits.simps [simp del]

text \<open>The two copies of the function differ in the width of \<open>i\<close> and the offset of the terminating 0.\<close>

definition FastInt_ToBuffer :: "nat \<Rightarrow> nat \<Rightarrow> int \<Rightarrow> string \<Rightarrow> (string \<times> int) outcome" where
  "FastInt_ToBuffer bits offset i buffer =
     and_then (put_back (CHR 0x00) (buffer, int offset)) (\<lambda>w.
     if 0 \<le> i then and_then (back_digits i w) (\<lambda>(buffer, p). Inr (buffer, p + 1))
     else if - 10 < i then
       and_then (signed_result bits (- i)) (\<lambda>i.
       and_then (put_back (char_of (48 + nat i)) w) put_minus)
     else
       and_then (signed_result bits (i + 10)) (\<lambda>i.
       and_then (signed_result bits (- i)) (\<lambda>i.
       and_then (put_back (char_of (48 + nat (i mod 10))) w) (\<lambda>w.
       and_then (back_digits (i div 10 + 1) w) put_minus))))"

definition kFastInt64ToBufferOffset :: nat where "kFastInt64ToBufferOffset = 21"

definition kFastInt32ToBufferOffset :: nat where "kFastInt32ToBufferOffset = 11"

definition FastInt64ToBuffer :: "int \<Rightarrow> string \<Rightarrow> (string \<times> int) outcome" where
  "FastInt64ToBuffer = FastInt_ToBuffer 64 kFastInt64ToBufferOffset"

definition FastInt32ToBuffer :: "int \<Rightarrow> string \<Rightarrow> (string \<times> int) outcome" where
  "FastInt32ToBuffer = FastInt_ToBuffer 32 kFastInt32ToBufferOffset"

text \<open>Hexadecimal numbers.\<close>

definition hexdigits :: string where "hexdigits = ''0123456789abcdef''"

function back_hex :: "int \<Rightarrow> string \<times> int \<Rightarrow> (string \<times> int) outcome" where
  "back_hex i w =
     and_then (put_back (hexdigits ! nat (i AND 15)) w) (\<lambda>w.
       let i = drop_bit 4 i in if 0 < i then back_hex i w else Inr w)"
  by auto

termination
  by (relation "measure (\<lambda>(i, w). nat i)") (auto simp: drop_bit_eq_div)

declare back_hex.simps [simp del]

definition FastHexToBuffer :: "int \<Rightarrow> string \<Rightarrow> (string \<times> int) outcome" where
  "FastHexToBuffer i buffer =
     (if \<not> 0 \<le> i then Inl (StdException ''FatalException'')
      else and_then (put_back (CHR 0x00) (buffer, 21)) (\<lambda>w. and_then (back_hex i w) (\<lambda>(buffer, p). Inr (buffer, p + 1))))"

text \<open>The loop over \<open>i = num_byte - 1, \<dots>, 0\<close>.\<close>

fun hex_loop :: "nat \<Rightarrow> u64 \<Rightarrow> string \<Rightarrow> string outcome" where
  "hex_loop 0 v buffer = Inr buffer"
| "hex_loop (Suc i) v buffer =
     and_then (put_back (hexdigits ! unat (v AND 0xf)) (buffer, int i)) (\<lambda>(buffer, p). hex_loop i (drop_bit 4 v) buffer)"

definition InternalFastHexToBuffer :: "u64 \<Rightarrow> string \<Rightarrow> nat \<Rightarrow> string outcome" where
  "InternalFastHexToBuffer v buffer num_byte =
     and_then (put_back (CHR 0x00) (buffer, int num_byte)) (\<lambda>(buffer, p). hex_loop num_byte v buffer)"

definition FastHex64ToBuffer :: "u64 \<Rightarrow> string \<Rightarrow> string outcome" where
  "FastHex64ToBuffer v buffer = InternalFastHexToBuffer v buffer 16"

definition FastHex32ToBuffer :: "u32 \<Rightarrow> string \<Rightarrow> string outcome" where
  "FastHex32ToBuffer v buffer = InternalFastHexToBuffer (ucast v) buffer 8"

section \<open>Strings\<close>

text \<open>The string that starts at a position of a buffer, and \<open>SimpleItoa\<close>: \<open>int\<close> and \<open>long\<close> have 32 bits,
  \<open>long long\<close> has 64. \<open>junk\<close> is what the uninitialised buffer holds.\<close>

definition c_string :: "string \<Rightarrow> nat \<Rightarrow> string" where
  "c_string buffer p = takeWhile (\<lambda>c. c \<noteq> CHR 0x00) (drop p buffer)"

definition kFastToBufferSize :: nat where "kFastToBufferSize = 32"

definition SimpleItoa_int :: "string \<Rightarrow> int \<Rightarrow> string outcome" where
  "SimpleItoa_int junk i = and_then (FastInt32ToBuffer i junk) (\<lambda>(buffer, p). Inr (c_string buffer (nat p)))"

definition SimpleItoa_unsigned :: "string \<Rightarrow> u32 \<Rightarrow> string outcome" where
  "SimpleItoa_unsigned junk i = and_then (FastUInt32ToBufferLeft i (junk, 0)) (\<lambda>(buffer, p). Inr (take p buffer))"

definition SimpleItoa_long_long :: "string \<Rightarrow> int \<Rightarrow> string outcome" where
  "SimpleItoa_long_long junk i = and_then (FastInt64ToBuffer i junk) (\<lambda>(buffer, p). Inr (c_string buffer (nat p)))"

definition SimpleItoa_unsigned_long_long :: "string \<Rightarrow> u64 \<Rightarrow> string outcome" where
  "SimpleItoa_unsigned_long_long junk i = and_then (FastUInt64ToBufferLeft i (junk, 0)) (\<lambda>(buffer, p). Inr (take p buffer))"

section \<open>What they write\<close>

lemma and_then_assoc: "and_then (and_then m f) g = and_then m (\<lambda>x. and_then (f x) g)"
  by (cases m) auto

lemma puts_append: "puts (s @ t) w = and_then (puts s w) (puts t)"
proof (induction s arbitrary: w)
  case (Cons c s)
  then show ?case
    by (cases "put_char c w") simp_all
qed simp

text \<open>A text and the character 0 behind it; the next text starts at the 0.\<close>

definition emits :: "string \<Rightarrow> writer \<Rightarrow> writer outcome" where
  "emits s w = and_then (puts s w) buffer_done"

lemma and_then_puts: "and_then (puts s w) (emits t) = emits (s @ t) w"
  by (cases "puts s w") (simp_all add: emits_def puts_append)

lemma puts_1: "put_char c = puts [c]"
proof
  show "put_char c w = puts [c] w" for w
    by (cases "put_char c w") simp_all
qed

lemma emits_again:
  assumes "t \<noteq> []"
  shows "and_then (emits s w) (emits t) = emits (s @ t) w"
proof -
  obtain c r where t: "t = c # r"
    using assms by (cases t) auto
  have "and_then (buffer_done v) (emits t) = emits t v" for v
    by (cases v) (simp add: t emits_def buffer_done_def put_char_def)
  then show ?thesis
    by (cases "puts s w") (simp_all add: emits_def [of s] emits_def [of "s @ t"] puts_append, simp add: emits_def)
qed

lemma table_product: "two_ASCII_digits = List.product ''0123456789'' ''0123456789''"
  by (simp add: two_ASCII_digits_def)

lemma digit_characters: "d < 10 \<Longrightarrow> ''0123456789'' ! d = digit_in False d"
proof -
  assume "d < 10"
  moreover have "map (digit_in False) [0..<10] = ''0123456789''"
    by code_simp
  ultimately show ?thesis
    by (metis add_0 diff_zero length_upt nth_map nth_upt)
qed

lemma table_entries: "d < 100 \<Longrightarrow> two_ASCII_digits ! d = (digit_in False (d div 10), digit_in False (d mod 10))"
  using product_nth [of d "''0123456789''" "''0123456789''"] digit_characters [of "d div 10"] digit_characters [of "d mod 10"]
  by (simp add: table_product less_mult_imp_div_less del: product.simps)

lemma put_two: "unat d < 100 \<Longrightarrow> put_two d w = puts (zero_padded 2 (decimal_digits (unat d))) w"
proof -
  assume d: "unat d < 100"
  have zero: "digit_in False 0 = CHR ''0''"
    by (simp add: digit_in_def char_of_def bit_0)
  have "zero_padded 2 (decimal_digits (unat d)) = [digit_in False (unat d div 10), digit_in False (unat d mod 10)]"
    using d by (cases "unat d < 10") (simp_all add: zero_padded_def digits_in_small decimal_digits_parts [of 1 "unat d"] zero)
  moreover have "length two_ASCII_digits = 100"
    by (simp add: table_product)
  moreover have "and_then (put_char a w) (put_char b) = puts [a, b] w" for a b
    by (simp add: puts_1 [of b])
  ultimately show ?thesis
    using d by (simp add: put_two_def table_entries del: puts.simps)
qed

lemma put_digit: "unat d < 10 \<Longrightarrow> put_digit d = puts (decimal_digits (unat d))"
  by (simp add: put_digit_def puts_1 digits_in_small digit_in_def)

text \<open>The labels print all the digits below them, padded.\<close>

lemma put_then_padded:
  assumes "\<And>v. unat v < 10 ^ b \<Longrightarrow> F v = emits (zero_padded b (decimal_digits (unat v)))"
    and "unat (k :: u32) = 10 ^ b" and "0 < b" and "unat u < 10 ^ (2 + b)"
  shows "and_then (put_two (u div k) w) (F (u - u div k * k)) = emits (zero_padded (2 + b) (decimal_digits (unat u))) w"
proof -
  have v: "unat (u - u div k * k) = unat u mod 10 ^ b"
    by (simp add: minus_div_mult_eq_mod unat_mod assms(2))
  then have "F (u - u div k * k) = emits (zero_padded b (decimal_digits (unat u mod 10 ^ b)))"
    using assms(1) [of "u - u div k * k"] by simp
  moreover have "unat (u div k) = unat u div 10 ^ b"
    by (simp add: unat_div assms(2))
  moreover from this have "unat (u div k) < 100"
    using assms(4) by (simp add: less_mult_imp_div_less power_add)
  ultimately show ?thesis
    unfolding zero_padded_parts [OF zero_less_numeral assms(3,4)] by (simp add: put_two and_then_puts)
qed

lemma lt100_emits: "unat u < 10 ^ 2 \<Longrightarrow> lt100 u = emits (zero_padded 2 (decimal_digits (unat u)))"
  by (simp add: lt100_def put_two emits_def fun_eq_iff)

lemma lt10_000_emits: "unat u < 10 ^ 4 \<Longrightarrow> lt10_000 u = emits (zero_padded 4 (decimal_digits (unat u)))"
  using put_then_padded [of 2 lt100 100 u, OF lt100_emits] by (simp add: lt10_000_def sublt100_def Let_def fun_eq_iff)

lemma lt1_000_000_emits: "unat u < 10 ^ 6 \<Longrightarrow> lt1_000_000 u = emits (zero_padded 6 (decimal_digits (unat u)))"
  using put_then_padded [of 4 lt10_000 10000 u, OF lt10_000_emits] by (simp add: lt1_000_000_def sublt10_000_def Let_def fun_eq_iff)

lemma lt100_000_000_emits: "unat u < 10 ^ 8 \<Longrightarrow> lt100_000_000 u = emits (zero_padded 8 (decimal_digits (unat u)))"
  using put_then_padded [of 6 lt1_000_000 1000000 u, OF lt1_000_000_emits]
  by (simp add: lt100_000_000_def sublt1_000_000_def Let_def fun_eq_iff)

text \<open>A number that is not padded is printed from one or two digits on.\<close>

lemma put_then_emits:
  assumes "\<And>v. unat v < 10 ^ b \<Longrightarrow> F v = emits (zero_padded b (decimal_digits (unat v)))"
    and "unat (k :: u32) = 10 ^ b" and "0 < b" and "10 ^ b \<le> unat u"
  shows "unat u < 10 ^ (1 + b) \<Longrightarrow> and_then (put_digit (u div k) w) (F (u - u div k * k)) = emits (decimal_digits (unat u)) w"
    and "10 ^ (1 + b) \<le> unat u \<Longrightarrow> unat u < 10 ^ (2 + b) \<Longrightarrow> and_then (put_two (u div k) w) (F (u - u div k * k)) = emits (decimal_digits (unat u)) w"
proof -
  have v: "unat (u - u div k * k) = unat u mod 10 ^ b"
    by (simp add: minus_div_mult_eq_mod unat_mod assms(2))
  then have F: "F (u - u div k * k) = emits (zero_padded b (decimal_digits (unat u mod 10 ^ b)))"
    using assms(1) [of "u - u div k * k"] by simp
  have q: "unat (u div k) = unat u div 10 ^ b"
    by (simp add: unat_div assms(2))
  note parts = decimal_digits_parts [OF assms(3,4)]
  show "and_then (put_digit (u div k) w) (F (u - u div k * k)) = emits (decimal_digits (unat u)) w" if "unat u < 10 ^ (1 + b)"
  proof -
    have "unat (u div k) < 10"
      using that unfolding q by (simp add: less_mult_imp_div_less)
    then show ?thesis
      unfolding F put_digit [OF \<open>unat (u div k) < 10\<close>] and_then_puts q by (simp flip: parts)
  qed
  show "and_then (put_two (u div k) w) (F (u - u div k * k)) = emits (decimal_digits (unat u)) w"
    if "10 ^ (1 + b) \<le> unat u" "unat u < 10 ^ (2 + b)"
  proof -
    have "unat (u div k) < 100"
      using that(2) unfolding q by (simp add: less_mult_imp_div_less power_add)
    moreover have "10 \<le> unat (u div k)"
      using that(1) unfolding q by (simp add: less_eq_div_iff_mult_less_eq)
    moreover from calculation have "length (decimal_digits (unat (u div k))) = 2"
      by (simp add: decimal_digits_parts [of 1 "unat (u div k)"] digits_in_small zero_padded_def)
    ultimately have "zero_padded 2 (decimal_digits (unat (u div k))) = decimal_digits (unat (u div k))"
      by (simp add: zero_padded_def)
    then show ?thesis
      unfolding F put_two [OF \<open>unat (u div k) < 100\<close>] and_then_puts q by (simp flip: parts)
  qed
qed

lemma unpadded_emits:
  "10 \<le> unat u \<Longrightarrow> unat u < 10 ^ 2 \<Longrightarrow> lt100 u = emits (decimal_digits (unat u))"
  "10 ^ 3 \<le> unat u \<Longrightarrow> unat u < 10 ^ 4 \<Longrightarrow> lt10_000 u = emits (decimal_digits (unat u))"
  "10 ^ 5 \<le> unat u \<Longrightarrow> unat u < 10 ^ 6 \<Longrightarrow> lt1_000_000 u = emits (decimal_digits (unat u))"
  "10 ^ 7 \<le> unat u \<Longrightarrow> unat u < 10 ^ 8 \<Longrightarrow> lt100_000_000 u = emits (decimal_digits (unat u))"
  using zero_padded_full [of 1 "unat u"] zero_padded_full [of 3 "unat u"] zero_padded_full [of 5 "unat u"] zero_padded_full [of 7 "unat u"]
  by (simp_all only: lt100_emits lt10_000_emits lt1_000_000_emits lt100_000_000_emits power_one_right Suc_numeral add_num_simps Suc_1 arith_simps)

lemma FastUInt32ToBufferLeft_emits: "FastUInt32ToBufferLeft u w = emits (decimal_digits (unat u)) w"
proof -
  note sub = sublt100_def sublt10_000_def sublt1_000_000_def sublt100_000_000_def
  have u: "unat u < 2 ^ 32"
    using unsigned_less [of u] by simp
  note e2 = put_then_emits [of 2 lt100 100 u w, OF lt100_emits]
  note e4 = put_then_emits [of 4 lt10_000 10000 u w, OF lt10_000_emits]
  note e6 = put_then_emits [of 6 lt1_000_000 1000000 u w, OF lt1_000_000_emits]
  note e8 = put_then_emits [of 8 lt100_000_000 100000000 u w, OF lt100_000_000_emits]
  have e0: "and_then (put_digit u w) buffer_done = emits (decimal_digits (unat u)) w" if "unat u < 10"
    using that by (simp add: put_digit emits_def)
  show ?thesis
    unfolding FastUInt32ToBufferLeft_def Let_def sub
    using u e0 e2 e4 e6 e8 unpadded_emits [of u] by (simp add: word_le_nat_alt word_less_nat_alt)
qed

text \<open>The last nine digits of a number of 64 bits.\<close>

lemma nine_digits:
  assumes "unat u < 10 ^ 9"
  shows "(let digits = u div 10000000 in
        and_then (put_two digits w) (\<lambda>w.
        let u = u - digits * 10000000; digits = u div 100000 in
        and_then (put_two digits w) (\<lambda>w.
        let u = u - digits * 100000; digits = u div 1000 in
        and_then (put_two digits w) (\<lambda>w.
        let u = u - digits * 1000; digits = u div 10 in
        and_then (put_two digits w) (\<lambda>w.
        and_then (put_digit (u - digits * 10) w) buffer_done))))) = emits (zero_padded 9 (decimal_digits (unat u))) w"
proof -
  define F1 where "F1 v w = and_then (put_digit v w) buffer_done" for v w
  define F3 where "F3 v w = and_then (put_two (v div 10) w) (F1 (v - v div 10 * 10))" for v w
  define F5 where "F5 v w = and_then (put_two (v div 1000) w) (F3 (v - v div 1000 * 1000))" for v w
  define F7 where "F7 v w = and_then (put_two (v div 100000) w) (F5 (v - v div 100000 * 100000))" for v w
  have 1: "F1 v = emits (zero_padded 1 (decimal_digits (unat v)))" if "unat v < 10 ^ 1" for v
    using that by (simp add: F1_def fun_eq_iff put_digit emits_def zero_padded_def digits_in_small)
  have 3: "F3 v = emits (zero_padded 3 (decimal_digits (unat v)))" if "unat v < 10 ^ 3" for v
    using that put_then_padded [of 1 F1 10 v, OF 1] by (simp add: F3_def fun_eq_iff)
  have 5: "F5 v = emits (zero_padded 5 (decimal_digits (unat v)))" if "unat v < 10 ^ 5" for v
    using that put_then_padded [of 3 F3 1000 v, OF 3] by (simp add: F5_def fun_eq_iff)
  have 7: "F7 v = emits (zero_padded 7 (decimal_digits (unat v)))" if "unat v < 10 ^ 7" for v
    using that put_then_padded [of 5 F5 100000 v, OF 5] by (simp add: F7_def fun_eq_iff)
  show ?thesis
    using assms put_then_padded [of 7 F7 10000000 u, OF 7]
    by (simp add: Let_def F7_def [abs_def] F5_def [abs_def] F3_def [abs_def] F1_def [abs_def])
qed

lemma unat_u32_to_u64: "unat (ucast (v :: u32) :: u64) = unat v"
  using unat_u32_less [of v] by (simp add: unsigned_ucast_eq take_bit_nat_eq_self)

lemma FastUInt64ToBufferLeft_emits: "FastUInt64ToBufferLeft n w = emits (decimal_digits (unat n)) w"
proof (induction n w rule: FastUInt64ToBufferLeft.induct)
  case (1 n w)
  show ?case
  proof (cases "ucast (ucast n :: u32) = n")
    case True
    then have "unat (ucast n :: u32) = unat n"
      using unat_u32_to_u64 [of "ucast n"] by simp
    with True show ?thesis
      by (simp add: FastUInt64ToBufferLeft.simps [of n] FastUInt32ToBufferLeft_emits)
  next
    case False
    note big = not_small_u64 [OF False]
    let ?top = "n div 1000000000" and ?u = "ucast (n - n div 1000000000 * 1000000000) :: u32"
    have top: "unat ?top = unat n div 10 ^ 9"
      by (simp add: unat_div)
    have u: "unat ?u = unat n mod 10 ^ 9"
      by (simp add: minus_div_mult_eq_mod unat_mod unsigned_ucast_eq take_bit_nat_eq_self)
    then have "unat ?u < 10 ^ 9"
      by simp
    note nine = nine_digits [OF this]
    have "FastUInt64ToBufferLeft n w = and_then (emits (decimal_digits (unat ?top)) w) (emits (zero_padded 9 (decimal_digits (unat ?u))))"
      using False "1.IH" [OF refl False refl] nine by (simp add: FastUInt64ToBufferLeft.simps [of n] Let_def)
    also have "\<dots> = emits (decimal_digits (unat n)) w"
    proof -
      have "zero_padded 9 (decimal_digits (unat ?u)) \<noteq> []"
        by (simp add: zero_padded_def digits_in_nonempty)
      moreover have "10 ^ 9 \<le> unat n"
        using big by simp
      ultimately show ?thesis
        using decimal_digits_parts [of 9 "unat n"] unfolding top u by (simp add: emits_again)
    qed
    finally show ?thesis .
  qed
qed

section \<open>Writing backwards\<close>

text \<open>The buffer holds \<open>t\<close> from \<open>q\<close> on, and the pointer is in front of it.\<close>

definition backed :: "string \<Rightarrow> nat \<Rightarrow> string \<Rightarrow> string \<times> int" where
  "backed buffer q t = (overwrite buffer q t, int q - 1)"

lemma overwrite_update:
  assumes "0 < q" and "q + length t \<le> length buffer"
  shows "(overwrite buffer q t)[q - 1 := c] = overwrite buffer (q - 1) (c # t)"
proof -
  have "take q buffer = take (q - 1) buffer @ [buffer ! (q - 1)]"
    using assms take_Suc_conv_app_nth [of "q - 1" buffer] by simp
  with assms show ?thesis
    by (simp add: overwrite_def list_update_append)
qed

lemma put_back_backed:
  assumes "0 < q" and "q + length t \<le> length buffer"
  shows "put_back c (backed buffer q t) = Inr (backed buffer (q - 1) (c # t))"
  using assms overwrite_update [OF assms, of c] by (simp add: put_back_def backed_def nat_diff_distrib)

lemma put_back_0: "q < length buffer \<Longrightarrow> put_back c (buffer, int q) = Inr (backed buffer q [c])"
  by (simp add: put_back_def backed_def overwrite_def upd_conv_take_nth_drop)

lemma put_minus_backed:
  assumes "0 < q" and "q + length t \<le> length buffer"
  shows "put_minus (backed buffer q t) = Inr (overwrite buffer (q - 1) (CHR ''-'' # t), int (q - 1))"
  by (simp add: put_minus_def put_back_backed [OF assms]) (simp add: backed_def)

lemma back_digits_backed:
  assumes "length (decimal_digits n) \<le> q" and "q + length t \<le> length buffer"
  shows "back_digits (int n) (backed buffer q t) = Inr (backed buffer (q - length (decimal_digits n)) (decimal_digits n @ t))"
  using assms
proof (induction n arbitrary: q t rule: less_induct)
  case (less n)
  have d: "char_of (48 + nat (int n mod 10)) = digit_in False (n mod 10)"
    by (simp add: digit_in_def flip: zmod_int [of n 10, simplified])
  have q: "0 < q"
    using less.prems(1) digits_in_nonempty [of 10 False n] by (cases q) auto
  show ?case
  proof (cases "n < 10")
    case True
    then show ?thesis
      using d put_back_backed [OF q less.prems(2)] by (simp add: back_digits.simps [of "int n"] digits_in_small Let_def)
  next
    case False
    then have n: "decimal_digits n = decimal_digits (n div 10) @ [digit_in False (n mod 10)]"
      by (simp add: digits_in.simps [of 10 False n])
    have pos: "0 < int n div 10"
      using False by simp
    have "back_digits (int n) (backed buffer q t) = back_digits (int (n div 10)) (backed buffer (q - 1) (digit_in False (n mod 10) # t))"
      using put_back_backed [OF q less.prems(2)] pos unfolding back_digits.simps [of "int n"] d by (simp add: Let_def zdiv_int)
    also have "\<dots> = Inr (backed buffer (q - 1 - length (decimal_digits (n div 10))) (decimal_digits (n div 10) @ digit_in False (n mod 10) # t))"
      using less.prems n q False by (intro less.IH) auto
    finally show ?thesis
      unfolding n by simp
  qed
qed

lemma signed_result_in: "- (2 ^ (bits - 1)) \<le> x \<Longrightarrow> x < 2 ^ (bits - 1) \<Longrightarrow> signed_result bits x = Inr x"
  by (simp add: signed_result_def)

lemma decimal_digits_snoc: "10 \<le> n \<Longrightarrow> decimal_digits n = decimal_digits (n div 10) @ [digit_in False (n mod 10)]"
  by (simp add: digits_in.simps [of 10 False n])

text \<open>A signed number fits in front of the terminating 0, and no negation overflows.\<close>

lemma FastInt_ToBuffer_signed:
  assumes bits: "5 \<le> bits" and i: "- (2 ^ (bits - 1)) \<le> i" "i < 2 ^ (bits - 1)"
    and fits: "length (signed_digits i) \<le> offset" and room: "offset < length buffer"
  shows "FastInt_ToBuffer bits offset i buffer =
    Inr (overwrite buffer (offset - length (signed_digits i)) (signed_digits i @ [CHR 0x00]), int (offset - length (signed_digits i)))"
proof -
  have ten: "10 < (2 :: int) ^ (bits - 1)"
  proof -
    have "(2 :: int) ^ 4 \<le> 2 ^ (bits - 1)"
      using bits by (intro power_increasing) auto
    then show ?thesis
      by simp
  qed
  consider (pos) "0 \<le> i" | (small) "- 10 < i" "i < 0" | (large) "i \<le> - 10"
    by linarith
  then show ?thesis
  proof cases
    case pos
    then have d: "signed_digits i = decimal_digits (nat i)"
      by (simp add: signed_digits_def)
    have "back_digits (int (nat i)) (backed buffer offset [CHR 0x00]) =
        Inr (backed buffer (offset - length (decimal_digits (nat i))) (decimal_digits (nat i) @ [CHR 0x00]))"
      using fits room unfolding d by (intro back_digits_backed) simp_all
    then show ?thesis
      using pos unfolding d by (simp add: FastInt_ToBuffer_def put_back_0 [OF room] backed_def)
  next
    case small
    let ?n = "nat (- i)"
    have n: "nat (- i) < 10"
      using small by simp
    have d: "signed_digits i = [CHR ''-'', digit_in False ?n]"
      using small by (simp add: signed_digits_def digits_in_small)
    have "put_back (char_of (48 + ?n)) (backed buffer offset [CHR 0x00]) = Inr (backed buffer (offset - 1) [digit_in False ?n, CHR 0x00])"
      using fits room n unfolding d by (subst put_back_backed) (simp_all add: digit_in_def)
    moreover have "put_minus (backed buffer (offset - 1) [digit_in False ?n, CHR 0x00]) =
        Inr (overwrite buffer (offset - 2) (signed_digits i @ [CHR 0x00]), int (offset - 2))"
      using fits room unfolding d by (subst put_minus_backed) (simp_all add: numeral_2_eq_2)
    moreover have "signed_result bits (- i) = Inr (- i)"
      using small ten by (intro signed_result_in) linarith+
    ultimately show ?thesis
      using small d by (simp add: FastInt_ToBuffer_def put_back_0 [OF room] numeral_2_eq_2)
  next
    case large
    let ?n = "nat (- i)"
    have n: "10 \<le> ?n" and i0: "\<not> 0 \<le> i" "\<not> - 10 < i"
      using large by simp_all
    have d: "signed_digits i = CHR ''-'' # decimal_digits (?n div 10) @ [digit_in False (?n mod 10)]"
      using large by (simp add: signed_digits_def decimal_digits_snoc [OF n])
    have r: "signed_result bits (i + 10) = Inr (i + 10)" "signed_result bits (- (i + 10)) = Inr (- (i + 10))"
      using large i ten by (intro signed_result_in; linarith)+
    have "- (i + 10) mod 10 = - i mod 10"
      using mod_add_self2 [of "- i - 10" 10] by simp
    also have "\<dots> = int (?n mod 10)"
      using large by (simp add: zmod_int)
    finally have m: "char_of (48 + nat (- (i + 10) mod 10)) = digit_in False (?n mod 10)"
      by (simp add: digit_in_def)
    have "- (i + 10) div 10 + 1 = - i div 10"
      using div_add_self2 [of 10 "- i - 10"] by simp
    also have "\<dots> = int (?n div 10)"
      using large by (simp add: zdiv_int)
    finally have q: "- (i + 10) div 10 + 1 = int (?n div 10)" .
    let ?t = "[digit_in False (?n mod 10), CHR 0x00]"
    have 1: "put_back (digit_in False (?n mod 10)) (backed buffer offset [CHR 0x00]) = Inr (backed buffer (offset - 1) ?t)"
      using fits room unfolding d by (subst put_back_backed) simp_all
    have 2: "back_digits (int (?n div 10)) (backed buffer (offset - 1) ?t) =
        Inr (backed buffer (offset - 1 - length (decimal_digits (?n div 10))) (decimal_digits (?n div 10) @ ?t))"
      using fits room unfolding d by (intro back_digits_backed) simp_all
    have 3: "put_minus (backed buffer (offset - 1 - length (decimal_digits (?n div 10))) (decimal_digits (?n div 10) @ ?t)) =
        Inr (overwrite buffer (offset - length (signed_digits i)) (signed_digits i @ [CHR 0x00]), int (offset - length (signed_digits i)))"
      using fits room unfolding d by (subst put_minus_backed) simp_all
    show ?thesis
      using i0 unfolding FastInt_ToBuffer_def put_back_0 [OF room] and_then.simps r m q 1 2 3 by simp
  qed
qed

lemma length_signed_digits:
  assumes "- (10 ^ k) < i" and "i < 10 ^ k" and "0 < k"
  shows "length (signed_digits i) \<le> Suc k"
  using assms length_decimal_digits [of "nat i" k] length_decimal_digits [of "nat (- i)" k]
  by (auto simp: signed_digits_def nat_less_iff)

lemma digits_no_nul:
  "CHR 0x00 \<notin> set (decimal_digits n)" "CHR 0x00 \<notin> set (signed_digits i)"
proof -
  have "\<not> is_digit (CHR 0x00)"
    by (simp add: is_digit_def)
  then have "CHR 0x00 \<notin> set (decimal_digits n)" for n
    using decimal_digits [of n] by blast
  then show "CHR 0x00 \<notin> set (decimal_digits n)" "CHR 0x00 \<notin> set (signed_digits i)"
    by (auto simp: signed_digits_def)
qed

lemma c_string_overwrite:
  assumes "CHR 0x00 \<notin> set t" and "p \<le> length buffer"
  shows "c_string (overwrite buffer p (t @ [CHR 0x00])) p = t"
proof -
  have "drop p (overwrite buffer p (t @ [CHR 0x00])) = t @ CHR 0x00 # drop (p + length (t @ [CHR 0x00])) buffer"
    using assms(2) by (simp add: overwrite_def)
  then show ?thesis
    using assms(1) by (subst c_string_def, simp, subst takeWhile_append2) auto
qed

lemma emits_room:
  assumes "p + length t < length buffer"
  shows "emits t (buffer, p) = Inr (overwrite buffer p (t @ [CHR 0x00]), p + length t)"
proof -
  have "puts t (buffer, p) = Inr (overwrite buffer p t, p + length t)" if "p + length t \<le> length buffer" for t
    using that
  proof (induction t arbitrary: buffer p)
    case Nil
    then show ?case
      by (simp add: overwrite_def)
  next
    case (Cons c t)
    have "overwrite (buffer[p := c]) (Suc p) t = overwrite buffer p (c # t)"
      using Cons.prems by (simp add: overwrite_def upd_conv_take_nth_drop add.commute [of "length t" p])
    then show ?case
      using Cons by (simp add: put_char_def)
  qed
  then show ?thesis
    using assms by (simp add: emits_def buffer_done_def overwrite_def list_update_append upd_conv_take_nth_drop)
qed

text \<open>Hexadecimal digits.\<close>

lemma hex_characters: "d < 16 \<Longrightarrow> hexdigits ! d = digit_in False d"
proof -
  assume "d < 16"
  moreover have "map (digit_in False) [0..<16] = hexdigits"
    by code_simp
  ultimately show ?thesis
    by (metis add_0 diff_zero length_upt nth_map nth_upt)
qed

lemma back_hex_backed:
  assumes "length (digits_in 16 False n) \<le> q" and "q + length t \<le> length buffer"
  shows "back_hex (int n) (backed buffer q t) = Inr (backed buffer (q - length (digits_in 16 False n)) (digits_in 16 False n @ t))"
  using assms
proof (induction n arbitrary: q t rule: less_induct)
  case (less n)
  have "int n AND 15 = int (n mod 16)"
    using take_bit_eq_mask [of 4 "int n"] by (simp add: take_bit_eq_mod mask_eq_exp_minus_1 zmod_int)
  then have d: "hexdigits ! nat (int n AND 15) = digit_in False (n mod 16)"
    by (simp add: hex_characters)
  have r: "drop_bit 4 (int n) = int (n div 16)"
    by (simp add: drop_bit_eq_div zdiv_int)
  have q: "0 < q"
    using less.prems(1) digits_in_nonempty [of 16 False n] by (cases q) auto
  show ?case
  proof (cases "n < 16")
    case True
    then show ?thesis
      using d r put_back_backed [OF q less.prems(2)] by (simp add: back_hex.simps [of "int n"] digits_in_small Let_def)
  next
    case False
    then have n: "digits_in 16 False n = digits_in 16 False (n div 16) @ [digit_in False (n mod 16)]"
      by (simp add: digits_in.simps [of 16 False n])
    have pos: "0 < n div 16"
      using False by simp
    have "back_hex (int n) (backed buffer q t) = back_hex (int (n div 16)) (backed buffer (q - 1) (digit_in False (n mod 16) # t))"
      using put_back_backed [OF q less.prems(2)] pos unfolding back_hex.simps [of "int n"] d r by (simp add: Let_def)
    also have "\<dots> = Inr (backed buffer (q - 1 - length (digits_in 16 False (n div 16))) (digits_in 16 False (n div 16) @ digit_in False (n mod 16) # t))"
      using less.prems n q False by (intro less.IH) auto
    finally show ?thesis
      unfolding n by simp
  qed
qed

lemma hex_loop_overwrite:
  assumes "unat v < 16 ^ k" and "0 < k" and "k + length t \<le> length buffer"
  shows "hex_loop k v (overwrite buffer k t) = Inr (overwrite buffer 0 (zero_padded k (digits_in 16 False (unat v)) @ t))"
  using assms
proof (induction k arbitrary: v t)
  case 0
  then show ?case
    by simp
next
  case (Suc k)
  have "unat (v AND 0xf) = unat v mod 16"
    using take_bit_eq_mask [of 4 v] unat_mod [of v 16] by (simp add: take_bit_eq_mod mask_eq_exp_minus_1)
  then have d: "hexdigits ! unat (v AND 0xf) = digit_in False (unat v mod 16)"
    by (simp add: hex_characters)
  have q: "unat (drop_bit 4 v) = unat v div 16"
    by (simp add: drop_bit_eq_div unat_div)
  have step: "hex_loop (Suc k) v (overwrite buffer (Suc k) t) = hex_loop k (drop_bit 4 v) (overwrite buffer k (digit_in False (unat v mod 16) # t))"
    using overwrite_update [of "Suc k" t buffer "digit_in False (unat v mod 16)"] Suc.prems(3) d
    by (simp add: put_back_def)
  show ?case
  proof (cases "k = 0")
    case True
    then show ?thesis
      using Suc.prems unfolding step by (simp add: digits_in_small zero_padded_def)
  next
    case False
    have "unat (drop_bit 4 v) < 16 ^ k"
      using Suc.prems(1) unfolding q by (simp add: less_mult_imp_div_less mult.commute)
    then have "hex_loop k (drop_bit 4 v) (overwrite buffer k (digit_in False (unat v mod 16) # t)) =
        Inr (overwrite buffer 0 (zero_padded k (digits_in 16 False (unat v div 16)) @ digit_in False (unat v mod 16) # t))"
      using Suc.IH [of "drop_bit 4 v"] Suc.prems(3) False q by simp
    then show ?thesis
      using False unfolding step by (simp add: zero_padded_snoc)
  qed
qed

lemma FastInt_string:
  assumes "5 \<le> bits" and "- (2 ^ (bits - 1)) \<le> i" "i < 2 ^ (bits - 1)"
    and "length (signed_digits i) \<le> offset" and "offset < length buffer"
  shows "and_then (FastInt_ToBuffer bits offset i buffer) (\<lambda>(buffer, p). Inr (c_string buffer (nat p))) = Inr (signed_digits i)"
  unfolding FastInt_ToBuffer_signed [OF assms] and_then.simps prod.case nat_int
  using assms(5) by (simp only: c_string_overwrite [OF digits_no_nul(2)] diff_le_self order_trans [OF diff_le_self less_imp_le])

lemma emits_string:
  assumes "length t < length buffer"
  shows "and_then (emits t (buffer, 0)) (\<lambda>(buffer, p). Inr (take p buffer)) = Inr t"
  using assms by (simp add: emits_room overwrite_def)

text \<open>The hexadecimal functions: as short as possible, or padded to the width of the type.\<close>

lemma FastHexToBuffer_exact:
  assumes "0 \<le> i" and "i < 2 ^ 31" and "22 \<le> length buffer"
  shows "FastHexToBuffer i buffer = Inr (overwrite buffer (21 - length (digits_in 16 False (nat i))) (digits_in 16 False (nat i) @ [CHR 0x00]),
    int (21 - length (digits_in 16 False (nat i))))"
proof -
  have "length (digits_in 16 False n) \<le> k" if "0 < k" "n < 16 ^ k" for n k
    using that
  proof (induction k arbitrary: n)
    case (Suc k)
    show ?case
    proof (cases "n < 16")
      case False
      then have "n div 16 < 16 ^ k" "0 < k"
        using Suc.prems by (simp add: less_mult_imp_div_less mult.commute, cases k, auto)
      then show ?thesis
        using Suc.IH False by (simp add: digits_in.simps [of 16 False n])
    qed (simp add: digits_in_small)
  qed simp
  from this [of 21 "nat i"] have fits: "length (digits_in 16 False (nat i)) \<le> 21"
    using assms(2) by simp
  have "back_hex (int (nat i)) (backed buffer 21 [CHR 0x00]) =
      Inr (backed buffer (21 - length (digits_in 16 False (nat i))) (digits_in 16 False (nat i) @ [CHR 0x00]))"
    using fits assms(3) by (intro back_hex_backed) simp_all
  then show ?thesis
    using assms(1,3) put_back_0 [of 21 buffer "CHR 0x00"] by (simp add: FastHexToBuffer_def backed_def)
qed

lemma FastHex64ToBuffer_exact:
  assumes "17 \<le> length buffer"
  shows "FastHex64ToBuffer v buffer = Inr (overwrite buffer 0 (zero_padded 16 (digits_in 16 False (unat v)) @ [CHR 0x00]))"
  using assms hex_loop_overwrite [of v 16 "[CHR 0x00]" buffer] put_back_0 [of 16 buffer "CHR 0x00"] unat_u64_less [of v]
  by (simp add: FastHex64ToBuffer_def InternalFastHexToBuffer_def backed_def)

lemma FastHex32ToBuffer_exact:
  assumes "9 \<le> length buffer"
  shows "FastHex32ToBuffer v buffer = Inr (overwrite buffer 0 (zero_padded 8 (digits_in 16 False (unat v)) @ [CHR 0x00]))"
  using assms hex_loop_overwrite [of "ucast v" 8 "[CHR 0x00]" buffer] put_back_0 [of 8 buffer "CHR 0x00"] unat_u32_less [of v]
  by (simp add: FastHex32ToBuffer_def InternalFastHexToBuffer_def backed_def unat_u32_to_u64)

lemma SimpleItoa_strings:
  assumes "length junk = kFastToBufferSize"
  shows "SimpleItoa_int junk (sint (i :: 32 word)) = Inr (signed_digits (sint i)) \<and>
    SimpleItoa_unsigned junk u = Inr (decimal_digits (unat u)) \<and>
    SimpleItoa_long_long junk (sint (l :: 64 word)) = Inr (signed_digits (sint l)) \<and>
    SimpleItoa_unsigned_long_long junk n = Inr (decimal_digits (unat n))"
proof -
  have "- (2 ^ 31) \<le> sint i \<and> sint i < 2 ^ 31" "- (2 ^ 63) \<le> sint l \<and> sint l < 2 ^ 63"
    using sint_greater_eq [of i] sint_less [of i] sint_greater_eq [of l] sint_less [of l] by simp_all
  moreover from this have "length (signed_digits (sint i)) \<le> 11" "length (signed_digits (sint l)) \<le> 20"
    using length_signed_digits [of 10 "sint i"] length_signed_digits [of 19 "sint l"] by simp_all
  moreover have "length (decimal_digits (unat u)) \<le> 10" "length (decimal_digits (unat n)) \<le> 20"
    using unat_u32_less [of u] unat_u64_less [of n] by (intro length_decimal_digits; simp)+
  ultimately show ?thesis
    using assms
    by (simp add: SimpleItoa_int_def SimpleItoa_unsigned_def SimpleItoa_long_long_def SimpleItoa_unsigned_long_long_def
        FastInt32ToBuffer_def FastInt64ToBuffer_def kFastInt32ToBufferOffset_def kFastInt64ToBufferOffset_def kFastToBufferSize_def
        FastInt_string FastUInt32ToBufferLeft_emits FastUInt64ToBufferLeft_emits emits_string)
qed

section \<open>Properties\<close>

text \<open>Whatever the buffer held, every overload of \<open>SimpleItoa\<close> returns the decimal digits of its argument: no
  signed overflow, no write outside of the buffer, no index past the table, at the ends of the types too.\<close>

theorem SimpleItoa_exact:
  assumes "length junk = kFastToBufferSize"
  shows "SimpleItoa_int junk (sint (i :: 32 word)) = Inr (signed_digits (sint i)) \<and>
    SimpleItoa_unsigned junk u = Inr (decimal_digits (unat u)) \<and>
    SimpleItoa_long_long junk (sint (l :: 64 word)) = Inr (signed_digits (sint l)) \<and>
    SimpleItoa_unsigned_long_long junk n = Inr (decimal_digits (unat n))"
  by (rule SimpleItoa_strings [OF assms])

lemma SimpleItoa_exact_witness:
  "SimpleItoa_int (replicate 32 (CHR ''x'')) (sint (- 2147483648 :: 32 word)) = Inr (signed_digits (sint (- 2147483648 :: 32 word))) \<and>
   SimpleItoa_unsigned (replicate 32 (CHR ''x'')) 4294967295 = Inr (decimal_digits (unat (4294967295 :: u32))) \<and>
   SimpleItoa_long_long (replicate 32 (CHR ''x'')) (sint (- 5 :: 64 word)) = Inr (signed_digits (sint (- 5 :: 64 word))) \<and>
   SimpleItoa_unsigned_long_long (replicate 32 (CHR ''x'')) 0 = Inr (decimal_digits (unat (0 :: u64)))"
  by (rule SimpleItoa_exact) (simp add: kFastToBufferSize_def)

end
