(* ===== verification/Pb_Number_Parse.thy ===== *)
theory Pb_Number_Parse
  imports Pb_Number_Print "HOL-Library.Signed_Division"
begin

text \<open>
  How stubs/strutil.cc reads integers. The functions return whether they succeeded and what they
  stored; a type is given by its smallest and its largest value, and an intermediate result that
  does not fit is a failure of its own.
\<close>

section \<open>The code\<close>

definition in_type :: "int \<Rightarrow> int \<Rightarrow> int \<Rightarrow> int outcome" where
  "in_type lo hi x = (if lo \<le> x \<and> x \<le> hi then Inr x else Inl (Undefined ''arithmetic overflow''))"

text \<open>Blanks on both sides and the sign; what is left must not be empty.\<close>

definition safe_parse_sign :: "string \<Rightarrow> (bool \<times> string) option" where
  "safe_parse_sign text =
     (let t = dropWhile (\<lambda>c. c = CHR '' '') text;
          t = rev (dropWhile (\<lambda>c. c = CHR '' '') (rev t))
      in case t of [] \<Rightarrow> None
         | c # rest \<Rightarrow>
             let negative = (c = CHR ''-'') in
             if negative \<or> c = CHR ''+'' then (if rest = [] then None else Some (negative, rest))
             else Some (negative, t))"

fun positive_loop :: "int \<Rightarrow> int \<Rightarrow> int \<Rightarrow> string \<Rightarrow> (bool \<times> int) outcome" where
  "positive_loop lo hi v [] = Inr (True, v)"
| "positive_loop lo hi v (c # cs) =
     (let digit = int (of_char c) - 48 in
      if 10 \<le> digit \<or> digit < 0 then Inr (False, v)
      else if hi sdiv 10 < v then Inr (False, hi)
      else and_then (in_type lo hi (v * 10)) (\<lambda>v.
           and_then (in_type lo hi (hi - digit)) (\<lambda>limit.
           if limit < v then Inr (False, hi)
           else and_then (in_type lo hi (v + digit)) (\<lambda>v. positive_loop lo hi v cs))))"

definition safe_parse_positive_int :: "int \<Rightarrow> int \<Rightarrow> string \<Rightarrow> (bool \<times> int) outcome" where
  "safe_parse_positive_int lo hi text = positive_loop lo hi 0 text"

fun negative_loop :: "int \<Rightarrow> int \<Rightarrow> int \<Rightarrow> int \<Rightarrow> string \<Rightarrow> (bool \<times> int) outcome" where
  "negative_loop lo hi vmin_over_base v [] = Inr (True, v)"
| "negative_loop lo hi vmin_over_base v (c # cs) =
     (let digit = int (of_char c) - 48 in
      if 10 \<le> digit \<or> digit < 0 then Inr (False, v)
      else if v < vmin_over_base then Inr (False, lo)
      else and_then (in_type lo hi (v * 10)) (\<lambda>v.
           and_then (in_type lo hi (lo + digit)) (\<lambda>limit.
           if v < limit then Inr (False, lo)
           else and_then (in_type lo hi (v - digit)) (\<lambda>v. negative_loop lo hi vmin_over_base v cs))))"

definition safe_parse_negative_int :: "int \<Rightarrow> int \<Rightarrow> string \<Rightarrow> (bool \<times> int) outcome" where
  "safe_parse_negative_int lo hi text =
     (let vmin_over_base = lo sdiv 10;
          vmin_over_base = (if 0 < lo smod 10 then vmin_over_base + 1 else vmin_over_base)
      in negative_loop lo hi vmin_over_base 0 text)"

definition safe_int_internal :: "int \<Rightarrow> int \<Rightarrow> string \<Rightarrow> (bool \<times> int) outcome" where
  "safe_int_internal lo hi text =
     (case safe_parse_sign text of
        None \<Rightarrow> Inr (False, 0)
      | Some (negative, text) \<Rightarrow>
          if \<not> negative then safe_parse_positive_int lo hi text else safe_parse_negative_int lo hi text)"

definition safe_uint_internal :: "int \<Rightarrow> int \<Rightarrow> string \<Rightarrow> (bool \<times> int) outcome" where
  "safe_uint_internal lo hi text =
     (case safe_parse_sign text of
        None \<Rightarrow> Inr (False, 0)
      | Some (negative, text) \<Rightarrow> if negative then Inr (False, 0) else safe_parse_positive_int lo hi text)"

definition safe_strto32 :: "string \<Rightarrow> (bool \<times> int) outcome" where
  "safe_strto32 = safe_int_internal (- (2 ^ 31)) (2 ^ 31 - 1)"

definition safe_strtou32 :: "string \<Rightarrow> (bool \<times> int) outcome" where
  "safe_strtou32 = safe_uint_internal 0 (2 ^ 32 - 1)"

definition safe_strto64 :: "string \<Rightarrow> (bool \<times> int) outcome" where
  "safe_strto64 = safe_int_internal (- (2 ^ 63)) (2 ^ 63 - 1)"

definition safe_strtou64 :: "string \<Rightarrow> (bool \<times> int) outcome" where
  "safe_strtou64 = safe_uint_internal 0 (2 ^ 64 - 1)"

section \<open>What they read\<close>

definition extend :: "nat \<Rightarrow> string \<Rightarrow> nat" where
  "extend = foldl (\<lambda>v c. 10 * v + digit_of c)"

lemma extend_simps [simp]: "extend v [] = v" "extend v (c # cs) = extend (10 * v + digit_of c) cs"
  by (simp_all add: extend_def)

lemma extend_ge: "v \<le> extend v ds"
proof (induction ds arbitrary: v)
  case (Cons c ds)
  then show ?case
    using order_trans [of v "10 * v + digit_of c" "extend (10 * v + digit_of c) ds"] by simp
qed simp

lemma is_digit_value:
  assumes "is_digit c"
  shows "int (of_char c) - 48 = int (digit_of c)" "digit_of c < 10"
  using assms by (auto simp: is_digit_def digit_of_def of_nat_diff)

lemma not_digit: "10 \<le> int (of_char c) - 48 \<or> int (of_char c) - 48 < 0 \<longleftrightarrow> \<not> is_digit c"
  by (auto simp: is_digit_def)

text \<open>The digits up to the first other character; a number out of range stops at the bound.\<close>

definition digits_value :: "int \<Rightarrow> string \<Rightarrow> bool \<times> int" where
  "digits_value hi text =
     (let ds = takeWhile is_digit text; v = int (number_of_digits ds)
      in if hi < v then (False, hi) else (ds = text, v))"

lemma positive_loop_exact:
  assumes "lo \<le> 0" and "9 \<le> hi" and "int v \<le> hi"
  shows "positive_loop lo hi (int v) str =
    Inr (let ds = takeWhile is_digit str in if hi < int (extend v ds) then (False, hi) else (ds = str, int (extend v ds)))"
  using assms(3)
proof (induction str arbitrary: v)
  case (Cons c cs)
  show ?case
  proof (cases "is_digit c")
    case False
    then show ?thesis
      using Cons.prems not_digit [of c] by (auto simp: Let_def)
  next
    case True
    note d = is_digit_value [OF True]
    let ?v = "10 * v + digit_of c"
    have nd: "\<not> (10 \<le> int (digit_of c) \<or> int (digit_of c) < 0)"
      using d(2) by simp
    have q: "hi sdiv 10 = hi div 10"
      using assms(2) by (simp add: signed_divide_int_def sgn_if)
    have over: "hi < int (extend ?v (takeWhile is_digit cs))" if "hi < int ?v"
      using that extend_ge [of ?v "takeWhile is_digit cs"] by linarith
    show ?thesis
    proof (cases "hi div 10 < int v")
      case big: True
      then have "hi < int ?v"
        by simp
      then show ?thesis
        using True big nd over by (simp add: d(1) q Let_def)
    next
      case small: False
      then have r: "in_type lo hi (int v * 10) = Inr (int v * 10)"
        using assms(1) by (simp add: in_type_def)
      have l: "in_type lo hi (hi - int (digit_of c)) = Inr (hi - int (digit_of c))"
        using assms d(2) by (simp add: in_type_def)
      show ?thesis
      proof (cases "hi < int ?v")
        case big: True
        then show ?thesis
          using True small nd over by (simp add: d(1) q r l Let_def)
      next
        case fits: False
        then have "in_type lo hi (int v * 10 + int (digit_of c)) = Inr (int ?v)"
          using assms(1) by (simp add: in_type_def)
        then show ?thesis
          using True small nd fits Cons.IH [of ?v] by (simp add: d(1) q r l Let_def)
      qed
    qed
  qed
qed simp

lemma negative_loop_exact:
  assumes "9 \<le> hi" and "lo \<le> - 9" and "int v \<le> - lo"
  shows "negative_loop lo hi (- (- lo div 10)) (- int v) str =
    Inr (let ds = takeWhile is_digit str in if - lo < int (extend v ds) then (False, lo) else (ds = str, - int (extend v ds)))"
  using assms(3)
proof (induction str arbitrary: v)
  case (Cons c cs)
  show ?case
  proof (cases "is_digit c")
    case False
    then show ?thesis
      using Cons.prems not_digit [of c] by (auto simp: Let_def)
  next
    case True
    note d = is_digit_value [OF True]
    let ?v = "10 * v + digit_of c"
    have nd: "\<not> (10 \<le> int (digit_of c) \<or> int (digit_of c) < 0)"
      using d(2) by simp
    have over: "- lo < int (extend ?v (takeWhile is_digit cs))" if "- lo < int ?v"
      using that extend_ge [of ?v "takeWhile is_digit cs"] by linarith
    show ?thesis
    proof (cases "- lo div 10 < int v")
      case big: True
      then have "- lo < int ?v"
        by simp
      then show ?thesis
        using True big nd over by (simp add: d(1) Let_def)
    next
      case small: False
      then have r: "in_type lo hi (- int v * 10) = Inr (- int v * 10)"
        using assms(1) by (simp add: in_type_def)
      have l: "in_type lo hi (lo + int (digit_of c)) = Inr (lo + int (digit_of c))"
        using assms d(2) by (simp add: in_type_def)
      show ?thesis
      proof (cases "- lo < int ?v")
        case big: True
        then show ?thesis
          using True small nd over r l by (simp add: d(1) Let_def)
      next
        case fits: False
        then have "in_type lo hi (- int v * 10 - int (digit_of c)) = Inr (- int ?v)"
          using assms(1) by (simp add: in_type_def)
        then show ?thesis
          using True small nd fits Cons.IH [of ?v] r l by (simp add: d(1) Let_def)
      qed
    qed
  qed
qed simp

lemma number_extend: "number_of_digits = extend 0"
  by (simp add: number_of_digits_def extend_def fun_eq_iff)

lemma safe_parse_positive_int_exact:
  assumes "lo \<le> 0" and "9 \<le> hi"
  shows "safe_parse_positive_int lo hi str = Inr (digits_value hi str)"
  using positive_loop_exact [of lo hi 0 str] assms
  by (simp add: safe_parse_positive_int_def digits_value_def number_extend Let_def)

lemma safe_parse_negative_int_exact:
  assumes "9 \<le> hi" and "lo \<le> - 9"
  shows "safe_parse_negative_int lo hi str = Inr (map_prod id uminus (digits_value (- lo) str))"
proof -
  have "lo sdiv 10 = - (- lo div 10)"
    using assms(2) by (simp add: signed_divide_int_def sgn_if)
  moreover have "\<not> 0 < lo smod 10"
    using assms(2) by (simp add: signed_modulo_int_def signed_divide_int_def sgn_if) 
  ultimately show ?thesis
    using negative_loop_exact [OF assms, of 0 str] assms
    by (simp add: safe_parse_negative_int_def digits_value_def number_extend Let_def)
qed

text \<open>What a text says about an integer: nothing, or a sign and what follows.\<close>

definition int_value :: "int \<Rightarrow> int \<Rightarrow> string \<Rightarrow> bool \<times> int" where
  "int_value lo hi str =
     (case safe_parse_sign str of None \<Rightarrow> (False, 0)
      | Some (negative, ds) \<Rightarrow> if negative then map_prod id uminus (digits_value (- lo) ds) else digits_value hi ds)"

definition uint_value :: "int \<Rightarrow> string \<Rightarrow> bool \<times> int" where
  "uint_value hi str =
     (case safe_parse_sign str of None \<Rightarrow> (False, 0)
      | Some (negative, ds) \<Rightarrow> if negative then (False, 0) else digits_value hi ds)"

lemma safe_internal_exact:
  "9 \<le> hi \<Longrightarrow> lo \<le> - 9 \<Longrightarrow> safe_int_internal lo hi str = Inr (int_value lo hi str)"
  "9 \<le> hi \<Longrightarrow> safe_uint_internal 0 hi str = Inr (uint_value hi str)"
  by (auto simp: safe_int_internal_def safe_uint_internal_def int_value_def uint_value_def
      safe_parse_positive_int_exact safe_parse_negative_int_exact split: option.split)

lemma safe_strto_values:
  "safe_strto32 str = Inr (int_value (- (2 ^ 31)) (2 ^ 31 - 1) str) \<and>
   safe_strto64 str = Inr (int_value (- (2 ^ 63)) (2 ^ 63 - 1) str) \<and>
   safe_strtou32 str = Inr (uint_value (2 ^ 32 - 1) str) \<and>
   safe_strtou64 str = Inr (uint_value (2 ^ 64 - 1) str)"
  by (simp add: safe_strto32_def safe_strto64_def safe_strtou32_def safe_strtou64_def safe_internal_exact)

lemma takeWhile_digits: "takeWhile is_digit (decimal_digits n) = decimal_digits n"
  using decimal_digits [of n] by (simp add: takeWhile_eq_all_conv)

lemma digits_value_digits: "int n \<le> hi \<Longrightarrow> digits_value hi (decimal_digits n) = (True, int n)"
  using decimal_digits [of n] by (simp add: digits_value_def takeWhile_digits)

lemma safe_parse_sign_digits:
  "safe_parse_sign (decimal_digits n) = Some (False, decimal_digits n)"
  "safe_parse_sign (CHR ''-'' # decimal_digits n) = Some (True, decimal_digits n)"
proof -
  have d: "c \<noteq> CHR '' ''" "c \<noteq> CHR ''-''" "c \<noteq> CHR ''+''" if "is_digit c" for c
    using that by (auto simp: is_digit_def)
  obtain c cs where n: "decimal_digits n = c # cs" and c: "is_digit c"
    using decimal_digits [of n] by (cases "decimal_digits n") auto
  obtain e es where r: "rev (decimal_digits n) = e # es" and e: "is_digit e"
    using decimal_digits [of n] by (cases "rev (decimal_digits n)") (auto simp: rev_eq_Cons_iff)
  have r': "rev es @ [e] = decimal_digits n"
    using arg_cong [OF r, of rev] by simp
  have w: "rev (dropWhile (\<lambda>c. c = CHR '' '') (rev (decimal_digits n))) = decimal_digits n"
    using d(1) [OF e] r' by (simp add: r)
  have w2: "rev (dropWhile (\<lambda>c. c = CHR '' '') (rev (CHR ''-'' # decimal_digits n))) = CHR ''-'' # decimal_digits n"
    using d(1) [OF e] r' by (simp add: r)
  show "safe_parse_sign (decimal_digits n) = Some (False, decimal_digits n)"
    using d [OF c] w by (simp add: safe_parse_sign_def n)
  show "safe_parse_sign (CHR ''-'' # decimal_digits n) = Some (True, decimal_digits n)"
  proof -
    have "dropWhile (\<lambda>c. c = CHR '' '') (CHR ''-'' # decimal_digits n) = CHR ''-'' # decimal_digits n"
      by simp
    then show ?thesis
      unfolding safe_parse_sign_def Let_def by (simp only: w2) (simp add: digits_in_nonempty)
  qed
qed

lemma int_value_signed: "lo \<le> i \<Longrightarrow> i \<le> hi \<Longrightarrow> int_value lo hi (signed_digits i) = (True, i)"
  by (auto simp: int_value_def signed_digits_def safe_parse_sign_digits digits_value_digits)

lemma uint_value_digits: "int n \<le> hi \<Longrightarrow> uint_value hi (decimal_digits n) = (True, int n)"
  by (simp add: uint_value_def safe_parse_sign_digits digits_value_digits)

section \<open>Properties\<close>


text \<open>C35. Reading what \<open>SimpleItoa\<close> printed gives the number back, for every number of each of the four types.\<close>

theorem strto_SimpleItoa:
  assumes "length junk = kFastToBufferSize"
  shows "and_then (SimpleItoa_int junk (sint (i :: 32 word))) safe_strto32 = Inr (True, sint i) \<and>
    and_then (SimpleItoa_unsigned junk u) safe_strtou32 = Inr (True, uint u) \<and>
    and_then (SimpleItoa_long_long junk (sint (l :: 64 word))) safe_strto64 = Inr (True, sint l) \<and>
    and_then (SimpleItoa_unsigned_long_long junk n) safe_strtou64 = Inr (True, uint n)"
proof -
  have "- (2 ^ 31) \<le> sint i \<and> sint i < 2 ^ 31" "- (2 ^ 63) \<le> sint l \<and> sint l < 2 ^ 63"
    using sint_greater_eq [of i] sint_less [of i] sint_greater_eq [of l] sint_less [of l] by simp_all
  then have "int_value (- (2 ^ 31)) (2 ^ 31 - 1) (signed_digits (sint i)) = (True, sint i)"
    "int_value (- (2 ^ 63)) (2 ^ 63 - 1) (signed_digits (sint l)) = (True, sint l)"
    by (auto simp: int_value_signed)
  moreover have "uint_value (2 ^ 32 - 1) (decimal_digits (unat u)) = (True, uint u)"
    "uint_value (2 ^ 64 - 1) (decimal_digits (unat n)) = (True, uint n)"
    using uint_lt2p [of u] uint_lt2p [of n] uint_value_digits [of "unat u"] uint_value_digits [of "unat n"] by simp_all
  ultimately show ?thesis
    using SimpleItoa_strings [OF assms] by (simp add: safe_strto_values)
qed

lemma strto_SimpleItoa_witness:
  "and_then (SimpleItoa_int (replicate 32 (CHR ''x'')) (sint (- 2147483648 :: 32 word))) safe_strto32 = Inr (True, sint (- 2147483648 :: 32 word)) \<and>
   and_then (SimpleItoa_unsigned (replicate 32 (CHR ''x'')) 7) safe_strtou32 = Inr (True, uint (7 :: u32)) \<and>
   and_then (SimpleItoa_long_long (replicate 32 (CHR ''x'')) (sint (- 5 :: 64 word))) safe_strto64 = Inr (True, sint (- 5 :: 64 word)) \<and>
   and_then (SimpleItoa_unsigned_long_long (replicate 32 (CHR ''x'')) 0) safe_strtou64 = Inr (True, uint (0 :: u64))"
  by (rule strto_SimpleItoa) (simp add: kFastToBufferSize_def)

end
