(* ===== verification/Pb_Base64.thy ===== *)
theory Pb_Base64
  imports Pb_Number_Print
begin

text \<open>
  The base64 encoder and decoder of stubs/strutil.cc. The input of the decoder is the list of the
  bytes not read yet, its length is \<open>szsrc\<close>; the output is a buffer of bytes and a position, and
  writing outside of it is undefined. A result \<open>None\<close> is a return of -1, after which nothing is
  said about the buffer. The code decodes four characters at a time as long as it can and has a
  second loop for the rest; the locale \<open>alphabet\<close> is what both need of the tables.
\<close>

section \<open>Tables\<close>

definition kBase64Chars :: "u8 list" where
  "kBase64Chars = map of_char ''ABCDEFGHIJKLMNOPQRSTUVWXYZabcdefghijklmnopqrstuvwxyz0123456789+/''"

definition kWebSafeBase64Chars :: "u8 list" where
  "kWebSafeBase64Chars = map of_char ''ABCDEFGHIJKLMNOPQRSTUVWXYZabcdefghijklmnopqrstuvwxyz0123456789-_''"

definition kUnBase64 :: "int list" where
  "kUnBase64 = replicate 43 (- 1) @ [62, - 1, - 1, - 1, 63] @ [52, 53, 54, 55, 56, 57, 58, 59, 60, 61] @ replicate 7 (- 1) @
     [0, 1, 2, 3, 4, 5, 6, 7, 8, 9, 10, 11, 12, 13, 14, 15, 16, 17, 18, 19, 20, 21, 22, 23, 24, 25] @ replicate 6 (- 1) @
     [26, 27, 28, 29, 30, 31, 32, 33, 34, 35, 36, 37, 38, 39, 40, 41, 42, 43, 44, 45, 46, 47, 48, 49, 50, 51] @ replicate 133 (- 1)"

definition kUnWebSafeBase64 :: "int list" where
  "kUnWebSafeBase64 = replicate 45 (- 1) @ [62, - 1, - 1] @ [52, 53, 54, 55, 56, 57, 58, 59, 60, 61] @ replicate 7 (- 1) @
     [0, 1, 2, 3, 4, 5, 6, 7, 8, 9, 10, 11, 12, 13, 14, 15, 16, 17, 18, 19, 20, 21, 22, 23, 24, 25] @ replicate 4 (- 1) @ [63, - 1] @
     [26, 27, 28, 29, 30, 31, 32, 33, 34, 35, 36, 37, 38, 39, 40, 41, 42, 43, 44, 45, 46, 47, 48, 49, 50, 51] @ replicate 133 (- 1)"

definition kPad64Equals :: u8 where "kPad64Equals = 61"

definition kPad64Dot :: u8 where "kPad64Dot = 46"

definition ascii_isspace :: "u8 \<Rightarrow> bool" where
  "ascii_isspace c \<longleftrightarrow> c = 32 \<or> c = 9 \<or> c = 10 \<or> c = 11 \<or> c = 12 \<or> c = 13"

definition is_pad :: "u8 \<Rightarrow> bool" where
  "is_pad c \<longleftrightarrow> c = kPad64Equals \<or> c = kPad64Dot"

section \<open>The decoder\<close>

record decoder =
  src_rest :: "u8 list"
  decode :: int
  ch :: u8
  temp :: u32
  dec_state :: nat
  destidx :: nat
  dest :: "u8 list option"

text \<open>Three bytes of output. Without a buffer they are only counted.\<close>

definition write_three :: "int \<Rightarrow> decoder \<Rightarrow> decoder option outcome" where
  "write_three szdest d =
     (let i = destidx d; t = temp d in
      case dest d of
        None \<Rightarrow> Inr (Some (d\<lparr>destidx := i + 3\<rparr>))
      | Some b \<Rightarrow>
          if szdest < int i + 3 then Inr None
          else if length b < i + 3 then Inl (Undefined ''write past the buffer'')
          else Inr (Some (d\<lparr>dest := Some (b[i + 2 := ucast t, i + 1 := ucast (drop_bit 8 t), i := ucast (drop_bit 16 t)]),
                           temp := drop_bit 16 t, destidx := i + 3\<rparr>)))"

text \<open>\<open>GET_INPUT\<close>: the next character that is not a blank, as long as \<open>remain\<close> characters are left behind
  a blank. The first component tells that it is a data character; otherwise the loop is left with
  \<open>state = 4 - remain\<close>. Without a buffer \<open>temp\<close> is not kept.\<close>

fun GET_INPUT :: "int list \<Rightarrow> nat \<Rightarrow> u8 list \<Rightarrow> (bool \<times> u8 \<times> int \<times> u8 list) outcome" where
  "GET_INPUT unbase64 remain [] = Inl (Undefined ''read past the input'')"
| "GET_INPUT unbase64 remain (c # src) =
     (let k = unbase64 ! unat c in
      if k < 0 then
        if ascii_isspace c \<and> remain \<le> length src then GET_INPUT unbase64 remain src else Inr (False, c, k, src)
      else Inr (True, c, k, src))"

definition get_char :: "int list \<Rightarrow> nat \<Rightarrow> decoder \<Rightarrow> (bool \<times> decoder) outcome" where
  "get_char unbase64 remain d =
     and_then (GET_INPUT unbase64 remain (src_rest d)) (\<lambda>(good, c, k, src).
       let d = d\<lparr>src_rest := src, ch := c, decode := k\<rparr> in
       Inr (if \<not> good then (False, d\<lparr>dec_state := 4 - remain\<rparr>)
            else if dest d = None then (True, d)
            else (True, d\<lparr>temp := (if remain = 4 then word_of_int k else push_bit 6 (temp d) OR word_of_int k)\<rparr>)))"

fun get_chars :: "int list \<Rightarrow> nat list \<Rightarrow> decoder \<Rightarrow> (bool \<times> decoder) outcome" where
  "get_chars unbase64 [] d = Inr (True, d)"
| "get_chars unbase64 (remain # rs) d =
     and_then (get_char unbase64 remain d) (\<lambda>(good, d). if good then get_chars unbase64 rs d else Inr (False, d))"

lemma and_then_cong [fundef_cong]:
  "m = m' \<Longrightarrow> (\<And>x. m' = Inr x \<Longrightarrow> f x = f' x) \<Longrightarrow> and_then m f = and_then m' f'"
  by (cases m') auto

text \<open>The first loop: four characters that are all data in one go, else one by one.\<close>

definition four_at_once :: "int list \<Rightarrow> u8 \<Rightarrow> u8 \<Rightarrow> u8 \<Rightarrow> u8 \<Rightarrow> u32" where
  "four_at_once unbase64 c0 c1 c2 c3 =
     push_bit 18 (word_of_int (unbase64 ! unat c0)) OR push_bit 12 (word_of_int (unbase64 ! unat c1)) OR
     push_bit 6 (word_of_int (unbase64 ! unat c2)) OR word_of_int (unbase64 ! unat c3)"

definition next_four :: "int list \<Rightarrow> decoder \<Rightarrow> (bool \<times> decoder) outcome" where
  "next_four unbase64 d =
     (case src_rest d of
        c0 # c1 # c2 # c3 # cs \<Rightarrow>
          let nul = (c0 = 0 \<or> c1 = 0 \<or> c2 = 0);
              w = four_at_once unbase64 c0 c1 c2 c3;
              d = (if nul then d else d\<lparr>temp := w\<rparr>)
          in if nul \<or> w AND 0x80000000 \<noteq> 0 then get_chars unbase64 [4, 3, 2, 1] d
             else Inr (True, d\<lparr>src_rest := cs, decode := - 1, ch := 0\<rparr>)
      | _ \<Rightarrow> Inl (Undefined ''read past the input''))"

lemma GET_INPUT_shorter: "GET_INPUT unbase64 remain src = Inr (good, c, k, src') \<Longrightarrow> length src' < length src"
  by (induction unbase64 remain src rule: GET_INPUT.induct) (auto simp: Let_def split: if_splits)

lemma get_chars_shorter: "get_chars unbase64 rs d = Inr (good, d') \<Longrightarrow> rs \<noteq> [] \<Longrightarrow> length (src_rest d') < length (src_rest d)"
proof (induction unbase64 rs d rule: get_chars.induct)
  case (2 unbase64 remain rs d)
  from "2.prems"(1) obtain g d1 where g: "get_char unbase64 remain d = Inr (g, d1)"
      "(if g then get_chars unbase64 rs d1 else Inr (False, d1)) = Inr (good, d')"
    by (auto simp: and_then_Inr_iff)
  then have "length (src_rest d1) < length (src_rest d)"
    by (auto simp: get_char_def and_then_Inr_iff Let_def dest: GET_INPUT_shorter split: if_splits)
  then show ?case
    using g "2.IH" by (cases rs) (auto split: if_splits dest: order.strict_trans)
qed simp

lemma next_four_shorter: "next_four unbase64 d = Inr (good, d') \<Longrightarrow> length (src_rest d') < length (src_rest d)"
  by (auto simp: next_four_def Let_def split: list.splits if_splits dest: get_chars_shorter simp del: get_chars.simps)

lemma write_three_rest: "write_three szdest d = Inr (Some d') \<Longrightarrow> src_rest d' = src_rest d"
  by (auto simp: write_three_def Let_def split: option.splits if_splits)

function main_loop :: "int list \<Rightarrow> int \<Rightarrow> decoder \<Rightarrow> decoder option outcome" where
  "main_loop unbase64 szdest d =
     (if length (src_rest d) < 4 then Inr (Some d)
      else and_then (next_four unbase64 d) (\<lambda>(good, d).
           if \<not> good then Inr (Some d)
           else and_then (write_three szdest d) (\<lambda>r.
             case r of None \<Rightarrow> Inr None | Some d \<Rightarrow> main_loop unbase64 szdest d)))"
  by auto

termination
  by (relation "measure (\<lambda>(unbase64, szdest, d). length (src_rest d))") (auto dest!: next_four_shorter write_three_rest)

declare main_loop.simps [simp del]

text \<open>The second loop, one character at a time.\<close>

function tail_loop :: "int list \<Rightarrow> int \<Rightarrow> decoder \<Rightarrow> decoder option outcome" where
  "tail_loop unbase64 szdest d =
     (case src_rest d of
        [] \<Rightarrow> Inr (Some d)
      | c # cs \<Rightarrow>
          let k = unbase64 ! unat c; d1 = d\<lparr>src_rest := cs, ch := c, decode := k\<rparr> in
          if k < 0 then
            if ascii_isspace c then tail_loop unbase64 szdest d1
            else if c = 0 then Inr (Some d1)
            else if is_pad c then Inr (Some (d1\<lparr>src_rest := c # cs\<rparr>))
            else Inr None
          else
            let d2 = d1\<lparr>temp := push_bit 6 (temp d) OR word_of_int k, dec_state := dec_state d + 1\<rparr> in
            if dec_state d2 = 4 then
              and_then (write_three szdest d2) (\<lambda>r.
                case r of None \<Rightarrow> Inr None | Some d3 \<Rightarrow> tail_loop unbase64 szdest (d3\<lparr>dec_state := 0, temp := 0\<rparr>))
            else tail_loop unbase64 szdest d2)"
  by auto

termination
  by (relation "measure (\<lambda>(unbase64, szdest, d). length (src_rest d))") (auto dest!: write_three_rest)

declare tail_loop.simps [simp del]

text \<open>The bits left over at the end, and how many pad characters may follow.\<close>

definition leftover :: "int \<Rightarrow> decoder \<Rightarrow> (nat \<times> u8 list option \<times> nat) option outcome" where
  "leftover szdest d =
     (let i = destidx d in
      if dec_state d = 0 then Inr (Some (i, dest d, 0))
      else if dec_state d = 1 then Inr None
      else if dec_state d = 2 then
        case dest d of
          None \<Rightarrow> Inr (Some (i + 1, None, 2))
        | Some b \<Rightarrow>
            if szdest < int i + 1 then Inr None
            else if length b < i + 1 then Inl (Undefined ''write past the buffer'')
            else Inr (Some (i + 1, Some (b[i := ucast (drop_bit 4 (temp d))]), 2))
      else if dec_state d = 3 then
        case dest d of
          None \<Rightarrow> Inr (Some (i + 2, None, 1))
        | Some b \<Rightarrow>
            if szdest < int i + 2 then Inr None
            else if length b < i + 2 then Inl (Undefined ''write past the buffer'')
            else Inr (Some (i + 2, Some (b[i + 1 := ucast (drop_bit 2 (temp d)), i := ucast (drop_bit 10 (temp d))]), 1))
      else Inl (StdException ''FatalException''))"

fun count_pads :: "nat \<Rightarrow> u8 list \<Rightarrow> nat option" where
  "count_pads equals [] = Some equals"
| "count_pads equals (c # cs) =
     (if c = 0 then Some equals
      else if is_pad c then count_pads (equals + 1) cs
      else if \<not> ascii_isspace c then None
      else count_pads equals cs)"

definition decode_end :: "int \<Rightarrow> decoder \<Rightarrow> (nat \<times> u8 list option) option outcome" where
  "decode_end szdest d =
     and_then (leftover szdest d) (\<lambda>r.
       Inr (case r of None \<Rightarrow> None
            | Some (i, b, expected_equals) \<Rightarrow>
                (case count_pads 0 (src_rest d) of None \<Rightarrow> None
                 | Some equals \<Rightarrow> if equals = 0 \<or> equals = expected_equals then Some (i, b) else None)))"

definition Base64UnescapeInternal :: "int list \<Rightarrow> u8 list \<Rightarrow> u8 list option \<Rightarrow> int \<Rightarrow> (nat \<times> u8 list option) option outcome" where
  "Base64UnescapeInternal unbase64 src b szdest =
     and_then (main_loop unbase64 szdest
         \<lparr>src_rest = src, decode = 0, ch = 0, temp = 0, dec_state = 0, destidx = 0, dest = b\<rparr>) (\<lambda>r.
     case r of None \<Rightarrow> Inr None
     | Some d \<Rightarrow>
         if decode d < 0 \<and> ch d \<noteq> 0 \<and> \<not> is_pad (ch d) \<and> \<not> ascii_isspace (ch d) then Inr None
         else if is_pad (ch d) then decode_end szdest (d\<lparr>src_rest := ch d # src_rest d\<rparr>)
         else and_then (tail_loop unbase64 szdest d) (\<lambda>r.
           case r of None \<Rightarrow> Inr None | Some d \<Rightarrow> decode_end szdest d))"

definition WebSafeBase64Unescape :: "u8 list \<Rightarrow> u8 list option \<Rightarrow> int \<Rightarrow> (nat \<times> u8 list option) option outcome" where
  "WebSafeBase64Unescape = Base64UnescapeInternal kUnWebSafeBase64"

text \<open>The calls on strings. An empty string has no array.\<close>

definition resized :: "nat \<Rightarrow> u8 list \<Rightarrow> u8 list" where
  "resized n s = take n s @ replicate (n - length s) 0"

definition string_as_array :: "u8 list \<Rightarrow> u8 list option" where
  "string_as_array s = (if s = [] then None else Some s)"

definition unescape_string :: "int list \<Rightarrow> u8 list \<Rightarrow> u8 list \<Rightarrow> (bool \<times> u8 list) outcome" where
  "unescape_string unbase64 src s =
     (let dest_len = 3 * (length src div 4) + length src mod 4; s = resized dest_len s in
      and_then (Base64UnescapeInternal unbase64 src (string_as_array s) (int dest_len)) (\<lambda>r.
        Inr (case r of None \<Rightarrow> (False, []) | Some (len, b) \<Rightarrow> (True, take len (case b of None \<Rightarrow> s | Some b \<Rightarrow> b)))))"

definition Base64Unescape :: "u8 list \<Rightarrow> u8 list \<Rightarrow> (bool \<times> u8 list) outcome" where
  "Base64Unescape = unescape_string kUnBase64"

definition WebSafeBase64Unescape_string :: "u8 list \<Rightarrow> u8 list \<Rightarrow> (bool \<times> u8 list) outcome" where
  "WebSafeBase64Unescape_string = unescape_string kUnWebSafeBase64"

section \<open>The encoder\<close>

definition put_bytes :: "u8 list \<Rightarrow> u8 list \<times> nat \<Rightarrow> (u8 list \<times> nat) outcome" where
  "put_bytes bs = (\<lambda>(buffer, p). if p + length bs \<le> length buffer then Inr (overwrite buffer p bs, p + length bs)
                            else Inl (Undefined ''write past the buffer''))"

text \<open>Four characters for 24 bits.\<close>

definition quad :: "u8 list \<Rightarrow> u32 \<Rightarrow> u8 list" where
  "quad base64 w =
     (let w1 = w AND 0x3FFFF; w2 = w1 AND 0xFFF; w3 = w2 AND 0x3F
      in [base64 ! unat (drop_bit 18 w), base64 ! unat (drop_bit 12 w1), base64 ! unat (drop_bit 6 w2), base64 ! unat w3])"

definition Load16 :: "u8 \<Rightarrow> u8 \<Rightarrow> u32" where
  "Load16 a b = push_bit 8 (ucast a) OR ucast b"

definition Load32 :: "u8 \<Rightarrow> u8 \<Rightarrow> u8 \<Rightarrow> u8 \<Rightarrow> u32" where
  "Load32 a b c d = push_bit 24 (ucast a) OR push_bit 16 (ucast b) OR push_bit 8 (ucast c) OR ucast d"

fun escape_loop :: "u8 list \<Rightarrow> u8 list \<Rightarrow> u8 list \<times> nat \<Rightarrow> (u8 list \<times> u8 list \<times> nat) outcome" where
  "escape_loop base64 (a # b # c # d # src) w =
     and_then (put_bytes (quad base64 (drop_bit 8 (Load32 a b c d))) w) (escape_loop base64 (d # src))"
| "escape_loop base64 src w = Inr (src, w)"

text \<open>The last one to three bytes. A return of 0 instead of the length is \<open>None\<close>.\<close>

definition escape_tail :: "u8 list \<Rightarrow> bool \<Rightarrow> u8 list \<Rightarrow> u8 list \<times> nat \<Rightarrow> (u8 list \<times> nat) option outcome" where
  "escape_tail base64 do_padding src w =
     (let szdest = int (length (fst w)) - int (snd w) in
      case src of
        [] \<Rightarrow> Inr (Some w)
      | [a] \<Rightarrow>
          if szdest - 2 < 0 then Inr None
          else let v = ucast a :: u32 in
            and_then (put_bytes [base64 ! unat (drop_bit 2 v), base64 ! unat (push_bit 4 (v AND 0x3))] w) (\<lambda>w.
            if \<not> do_padding then Inr (Some w)
            else if szdest - 2 - 2 < 0 then Inr None
            else and_then (put_bytes [kPad64Equals, kPad64Equals] w) (\<lambda>w. Inr (Some w)))
      | [a, b] \<Rightarrow>
          if szdest - 3 < 0 then Inr None
          else let v = Load16 a b; v1 = v AND 0x3FF in
            and_then (put_bytes [base64 ! unat (drop_bit 10 v), base64 ! unat (drop_bit 4 v1), base64 ! unat (push_bit 2 (v1 AND 0x00F))] w) (\<lambda>w.
            if \<not> do_padding then Inr (Some w)
            else if szdest - 3 - 1 < 0 then Inr None
            else and_then (put_bytes [kPad64Equals] w) (\<lambda>w. Inr (Some w)))
      | [a, b, c] \<Rightarrow>
          if szdest - 4 < 0 then Inr None
          else and_then (put_bytes (quad base64 (push_bit 16 (ucast a) + Load16 b c)) w) (\<lambda>w. Inr (Some w))
      | _ \<Rightarrow> Inl (StdException ''FatalException''))"

definition Base64EscapeInternal :: "u8 list \<Rightarrow> bool \<Rightarrow> u8 list \<Rightarrow> u8 list \<Rightarrow> (nat \<times> u8 list) outcome" where
  "Base64EscapeInternal base64 do_padding src buffer =
     (if src = [] then Inr (0, buffer)
      else and_then (signed_result 32 (int (length src) * 4)) (\<lambda>need.
           and_then (signed_result 32 (int (length buffer) * 3)) (\<lambda>room.
           if room < need then Inr (0, buffer)
           else and_then (escape_loop base64 src (buffer, 0)) (\<lambda>(src, w).
             and_then (escape_tail base64 do_padding src w) (\<lambda>r.
             Inr (case r of None \<Rightarrow> (0, fst w) | Some (buffer, p) \<Rightarrow> (p, buffer)))))))"

definition CalculateBase64EscapedLen :: "int \<Rightarrow> bool \<Rightarrow> int outcome" where
  "CalculateBase64EscapedLen input_len do_padding =
     and_then (signed_result 32 (input_len div 3 * 4)) (\<lambda>len.
       if input_len mod 3 = 0 then Inr len
       else if input_len mod 3 = 1 then
         and_then (signed_result 32 (len + 2)) (\<lambda>len. if do_padding then signed_result 32 (len + 2) else Inr len)
       else
         and_then (signed_result 32 (len + 3)) (\<lambda>len. if do_padding then signed_result 32 (len + 1) else Inr len))"

definition escape_string :: "u8 list \<Rightarrow> bool \<Rightarrow> u8 list \<Rightarrow> u8 list \<Rightarrow> u8 list outcome" where
  "escape_string base64_chars do_padding src s =
     and_then (CalculateBase64EscapedLen (int (length src)) do_padding) (\<lambda>calc_escaped_size.
     and_then (Base64EscapeInternal base64_chars do_padding src (resized (nat calc_escaped_size) s)) (\<lambda>(escaped_len, s).
     Inr (take escaped_len s)))"

definition Base64Escape :: "bool \<Rightarrow> u8 list \<Rightarrow> u8 list \<Rightarrow> u8 list outcome" where
  "Base64Escape do_padding = escape_string kBase64Chars do_padding"

definition WebSafeBase64Escape :: "bool \<Rightarrow> u8 list \<Rightarrow> u8 list \<Rightarrow> u8 list outcome" where
  "WebSafeBase64Escape do_padding = escape_string kWebSafeBase64Chars do_padding"

end
