(* ===== verification/Pb_Base64_Loops.thy ===== *)
theory Pb_Base64_Loops
  imports Pb_Base64
begin

text \<open>
  The two loops of the base64 decoder against one loop that takes a character at a time. The locale
  \<open>alphabet\<close> holds what the tables have to satisfy; both pairs of tables are interpretations.
\<close>

locale alphabet =
  fixes base64 :: "u8 list" and unbase64 :: "int list"
  assumes length_base64: "length base64 = 64"
    and decode_encode: "d < 64 \<Longrightarrow> unbase64 ! unat (base64 ! d) = int d"
    and entries: "unbase64 ! unat (c :: u8) < 64"
    and not_data: "ascii_isspace c \<or> is_pad c \<or> c = 0 \<Longrightarrow> unbase64 ! unat c = - 1"
    and negative: "unbase64 ! unat c < 0 \<Longrightarrow> unbase64 ! unat c = - 1"

text \<open>Decoding with the second loop alone.\<close>

definition simple_run :: "int list \<Rightarrow> int \<Rightarrow> decoder \<Rightarrow> (nat \<times> u8 list option) option outcome" where
  "simple_run unbase64 szdest d =
     and_then (tail_loop unbase64 szdest d) (\<lambda>r. case r of None \<Rightarrow> Inr None | Some d \<Rightarrow> decode_end szdest d)"

definition simple_unescape :: "int list \<Rightarrow> u8 list \<Rightarrow> u8 list option \<Rightarrow> int \<Rightarrow> (nat \<times> u8 list option) option outcome" where
  "simple_unescape unbase64 src b szdest =
     simple_run unbase64 szdest \<lparr>src_rest = src, decode = 0, ch = 0, temp = 0, dec_state = 0, destidx = 0, dest = b\<rparr>"

section \<open>What the second loop does not look at\<close>

text \<open>Two decoders that differ in the last character and in the bits of \<open>temp\<close> above those collected.\<close>

definition alike :: "decoder \<Rightarrow> decoder \<Rightarrow> bool" where
  "alike d e \<longleftrightarrow> src_rest d = src_rest e \<and> dec_state d = dec_state e \<and> destidx d = destidx e \<and> dest d = dest e \<and>
     (dest d \<noteq> None \<longrightarrow> (\<forall>i < 6 * dec_state d. bit (temp d) i = bit (temp e) i))"

lemma bytes_of_temp:
  assumes "\<forall>i < n. bit (t :: u32) i = bit t' i" and "k + 8 \<le> n"
  shows "(ucast (drop_bit k t) :: u8) = ucast (drop_bit k t')"
  using assms by (intro bit_word_eqI) (auto simp: bit_simps)

lemma write_three_alike:
  assumes "alike d e" and "dec_state d = 4"
  shows "rel_sum (=) (rel_option (\<lambda>d e. alike (d\<lparr>dec_state := 0, temp := 0\<rparr>) (e\<lparr>dec_state := 0, temp := 0\<rparr>)))
    (write_three szdest d) (write_three szdest e)"
proof -
  have "dest d = None \<or> (ucast (temp d) :: u8) = ucast (temp e) \<and> (ucast (drop_bit 8 (temp d)) :: u8) = ucast (drop_bit 8 (temp e)) \<and>
      (ucast (drop_bit 16 (temp d)) :: u8) = ucast (drop_bit 16 (temp e))"
    using assms bytes_of_temp [of 24 "temp d" "temp e" 0] bytes_of_temp [of 24 "temp d" "temp e" 8] bytes_of_temp [of 24 "temp d" "temp e" 16]
    by (auto simp: alike_def)
  then show ?thesis
    using assms by (auto simp: write_three_def Let_def alike_def split: option.split)
qed

lemma decode_end_alike: "alike d e \<Longrightarrow> decode_end szdest d = decode_end szdest e"
proof -
  assume a: "alike d e"
  have l: "leftover szdest d = leftover szdest e"
  proof -
    have "dest d = None \<or> dec_state d = 2 \<longrightarrow> dest d = None \<or> (ucast (drop_bit 4 (temp d)) :: u8) = ucast (drop_bit 4 (temp e))"
      using a bytes_of_temp [of 12 "temp d" "temp e" 4] by (auto simp: alike_def)
    moreover have "dec_state d = 3 \<longrightarrow> dest d = None \<or> (ucast (drop_bit 2 (temp d)) :: u8) = ucast (drop_bit 2 (temp e)) \<and>
        (ucast (drop_bit 10 (temp d)) :: u8) = ucast (drop_bit 10 (temp e))"
      using a bytes_of_temp [of 18 "temp d" "temp e" 2] bytes_of_temp [of 18 "temp d" "temp e" 10] by (auto simp: alike_def)
    ultimately show ?thesis
      using a by (auto simp: leftover_def Let_def alike_def split: option.split)
  qed
  have r: "src_rest d = src_rest e"
    using a by (simp add: alike_def)
  show ?thesis
    unfolding decode_end_def l r ..
qed

lemma simple_run_simps:
  "src_rest d = [] \<Longrightarrow> simple_run unbase64 szdest d = decode_end szdest d"
  "src_rest d = c # cs \<Longrightarrow> simple_run unbase64 szdest d =
     (let k = unbase64 ! unat c; d1 = d\<lparr>src_rest := cs, ch := c, decode := k\<rparr> in
      if k < 0 then
        if ascii_isspace c then simple_run unbase64 szdest d1
        else if c = 0 then decode_end szdest d1
        else if is_pad c then decode_end szdest (d1\<lparr>src_rest := c # cs\<rparr>)
        else Inr None
      else
        let d2 = d1\<lparr>temp := push_bit 6 (temp d) OR word_of_int k, dec_state := dec_state d + 1\<rparr> in
        if dec_state d2 = 4 then
          and_then (write_three szdest d2) (\<lambda>r.
            case r of None \<Rightarrow> Inr None | Some d3 \<Rightarrow> simple_run unbase64 szdest (d3\<lparr>dec_state := 0, temp := 0\<rparr>))
        else simple_run unbase64 szdest d2)"
proof -
  have swap: "and_then (and_then m f) g = and_then m (\<lambda>x. and_then (f x) g)" for m :: "decoder option outcome" and f :: "_ \<Rightarrow> decoder option outcome" and g :: "_ \<Rightarrow> (nat \<times> u8 list option) option outcome"
    by (cases m) auto
  show "src_rest d = [] \<Longrightarrow> simple_run unbase64 szdest d = decode_end szdest d"
    by (simp add: simple_run_def tail_loop.simps [of _ _ d])
  assume "src_rest d = c # cs"
  then show "simple_run unbase64 szdest d =
     (let k = unbase64 ! unat c; d1 = d\<lparr>src_rest := cs, ch := c, decode := k\<rparr> in
      if k < 0 then
        if ascii_isspace c then simple_run unbase64 szdest d1
        else if c = 0 then decode_end szdest d1
        else if is_pad c then decode_end szdest (d1\<lparr>src_rest := c # cs\<rparr>)
        else Inr None
      else
        let d2 = d1\<lparr>temp := push_bit 6 (temp d) OR word_of_int k, dec_state := dec_state d + 1\<rparr> in
        if dec_state d2 = 4 then
          and_then (write_three szdest d2) (\<lambda>r.
            case r of None \<Rightarrow> Inr None | Some d3 \<Rightarrow> simple_run unbase64 szdest (d3\<lparr>dec_state := 0, temp := 0\<rparr>))
        else simple_run unbase64 szdest d2)"
    by (auto simp: simple_run_def tail_loop.simps [of _ _ d] Let_def swap intro!: arg_cong2 [where f = and_then] split: option.split)
qed

lemma alike_char:
  assumes "alike d e"
  shows "alike (d\<lparr>src_rest := cs, ch := c, decode := k\<rparr>) (e\<lparr>src_rest := cs, ch := c', decode := k'\<rparr>)"
    "alike (d\<lparr>src_rest := cs, ch := c, decode := k, temp := push_bit 6 (temp d) OR v, dec_state := dec_state d + 1\<rparr>)
      (e\<lparr>src_rest := cs, ch := c', decode := k', temp := push_bit 6 (temp e) OR v, dec_state := dec_state e + 1\<rparr>)"
  using assms by (auto simp: alike_def bit_simps)

lemma simple_run_alike: "alike d e \<Longrightarrow> simple_run unbase64 szdest d = simple_run unbase64 szdest e"
proof (induction "src_rest d" arbitrary: d e)
  case Nil
  then have "src_rest e = []"
    by (simp add: alike_def)
  with Nil show ?case
    by (simp add: simple_run_simps(1) decode_end_alike)
next
  case (Cons c cs)
  note d = simple_run_simps(2) [OF Cons.hyps(2) [symmetric], of unbase64 szdest]
  have "src_rest e = c # cs"
    using Cons by (simp add: alike_def)
  note e = simple_run_simps(2) [OF this, of unbase64 szdest]
  let ?k = "unbase64 ! unat c"
  let ?d1 = "d\<lparr>src_rest := cs, ch := c, decode := ?k\<rparr>" and ?e1 = "e\<lparr>src_rest := cs, ch := c, decode := ?k\<rparr>"
  let ?d2 = "?d1\<lparr>temp := push_bit 6 (temp d) OR word_of_int ?k, dec_state := dec_state d + 1\<rparr>"
  let ?e2 = "?e1\<lparr>temp := push_bit 6 (temp e) OR word_of_int ?k, dec_state := dec_state e + 1\<rparr>"
  have 1: "alike ?d1 ?e1" "alike ?d2 ?e2"
    using alike_char [OF Cons.prems] by simp_all
  then have 2: "simple_run unbase64 szdest ?d1 = simple_run unbase64 szdest ?e1" "simple_run unbase64 szdest ?d2 = simple_run unbase64 szdest ?e2"
    by (auto intro: Cons.hyps(1))
  have 3: "decode_end szdest ?d1 = decode_end szdest ?e1" "decode_end szdest (?d1\<lparr>src_rest := c # cs\<rparr>) = decode_end szdest (?e1\<lparr>src_rest := c # cs\<rparr>)"
    using 1(1) by (auto intro!: decode_end_alike simp: alike_def)
  have s: "dec_state d = dec_state e"
    using Cons.prems by (simp add: alike_def)
  have 4: "and_then (write_three szdest ?d2) (\<lambda>r. case r of None \<Rightarrow> Inr None | Some d3 \<Rightarrow> simple_run unbase64 szdest (d3\<lparr>dec_state := 0, temp := 0\<rparr>)) =
      and_then (write_three szdest ?e2) (\<lambda>r. case r of None \<Rightarrow> Inr None | Some d3 \<Rightarrow> simple_run unbase64 szdest (d3\<lparr>dec_state := 0, temp := 0\<rparr>))"
    if "dec_state ?d2 = 4"
  proof -
    have "src_rest d3 = cs" if "write_three szdest ?d2 = Inr (Some d3)" for d3
      using write_three_rest [OF that] by simp
    with write_three_alike [OF 1(2) that, of szdest] show ?thesis
      by (cases "write_three szdest ?d2"; cases "write_three szdest ?e2")
        (auto elim!: option.rel_cases intro!: Cons.hyps(1))
  qed
  show ?case
    unfolding d e Let_def using 2 3 4 s by (cases "c = 0") simp_all
qed

section \<open>The first loop\<close>

definition after_loop :: "int list \<Rightarrow> int \<Rightarrow> decoder \<Rightarrow> (nat \<times> u8 list option) option outcome" where
  "after_loop unbase64 szdest d =
     (if decode d < 0 \<and> ch d \<noteq> 0 \<and> \<not> is_pad (ch d) \<and> \<not> ascii_isspace (ch d) then Inr None
      else if is_pad (ch d) then decode_end szdest (d\<lparr>src_rest := ch d # src_rest d\<rparr>)
      else simple_run unbase64 szdest d)"

lemma Base64UnescapeInternal_after_loop:
  "Base64UnescapeInternal unbase64 src b szdest =
     and_then (main_loop unbase64 szdest \<lparr>src_rest = src, decode = 0, ch = 0, temp = 0, dec_state = 0, destidx = 0, dest = b\<rparr>)
       (\<lambda>r. case r of None \<Rightarrow> Inr None | Some d \<Rightarrow> after_loop unbase64 szdest d)"
  unfolding Base64UnescapeInternal_def after_loop_def simple_run_def ..

text \<open>With four characters together, write; with fewer, go on with the second loop.\<close>

definition group_end :: "int list \<Rightarrow> int \<Rightarrow> nat \<Rightarrow> decoder \<Rightarrow> (nat \<times> u8 list option) option outcome" where
  "group_end unbase64 szdest n d =
     (if n = 4 then and_then (write_three szdest d) (\<lambda>r.
        case r of None \<Rightarrow> Inr None | Some d \<Rightarrow> simple_run unbase64 szdest (d\<lparr>dec_state := 0\<rparr>))
      else simple_run unbase64 szdest (d\<lparr>dec_state := n\<rparr>))"

lemma Suc_3_eq_4: "Suc (Suc (Suc (Suc 0))) = 4" "Suc (Suc (Suc 0)) = 3"
  by simp_all

lemma group_end_small: "n \<noteq> 4 \<Longrightarrow> group_end unbase64 szdest n d = simple_run unbase64 szdest (d\<lparr>dec_state := n\<rparr>)"
  by (simp add: group_end_def)

lemma write_three_state:
  "write_three szdest (d\<lparr>dec_state := n\<rparr>) = map_sum id (map_option (\<lambda>e. e\<lparr>dec_state := n\<rparr>)) (write_three szdest d)"
  by (auto simp: write_three_def Let_def split: option.split)

lemma group_end_alike:
  assumes "alike (d\<lparr>dec_state := n\<rparr>) (e\<lparr>dec_state := n\<rparr>)"
  shows "group_end unbase64 szdest n d = group_end unbase64 szdest n e"
proof (cases "n = 4")
  case True
  have 0: "simple_run unbase64 szdest (x\<lparr>dec_state := 0\<rparr>) = simple_run unbase64 szdest (y\<lparr>dec_state := 0\<rparr>)"
    if "alike (x\<lparr>dec_state := 0, temp := 0\<rparr>) (y\<lparr>dec_state := 0, temp := 0\<rparr>)" for x y
    using that by (intro simple_run_alike) (simp add: alike_def)
  show ?thesis
    using write_three_alike [OF assms, of szdest] True
    by (cases "write_three szdest d"; cases "write_three szdest e")
      (auto simp: group_end_def write_three_state elim!: option.rel_cases intro!: 0)
next
  case False
  then show ?thesis
    using simple_run_alike [OF assms] by (simp add: group_end_def)
qed

lemma simple_run_data:
  assumes "src_rest d = c # cs" and "0 \<le> unbase64 ! unat c" and "dec_state d < 4"
  shows "simple_run unbase64 szdest d = group_end unbase64 szdest (dec_state d + 1)
    (d\<lparr>src_rest := cs, ch := c, decode := unbase64 ! unat c, temp := push_bit 6 (temp d) OR word_of_int (unbase64 ! unat c)\<rparr>)"
proof -
  have 0: "simple_run unbase64 szdest (x\<lparr>dec_state := 0, temp := 0\<rparr>) = simple_run unbase64 szdest (x\<lparr>dec_state := 0\<rparr>)" for x
    by (rule simple_run_alike) (simp add: alike_def)
  let ?e = "d\<lparr>src_rest := cs, ch := c, decode := unbase64 ! unat c, temp := push_bit 6 (temp d) OR word_of_int (unbase64 ! unat c)\<rparr>"
  have "write_three szdest (?e\<lparr>dec_state := 4\<rparr>) = map_sum id (map_option (\<lambda>e. e\<lparr>dec_state := 4\<rparr>)) (write_three szdest ?e)"
    by (rule write_three_state)
  then show ?thesis
    using assms by (cases "write_three szdest ?e") (auto simp: simple_run_simps(2) [OF assms(1)] Let_def group_end_def 0 split: option.split)
qed

lemma and_push_bit_1: "(w :: u32) AND push_bit n 1 = 0 \<longleftrightarrow> \<not> bit w n \<or> 32 \<le> n"
proof
  assume "w AND push_bit n 1 = 0"
  then have "bit (w AND push_bit n 1) n = False"
    by simp
  then show "\<not> bit w n \<or> 32 \<le> n"
    by (auto simp: bit_simps)
next
  assume "\<not> bit w n \<or> 32 \<le> n"
  then show "w AND push_bit n 1 = 0"
    by (intro bit_word_eqI) (auto simp: bit_simps)
qed

context alphabet
begin

lemma simple_run_blank:
  assumes "src_rest d = c # cs" and "ascii_isspace c"
  shows "simple_run unbase64 szdest d = simple_run unbase64 szdest (d\<lparr>src_rest := cs\<rparr>)"
proof -
  have "simple_run unbase64 szdest d = simple_run unbase64 szdest (d\<lparr>src_rest := cs, ch := c, decode := unbase64 ! unat c\<rparr>)"
    using assms not_data [of c] by (simp add: simple_run_simps(2) [OF assms(1)])
  also have "\<dots> = simple_run unbase64 szdest (d\<lparr>src_rest := cs\<rparr>)"
    by (rule simple_run_alike) (simp add: alike_def)
  finally show ?thesis .
qed

lemma GET_INPUT_skips:
  assumes "remain \<le> length src" and "0 < remain"
  shows "\<exists>good c k src'. GET_INPUT unbase64 remain src = Inr (good, c, k, src') \<and> k = unbase64 ! unat c \<and> (good \<longleftrightarrow> 0 \<le> k) \<and>
    c \<in> set src \<and> set src' \<subseteq> set src \<and> (good \<longrightarrow> remain \<le> Suc (length src')) \<and>
    (\<forall>d. simple_run unbase64 szdest (d\<lparr>src_rest := src\<rparr>) = simple_run unbase64 szdest (d\<lparr>src_rest := c # src'\<rparr>))"
  using assms
proof (induction src)
  case (Cons c cs)
  let ?k = "unbase64 ! unat c"
  show ?case
  proof (cases "?k < 0 \<and> ascii_isspace c \<and> remain \<le> length cs")
    case True
    then have g: "GET_INPUT unbase64 remain (c # cs) = GET_INPUT unbase64 remain cs"
      by (simp add: Let_def)
    have r: "simple_run unbase64 szdest (d\<lparr>src_rest := c # cs\<rparr>) = simple_run unbase64 szdest (d\<lparr>src_rest := cs\<rparr>)" for d
      using True simple_run_blank [of "d\<lparr>src_rest := c # cs\<rparr>" c cs] by simp
    have "set cs \<subseteq> set (c # cs)"
      by auto
    with Cons.IH True Cons.prems(2) show ?thesis
      unfolding g r by (meson subset_trans subsetD)
  next
    case False
    then have "GET_INPUT unbase64 remain (c # cs) = Inr (\<not> ?k < 0, c, ?k, cs)"
      by (auto simp: Let_def)
    then show ?thesis
      using Cons.prems by (intro exI [of _ "\<not> ?k < 0"] exI [of _ c] exI [of _ ?k] exI [of _ cs]) auto
  qed
qed simp

lemma after_loop_stop:
  assumes "unbase64 ! unat c < 0" and "c \<noteq> 0"
  shows "after_loop unbase64 szdest (d\<lparr>src_rest := cs, ch := c, decode := unbase64 ! unat c, dec_state := n\<rparr>) =
    simple_run unbase64 szdest (d\<lparr>src_rest := c # cs, dec_state := n\<rparr>)"
proof -
  let ?e = "d\<lparr>src_rest := c # cs, dec_state := n\<rparr>"
  have 1: "decode_end szdest (d\<lparr>src_rest := c # cs, ch := x, decode := y, dec_state := n\<rparr>) = decode_end szdest (d\<lparr>src_rest := c # cs, ch := x', decode := y', dec_state := n\<rparr>)" for x y x' y'
    by (rule decode_end_alike) (simp add: alike_def)
  have "\<not> (is_pad c \<and> ascii_isspace c)"
    by (auto simp: is_pad_def ascii_isspace_def kPad64Equals_def kPad64Dot_def)
  with assms 1 [where x = c and y = "unbase64 ! unat c" and x' = "ch d" and y' = "decode d"] show ?thesis
    by (cases d) (auto simp: after_loop_def simple_run_simps(2) Let_def)
qed

lemma get_chars_group:
  assumes "r \<le> 4" and "r \<le> length (src_rest d)" and "0 \<notin> set (src_rest d)"
  shows "\<exists>good d'. get_chars unbase64 (rev [1..<Suc r]) d = Inr (good, d') \<and> (\<not> good \<longrightarrow> after_loop unbase64 szdest d' = group_end unbase64 szdest (4 - r) d) \<and>
    (good \<longrightarrow> group_end unbase64 szdest 4 d' = group_end unbase64 szdest (4 - r) d \<and> dec_state d' = dec_state d \<and>
      (0 < r \<longrightarrow> 0 \<le> decode d' \<and> 0 \<le> unbase64 ! unat (ch d')) \<and> 0 \<notin> set (src_rest d'))"
  using assms
proof (induction r arbitrary: d)
  case 0
  then show ?case
    by (intro exI [of _ True] exI [of _ d]) simp
next
  case (Suc r)
  let ?n = "4 - Suc r"
  have n: "?n < 4" "?n \<noteq> 4" "?n + 1 = 4 - r"
    using Suc.prems(1) by simp_all
  obtain good c k src' where g: "GET_INPUT unbase64 (Suc r) (src_rest d) = Inr (good, c, k, src')" "k = unbase64 ! unat c" "good \<longleftrightarrow> 0 \<le> k"
      "c \<in> set (src_rest d)" "set src' \<subseteq> set (src_rest d)" "good \<longrightarrow> Suc r \<le> Suc (length src')"
      "\<And>d'. simple_run unbase64 szdest (d'\<lparr>src_rest := src_rest d\<rparr>) = simple_run unbase64 szdest (d'\<lparr>src_rest := c # src'\<rparr>)"
    using GET_INPUT_skips [OF Suc.prems(2), of szdest] by blast
  have c0: "c \<noteq> 0"
    using g(4) Suc.prems(3) by auto
  have start: "group_end unbase64 szdest ?n d = simple_run unbase64 szdest (d\<lparr>src_rest := c # src', dec_state := ?n\<rparr>)"
    using g(7) [of "d\<lparr>dec_state := ?n\<rparr>"] n(2) by (cases d) (simp add: group_end_def)
  have l: "rev [1..<Suc (Suc r)] = Suc r # rev [1..<Suc r]"
    by simp
  show ?case
  proof (cases good)
    case False
    then have "get_chars unbase64 (rev [1..<Suc (Suc r)]) d = Inr (False, d\<lparr>src_rest := src', ch := c, decode := k, dec_state := ?n\<rparr>)"
      unfolding l by (simp add: get_char_def g(1))
    moreover have "after_loop unbase64 szdest (d\<lparr>src_rest := src', ch := c, decode := k, dec_state := ?n\<rparr>) = group_end unbase64 szdest ?n d"
      unfolding start g(2) using False g(2,3) c0 by (intro after_loop_stop) auto
    ultimately show ?thesis
      using False by blast
  next
    case True
    let ?d1 = "d\<lparr>src_rest := src', ch := c, decode := k\<rparr>"
    let ?d2 = "if dest d = None then ?d1 else ?d1\<lparr>temp := (if Suc r = 4 then word_of_int k else push_bit 6 (temp d) OR word_of_int k)\<rparr>"
    have get: "get_chars unbase64 (rev [1..<Suc (Suc r)]) d = get_chars unbase64 (rev [1..<Suc r]) ?d2"
    proof -
      have "get_char unbase64 (Suc r) d = Inr (True, ?d2)"
        using True by (simp add: get_char_def g(1) Let_def)
      then show ?thesis
        unfolding l get_chars.simps(2) by (simp only: and_then.simps prod.case if_True)
    qed
    have "group_end unbase64 szdest ?n d = group_end unbase64 szdest (4 - r) (?d1\<lparr>temp := push_bit 6 (temp d) OR word_of_int k, dec_state := ?n\<rparr>)"
      unfolding start using True g(2,3) n by (subst simple_run_data) (auto intro!: group_end_alike simp: alike_def)
    also have "\<dots> = group_end unbase64 szdest (4 - r) ?d2"
      by (rule group_end_alike) (auto simp: alike_def bit_simps)
    finally have e: "group_end unbase64 szdest (4 - r) ?d2 = group_end unbase64 szdest ?n d" ..
    have r: "r \<le> 4" "r \<le> length (src_rest ?d2)" "0 \<notin> set (src_rest ?d2)"
      using Suc.prems g(5,6) True by auto
    show ?thesis
    proof (cases "r = 0")
      case True
      then show ?thesis
        using get e r(3) g(2,3) \<open>good\<close> by (intro exI [of _ True] exI [of _ ?d2]) auto
    next
      case False
      then show ?thesis
        using Suc.IH [OF r] e unfolding get by auto
    qed
  qed
qed

lemma simple_run_four:
  assumes src: "src_rest d = c0 # c1 # c2 # c3 # cs" and "dec_state d = 0"
    and data: "0 \<le> unbase64 ! unat c0" "0 \<le> unbase64 ! unat c1" "0 \<le> unbase64 ! unat c2" "0 \<le> unbase64 ! unat c3"
  shows "simple_run unbase64 szdest d =
    group_end unbase64 szdest 4 (d\<lparr>temp := four_at_once unbase64 c0 c1 c2 c3, src_rest := cs, decode := - 1, ch := 0\<rparr>)"
proof -
  let ?k = "\<lambda>c :: u8. unbase64 ! unat c"
  have "simple_run unbase64 szdest d = group_end unbase64 szdest 4 (d\<lparr>src_rest := cs, ch := c3, decode := ?k c3, dec_state := 3,
      temp := push_bit 6 (push_bit 6 (push_bit 6 (push_bit 6 (temp d) OR word_of_int (?k c0)) OR word_of_int (?k c1)) OR word_of_int (?k c2)) OR word_of_int (?k c3)\<rparr>)"
    using src data assms(2) by (cases d) (simp add: simple_run_data group_end_small Suc_3_eq_4)
  also have "\<dots> = group_end unbase64 szdest 4 (d\<lparr>temp := four_at_once unbase64 c0 c1 c2 c3, src_rest := cs, decode := - 1, ch := 0\<rparr>)"
    by (rule group_end_alike) (auto simp: alike_def four_at_once_def bit_simps)
  finally show ?thesis .
qed

lemma next_four_group:
  assumes "4 \<le> length (src_rest d)" and "0 \<notin> set (src_rest d)" and "dec_state d = 0"
  shows "\<exists>good d'. next_four unbase64 d = Inr (good, d') \<and> (\<not> good \<longrightarrow> after_loop unbase64 szdest d' = simple_run unbase64 szdest d) \<and>
    (good \<longrightarrow> group_end unbase64 szdest 4 d' = simple_run unbase64 szdest d \<and> dec_state d' = 0 \<and>
      (0 \<le> decode d' \<and> \<not> is_pad (ch d') \<or> ch d' = 0) \<and> 0 \<notin> set (src_rest d'))"
proof -
  obtain c0 c1 c2 c3 cs where src: "src_rest d = c0 # c1 # c2 # c3 # cs"
    using assms(1) by (auto simp: numeral_eq_Suc Suc_le_length_iff)
  have nul: "c0 \<noteq> 0" "c1 \<noteq> 0" "c2 \<noteq> 0" "0 \<notin> set cs"
    using assms(2) unfolding src by auto
  let ?k = "\<lambda>c :: u8. unbase64 ! unat c" and ?w = "four_at_once unbase64 c0 c1 c2 c3"
  have top: "?w AND 0x80000000 = 0 \<longleftrightarrow> \<not> bit ?w 31"
  proof -
    have "(0x80000000 :: u32) = push_bit 31 1"
      by simp
    then show ?thesis
      using and_push_bit_1 [of ?w 31] by simp
  qed
  show ?thesis
  proof (cases "?w AND 0x80000000 = 0")
    case False
    let ?d = "d\<lparr>temp := ?w\<rparr>"
    have "group_end unbase64 szdest (4 - 4) ?d = simple_run unbase64 szdest d"
      using assms(3) by (simp add: group_end_def) (rule simple_run_alike, simp add: alike_def)
    moreover have "next_four unbase64 d = get_chars unbase64 (rev [1..<Suc 4]) ?d"
    proof -
      have "rev [1..<Suc 4] = [4, 3, 2, 1]"
        by code_simp
      then show ?thesis
        using False nul by (simp add: next_four_def src del: get_chars.simps)
    qed
    ultimately show ?thesis
      using get_chars_group [of 4 ?d szdest] assms not_data by fastforce
  next
    case True
    have data: "0 \<le> ?k c" if "c \<in> {c0, c1, c2, c3}" for c
    proof (rule ccontr)
      assume "\<not> 0 \<le> ?k c"
      then have "?k c = - 1"
        by (intro negative) simp
      with that have "bit ?w 31"
        by (auto simp: four_at_once_def bit_simps)
      with True top show False
        by simp
    qed
    let ?d' = "d\<lparr>temp := ?w, src_rest := cs, decode := - 1, ch := 0\<rparr>"
    have "simple_run unbase64 szdest d = group_end unbase64 szdest 4 ?d'"
      using data assms(3) by (intro simple_run_four [OF src]) simp_all
    moreover have "next_four unbase64 d = Inr (True, ?d')"
      using True nul by (simp add: next_four_def src)
    ultimately show ?thesis
      using nul(4) assms(3) by (intro exI [of _ True] exI [of _ ?d']) simp
  qed
qed

text \<open>From the start of a group on, the first loop and what follows it are the second loop.\<close>

lemma main_loop_simple:
  assumes "0 \<notin> set (src_rest d)" and "dec_state d = 0" and "0 \<le> decode d \<and> \<not> is_pad (ch d) \<or> ch d = 0"
  shows "and_then (main_loop unbase64 szdest d) (\<lambda>r. case r of None \<Rightarrow> Inr None | Some d \<Rightarrow> after_loop unbase64 szdest d) =
    simple_run unbase64 szdest d"
  using assms
proof (induction "length (src_rest d)" arbitrary: d rule: less_induct)
  case less
  show ?case
  proof (cases "length (src_rest d) < 4")
    case True
    moreover have "\<not> is_pad 0"
      by (simp add: is_pad_def kPad64Equals_def kPad64Dot_def)
    ultimately show ?thesis
      using less.prems(3) by (auto simp: main_loop.simps [of _ _ d] after_loop_def)
  next
    case False
    then obtain good d' where n: "next_four unbase64 d = Inr (good, d')" "\<not> good \<longrightarrow> after_loop unbase64 szdest d' = simple_run unbase64 szdest d"
      "good \<longrightarrow> group_end unbase64 szdest 4 d' = simple_run unbase64 szdest d \<and> dec_state d' = 0 \<and>
        (0 \<le> decode d' \<and> \<not> is_pad (ch d') \<or> ch d' = 0) \<and> 0 \<notin> set (src_rest d')"
      using next_four_group [of d szdest] less.prems by (auto simp: not_less)
    show ?thesis
    proof (cases good)
      case False
      then show ?thesis
        using n \<open>\<not> length (src_rest d) < 4\<close> by (simp add: main_loop.simps [of _ _ d])
    next
      case True
      have ih: "and_then (main_loop unbase64 szdest e) (\<lambda>r. case r of None \<Rightarrow> Inr None | Some d \<Rightarrow> after_loop unbase64 szdest d) =
          simple_run unbase64 szdest (e\<lparr>dec_state := 0\<rparr>)" if "write_three szdest d' = Inr (Some e)" for e
      proof -
        have e: "src_rest e = src_rest d'" "dec_state e = 0" "decode e = decode d'" "ch e = ch d'"
          using that n(3) True by (auto simp: write_three_def Let_def split: option.splits if_splits)
        then have "simple_run unbase64 szdest e = simple_run unbase64 szdest (e\<lparr>dec_state := 0\<rparr>)"
          by (intro simple_run_alike) (simp add: alike_def)
        moreover have "length (src_rest e) < length (src_rest d)"
          using next_four_shorter [OF n(1)] e(1) by simp
        ultimately show ?thesis
          using less.hyps [of e] n(3) True e by simp
      qed
      have "and_then (main_loop unbase64 szdest d) (\<lambda>r. case r of None \<Rightarrow> Inr None | Some d \<Rightarrow> after_loop unbase64 szdest d) =
          group_end unbase64 szdest 4 d'"
        using n(1) True \<open>\<not> length (src_rest d) < 4\<close> ih
        by (cases "write_three szdest d'") (auto simp: main_loop.simps [of _ _ d] group_end_def split: option.split)
      then show ?thesis
        using n(3) True by simp
    qed
  qed
qed

lemma unescape_simple:
  "0 \<notin> set src \<Longrightarrow> Base64UnescapeInternal unbase64 src b szdest = simple_unescape unbase64 src b szdest"
  unfolding Base64UnescapeInternal_after_loop simple_unescape_def
  by (rule main_loop_simple) (simp_all add: is_pad_def kPad64Equals_def kPad64Dot_def)

end

text \<open>Both pairs of tables.\<close>

lemma table_bounds:
  "list_all (\<lambda>k. - 1 \<le> k \<and> k < 64) kUnBase64" "length kUnBase64 = 256"
  "list_all (\<lambda>k. - 1 \<le> k \<and> k < 64) kUnWebSafeBase64" "length kUnWebSafeBase64 = 256"
  by (simp_all add: kUnBase64_def kUnWebSafeBase64_def list_all_iff)

lemma unbase64_entry:
  assumes "list_all (\<lambda>k. - 1 \<le> k \<and> k < (64 :: int)) t" and "length t = 256"
  shows "t ! unat (c :: u8) < 64" "t ! unat c < 0 \<Longrightarrow> t ! unat c = - 1"
proof -
  have "unat c < 256"
    using unsigned_less [of c] by simp
  then have "- 1 \<le> t ! unat c \<and> t ! unat c < 64"
    using assms by (simp add: list_all_length)
  then show "t ! unat c < 64" "t ! unat c < 0 \<Longrightarrow> t ! unat c = - 1"
    by auto
qed

lemma base64_tables:
  "map (\<lambda>c. kUnBase64 ! unat c) kBase64Chars = map int [0..<64]" "map (\<lambda>c. kUnWebSafeBase64 ! unat c) kWebSafeBase64Chars = map int [0..<64]"
  by code_simp+

lemma no_data_tables:
  "map (\<lambda>c :: u8. kUnBase64 ! unat c) [32, 9, 10, 11, 12, 13, 61, 46, 0] = replicate 9 (- 1)"
  "map (\<lambda>c :: u8. kUnWebSafeBase64 ! unat c) [32, 9, 10, 11, 12, 13, 61, 46, 0] = replicate 9 (- 1)"
  by code_simp+

interpretation std: alphabet kBase64Chars kUnBase64
proof
  show "length kBase64Chars = 64"
    by (simp add: kBase64Chars_def)
  show "kUnBase64 ! unat (kBase64Chars ! d) = int d" if "d < 64" for d
    using arg_cong [OF base64_tables(1), of "\<lambda>l. l ! d"] that \<open>length kBase64Chars = 64\<close> by simp
  show "kUnBase64 ! unat c < 64" "kUnBase64 ! unat c < 0 \<Longrightarrow> kUnBase64 ! unat c = - 1" for c :: u8
    using unbase64_entry [OF table_bounds(1,2)] by auto
  show "kUnBase64 ! unat c = - 1" if "ascii_isspace c \<or> is_pad c \<or> c = 0" for c
    using that no_data_tables(1) by (auto simp: ascii_isspace_def is_pad_def kPad64Equals_def kPad64Dot_def numeral_eq_Suc)
qed

interpretation web: alphabet kWebSafeBase64Chars kUnWebSafeBase64
proof
  show "length kWebSafeBase64Chars = 64"
    by (simp add: kWebSafeBase64Chars_def)
  show "kUnWebSafeBase64 ! unat (kWebSafeBase64Chars ! d) = int d" if "d < 64" for d
    using arg_cong [OF base64_tables(2), of "\<lambda>l. l ! d"] that \<open>length kWebSafeBase64Chars = 64\<close> by simp
  show "kUnWebSafeBase64 ! unat c < 64" "kUnWebSafeBase64 ! unat c < 0 \<Longrightarrow> kUnWebSafeBase64 ! unat c = - 1" for c :: u8
    using unbase64_entry [OF table_bounds(3,4)] by auto
  show "kUnWebSafeBase64 ! unat c = - 1" if "ascii_isspace c \<or> is_pad c \<or> c = 0" for c
    using that no_data_tables(2) by (auto simp: ascii_isspace_def is_pad_def kPad64Equals_def kPad64Dot_def numeral_eq_Suc)
qed

end
