(* ===== verification/Pb_Base64_Props.thy ===== *)
theory Pb_Base64_Props
  imports Pb_Base64_Loops
begin

text \<open>
  What the base64 functions of stubs/strutil.cc do: the encoder writes the reference encoding
  \<open>b64\<close>, and the decoder turns it back into the bytes.
\<close>

section \<open>The encoding\<close>

definition three_bytes :: "u8 \<Rightarrow> u8 \<Rightarrow> u8 \<Rightarrow> u32" where
  "three_bytes a b c = push_bit 16 (ucast a) OR push_bit 8 (ucast b) OR ucast c"

fun b64 :: "u8 list \<Rightarrow> bool \<Rightarrow> u8 list \<Rightarrow> u8 list" where
  "b64 base64 pad [] = []"
| "b64 base64 pad [a] = (let v = ucast a :: u32 in
     [base64 ! unat (drop_bit 2 v), base64 ! unat (push_bit 4 (v AND 3))] @ (if pad then [kPad64Equals, kPad64Equals] else []))"
| "b64 base64 pad [a, b] = (let v = Load16 a b; v1 = v AND 0x3FF in
     [base64 ! unat (drop_bit 10 v), base64 ! unat (drop_bit 4 v1), base64 ! unat (push_bit 2 (v1 AND 0x00F))] @
     (if pad then [kPad64Equals] else []))"
| "b64 base64 pad (a # b # c # bs) = quad base64 (three_bytes a b c) @ b64 base64 pad bs"

lemma length_b64:
  "length (b64 base64 pad bs) = length bs div 3 * 4 + (if length bs mod 3 = 0 then 0 else if pad then 4 else length bs mod 3 + 1)"
proof (induction base64 pad bs rule: b64.induct)
  case (4 base64 pad a b c bs)
  have "(3 + length bs) div 3 = length bs div 3 + 1" "(3 + length bs) mod 3 = length bs mod 3"
    by presburger+
  with 4 show ?case
    by (simp add: Let_def quad_def)
qed (simp_all add: Let_def)

lemma loads:
  "drop_bit 8 (Load32 a b c d) = three_bytes a b c" "push_bit 16 (ucast a) + Load16 b c = three_bytes a b c"
proof -
  show "drop_bit 8 (Load32 a b c d) = three_bytes a b c"
    by (intro bit_word_eqI) (auto simp: Load32_def three_bytes_def bit_simps dest: bit_imp_le_length)
  have "push_bit 16 (ucast a) + Load16 b c = push_bit 16 (ucast a) OR Load16 b c"
    by (intro disjunctive_add) (auto simp: Load16_def bit_simps dest: bit_imp_le_length)
  then show "push_bit 16 (ucast a) + Load16 b c = three_bytes a b c"
    by (simp add: Load16_def three_bytes_def or.assoc)
qed

lemma overwrite_append:
  "p + length s + length t \<le> length xs \<Longrightarrow> overwrite (overwrite xs p s) (p + length s) t = overwrite xs p (s @ t)"
  by (simp add: overwrite_def ac_simps)

lemma put_bytes_room: "p + length bs \<le> length xs \<Longrightarrow> put_bytes bs (xs, p) = Inr (overwrite xs p bs, p + length bs)"
  by (simp add: put_bytes_def)

lemma escape_tail_exact:
  assumes "length src \<le> 3" and "p + length (b64 base64 pad src) \<le> length xs"
  shows "escape_tail base64 pad src (xs, p) = Inr (Some (overwrite xs p (b64 base64 pad src), p + length (b64 base64 pad src)))"
proof -
  consider "src = []" | a where "src = [a]" | a b where "src = [a, b]" | a b c where "src = [a, b, c]"
    using assms(1) by (auto simp: le_Suc_eq length_Suc_conv numeral_3_eq_3)
  then show ?thesis
    using assms(2)
    by cases (auto simp: escape_tail_def Let_def put_bytes_room overwrite_append loads quad_def, auto simp: overwrite_def)
qed

lemma escape_loop_exact:
  assumes "p + length (b64 base64 pad src) \<le> length xs"
  shows "and_then (escape_loop base64 src (xs, p)) (\<lambda>(src, w). escape_tail base64 pad src w) =
    Inr (Some (overwrite xs p (b64 base64 pad src), p + length (b64 base64 pad src)))"
  using assms
proof (induction base64 src "(xs, p)" arbitrary: xs p rule: escape_loop.induct)
  case (1 base64 a b c d src)
  have "length (quad base64 w) = 4" for w
    by (simp add: quad_def Let_def)
  with 1 overwrite_append [of p "quad base64 (three_bytes a b c)" "b64 base64 pad (d # src)" xs] show ?case
    by (simp add: loads put_bytes_room)
qed (simp_all add: escape_tail_exact)

lemma Base64EscapeInternal_exact:
  assumes "length src < 2 ^ 29 - 2" and "length buffer = length (b64 base64 pad src)"
  shows "Base64EscapeInternal base64 pad src buffer = Inr (length (b64 base64 pad src), b64 base64 pad src)"
proof (cases "src = []")
  case True
  then show ?thesis
    using assms(2) by (simp add: Base64EscapeInternal_def)
next
  case False
  let ?n = "length src" and ?l = "length (b64 base64 pad src)"
  have l: "4 * ?n \<le> 3 * ?l \<and> 3 * ?l \<le> 4 * ?n + 8"
    unfolding length_b64 by (cases pad) (simp_all, presburger+)
  then have "signed_result 32 (int ?n * 4) = Inr (int ?n * 4)" "signed_result 32 (int ?l * 3) = Inr (int ?l * 3)"
    using assms(1) by (simp_all add: signed_result_def)
  moreover have "\<not> int ?l * 3 < int ?n * 4"
    using l by linarith
  moreover have "and_then (escape_loop base64 src (buffer, 0)) (\<lambda>(src, w).
      and_then (escape_tail base64 pad src w) (\<lambda>r. Inr (case r of None \<Rightarrow> (0, fst w) | Some (buffer, p) \<Rightarrow> (p, buffer)))) =
      Inr (?l, b64 base64 pad src)"
  proof -
    obtain rest w where loop: "escape_loop base64 src (buffer, 0) = Inr (rest, w)"
        "escape_tail base64 pad rest w = Inr (Some (overwrite buffer 0 (b64 base64 pad src), ?l))"
      using escape_loop_exact [of 0 base64 pad src buffer] assms(2) by (auto simp: and_then_Inr_iff)
    then show ?thesis
      using assms(2) by (simp add: overwrite_def)
  qed
  ultimately show ?thesis
    using False assms(2) by (simp add: Base64EscapeInternal_def)
qed

lemma CalculateBase64EscapedLen_exact:
  assumes "length src < 2 ^ 29 - 2"
  shows "CalculateBase64EscapedLen (int (length src)) pad = Inr (int (length (b64 base64 pad src)))"
proof -
  let ?n = "length src"
  have q: "int ?n div 3 = int (?n div 3)" "int ?n mod 3 = int (?n mod 3)"
    by (simp_all add: zdiv_int zmod_int)
  have fits: "signed_result 32 x = Inr x" if "0 \<le> x" "x \<le> int (?n div 3) * 4 + 4" for x
    using that assms by (intro signed_result_in) simp_all
  consider "?n mod 3 = 0" | "?n mod 3 = 1" | "?n mod 3 = 2"
    by linarith
  then show ?thesis
    unfolding CalculateBase64EscapedLen_def length_b64 q by cases (simp_all add: fits)
qed

lemma escape_string_exact:
  assumes "length src < 2 ^ 29 - 2"
  shows "escape_string base64 pad src s = Inr (b64 base64 pad src)"
  using Base64EscapeInternal_exact [OF assms, of "resized (length (b64 base64 pad src)) s" base64 pad]
  by (simp add: escape_string_def CalculateBase64EscapedLen_exact [OF assms, of pad base64] resized_def)

section \<open>Decoding the encoding\<close>

lemma list_by_three [case_names Nil One Two Three]:
  fixes P :: "u8 list \<Rightarrow> bool"
  assumes "P []" "\<And>a. P [a]" "\<And>a b. P [a, b]" "\<And>a b c bs. P bs \<Longrightarrow> P (a # b # c # bs)"
  shows "P bs"
  by (rule b64.induct [of "\<lambda>_ _. P"]) (fact assms)+

lemma overwrite_3:
  assumes "i + 3 \<le> length xs"
  shows "xs[i + 2 := c, i + 1 := b, i := a] = overwrite xs i [a, b, c]"
proof -
  obtain u v where xs: "xs = u @ v" and u: "length u = i"
    using assms by (metis append_take_drop_id length_take min.absorb2 add_leD1)
  obtain x y z w where "v = x # y # z # w"
    using assms u unfolding xs by (auto simp: numeral_3_eq_3 Suc_le_length_iff)
  then show ?thesis
    using u unfolding xs by (simp add: overwrite_def list_update_append)
qed

lemma overwrite_2:
  assumes "i + 2 \<le> length xs"
  shows "xs[i + 1 := b, i := a] = overwrite xs i [a, b]"
proof -
  obtain u v where xs: "xs = u @ v" and u: "length u = i"
    using assms by (metis append_take_drop_id length_take min.absorb2 add_leD1)
  obtain x y w where "v = x # y # w"
    using assms u unfolding xs by (auto simp: numeral_2_eq_2 Suc_le_length_iff)
  then show ?thesis
    using u unfolding xs by (simp add: overwrite_def list_update_append)
qed

lemma overwrite_one: "i < length xs \<Longrightarrow> xs[i := a] = overwrite xs i [a]"
  by (simp add: overwrite_def upd_conv_take_nth_drop)

lemma Suc_Suc_diff: "2 \<le> n \<Longrightarrow> Suc (Suc (n - 2)) = n"
  by simp

lemma bytes_of_three:
  "(ucast (three_bytes a b c) :: u8) = c" "(ucast (drop_bit 8 (three_bytes a b c)) :: u8) = b" "(ucast (drop_bit 16 (three_bytes a b c)) :: u8) = a"
  by (intro bit_word_eqI, auto simp: three_bytes_def bit_simps dest: bit_imp_le_length)+

context alphabet
begin

lemma sextet:
  assumes "unat (v :: u32) < 64"
  shows "unbase64 ! unat (base64 ! unat v) = int (unat v)" "word_of_int (unbase64 ! unat (base64 ! unat v)) = v"
  using decode_encode [OF assms] by simp_all

end

lemma index_less: "\<forall>i. 6 \<le> i \<longrightarrow> \<not> bit (v :: u32) i \<Longrightarrow> unat v < 64"
proof -
  assume "\<forall>i. 6 \<le> i \<longrightarrow> \<not> bit v i"
  then have "v = take_bit 6 v"
    by (intro bit_word_eqI) (auto simp: bit_simps, meson not_le)
  then have "unat v = take_bit 6 (unat v)"
    by (metis unsigned_take_bit_eq)
  moreover have "take_bit 6 (unat v) < 64"
    using take_bit_nat_less_exp [of 6 "unat v"] by simp
  ultimately show ?thesis
    by linarith
qed

lemma masks:
  fixes v :: u32
  shows "v AND 0x3FFFF = take_bit 18 v" "v AND 0xFFF = take_bit 12 v" "v AND 0x3F = take_bit 6 v" "v AND 0x3FF = take_bit 10 v"
    "v AND 0x00F = take_bit 4 v" "v AND 3 = take_bit 2 v"
  by (simp_all add: take_bit_eq_mask mask_eq_exp_minus_1)

lemma three_bytes_bit: "bit (three_bytes a b c) i \<Longrightarrow> i < 24"
  by (auto simp: three_bytes_def bit_simps dest!: bit_imp_le_length)

lemma decode_end_data:
  "dec_state d = 0 \<Longrightarrow> src_rest d = [] \<Longrightarrow> decode_end szdest d = Inr (Some (destidx d, dest d))"
  by (simp add: decode_end_def leftover_def)

context alphabet
begin

lemma quad_word:
  assumes "\<forall>i. bit w i \<longrightarrow> i < 24"
  obtains c0 c1 c2 c3 where "quad base64 w = [c0, c1, c2, c3]" "0 \<le> unbase64 ! unat c0" "0 \<le> unbase64 ! unat c1"
    "0 \<le> unbase64 ! unat c2" "0 \<le> unbase64 ! unat c3" "four_at_once unbase64 c0 c1 c2 c3 = w"
proof -
  define k0 k1 k2 k3 where k: "k0 = drop_bit 18 w" "k1 = drop_bit 12 (take_bit 18 w)" "k2 = drop_bit 6 (take_bit 12 w)" "k3 = take_bit 6 w"
  have less: "unat k0 < 64" "unat k1 < 64" "unat k2 < 64" "unat k3 < 64"
    using assms by (intro index_less; force simp: k bit_simps)+
  have "quad base64 w = [base64 ! unat k0, base64 ! unat k1, base64 ! unat k2, base64 ! unat k3]"
    by (simp add: quad_def Let_def masks k take_bit_take_bit)
  moreover have "four_at_once unbase64 (base64 ! unat k0) (base64 ! unat k1) (base64 ! unat k2) (base64 ! unat k3) = w"
    unfolding four_at_once_def sextet(2) [OF less(1)] sextet(2) [OF less(2)] sextet(2) [OF less(3)] sextet(2) [OF less(4)]
    unfolding k
  proof (rule bit_word_eqI)
    fix n
    show "bit (push_bit 18 (drop_bit 18 w) OR push_bit 12 (drop_bit 12 (take_bit 18 w)) OR push_bit 6 (drop_bit 6 (take_bit 12 w)) OR take_bit 6 w) n = bit w n"
      using assms by (cases "n < 6"; cases "n < 12"; cases "n < 18") (auto simp: bit_simps)
  qed
  ultimately show ?thesis
    using that less by (simp add: sextet(1))
qed

lemma simple_run_pads:
  assumes "\<forall>c \<in> set (src_rest d). is_pad c"
  shows "simple_run unbase64 szdest d = decode_end szdest d"
proof (cases "src_rest d")
  case (Cons c cs)
  then have "unbase64 ! unat c = - 1" "c \<noteq> 0" "\<not> ascii_isspace c" "is_pad c"
    using assms not_data [of c] by (auto simp: is_pad_def ascii_isspace_def kPad64Equals_def kPad64Dot_def)
  moreover have "decode_end szdest (d\<lparr>ch := c, decode := - 1, src_rest := c # cs\<rparr>) = decode_end szdest d"
    using Cons by (intro decode_end_alike) (simp add: alike_def)
  ultimately show ?thesis
    using Cons by (simp add: simple_run_simps(2) [OF Cons])
qed (simp add: simple_run_simps(1))

lemma simple_run_b64:
  assumes "src_rest d = b64 base64 pad bs" and "dec_state d = 0" and "dest d = Some xs" and "destidx d + length bs \<le> length xs"
  shows "simple_run unbase64 (int (length xs)) d = Inr (Some (destidx d + length bs, Some (overwrite xs (destidx d) bs)))"
  using assms
proof (induction bs arbitrary: d xs rule: list_by_three)
  case Nil
  then show ?case
    by (simp add: simple_run_simps(1) decode_end_data overwrite_def)
next
  case (Three a1 a2 a3 bs)
  let ?w = "three_bytes a1 a2 a3" and ?i = "destidx d"
  obtain c0 c1 c2 c3 where c: "quad base64 ?w = [c0, c1, c2, c3]" "0 \<le> unbase64 ! unat c0" "0 \<le> unbase64 ! unat c1"
    "0 \<le> unbase64 ! unat c2" "0 \<le> unbase64 ! unat c3" "four_at_once unbase64 c0 c1 c2 c3 = ?w"
    using quad_word [of ?w] three_bytes_bit by blast
  let ?e = "d\<lparr>temp := ?w, src_rest := b64 base64 pad bs, decode := - 1, ch := 0\<rparr>"
  let ?xs = "overwrite xs ?i [a1, a2, a3]"
  have "simple_run unbase64 (int (length xs)) d = group_end unbase64 (int (length xs)) 4 ?e"
    using simple_run_four [of d c0 c1 c2 c3 "b64 base64 pad bs"] c Three.prems by simp
  also have "write_three (int (length xs)) ?e = Inr (Some (?e\<lparr>dest := Some ?xs, temp := drop_bit 16 ?w, destidx := ?i + 3\<rparr>))"
    using Three.prems overwrite_3 [of ?i xs a3 a2 a1] by (simp add: write_three_def Let_def bytes_of_three)
  then have "group_end unbase64 (int (length xs)) 4 ?e =
      simple_run unbase64 (int (length ?xs)) (?e\<lparr>dest := Some ?xs, temp := drop_bit 16 ?w, destidx := ?i + 3, dec_state := 0\<rparr>)"
    using Three.prems(4) by (simp add: group_end_def)
  also have "\<dots> = Inr (Some (?i + 3 + length bs, Some (overwrite ?xs (?i + 3) bs)))"
    using Three.prems(4) by (subst Three.IH) simp_all
  finally show ?case
    using overwrite_append [of ?i "[a1, a2, a3]" bs xs] Three.prems(4) by (simp add: ac_simps numeral_3_eq_3)
next
  case (One a)
  define k0 k1 where k: "k0 = drop_bit 2 (ucast a :: u32)" "k1 = push_bit 4 (take_bit 2 (ucast a :: u32))"
  have less: "unat k0 < 64" "unat k1 < 64"
    by (intro index_less; force simp: k bit_simps dest: bit_imp_le_length)+
  let ?pads = "if pad then [kPad64Equals, kPad64Equals] else []" and ?n = "int (length xs)"
  have src: "src_rest d = base64 ! unat k0 # base64 ! unat k1 # ?pads"
    using One.prems(1) by (simp add: masks k Let_def)
  define t where "t = push_bit 6 (push_bit 6 (temp d) OR k0) OR k1"
  define e where "e = d\<lparr>src_rest := ?pads, ch := base64 ! unat k1, decode := int (unat k1), temp := t, dec_state := 2\<rparr>"
  have "simple_run unbase64 ?n d = simple_run unbase64 ?n e"
    unfolding e_def using src less One.prems(2)
    by (cases d) (simp add: simple_run_data group_end_small sextet t_def Suc_3_eq_4 numeral_2_eq_2)
  also have "\<dots> = decode_end ?n e"
    by (rule simple_run_pads) (auto simp: e_def is_pad_def)
  also have "(ucast (drop_bit 4 t) :: u8) = a"
  proof (rule bit_word_eqI)
    fix n
    show "bit (ucast (drop_bit 4 t) :: u8) n = bit a n" if "n < LENGTH(8)"
      using that Suc_Suc_diff [of n] by (cases "n < 2") (auto simp: t_def k bit_simps)
  qed
  then have "decode_end ?n e = Inr (Some (destidx d + 1, Some (xs[destidx d := a])))"
    using One.prems(3,4) by (auto simp: e_def decode_end_def leftover_def is_pad_def kPad64Equals_def Let_def)
  finally show ?case
    using One.prems(4) by (simp add: overwrite_one)
next
  case (Two a1 a2)
  define k0 k1 k2 where k: "k0 = drop_bit 10 (Load16 a1 a2)" "k1 = drop_bit 4 (take_bit 10 (Load16 a1 a2))"
    "k2 = push_bit 2 (take_bit 4 (Load16 a1 a2))"
  have less: "unat k0 < 64" "unat k1 < 64" "unat k2 < 64"
    by (intro index_less; force simp: k Load16_def bit_simps dest: bit_imp_le_length)+
  let ?pads = "if pad then [kPad64Equals] else []" and ?n = "int (length xs)"
  have src: "src_rest d = base64 ! unat k0 # base64 ! unat k1 # base64 ! unat k2 # ?pads"
    using Two.prems(1) by (simp add: masks k Let_def take_bit_take_bit)
  define t where "t = push_bit 6 (push_bit 6 (push_bit 6 (temp d) OR k0) OR k1) OR k2"
  define e where "e = d\<lparr>src_rest := ?pads, ch := base64 ! unat k2, decode := int (unat k2), temp := t, dec_state := 3\<rparr>"
  have "simple_run unbase64 ?n d = simple_run unbase64 ?n e"
    unfolding e_def using src less Two.prems(2)
    by (cases d) (simp add: simple_run_data group_end_small sextet t_def Suc_3_eq_4 numeral_2_eq_2)
  also have "\<dots> = decode_end ?n e"
    by (rule simple_run_pads) (auto simp: e_def is_pad_def)
  also have "(ucast (drop_bit 2 t) :: u8) = a2" "(ucast (drop_bit 10 t) :: u8) = a1"
  proof -
    have "bit (ucast (drop_bit 2 t) :: u8) n = bit a2 n" "bit (ucast (drop_bit 10 t) :: u8) n = bit a1 n" if "n < LENGTH(8)" for n
      using that Suc_Suc_diff [of n] bit_imp_le_length [of a2 "8 + n"]
      by (cases "n < 2"; cases "n < 4"; auto simp: t_def k Load16_def bit_simps)+
    then show "(ucast (drop_bit 2 t) :: u8) = a2" "(ucast (drop_bit 10 t) :: u8) = a1"
      by (auto intro!: bit_word_eqI)
  qed
  then have "decode_end ?n e = Inr (Some (destidx d + 2, Some (xs[destidx d + 1 := a2, destidx d := a1])))"
    using Two.prems(3,4) by (auto simp: e_def decode_end_def leftover_def is_pad_def kPad64Equals_def Let_def)
  finally show ?case
    using Two.prems(4) by (simp add: overwrite_2 [simplified])
qed

end
section \<open>Decoding what was encoded\<close>

context alphabet
begin

lemma not_nul: "unat v < 64 \<Longrightarrow> base64 ! unat (v :: u32) \<noteq> 0"
  using sextet(1) [of v] not_data [of 0] by (metis negative_zless unat_eq_zero not_less unsigned_0 of_nat_0_le_iff zless_iff_Suc_zadd neg_0_le_iff_le not_one_le_zero)

lemma b64_not_nul: "0 \<notin> set (b64 base64 pad bs)"
proof -
  have small: "unat (drop_bit 2 (ucast a :: u32)) < 64" "unat (push_bit 4 (take_bit 2 (ucast a :: u32))) < 64"
      "unat (drop_bit 10 (Load16 a b)) < 64" "unat (drop_bit 4 (take_bit 10 (Load16 a b))) < 64" "unat (push_bit 2 (take_bit 4 (Load16 a b))) < 64"
    for a b
    by (intro index_less; force simp: Load16_def bit_simps dest: bit_imp_le_length)+
  have quad: "0 \<notin> set (quad base64 (three_bytes a b c))" for a b c
  proof -
    have "unat (drop_bit 18 (three_bytes a b c)) < 64" "unat (drop_bit 12 (take_bit 18 (three_bytes a b c))) < 64"
        "unat (drop_bit 6 (take_bit 12 (three_bytes a b c))) < 64" "unat (take_bit 6 (three_bytes a b c)) < 64"
      by (intro index_less; force simp: bit_simps dest: three_bytes_bit)+
    then show ?thesis
      using not_nul by (auto simp: quad_def Let_def masks take_bit_take_bit)
  qed
  show ?thesis
    by (induction bs rule: list_by_three)
      (use not_nul [OF small(1)] not_nul [OF small(2)] not_nul [OF small(3)] not_nul [OF small(4)] not_nul [OF small(5)] quad in
        \<open>auto simp: Let_def masks take_bit_take_bit kPad64Equals_def\<close>)
qed

lemma unescape_b64: "unescape_string unbase64 (b64 base64 pad bs) s = Inr (True, bs)"
proof (cases "bs = []")
  case True
  then show ?thesis
    by (simp add: unescape_string_def unescape_simple simple_unescape_def simple_run_simps(1) decode_end_data resized_def string_as_array_def)
next
  case False
  let ?e = "b64 base64 pad bs"
  let ?n = "3 * (length ?e div 4) + length ?e mod 4"
  have "length bs \<le> ?n"
    unfolding length_b64 by (cases pad) (simp_all, presburger+)
  moreover have "length (resized ?n s) = ?n"
    by (simp add: resized_def)
  ultimately have xs: "length bs \<le> length (resized ?n s)" "resized ?n s \<noteq> []"
    using False by (metis, metis le_zero_eq length_0_conv list.size(3))
  let ?d = "\<lparr>src_rest = ?e, decode = 0, ch = 0, temp = 0, dec_state = 0, destidx = 0, dest = Some (resized ?n s)\<rparr>"
  have "simple_run unbase64 (int (length (resized ?n s))) ?d = Inr (Some (length bs, Some (overwrite (resized ?n s) 0 bs)))"
    using simple_run_b64 [of ?d pad bs "resized ?n s"] xs by simp
  moreover have "take (length bs) (overwrite (resized ?n s) 0 bs) = bs"
    by (simp add: overwrite_def)
  ultimately show ?thesis
    using xs(2) \<open>length (resized ?n s) = ?n\<close>
    by (simp add: unescape_string_def string_as_array_def Let_def unescape_simple [OF b64_not_nul] simple_unescape_def)
qed

end

text \<open>C36. 
  Decoding what the encoder wrote gives the bytes back, for both alphabets, with and without padding
  and for every content of the two target strings. The encoder computes the size of its output in
  int, so the input has to be shorter than half a gigabyte.
\<close>

theorem Base64_round_trip:
  assumes "length src < 2 ^ 29 - 2"
  shows "and_then (Base64Escape do_padding src s) (\<lambda>e. Base64Unescape e t) = Inr (True, src) \<and>
    and_then (WebSafeBase64Escape do_padding src s) (\<lambda>e. WebSafeBase64Unescape_string e t) = Inr (True, src)"
  by (simp add: Base64Escape_def WebSafeBase64Escape_def Base64Unescape_def WebSafeBase64Unescape_string_def
      escape_string_exact [OF assms] std.unescape_b64 web.unescape_b64)

lemma Base64_round_trip_witness:
  "and_then (Base64Escape True [77, 97, 110, 250] []) (\<lambda>e. Base64Unescape e [1, 2]) = Inr (True, [77, 97, 110, 250]) \<and>
   and_then (WebSafeBase64Escape True [77, 97, 110, 250] []) (\<lambda>e. WebSafeBase64Unescape_string e [1, 2]) = Inr (True, [77, 97, 110, 250])"
  by (rule Base64_round_trip) simp

text \<open>C37. 
  The decoder works on four characters at a time and falls back to single characters, at the end and
  at everything that is not data. On an input without a zero byte it does what the loop over single
  characters alone does: the same verdict, the same count and the same bytes written, with a buffer
  of any size or with none.
\<close>

theorem Base64UnescapeInternal_simple:
  assumes "0 \<notin> set src"
  shows "Base64UnescapeInternal kUnBase64 src b szdest = simple_unescape kUnBase64 src b szdest \<and>
    Base64UnescapeInternal kUnWebSafeBase64 src b szdest = simple_unescape kUnWebSafeBase64 src b szdest"
  using std.unescape_simple [OF assms] web.unescape_simple [OF assms] by blast

lemma Base64UnescapeInternal_simple_witness:
  "Base64UnescapeInternal kUnBase64 [84, 87, 32, 70, 117] (Some [0, 0, 0]) 3 = simple_unescape kUnBase64 [84, 87, 32, 70, 117] (Some [0, 0, 0]) 3 \<and>
   Base64UnescapeInternal kUnWebSafeBase64 [84, 87, 32, 70, 117] (Some [0, 0, 0]) 3 = simple_unescape kUnWebSafeBase64 [84, 87, 32, 70, 117] (Some [0, 0, 0]) 3"
  by (rule Base64UnescapeInternal_simple) simp

text \<open>With a zero byte inside the two differ: the first loop skips it.\<close>

lemma Base64Unescape_skips_nul:
  "Base64Unescape [81, 85, 74, 68, 0, 81, 85, 74, 68] [] = Inr (True, [65, 66, 67, 65, 66, 67])"
  by code_simp

text \<open>An input of half a gigabyte makes the encoder overflow an int.\<close>

lemma Base64EscapeInternal_overflow:
  assumes "2 ^ 29 \<le> length src"
  shows "\<exists>e. Base64EscapeInternal base64 do_padding src buffer = Inl e"
proof -
  have "signed_result 32 (int (length src) * 4) = Inl (Undefined ''signed overflow'')"
    using assms by (simp add: signed_result_def)
  moreover have "src \<noteq> []"
    using assms by auto
  ultimately show ?thesis
    by (simp add: Base64EscapeInternal_def)
qed

end
