(* ===== verification/Spec2Isabelle.thy ===== *)
theory Spec2Isabelle
  imports Recv_Buffer Rw_Lock Deadlock_Profiler Memory_Manager Send_Buffer Job_Timer Thread_Manager Net_Dispatch Buffer_IO Simple_Server
    Pb_Utf8 Pb_Time_Text Pb_Coded_Read Pb_Message_Props Pb_Roundtrip_Props
    Pb_Uint128 Pb_Number_Parse Pb_Base64_Props
begin

text \<open>
  A model of the server of src/ServerPortfolio: the library ServerCore (memory, locks, jobs,
  network sessions over a Windows completion port), the places where ServerCore_Module differs
  from it, the sketch Server/SimpleIocpServer.h, and the parts of the protobuf library in
  Headers/google/protobuf that turn the messages of Common/ProtobufSource into bytes and back.

  \<^bold>\<open>The program and its theories.\<close>

  \<^item> \<open>Core_Prelude\<close>: machine integers, failures (\<open>CRASH\<close>, \<open>ASSERT_CRASH\<close> in debug and release
    builds, C++ exceptions, undefined behaviour) as the left summand of \<open>outcome\<close>, copying of bytes.
  \<^item> \<open>Rw_Lock\<close>: Lock.h, Lock.cpp and Lock.ixx. A call is a sequence of atomic accesses to the lock word;
    a run interleaves the steps of any number of threads. The guards are scoped calls.
  \<^item> \<open>Deadlock_Profiler\<close>: DeadLockProfiler.cpp. \<open>history\<close> is \<open>lockHistory\<close>, \<open>dfs\<close> and \<open>dfs_next\<close> are \<open>DFS\<close> and
    its loop, \<open>PushLock\<close> and \<open>PopLock\<close> the calls the locks make.
  \<^item> \<open>Resource_Source\<close>, \<open>Memory_Pool\<close>, \<open>Memory_Manager\<close>, \<open>Send_Buffer\<close>: headers in front of blocks, pools,
    object pools, size classes, chunks and send buffers. The heap is a map from addresses to blocks.
    \<open>resource_source\<close> is the contract all of them give their clients: what was handed out is not
    handed out again before it was given back.
  \<^item> \<open>Lock_Queue\<close>, \<open>Job_Queue\<close>, \<open>Job_Timer\<close>, \<open>Thread_Manager\<close>: jobs that run in order on whichever thread
    pushes first, the global queue of job queues nobody executes, the timer, thread ids and joining.
    A thread of \<open>Job_Queue\<close> is a stack of the calls it is inside of, each at a program point.
  \<^item> \<open>Recv_Buffer\<close>, \<open>Net_Session\<close>, \<open>Net_Dispatch\<close>: the receive buffer, sessions with their events, services
    and the listener. A run posts operations to the completion port, which completes them in any order.
  \<^item> \<open>Buffer_IO\<close>, \<open>Socket_Helper\<close>, \<open>Simple_Server\<close>: packet readers and writers, addresses and socket
    options, the process globals, the stand-alone server.
  \<^item> \<open>Pb_Utf8\<close>: stubs/structurally_valid.cc, the check every string field goes through.
  \<^item> \<open>Pb_Time\<close>, \<open>Pb_Time_Text\<close>: stubs/time.cc.
  \<^item> \<open>Pb_Varint\<close>, \<open>Pb_Stream\<close>, \<open>Pb_Coded_Input\<close>, \<open>Pb_Coded_Read\<close>: the wire format. \<open>zero_copy_input\<close> is the
    contract of \<open>ZeroCopyInputStream\<close>; the reader is proved against it and the two sources of
    zero_copy_stream_impl_lite.cc provide it.
  \<^item> \<open>Pb_Parse_Varint\<close>, \<open>Pb_Eps_Input\<close>: the input of the message parsers, \<open>EpsCopyInputStream\<close> of
    parse_context.h and parse_context.cc, with its number decoders. \<open>Pb_Eps_View\<close>, \<open>Pb_Eps_Read\<close>,
    \<open>Pb_Packed\<close>: a pointer stands for the bytes ahead and the limit in force (\<open>view_at\<close>), and every
    operation is a function of that view.
  \<^item> \<open>Pb_Fields\<close>, \<open>Pb_Field_Loop\<close>, \<open>Pb_Unknown\<close>: the loop of a parser and unknown_field_set.cc. The locale
    \<open>message_fields\<close> is what a generated parser owes the loop.
  \<^item> \<open>Pb_Messages\<close>, \<open>Pb_Message_Parse\<close>, \<open>Pb_Message_Exact\<close>, \<open>Pb_Message_Props\<close>: \<open>BuffData\<close> and \<open>TEST_MSG\<close> of
    Common/ProtobufSource/Protocol.pb.cc, parsed from memory or from a source as message_lite.cc does.
  \<^item> \<open>Pb_Output\<close>: the byte sinks \<open>ArrayOutputStream\<close> and \<open>StringOutputStream\<close> of zero_copy_stream_impl_lite.cc.
    \<open>zero_copy_output\<close> is the contract of \<open>ZeroCopyOutputStream\<close>: the bytes a sink keeps, the block it lends,
    and what is left when blocks are given back.
  \<^item> \<open>Pb_Eps_Output\<close>, \<open>Pb_Eps_Write\<close>: \<open>EpsCopyOutputStream\<close> of coded_stream.h and coded_stream.cc, with its patch
    buffer of 16 bytes of slop. \<open>eps_writer\<close> is what a serializer needs of it: a state stands for the bytes written
    so far, and room for 16 more after \<open>EnsureSpace\<close>.
  \<^item> \<open>Pb_Serialize\<close>, \<open>Pb_Serialize_Exact\<close>, \<open>Pb_Serialize_Write\<close>, \<open>Pb_Serialize_Props\<close>: \<open>ByteSizeLong\<close> and
    \<open>InternalSerialize\<close> of the two messages with their unknown fields, and the calls of message_lite.cc that
    serialize to an array, a string or a sink, against reference encoders on lists of bytes.
  \<^item> \<open>Pb_Roundtrip\<close>, \<open>Pb_Roundtrip_Props\<close>: parsing and serializing undo each other.
  \<^item> \<open>Pb_Digits\<close>: numbers as strings of digits, the reference for what follows. \<open>Pb_Uint128\<close>: stubs/int128.h and
    stubs/int128.cc, 128-bit integers as two halves, an instance of the library's classes of ordered rings.
    \<open>Pb_Number_Print\<close>, \<open>Pb_Number_Parse\<close>: the functions of stubs/strutil.cc that print and read integers.
  \<^item> \<open>Pb_Base64\<close>, \<open>Pb_Base64_Loops\<close>, \<open>Pb_Base64_Props\<close>: base64 of stubs/strutil.cc. \<open>alphabet\<close> is what a pair of tables
    has to satisfy; the two alphabets of the code are its interpretations.

  \<^bold>\<open>How the components meet.\<close> Threads get their ids from \<open>Thread_Manager\<close> and lock with them; every
  lock call of a debug build is reported to the profiler. Job queues keep their jobs in a
  \<open>LockQueue\<close> and are passed on through the global queue, and the timer pushes due jobs into them.
  The memory manager keeps one \<open>MemoryPool\<close> per size class. Sessions own a \<open>RecvBuffer\<close> and hand the
  unread bytes to the content; services create sessions, the listener accepts them. \<open>CodedInputStream\<close>
  reads blocks from a byte source and decodes varints with the array decoders. A generated parser turns
  the regions of an \<open>EpsCopyInputStream\<close> into the fields of its message, pushes a limit around each message
  inside of it, hands what it does not know to the unknown fields and its strings to the UTF-8 check.
  A serializer first computes the size of the message, which message_lite.cc uses to size the target and the
  parent message to write the length in front of it, and then writes through an \<open>EpsCopyOutputStream\<close>.

  \<^bold>\<open>What the lemmas show.\<close> Every component with a state has an invariant that all its operations keep
  (\<open>lock_inv\<close>, \<open>dfs_inv\<close> and \<open>prof_ok\<close>, \<open>pool_inv\<close>, \<open>mm_inv\<close>, \<open>range_ok\<close> and \<open>owner_ok\<close>, \<open>accounts\<close>, \<open>timer_inv\<close>,
  \<open>rb_wf\<close>, \<open>net_ok\<close>, \<open>ci_ok\<close>, \<open>eps_ok\<close>) and is lifted to all reachable states by rule induction on its runs. On top of
  it stand the numbered properties: mutual exclusion, exclusive ownership of memory, order and
  completeness of jobs, exactness of counters, equivalence of the table-driven and unrolled
  algorithms with reference definitions, round trips, and the exact conditions of the errors the
  code contains. Where the code does not do what it means to, the model follows the code and a
  property states what happens.

  \<^bold>\<open>Bounds.\<close> No definition uses fuel. Loops that end are recursive functions with their termination
  proofs. \<open>RegisterAccept\<close>, \<open>report_cycle\<close>, the refills of a reader and the loops over a stream may run for
  ever in the code and are \<open>partial_function (option)\<close>; that they return is part of the properties
  about them. Integers that can wrap around are words; cursors, times and positions whose invariants
  keep them inside their type are \<open>int\<close> or \<open>nat\<close>.

  \<^bold>\<open>Parameters.\<close> Windows is not part of the repository: Winsock calls, \<open>_aligned_malloc\<close>, \<open>VirtualAlloc\<close>,
  the tick count and the completion port appear as arguments or as choices of a run. The bodies of
  jobs and the content callbacks of a session are arguments. A byte source is a record of functions.

  \<^bold>\<open>Not modelled.\<close>

  \<^item> The module files that only rename (Types.ixx, Container.ixx, Core.ixx), that declare without defining
    (Listener.ixx) or that only forward to Windows (IOCP_Core, SocketUtils.ixx), the empty
    programs Client, Server and TestProject, and the build files.
  \<^item> \<open>BufferWriter::Reserve\<close> and the stream operators of the buffers, which cannot be compiled, and the
    cut-off \<open>RegisterAccept\<close> of the stand-alone server.
  \<^item> \<open>TypeCast\<close> and the container aliases: compile-time computation without a run-time counterpart.
  \<^item> Of Protocol.pb.cc and Protocol.pb.h the arenas, the reflection tables and the accessors that only
    read or assign a field.
  \<^item> Of the streams, \<open>CodedOutputStream\<close>, the adaptors to files and C++ streams, aliasing of strings on output
    and the deterministic order of maps: the calls modelled here reach none of them.
  \<^item> Of stubs/strutil.cc the functions that split, join, replace and escape strings and those for floating-point
    numbers: they serve the compiler and the text formats.
  \<^item> Of the vendored protobuf library, descriptors, reflection, the compiler front end and its code
    generators, text and JSON formats, maps, arenas and repeated fields, and all its tests: they are
    third-party code the server does not call beyond its generated messages. The wire format, the UTF-8
    check, the parsing, the serialization and the times were taken because every message passes through them,
    the integers and base64 because the library is built on them.
\<close>

end
